(* ===== verification/Js_Prelude.thy ===== *)
theory Js_Prelude
  imports Main "HOL-Library.Word" "HOL-Library.List_Lexorder" "HOL-Library.Sublist"
begin

text \<open>
  Shared vocabulary of the JavaScript components: strings as sequences of UTF-16 code units,
  exceptions as the left values of a sum, the array and string operations of the language that
  the sources call (\<open>indexOf\<close>, \<open>substring\<close>, \<open>substr\<close>, \<open>split\<close>, \<open>join\<close>, indexing that
  yields \<open>undefined\<close> out of range), and the list lemmas the component theories share.

  JavaScript numbers that are indices, lengths, counts and weights are modelled as \<open>int\<close> or
  \<open>nat\<close>: they are bounded by the length of a string or an array, far below \<open>2 ^ 53\<close>, where
  double arithmetic on integers is exact.
\<close>

named_theorems js_simps \<open>defining equations of the language operations, for evaluation\<close>
named_theorems js_wf \<open>well-formedness facts that every operation of a component keeps\<close>

section \<open>Strings, exceptions, out-of-range reads\<close>

type_synonym unit16 = "16 word"
type_synonym jstring = "unit16 list"

text \<open>An ASCII literal of the source, as code units.\<close>

definition js :: "string \<Rightarrow> jstring" where
  "js s = map of_char s"

text \<open>What a call can throw: the language's own type errors, and error objects of the program.\<close>

datatype js_error = TypeError | RangeError | ErrorObj string

type_synonym 'a result = "js_error + 'a"

definition and_then :: "'a result \<Rightarrow> ('a \<Rightarrow> 'b result) \<Rightarrow> 'b result" where
  "and_then m f = (case m of Inl e \<Rightarrow> Inl e | Inr x \<Rightarrow> f x)"

lemma and_then_simps [simp]:
  "and_then (Inl e) f = Inl e" "and_then (Inr x) f = f x"
  by (simp_all add: and_then_def)

lemma and_then_eq_Inr: "and_then m f = Inr y \<longleftrightarrow> (\<exists>x. m = Inr x \<and> f x = Inr y)"
  by (cases m) auto

lemma and_then_cong [fundef_cong]:
  "m = m' \<Longrightarrow> (\<And>x. m' = Inr x \<Longrightarrow> f x = f' x) \<Longrightarrow> and_then m f = and_then m' f'"
  by (cases m') auto

text \<open>\<open>forEach\<close> and \<open>map\<close> with a callback that may throw: the first exception ends the loop.\<close>

fun map_res :: "('a \<Rightarrow> 'b result) \<Rightarrow> 'a list \<Rightarrow> 'b list result" where
  "map_res f [] = Inr []"
| "map_res f (x # xs) = and_then (f x) (\<lambda>y. and_then (map_res f xs) (\<lambda>ys. Inr (y # ys)))"

lemma map_res_Inr_iff:
  "map_res f xs = Inr ys \<longleftrightarrow> list_all2 (\<lambda>x y. f x = Inr y) xs ys"
proof (induction xs arbitrary: ys)
  case Nil
  then show ?case by auto
next
  case (Cons x xs)
  then show ?case by (cases ys) (auto simp: and_then_eq_Inr)
qed

lemma map_res_total:
  assumes "\<And>x. x \<in> set xs \<Longrightarrow> f x = Inr (g x)"
  shows "map_res f xs = Inr (map g xs)"
  using assms by (induction xs) auto

text \<open>Reading \<open>a[i]\<close>: \<open>undefined\<close> (here \<open>None\<close>) when \<open>i\<close> is no index of the array.\<close>

definition at :: "'a list \<Rightarrow> int \<Rightarrow> 'a option" where
  "at xs i = (if 0 \<le> i \<and> nat i < length xs then Some (xs ! nat i) else None)"

lemma at_Some_iff: "at xs i = Some x \<longleftrightarrow> 0 \<le> i \<and> i < int (length xs) \<and> x = xs ! nat i"
  by (auto simp: at_def)

lemma at_nth [simp]: "k < length xs \<Longrightarrow> at xs (int k) = Some (xs ! k)"
  by (simp add: at_def)

text \<open>Reading a property of \<open>a[i]\<close>: a type error when \<open>a[i]\<close> is \<open>undefined\<close>.\<close>

definition at_obj :: "'a list \<Rightarrow> int \<Rightarrow> 'a result" where
  "at_obj xs i = (case at xs i of None \<Rightarrow> Inl TypeError | Some x \<Rightarrow> Inr x)"

lemma at_obj_in [simp]: "0 \<le> i \<Longrightarrow> i < int (length xs) \<Longrightarrow> at_obj xs i = Inr (xs ! nat i)"
  by (simp add: at_obj_def at_def)

lemma at_obj_Inr_iff: "at_obj xs i = Inr x \<longleftrightarrow> 0 \<le> i \<and> i < int (length xs) \<and> x = xs ! nat i"
  by (auto simp: at_obj_def at_def split: if_splits)

section \<open>String operations of the language\<close>

text \<open>\<open>s.substring(a, b)\<close>: both ends are clamped to the string and swapped when out of order.\<close>

definition clamp_index :: "'a list \<Rightarrow> int \<Rightarrow> nat" where
  "clamp_index s a = nat (max 0 (min a (int (length s))))"

definition substring :: "'a list \<Rightarrow> int \<Rightarrow> int \<Rightarrow> 'a list" where
  "substring s a b =
     (let x = clamp_index s a; y = clamp_index s b; lo = min x y; hi = max x y
      in take (hi - lo) (drop lo s))"

lemma substring_in_range:
  assumes "0 \<le> a" "a \<le> b" "b \<le> int (length s)"
  shows "substring s a b = take (nat b - nat a) (drop (nat a) s)"
proof -
  have "clamp_index s a = nat a" "clamp_index s b = nat b"
    using assms by (simp_all add: clamp_index_def)
  then show ?thesis using assms by (simp add: substring_def Let_def)
qed

lemma length_substring:
  assumes "0 \<le> a" "a \<le> b" "b \<le> int (length s)"
  shows "length (substring s a b) = nat b - nat a"
  using assms by (simp add: substring_in_range)

text \<open>
  \<open>s.slice(a, b)\<close> with non-negative arguments, and \<open>s.substr(i, n)\<close>: no swap, and a start past
  the end gives the empty string.
\<close>

definition slice :: "'a list \<Rightarrow> nat \<Rightarrow> nat \<Rightarrow> 'a list" where
  "slice s a b = take (b - a) (drop a s)"

text \<open>\<open>xs.join(d)\<close> and \<open>s.split(d)\<close> for a separator of one code unit.\<close>

fun join :: "'a list \<Rightarrow> 'a list list \<Rightarrow> 'a list" where
  "join d [] = []"
| "join d [x] = x"
| "join d (x # y # ys) = x @ d @ join d (y # ys)"

fun split1 :: "'a \<Rightarrow> 'a list \<Rightarrow> 'a list list" where
  "split1 d [] = [[]]"
| "split1 d (c # cs) =
     (if c = d then [] # split1 d cs
      else (case split1 d cs of [] \<Rightarrow> [[c]] | p # ps \<Rightarrow> (c # p) # ps))"

lemma split1_not_Nil [simp]: "split1 d s \<noteq> []"
  by (induction s) (auto split: list.splits)

lemma split1_plain: "d \<notin> set s \<Longrightarrow> split1 d s = [s]"
  by (induction s) auto

lemma split1_append: "split1 d (s @ d # t) = split1 d s @ split1 d t"
  by (induction s) (auto split: list.splits simp: append_eq_Cons_conv)

lemma join_Cons: "join d (x # xs) = (if xs = [] then x else x @ d @ join d xs)"
  by (cases xs) auto

lemma join_split1: "join [d] (split1 d s) = s"
  by (induction s) (auto simp: join_Cons split: list.splits)

text \<open>Splitting a joined list of separator-free parts gives the parts back.\<close>

lemma split1_join:
  assumes "xs \<noteq> []" "\<And>x. x \<in> set xs \<Longrightarrow> d \<notin> set x"
  shows "split1 d (join [d] xs) = xs"
  using assms
  by (induction "[d]" xs rule: join.induct) (auto simp: split1_plain split1_append)

lemma split1_parts: "p \<in> set (split1 d s) \<Longrightarrow> d \<notin> set p"
  by (induction s arbitrary: p) (auto split: list.splits if_splits)

lemma join_Nil: "join [] xs = concat xs"
  by (induction "[] :: 'a list" xs rule: join.induct) auto

lemma list_all2_right: "list_all2 P xs ys \<Longrightarrow> y \<in> set ys \<Longrightarrow> \<exists>x \<in> set xs. P x y"
  and list_all2_left: "list_all2 P xs ys \<Longrightarrow> x \<in> set xs \<Longrightarrow> \<exists>y \<in> set ys. P x y"
  by (auto simp: list_all2_conv_all_nth in_set_conv_nth) fastforce+

section \<open>Consecutive pieces of a list\<close>

text \<open>
  Cutting a list at increasing positions and putting the pieces together again gives the list.
\<close>

lemma take_drop_split:
  "a \<le> b \<Longrightarrow> take (b - a) (drop a xs) @ drop b xs = drop a xs"
proof -
  assume "a \<le> b"
  have "take (b - a) (drop a xs) @ drop (b - a) (drop a xs) = drop a xs"
    by (rule append_take_drop_id)
  with \<open>a \<le> b\<close> show ?thesis by simp
qed

lemma take_drop_join:
  assumes "a \<le> b" "b \<le> c"
  shows "take (b - a) (drop a xs) @ take (c - b) (drop b xs) = take (c - a) (drop a xs)"
proof -
  have "take (c - a) (drop a xs) = take ((b - a) + (c - b)) (drop a xs)"
    using assms by simp
  also have "\<dots> = take (b - a) (drop a xs) @ take (c - b) (drop (b - a) (drop a xs))"
    by (rule take_add)
  finally show ?thesis using assms by simp
qed

section \<open>Lexicographic order of strings\<close>

lemma strict_prefix_less:
  fixes s t :: "'a::linorder list"
  assumes "prefix s t" "s \<noteq> t"
  shows "s < t"
proof -
  from assms(1) obtain u where t: "t = s @ u" by (auto simp: prefix_def)
  with assms(2) obtain v vs where u: "u = v # vs" by (cases u) auto
  show ?thesis
    unfolding list_less_def lexord_def using t u by auto
qed

lemma less_first_difference:
  fixes s t :: "'a::linorder list"
  assumes "a < b" "take k s = take k t" "k < length s" "k < length t" "s ! k = a" "t ! k = b"
  shows "s < t"
proof -
  have "s = take k s @ a # drop (Suc k) s"
    using assms by (metis id_take_nth_drop)
  moreover have "t = take k s @ b # drop (Suc k) t"
    using assms by (metis id_take_nth_drop)
  ultimately show ?thesis
    unfolding list_less_def lexord_def using assms(1) by fastforce
qed

end
