(* ===== verification/Wordcut_Types.thy ===== *)
theory Wordcut_Types
  imports Js_Prelude
begin

text \<open>
  The objects the word cutter passes around (\<open>wordcut.js\<close>, modules 1 to 8): the rules that create
  acceptors, the acceptor objects, the entries of the path table and the ranges of the result.
\<close>

text \<open>
  The entries of \<open>acceptors.creators\<close>: four latin rules, two Thai rules and a dictionary, which is
  its array of words.
\<close>

datatype creator =
    WordRule | NumberRule | SpaceRule | SingleSymbolRule
  | Rule0 | PartRule
  | WordcutDict "jstring list"

text \<open>
  An acceptor object. The field \<open>acc_rule\<close> names the rule whose \<open>transit\<close> method the object
  carries; \<open>acc_l\<close> and \<open>acc_r\<close> are read by the dictionary only, \<open>acc_patterns\<close> by \<open>PartRule\<close>
  only. A property that the source leaves undefined is \<open>None\<close>.
\<close>

record acceptor =
  strOffset :: nat
  isFinal :: bool
  isError :: bool
  acc_tag :: string
  acc_type :: string
  acc_w :: int
  acc_unk :: "int option"
  acc_mw :: "int option"
  acc_l :: int
  acc_r :: int
  acc_patterns :: "jstring list"
  acc_rule :: creator

text \<open>The acceptor literal that all rules but the dictionary and \<open>PartRule\<close> return.\<close>

definition base_acceptor :: "creator \<Rightarrow> string \<Rightarrow> acceptor" where
  "base_acceptor c t =
     \<lparr>strOffset = 0, isFinal = False, isError = False, acc_tag = t, acc_type = t, acc_w = 1,
      acc_unk = None, acc_mw = None, acc_l = 0, acc_r = 0, acc_patterns = [], acc_rule = c\<rparr>"

text \<open>
  An entry of the path: \<open>pi_p\<close> is the position the last piece starts at (\<open>null\<close> in the initial
  entry), the other numbers are the cost of the best cut up to here.
\<close>

record pathinfo =
  pi_p :: "int option"
  pi_mw :: int
  pi_w :: int
  pi_unk :: int
  pi_type :: string
  pi_merge :: "int option"

record range =
  rg_s :: int
  rg_e :: int

end
