(* ===== verification/Wordcut_Dict.thy ===== *)
theory Wordcut_Dict
  imports Wordcut_Types
begin

text \<open>
  The dictionary of the word cutter (\<open>wordcut.js\<close>, module 2): a sorted array of words, searched
  by a binary search that narrows a range of words one character at a time. The binary search is
  proved to find the first and the last word with the wanted character, and the range of an
  acceptor is proved to hold exactly the words that start with the text read so far.
\<close>

section \<open>Model\<close>

datatype side = LEFT | RIGHT

text \<open>
  The loop of \<open>dictSeek\<close>: \<open>l\<close>, \<open>r\<close> and \<open>ans\<close> are its variables, reading a property of
  \<open>this.dict[m]\<close> out of range throws. The loop ends because each round shrinks \<open>l .. r\<close>.
\<close>

function dictSeek_loop ::
  "jstring list \<Rightarrow> int \<Rightarrow> int \<Rightarrow> unit16 \<Rightarrow> nat \<Rightarrow> side \<Rightarrow> int option \<Rightarrow> int option result" where
  "dictSeek_loop dict l r ch off pos ans =
     (if l \<le> r then
        (let m = (l + r) div 2 in
         and_then (at_obj dict m) (\<lambda>dict_item.
           if length dict_item \<le> off then
             dictSeek_loop dict (m + 1) r ch off pos ans
           else
             (let ch' = dict_item ! off in
              if ch' < ch then dictSeek_loop dict (m + 1) r ch off pos ans
              else if ch' > ch then dictSeek_loop dict l (m - 1) ch off pos ans
              else if pos = LEFT then dictSeek_loop dict l (m - 1) ch off pos (Some m)
              else dictSeek_loop dict (m + 1) r ch off pos (Some m))))
      else Inr ans)"
  by pat_completeness auto
termination
  by (relation "measure (\<lambda>(dict, l, r, ch, off, pos, ans). nat (r - l + 1))") auto

declare dictSeek_loop.simps [simp del]

definition dictSeek ::
  "jstring list \<Rightarrow> int \<Rightarrow> int \<Rightarrow> unit16 \<Rightarrow> nat \<Rightarrow> side \<Rightarrow> int option result" where
  "dictSeek dict l r ch off pos = dictSeek_loop dict l r ch off pos None"

text \<open>\<open>a.sort()\<close> orders strings by their code units; the filter keeps the first of equal items.\<close>

definition sortuniq :: "jstring list \<Rightarrow> jstring list" where
  "sortuniq a =
     (let arr = sort a
      in map (\<lambda>pos. arr ! pos)
           (filter (\<lambda>pos. pos = 0 \<or> arr ! pos \<noteq> arr ! (pos - 1)) [0..<length arr]))"

definition finalizeDict :: "jstring list \<Rightarrow> jstring list" where
  "finalizeDict dict = sortuniq dict"

text \<open>\<open>isFinal\<close>, \<open>createAcceptor\<close> and \<open>transit\<close> of the dictionary.\<close>

definition dict_isFinal :: "jstring list \<Rightarrow> acceptor \<Rightarrow> bool result" where
  "dict_isFinal dict a =
     and_then (at_obj dict (acc_l a)) (\<lambda>word. Inr (length word = strOffset a))"

definition dict_createAcceptor :: "jstring list \<Rightarrow> acceptor" where
  "dict_createAcceptor dict =
     (base_acceptor (WordcutDict dict) ''DICT'')\<lparr>acc_l := 0, acc_r := int (length dict) - 1\<rparr>"

text \<open>
  The second search may in principle return \<open>null\<close>, which the source stores in \<open>acceptor.r\<close> and
  which counts as \<open>0\<close> in the next comparison; the proofs below show it never does.
\<close>

definition dict_transit :: "jstring list \<Rightarrow> acceptor \<Rightarrow> unit16 \<Rightarrow> acceptor result" where
  "dict_transit dict a ch =
     and_then (dictSeek dict (acc_l a) (acc_r a) ch (strOffset a) LEFT) (\<lambda>lres.
       case lres of
         Some l \<Rightarrow>
           and_then (dictSeek dict l (acc_r a) ch (strOffset a) RIGHT) (\<lambda>rres.
             let a' = a\<lparr>acc_l := l, acc_r := (case rres of Some r \<Rightarrow> r | None \<Rightarrow> 0),
                        strOffset := strOffset a + 1\<rparr>
             in and_then (dict_isFinal dict a') (\<lambda>fin. Inr (a'\<lparr>isFinal := fin\<rparr>)))
       | None \<Rightarrow> Inr (a\<lparr>isError := True\<rparr>))"

section \<open>Binary search on the character at an offset\<close>

text \<open>
  The order in which the search sees the words of a range: words too short for the offset come
  first, the others by their character at the offset.
\<close>

definition word_key :: "nat \<Rightarrow> jstring \<Rightarrow> nat" where
  "word_key off w = (if length w \<le> off then 0 else Suc (unat (w ! off)))"

definition seek_key :: "jstring list \<Rightarrow> nat \<Rightarrow> int \<Rightarrow> nat" where
  "seek_key dict off i = word_key off (dict ! nat i)"

definition seekable :: "jstring list \<Rightarrow> nat \<Rightarrow> int \<Rightarrow> int \<Rightarrow> bool" where
  "seekable dict off l r \<longleftrightarrow>
     0 \<le> l \<and> r < int (length dict) \<and>
     (\<forall>i j. l \<le> i \<longrightarrow> i \<le> j \<longrightarrow> j \<le> r \<longrightarrow> seek_key dict off i \<le> seek_key dict off j)"

lemma seekable_sub:
  "seekable dict off l r \<Longrightarrow> l \<le> l' \<Longrightarrow> r' \<le> r \<Longrightarrow> seekable dict off l' r'"
  by (auto simp: seekable_def)

lemma seekable_mono:
  "seekable dict off l r \<Longrightarrow> l \<le> i \<Longrightarrow> i \<le> j \<Longrightarrow> j \<le> r \<Longrightarrow>
   seek_key dict off i \<le> seek_key dict off j"
  by (simp add: seekable_def)

lemma seekable_less:
  assumes "seekable dict off l r" "seek_key dict off i < seek_key dict off j"
    and "l \<le> j" "i \<le> r"
  shows "i < j"
proof (rule ccontr)
  assume "\<not> i < j"
  then have "seek_key dict off j \<le> seek_key dict off i"
    using assms by (intro seekable_mono) auto
  with assms(2) show False by simp
qed

text \<open>One round of the loop in terms of the key of the middle word.\<close>

lemma dictSeek_loop_step:
  assumes "seekable dict off l r" "l \<le> r"
  defines "m \<equiv> (l + r) div 2"
  shows "dictSeek_loop dict l r ch off pos ans =
     (if seek_key dict off m < Suc (unat ch) then dictSeek_loop dict (m + 1) r ch off pos ans
      else if Suc (unat ch) < seek_key dict off m then dictSeek_loop dict l (m - 1) ch off pos ans
      else if pos = LEFT then dictSeek_loop dict l (m - 1) ch off pos (Some m)
      else dictSeek_loop dict (m + 1) r ch off pos (Some m))"
proof -
  have "l \<le> m" "m \<le> r" using assms(2) by (auto simp: m_def)
  then have "at_obj dict m = Inr (dict ! nat m)"
    using assms(1) by (intro at_obj_in) (auto simp: seekable_def)
  then show ?thesis
    using assms(2)
    by (subst dictSeek_loop.simps)
      (auto simp: m_def [symmetric] seek_key_def word_key_def Let_def word_less_nat_alt)
qed

lemma dictSeek_loop_done: "\<not> l \<le> r \<Longrightarrow> dictSeek_loop dict l r ch off pos ans = Inr ans"
  by (subst dictSeek_loop.simps) simp

lemma dictSeek_loop_miss:
  assumes "seekable dict off l r" "\<And>i. l \<le> i \<Longrightarrow> i \<le> r \<Longrightarrow> seek_key dict off i \<noteq> Suc (unat ch)"
  shows "dictSeek_loop dict l r ch off pos ans = Inr ans"
  using assms
proof (induction "nat (r - l + 1)" arbitrary: l r rule: less_induct)
  case less
  show ?case
  proof (cases "l \<le> r")
    case True
    define m where "m = (l + r) div 2"
    have m: "l \<le> m" "m \<le> r" using True by (auto simp: m_def)
    have right: "dictSeek_loop dict (m + 1) r ch off pos ans = Inr ans"
      by (rule less.hyps) (use less.prems m in \<open>auto intro: seekable_sub\<close>)
    have left: "dictSeek_loop dict l (m - 1) ch off pos ans = Inr ans"
      by (rule less.hyps) (use less.prems m in \<open>auto intro: seekable_sub\<close>)
    from m less.prems(2) have "seek_key dict off m \<noteq> Suc (unat ch)" by blast
    with left right show ?thesis
      by (subst dictSeek_loop_step [OF less.prems(1) True]) (auto simp: m_def [symmetric])
  next
    case False
    then show ?thesis by (rule dictSeek_loop_done)
  qed
qed

lemma dictSeek_loop_first:
  assumes "seekable dict off l r" "l \<le> a" "a \<le> r" "seek_key dict off a = Suc (unat ch)"
    and "\<And>i. l \<le> i \<Longrightarrow> i < a \<Longrightarrow> seek_key dict off i < Suc (unat ch)"
  shows "dictSeek_loop dict l r ch off LEFT ans = Inr (Some a)"
  using assms
proof (induction "nat (r - l + 1)" arbitrary: l r ans rule: less_induct)
  case less
  then have lr: "l \<le> r" by simp
  define m where "m = (l + r) div 2"
  have m: "l \<le> m" "m \<le> r" using lr by (auto simp: m_def)
  note step = dictSeek_loop_step [OF less.prems(1) lr, folded m_def, of ch LEFT ans]
  consider (low) "seek_key dict off m < Suc (unat ch)" | (high) "Suc (unat ch) < seek_key dict off m"
    | (hit) "seek_key dict off m = Suc (unat ch)" by linarith
  then show ?case
  proof cases
    case low
    then have "m < a"
      using seekable_less [OF less.prems(1)] less.prems(2,4) m by simp
    then have "dictSeek_loop dict (m + 1) r ch off LEFT ans = Inr (Some a)"
      by (intro less.hyps) (use less.prems m in \<open>auto intro: seekable_sub\<close>)
    with low step show ?thesis by simp
  next
    case high
    then have "a < m"
      using seekable_less [OF less.prems(1)] less.prems(3,4) m by simp
    then have "dictSeek_loop dict l (m - 1) ch off LEFT ans = Inr (Some a)"
      by (intro less.hyps) (use less.prems m in \<open>auto intro: seekable_sub\<close>)
    with high step show ?thesis by simp
  next
    case hit
    have *: "dictSeek_loop dict l (m - 1) ch off LEFT (Some m) = Inr (Some a)"
    proof (cases "m = a")
      case True
      show ?thesis
        unfolding True
        by (rule dictSeek_loop_miss)
          (use less.prems m True in \<open>force intro: seekable_sub\<close>)+
    next
      case False
      with hit less.prems(5) [of m] m have "a < m" by force
      then show ?thesis
        by (intro less.hyps) (use less.prems m in \<open>auto intro: seekable_sub\<close>)
    qed
    with hit step show ?thesis by simp
  qed
qed

lemma dictSeek_loop_last:
  assumes "seekable dict off l r" "l \<le> a" "a \<le> r" "seek_key dict off a = Suc (unat ch)"
    and "\<And>i. a < i \<Longrightarrow> i \<le> r \<Longrightarrow> Suc (unat ch) < seek_key dict off i"
  shows "dictSeek_loop dict l r ch off RIGHT ans = Inr (Some a)"
  using assms
proof (induction "nat (r - l + 1)" arbitrary: l r ans rule: less_induct)
  case less
  then have lr: "l \<le> r" by simp
  define m where "m = (l + r) div 2"
  have m: "l \<le> m" "m \<le> r" using lr by (auto simp: m_def)
  note step = dictSeek_loop_step [OF less.prems(1) lr, folded m_def, of ch RIGHT ans]
  consider (low) "seek_key dict off m < Suc (unat ch)" | (high) "Suc (unat ch) < seek_key dict off m"
    | (hit) "seek_key dict off m = Suc (unat ch)" by linarith
  then show ?case
  proof cases
    case low
    then have "m < a"
      using seekable_less [OF less.prems(1)] less.prems(2,4) m by simp
    then have "dictSeek_loop dict (m + 1) r ch off RIGHT ans = Inr (Some a)"
      by (intro less.hyps) (use less.prems m in \<open>auto intro: seekable_sub\<close>)
    with low step show ?thesis by simp
  next
    case high
    then have "a < m"
      using seekable_less [OF less.prems(1)] less.prems(3,4) m by simp
    then have "dictSeek_loop dict l (m - 1) ch off RIGHT ans = Inr (Some a)"
      by (intro less.hyps) (use less.prems m in \<open>auto intro: seekable_sub\<close>)
    with high step show ?thesis by simp
  next
    case hit
    have *: "dictSeek_loop dict (m + 1) r ch off RIGHT (Some m) = Inr (Some a)"
    proof (cases "m = a")
      case True
      show ?thesis
        unfolding True
        by (rule dictSeek_loop_miss)
          (use less.prems m True in \<open>force intro: seekable_sub\<close>)+
    next
      case False
      with hit less.prems(5) [of m] m have "m < a" by force
      then show ?thesis
        by (intro less.hyps) (use less.prems m in \<open>auto intro: seekable_sub\<close>)
    qed
    with hit step show ?thesis by simp
  qed
qed

section \<open>The words of a range\<close>

text \<open>
  A range \<open>l .. r\<close> stands for a text \<open>s\<close> when it holds exactly the words that start with \<open>s\<close>.
  In a strictly sorted dictionary such a range can be searched by the character at \<open>length s\<close>.
\<close>

definition words_from :: "jstring list \<Rightarrow> jstring \<Rightarrow> int \<Rightarrow> int \<Rightarrow> bool" where
  "words_from dict s l r \<longleftrightarrow>
     0 \<le> l \<and> r < int (length dict) \<and>
     (\<forall>i. i < length dict \<longrightarrow> (l \<le> int i \<and> int i \<le> r) = prefix s (dict ! i))"

abbreviation strictly_sorted :: "jstring list \<Rightarrow> bool" where
  "strictly_sorted \<equiv> sorted_wrt (<)"

lemma words_from_all: "words_from dict [] 0 (int (length dict) - 1)"
  by (auto simp: words_from_def)

lemma words_from_prefix:
  assumes "words_from dict s l r" "l \<le> i" "i \<le> r"
  shows "prefix s (dict ! nat i)"
  using assms by (auto simp: words_from_def dest: spec [of _ "nat i"])

lemma prefix_snoc_iff:
  "prefix s w \<Longrightarrow> prefix (s @ [c]) w \<longleftrightarrow> length s < length w \<and> w ! length s = c"
  by (auto simp: prefix_def nth_append) (metis append_Nil2 list.exhaust nth_Cons_0 append_Cons append_Nil)

lemma seek_key_hit_iff:
  assumes "words_from dict s l r" "l \<le> i" "i \<le> r"
  shows "seek_key dict (length s) i = Suc (unat c) \<longleftrightarrow> prefix (s @ [c]) (dict ! nat i)"
  using prefix_snoc_iff [OF words_from_prefix [OF assms], of c]
  by (auto simp: seek_key_def word_key_def word_unat_eq_iff)

lemma prefix_order_key:
  assumes "prefix s v" "prefix s w" "v < w"
  shows "word_key (length s) v \<le> word_key (length s) w"
proof (rule ccontr)
  assume neg: "\<not> ?thesis"
  show False
  proof (cases "length w \<le> length s")
    case True
    with assms(2) have "w = s" by (auto simp: prefix_def)
    with assms(1,3) show False
      using strict_prefix_less [of w v] by (metis order.asym order.irrefl)
  next
    case False
    with neg have "length s < length v" "w ! length s < v ! length s"
      by (auto simp: word_key_def word_less_nat_alt split: if_splits)
    moreover have "take (length s) w = take (length s) v"
      using assms(1,2) by (auto simp: prefix_def)
    ultimately have "w < v"
      using False by (intro less_first_difference [of "w ! length s" "v ! length s"]) auto
    with assms(3) show False by simp
  qed
qed

lemma words_from_seekable:
  assumes "strictly_sorted dict" "words_from dict s l r"
  shows "seekable dict (length s) l r"
  unfolding seekable_def
proof (intro conjI allI impI)
  show "0 \<le> l" "r < int (length dict)" using assms(2) by (auto simp: words_from_def)
  fix i j assume ij: "l \<le> i" "i \<le> j" "j \<le> r"
  show "seek_key dict (length s) i \<le> seek_key dict (length s) j"
  proof (cases "i = j")
    case False
    with ij assms(2) have "nat i < nat j" "nat j < length dict"
      by (auto simp: words_from_def)
    then have "dict ! nat i < dict ! nat j"
      using assms(1) by (simp add: sorted_wrt_nth_less)
    then show ?thesis
      unfolding seek_key_def
      by (intro prefix_order_key) (use ij in \<open>auto intro: words_from_prefix [OF assms(2)]\<close>)
  qed simp
qed

section \<open>The dictionary acceptor is the prefix automaton of the words\<close>

definition dict_at :: "jstring list \<Rightarrow> jstring \<Rightarrow> acceptor \<Rightarrow> bool" where
  "dict_at dict s a \<longleftrightarrow>
     words_from dict s (acc_l a) (acc_r a) \<and> strOffset a = length s \<and> \<not> isError a \<and>
     acc_rule a = WordcutDict dict"

definition has_prefix :: "jstring list \<Rightarrow> jstring \<Rightarrow> bool" where
  "has_prefix dict s \<longleftrightarrow> list_ex (prefix s) dict"

lemma dict_at_create: "dict_at dict [] (dict_createAcceptor dict)"
  by (simp add: dict_at_def dict_createAcceptor_def base_acceptor_def words_from_all)

text \<open>The sub-range of the words that continue with \<open>c\<close>: its ends are what the search finds.\<close>

lemma words_from_snoc:
  assumes "strictly_sorted dict" "words_from dict s l r" "has_prefix dict (s @ [c])"
  obtains a b where "l \<le> a" "a \<le> b" "b \<le> r" "words_from dict (s @ [c]) a b"
    "dictSeek dict l r c (length s) LEFT = Inr (Some a)"
    "dictSeek dict a r c (length s) RIGHT = Inr (Some b)"
proof -
  let ?key = "seek_key dict (length s)" and ?t = "Suc (unat c)"
  define H where "H = {i \<in> {l..r}. ?key i = ?t}"
  note seek = words_from_seekable [OF assms(1,2)]
  from assms(3) obtain k where k: "k < length dict" "prefix (s @ [c]) (dict ! k)"
    by (auto simp: has_prefix_def list_ex_length)
  then have "l \<le> int k" "int k \<le> r"
    using assms(2) by (auto simp: words_from_def dest: append_prefixD)
  with k have "int k \<in> H"
    using seek_key_hit_iff [OF assms(2), of "int k" c] by (simp add: H_def)
  then have H: "finite H" "H \<noteq> {}" unfolding H_def by (auto intro: finite_subset [of _ "{l..r}"])
  define a b where "a = Min H" and "b = Max H"
  have ab: "a \<in> H" "b \<in> H" using H by (auto simp: a_def b_def)
  have bounds: "\<And>i. i \<in> H \<Longrightarrow> a \<le> i \<and> i \<le> b" using H by (auto simp: a_def b_def)
  have in_H: "i \<in> H" if "a \<le> i" "i \<le> b" for i
    using that ab seekable_mono [OF seek, of a i] seekable_mono [OF seek, of i b]
    by (auto simp: H_def)
  have "dictSeek dict l r c (length s) LEFT = Inr (Some a)"
    unfolding dictSeek_def
  proof (rule dictSeek_loop_first [OF seek])
    fix i assume "l \<le> i" "i < a"
    moreover from this have "i \<notin> H" using bounds by force
    ultimately show "?key i < ?t"
      using ab seekable_mono [OF seek, of i a] by (force simp: H_def)
  qed (use ab in \<open>auto simp: H_def\<close>)
  moreover have "dictSeek dict a r c (length s) RIGHT = Inr (Some b)"
    unfolding dictSeek_def
  proof (rule dictSeek_loop_last)
    show "seekable dict (length s) a r" using seek ab by (auto simp: H_def intro: seekable_sub)
    fix i assume "b < i" "i \<le> r"
    moreover from this have "i \<notin> H" using bounds by force
    ultimately show "?t < ?key i"
      using ab seekable_mono [OF seek, of b i] by (force simp: H_def)
  qed (use ab bounds in \<open>auto simp: H_def\<close>)
  moreover have "words_from dict (s @ [c]) a b"
    unfolding words_from_def
  proof (intro conjI allI impI)
    show "0 \<le> a" "b < int (length dict)"
      using ab assms(2) by (auto simp: H_def words_from_def)
    fix i assume i: "i < length dict"
    show "(a \<le> int i \<and> int i \<le> b) = prefix (s @ [c]) (dict ! i)"
    proof
      assume "a \<le> int i \<and> int i \<le> b"
      then have "int i \<in> H" using in_H by blast
      then show "prefix (s @ [c]) (dict ! i)"
        using seek_key_hit_iff [OF assms(2), of "int i" c] by (simp add: H_def)
    next
      assume pre: "prefix (s @ [c]) (dict ! i)"
      then have "l \<le> int i" "int i \<le> r"
        using assms(2) i append_prefixD [OF pre] unfolding words_from_def by blast+
      then have "int i \<in> H"
        using pre seek_key_hit_iff [OF assms(2), of "int i" c] by (simp add: H_def)
      then show "a \<le> int i \<and> int i \<le> b" by (rule bounds)
    qed
  qed
  ultimately show ?thesis using that ab bounds by (auto simp: H_def)
qed

lemma dictSeek_none:
  assumes "strictly_sorted dict" "words_from dict s l r" "\<not> has_prefix dict (s @ [c])"
  shows "dictSeek dict l r c (length s) LEFT = Inr None"
  unfolding dictSeek_def
proof (rule dictSeek_loop_miss [OF words_from_seekable [OF assms(1,2)]])
  fix i assume i: "l \<le> i" "i \<le> r"
  then have "nat i < length dict" using assms(2) by (auto simp: words_from_def)
  then have "\<not> prefix (s @ [c]) (dict ! nat i)"
    using assms(3) by (auto simp: has_prefix_def list_ex_length)
  then show "seek_key dict (length s) i \<noteq> Suc (unat c)"
    using seek_key_hit_iff [OF assms(2) i] by simp
qed

text \<open>The first word of a range is the text itself exactly when the text is a word.\<close>

lemma words_from_first:
  assumes "strictly_sorted dict" "words_from dict s l r" "l \<le> r"
  shows "length (dict ! nat l) = length s \<longleftrightarrow> s \<in> set dict"
proof
  assume "length (dict ! nat l) = length s"
  moreover have "prefix s (dict ! nat l)" using words_from_prefix [OF assms(2)] assms(3) by simp
  ultimately have "dict ! nat l = s" by (auto simp: prefix_def)
  moreover have "nat l < length dict" using assms(2,3) by (auto simp: words_from_def)
  ultimately show "s \<in> set dict" by auto
next
  assume "s \<in> set dict"
  then obtain k where k: "k < length dict" "dict ! k = s" by (auto simp: in_set_conv_nth)
  then have lk: "l \<le> int k" "int k \<le> r" using assms(2) by (auto simp: words_from_def)
  have "nat l = k"
  proof (rule ccontr)
    assume "nat l \<noteq> k"
    with lk assms(2) have "nat l < k" by (auto simp: words_from_def)
    then have "dict ! nat l < s" using sorted_wrt_nth_less [OF assms(1)] k by blast
    moreover have "prefix s (dict ! nat l)" using words_from_prefix [OF assms(2)] assms(3) by simp
    ultimately show False using strict_prefix_less [of s "dict ! nat l"] by force
  qed
  with k show "length (dict ! nat l) = length s" by simp
qed

lemma dict_transit_hit:
  assumes "strictly_sorted dict" "dict_at dict s a" "has_prefix dict (s @ [c])"
  obtains a' where "dict_transit dict a c = Inr a'" "dict_at dict (s @ [c]) a'"
    "isFinal a' \<longleftrightarrow> s @ [c] \<in> set dict"
    "acc_type a' = acc_type a" "acc_tag a' = acc_tag a"
    "acc_w a' = acc_w a" "acc_unk a' = acc_unk a" "acc_mw a' = acc_mw a"
proof -
  from assms(2) have wf: "words_from dict s (acc_l a) (acc_r a)" and off: "strOffset a = length s"
    by (auto simp: dict_at_def)
  obtain l r where lr: "acc_l a \<le> l" "l \<le> r" "r \<le> acc_r a" and wf': "words_from dict (s @ [c]) l r"
    and seek: "dictSeek dict (acc_l a) (acc_r a) c (length s) LEFT = Inr (Some l)"
      "dictSeek dict l (acc_r a) c (length s) RIGHT = Inr (Some r)"
    by (rule words_from_snoc [OF assms(1) wf assms(3)])
  let ?a = "a\<lparr>acc_l := l, acc_r := r, strOffset := length s + 1, isFinal := s @ [c] \<in> set dict\<rparr>"
  have "at_obj dict l = Inr (dict ! nat l)"
    using wf' lr by (intro at_obj_in) (auto simp: words_from_def)
  then have "dict_transit dict a c = Inr ?a"
    using words_from_first [OF assms(1) wf' lr(2)]
    by (simp add: dict_transit_def dict_isFinal_def seek off Let_def)
  moreover have "dict_at dict (s @ [c]) ?a"
    using assms(2) wf' by (simp add: dict_at_def)
  ultimately show ?thesis by (intro that [of ?a]) simp_all
qed

lemma dict_transit_miss:
  assumes "strictly_sorted dict" "dict_at dict s a" "\<not> has_prefix dict (s @ [c])"
  shows "dict_transit dict a c = Inr (a\<lparr>isError := True\<rparr>)"
  using dictSeek_none [OF assms(1) _ assms(3)] assms(2)
  by (simp add: dict_at_def dict_transit_def)

section \<open>Building the dictionary\<close>

lemma remdups_adj_snoc:
  "remdups_adj (xs @ [x]) =
     (if xs \<noteq> [] \<and> last xs = x then remdups_adj xs else remdups_adj xs @ [x])"
  by (induction xs rule: remdups_adj.induct) auto

lemma keep_changes_remdups_adj:
  "map ((!) xs) (filter (\<lambda>p. p = 0 \<or> xs ! p \<noteq> xs ! (p - 1)) [0..<length xs]) = remdups_adj xs"
proof (induction xs rule: rev_induct)
  case (snoc x xs)
  let ?P = "\<lambda>zs p. p = 0 \<or> zs ! p \<noteq> zs ! (p - Suc 0)"
  have "filter (?P (xs @ [x])) [0..<length xs] = filter (?P xs) [0..<length xs]"
    by (rule filter_cong) (auto simp: nth_append)
  moreover have "map ((!) (xs @ [x])) (filter (?P xs) [0..<length xs]) =
      map ((!) xs) (filter (?P xs) [0..<length xs])"
    by (auto simp: nth_append)
  ultimately have "map ((!) (xs @ [x])) (filter (?P (xs @ [x])) [0..<length xs]) = remdups_adj xs"
    using snoc by (simp only: One_nat_def)
  moreover have "?P (xs @ [x]) (length xs) \<longleftrightarrow> \<not> (xs \<noteq> [] \<and> last xs = x)"
    by (cases "xs = []") (auto simp: nth_append last_conv_nth)
  ultimately show ?case by (simp add: remdups_adj_snoc)
qed simp

lemma sortuniq_remdups_adj: "sortuniq a = remdups_adj (sort a)"
  by (simp add: sortuniq_def Let_def keep_changes_remdups_adj [simplified])

lemma sorted_remdups_adj_strict: "sorted xs \<Longrightarrow> sorted_wrt (<) (remdups_adj xs)"
  by (induction xs rule: remdups_adj.induct) (auto simp: less_le)

lemma set_sortuniq [simp]: "set (sortuniq a) = set a"
  by (simp add: sortuniq_remdups_adj)

lemma strictly_sorted_sortuniq: "strictly_sorted (sortuniq a)"
  by (simp add: sortuniq_remdups_adj sorted_remdups_adj_strict)

section \<open>Properties\<close>

text \<open>
  C5: In a strictly sorted dictionary, \<open>dictSeek\<close> on a range of words that share the prefix \<open>s\<close>
  never reads outside the dictionary. If a word continues \<open>s\<close> with the character, the two
  searches return the first and the last of the words that start with \<open>s\<close> and the character;
  otherwise the search returns \<open>null\<close>.
\<close>

theorem dictSeek_correct:
  assumes "strictly_sorted dict" "words_from dict s l r"
  shows "if has_prefix dict (s @ [c])
    then \<exists>a b. dictSeek dict l r c (length s) LEFT = Inr (Some a) \<and>
      dictSeek dict a r c (length s) RIGHT = Inr (Some b) \<and> a \<le> b \<and> words_from dict (s @ [c]) a b
    else dictSeek dict l r c (length s) LEFT = Inr None"
proof (cases "has_prefix dict (s @ [c])")
  case True
  from words_from_snoc [OF assms True] show ?thesis by (metis (full_types) True)
next
  case False
  with dictSeek_none [OF assms False] show ?thesis by simp
qed

theorem dictSeek_correct_witness:
  "strictly_sorted [[1], [1, 2], [1, 3], [2]] \<and> words_from [[1], [1, 2], [1, 3], [2]] [1] 0 2 \<and>
   (\<exists>a b. dictSeek [[1], [1, 2], [1, 3], [2]] 0 2 3 1 LEFT = Inr (Some a) \<and>
      dictSeek [[1], [1, 2], [1, 3], [2]] a 2 3 1 RIGHT = Inr (Some b) \<and> a \<le> b \<and>
      words_from [[1], [1, 2], [1, 3], [2]] [1, 3] a b)"
proof -
  have h: "strictly_sorted [[1], [1, 2], [1, 3], [2]]" by simp
  have w: "words_from [[1], [1, 2], [1, 3], [2]] [1] 0 2"
    by (simp add: words_from_def All_less_Suc2)
  have "has_prefix [[1], [1, 2], [1, 3], [2]] ([1] @ [3])" by (simp add: has_prefix_def)
  then show ?thesis using h w dictSeek_correct [OF h w, of 3] by simp
qed

end
