(* ===== verification/Wordcut_Rules.thy ===== *)
theory Wordcut_Rules
  imports Wordcut_Dict
begin

text \<open>
  The rules of the word cutter (\<open>wordcut.js\<close>, modules 3 and 6) and the acceptor objects they
  create. Every acceptor is a small automaton that reads the text one code unit at a time; the
  interface \<open>acceptor_family\<close> says what the engine relies on: an acceptor that has read \<open>s\<close> is
  final exactly when \<open>s\<close> is a word of its rule, and it survives the next code unit exactly when
  the longer text can still begin such a word. All seven rules are proved to keep it.
\<close>

section \<open>Model\<close>

subsection \<open>Latin rules\<close>

text \<open>
  \<open>ch.toLowerCase()\<close> for one code unit, as far as the comparison with \<open>"a"\<close> and \<open>"z"\<close> can see it:
  beside the letters \<open>A\<close> to \<open>Z\<close>, only U+0130 (which becomes \<open>i\<close> and a combining dot) and U+212A
  (the Kelvin sign, which becomes \<open>k\<close>) have a lower-case form between the two.
\<close>

definition toLowerCase :: "unit16 \<Rightarrow> jstring" where
  "toLowerCase ch =
     (if 65 \<le> ch \<and> ch \<le> 90 then [ch + 32]
      else if ch = 0x130 then [0x69, 0x307]
      else if ch = 0x212A then [0x6B]
      else [ch])"

definition is_word_char :: "unit16 \<Rightarrow> bool" where
  "is_word_char ch \<longleftrightarrow> (let lch = toLowerCase ch in lch \<ge> js ''a'' \<and> lch \<le> js ''z'')"

definition is_digit_char :: "unit16 \<Rightarrow> bool" where
  "is_digit_char ch \<longleftrightarrow> ch \<ge> 48 \<and> ch \<le> 57"

definition is_space_char :: "unit16 \<Rightarrow> bool" where
  "is_space_char ch \<longleftrightarrow>
     ch = 32 \<or> ch = 9 \<or> ch = 13 \<or> ch = 10 \<or> ch = 0xA0 \<or> ch = 0x2003"

text \<open>The class \<open>[\@\(\)\/\,\-\."`]\<close>.\<close>

definition is_symbol_char :: "unit16 \<Rightarrow> bool" where
  "is_symbol_char ch \<longleftrightarrow> ch \<in> {64, 40, 41, 47, 44, 45, 46, 34, 96}"

definition class_transit :: "(unit16 \<Rightarrow> bool) \<Rightarrow> acceptor \<Rightarrow> unit16 \<Rightarrow> acceptor" where
  "class_transit P a ch =
     (if P ch then a\<lparr>isFinal := True, strOffset := strOffset a + 1\<rparr>
      else a\<lparr>isError := True\<rparr>)"

definition symbol_transit :: "acceptor \<Rightarrow> unit16 \<Rightarrow> acceptor" where
  "symbol_transit a ch =
     (if strOffset a = 0 \<and> is_symbol_char ch
      then a\<lparr>isFinal := True, strOffset := strOffset a + 1\<rparr>
      else a\<lparr>isError := True\<rparr>)"

subsection \<open>Thai rules\<close>

definition thai_consonant :: "unit16 \<Rightarrow> bool" where
  "thai_consonant ch \<longleftrightarrow> 0xE01 \<le> ch \<and> ch \<le> 0xE2E"

definition isMatch :: "jstring \<Rightarrow> nat \<Rightarrow> unit16 \<Rightarrow> bool" where
  "isMatch pat offset ch =
     (if length pat \<le> offset then False
      else let c = pat ! offset in
        c = ch \<or>
        (c \<in> {0xE01, 0xE02} \<and> thai_consonant ch) \<or>
        (c \<in> {0xE21, 0xE1A} \<and> thai_consonant ch) \<or>
        (c = 0xE49 \<and> 0xE48 \<le> ch \<and> ch \<le> 0xE4B))"

definition rule0_pat :: jstring where
  "rule0_pat = [0xE40, 0xE2B, 0xE01, 0xE47, 0xE21]"

definition part_patterns :: "jstring list" where
  "part_patterns =
     [[0xE41, 0xE01], [0xE40, 0xE01], [0xE01, 0xE49], [0xE01, 0xE01, 0xE4C],
      [0xE01, 0xE32], [0xE01, 0xE35], [0xE01, 0xE34], [0xE01, 0xE37, 0xE01]]"

definition rule0_transit :: "acceptor \<Rightarrow> unit16 \<Rightarrow> acceptor" where
  "rule0_transit a ch =
     (if isMatch rule0_pat (strOffset a) ch
      then a\<lparr>isFinal := (strOffset a + 1 = length rule0_pat), strOffset := strOffset a + 1\<rparr>
      else a\<lparr>isError := True\<rparr>)"

definition part_transit :: "acceptor \<Rightarrow> unit16 \<Rightarrow> acceptor" where
  "part_transit a ch =
     (let offset = strOffset a;
          pats = filter (\<lambda>pat. isMatch pat offset ch) (acc_patterns a);
          a' = a\<lparr>acc_patterns := pats\<rparr>
      in if length pats > 0
         then a'\<lparr>isFinal := list_ex (\<lambda>pat. length pat = 1 + offset) pats,
                 strOffset := offset + 1\<rparr>
         else a'\<lparr>isError := True\<rparr>)"

subsection \<open>Creating and stepping an acceptor\<close>

text \<open>
  \<open>createAcceptor(tag)\<close> of each rule: three latin rules return \<open>null\<close> while an acceptor with their
  tag is alive, so that a run of letters, digits or spaces is read by one acceptor only.
\<close>

fun creator_tag :: "creator \<Rightarrow> string" where
  "creator_tag WordRule = ''WORD_RULE''"
| "creator_tag NumberRule = ''NUMBER_RULE''"
| "creator_tag SpaceRule = ''SPACE_RULE''"
| "creator_tag SingleSymbolRule = ''SINSYM''"
| "creator_tag Rule0 = ''THAI_RULE''"
| "creator_tag PartRule = ''PART''"
| "creator_tag (WordcutDict d) = ''DICT''"

fun new_acceptor :: "creator \<Rightarrow> acceptor" where
  "new_acceptor PartRule =
     (base_acceptor PartRule ''PART'')\<lparr>acc_patterns := part_patterns, acc_unk := Some 1\<rparr>"
| "new_acceptor (WordcutDict d) = dict_createAcceptor d"
| "new_acceptor c = base_acceptor c (creator_tag c)"

fun tag_guarded :: "creator \<Rightarrow> bool" where
  "tag_guarded WordRule = True"
| "tag_guarded NumberRule = True"
| "tag_guarded SpaceRule = True"
| "tag_guarded _ = False"

definition createAcceptor :: "creator \<Rightarrow> (string \<rightharpoonup> acceptor) \<Rightarrow> acceptor option" where
  "createAcceptor c tag =
     (if tag_guarded c \<and> tag (creator_tag c) \<noteq> None then None else Some (new_acceptor c))"

text \<open>\<open>acceptor.transit(ch)\<close>, dispatched on the rule the object was created by.\<close>

fun rule_transit :: "creator \<Rightarrow> acceptor \<Rightarrow> unit16 \<Rightarrow> acceptor result" where
  "rule_transit WordRule a ch = Inr (class_transit is_word_char a ch)"
| "rule_transit NumberRule a ch = Inr (class_transit is_digit_char a ch)"
| "rule_transit SpaceRule a ch = Inr (class_transit is_space_char a ch)"
| "rule_transit SingleSymbolRule a ch = Inr (symbol_transit a ch)"
| "rule_transit Rule0 a ch = Inr (rule0_transit a ch)"
| "rule_transit PartRule a ch = Inr (part_transit a ch)"
| "rule_transit (WordcutDict d) a ch = dict_transit d a ch"

definition acc_transit :: "acceptor \<Rightarrow> unit16 \<Rightarrow> acceptor result" where
  "acc_transit a ch = rule_transit (acc_rule a) a ch"

section \<open>What the rules accept\<close>

text \<open>\<open>s\<close> matches the first \<open>length s\<close> positions of a Thai pattern.\<close>

definition pat_prefix :: "jstring \<Rightarrow> jstring \<Rightarrow> bool" where
  "pat_prefix pat s \<longleftrightarrow>
     length s \<le> length pat \<and> list_all (\<lambda>i. isMatch pat i (s ! i)) [0..<length s]"

definition pat_match :: "jstring \<Rightarrow> jstring \<Rightarrow> bool" where
  "pat_match pat s \<longleftrightarrow> pat_prefix pat s \<and> length s = length pat"

fun rule_char :: "creator \<Rightarrow> unit16 \<Rightarrow> bool" where
  "rule_char WordRule = is_word_char"
| "rule_char NumberRule = is_digit_char"
| "rule_char SpaceRule = is_space_char"
| "rule_char SingleSymbolRule = is_symbol_char"
| "rule_char _ = (\<lambda>_. False)"

fun rule_lang :: "creator \<Rightarrow> jstring \<Rightarrow> bool" where
  "rule_lang SingleSymbolRule s = (length s = 1 \<and> list_all is_symbol_char s)"
| "rule_lang Rule0 s = pat_match rule0_pat s"
| "rule_lang PartRule s = list_ex (\<lambda>p. pat_match p s) part_patterns"
| "rule_lang (WordcutDict d) s = (s \<in> set d)"
| "rule_lang c s = list_all (rule_char c) s"

fun viable :: "creator \<Rightarrow> jstring \<Rightarrow> bool" where
  "viable SingleSymbolRule s = (length s \<le> 1 \<and> list_all is_symbol_char s)"
| "viable Rule0 s = pat_prefix rule0_pat s"
| "viable PartRule s = list_ex (\<lambda>p. pat_prefix p s) part_patterns"
| "viable (WordcutDict d) s = has_prefix d s"
| "viable c s = list_all (rule_char c) s"

fun wf_creator :: "creator \<Rightarrow> bool" where
  "wf_creator (WordcutDict d) = strictly_sorted d"
| "wf_creator _ = True"

text \<open>The acceptor \<open>a\<close> was created by \<open>c\<close> and has read \<open>s\<close> without an error.\<close>

definition reads :: "creator \<Rightarrow> jstring \<Rightarrow> acceptor \<Rightarrow> bool" where
  "reads c s a \<longleftrightarrow>
     acc_rule a = c \<and> strOffset a = length s \<and> \<not> isError a \<and>
     (isFinal a \<longleftrightarrow> s \<noteq> [] \<and> rule_lang c s) \<and> (s \<noteq> [] \<longrightarrow> viable c s) \<and>
     acc_tag a = creator_tag c \<and> acc_type a = creator_tag c \<and>
     acc_w a = 1 \<and> acc_mw a = None \<and> acc_unk a = (if c = PartRule then Some 1 else None) \<and>
     (c = PartRule \<longrightarrow> acc_patterns a = filter (\<lambda>p. pat_prefix p s) part_patterns) \<and>
     (\<forall>d. c = WordcutDict d \<longrightarrow> words_from d s (acc_l a) (acc_r a))"

lemma reads_rule: "reads c s a \<Longrightarrow> acc_rule a = c"
  and reads_tag: "reads c s a \<Longrightarrow> acc_tag a = creator_tag c"
  and reads_type: "reads c s a \<Longrightarrow> acc_type a = creator_tag c"
  and reads_offset: "reads c s a \<Longrightarrow> strOffset a = length s"
  and reads_viable: "reads c s a \<Longrightarrow> s \<noteq> [] \<Longrightarrow> viable c s"
  and reads_w: "reads c s a \<Longrightarrow> acc_w a = 1"
  and reads_mw: "reads c s a \<Longrightarrow> acc_mw a = None"
  and reads_unk: "reads c s a \<Longrightarrow> acc_unk a = (if c = PartRule then Some 1 else None)"
  by (simp_all add: reads_def)

section \<open>The interface of the acceptors\<close>

text \<open>Stepping an acceptor over a text, stopping at the first failure.\<close>

fun run_acc :: "('a \<Rightarrow> 'ch \<Rightarrow> 'a result) \<Rightarrow> ('a \<Rightarrow> bool) \<Rightarrow> 'a \<Rightarrow> 'ch list \<Rightarrow> 'a option result" where
  "run_acc step failed a [] = Inr (Some a)"
| "run_acc step failed a (ch # t) =
     and_then (step a ch) (\<lambda>a'. if failed a' then Inr None else run_acc step failed a' t)"

locale acceptor_family =
  fixes wf :: "'c \<Rightarrow> bool"
    and new :: "'c \<Rightarrow> 'a"
    and step :: "'a \<Rightarrow> 'ch \<Rightarrow> 'a result"
    and reading :: "'c \<Rightarrow> 'ch list \<Rightarrow> 'a \<Rightarrow> bool"
    and lang :: "'c \<Rightarrow> 'ch list \<Rightarrow> bool"
    and can_go :: "'c \<Rightarrow> 'ch list \<Rightarrow> bool"
    and final :: "'a \<Rightarrow> bool"
    and failed :: "'a \<Rightarrow> bool"
  assumes reading_new: "wf c \<Longrightarrow> reading c [] (new c)"
    and step_goes: "wf c \<Longrightarrow> reading c s a \<Longrightarrow> can_go c (s @ [ch]) \<Longrightarrow>
      \<exists>a'. step a ch = Inr a' \<and> reading c (s @ [ch]) a'"
    and step_fails: "wf c \<Longrightarrow> reading c s a \<Longrightarrow> \<not> can_go c (s @ [ch]) \<Longrightarrow>
      \<exists>a'. step a ch = Inr a' \<and> failed a'"
    and reading_alive: "reading c s a \<Longrightarrow> \<not> failed a"
    and reading_final: "reading c s a \<Longrightarrow> s \<noteq> [] \<Longrightarrow> final a \<longleftrightarrow> lang c s"
    and lang_goes: "lang c s \<Longrightarrow> s \<noteq> [] \<Longrightarrow> can_go c s"
    and goes_prefix: "can_go c (s @ t) \<Longrightarrow> s \<noteq> [] \<Longrightarrow> can_go c s"
begin

text \<open>A step never throws; it fails or reads on.\<close>

lemma step_total:
  assumes "wf c" "reading c s a"
  obtains a' where "step a ch = Inr a'" "failed a' \<longleftrightarrow> \<not> can_go c (s @ [ch])"
    "can_go c (s @ [ch]) \<longleftrightarrow> reading c (s @ [ch]) a'"
proof (cases "can_go c (s @ [ch])")
  case True
  from step_goes [OF assms True] obtain a' where "step a ch = Inr a'" "reading c (s @ [ch]) a'"
    by blast
  with True reading_alive show ?thesis by (intro that [of a']) auto
next
  case False
  from step_fails [OF assms False] obtain a' where "step a ch = Inr a'" "failed a'" by blast
  with False reading_alive show ?thesis by (intro that [of a']) auto
qed

lemma run_reading:
  assumes "wf c" "reading c s a"
  shows "(\<exists>a'. run_acc step failed a t = Inr (Some a') \<and> reading c (s @ t) a') \<or>
    (run_acc step failed a t = Inr None \<and> t \<noteq> [] \<and> \<not> can_go c (s @ t))"
  using assms(2)
proof (induction t arbitrary: s a)
  case (Cons ch t)
  from step_total [OF assms(1) Cons.prems, of ch] obtain a' where
    a': "step a ch = Inr a'" "failed a' \<longleftrightarrow> \<not> can_go c (s @ [ch])"
    "can_go c (s @ [ch]) \<longleftrightarrow> reading c (s @ [ch]) a'" by blast
  show ?case
  proof (cases "can_go c (s @ [ch])")
    case True
    with a' Cons.IH [of "s @ [ch]" a'] show ?thesis
      using goes_prefix by fastforce
  next
    case False
    with a' goes_prefix [of c "s @ [ch]" t] show ?thesis by auto
  qed
qed auto

text \<open>The acceptor of a rule accepts the words of the rule and nothing else.\<close>

lemma run_accepts:
  assumes "wf c" "s \<noteq> []"
  shows "(\<exists>a. run_acc step failed (new c) s = Inr (Some a) \<and> final a) \<longleftrightarrow> lang c s"
  using run_reading [OF assms(1) reading_new [OF assms(1)], of s] assms(2)
    reading_final lang_goes by fastforce

text \<open>
  Stepping a list of acceptors never throws, and the ones that survive are exactly the acceptors
  whose longer text is viable.
\<close>

lemma step_list:
  assumes "\<And>a. a \<in> set cur \<Longrightarrow> \<exists>c s. wf c \<and> reading c s a"
  obtains steps where "map_res (\<lambda>a. step a ch) cur = Inr steps"
    "\<And>a'. a' \<in> set steps \<Longrightarrow> \<exists>a \<in> set cur. step a ch = Inr a'"
    "\<And>a. a \<in> set cur \<Longrightarrow> \<exists>a' \<in> set steps. step a ch = Inr a'"
proof -
  have "\<exists>a'. step a ch = Inr a'" if "a \<in> set cur" for a
    using assms [OF that] step_total by metis
  then obtain f where f: "\<And>a. a \<in> set cur \<Longrightarrow> step a ch = Inr (f a)" by metis
  then have "map_res (\<lambda>a. step a ch) cur = Inr (map f cur)" by (rule map_res_total)
  with f show ?thesis by (intro that [of "map f cur"]) auto
qed

lemma survivor_reading:
  assumes "wf c" "reading c s a" "step a ch = Inr a'" "\<not> failed a'"
  shows "reading c (s @ [ch]) a'"
  using step_total [OF assms(1,2), of ch] assms(3,4) by auto

lemma viable_survives:
  assumes "wf c" "reading c s a" "step a ch = Inr a'" "can_go c (s @ [ch])"
  shows "\<not> failed a'"
  using step_total [OF assms(1,2), of ch] assms(3,4) by auto

end

section \<open>The rules keep the interface\<close>

lemma pat_prefix_Nil [simp]: "pat_prefix p []"
  by (simp add: pat_prefix_def)

lemma pat_prefix_snoc:
  "pat_prefix p (s @ [ch]) \<longleftrightarrow> pat_prefix p s \<and> isMatch p (length s) ch"
  by (auto simp: pat_prefix_def list_all_length nth_append less_Suc_eq isMatch_def split: if_splits)

lemma pat_prefix_append: "pat_prefix p (s @ t) \<Longrightarrow> pat_prefix p s"
  by (induction t rule: rev_induct) (auto simp: pat_prefix_snoc simp flip: append_assoc)

lemma part_transit_reads:
  assumes "reads PartRule s a"
  shows "if viable PartRule (s @ [ch]) then reads PartRule (s @ [ch]) (part_transit a ch)
    else isError (part_transit a ch)"
proof -
  have pats: "filter (\<lambda>p. isMatch p (strOffset a) ch) (acc_patterns a) =
      filter (\<lambda>p. pat_prefix p (s @ [ch])) part_patterns"
    using assms by (simp add: reads_def pat_prefix_snoc conj_commute)
  have nonempty: "filter (\<lambda>p. pat_prefix p (s @ [ch])) part_patterns \<noteq> [] \<longleftrightarrow>
      viable PartRule (s @ [ch])"
    by (auto simp: list_ex_iff filter_empty_conv)
  have "list_ex (\<lambda>p. length p = Suc (length s)) (filter (\<lambda>p. pat_prefix p (s @ [ch])) part_patterns)
      \<longleftrightarrow> rule_lang PartRule (s @ [ch])"
    by (auto simp: list_ex_iff pat_match_def)
  with assms pats nonempty show ?thesis
    by (simp add: part_transit_def reads_def Let_def)
qed

lemma dict_transit_reads:
  assumes "strictly_sorted d" "reads (WordcutDict d) s a"
  shows "\<exists>a'. dict_transit d a ch = Inr a' \<and>
    (if viable (WordcutDict d) (s @ [ch]) then reads (WordcutDict d) (s @ [ch]) a' else isError a')"
proof -
  have at: "dict_at d s a" using assms(2) by (simp add: reads_def dict_at_def)
  show ?thesis
  proof (cases "has_prefix d (s @ [ch])")
    case True
    from dict_transit_hit [OF assms(1) at True] obtain a' where
      "dict_transit d a ch = Inr a'" "dict_at d (s @ [ch]) a'" "isFinal a' \<longleftrightarrow> s @ [ch] \<in> set d"
      "acc_type a' = acc_type a" "acc_tag a' = acc_tag a"
      "acc_w a' = acc_w a" "acc_unk a' = acc_unk a" "acc_mw a' = acc_mw a" .
    with assms(2) True show ?thesis by (auto simp: reads_def dict_at_def)
  next
    case False
    with dict_transit_miss [OF assms(1) at False] show ?thesis by simp
  qed
qed

text \<open>One step of any rule: it reads on when the longer text is viable, and fails otherwise.\<close>

lemma acc_transit_reads:
  assumes "wf_creator c" "reads c s a"
  shows "\<exists>a'. acc_transit a ch = Inr a' \<and>
    (if viable c (s @ [ch]) then reads c (s @ [ch]) a' else isError a')"
proof (cases c)
  case PartRule
  with assms part_transit_reads [of s a ch] show ?thesis
    by (auto simp: acc_transit_def reads_def)
next
  case (WordcutDict d)
  with assms dict_transit_reads [of d s a ch] show ?thesis
    by (auto simp: acc_transit_def reads_def)
next
  case Rule0
  with assms show ?thesis
    by (auto simp: acc_transit_def reads_def rule0_transit_def pat_prefix_snoc pat_match_def)
next
  case SingleSymbolRule
  with assms show ?thesis by (auto simp: acc_transit_def reads_def symbol_transit_def)
qed (use assms in \<open>auto simp: acc_transit_def reads_def class_transit_def\<close>)

lemma viable_append: "viable c (s @ t) \<Longrightarrow> viable c s"
  by (cases c) (auto simp: has_prefix_def list_ex_iff intro: pat_prefix_append append_prefixD)

lemma rule_lang_viable: "rule_lang c s \<Longrightarrow> viable c s"
  by (cases c) (auto simp: has_prefix_def list_ex_iff pat_match_def)

interpretation rules: acceptor_family wf_creator new_acceptor acc_transit reads rule_lang viable
  isFinal isError
proof unfold_locales
  fix c
  show "reads c [] (new_acceptor c)"
    by (cases c)
      (simp_all add: reads_def base_acceptor_def dict_createAcceptor_def words_from_all)
next
  fix c s a ch
  assume "wf_creator c" "reads c s a"
  note step = acc_transit_reads [OF this, of ch]
  show "viable c (s @ [ch]) \<Longrightarrow> \<exists>a'. acc_transit a ch = Inr a' \<and> reads c (s @ [ch]) a'"
    using step by simp
  show "\<not> viable c (s @ [ch]) \<Longrightarrow> \<exists>a'. acc_transit a ch = Inr a' \<and> isError a'"
    using step by simp
qed (auto simp: reads_def intro: rule_lang_viable viable_append)

end
