(* ===== verification/Wordcut_Acceptors.thy ===== *)
theory Wordcut_Acceptors
  imports Wordcut_Rules
begin

text \<open>
  The engine that runs the acceptors side by side (\<open>wordcut.js\<close>, module 1). After every code unit
  it holds exactly the acceptors that can still finish a word: one for every start position of
  every dictionary and Thai rule, and for letters, digits and spaces the one acceptor that reads
  the whole run.
\<close>

section \<open>Model\<close>

record acceptors =
  creators :: "creator list"
  current :: "acceptor list"
  tags :: "string \<rightharpoonup> acceptor"

definition acceptors_init :: acceptors where
  "acceptors_init = \<lparr>creators = [], current = [], tags = Map.empty\<rparr>"

definition acceptors_reset :: "acceptors \<Rightarrow> acceptors" where
  "acceptors_reset e = e\<lparr>current := [], tags := Map.empty\<rparr>"

text \<open>The \<open>forEach\<close> over \<open>self.creators\<close>, which sees the tags of the last step.\<close>

fun create_all :: "creator list \<Rightarrow> (string \<rightharpoonup> acceptor) \<Rightarrow> acceptor list \<Rightarrow> acceptor list" where
  "create_all [] tag cur = cur"
| "create_all (c # cs) tag cur =
     create_all cs tag
       (case createAcceptor c tag of Some a \<Rightarrow> cur @ [a] | None \<Rightarrow> cur)"

text \<open>The loop over \<open>self.current\<close>, with \<open>_current\<close> and \<open>self.tag\<close> as its variables.\<close>

fun transit_all ::
  "acceptor list \<Rightarrow> unit16 \<Rightarrow> acceptor list \<Rightarrow> (string \<rightharpoonup> acceptor)
    \<Rightarrow> (acceptor list \<times> (string \<rightharpoonup> acceptor)) result" where
  "transit_all [] ch cur tag = Inr (cur, tag)"
| "transit_all (a # as) ch cur tag =
     and_then (acc_transit a ch) (\<lambda>a'.
       if \<not> isError a' then transit_all as ch (cur @ [a']) (tag(acc_tag a' \<mapsto> a'))
       else transit_all as ch cur tag)"

definition acceptors_transit :: "acceptors \<Rightarrow> unit16 \<Rightarrow> acceptors result" where
  "acceptors_transit e ch =
     and_then (transit_all (create_all (creators e) (tags e) (current e)) ch [] Map.empty)
       (\<lambda>(cur, tag). Inr (e\<lparr>current := cur, tags := tag\<rparr>))"

definition getFinalAcceptors :: "acceptors \<Rightarrow> acceptor list" where
  "getFinalAcceptors e = filter isFinal (current e)"

section \<open>Loops as list operations\<close>

lemma set_create_all:
  "set (create_all cs tag cur) = set cur \<union> {a. \<exists>c \<in> set cs. createAcceptor c tag = Some a}"
  by (induction cs arbitrary: cur) (auto split: option.splits)

lemma transit_all_eq:
  assumes "map_res (\<lambda>a. acc_transit a ch) as = Inr steps"
  shows "transit_all as ch cur tag =
    Inr (cur @ filter (\<lambda>a. \<not> isError a) steps,
      foldl (\<lambda>t a. t(acc_tag a \<mapsto> a)) tag (filter (\<lambda>a. \<not> isError a) steps))"
  using assms
proof (induction as arbitrary: cur tag steps)
  case (Cons a as)
  then show ?case by (auto simp: and_then_eq_Inr)
qed simp

lemma foldl_tags_None:
  "foldl (\<lambda>t a. t(acc_tag a \<mapsto> a)) tag as T = None \<longleftrightarrow> tag T = None \<and> T \<notin> acc_tag ` set as"
  by (induction as arbitrary: tag) auto

section \<open>The engine invariant\<close>

text \<open>The longest run of \<open>P\<close> at the end of a text.\<close>

definition last_run :: "('a \<Rightarrow> bool) \<Rightarrow> 'a list \<Rightarrow> 'a list" where
  "last_run P t = rev (takeWhile P (rev t))"

lemma last_run_snoc: "last_run P (t @ [c]) = (if P c then last_run P t @ [c] else [])"
  by (simp add: last_run_def)

lemma last_run_drop: "\<exists>k \<le> length t. last_run P t = drop k t"
proof -
  have "t = rev (dropWhile P (rev t)) @ last_run P t"
    unfolding last_run_def by (metis rev_append rev_rev_ident takeWhile_dropWhile_id)
  then have "last_run P t = drop (length (rev (dropWhile P (rev t)))) t"
    by (metis append_eq_conv_conj)
  moreover have "length (rev (dropWhile P (rev t))) \<le> length t"
    by (simp add: length_dropWhile_le [of P "rev t", simplified])
  ultimately show ?thesis by blast
qed

text \<open>The run starts at \<open>j\<close> if the rest from \<open>j\<close> is such a run and nothing before \<open>j\<close> extends it.\<close>

lemma last_run_start:
  assumes "length (last_run P t) = length t - j" "0 < j" "j \<le> length t"
  shows "\<not> P (t ! (j - 1))"
proof -
  have m: "length (takeWhile P (rev t)) = length t - j" using assms(1) by (simp add: last_run_def)
  then have "\<not> P (rev t ! length (takeWhile P (rev t)))"
    using assms(2,3) by (intro nth_length_takeWhile) simp
  moreover have "rev t ! length (takeWhile P (rev t)) = t ! (j - 1)"
    unfolding m using assms(2,3) by (simp add: rev_nth)
  ultimately show ?thesis by simp
qed

lemma last_run_eq:
  assumes "list_all P (drop j t)" "0 < j \<Longrightarrow> \<not> P (t ! (j - 1))" "j \<le> length t"
  shows "last_run P t = drop j t"
proof -
  have "takeWhile P (rev (take j t)) = []"
  proof (cases j)
    case (Suc i)
    with assms(3) have "rev (take j t) = t ! i # rev (take i t)" by (simp add: take_Suc_conv_app_nth)
    with assms(2) Suc show ?thesis by simp
  qed simp
  moreover have "rev t = rev (drop j t) @ rev (take j t)" by (metis append_take_drop_id rev_append)
  moreover have "\<And>x. x \<in> set (rev (drop j t)) \<Longrightarrow> P x" using assms(1) by (simp add: list_all_iff)
  then have "takeWhile P (rev (drop j t) @ rev (take j t)) = rev (drop j t) @ takeWhile P (rev (take j t))"
    by (rule takeWhile_append2)
  ultimately show ?thesis by (simp add: last_run_def)
qed

text \<open>What \<open>current\<close> and \<open>tag\<close> hold after the text \<open>t\<close> has been read.\<close>

definition engine_sound :: "jstring \<Rightarrow> acceptors \<Rightarrow> bool" where
  "engine_sound t e \<longleftrightarrow>
     (\<forall>a \<in> set (current e). \<exists>k < length t.
        acc_rule a \<in> set (creators e) \<and> reads (acc_rule a) (drop k t) a)"

definition engine_complete :: "jstring \<Rightarrow> acceptors \<Rightarrow> bool" where
  "engine_complete t e \<longleftrightarrow>
     (\<forall>c \<in> set (creators e). \<not> tag_guarded c \<longrightarrow>
        (\<forall>k < length t. viable c (drop k t) \<longrightarrow> (\<exists>a \<in> set (current e). reads c (drop k t) a)))"

definition engine_runs :: "jstring \<Rightarrow> acceptors \<Rightarrow> bool" where
  "engine_runs t e \<longleftrightarrow>
     (\<forall>c \<in> set (creators e). tag_guarded c \<longrightarrow>
        (\<forall>a \<in> set (current e). acc_rule a = c \<longrightarrow> reads c (last_run (rule_char c) t) a) \<and>
        (last_run (rule_char c) t \<noteq> [] \<longrightarrow> (\<exists>a \<in> set (current e). acc_rule a = c)))"

definition engine_tags :: "acceptors \<Rightarrow> bool" where
  "engine_tags e \<longleftrightarrow> (\<forall>T. tags e T = None \<longleftrightarrow> T \<notin> acc_tag ` set (current e))"

definition engine_inv :: "jstring \<Rightarrow> acceptors \<Rightarrow> bool" where
  "engine_inv t e \<longleftrightarrow>
     (\<forall>c \<in> set (creators e). wf_creator c) \<and>
     engine_sound t e \<and> engine_complete t e \<and> engine_runs t e \<and> engine_tags e"

lemmas engine_defs = engine_inv_def engine_sound_def engine_complete_def engine_runs_def engine_tags_def

lemma engine_inv_reset:
  "(\<forall>c \<in> set (creators e). wf_creator c) \<Longrightarrow> engine_inv [] (acceptors_reset e)"
  by (simp add: engine_defs acceptors_reset_def last_run_def)

lemma engine_wfD: "engine_inv t e \<Longrightarrow> c \<in> set (creators e) \<Longrightarrow> wf_creator c"
  by (simp add: engine_inv_def)

lemma engine_soundD:
  "engine_inv t e \<Longrightarrow> a \<in> set (current e) \<Longrightarrow>
   \<exists>k < length t. acc_rule a \<in> set (creators e) \<and> reads (acc_rule a) (drop k t) a"
  by (simp add: engine_inv_def engine_sound_def)

lemma engine_completeD:
  "engine_inv t e \<Longrightarrow> c \<in> set (creators e) \<Longrightarrow> \<not> tag_guarded c \<Longrightarrow> k < length t \<Longrightarrow>
   viable c (drop k t) \<Longrightarrow> \<exists>a \<in> set (current e). reads c (drop k t) a"
  by (simp add: engine_inv_def engine_complete_def)

lemma engine_runsD:
  assumes "engine_inv t e" "c \<in> set (creators e)" "tag_guarded c"
  shows "a \<in> set (current e) \<Longrightarrow> acc_rule a = c \<Longrightarrow> reads c (last_run (rule_char c) t) a"
    and "last_run (rule_char c) t \<noteq> [] \<Longrightarrow> \<exists>a \<in> set (current e). acc_rule a = c"
  using assms by (simp_all add: engine_inv_def engine_runs_def)

lemma engine_tagsD: "engine_inv t e \<Longrightarrow> tags e T = None \<longleftrightarrow> T \<notin> acc_tag ` set (current e)"
  by (simp add: engine_inv_def engine_tags_def)

lemma tag_guarded_tag:
  "tag_guarded c \<Longrightarrow> creator_tag c' = creator_tag c \<longleftrightarrow> c' = c"
  by (cases c; cases c') auto

lemma tag_guarded_lang: "tag_guarded c \<Longrightarrow> viable c s \<longleftrightarrow> list_all (rule_char c) s"
  by (cases c) auto

text \<open>The acceptors that are stepped: those alive, and the ones created for this position.\<close>

lemma create_all_set:
  "a \<in> set (create_all (creators e) (tags e) (current e)) \<longleftrightarrow>
   a \<in> set (current e) \<or> (\<exists>c \<in> set (creators e). createAcceptor c (tags e) = Some a)"
  by (auto simp: set_create_all)

lemma create_all_old: "a \<in> set (current e) \<Longrightarrow> a \<in> set (create_all (creators e) (tags e) (current e))"
  and create_all_new: "c \<in> set (creators e) \<Longrightarrow> createAcceptor c (tags e) = Some a \<Longrightarrow>
    a \<in> set (create_all (creators e) (tags e) (current e))"
  by (auto simp: create_all_set)

text \<open>Every acceptor that is stepped reads some suffix of the text, the empty one when new.\<close>

lemma stepped_reads:
  assumes "engine_inv t e" "a \<in> set (create_all (creators e) (tags e) (current e))"
  obtains k where "k \<le> length t" "acc_rule a \<in> set (creators e)" "wf_creator (acc_rule a)"
    "reads (acc_rule a) (drop k t) a"
proof (cases "a \<in> set (current e)")
  case True
  from engine_soundD [OF assms(1) True] obtain k where "k < length t"
    "acc_rule a \<in> set (creators e)" "reads (acc_rule a) (drop k t) a" by blast
  with engine_wfD [OF assms(1)] that [of k] show ?thesis by simp
next
  case False
  with assms(2) obtain c where c: "c \<in> set (creators e)" "a = new_acceptor c"
    by (auto simp: create_all_set createAcceptor_def split: if_splits)
  then have "wf_creator c" "reads c [] a"
    using rules.reading_new engine_wfD [OF assms(1)] by simp_all
  with c that [of "length t"] reads_rule show ?thesis by fastforce
qed

text \<open>The state after one step, in terms of single acceptor steps.\<close>

lemma acceptors_transit_step:
  assumes "engine_inv t e"
  obtains e' where "acceptors_transit e ch = Inr e'" "creators e' = creators e" "engine_tags e'"
    "\<And>a'. a' \<in> set (current e') \<longleftrightarrow> \<not> isError a' \<and>
       (\<exists>a \<in> set (create_all (creators e) (tags e) (current e)). acc_transit a ch = Inr a')"
proof -
  let ?cur = "create_all (creators e) (tags e) (current e)"
  have "\<exists>c s. wf_creator c \<and> reads c s a" if "a \<in> set ?cur" for a
    using stepped_reads [OF assms that] by metis
  from rules.step_list [OF this] obtain steps where
    steps: "map_res (\<lambda>a. acc_transit a ch) ?cur = Inr steps"
      "\<And>a'. a' \<in> set steps \<Longrightarrow> \<exists>a \<in> set ?cur. acc_transit a ch = Inr a'"
      "\<And>a. a \<in> set ?cur \<Longrightarrow> \<exists>a' \<in> set steps. acc_transit a ch = Inr a'" by blast
  let ?alive = "filter (\<lambda>a. \<not> isError a) steps"
  let ?e = "e\<lparr>current := ?alive, tags := foldl (\<lambda>t a. t(acc_tag a \<mapsto> a)) Map.empty ?alive\<rparr>"
  have "acceptors_transit e ch = Inr ?e"
    using transit_all_eq [OF steps(1), of "[]" Map.empty] by (simp add: acceptors_transit_def)
  moreover have "engine_tags ?e"
    by (simp add: engine_tags_def foldl_tags_None)
  moreover have "a' \<in> set (current ?e) \<longleftrightarrow> \<not> isError a' \<and> (\<exists>a \<in> set ?cur. acc_transit a ch = Inr a')" for a'
    using steps(2,3) by force
  ultimately show ?thesis by (intro that [of ?e]) simp_all
qed

lemma after_transit:
  assumes "engine_inv t e" "acceptors_transit e ch = Inr e'"
  shows "creators e' = creators e"
    and "a' \<in> set (current e') \<longleftrightarrow> \<not> isError a' \<and>
       (\<exists>a \<in> set (create_all (creators e) (tags e) (current e)). acc_transit a ch = Inr a')"
    and "engine_tags e'"
  using acceptors_transit_step [OF assms(1), of ch] assms(2) by (metis Inr_inject)+

lemma engine_sound_step:
  assumes "engine_inv t e" "acceptors_transit e ch = Inr e'"
  shows "engine_sound (t @ [ch]) e'"
  unfolding engine_sound_def
proof
  note cr = after_transit(1) [OF assms] and cur = after_transit(2) [OF assms]
  fix a' assume "a' \<in> set (current e')"
  with cur obtain a where a: "\<not> isError a'" "acc_transit a ch = Inr a'"
    "a \<in> set (create_all (creators e) (tags e) (current e))" by blast
  from stepped_reads [OF assms(1) a(3)] obtain k where k: "k \<le> length t"
    "acc_rule a \<in> set (creators e)" "wf_creator (acc_rule a)" "reads (acc_rule a) (drop k t) a" .
  have "reads (acc_rule a) (drop k t @ [ch]) a'"
    by (rule rules.survivor_reading [OF k(3,4) a(2,1)])
  then have "acc_rule a' = acc_rule a" "reads (acc_rule a) (drop k (t @ [ch])) a'"
    using k(1) reads_rule by auto
  with k cr show "\<exists>k<length (t @ [ch]). acc_rule a' \<in> set (creators e') \<and>
      reads (acc_rule a') (drop k (t @ [ch])) a'"
    by (intro exI [of _ k]) auto
qed

lemma engine_complete_step:
  assumes "engine_inv t e" "acceptors_transit e ch = Inr e'"
  shows "engine_complete (t @ [ch]) e'"
  unfolding engine_complete_def
proof (intro ballI impI allI)
  note cr = after_transit(1) [OF assms] and cur = after_transit(2) [OF assms]
  fix c k
  assume c: "c \<in> set (creators e')" "\<not> tag_guarded c" and k: "k < length (t @ [ch])"
    and go: "viable c (drop k (t @ [ch]))"
  then have split: "drop k (t @ [ch]) = drop k t @ [ch]" by simp
  have wf: "wf_creator c" using engine_wfD [OF assms(1)] c cr by simp
  have "\<exists>a \<in> set (create_all (creators e) (tags e) (current e)). reads c (drop k t) a"
  proof (cases "k < length t")
    case True
    from go split have "viable c (drop k t)" using viable_append by metis
    with True c cr obtain a where "a \<in> set (current e)" "reads c (drop k t) a"
      using engine_completeD [OF assms(1), of c k] by auto
    then show ?thesis by (blast intro: create_all_old)
  next
    case False
    with k have "k = length t" by simp
    then have "reads c (drop k t) (new_acceptor c)" using rules.reading_new [OF wf] by simp
    moreover have "createAcceptor c (tags e) = Some (new_acceptor c)"
      using c(2) by (simp add: createAcceptor_def)
    ultimately show ?thesis using c(1) create_all_new unfolding cr by blast
  qed
  then obtain a where a: "a \<in> set (create_all (creators e) (tags e) (current e))"
    "reads c (drop k t) a" by blast
  obtain a' where "acc_transit a ch = Inr a'" "reads c (drop k t @ [ch]) a'"
    using rules.step_goes [OF wf a(2)] go split by auto
  with a cur split show "\<exists>a\<in>set (current e'). reads c (drop k (t @ [ch])) a"
    using rules.reading_alive by metis
qed

text \<open>
  A new acceptor for letters, digits or spaces is created exactly when the last run is empty, so
  what is stepped for such a rule always reads the last run.
\<close>

lemma guarded_stepped:
  assumes "engine_inv t e" "c \<in> set (creators e)" "tag_guarded c"
  shows "(a \<in> set (create_all (creators e) (tags e) (current e)) \<Longrightarrow> acc_rule a = c \<Longrightarrow>
      reads c (last_run (rule_char c) t) a)"
    and "\<exists>a \<in> set (create_all (creators e) (tags e) (current e)). acc_rule a = c"
proof -
  note runs = engine_runsD [OF assms]
  have none: "last_run (rule_char c) t = []" if "tags e (creator_tag c) = None"
  proof (rule ccontr)
    assume "last_run (rule_char c) t \<noteq> []"
    with runs obtain a where "a \<in> set (current e)" "reads c (last_run (rule_char c) t) a" by blast
    then have "creator_tag c \<in> acc_tag ` set (current e)" using reads_tag by (metis imageI)
    with that engine_tagsD [OF assms(1)] show False by blast
  qed
  have new: "acc_rule (new_acceptor d) = d" for d
    by (cases d) (simp_all add: base_acceptor_def dict_createAcceptor_def)
  have rd: "reads c [] (new_acceptor c)"
    using rules.reading_new engine_wfD [OF assms(1,2)] by blast
  show "reads c (last_run (rule_char c) t) a"
    if a: "a \<in> set (create_all (creators e) (tags e) (current e))" "acc_rule a = c"
  proof (cases "a \<in> set (current e)")
    case True
    then show ?thesis using runs(1) a(2) by blast
  next
    case False
    with a obtain d where "createAcceptor d (tags e) = Some a" by (auto simp: create_all_set)
    with a(2) new assms(3) have "a = new_acceptor c" "tags e (creator_tag c) = None"
      by (auto simp: createAcceptor_def split: if_splits)
    with none rd show ?thesis by simp
  qed
  show "\<exists>a \<in> set (create_all (creators e) (tags e) (current e)). acc_rule a = c"
  proof (cases "tags e (creator_tag c)")
    case None
    then have "createAcceptor c (tags e) = Some (new_acceptor c)"
      by (simp add: createAcceptor_def)
    with assms(2) show ?thesis using new create_all_new by blast
  next
    case (Some x)
    then have "creator_tag c \<in> acc_tag ` set (current e)"
      using engine_tagsD [OF assms(1)] by (metis option.distinct(1))
    then obtain a where a: "a \<in> set (current e)" "acc_tag a = creator_tag c" by auto
    from engine_soundD [OF assms(1) a(1)] obtain k where "reads (acc_rule a) (drop k t) a" by blast
    from reads_tag [OF this] a(2) have "creator_tag (acc_rule a) = creator_tag c" by metis
    with assms(3) have "acc_rule a = c" by (simp add: tag_guarded_tag)
    with a(1) show ?thesis using create_all_old by blast
  qed
qed

lemma engine_runs_step:
  assumes "engine_inv t e" "acceptors_transit e ch = Inr e'"
  shows "engine_runs (t @ [ch]) e'"
  unfolding engine_runs_def
proof (intro ballI impI conjI)
  note cr = after_transit(1) [OF assms] and cur = after_transit(2) [OF assms]
  fix c assume c: "c \<in> set (creators e')" "tag_guarded c"
  then have c': "c \<in> set (creators e)" by (simp add: cr)
  note wf = engine_wfD [OF assms(1) c'] and stepped = guarded_stepped [OF assms(1) c' c(2)]
  let ?run = "last_run (rule_char c)"
  have all: "list_all (rule_char c) (?run t)"
    by (auto simp: last_run_def list_all_iff dest: set_takeWhileD)
  have goes: "viable c (?run t @ [ch]) \<longleftrightarrow> rule_char c ch"
    using all by (simp add: tag_guarded_lang [OF c(2)])
  show "reads c (?run (t @ [ch])) a'" if a': "a' \<in> set (current e')" "acc_rule a' = c" for a'
  proof -
    from a'(1) cur obtain a where a: "\<not> isError a'" "acc_transit a ch = Inr a'"
      "a \<in> set (create_all (creators e) (tags e) (current e))" by blast
    from stepped_reads [OF assms(1) a(3)] obtain k where
      k: "wf_creator (acc_rule a)" "reads (acc_rule a) (drop k t) a" by blast
    have "acc_rule a' = acc_rule a"
      using rules.survivor_reading [OF k a(2,1)] by (rule reads_rule)
    with a' have rule: "acc_rule a = c" by simp
    note rd = stepped(1) [OF a(3) rule]
    have "reads c (?run t @ [ch]) a'" by (rule rules.survivor_reading [OF wf rd a(2,1)])
    moreover from this have "viable c (?run t @ [ch])" by (rule reads_viable) simp
    ultimately show ?thesis using goes by (simp add: last_run_snoc)
  qed
  assume "?run (t @ [ch]) \<noteq> []"
  then have ok: "viable c (?run t @ [ch])" using goes by (simp add: last_run_snoc split: if_splits)
  from stepped(2) obtain a where
    a: "a \<in> set (create_all (creators e) (tags e) (current e))" "acc_rule a = c" by blast
  from rules.step_goes [OF wf stepped(1) [OF a] ok] obtain a' where
    a': "acc_transit a ch = Inr a'" "reads c (?run t @ [ch]) a'" by blast
  then have "a' \<in> set (current e')" "acc_rule a' = c"
    using a(1) cur rules.reading_alive reads_rule by metis+
  then show "\<exists>a\<in>set (current e'). acc_rule a = c" by blast
qed

text \<open>Every step succeeds and keeps the invariant.\<close>

lemma engine_inv_step:
  assumes "engine_inv t e"
  obtains e' where "acceptors_transit e ch = Inr e'" "engine_inv (t @ [ch]) e'"
    "creators e' = creators e"
proof -
  from acceptors_transit_step [OF assms, of ch] obtain e' where
    e': "acceptors_transit e ch = Inr e'" "creators e' = creators e" "engine_tags e'" by metis
  have "engine_inv (t @ [ch]) e'"
    unfolding engine_inv_def
    using engine_sound_step [OF assms e'(1)] engine_complete_step [OF assms e'(1)]
      engine_runs_step [OF assms e'(1)] e'(2,3) engine_wfD [OF assms] by simp
  with e' show ?thesis by (intro that [of e']) simp_all
qed

end
