(* ===== verification/Wordcut_Path.thy ===== *)
theory Wordcut_Path
  imports Wordcut_Types
begin

text \<open>
  The table of the word cutter (\<open>wordcut.js\<close>, modules 4 and 5): \<open>PathInfoBuilder\<close> turns the final
  acceptors at a position into candidate entries, or falls back to an unknown piece, and
  \<open>PathSelector\<close> picks the cheapest candidate.
\<close>

section \<open>Model\<close>

subsection \<open>PathInfoBuilder\<close>

text \<open>The loop \<open>for (j = p + 1; j <= i; j++) path[j].merge = p\<close>.\<close>

function set_merge :: "pathinfo list \<Rightarrow> int \<Rightarrow> int \<Rightarrow> int \<Rightarrow> pathinfo list result" where
  "set_merge path p j i =
     (if j \<le> i then
        and_then (at_obj path j) (\<lambda>info.
          set_merge (path[nat j := info\<lparr>pi_merge := Some p\<rparr>]) p (j + 1) i)
      else Inr path)"
  by pat_completeness auto
termination
  by (relation "measure (\<lambda>(path, p, j, i). nat (i - j + 1))") auto

declare set_merge.simps [simp del]

text \<open>The entry a final acceptor gives, built on the entry \<open>prev\<close> where its piece starts.\<close>

definition acceptor_info :: "acceptor \<Rightarrow> int \<Rightarrow> pathinfo \<Rightarrow> pathinfo" where
  "acceptor_info a p prev =
     \<lparr>pi_p = Some p,
      pi_mw = pi_mw prev + (case acc_mw a of None \<Rightarrow> 0 | Some m \<Rightarrow> m),
      pi_w = acc_w a + pi_w prev,
      pi_unk = (case acc_unk a of None \<Rightarrow> 0 | Some u \<Rightarrow> u) + pi_unk prev,
      pi_type = acc_type a,
      pi_merge = None\<rparr>"

text \<open>The callback of \<open>finalAcceptors.map\<close>; it also marks entries of the path.\<close>

definition buildOne ::
  "pathinfo list \<Rightarrow> acceptor \<Rightarrow> int \<Rightarrow> (pathinfo list \<times> pathinfo) result" where
  "buildOne path a i =
     (let p = i - int (strOffset a) + 1 in
      and_then (at_obj path p) (\<lambda>prev.
        let info = acceptor_info a p prev in
        if acc_type a = ''PART''
        then and_then (set_merge path p (p + 1) i)
               (\<lambda>path'. Inr (path', info\<lparr>pi_merge := Some p\<rparr>))
        else Inr (path, info)))"

fun buildByAcceptors ::
  "pathinfo list \<Rightarrow> acceptor list \<Rightarrow> int \<Rightarrow> (pathinfo list \<times> pathinfo list) result" where
  "buildByAcceptors path [] i = Inr (path, [])"
| "buildByAcceptors path (a # as) i =
     and_then (buildOne path a i) (\<lambda>(path', info).
       and_then (buildByAcceptors path' as i) (\<lambda>(path'', infos). Inr (path'', info # infos)))"

definition thai_mark :: "unit16 \<Rightarrow> bool" where
  "thai_mark ch \<longleftrightarrow> 0xE48 \<le> ch \<and> ch \<le> 0xE4E"

definition fallback :: "pathinfo list \<Rightarrow> int \<Rightarrow> jstring \<Rightarrow> int \<Rightarrow> pathinfo result" where
  "fallback path leftBoundary text i =
     and_then (at_obj text i) (\<lambda>ch.
     and_then (at_obj path leftBoundary) (\<lambda>info.
       if thai_mark ch then
         Inr \<lparr>pi_p = (if leftBoundary \<noteq> 0 then pi_p info else Some leftBoundary),
              pi_mw = 0, pi_w = 1 + pi_w info, pi_unk = 1 + pi_unk info,
              pi_type = ''UNK'', pi_merge = None\<rparr>
       else
         Inr \<lparr>pi_p = Some leftBoundary,
              pi_mw = pi_mw info, pi_w = 1 + pi_w info, pi_unk = 1 + pi_unk info,
              pi_type = ''UNK'', pi_merge = None\<rparr>))"

definition build ::
  "pathinfo list \<Rightarrow> acceptor list \<Rightarrow> int \<Rightarrow> int \<Rightarrow> jstring
    \<Rightarrow> (pathinfo list \<times> pathinfo list) result" where
  "build path finalAcceptors i leftBoundary text =
     and_then (buildByAcceptors path finalAcceptors i) (\<lambda>(path', basicPathInfos).
       if length basicPathInfos > 0 then Inr (path', basicPathInfos)
       else and_then (fallback path' leftBoundary text i) (\<lambda>info. Inr (path', [info])))"

subsection \<open>PathSelector\<close>

definition better_path :: "pathinfo \<Rightarrow> pathinfo \<Rightarrow> pathinfo" where
  "better_path selected path =
     (if pi_unk path < pi_unk selected then path
      else if pi_unk path = pi_unk selected then
        (if pi_mw path < pi_mw selected then path
         else if pi_mw path = pi_mw selected \<and> pi_w path < pi_w selected then path
         else selected)
      else selected)"

definition selectPath :: "pathinfo list \<Rightarrow> pathinfo option" where
  "selectPath paths =
     foldl (\<lambda>selected path. case selected of None \<Rightarrow> Some path | Some s \<Rightarrow> Some (better_path s path))
       None paths"

definition createPath :: "pathinfo list" where
  "createPath = [\<lparr>pi_p = None, pi_mw = 0, pi_w = 0, pi_unk = 0, pi_type = ''INIT'', pi_merge = None\<rparr>]"

section \<open>The selected entry is a cheapest one\<close>

text \<open>The order of the selector: unknown pieces first, then \<open>mw\<close>, then the number of pieces.\<close>

definition cost_le :: "pathinfo \<Rightarrow> pathinfo \<Rightarrow> bool" where
  "cost_le a b \<longleftrightarrow>
     pi_unk a < pi_unk b \<or>
     (pi_unk a = pi_unk b \<and> (pi_mw a < pi_mw b \<or> (pi_mw a = pi_mw b \<and> pi_w a \<le> pi_w b)))"

lemma cost_le_refl [simp]: "cost_le a a"
  by (simp add: cost_le_def)

lemma cost_le_trans: "cost_le a b \<Longrightarrow> cost_le b c \<Longrightarrow> cost_le a c"
  by (auto simp: cost_le_def)

lemma better_path_cases: "better_path s p = (if cost_le s p then s else p)"
  by (auto simp: better_path_def cost_le_def)

lemma not_cost_le: "\<not> cost_le a b \<Longrightarrow> cost_le b a"
  by (auto simp: cost_le_def)

lemma selectPath_snoc:
  "selectPath (ps @ [p]) =
     Some (case selectPath ps of None \<Rightarrow> p | Some s \<Rightarrow> better_path s p)"
  by (auto simp: selectPath_def split: option.splits)

lemma selectPath_None_iff: "selectPath ps = None \<longleftrightarrow> ps = []"
  by (cases ps rule: rev_cases) (auto simp: selectPath_snoc, simp add: selectPath_def)

text \<open>
  The result is the first of the cheapest candidates: no candidate is cheaper, and every
  candidate before it is strictly more expensive.
\<close>

lemma selectPath_first_min:
  assumes "selectPath ps = Some s"
  shows "\<exists>xs ys. ps = xs @ s # ys \<and> list_all (\<lambda>x. \<not> cost_le x s) xs \<and> list_all (cost_le s) ys"
  using assms
proof (induction ps arbitrary: s rule: rev_induct)
  case (snoc p ps)
  show ?case
  proof (cases "selectPath ps")
    case None
    with snoc.prems have "ps = []" "s = p" by (simp_all add: selectPath_None_iff selectPath_snoc)
    then show ?thesis by (intro exI [of _ "[]"]) simp
  next
    case (Some s')
    from snoc.IH [OF Some] obtain xs ys where split: "ps = xs @ s' # ys"
      "list_all (\<lambda>x. \<not> cost_le x s') xs" "list_all (cost_le s') ys" by blast
    from snoc.prems Some have s: "s = (if cost_le s' p then s' else p)"
      by (simp add: selectPath_snoc better_path_cases)
    show ?thesis
    proof (cases "cost_le s' p")
      case True
      with s split show ?thesis by (intro exI [of _ xs] exI [of _ "ys @ [p]"]) simp
    next
      case False
      with split(2,3) have "list_all (\<lambda>x. \<not> cost_le x p) ps"
        unfolding split(1) by (auto simp: list_all_iff dest: cost_le_trans not_cost_le)
      with s False show ?thesis by (intro exI [of _ ps] exI [of _ "[]"]) simp
    qed
  qed
qed (simp add: selectPath_def)

lemma selectPath_min:
  assumes "selectPath ps = Some s"
  shows "s \<in> set ps" and "p \<in> set ps \<Longrightarrow> cost_le s p"
  using selectPath_first_min [OF assms] not_cost_le by (fastforce simp: list_all_iff)+

section \<open>Only the merge marks of the path change\<close>

text \<open>Two paths that differ in merge marks only.\<close>

definition same_but_merge :: "pathinfo list \<Rightarrow> pathinfo list \<Rightarrow> bool" where
  "same_but_merge xs ys \<longleftrightarrow>
     map (\<lambda>x. x\<lparr>pi_merge := None\<rparr>) xs = map (\<lambda>x. x\<lparr>pi_merge := None\<rparr>) ys"

lemma same_but_merge_refl [simp]: "same_but_merge xs xs"
  by (simp add: same_but_merge_def)

lemma same_but_merge_trans: "same_but_merge xs ys \<Longrightarrow> same_but_merge ys zs \<Longrightarrow> same_but_merge xs zs"
  by (simp add: same_but_merge_def)

lemma same_but_merge_length: "same_but_merge xs ys \<Longrightarrow> length ys = length xs"
  unfolding same_but_merge_def by (metis length_map)

lemma same_but_merge_nth:
  assumes "same_but_merge xs ys" "k < length xs"
  shows "(ys ! k)\<lparr>pi_merge := None\<rparr> = (xs ! k)\<lparr>pi_merge := None\<rparr>"
  using assms same_but_merge_length [OF assms(1)] unfolding same_but_merge_def
  by (metis nth_map)

lemma same_but_merge_fields:
  assumes "same_but_merge xs ys" "k < length xs"
  shows "pi_p (ys ! k) = pi_p (xs ! k)" "pi_mw (ys ! k) = pi_mw (xs ! k)"
    "pi_w (ys ! k) = pi_w (xs ! k)" "pi_unk (ys ! k) = pi_unk (xs ! k)"
    "pi_type (ys ! k) = pi_type (xs ! k)"
  using arg_cong [OF same_but_merge_nth [OF assms], of pi_p]
    arg_cong [OF same_but_merge_nth [OF assms], of pi_mw]
    arg_cong [OF same_but_merge_nth [OF assms], of pi_w]
    arg_cong [OF same_but_merge_nth [OF assms], of pi_unk]
    arg_cong [OF same_but_merge_nth [OF assms], of pi_type] by simp_all

text \<open>Merge marks point strictly to the left.\<close>

definition merge_ok :: "pathinfo list \<Rightarrow> bool" where
  "merge_ok path \<longleftrightarrow>
     (\<forall>k < length path. \<forall>m. pi_merge (path ! k) = Some m \<longrightarrow> 0 \<le> m \<and> m < int k)"

lemma set_merge_ok:
  assumes "0 \<le> p" "p < j" "i < int (length path)" "merge_ok path"
  shows "\<exists>path'. set_merge path p j i = Inr path' \<and> same_but_merge path path' \<and> merge_ok path'"
  using assms
proof (induction path p j i rule: set_merge.induct)
  case (1 path p j i)
  show ?case
  proof (cases "j \<le> i")
    case True
    let ?path = "path[nat j := (path ! nat j)\<lparr>pi_merge := Some p\<rparr>]"
    have j: "at_obj path j = Inr (path ! nat j)" "nat j < length path" using True 1 by auto
    have "merge_ok ?path"
      using 1 True by (auto simp: merge_ok_def nth_list_update)
    with 1(1) [OF True j(1)] 1(2-4) obtain path' where path': "set_merge ?path p (j + 1) i = Inr path'"
      "same_but_merge ?path path'" "merge_ok path'" by auto
    have "same_but_merge path ?path"
      using j(2) by (auto simp: same_but_merge_def map_update intro!: nth_equalityI simp: nth_list_update)
    with path' j True show ?thesis
      by (subst set_merge.simps) (auto intro: same_but_merge_trans)
  next
    case False
    with 1 show ?thesis by (subst set_merge.simps) auto
  qed
qed

section \<open>What the builder returns\<close>

text \<open>
  With every final acceptor's piece inside the text read so far, \<open>buildByAcceptors\<close> returns one
  entry per acceptor, and \<open>build\<close> at least one entry.
\<close>

definition fits :: "int \<Rightarrow> acceptor \<Rightarrow> bool" where
  "fits i a \<longleftrightarrow> 0 < strOffset a \<and> int (strOffset a) \<le> i + 1"

definition piece_start :: "int \<Rightarrow> acceptor \<Rightarrow> int" where
  "piece_start i a = i - int (strOffset a) + 1"

lemma fits_start: "fits i a \<Longrightarrow> 0 \<le> piece_start i a \<and> piece_start i a \<le> i"
  by (auto simp: fits_def piece_start_def)

text \<open>An entry for an acceptor, up to its merge mark.\<close>

definition info_for :: "pathinfo list \<Rightarrow> int \<Rightarrow> acceptor \<Rightarrow> pathinfo \<Rightarrow> bool" where
  "info_for path i a info \<longleftrightarrow>
     info\<lparr>pi_merge := None\<rparr> = acceptor_info a (piece_start i a) (path ! nat (piece_start i a)) \<and>
     (\<forall>m. pi_merge info = Some m \<longrightarrow> m = piece_start i a)"

lemma info_for_same:
  assumes "same_but_merge path path'" "fits i a" "i < int (length path)" "info_for path' i a info"
  shows "info_for path i a info"
proof -
  have "nat (piece_start i a) < length path" using fits_start [OF assms(2)] assms(3) by linarith
  from same_but_merge_fields [OF assms(1) this] assms(4) show ?thesis
    by (simp add: info_for_def acceptor_info_def)
qed

lemma buildOne_ok:
  assumes "fits i a" "i < int (length path)" "merge_ok path"
  shows "\<exists>path' info. buildOne path a i = Inr (path', info) \<and>
    same_but_merge path path' \<and> merge_ok path' \<and> info_for path i a info"
proof -
  let ?p = "piece_start i a"
  note p = fits_start [OF assms(1)]
  have at: "at_obj path ?p = Inr (path ! nat ?p)" using p assms(2) by simp
  show ?thesis
  proof (cases "acc_type a = ''PART''")
    case True
    with set_merge_ok [of ?p "?p + 1" i path] p at assms(2,3) show ?thesis
      by (auto simp: buildOne_def Let_def info_for_def acceptor_info_def piece_start_def [symmetric])
  next
    case False
    with at assms(3) show ?thesis
      by (simp add: buildOne_def Let_def info_for_def acceptor_info_def piece_start_def [symmetric])
  qed
qed

lemma buildByAcceptors_ok:
  assumes "list_all (fits i) as" "i < int (length path)" "merge_ok path"
  shows "\<exists>path' infos. buildByAcceptors path as i = Inr (path', infos) \<and>
    same_but_merge path path' \<and> merge_ok path' \<and> list_all2 (info_for path i) as infos"
  using assms
proof (induction as arbitrary: path)
  case (Cons a as)
  from Cons.prems have fit: "fits i a" "list_all (fits i) as" by simp_all
  from buildOne_ok [OF fit(1) Cons.prems(2,3)] obtain path1 info where
    one: "buildOne path a i = Inr (path1, info)" "same_but_merge path path1" "merge_ok path1"
      "info_for path i a info" by blast
  have len: "i < int (length path1)" using same_but_merge_length [OF one(2)] Cons.prems(2) by simp
  from Cons.IH [OF fit(2) len one(3)] obtain path2 infos where
    rest: "buildByAcceptors path1 as i = Inr (path2, infos)" "same_but_merge path1 path2"
      "merge_ok path2" "list_all2 (info_for path1 i) as infos" by blast
  have "list_all2 (info_for path i) as infos"
    using rest(4) fit(2) info_for_same [OF one(2)] Cons.prems(2)
    by (auto simp: list_all2_conv_all_nth list_all_length)
  with one rest show ?case by (auto intro: same_but_merge_trans)
qed simp

end
