(* ===== verification/Wordcut_Core.thy ===== *)
theory Wordcut_Core
  imports Wordcut_Acceptors Wordcut_Path
begin

text \<open>
  The word cutter itself (\<open>wordcut.js\<close>, module 8): \<open>buildPath\<close> fills the table from left to right,
  \<open>pathToRanges\<close> follows it back from the end, and the \<open>cut\<close> functions return the pieces.
\<close>

section \<open>Model\<close>

text \<open>
  The loop of \<open>buildPath\<close>. The acceptors are an object of the cutter, so the loop also returns the
  state it leaves them in. Reading \<open>selectedPath.type\<close> of a \<open>null\<close> selection would throw.
\<close>

function buildPath_loop ::
  "acceptors \<Rightarrow> jstring \<Rightarrow> nat \<Rightarrow> pathinfo list \<Rightarrow> int \<Rightarrow> (pathinfo list \<times> acceptors) result" where
  "buildPath_loop e text i path leftBoundary =
     (if i < length text then
        and_then (acceptors_transit e (text ! i)) (\<lambda>e'.
        and_then (build path (getFinalAcceptors e') (int i) leftBoundary text)
          (\<lambda>(path', possiblePathInfos).
            case selectPath possiblePathInfos of
              None \<Rightarrow> Inl TypeError
            | Some selectedPath \<Rightarrow>
                buildPath_loop e' text (i + 1) (path' @ [selectedPath])
                  (if pi_type selectedPath \<noteq> ''UNK'' then int i else leftBoundary)))
      else Inr (path, e))"
  by pat_completeness auto
termination
  by (relation "measure (\<lambda>(e, text, i, path, lb). length text - i)") auto

declare buildPath_loop.simps [simp del]

definition buildPath :: "acceptors \<Rightarrow> jstring \<Rightarrow> (pathinfo list \<times> acceptors) result" where
  "buildPath e text = buildPath_loop (acceptors_reset e) text 0 createPath 0"

text \<open>
  The loop of \<open>pathToRanges\<close>; whether it ends depends on the path, so not returning is \<open>None\<close>.
  A \<open>null\<close> start counts as \<open>0\<close> wherever it is used: it ends the loop and is \<open>0\<close> for \<open>substring\<close>.
\<close>

partial_function (option) ranges_loop ::
  "pathinfo list \<Rightarrow> int \<Rightarrow> range list \<Rightarrow> range list result option" where
  "ranges_loop path e ranges =
     (if e > 0 then
        (case at path e of
           None \<Rightarrow> Some (Inl TypeError)
         | Some info \<Rightarrow>
             if pi_merge info \<noteq> None \<and> ranges \<noteq> [] then
               (let m = the (pi_merge info)
                in ranges_loop path m (butlast ranges @ [(last ranges)\<lparr>rg_s := m\<rparr>]))
             else
               (let s = (case pi_p info of Some p \<Rightarrow> p | None \<Rightarrow> 0)
                in ranges_loop path s (ranges @ [\<lparr>rg_s = s, rg_e = e\<rparr>])))
      else Some (Inr ranges))"

definition pathToRanges :: "pathinfo list \<Rightarrow> range list result option" where
  "pathToRanges path =
     map_option (map_sum id rev) (ranges_loop path (int (length path) - 1) [])"

definition range_text :: "jstring \<Rightarrow> range \<Rightarrow> jstring" where
  "range_text text r = substring text (rg_s r) (rg_e r)"

definition rangesToText :: "jstring \<Rightarrow> range list \<Rightarrow> jstring \<Rightarrow> jstring" where
  "rangesToText text ranges delimiter = join delimiter (map (range_text text) ranges)"

text \<open>Building the path and following it back, which the three entry points share.\<close>

definition path_ranges :: "acceptors \<Rightarrow> jstring \<Rightarrow> range list result option" where
  "path_ranges e text =
     (case buildPath e text of
        Inl err \<Rightarrow> Some (Inl err)
      | Inr (path, e') \<Rightarrow> pathToRanges path)"

definition cut :: "acceptors \<Rightarrow> jstring \<Rightarrow> jstring option \<Rightarrow> jstring result option" where
  "cut e text delimiter =
     map_option (map_sum id (\<lambda>ranges. rangesToText text ranges
         (case delimiter of None \<Rightarrow> js ''|'' | Some d \<Rightarrow> d)))
       (path_ranges e text)"

text \<open>\<open>cutIntoRanges\<close> returns the ranges, each with its text unless \<open>noText\<close> is given.\<close>

definition cutIntoRanges ::
  "acceptors \<Rightarrow> jstring \<Rightarrow> bool \<Rightarrow> (range \<times> jstring option) list result option" where
  "cutIntoRanges e text noText =
     map_option (map_sum id (map (\<lambda>r. (r, if \<not> noText then Some (range_text text r) else None))))
       (path_ranges e text)"

definition cutIntoArray :: "acceptors \<Rightarrow> jstring \<Rightarrow> jstring list result option" where
  "cutIntoArray e text =
     map_option (map_sum id (map (range_text text))) (path_ranges e text)"

section \<open>The path table\<close>

text \<open>
  The shape of the path after \<open>n\<close> code units: \<open>n + 1\<close> entries, each but the first pointing
  strictly to the left.
\<close>

definition path_ok :: "nat \<Rightarrow> pathinfo list \<Rightarrow> bool" where
  "path_ok n path \<longleftrightarrow>
     length path = Suc n \<and> merge_ok path \<and>
     (\<forall>k. 0 < k \<longrightarrow> k \<le> n \<longrightarrow> (\<exists>q. pi_p (path ! k) = Some q \<and> 0 \<le> q \<and> q < int k))"

text \<open>
  The words on offer at position \<open>k\<close>: the words of the rules that end there. A run of letters,
  digits or spaces is read by one acceptor only, which starts with the run, so of these rules only
  the word that starts where its run starts is on offer, and no shorter one.
\<close>

definition offered :: "jstring \<Rightarrow> nat \<Rightarrow> creator \<Rightarrow> nat \<Rightarrow> bool" where
  "offered text k c j \<longleftrightarrow>
     j < k \<and> rule_lang c (take (k - j) (drop j text)) \<and>
     (tag_guarded c \<and> 0 < j \<longrightarrow> \<not> rule_char c (text ! (j - 1)))"

text \<open>An entry that is not \<open>UNK\<close> stands for a word on offer, the one that starts at its pointer.\<close>

definition entry_sound :: "creator set \<Rightarrow> jstring \<Rightarrow> nat \<Rightarrow> pathinfo \<Rightarrow> bool" where
  "entry_sound cs text k info \<longleftrightarrow>
     pi_type info = ''UNK'' \<or>
     (\<exists>c \<in> cs. \<exists>j. offered text k c j \<and> pi_p info = Some (int j) \<and> pi_type info = creator_tag c)"

text \<open>
  The entry is at most as expensive as any word on offer here, taken after the entry at the start
  of that word, and it is not \<open>UNK\<close> when there is such a word.
\<close>

definition ext_cost :: "creator \<Rightarrow> pathinfo \<Rightarrow> pathinfo" where
  "ext_cost c prev =
     prev\<lparr>pi_unk := (if c = PartRule then 1 else 0) + pi_unk prev, pi_w := 1 + pi_w prev\<rparr>"

definition entry_best :: "creator set \<Rightarrow> jstring \<Rightarrow> pathinfo list \<Rightarrow> nat \<Rightarrow> bool" where
  "entry_best cs text path k \<longleftrightarrow>
     (\<forall>c \<in> cs. \<forall>j. offered text k c j \<longrightarrow>
        pi_type (path ! k) \<noteq> ''UNK'' \<and> cost_le (path ! k) (ext_cost c (path ! j)))"

definition path_inv :: "creator set \<Rightarrow> jstring \<Rightarrow> nat \<Rightarrow> pathinfo list \<Rightarrow> bool" where
  "path_inv cs text n path \<longleftrightarrow>
     path_ok n path \<and>
     (\<forall>k. 0 < k \<longrightarrow> k \<le> n \<longrightarrow> entry_sound cs text k (path ! k) \<and> entry_best cs text path k)"

subsection \<open>Marking merges does not touch the invariant\<close>

lemma entry_sound_merge: "entry_sound cs text k (x\<lparr>pi_merge := None\<rparr>) = entry_sound cs text k x"
  by (simp add: entry_sound_def)

lemma cost_le_merge:
  "cost_le (x\<lparr>pi_merge := None\<rparr>) (ext_cost c (y\<lparr>pi_merge := None\<rparr>)) = cost_le x (ext_cost c y)"
  by (simp add: cost_le_def ext_cost_def)

lemma path_inv_same:
  assumes "path_inv cs text n path" "same_but_merge path path'" "merge_ok path'"
  shows "path_inv cs text n path'"
proof -
  have len: "length path = Suc n" "length path' = Suc n"
    using assms(1) same_but_merge_length [OF assms(2)] by (auto simp: path_inv_def path_ok_def)
  have nth: "(path' ! k)\<lparr>pi_merge := None\<rparr> = (path ! k)\<lparr>pi_merge := None\<rparr>"
    and p: "pi_p (path' ! k) = pi_p (path ! k)" and ty: "pi_type (path' ! k) = pi_type (path ! k)"
    if "k \<le> n" for k
    using same_but_merge_nth [OF assms(2)] same_but_merge_fields [OF assms(2)] that len by simp_all
  have "path_ok n path'"
    using assms(1,3) p len by (simp add: path_inv_def path_ok_def)
  moreover have "entry_sound cs text k (path' ! k)" if "0 < k" "k \<le> n" for k
    using assms(1) that nth [OF that(2)] entry_sound_merge [of cs "text" k]
    unfolding path_inv_def by metis
  moreover have "entry_best cs text path' k" if "0 < k" "k \<le> n" for k
    unfolding entry_best_def
  proof (intro ballI allI impI conjI)
    fix c j assume c: "c \<in> cs" "offered text k c j"
    then have "pi_type (path ! k) \<noteq> ''UNK''" and le: "cost_le (path ! k) (ext_cost c (path ! j))"
      using assms(1) that by (auto simp: path_inv_def entry_best_def)
    then show "pi_type (path' ! k) \<noteq> ''UNK''" using ty that by simp
    have "j \<le> n" using c(2) that(2) by (simp add: offered_def)
    from le cost_le_merge [of "path ! k" c "path ! j"] cost_le_merge [of "path' ! k" c "path' ! j"]
    show "cost_le (path' ! k) (ext_cost c (path' ! j))"
      unfolding nth [OF that(2)] nth [OF \<open>j \<le> n\<close>] by blast
  qed
  ultimately show ?thesis by (simp add: path_inv_def)
qed

subsection \<open>Appending the selected entry\<close>

lemma path_inv_snoc:
  assumes "path_inv cs text n path" "pi_p sel = Some q" "0 \<le> q" "q \<le> int n"
    "\<And>m. pi_merge sel = Some m \<Longrightarrow> 0 \<le> m \<and> m \<le> int n"
    "entry_sound cs text (Suc n) sel" "entry_best cs text (path @ [sel]) (Suc n)"
  shows "path_inv cs text (Suc n) (path @ [sel])"
proof -
  have len: "length path = Suc n" using assms(1) by (simp add: path_inv_def path_ok_def)
  have old: "(path @ [sel]) ! k = path ! k" if "k \<le> n" for k
    using that len by (simp add: nth_append)
  have new: "(path @ [sel]) ! Suc n = sel" using len by (simp add: nth_append)
  have "merge_ok (path @ [sel])"
    using assms(1,5) len by (fastforce simp: path_inv_def path_ok_def merge_ok_def nth_append)
  then have "path_ok (Suc n) (path @ [sel])"
    using assms(1-4) len old new by (auto simp: path_inv_def path_ok_def le_Suc_eq)
  moreover have "entry_best cs text (path @ [sel]) k" if "0 < k" "k \<le> n" for k
    using assms(1) that old by (simp add: path_inv_def entry_best_def offered_def)
  ultimately show ?thesis
    using assms(1,6,7) old new by (auto simp: path_inv_def le_Suc_eq)
qed

text \<open>The word an acceptor of the engine has read is on offer, when it is one.\<close>

lemma reads_offered:
  assumes "engine_inv (take k text) e" "a \<in> set (current e)" "acc_rule a \<in> set (creators e)"
    "reads (acc_rule a) (drop j (take k text)) a" "rule_lang (acc_rule a) (drop j (take k text))"
    "j < k" "k \<le> length text"
  shows "offered text k (acc_rule a) j"
proof -
  have "\<not> rule_char (acc_rule a) (text ! (j - 1))" if g: "tag_guarded (acc_rule a)" and j: "0 < j"
  proof -
    have "length (last_run (rule_char (acc_rule a)) (take k text)) = length (take k text) - j"
      using reads_offset [OF engine_runsD(1) [OF assms(1,3) g assms(2) refl]]
        reads_offset [OF assms(4)] by simp
    then show ?thesis using last_run_start j assms(6,7) by fastforce
  qed
  then show ?thesis using assms(5,6) by (simp add: offered_def drop_take)
qed

text \<open>Every word on offer has been read by an acceptor of the engine.\<close>

lemma offered_reads:
  assumes eng: "engine_inv (take k text) e" and c: "c \<in> set (creators e)" and "offered text k c j"
    and k: "k \<le> length text"
  obtains a where "a \<in> set (getFinalAcceptors e)" "reads c (drop j (take k text)) a"
proof -
  let ?s = "drop j (take k text)"
  have j: "j < length (take k text)" and ne: "?s \<noteq> []" and word: "rule_lang c ?s"
    and start: "tag_guarded c \<Longrightarrow> 0 < j \<Longrightarrow> \<not> rule_char c (take k text ! (j - 1))"
    using assms(3) k by (auto simp: offered_def drop_take)
  have "\<exists>a \<in> set (current e). reads c ?s a"
  proof (cases "tag_guarded c")
    case True
    have "list_all (rule_char c) ?s"
      using rules.lang_goes [OF word ne] tag_guarded_lang [OF True] by simp
    from last_run_eq [OF this start [OF True]] j
    have run: "last_run (rule_char c) (take k text) = ?s" by simp
    with engine_runsD [OF eng c True] ne show ?thesis by metis
  next
    case False
    with engine_completeD [OF eng c False j rules.lang_goes [OF word ne]] show ?thesis by blast
  qed
  then obtain a where a: "a \<in> set (current e)" "reads c ?s a" by blast
  with rules.reading_final [OF a(2) ne] word have "a \<in> set (getFinalAcceptors e)"
    by (simp add: getFinalAcceptors_def)
  with a(2) show ?thesis by (rule that [rotated])
qed

text \<open>Every final acceptor has read a word that ends here.\<close>

lemma final_acceptor:
  assumes "engine_inv t e" "length t = Suc i" "a \<in> set (getFinalAcceptors e)"
  obtains j where "j \<le> i" "fits (int i) a" "piece_start (int i) a = int j"
    "acc_rule a \<in> set (creators e)" "reads (acc_rule a) (drop j t) a" "rule_lang (acc_rule a) (drop j t)"
    "a \<in> set (current e)"
proof -
  from assms(3) have a: "a \<in> set (current e)" "isFinal a" by (auto simp: getFinalAcceptors_def)
  from engine_soundD [OF assms(1) a(1)] obtain j where
    j: "j < length t" "acc_rule a \<in> set (creators e)" "reads (acc_rule a) (drop j t) a" by blast
  then have "rule_lang (acc_rule a) (drop j t)"
    using rules.reading_final [OF j(3)] a(2) by simp
  moreover have "strOffset a = Suc i - j" using reads_offset [OF j(3)] assms(2) by simp
  ultimately show ?thesis
    using j assms(2) a(1) by (intro that [of j]) (auto simp: fits_def piece_start_def)
qed

lemma creator_tag_not_UNK [simp]: "creator_tag c \<noteq> ''UNK''"
  by (cases c) auto

text \<open>The entry of a final acceptor: its word, its pointer and its cost.\<close>

lemma candidate_entry:
  assumes "reads c s a" "info_for path i a info" "piece_start i a = int j"
  shows "pi_p info = Some (int j)" "pi_type info = creator_tag c"
    "\<And>m. pi_merge info = Some m \<Longrightarrow> m = int j"
    "cost_le info (ext_cost c (path ! j))"
proof -
  from assms(2,3) have info: "info\<lparr>pi_merge := None\<rparr> = acceptor_info a (int j) (path ! j)"
    and m: "\<And>m. pi_merge info = Some m \<Longrightarrow> m = int j" by (auto simp: info_for_def)
  show "pi_p info = Some (int j)" using arg_cong [OF info, of pi_p] by (simp add: acceptor_info_def)
  show "pi_type info = creator_tag c"
    using arg_cong [OF info, of pi_type] reads_type [OF assms(1)] by (simp add: acceptor_info_def)
  show "\<And>m. pi_merge info = Some m \<Longrightarrow> m = int j" by (rule m)
  show "cost_le info (ext_cost c (path ! j))"
    using arg_cong [OF info, of pi_unk] arg_cong [OF info, of pi_w] arg_cong [OF info, of pi_mw]
      reads_w [OF assms(1)] reads_mw [OF assms(1)] reads_unk [OF assms(1)]
    by (auto simp: acceptor_info_def cost_le_def ext_cost_def split: if_splits)
qed

lemma fallback_entry:
  assumes "path_ok n path" "0 \<le> lb" "lb \<le> int n" "n < length text"
  obtains info q where "fallback path lb text (int n) = Inr info" "pi_type info = ''UNK''"
    "pi_p info = Some q" "0 \<le> q" "q \<le> int n" "pi_merge info = None"
proof -
  have at: "at_obj text (int n) = Inr (text ! n)" "at_obj path lb = Inr (path ! nat lb)"
    using assms by (auto simp: path_ok_def)
  have "\<exists>q. pi_p (path ! nat lb) = Some q \<and> 0 \<le> q \<and> q < lb" if "lb \<noteq> 0"
    using assms that by (auto simp: path_ok_def dest: spec [of _ "nat lb"])
  then have "\<exists>q. (if lb \<noteq> 0 then pi_p (path ! nat lb) else Some lb) = Some q \<and> 0 \<le> q \<and> q \<le> int n"
    using assms(2,3) by fastforce
  then obtain q where q: "(if lb \<noteq> 0 then pi_p (path ! nat lb) else Some lb) = Some q"
    "0 \<le> q" "q \<le> int n" by blast
  show ?thesis
  proof (cases "thai_mark (text ! n)")
    case True
    with at q that show ?thesis by (auto simp: fallback_def)
  next
    case False
    with at assms(2,3) that show ?thesis by (auto simp: fallback_def)
  qed
qed

subsection \<open>One round of buildPath\<close>

text \<open>
  What the builder offers at position \<open>n\<close>: candidates that are sound, at least one, and one for
  every acceptor that is final here.
\<close>

lemma build_candidates:
  assumes inv: "path_inv (set (creators e)) text n path" and eng: "engine_inv (take (Suc n) text) e"
    and n: "n < length text" and lb: "0 \<le> lb" "lb \<le> int n"
  obtains path' infos where
    "build path (getFinalAcceptors e) (int n) lb text = Inr (path', infos)" "infos \<noteq> []"
    "same_but_merge path path'" "merge_ok path'"
    "\<And>info. info \<in> set infos \<Longrightarrow> entry_sound (set (creators e)) text (Suc n) info \<and>
      (\<exists>q. pi_p info = Some q \<and> 0 \<le> q \<and> q \<le> int n) \<and>
      (\<forall>m. pi_merge info = Some m \<longrightarrow> 0 \<le> m \<and> m \<le> int n)"
    "\<And>a. a \<in> set (getFinalAcceptors e) \<Longrightarrow> \<exists>info \<in> set infos. info_for path (int n) a info"
    "getFinalAcceptors e \<noteq> [] \<Longrightarrow> list_all (\<lambda>info. pi_type info \<noteq> ''UNK'') infos"
proof -
  let ?t = "take (Suc n) text" and ?fin = "getFinalAcceptors e"
  have len: "length ?t = Suc n" using n by simp
  have ok: "path_ok n path" using inv by (simp add: path_inv_def)
  have fits: "list_all (fits (int n)) ?fin"
    unfolding list_all_iff using final_acceptor [OF eng len] by metis
  have "int n < int (length path)" "merge_ok path" using ok by (simp_all add: path_ok_def)
  from buildByAcceptors_ok [OF fits this] obtain path' infos where
    b: "buildByAcceptors path ?fin (int n) = Inr (path', infos)" "same_but_merge path path'"
      "merge_ok path'" "list_all2 (info_for path (int n)) ?fin infos" by blast
  show ?thesis
  proof (cases "?fin = []")
    case True
    with b(4) have none: "infos = []" by simp
    have "path_ok n path'" using path_inv_same [OF inv b(2,3)] by (simp add: path_inv_def)
    from fallback_entry [OF this lb n] obtain info q where
      f: "fallback path' lb text (int n) = Inr info" "pi_type info = ''UNK''"
        "pi_p info = Some q" "0 \<le> q" "q \<le> int n" "pi_merge info = None" .
    then have "build path ?fin (int n) lb text = Inr (path', [info])"
      using b(1) none by (simp add: build_def)
    with f b True show ?thesis by (intro that [of path' "[info]"]) (auto simp: entry_sound_def)
  next
    case False
    then have ne: "infos \<noteq> []" using b(4) by auto
    have cand: "entry_sound (set (creators e)) text (Suc n) info \<and> pi_type info \<noteq> ''UNK'' \<and>
        (\<exists>q. pi_p info = Some q \<and> 0 \<le> q \<and> q \<le> int n) \<and>
        (\<forall>m. pi_merge info = Some m \<longrightarrow> 0 \<le> m \<and> m \<le> int n)" if info: "info \<in> set infos" for info
    proof -
      from info b(4) obtain a where a: "a \<in> set ?fin" "info_for path (int n) a info"
        using list_all2_right [OF b(4)] by blast
      from final_acceptor [OF eng len a(1)] obtain j where j: "j \<le> n"
        "piece_start (int n) a = int j" "acc_rule a \<in> set (creators e)"
        "reads (acc_rule a) (drop j ?t) a" "rule_lang (acc_rule a) (drop j ?t)"
        "a \<in> set (current e)" by blast
      note entry = candidate_entry [OF j(4) a(2) j(2)]
      have "offered text (Suc n) (acc_rule a) j"
        using reads_offered [OF eng j(6,3,4,5)] j(1) n by simp
      then show ?thesis
        unfolding entry_sound_def using entry(1-3) j by auto
    qed
    have all: "list_all (\<lambda>info. pi_type info \<noteq> ''UNK'') infos"
      using cand by (auto simp: list_all_iff)
    have from_acc: "\<exists>info \<in> set infos. info_for path (int n) a info" if "a \<in> set ?fin" for a
      using that list_all2_left [OF b(4)] by blast
    have "build path ?fin (int n) lb text = Inr (path', infos)"
      using b(1) ne by (simp add: build_def)
    then show ?thesis using ne b(2,3) cand from_acc all that [of path' infos] by blast
  qed
qed

lemma path_inv_round:
  assumes inv: "path_inv (set (creators e)) text n path" and eng: "engine_inv (take (Suc n) text) e"
    and n: "n < length text" and lb: "0 \<le> lb" "lb \<le> int n"
  obtains path' infos sel where
    "build path (getFinalAcceptors e) (int n) lb text = Inr (path', infos)"
    "selectPath infos = Some sel"
    "path_inv (set (creators e)) text (Suc n) (path' @ [sel])"
proof -
  let ?cs = "set (creators e)" and ?t = "take (Suc n) text"
  have len: "length ?t = Suc n" using n by simp
  from build_candidates [OF assms] obtain path' infos where
    b: "build path (getFinalAcceptors e) (int n) lb text = Inr (path', infos)" "infos \<noteq> []"
      "same_but_merge path path'" "merge_ok path'"
      "\<And>info. info \<in> set infos \<Longrightarrow> entry_sound ?cs text (Suc n) info \<and>
        (\<exists>q. pi_p info = Some q \<and> 0 \<le> q \<and> q \<le> int n) \<and>
        (\<forall>m. pi_merge info = Some m \<longrightarrow> 0 \<le> m \<and> m \<le> int n)"
      "\<And>a. a \<in> set (getFinalAcceptors e) \<Longrightarrow> \<exists>info \<in> set infos. info_for path (int n) a info"
      "getFinalAcceptors e \<noteq> [] \<Longrightarrow> list_all (\<lambda>info. pi_type info \<noteq> ''UNK'') infos" by blast
  from b(2) obtain sel where sel: "selectPath infos = Some sel"
    using selectPath_None_iff by (cases "selectPath infos") auto
  note min = selectPath_min [OF sel]
  have inv': "path_inv ?cs text n path'" by (rule path_inv_same [OF inv b(3,4)])
  have plen: "length path = Suc n" "length path' = Suc n"
    using inv inv' by (auto simp: path_inv_def path_ok_def)
  have "entry_best ?cs text (path' @ [sel]) (Suc n)"
    unfolding entry_best_def
  proof (intro ballI allI impI)
    fix c j assume c1: "c \<in> ?cs" and off: "offered text (Suc n) c j"
    then have c: "c \<in> ?cs" "j < Suc n" by (simp_all add: offered_def)
    from offered_reads [OF eng c1 off] n obtain a where
      fin: "a \<in> set (getFinalAcceptors e)" and a: "reads c (drop j ?t) a" by auto
    from b(6) [OF fin] obtain info where info: "info \<in> set infos" "info_for path (int n) a info" by blast
    have "piece_start (int n) a = int j"
      using reads_offset [OF a] len c(2) by (simp add: piece_start_def)
    from candidate_entry(4) [OF a info(2) this] min(2) [OF info(1)]
    have "cost_le sel (ext_cost c (path ! j))" by (rule cost_le_trans [rotated])
    moreover have "(path' ! j)\<lparr>pi_merge := None\<rparr> = (path ! j)\<lparr>pi_merge := None\<rparr>"
      using same_but_merge_nth [OF b(3)] c(2) plen by simp
    ultimately have "cost_le sel (ext_cost c (path' ! j))" by (metis cost_le_merge)
    moreover have "pi_type sel \<noteq> ''UNK''"
      using b(7) fin min(1) by (fastforce simp: list_all_iff)
    ultimately show "pi_type ((path' @ [sel]) ! Suc n) \<noteq> ''UNK'' \<and>
        cost_le ((path' @ [sel]) ! Suc n) (ext_cost c ((path' @ [sel]) ! j))"
      using c(2) plen by (simp add: nth_append)
  qed
  with b(5) [OF min(1)] have "path_inv ?cs text (Suc n) (path' @ [sel])"
    using path_inv_snoc [OF inv'] by blast
  with b(1) sel that show ?thesis by blast
qed

lemma buildPath_loop_ok:
  assumes "engine_inv (take i text) e" "path_inv (set (creators e)) text i path"
    "0 \<le> lb" "lb \<le> int i" "i \<le> length text"
  shows "\<exists>path' e'. buildPath_loop e text i path lb = Inr (path', e') \<and>
    path_inv (set (creators e)) text (length text) path' \<and> creators e' = creators e"
  using assms
proof (induction "length text - i" arbitrary: i e path lb)
  case 0
  then show ?case by (subst buildPath_loop.simps) auto
next
  case (Suc d)
  then have i: "i < length text" by simp
  from engine_inv_step [OF Suc.prems(1), of "text ! i"] obtain e' where
    e': "acceptors_transit e (text ! i) = Inr e'" "engine_inv (take (Suc i) text) e'"
      "creators e' = creators e" using i by (metis take_Suc_conv_app_nth)
  from path_inv_round [OF _ e'(2) i Suc.prems(3,4)] Suc.prems(2) e'(3) obtain path' infos sel where
    r: "build path (getFinalAcceptors e') (int i) lb text = Inr (path', infos)"
      "selectPath infos = Some sel" "path_inv (set (creators e')) text (Suc i) (path' @ [sel])" by metis
  let ?lb = "if pi_type sel \<noteq> ''UNK'' then int i else lb"
  have lb: "0 \<le> ?lb" "?lb \<le> int (Suc i)" using Suc.prems(3,4) by auto
  have "d = length text - Suc i" "Suc i \<le> length text" using Suc.hyps(2) i by auto
  from Suc.hyps(1) [OF this(1) e'(2) r(3) lb this(2)] show ?case
    using i e' r by (subst buildPath_loop.simps) auto
qed

lemma path_inv_createPath: "path_inv cs text 0 createPath"
  by (simp add: path_inv_def path_ok_def createPath_def merge_ok_def)

text \<open>\<open>buildPath\<close> never throws, and its table satisfies the invariant for the whole text.\<close>

lemma buildPath_ok:
  assumes "\<forall>c \<in> set (creators e). wf_creator c"
  obtains path e' where "buildPath e text = Inr (path, e')" "creators e' = creators e"
    "path_inv (set (creators e)) text (length text) path"
  using buildPath_loop_ok [of 0 "text" "acceptors_reset e" createPath 0]
    engine_inv_reset [OF assms] path_inv_createPath that
  by (auto simp: buildPath_def acceptors_reset_def)

section \<open>Following the path back\<close>

text \<open>Consecutive, non-empty ranges from \<open>a\<close> to \<open>b\<close>.\<close>

fun tiles :: "int \<Rightarrow> int \<Rightarrow> range list \<Rightarrow> bool" where
  "tiles a b [] = (a = b)"
| "tiles a b (r # rs) = (rg_s r = a \<and> a < rg_e r \<and> tiles (rg_e r) b rs)"

lemma tiles_le: "tiles a b rs \<Longrightarrow> a \<le> b"
  by (induction rs arbitrary: a) force+

lemma ranges_loop_ok:
  assumes "path_ok n path" "0 \<le> e" "e \<le> int n" "tiles e (int n) (rev ranges)"
  shows "\<exists>rs. ranges_loop path e ranges = Some (Inr rs) \<and> tiles 0 (int n) (rev rs)"
  using assms(2-4)
proof (induction "nat e" arbitrary: e ranges rule: less_induct)
  case less
  show ?case
  proof (cases "e > 0")
    case True
    let ?info = "path ! nat e"
    have len: "length path = Suc n" using assms(1) by (simp add: path_ok_def)
    have at: "at path e = Some ?info" using True less.prems len by (simp add: at_def)
    note unfold = ranges_loop.simps [of path e ranges]
    show ?thesis
    proof (cases "pi_merge ?info \<noteq> None \<and> ranges \<noteq> []")
      case merge: True
      then obtain m where m: "pi_merge ?info = Some m" by auto
      have "nat e < length path" using True less.prems(2) len by simp
      with m assms(1) have bound: "0 \<le> m" "m < e"
        using True by (auto simp: path_ok_def merge_ok_def)
      let ?rs = "butlast ranges @ [(last ranges)\<lparr>rg_s := m\<rparr>]"
      have "rev ranges = last ranges # rev (butlast ranges)"
        using merge by (metis append_butlast_last_id rev_eq_Cons_iff rev_rev_ident)
      with less.prems(3) bound have "tiles m (int n) (rev ?rs)" by simp
      with less.hyps [of m ?rs] bound True less.prems(2) m at merge show ?thesis
        by (subst unfold) (simp add: Let_def)
    next
      case False
      obtain q where q: "pi_p ?info = Some q" "0 \<le> q" "q < e"
        using assms(1) True less.prems(2) by (auto simp: path_ok_def dest: spec [of _ "nat e"])
      have "tiles q (int n) (rev (ranges @ [\<lparr>rg_s = q, rg_e = e\<rparr>]))"
        using less.prems(3) q by simp
      with less.hyps [of q "ranges @ [\<lparr>rg_s = q, rg_e = e\<rparr>]"] q True less.prems(2) at False
      show ?thesis by (subst unfold) (auto simp: Let_def)
    qed
  next
    case False
    with less.prems show ?thesis by (subst ranges_loop.simps) auto
  qed
qed

lemma pathToRanges_ok:
  assumes "path_ok n path"
  obtains rs where "pathToRanges path = Some (Inr rs)" "tiles 0 (int n) rs"
proof -
  have "length path = Suc n" using assms by (simp add: path_ok_def)
  moreover from ranges_loop_ok [OF assms, of "int n" "[]"] obtain rs where
    "ranges_loop path (int n) [] = Some (Inr rs)" "tiles 0 (int n) (rev rs)" by auto
  ultimately show ?thesis using that [of "rev rs"] by (simp add: pathToRanges_def)
qed

lemma tiles_text:
  assumes "tiles a (int n) rs" "0 \<le> a" "n \<le> length text"
  shows "concat (map (range_text text) rs) = take (n - nat a) (drop (nat a) text) \<and>
    list_all (\<lambda>w. w \<noteq> []) (map (range_text text) rs)"
  using assms
proof (induction rs arbitrary: a)
  case (Cons r rs)
  from Cons.prems have r: "rg_s r = a" "a < rg_e r" "tiles (rg_e r) (int n) rs" by simp_all
  with tiles_le have le: "rg_e r \<le> int n" by blast
  have piece: "range_text text r = take (nat (rg_e r) - nat a) (drop (nat a) text)"
    unfolding range_text_def r(1) by (rule substring_in_range) (use Cons.prems r le in auto)
  then have "range_text text r \<noteq> []" using r le Cons.prems(2,3) by auto
  moreover have "concat (map (range_text text) rs) =
      take (n - nat (rg_e r)) (drop (nat (rg_e r)) text) \<and>
    list_all (\<lambda>w. w \<noteq> []) (map (range_text text) rs)"
    using Cons.IH [OF r(3)] r Cons.prems(2,3) by simp
  ultimately show ?case
    using piece take_drop_join [of "nat a" "nat (rg_e r)" n "text"] r le Cons.prems(2) by simp
qed simp

text \<open>The ranges of a text tile it, whatever the rules and the dictionary are.\<close>

lemma path_ranges_ok:
  assumes "\<forall>c \<in> set (creators e). wf_creator c"
  obtains rs where "path_ranges e text = Some (Inr rs)" "tiles 0 (int (length text)) rs"
proof -
  obtain path e' where b: "buildPath e text = Inr (path, e')"
    "path_inv (set (creators e)) text (length text) path"
    by (rule buildPath_ok [OF assms])
  from b(2) have "path_ok (length text) path" by (simp add: path_inv_def)
  with that b(1) show ?thesis
    by (auto simp: path_ranges_def elim: pathToRanges_ok)
qed

end
