(* ===== verification/Node_Path.thy ===== *)
theory Node_Path
  imports Js_Prelude
begin

text \<open>
  The \<open>path\<close> module that is bundled with the word cutter (\<open>wordcut.js\<close>, modules 22 and 23; POSIX
  version). The backward pass of \<open>normalizeArray\<close> is proved equal to a left-to-right walk over
  the path components with a stack, and the laws of \<open>normalize\<close>, \<open>resolve\<close> and \<open>relative\<close> follow
  from that walk.
\<close>

section \<open>Model\<close>

definition slash :: unit16 where "slash = 47"
definition dot :: unit16 where "dot = 46"

abbreviation dot1 :: jstring where "dot1 \<equiv> [dot]"
abbreviation dot2 :: jstring where "dot2 \<equiv> [dot, dot]"

text \<open>The loop of \<open>normalizeArray\<close>: \<open>i\<close> counts down, \<open>parts.splice(i, 1)\<close> drops an element.\<close>

definition splice1 :: "'a list \<Rightarrow> nat \<Rightarrow> 'a list" where
  "splice1 xs i = take i xs @ drop (Suc i) xs"

fun normalize_loop :: "nat \<Rightarrow> jstring list \<Rightarrow> nat \<Rightarrow> jstring list \<times> nat" where
  "normalize_loop 0 parts up = (parts, up)"
| "normalize_loop (Suc i) parts up =
     (let last = parts ! i in
      if last = dot1 then normalize_loop i (splice1 parts i) up
      else if last = dot2 then normalize_loop i (splice1 parts i) (up + 1)
      else if up \<noteq> 0 then normalize_loop i (splice1 parts i) (up - 1)
      else normalize_loop i parts up)"

definition normalizeArray :: "jstring list \<Rightarrow> bool \<Rightarrow> jstring list" where
  "normalizeArray parts allowAboveRoot =
     (let (parts', up) = normalize_loop (length parts) parts 0
      in if allowAboveRoot then replicate up dot2 @ parts' else parts')"

text \<open>\<open>filter(path.split('/'), p => !!p)\<close>: the non-empty components.\<close>

definition path_parts :: "jstring \<Rightarrow> jstring list" where
  "path_parts path = filter (\<lambda>p. p \<noteq> []) (split1 slash path)"

definition isAbsolute :: "jstring \<Rightarrow> bool" where
  "isAbsolute path \<longleftrightarrow> (case path of [] \<Rightarrow> False | c # _ \<Rightarrow> c = slash)"

definition normalize :: "jstring \<Rightarrow> jstring" where
  "normalize path =
     (let isAbs = isAbsolute path;
          trailingSlash = (path \<noteq> [] \<and> last path = slash);
          path1 = join [slash] (normalizeArray (path_parts path) (\<not> isAbs));
          path2 = (if path1 = [] \<and> \<not> isAbs then dot1 else path1);
          path3 = (if path2 \<noteq> [] \<and> trailingSlash then path2 @ [slash] else path2)
      in (if isAbs then [slash] else []) @ path3)"

text \<open>
  The arguments of \<open>resolve\<close> and \<open>join\<close>: \<open>None\<close> is a value that is not a string. \<open>process.cwd()\<close>
  of the bundled \<open>process\<close> module always returns \<open>'/'\<close>.
\<close>

definition process_cwd :: jstring where
  "process_cwd = [slash]"

fun resolve_loop :: "jstring option list \<Rightarrow> jstring \<Rightarrow> bool \<Rightarrow> (jstring \<times> bool) result" where
  "resolve_loop [] resolvedPath resolvedAbsolute = Inr (resolvedPath, resolvedAbsolute)"
| "resolve_loop (arg # args) resolvedPath resolvedAbsolute =
     (if resolvedAbsolute then Inr (resolvedPath, resolvedAbsolute)
      else case arg of
        None \<Rightarrow> Inl TypeError
      | Some path \<Rightarrow>
          if path = [] then resolve_loop args resolvedPath resolvedAbsolute
          else resolve_loop args (path @ [slash] @ resolvedPath) (isAbsolute path))"

definition resolve :: "jstring option list \<Rightarrow> jstring result" where
  "resolve args =
     and_then (resolve_loop (rev args @ [Some process_cwd]) [] False)
       (\<lambda>(resolvedPath, resolvedAbsolute).
         let path = join [slash] (normalizeArray (path_parts resolvedPath) (\<not> resolvedAbsolute));
             res = (if resolvedAbsolute then [slash] else []) @ path
         in Inr (if res = [] then dot1 else res))"

definition path_join :: "jstring option list \<Rightarrow> jstring result" where
  "path_join paths =
     and_then (map_res (\<lambda>p. case p of None \<Rightarrow> Inl TypeError | Some s \<Rightarrow> Inr s) paths)
       (\<lambda>strs. Inr (normalize (join [slash] (filter (\<lambda>p. p \<noteq> []) strs))))"

text \<open>
  \<open>trim\<close> of \<open>relative\<close>: \<open>start\<close> is the first non-empty element, \<open>end\<close> the last one, and the second
  argument of \<open>arr.slice\<close> is \<open>end - start + 1\<close>, as written.
\<close>

definition trim :: "jstring list \<Rightarrow> jstring list" where
  "trim arr =
     (let start = length (takeWhile (\<lambda>p. p = []) arr);
          n = length (dropWhile (\<lambda>p. p = []) (rev arr)) \<comment> \<open>\<open>end + 1\<close>\<close>
      in if start \<ge> n then [] else slice arr start (n - start))"

fun same_parts_length :: "jstring list \<Rightarrow> jstring list \<Rightarrow> nat" where
  "same_parts_length (x # xs) (y # ys) = (if x \<noteq> y then 0 else Suc (same_parts_length xs ys))"
| "same_parts_length _ _ = 0"

definition relative :: "jstring \<Rightarrow> jstring \<Rightarrow> jstring result" where
  "relative from to =
     and_then (resolve [Some from]) (\<lambda>from'.
     and_then (resolve [Some to]) (\<lambda>to'.
       let fromParts = trim (split1 slash (drop 1 from'));
           toParts = trim (split1 slash (drop 1 to'));
           samePartsLength = same_parts_length fromParts toParts;
           outputParts = replicate (length fromParts - samePartsLength) dot2
             @ drop samePartsLength toParts
       in Inr (join [slash] outputParts)))"

section \<open>The backward pass is a walk with a stack\<close>

text \<open>What the loop keeps, and how many components to the left it still cancels.\<close>

fun cancel :: "jstring list \<Rightarrow> nat \<Rightarrow> jstring list \<times> nat" where
  "cancel [] up = ([], up)"
| "cancel (x # xs) up =
     (let (kept, u) = cancel xs up in
      if x = dot1 then (kept, u)
      else if x = dot2 then (kept, u + 1)
      else if u \<noteq> 0 then (kept, u - 1)
      else (x # kept, 0))"

lemma cancel_snoc:
  "cancel (xs @ [x]) up =
     (if x = dot1 then cancel xs up
      else if x = dot2 then cancel xs (up + 1)
      else if up \<noteq> 0 then cancel xs (up - 1)
      else (fst (cancel xs 0) @ [x], snd (cancel xs 0)))"
  by (induction xs) (auto split: prod.splits)

lemma normalize_loop_cancel:
  "normalize_loop (length xs) (xs @ ys) up = (fst (cancel xs up) @ ys, snd (cancel xs up))"
proof (induction xs arbitrary: ys up rule: rev_induct)
  case (snoc x xs)
  from snoc.IH [of ys] snoc.IH [of "x # ys" 0] show ?case
    by (simp add: cancel_snoc splice1_def nth_append Let_def)
qed simp

text \<open>
  The reference: walk the components from left to right, keeping the directories entered on a
  stack; \<open>..\<close> leaves the last one, and above the start it is kept or dropped.
\<close>

definition walk_step :: "bool \<Rightarrow> jstring list \<Rightarrow> jstring \<Rightarrow> jstring list" where
  "walk_step allow st x =
     (if x = dot1 then st
      else if x = dot2 then
        (case st of
           [] \<Rightarrow> if allow then [dot2] else []
         | s # st' \<Rightarrow> if s = dot2 then dot2 # st else st')
      else x # st)"

definition walk :: "bool \<Rightarrow> jstring list \<Rightarrow> jstring list" where
  "walk allow xs = rev (foldl (walk_step allow) [] xs)"

lemma walk_step_simps:
  "walk_step allow st dot1 = st"
  "x \<noteq> dot1 \<Longrightarrow> x \<noteq> dot2 \<Longrightarrow> walk_step allow st x = x # st"
  "s \<noteq> dot2 \<Longrightarrow> walk_step allow (s # st) dot2 = st"
  "walk_step False [] dot2 = []"
  "walk_step True (replicate k dot2) dot2 = replicate (Suc k) dot2"
  by (simp_all add: walk_step_def) (cases k, simp_all)

lemma foldl_walk_step:
  assumes "dot2 \<notin> set ns" "allow \<or> k = 0"
  shows "foldl (walk_step allow) (ns @ replicate k dot2) xs =
    rev (fst (cancel xs 0)) @ drop (snd (cancel xs 0)) ns @
    replicate (k + (if allow then snd (cancel xs 0) - length ns else 0)) dot2"
  using assms
proof (induction xs arbitrary: ns k)
  case (Cons x xs)
  obtain kept u where c: "cancel xs 0 = (kept, u)" by (cases "cancel xs 0")
  consider "x = dot1" | "x = dot2" "ns = []" | n ns' where "x = dot2" "ns = n # ns'"
    | "x \<noteq> dot1" "x \<noteq> dot2" by (cases ns) auto
  then show ?case
  proof cases
    case 1
    with Cons c show ?thesis by (simp add: walk_step_simps)
  next
    case 2
    show ?thesis
    proof (cases allow)
      case True
      with Cons.IH [of "[]" "Suc k"] 2 c show ?thesis
        by (simp add: walk_step_simps del: replicate_Suc)
    next
      case False
      with Cons.prems Cons.IH [of "[]" 0] 2 c show ?thesis by (simp add: walk_step_simps)
    qed
  next
    case 3
    then have "n \<noteq> dot2" using Cons.prems by auto
    with 3 Cons.prems Cons.IH [of ns' k] c show ?thesis by (simp add: walk_step_simps)
  next
    case 4
    with Cons.prems Cons.IH [of "x # ns" k] c show ?thesis
      by (cases u) (auto simp: walk_step_simps)
  qed
qed simp

lemma normalizeArray_walk: "normalizeArray xs allow = walk allow xs"
  using normalize_loop_cancel [of xs "[]" 0] foldl_walk_step [of "[]" allow 0 xs]
  by (auto simp: normalizeArray_def walk_def split: prod.splits)

section \<open>Normal components\<close>

definition plain :: "jstring \<Rightarrow> bool" where
  "plain x \<longleftrightarrow> x \<noteq> [] \<and> slash \<notin> set x \<and> x \<noteq> dot1 \<and> x \<noteq> dot2"

text \<open>A list of components in normal form: \<open>..\<close> only in front, and only if allowed.\<close>

definition normal :: "bool \<Rightarrow> jstring list \<Rightarrow> bool" where
  "normal allow xs \<longleftrightarrow>
     list_all plain (dropWhile (\<lambda>x. x = dot2) xs) \<and> (allow \<or> dot2 \<notin> set xs)"

definition component :: "jstring \<Rightarrow> bool" where
  "component x \<longleftrightarrow> x \<noteq> [] \<and> slash \<notin> set x"

lemma plain_component: "plain x \<longleftrightarrow> component x \<and> x \<noteq> dot1 \<and> x \<noteq> dot2"
  by (auto simp: plain_def component_def)

lemma path_parts_components: "x \<in> set (path_parts s) \<Longrightarrow> component x"
  by (auto simp: path_parts_def component_def dest: split1_parts)

lemma cancel_plain:
  "\<forall>x \<in> set xs. component x \<Longrightarrow> list_all plain (fst (cancel xs 0))"
  by (induction xs) (auto simp: plain_component split: prod.splits)

lemma normalizeArray_cancel:
  "normalizeArray xs allow =
     (if allow then replicate (snd (cancel xs 0)) dot2 else []) @ fst (cancel xs 0)"
  using normalize_loop_cancel [of xs "[]" 0] by (simp add: normalizeArray_def split: prod.splits)

lemma normalI: "list_all plain ys \<Longrightarrow> normal allow ((if allow then replicate k dot2 else []) @ ys)"
proof -
  assume ys: "list_all plain ys"
  then have "dropWhile (\<lambda>x. x = dot2) ys = ys" "dot2 \<notin> set ys"
    by (cases ys, auto simp: plain_def) (auto simp: plain_def list_all_iff)
  with ys show ?thesis by (auto simp: normal_def dropWhile_append)
qed

lemma normalizeArray_normal:
  assumes "\<forall>x \<in> set xs. component x"
  shows "normal allow (normalizeArray xs allow)"
  unfolding normalizeArray_cancel by (rule normalI [OF cancel_plain [OF assms]])

lemma component_dot2: "component dot2"
  by (simp add: component_def dot_def slash_def)

lemma normalizeArray_components:
  assumes "\<forall>x \<in> set xs. component x" "y \<in> set (normalizeArray xs allow)"
  shows "component y"
proof -
  from assms(2) have "y = dot2 \<or> y \<in> set (fst (cancel xs 0))"
    by (auto simp: normalizeArray_cancel split: if_splits)
  with cancel_plain [OF assms(1)] component_dot2 show ?thesis
    unfolding list_all_iff plain_component by blast
qed

lemma cancel_replicate_plain:
  "list_all plain ys \<Longrightarrow> cancel (replicate k dot2 @ ys) 0 = (ys, k)"
proof (induction k)
  case 0
  then show ?case by (induction ys) (auto simp: plain_def)
qed simp

lemma normal_split:
  assumes "normal allow xs"
  obtains k ys where "xs = (if allow then replicate k dot2 else []) @ ys" "list_all plain ys"
proof -
  let ?ys = "dropWhile (\<lambda>x. x = dot2) xs" and ?ds = "takeWhile (\<lambda>x. x = dot2) xs"
  have "?ds = replicate (length ?ds) dot2"
    by (rule replicate_eqI) (auto dest: set_takeWhileD)
  then obtain k where ds: "?ds = replicate k dot2" by blast
  have "allow \<or> ?ds = []"
    using assms by (cases xs) (auto simp: normal_def)
  then have "?ds = (if allow then replicate k dot2 else [])" using ds by auto
  then have "xs = (if allow then replicate k dot2 else []) @ ?ys"
    using takeWhile_dropWhile_id [of "\<lambda>x. x = dot2" xs] by presburger
  moreover have "list_all plain ?ys" using assms by (simp add: normal_def)
  ultimately show ?thesis by (rule that)
qed

lemma normalizeArray_id: "normal allow xs \<Longrightarrow> normalizeArray xs allow = xs"
proof -
  assume "normal allow xs"
  then obtain k ys where xs: "xs = (if allow then replicate k dot2 else []) @ ys" "list_all plain ys"
    by (rule normal_split)
  then have "cancel xs 0 = (ys, if allow then k else 0)"
    using cancel_replicate_plain [of ys k] cancel_replicate_plain [of ys 0] by simp
  with xs(1) show ?thesis by (auto simp: normalizeArray_cancel)
qed

section \<open>Components of a path string\<close>

lemma path_parts_append: "path_parts (s @ slash # t) = path_parts s @ path_parts t"
  by (simp add: path_parts_def split1_append)

lemma path_parts_Nil [simp]: "path_parts [] = []"
  by (simp add: path_parts_def)

lemma path_parts_abs [simp]: "path_parts (slash # s) = path_parts s"
  using path_parts_append [of "[]" s] by simp

lemma path_parts_trailing [simp]: "path_parts (s @ [slash]) = path_parts s"
  using path_parts_append [of s "[]"] by simp

lemma path_parts_join: "\<forall>x \<in> set xs. component x \<Longrightarrow> path_parts (join [slash] xs) = xs"
proof (cases "xs = []")
  case False
  assume "\<forall>x \<in> set xs. component x"
  with False show ?thesis
    by (simp add: path_parts_def split1_join component_def filter_id_conv)
qed simp

lemma join_components:
  assumes "\<forall>x \<in> set xs. component x"
  shows "join [slash] xs = [] \<longleftrightarrow> xs = []" "\<not> isAbsolute (join [slash] xs)"
    "xs \<noteq> [] \<Longrightarrow> last (join [slash] xs) \<noteq> slash"
  using assms
proof (induction "[slash]" xs rule: join.induct)
  case (2 x)
  { case 1 with 2 show ?case by (simp add: component_def)
  next case 2 then show ?case by (cases x) (auto simp: component_def isAbsolute_def)
  next case 3 then show ?case by (metis component_def join.simps(2) last_in_set list.set_intros(1)) }
next
  case (3 x y ys)
  { case 1 then show ?case by simp
  next case 2 then show ?case by (cases x) (auto simp: component_def isAbsolute_def)
  next case 3 with "3.hyps" show ?case by (auto split: if_splits) }
qed (simp_all add: isAbsolute_def)

section \<open>normalize\<close>

text \<open>\<open>normalize\<close> in terms of what it keeps: absolute or not, the components, the last slash.\<close>

definition render :: "bool \<Rightarrow> bool \<Rightarrow> jstring list \<Rightarrow> jstring" where
  "render isAbs trailing parts =
     (if isAbs then [slash] else []) @
     (let s = (if parts = [] \<and> \<not> isAbs then dot1 else join [slash] parts)
      in if s \<noteq> [] \<and> trailing then s @ [slash] else s)"

lemma normalize_render:
  "normalize path = render (isAbsolute path) (path \<noteq> [] \<and> last path = slash)
     (normalizeArray (path_parts path) (\<not> isAbsolute path))"
proof -
  let ?ps = "normalizeArray (path_parts path) (\<not> isAbsolute path)"
  have "join [slash] ?ps = [] \<longleftrightarrow> ?ps = []"
    by (rule join_components(1)) (auto intro: normalizeArray_components path_parts_components)
  then show ?thesis by (simp only: normalize_def render_def Let_def)
qed

lemma dot1_facts: "component dot1" "path_parts dot1 = [dot1]"
  "path_parts [dot, slash] = [dot1]" "\<not> isAbsolute dot1" "dot \<noteq> slash"
  by (simp_all add: component_def path_parts_def isAbsolute_def dot_def slash_def)

lemma isAbsolute_append: "isAbsolute (s @ t) = (if s = [] then isAbsolute t else isAbsolute s)"
  by (cases s) (simp_all add: isAbsolute_def)

lemma render_facts:
  assumes "normal (\<not> isAbs) parts" "\<forall>x \<in> set parts. component x"
  shows "isAbsolute (render isAbs trailing parts) = isAbs"
    and "normalizeArray (path_parts (render isAbs trailing parts)) (\<not> isAbs) = parts"
    and "parts \<noteq> [] \<or> \<not> isAbs \<Longrightarrow> last (render isAbs trailing parts) = slash \<longleftrightarrow> trailing"
    and "render isAbs trailing parts \<noteq> []"
proof -
  note jc = join_components [OF assms(2)]
  have n: "normalizeArray [dot1] allow = []" for allow
    by (simp add: normalizeArray_cancel)
  show "isAbsolute (render isAbs trailing parts) = isAbs"
    using jc dot1_facts
    by (auto simp: render_def Let_def isAbsolute_append) (simp_all add: isAbsolute_def)
  show "normalizeArray (path_parts (render isAbs trailing parts)) (\<not> isAbs) = parts"
    using normalizeArray_id [OF assms(1)] path_parts_join [OF assms(2)] dot1_facts n
    by (auto simp: render_def Let_def)
  show "render isAbs trailing parts \<noteq> []"
    using jc(1) by (auto simp: render_def Let_def)
  show "last (render isAbs trailing parts) = slash \<longleftrightarrow> trailing"
    if "parts \<noteq> [] \<or> \<not> isAbs"
    using that jc dot1_facts by (auto simp: render_def Let_def)
qed

text \<open>Normalizing twice is normalizing once.\<close>

lemma normalize_twice: "normalize (normalize path) = normalize path"
proof -
  define isAbs where "isAbs = isAbsolute path"
  define parts where "parts = normalizeArray (path_parts path) (\<not> isAbs)"
  define trailing where "trailing = (path \<noteq> [] \<and> last path = slash)"
  have comp: "\<forall>x \<in> set parts. component x"
    unfolding parts_def by (auto intro: normalizeArray_components path_parts_components)
  have norm: "normal (\<not> isAbs) parts"
    unfolding parts_def by (rule normalizeArray_normal) (auto intro: path_parts_components)
  have one: "normalize path = render isAbs trailing parts"
    by (simp add: normalize_render isAbs_def parts_def trailing_def)
  note facts = render_facts [OF norm comp, of trailing]
  have "normalize (normalize path) =
      render isAbs (last (render isAbs trailing parts) = slash) parts"
    using facts(1,2,4) by (simp add: one normalize_render [of "render isAbs trailing parts"])
  also have "\<dots> = render isAbs trailing parts"
  proof (cases "parts \<noteq> [] \<or> \<not> isAbs")
    case True
    then show ?thesis using facts(3) by simp
  next
    case False
    then show ?thesis by (simp add: render_def Let_def)
  qed
  finally show ?thesis using one by simp
qed

section \<open>resolve and relative\<close>

text \<open>The components \<open>resolve\<close> walks: those of the last absolute argument and what follows it.\<close>

definition resolve_parts :: "jstring list \<Rightarrow> jstring list" where
  "resolve_parts args =
     foldl (\<lambda>acc a. if isAbsolute a then path_parts a else acc @ path_parts a) [] args"

lemma resolve_loop_parts:
  "\<exists>s. resolve_loop (map Some (rev args) @ [Some process_cwd]) rp False = Inr (s, True) \<and>
     path_parts s = resolve_parts args @ path_parts rp"
proof (induction args arbitrary: rp rule: rev_induct)
  case Nil
  show ?case
    by (simp add: process_cwd_def isAbsolute_def resolve_parts_def)
next
  case (snoc a args)
  show ?case
  proof (cases "isAbsolute a")
    case True
    then show ?thesis
      by (cases "rev args") (auto simp: resolve_parts_def path_parts_append isAbsolute_def)
  next
    case False
    with snoc [of rp] snoc [of "a @ slash # rp"] show ?thesis
      by (auto simp: resolve_parts_def path_parts_append)
  qed
qed

lemma resolve_walk:
  "resolve (map Some args) = Inr (slash # join [slash] (walk False (resolve_parts args)))"
proof -
  from resolve_loop_parts [of args "[]"] obtain s where
    "resolve_loop (rev (map Some args) @ [Some process_cwd]) [] False = Inr (s, True)"
    "path_parts s = resolve_parts args" by (auto simp: rev_map)
  then show ?thesis by (simp add: resolve_def normalizeArray_walk)
qed

lemma resolve_parts_components: "x \<in> set (resolve_parts args) \<Longrightarrow> component x"
proof -
  have "set acc \<subseteq> Collect component \<Longrightarrow>
      set (foldl (\<lambda>acc a. if isAbsolute a then path_parts a else acc @ path_parts a) acc args)
        \<subseteq> Collect component" for acc
  proof (induction args arbitrary: acc)
    case (Cons a args)
    have "set (if isAbsolute a then path_parts a else acc @ path_parts a) \<subseteq> Collect component"
      using Cons.prems path_parts_components by auto
    from Cons.IH [OF this] show ?case by simp
  qed simp
  then show "x \<in> set (resolve_parts args) \<Longrightarrow> component x"
    by (force simp: resolve_parts_def)
qed

lemma walk_plain:
  assumes "\<forall>x \<in> set xs. component x"
  shows "list_all plain (walk False xs)"
  using normalizeArray_cancel [of xs False] cancel_plain [OF assms] by (simp add: normalizeArray_walk)

lemma trim_plain:
  assumes "list_all plain xs"
  shows "trim (split1 slash (join [slash] xs)) = xs"
proof (cases "xs = []")
  case True
  then show ?thesis by (simp add: trim_def)
next
  case False
  with assms have "split1 slash (join [slash] xs) = xs"
    by (intro split1_join) (auto simp: list_all_iff plain_def)
  moreover have "takeWhile (\<lambda>p. p = []) xs = []" "dropWhile (\<lambda>p. p = []) (rev xs) = rev xs"
    using assms False by (auto simp: list_all_iff plain_def takeWhile_eq_Nil_iff dropWhile_eq_self_iff hd_rev)
  ultimately show ?thesis using False by (simp add: trim_def slice_def)
qed

lemma relative_walk:
  "relative f t =
     (let F = walk False (path_parts f); T = walk False (path_parts t); s = same_parts_length F T
      in Inr (join [slash] (replicate (length F - s) dot2 @ drop s T)))"
proof -
  have w: "resolve [Some x] = Inr (slash # join [slash] (walk False (path_parts x)))" for x
    using resolve_walk [of "[x]"] by (simp add: resolve_parts_def)
  have "trim (split1 slash (join [slash] (walk False (path_parts x)))) = walk False (path_parts x)" for x
    by (intro trim_plain walk_plain) (auto intro: path_parts_components)
  with w show ?thesis by (simp add: relative_def Let_def)
qed

lemma same_parts_take:
  "take (same_parts_length xs ys) xs = take (same_parts_length xs ys) ys \<and>
   same_parts_length xs ys \<le> length xs"
  by (induction xs ys rule: same_parts_length.induct) auto

lemma walk_append:
  "walk allow (xs @ ys) = rev (foldl (walk_step allow) (rev (walk allow xs)) ys)"
  by (simp add: walk_def)

text \<open>Following \<open>relative(from, to)\<close> from \<open>from\<close> leads to \<open>to\<close>.\<close>

lemma resolve_relative:
  "\<exists>rel. relative f t = Inr rel \<and> resolve [Some f, Some rel] = resolve [Some t]"
proof -
  define F T where "F = walk False (path_parts f)" and "T = walk False (path_parts t)"
  define s where "s = same_parts_length F T"
  let ?out = "replicate (length F - s) dot2 @ drop s T"
  let ?rel = "join [slash] ?out"
  have plain: "list_all plain F" "list_all plain T"
    unfolding F_def T_def by (auto intro: walk_plain path_parts_components)
  have comp: "\<forall>x \<in> set ?out. component x"
    using plain(2) component_dot2 by (auto simp: list_all_iff plain_component dest: in_set_dropD)
  have "\<not> isAbsolute ?rel" by (rule join_components(2) [OF comp])
  then have parts: "resolve_parts [f, ?rel] = path_parts f @ ?out"
    using path_parts_join [OF comp] by (simp add: resolve_parts_def)
  have "list_all plain (drop s T)" using plain(2) by (auto simp: list_all_iff dest: in_set_dropD)
  then have c: "cancel ?out 0 = (drop s T, length F - s)" by (rule cancel_replicate_plain)
  have "dot2 \<notin> set (rev F)" using plain(1) by (auto simp: list_all_iff plain_def)
  from foldl_walk_step [OF this, of False 0 ?out] c
  have "walk False (path_parts f @ ?out) = rev (drop (length F - s) (rev F)) @ drop s T"
    by (simp add: walk_append F_def)
  also have "rev (drop (length F - s) (rev F)) = take s T"
    using same_parts_take [of F T] by (simp add: s_def rev_drop)
  finally have walk: "walk False (path_parts f @ ?out) = T" by simp
  have "resolve [Some f, Some ?rel] = Inr (slash # join [slash] T)"
    using resolve_walk [of "[f, ?rel]"] by (simp add: parts walk)
  moreover have "resolve [Some t] = Inr (slash # join [slash] T)"
    using resolve_walk [of "[t]"] by (simp add: resolve_parts_def T_def)
  moreover have "relative f t = Inr ?rel"
    by (simp add: relative_walk Let_def F_def T_def s_def)
  ultimately show ?thesis by auto
qed

section \<open>Properties of the path module\<close>

text \<open>
  C9: \<open>normalizeArray\<close>, which runs once from the back of the list with a counter of pending
  \<open>..\<close>, gives the stack of the directory walk from the front: a \<open>.\<close> stays, a \<open>..\<close> leaves the
  current directory (at the top it is kept when the path may go above the root and ignored
  otherwise), any other component enters a directory.
\<close>

theorem normalizeArray_is_walk:
  "normalizeArray parts allowAboveRoot = walk allowAboveRoot parts"
  by (rule normalizeArray_walk)

text \<open>
  \<open>normalize\<close> is idempotent for every path (relative, absolute, with or without a trailing
  slash, going above the root).
\<close>

theorem normalize_idempotent: "normalize (normalize path) = normalize path"
  by (rule normalize_twice)

text \<open>
  \<open>resolve\<close> on strings never throws and gives the absolute path of the walk from the root along
  the components of the last absolute argument (the working directory \<open>/\<close> when there is none) and
  of the arguments after it; no component of the result is empty, a dot or two dots.
\<close>

theorem resolve_absolute:
  "\<exists>parts. resolve (map Some args) = Inr (slash # join [slash] parts) \<and>
     parts = walk False (resolve_parts args) \<and> list_all plain parts"
  using resolve_walk [of args] walk_plain [of "resolve_parts args"] resolve_parts_components
  by blast

text \<open>
  C10: \<open>relative(from, to)\<close> returns for all paths, and resolving its result against \<open>from\<close> gives
  what \<open>to\<close> resolves to.
\<close>

theorem relative_roundtrip:
  "\<exists>rel. relative f t = Inr rel \<and> resolve [Some f, Some rel] = resolve [Some t]"
  by (rule resolve_relative)

end
