(* ===== verification/Wordcut_Init.thy ===== *)
theory Wordcut_Init
  imports Wordcut_Core Node_Path
begin

text \<open>
  Setting up the word cutter (\<open>wordcut.js\<close>, module 7 and the \<open>init\<close> functions of module 2), and the
  properties of the cutter as a whole.
\<close>

section \<open>Model\<close>

text \<open>\<open>s.split(/[\r\n]+/)\<close>: every maximal run of line breaks is one separator.\<close>

function split_runs :: "('a \<Rightarrow> bool) \<Rightarrow> 'a list \<Rightarrow> 'a list list" where
  "split_runs P [] = [[]]"
| "split_runs P (c # cs) =
     (if P c then [] # split_runs P (dropWhile P cs)
      else (case split_runs P cs of [] \<Rightarrow> [[c]] | p # ps \<Rightarrow> (c # p) # ps))"
  by pat_completeness auto
termination
  by (relation "measure (\<lambda>(P, s). length s)") (auto simp: le_imp_less_Suc length_dropWhile_le)

text \<open>The \<open>dictPathFile\<close> argument.\<close>

datatype dict_path = NoPath | OnePath jstring | Paths "jstring list"

definition dict_addWords :: "jstring list \<Rightarrow> jstring list \<Rightarrow> bool option \<Rightarrow> jstring list" where
  "dict_addWords dict words fin =
     (let d = dict @ words
      in if (case fin of None \<Rightarrow> True | Some f \<Rightarrow> f) then finalizeDict d else d)"

text \<open>
  \<open>addFiles\<close> reads no file: its loop runs once over the word list that is written into the
  source, here the parameter \<open>tdict\<close>. It never looks at \<open>files\<close>.
\<close>

definition dict_addFiles ::
  "jstring \<Rightarrow> jstring list \<Rightarrow> jstring list \<Rightarrow> bool option \<Rightarrow> jstring list" where
  "dict_addFiles tdict dict files fin =
     (let words = filter (\<lambda>w. length w > 1) (split_runs (\<lambda>c. c = 13 \<or> c = 10) tdict);
          d = dict_addWords dict words (Some False)
      in if (case fin of None \<Rightarrow> True | Some f \<Rightarrow> f) then finalizeDict d else d)"

definition default_dict :: jstring where
  "default_dict = normalize (js ''/dist/tmp'' @ js ''/..'') @ js ''/data/tdict-*.txt''"

text \<open>
  The list of files \<open>init\<close> puts together: for an array, \<open>dictPath.concat.apply\<close> builds a new array
  that is dropped, so \<open>dictPath\<close> is unchanged.
\<close>

definition dict_paths :: "dict_path \<Rightarrow> bool \<Rightarrow> jstring list" where
  "dict_paths file withDefault =
     (let dictPath = (if withDefault \<or> file = NoPath then [default_dict] else [])
      in case file of
           NoPath \<Rightarrow> dictPath
         | Paths ps \<Rightarrow> dictPath
         | OnePath p \<Rightarrow> dictPath @ [if p = [] then default_dict else p])"

definition dict_init ::
  "jstring \<Rightarrow> dict_path \<Rightarrow> bool \<Rightarrow> jstring list option \<Rightarrow> jstring list" where
  "dict_init tdict file withDefault words =
     (let d = dict_addFiles tdict [] (dict_paths file withDefault) (Some False);
          d' = (case words of None \<Rightarrow> d | Some ws \<Rightarrow> dict_addWords d ws (Some False))
      in finalizeDict d')"

definition latin_rules :: "creator list" where
  "latin_rules = [WordRule, SpaceRule, SingleSymbolRule, NumberRule]"

definition thai_rules :: "creator list" where
  "thai_rules = [Rule0, PartRule]"

definition initNoDict :: acceptors where
  "initNoDict =
     (let e = acceptors_init;
          e1 = e\<lparr>creators := creators e @ latin_rules\<rparr>
      in e1\<lparr>creators := creators e1 @ thai_rules\<rparr>)"

definition wordcut_init ::
  "jstring \<Rightarrow> dict_path \<Rightarrow> bool \<Rightarrow> jstring list option \<Rightarrow> acceptors" where
  "wordcut_init tdict file withDefault additionalWords =
     (let e = initNoDict;
          dict = dict_init tdict file withDefault additionalWords
      in e\<lparr>creators := creators e @ [WordcutDict dict]\<rparr>)"

section \<open>The dictionary after init\<close>

definition embedded_words :: "jstring \<Rightarrow> jstring list" where
  "embedded_words tdict = filter (\<lambda>w. length w > 1) (split_runs (\<lambda>c. c = 13 \<or> c = 10) tdict)"

lemma dict_init_eq:
  "dict_init tdict file withDefault words =
     sortuniq (embedded_words tdict @ (case words of None \<Rightarrow> [] | Some ws \<Rightarrow> ws))"
  by (simp add: dict_init_def dict_addFiles_def dict_addWords_def finalizeDict_def embedded_words_def
      split: option.splits)

lemma wordcut_init_creators:
  "creators (wordcut_init tdict file withDefault words) =
     latin_rules @ thai_rules @ [WordcutDict (dict_init tdict file withDefault words)]"
  by (simp add: wordcut_init_def initNoDict_def acceptors_init_def)

lemma wordcut_init_wf:
  "\<forall>c \<in> set (creators (wordcut_init tdict file withDefault words)). wf_creator c"
  by (simp add: wordcut_init_creators latin_rules_def thai_rules_def dict_init_eq
      strictly_sorted_sortuniq)

section \<open>Properties\<close>

text \<open>
  C1: For every text, every embedded dictionary and every additional word list,
  \<open>cutIntoArray\<close> returns (it neither throws nor loops), its pieces are non-empty, and joined
  together they are the text: the cutter loses, repeats and reorders nothing.
\<close>

theorem cut_lossless:
  "\<exists>ws. cutIntoArray (wordcut_init tdict file withDefault words) text = Some (Inr ws) \<and>
     concat ws = text \<and> list_all (\<lambda>w. w \<noteq> []) ws"
proof -
  let ?e = "wordcut_init tdict file withDefault words"
  obtain rs where rs: "path_ranges ?e text = Some (Inr rs)" "tiles 0 (int (length text)) rs"
    by (rule path_ranges_ok [OF wordcut_init_wf])
  from tiles_text [OF rs(2)] rs(1) show ?thesis
    by (simp add: cutIntoArray_def)
qed

text \<open>
  C2: For a delimiter that does not occur in the text, splitting the result of \<open>cut\<close> at the
  delimiter gives back exactly the pieces of \<open>cutIntoArray\<close>, also for the default delimiter.
\<close>

theorem cut_split_roundtrip:
  assumes "d \<notin> set text" "text \<noteq> []"
  shows "\<exists>s. cut (wordcut_init tdict file withDefault words) text (Some [d]) = Some (Inr s) \<and>
     cutIntoArray (wordcut_init tdict file withDefault words) text = Some (Inr (split1 d s))"
proof -
  let ?e = "wordcut_init tdict file withDefault words"
  obtain rs where rs: "path_ranges ?e text = Some (Inr rs)" "tiles 0 (int (length text)) rs"
    by (rule path_ranges_ok [OF wordcut_init_wf])
  let ?ws = "map (range_text text) rs"
  have cat: "concat ?ws = text" using tiles_text [OF rs(2)] by simp
  with assms(2) have "?ws \<noteq> []" by auto
  moreover from cat assms(1) have "\<And>w. w \<in> set ?ws \<Longrightarrow> d \<notin> set w" by (metis UN_I set_concat)
  ultimately have "split1 d (join [d] ?ws) = ?ws" by (rule split1_join)
  with rs(1) show ?thesis
    by (simp add: cut_def cutIntoArray_def rangesToText_def)
qed

theorem cut_split_roundtrip_witness:
  "124 \<notin> set (js ''ab'') \<and> js ''ab'' \<noteq> [] \<and>
   (\<exists>s. cut (wordcut_init [] NoPath False None) (js ''ab'') (Some [124]) = Some (Inr s) \<and>
     cutIntoArray (wordcut_init [] NoPath False None) (js ''ab'') = Some (Inr (split1 124 s)))"
proof -
  have h: "124 \<notin> set (js ''ab'')" "js ''ab'' \<noteq> []" by (simp_all add: js_def)
  show ?thesis using h cut_split_roundtrip [OF h] by blast
qed

text \<open>
  C4: The ranges of \<open>cutIntoRanges\<close> start at \<open>0\<close>, follow each other without gap or overlap, end
  at the length of the text, and carry the text they span.
\<close>

theorem cutIntoRanges_tiles:
  "\<exists>rs. cutIntoRanges (wordcut_init tdict file withDefault words) text False =
       Some (Inr (map (\<lambda>r. (r, Some (substring text (rg_s r) (rg_e r)))) rs)) \<and>
     tiles 0 (int (length text)) rs"
proof -
  let ?e = "wordcut_init tdict file withDefault words"
  obtain rs where rs: "path_ranges ?e text = Some (Inr rs)" "tiles 0 (int (length text)) rs"
    by (rule path_ranges_ok [OF wordcut_init_wf])
  then show ?thesis by (auto simp: cutIntoRanges_def range_text_def)
qed

text \<open>
  C3: The table of \<open>buildPath\<close> is sound and step-wise optimal over the words on offer: the
  dictionary words, Thai patterns and symbols that end at a position, from any start, and the
  stretch of letters, digits or spaces that ends there, from the start of its run (shorter ends of
  a run are not on offer, since one acceptor reads the whole run). Every entry either is an
  unknown piece or is the word on offer that starts where the entry points to. Wherever a word is
  on offer the entry is not unknown, and it costs at most as much as taking that word after the
  table's entry at the start of the word.
\<close>

theorem buildPath_sound_and_best:
  "\<exists>path e'. buildPath (wordcut_init tdict file withDefault words) text = Inr (path, e') \<and>
     path_inv (set (creators (wordcut_init tdict file withDefault words))) text (length text) path"
  using buildPath_ok [OF wordcut_init_wf] by metis

text \<open>
  C8: After \<open>init\<close> the dictionary is strictly sorted (so free of duplicates) and holds exactly the
  embedded words of more than one code unit and the additional words.
\<close>

theorem dict_init_sorted_words:
  "strictly_sorted (dict_init tdict file withDefault words) \<and>
   set (dict_init tdict file withDefault words) =
     {w \<in> set (split_runs (\<lambda>c. c = 13 \<or> c = 10) tdict). length w > 1} \<union>
     (case words of None \<Rightarrow> {} | Some ws \<Rightarrow> set ws)"
  by (auto simp: dict_init_eq embedded_words_def strictly_sorted_sortuniq split: option.splits)

text \<open>
  The dictionary does not depend on the \<open>dictPathFile\<close> and \<open>withDefault\<close> arguments: whatever
  files the caller names, the embedded word list is used.
\<close>

theorem dict_init_ignores_files:
  "dict_init tdict file withDefault words = dict_init tdict file' withDefault' words"
  by (simp add: dict_init_eq)

text \<open>
  C6: The acceptor of every rule accepts exactly the words of the rule: run over a non-empty
  text it never throws, and it survives and is final if and only if the text is a word.
\<close>

theorem acceptor_accepts:
  assumes "wf_creator c" "s \<noteq> []"
  shows "(\<exists>a. run_acc acc_transit isError (new_acceptor c) s = Inr (Some a) \<and> isFinal a) \<longleftrightarrow>
     rule_lang c s"
  by (rule rules.run_accepts [OF assms])

theorem acceptor_accepts_witness:
  "wf_creator (WordcutDict [[1, 2], [1, 3]]) \<and> [1, 3] \<noteq> ([] :: jstring) \<and>
   (\<exists>a. run_acc acc_transit isError (new_acceptor (WordcutDict [[1, 2], [1, 3]])) [1, 3] = Inr (Some a)
     \<and> isFinal a)"
proof -
  have h: "wf_creator (WordcutDict [[1, 2], [1, 3]])" "[1, 3] \<noteq> ([] :: jstring)" by simp_all
  show ?thesis using h acceptor_accepts [OF h] by simp
qed

text \<open>
  C7: The engine after any text \<open>t\<close>: it holds the acceptors that read a suffix of \<open>t\<close> which can
  still become a word, one for every start position of a symbol, Thai rule or dictionary word;
  for letters, digits and spaces it holds only the acceptor of the whole run that ends \<open>t\<close>.
\<close>

theorem engine_step_invariant:
  assumes "engine_inv t e"
  shows "\<exists>e'. acceptors_transit e ch = Inr e' \<and> engine_inv (t @ [ch]) e' \<and> creators e' = creators e"
  using engine_inv_step [OF assms] by metis

theorem engine_step_invariant_witness:
  "engine_inv [] (acceptors_reset (wordcut_init [] NoPath False None)) \<and>
   (\<exists>e'. acceptors_transit (acceptors_reset (wordcut_init [] NoPath False None)) 97 = Inr e' \<and>
      engine_inv [97] e' \<and>
      creators e' = creators (acceptors_reset (wordcut_init [] NoPath False None)))"
proof -
  have h: "engine_inv [] (acceptors_reset (wordcut_init [] NoPath False None))"
    by (rule engine_inv_reset [OF wordcut_init_wf])
  show ?thesis using h engine_step_invariant [OF h, of 97] by simp
qed

end
