(* ===== verification/Node_Names.thy ===== *)
theory Node_Names
  imports Node_Path
begin

text \<open>
  The parts of a path name in the bundled \<open>path\<close> module (\<open>dirname\<close>, \<open>basename\<close>, \<open>extname\<close>) and
  the \<open>path-is-absolute\<close> module of \<open>wordcut.js\<close>.
\<close>

section \<open>splitPath\<close>

text \<open>
  \<open>splitPathRe\<close>: a leading slash is the root; trailing slashes are skipped; the base is what follows
  the last slash of the rest, since the directory is matched lazily and the base holds no slash.
  Within the base, the part before the extension is tried in the order of the pattern: two dots,
  one dot, then the shortest non-empty piece that leaves nothing or one dot and no further dots.
\<close>

definition ext_ok :: "jstring \<Rightarrow> bool" where
  "ext_ok r \<longleftrightarrow> (case r of [] \<Rightarrow> True | c # cs \<Rightarrow> c = dot \<and> dot \<notin> set cs)"

fun ext_from :: "jstring \<Rightarrow> jstring" where
  "ext_from [] = []"
| "ext_from (c # cs) = (if ext_ok cs then cs else ext_from cs)"

definition base_ext :: "jstring \<Rightarrow> jstring" where
  "base_ext b = (if prefix dot2 b \<and> ext_ok (drop 2 b) then drop 2 b else ext_from b)"

record path_names =
  pn_root :: jstring
  pn_dir :: jstring
  pn_base :: jstring
  pn_ext :: jstring

definition splitPath :: "jstring \<Rightarrow> path_names" where
  "splitPath filename =
     (let root = (if isAbsolute filename then [slash] else []);
          rest = drop (length root) filename;
          t = rev (dropWhile (\<lambda>c. c = slash) (rev rest));
          base = rev (takeWhile (\<lambda>c. c \<noteq> slash) (rev t));
          dir = take (length t - length base) t
      in \<lparr>pn_root = root, pn_dir = dir, pn_base = base, pn_ext = base_ext base\<rparr>)"

definition dirname :: "jstring \<Rightarrow> jstring" where
  "dirname path =
     (let r = splitPath path in
      if pn_root r = [] \<and> pn_dir r = [] then dot1
      else pn_root r @ (if pn_dir r \<noteq> [] then butlast (pn_dir r) else pn_dir r))"

definition basename :: "jstring \<Rightarrow> jstring option \<Rightarrow> jstring" where
  "basename path ext =
     (let f = pn_base (splitPath path) in
      case ext of
        None \<Rightarrow> f
      | Some e \<Rightarrow> if e \<noteq> [] \<and> suffix e f then take (length f - length e) f else f)"

definition extname :: "jstring \<Rightarrow> jstring" where
  "extname path = pn_ext (splitPath path)"

section \<open>path-is-absolute\<close>

definition posix :: "jstring \<Rightarrow> bool" where
  "posix path \<longleftrightarrow> path \<noteq> [] \<and> hd path = slash"

definition is_win_sep :: "unit16 \<Rightarrow> bool" where
  "is_win_sep c \<longleftrightarrow> c = 92 \<or> c = slash"

text \<open>The device of a UNC path: two separators, a name, separators, a name.\<close>

definition unc_device :: "jstring \<Rightarrow> bool" where
  "unc_device path \<longleftrightarrow>
     2 \<le> length path \<and> list_all is_win_sep (take 2 path) \<and>
     (let host = drop 2 path; rest = dropWhile (\<lambda>c. \<not> is_win_sep c) host;
          share = dropWhile is_win_sep rest
      in host \<noteq> [] \<and> \<not> is_win_sep (hd host) \<and> rest \<noteq> [] \<and> share \<noteq> [])"

definition drive_device :: "jstring \<Rightarrow> bool" where
  "drive_device path \<longleftrightarrow>
     2 \<le> length path \<and> (97 \<le> path ! 0 \<and> path ! 0 \<le> 122 \<or> 65 \<le> path ! 0 \<and> path ! 0 \<le> 90) \<and> path ! 1 = 58"

definition win32 :: "jstring \<Rightarrow> bool" where
  "win32 path \<longleftrightarrow>
     (let isUnc = (\<not> drive_device path \<and> unc_device path);
          rest = (if drive_device path then drop 2 path else path)
      in isUnc \<or> rest \<noteq> [] \<and> is_win_sep (hd rest))"

section \<open>Taking a path name apart\<close>

lemma rev_takeWhile_split:
  "take (length t - length (takeWhile P (rev t))) t @ rev (takeWhile P (rev t)) = t"
proof -
  have "rev (takeWhile P (rev t)) = drop (length t - length (takeWhile P (rev t))) t"
    using arg_cong [OF takeWhile_eq_take [of P "rev t"], of rev] by (simp add: rev_take)
  then show ?thesis by simp
qed

lemma splitPath_parts:
  "\<exists>n. path = pn_root (splitPath path) @ pn_dir (splitPath path) @ pn_base (splitPath path) @ replicate n slash"
proof -
  define root where "root = (if isAbsolute path then [slash] else [])"
  define rest where "rest = drop (length root) path"
  have path: "path = root @ rest"
    by (cases path) (auto simp: root_def rest_def isAbsolute_def)
  let ?t = "rev (dropWhile (\<lambda>c. c = slash) (rev rest))"
  have "takeWhile (\<lambda>c. c = slash) (rev rest) = replicate (length (takeWhile (\<lambda>c. c = slash) (rev rest))) slash"
    by (rule replicate_length_same [symmetric]) (auto dest: set_takeWhileD)
  then have "rest = ?t @ replicate (length (takeWhile (\<lambda>c. c = slash) (rev rest))) slash"
    by (metis rev_append rev_replicate rev_rev_ident takeWhile_dropWhile_id)
  moreover have sp: "splitPath path = \<lparr>pn_root = root,
      pn_dir = take (length ?t - length (takeWhile (\<lambda>c. c \<noteq> slash) (rev ?t))) ?t,
      pn_base = rev (takeWhile (\<lambda>c. c \<noteq> slash) (rev ?t)),
      pn_ext = base_ext (rev (takeWhile (\<lambda>c. c \<noteq> slash) (rev ?t)))\<rparr>"
    unfolding splitPath_def Let_def root_def rest_def by simp
  ultimately have "path = pn_root (splitPath path) @ (pn_dir (splitPath path) @ pn_base (splitPath path)) @
      replicate (length (takeWhile (\<lambda>c. c = slash) (rev rest))) slash"
    unfolding sp path_names.simps rev_takeWhile_split using path by simp
  then show ?thesis by (intro exI) simp
qed

lemma base_no_slash: "slash \<notin> set (pn_base (splitPath path))"
  by (auto simp: splitPath_def Let_def dest: set_takeWhileD)

lemma ext_from_suffix: "suffix (ext_from b) b"
  by (induction b) (auto intro: suffix_ConsI)

lemma ext_from_ok: "ext_ok (ext_from b)"
  by (induction b) (simp_all add: ext_ok_def)

lemma extname_suffix: "suffix (extname path) (pn_base (splitPath path)) \<and> ext_ok (extname path)"
proof -
  have "suffix (base_ext b) b \<and> ext_ok (base_ext b)" for b
    using ext_from_suffix ext_from_ok by (simp add: base_ext_def suffix_drop)
  then show ?thesis by (simp add: extname_def splitPath_def Let_def)
qed

text \<open>
  A path is its root and directory, the base name and some trailing slashes; the base name
  holds no slash, and the extension is empty or its last dot and what follows.
\<close>

theorem path_name_parts:
  "(\<exists>n. path = pn_root (splitPath path) @ pn_dir (splitPath path) @ basename path None @ replicate n slash) \<and>
    slash \<notin> set (basename path None) \<and> suffix (extname path) (basename path None) \<and> ext_ok (extname path)"
  using splitPath_parts [of path] base_no_slash [of path] extname_suffix [of path]
  by (simp add: basename_def Let_def)

text \<open>Removing the extension from the base name and putting it back.\<close>

lemma basename_extname: "basename path (Some (extname path)) @ extname path = basename path None"
  using extname_suffix [of path] by (auto simp: basename_def Let_def suffix_def)

end
