(* ===== verification/Js_Text.thy ===== *)
theory Js_Text
  imports Js_Prelude Decimal
begin

text \<open>
  More string operations of the language: searching for a substring, splitting at and replacing
  every occurrence of a separator, and integers as strings (\<open>String(i)\<close>, \<open>parseInt(s, 10)\<close>).
\<close>

section \<open>Searching\<close>

text \<open>\<open>s.indexOf(p, from)\<close>: the first position from \<open>from\<close> on where \<open>p\<close> stands, or \<open>-1\<close>.\<close>

fun first_at :: "'a list \<Rightarrow> 'a list \<Rightarrow> int" where
  "first_at p s =
     (if prefix p s then 0
      else case s of [] \<Rightarrow> -1 | c # cs \<Rightarrow> (let k = first_at p cs in if k < 0 then -1 else k + 1))"

declare first_at.simps [simp del]

definition indexOf :: "'a list \<Rightarrow> 'a list \<Rightarrow> int \<Rightarrow> int" where
  "indexOf s p from =
     (let b = clamp_index s from; k = first_at p (drop b s) in if k < 0 then -1 else int b + k)"

lemma first_at_single:
  "first_at [c] s = (if c \<in> set s then int (length (takeWhile (\<lambda>x. x \<noteq> c) s)) else -1)"
  by (induction s) (auto simp: first_at.simps Let_def)

section \<open>Splitting and replacing\<close>

function split_on :: "'a list \<Rightarrow> 'a list \<Rightarrow> 'a list list" where
  "split_on p s =
     (if p \<noteq> [] \<and> prefix p s then [] # split_on p (drop (length p) s)
      else case s of
        [] \<Rightarrow> [[]]
      | c # cs \<Rightarrow> (case split_on p cs of [] \<Rightarrow> [[c]] | q # qs \<Rightarrow> (c # q) # qs))"
  by auto

termination
  by (relation "measure (\<lambda>(p, s). length s)") (auto simp: prefix_def)

declare split_on.simps [simp del]

text \<open>\<open>s.split(p).join(r)\<close>.\<close>

definition replace_all :: "'a list \<Rightarrow> 'a list \<Rightarrow> 'a list \<Rightarrow> 'a list" where
  "replace_all p r s = join r (split_on p s)"

lemma split_on_not_Nil [simp]: "split_on p s \<noteq> []"
  by (subst split_on.simps) (simp split: list.splits)

lemma join_split_on: "join p (split_on p s) = s"
proof (induction p s rule: split_on.induct)
  case (1 p s)
  show ?case
  proof (cases "p \<noteq> [] \<and> prefix p s")
    case True
    then obtain t where "s = p @ t" by (auto simp: prefix_def)
    moreover have "split_on p s = [] # split_on p (drop (length p) s)"
      using True by (subst split_on.simps) simp
    ultimately show ?thesis using 1(1) [OF True] by (simp add: join_Cons)
  next
    case False
    show ?thesis
    proof (cases s)
      case Nil
      with False show ?thesis by (subst split_on.simps) simp
    next
      case (Cons c cs)
      have "split_on p s = (case split_on p cs of [] \<Rightarrow> [[c]] | q # qs \<Rightarrow> (c # q) # qs)"
        using False Cons by (subst split_on.simps) auto
      with 1(2) [OF False Cons] Cons show ?thesis by (auto simp: join_Cons split: list.splits)
    qed
  qed
qed

lemma split_on_plain: "\<forall>t. \<not> suffix (p @ t) s \<Longrightarrow> split_on p s = [s]"
proof (induction s)
  case Nil
  then show ?case by (auto simp: split_on.simps [of p "[]"] prefix_def suffix_def)
next
  case (Cons c cs)
  have "\<not> prefix p (c # cs)"
  proof
    assume "prefix p (c # cs)"
    then obtain t where "c # cs = p @ t" by (auto simp: prefix_def)
    then have "suffix (p @ t) (c # cs)" by simp
    with Cons.prems show False by blast
  qed
  moreover have "\<forall>t. \<not> suffix (p @ t) cs"
    using Cons.prems by (simp add: suffix_Cons)
  then have "split_on p cs = [cs]" by (rule Cons.IH)
  ultimately show ?case by (subst split_on.simps) (simp only: simp_thms if_False list.case)
qed

lemma replace_all_id: "replace_all p p s = s"
  by (simp add: replace_all_def join_split_on)

text \<open>A string without the first letter of the separator is not split.\<close>

lemma split_on_absent:
  assumes "p \<noteq> []" "hd p \<notin> set s"
  shows "split_on p s = [s]"
proof (rule split_on_plain, rule allI, rule notI)
  fix t
  assume "suffix (p @ t) s"
  then have "set p \<subseteq> set s" by (auto simp: suffix_def)
  with assms show False by (cases p) auto
qed

section \<open>Integers as strings\<close>

definition digit_unit :: "nat \<Rightarrow> unit16" where
  "digit_unit d = of_nat (48 + d)"

definition is_digit :: "unit16 \<Rightarrow> bool" where
  "is_digit c \<longleftrightarrow> 48 \<le> c \<and> c \<le> 57"

abbreviation minus_unit :: unit16 where
  "minus_unit \<equiv> 45"

definition string_of_int :: "int \<Rightarrow> jstring" where
  "string_of_int i = (if i < 0 then [minus_unit] else []) @ map digit_unit (digits (nat \<bar>i\<bar>))"

text \<open>A string of the form \<open>-?[0-9]+\<close> and its value.\<close>

definition is_int :: "jstring \<Rightarrow> bool" where
  "is_int s = (case s of
     [] \<Rightarrow> False
   | c # cs \<Rightarrow> if c = minus_unit then cs \<noteq> [] \<and> list_all is_digit cs else list_all is_digit s)"

definition int_of_string :: "jstring \<Rightarrow> int" where
  "int_of_string s = (case s of
     [] \<Rightarrow> 0
   | c # cs \<Rightarrow> if c = minus_unit then - int (undigits (map (\<lambda>c. unat (c - 48)) cs))
       else int (undigits (map (\<lambda>c. unat (c - 48)) s)))"

lemma digit_unit_digit:
  assumes "d < 10"
  shows "is_digit (digit_unit d) \<and> unat (digit_unit d - 48) = d \<and> digit_unit d \<noteq> minus_unit"
proof -
  have "d \<in> set [0..<10]" using assms by simp
  moreover have "list_all (\<lambda>d. is_digit (digit_unit d) \<and> unat (digit_unit d - 48) = d \<and>
      digit_unit d \<noteq> minus_unit) [0..<10]" by code_simp
  ultimately show ?thesis unfolding list_all_iff by (rule bspec [rotated])
qed

lemma int_of_string_of_int:
  "is_int (string_of_int i) \<and> int_of_string (string_of_int i) = i"
proof -
  let ?ds = "digits (nat \<bar>i\<bar>)"
  have less: "d \<in> set ?ds \<Longrightarrow> d < 10" for d by (rule digits_less)
  have inv: "map (\<lambda>c. unat (c - 48)) (map digit_unit ?ds) = ?ds"
    using less digit_unit_digit by (simp add: map_idI)
  have all: "list_all is_digit (map digit_unit ?ds)"
    using less digit_unit_digit by (simp add: list_all_iff)
  obtain d ds where ds: "?ds = d # ds" by (cases ?ds) simp_all
  have first: "digit_unit d \<noteq> minus_unit" using digit_unit_digit less ds by simp
  show ?thesis
  proof (cases "i < 0")
    case True
    have "int_of_string (minus_unit # map digit_unit ?ds) = - int (undigits ?ds)"
      using inv by (simp add: int_of_string_def)
    also have "\<dots> = i" using True by simp
    finally show ?thesis using True all ds by (simp add: string_of_int_def is_int_def)
  next
    case False
    have "int_of_string (map digit_unit ?ds) = int (undigits ?ds)"
      using inv first by (simp add: int_of_string_def ds)
    also have "\<dots> = i" using False by simp
    finally show ?thesis using False all ds first by (simp add: string_of_int_def is_int_def)
  qed
qed

lemma split_on_here:
  "p \<noteq> [] \<Longrightarrow> hd p \<notin> set a \<Longrightarrow> split_on p (a @ p @ s) = a # split_on p s"
proof (induction a)
  case Nil
  then show ?case by (subst split_on.simps) simp
next
  case (Cons c a)
  then have "split_on p (a @ p @ s) = a # split_on p s" by simp
  moreover have "\<not> prefix p (c # a @ p @ s)" using Cons.prems by (cases p) auto
  ultimately show ?case using Cons.prems by (subst split_on.simps) (simp del: prefix_Cons)
qed

lemma split_on_join:
  assumes "xs \<noteq> []" "\<And>x. x \<in> set xs \<Longrightarrow> d \<notin> set x"
  shows "split_on [d] (join [d] xs) = xs"
  using assms
proof (induction "[d]" xs rule: join.induct)
  case (2 x)
  then show ?case by (simp add: split_on_absent)
next
  case (3 x y ys)
  then show ?case using split_on_here [of "[d]" x "join [d] (y # ys)"] by simp
qed simp

lemma replace_all_absent: "p \<noteq> [] \<Longrightarrow> hd p \<notin> set s \<Longrightarrow> replace_all p r s = s"
  by (simp add: replace_all_def split_on_absent)

lemma string_of_int_units: "c \<in> set (string_of_int i) \<Longrightarrow> c = minus_unit \<or> is_digit c"
  using digit_unit_digit digits_less by (auto simp: string_of_int_def)

end
