(* ===== verification/Glob_Match.thy ===== *)
theory Glob_Match
  imports Js_Text
begin

text \<open>
  Matching in the bundled \<open>minimatch\<close> module of \<open>wordcut.js\<close>: \<open>matchOne\<close> compares the parts of
  a path with the parts of a compiled pattern, where \<open>**\<close> swallows any number of parts.

  A compiled part is a string, a regular expression or \<open>GLOBSTAR\<close>. The regular expressions are
  sources for the engine of the language; the engine and the Unicode lower-case mapping are the
  parameter \<open>js_engine\<close>.
\<close>

section \<open>Compiled patterns\<close>

type_synonym options = "string \<Rightarrow> bool option"

text \<open>\<open>if (options.k)\<close>: an absent key is \<open>undefined\<close>, hence false.\<close>

definition on :: "options \<Rightarrow> string \<Rightarrow> bool" where
  "on options k \<longleftrightarrow> options k = Some True"

record js_engine =
  re_valid :: "jstring \<Rightarrow> bool"
  re_test :: "jstring \<Rightarrow> bool \<Rightarrow> jstring \<Rightarrow> bool"
  lower :: "jstring \<Rightarrow> jstring"

text \<open>A regular expression with the properties \<open>_glob\<close> and \<open>_src\<close> that \<open>parse\<close> adds to it.\<close>

record glob_regexp =
  re_source :: jstring
  re_ignore_case :: bool
  re_glob :: "jstring option"
  re_src :: "jstring option"

text \<open>The values of \<open>parse\<close>; \<open>SubParse\<close> is the pair returned for a piece of a pattern.\<close>

datatype part =
  Globstar | Literal jstring | Magic glob_regexp | NoPart | SubParse jstring bool

section \<open>matchOne\<close>

abbreviation "dot_u \<equiv> (46 :: unit16)"

text \<open>\<open>**\<close> never swallows \<open>.\<close> and \<open>..\<close>, and swallows \<open>.foo\<close> only when asked to.\<close>

definition dotted :: "options \<Rightarrow> jstring \<Rightarrow> bool" where
  "dotted options f \<longleftrightarrow>
     f = [dot_u] \<or> f = [dot_u, dot_u] \<or> (\<not> on options ''dot'' \<and> f \<noteq> [] \<and> hd f = dot_u)"

definition part_hit :: "js_engine \<Rightarrow> options \<Rightarrow> part \<Rightarrow> jstring \<Rightarrow> bool" where
  "part_hit eng options p f =
     (case p of
        Literal s \<Rightarrow> if on options ''nocase'' then lower eng f = lower eng s else f = s
      | Magic r \<Rightarrow> re_test eng (re_source r) (re_ignore_case r) f
      | _ \<Rightarrow> False)"

text \<open>
  The indices \<open>fi\<close> and \<open>pi\<close> only advance: the loop runs over the rest of the file and the rest
  of the pattern. \<open>globstar_loop\<close> is the loop that lets \<open>**\<close> swallow parts.
\<close>

function
  matchOne :: "js_engine \<Rightarrow> options \<Rightarrow> bool \<Rightarrow> jstring list \<Rightarrow> part list \<Rightarrow> bool" and
  globstar_loop :: "js_engine \<Rightarrow> options \<Rightarrow> bool \<Rightarrow> jstring list \<Rightarrow> part list \<Rightarrow> bool" where
  "matchOne eng options partial [] [] = True"
| "matchOne eng options partial [] (p # ps) = partial"
| "matchOne eng options partial (f # fs) [] = (fs = [] \<and> f = [])"
| "matchOne eng options partial (f # fs) (p # ps) =
     (if p = NoPart then False
      else if p = Globstar then
        (if ps = [] then list_all (\<lambda>f. \<not> dotted options f) (f # fs)
         else globstar_loop eng options partial (f # fs) ps)
      else part_hit eng options p f \<and> matchOne eng options partial fs ps)"
| "globstar_loop eng options partial [] ps = partial"
| "globstar_loop eng options partial (f # fs) ps =
     (if matchOne eng options partial (f # fs) ps then True
      else if dotted options f then False
      else globstar_loop eng options partial fs ps)"
  by pat_completeness auto

termination
  by (relation "measures [\<lambda>x. case x of Inl (_, _, _, fs, ps) \<Rightarrow> length ps | Inr (_, _, _, fs, ps) \<Rightarrow> length ps,
      \<lambda>x. case x of Inl (_, _, _, fs, ps) \<Rightarrow> 2 * length fs | Inr (_, _, _, fs, ps) \<Rightarrow> 2 * length fs + 1]") auto

section \<open>What matchOne decides\<close>

text \<open>
  The declarative meaning of a pattern: part by part, where \<open>**\<close> stands for any number of parts
  it may swallow, followed by a non-empty rest of the path. A path may end with one empty part
  (a trailing slash) that the pattern does not have.
\<close>

inductive path_matches :: "js_engine \<Rightarrow> options \<Rightarrow> jstring list \<Rightarrow> part list \<Rightarrow> bool"
  for eng options where
  both_end: "path_matches eng options [] []"
| trailing_slash: "path_matches eng options [[]] []"
| one_part: "p \<noteq> Globstar \<Longrightarrow> part_hit eng options p f \<Longrightarrow> path_matches eng options fs ps \<Longrightarrow>
    path_matches eng options (f # fs) (p # ps)"
| last_globstar: "xs \<noteq> [] \<Longrightarrow> (\<And>x. x \<in> set xs \<Longrightarrow> \<not> dotted options x) \<Longrightarrow>
    path_matches eng options xs [Globstar]"
| globstar: "(\<And>x. x \<in> set xs \<Longrightarrow> \<not> dotted options x) \<Longrightarrow> ys \<noteq> [] \<Longrightarrow> ps \<noteq> [] \<Longrightarrow>
    path_matches eng options ys ps \<Longrightarrow> path_matches eng options (xs @ ys) (Globstar # ps)"

inductive_cases path_matches_NilE: "path_matches eng options fs []"
inductive_cases path_matches_ConsE: "path_matches eng options fs (p # ps)"

lemma part_hit_not [simp]: "\<not> part_hit eng options NoPart f" "\<not> part_hit eng options Globstar f"
  by (simp_all add: part_hit_def)

lemma globstar_loop_iff:
  "globstar_loop eng options partial fs ps \<longleftrightarrow>
    (\<exists>xs ys. fs = xs @ ys \<and> list_all (\<lambda>x. \<not> dotted options x) xs \<and>
       (if ys = [] then partial else matchOne eng options partial ys ps))"
proof (induction fs)
  case (Cons f fs)
  show ?case (is "?l \<longleftrightarrow> ?r")
  proof
    assume ?l
    then consider "matchOne eng options partial (f # fs) ps"
      | "\<not> dotted options f" "globstar_loop eng options partial fs ps"
      by (auto split: if_splits)
    then show ?r
    proof cases
      case 1
      then show ?thesis by (intro exI [of _ "[]"] exI [of _ "f # fs"]) simp
    next
      case 2
      with Cons obtain xs ys where "fs = xs @ ys" "list_all (\<lambda>x. \<not> dotted options x) xs"
        "if ys = [] then partial else matchOne eng options partial ys ps" by blast
      with 2(1) show ?thesis by (intro exI [of _ "f # xs"] exI [of _ ys]) simp
    qed
  next
    assume ?r
    then obtain xs ys where h: "f # fs = xs @ ys" "list_all (\<lambda>x. \<not> dotted options x) xs"
      "if ys = [] then partial else matchOne eng options partial ys ps" by blast
    show ?l
    proof (cases xs)
      case Nil
      with h show ?thesis by auto
    next
      case (Cons x xs')
      with h have "\<exists>xs ys. fs = xs @ ys \<and> list_all (\<lambda>x. \<not> dotted options x) xs \<and>
         (if ys = [] then partial else matchOne eng options partial ys ps)"
        by (intro exI [of _ xs'] exI [of _ ys]) simp
      with Cons.IH Cons h show ?thesis by simp
    qed
  qed
qed simp

lemma path_matches_Nil_Cons: "\<not> path_matches eng options [] (p # ps)"
  by (auto elim: path_matches_ConsE)

lemma path_matches_globstar:
  assumes "ps \<noteq> []"
  shows "path_matches eng options fs (Globstar # ps) \<longleftrightarrow>
    (\<exists>xs ys. fs = xs @ ys \<and> list_all (\<lambda>x. \<not> dotted options x) xs \<and> ys \<noteq> [] \<and>
      path_matches eng options ys ps)"
proof
  assume "path_matches eng options fs (Globstar # ps)"
  then obtain xs ys where "fs = xs @ ys" "\<And>x. x \<in> set xs \<Longrightarrow> \<not> dotted options x" "ys \<noteq> []"
    "path_matches eng options ys ps"
    using assms by (auto elim: path_matches_ConsE)
  then have "fs = xs @ ys \<and> list_all (\<lambda>x. \<not> dotted options x) xs \<and> ys \<noteq> [] \<and>
      path_matches eng options ys ps" by (simp add: list_all_iff)
  then show "\<exists>xs ys. fs = xs @ ys \<and> list_all (\<lambda>x. \<not> dotted options x) xs \<and> ys \<noteq> [] \<and>
      path_matches eng options ys ps" by blast
next
  assume "\<exists>xs ys. fs = xs @ ys \<and> list_all (\<lambda>x. \<not> dotted options x) xs \<and> ys \<noteq> [] \<and>
      path_matches eng options ys ps"
  then obtain xs ys where "fs = xs @ ys" "list_all (\<lambda>x. \<not> dotted options x) xs" "ys \<noteq> []"
    "path_matches eng options ys ps" by blast
  then show "path_matches eng options fs (Globstar # ps)"
    using assms by (auto simp: list_all_iff intro: globstar)
qed

lemma matchOne_path_matches:
  "matchOne eng options False fs ps \<longleftrightarrow> path_matches eng options fs ps"
proof (induction ps arbitrary: fs)
  case Nil
  show ?case
  proof (cases fs)
    case (Cons f fs')
    then show ?thesis by (cases fs') (auto elim: path_matches_NilE intro: path_matches.intros)
  qed (simp add: both_end)
next
  case (Cons p ps)
  show ?case
  proof (cases fs)
    case Nil
    then show ?thesis by (simp add: path_matches_Nil_Cons)
  next
    case fs: (Cons f fs')
    show ?thesis
    proof (cases "p = Globstar")
      case False
      have "path_matches eng options (f # fs') (p # ps) \<longleftrightarrow>
          part_hit eng options p f \<and> path_matches eng options fs' ps"
        using False by (auto elim: path_matches_ConsE intro: one_part)
      with False fs Cons.IH show ?thesis by simp
    next
      case True
      show ?thesis
      proof (cases "ps = []")
        case nil: True
        have "path_matches eng options fs [Globstar] \<longleftrightarrow> list_all (\<lambda>x. \<not> dotted options x) fs"
          using fs by (auto simp: list_all_iff elim: path_matches_ConsE intro!: last_globstar)
        with True nil fs show ?thesis by simp
      next
        case False
        have "matchOne eng options False fs (p # ps) \<longleftrightarrow> globstar_loop eng options False fs ps"
          using True False fs by simp
        also have "\<dots> \<longleftrightarrow> path_matches eng options fs (p # ps)"
          unfolding globstar_loop_iff True path_matches_globstar [OF False] Cons.IH by auto
        finally show ?thesis .
      qed
    qed
  qed
qed

text \<open>
  C11: \<open>matchOne\<close> decides exactly the declarative matching relation: part by part, \<open>**\<close> standing
  for any number of parts it may swallow, and one empty last part of the path being ignored.
\<close>

theorem matchOne_iff:
  "matchOne eng options False fs ps \<longleftrightarrow> path_matches eng options fs ps"
  by (rule matchOne_path_matches)

lemma matchOne_partial_Nil: "matchOne eng options True [] ps"
  by (cases ps) simp_all

text \<open>
  C12: Partial matching never loses a path: when some path matches the pattern, \<open>matchOne\<close> with
  \<open>partial\<close> accepts every initial piece of that path.
\<close>

theorem matchOne_partial:
  assumes "path_matches eng options (fs @ rest) ps"
  shows "matchOne eng options True fs ps"
  using assms
proof (induction "fs @ rest" ps arbitrary: fs rest rule: path_matches.induct)
  case both_end
  then show ?case by simp
next
  case trailing_slash
  then show ?case by (cases fs) auto
next
  case (one_part p f fs' ps)
  then show ?case by (cases fs) (auto simp: matchOne_partial_Nil)
next
  case (last_globstar fs rest)
  then show ?case by (cases fs) (auto simp: list_all_iff)
next
  case (globstar xs ys ps)
  show ?case
  proof (cases fs)
    case Nil
    then show ?thesis by simp
  next
    case (Cons f fs')
    consider us where "xs = fs @ us" | us where "fs = xs @ us" "ys = us @ rest"
      using globstar.hyps(6) by (auto simp: append_eq_append_conv2)
    then have "globstar_loop eng options True fs ps"
    proof cases
      case (1 us)
      then show ?thesis unfolding globstar_loop_iff
        using globstar.hyps(1) by (intro exI [of _ fs] exI [of _ "[]"]) (simp add: list_all_iff)
    next
      case (2 us)
      with globstar.hyps(5) [of us rest] globstar.hyps(1) show ?thesis unfolding globstar_loop_iff
        by (intro exI [of _ xs] exI [of _ us]) (simp add: list_all_iff)
    qed
    with Cons globstar.hyps(3) show ?thesis by simp
  qed
qed

text \<open>An engine for concrete runs, without regular expressions.\<close>

definition plain_engine :: js_engine where
  "plain_engine = \<lparr>re_valid = (\<lambda>_. True), re_test = (\<lambda>_ _ _. False), lower = (\<lambda>s. s)\<rparr>"

theorem matchOne_partial_witness:
  "matchOne plain_engine (\<lambda>_. None) True [js ''a'', js ''b''] [Literal (js ''a''), Globstar, Literal (js ''c'')]"
proof (rule matchOne_partial [of _ _ _ "[js ''c'']"])
  have "path_matches plain_engine (\<lambda>_. None) [js ''c''] [Literal (js ''c'')]"
    by (intro one_part both_end) (simp_all add: part_hit_def on_def)
  then have "path_matches plain_engine (\<lambda>_. None) ([js ''b''] @ [js ''c'']) [Globstar, Literal (js ''c'')]"
    by (intro globstar) (simp_all add: dotted_def js_def of_char_of)
  then show "path_matches plain_engine (\<lambda>_. None) ([js ''a'', js ''b''] @ [js ''c''])
      [Literal (js ''a''), Globstar, Literal (js ''c'')]"
    by (auto intro!: one_part simp: part_hit_def on_def)
qed

end
