(* ===== verification/Brace_Expansion.thy ===== *)
theory Brace_Expansion
  imports Js_Text
begin

text \<open>
  The bundled \<open>balanced-match\<close>, \<open>brace-expansion\<close> and \<open>concat-map\<close> modules of
  \<open>wordcut.js\<close>: the search for the first balanced pair of delimiters, and the expansion of
  \<open>{a,b}\<close> sets and \<open>{x..y..step}\<close> sequences in a glob pattern.

  A call of \<open>expand\<close> has three outcomes. \<open>Returns\<close> and \<open>Diverges\<close> are those of the
  code (its sequence loop need not end); \<open>Out_of_fuel\<close> only belongs to the model, whose
  recursion is bounded, and one more than the number of closing braces of the string is always
  enough. The random numbers in the escape marks are a parameter.
\<close>

datatype 'a outcome = Returns 'a | Diverges | Out_of_fuel

definition and_run :: "'a outcome \<Rightarrow> ('a \<Rightarrow> 'b outcome) \<Rightarrow> 'b outcome" where
  "and_run m f = (case m of Returns x \<Rightarrow> f x | Diverges \<Rightarrow> Diverges | Out_of_fuel \<Rightarrow> Out_of_fuel)"

lemma and_run_simps [simp]:
  "and_run (Returns x) f = f x" "and_run Diverges f = Diverges" "and_run Out_of_fuel f = Out_of_fuel"
  by (simp_all add: and_run_def)

lemma and_run_Returns_id [simp]: "and_run m Returns = m"
  by (cases m) simp_all

section \<open>balanced-match\<close>

text \<open>
  The loop of \<open>range\<close>. The stack \<open>begs\<close> holds the positions of the opening delimiters, the
  last pushed first; \<open>best\<close> is the pair \<open>left\<close>, \<open>right\<close>, the result when the loop ends with
  opening delimiters left over (\<open>right\<close>, undefined at first, is 0 here).
\<close>

fun range_loop :: "nat \<Rightarrow> 'a list \<Rightarrow> 'a list \<Rightarrow> 'a list \<Rightarrow> int \<Rightarrow> int \<Rightarrow> int \<Rightarrow> int list \<Rightarrow> int \<times> int
    \<Rightarrow> (int \<times> int) option" where
  "range_loop 0 a b str ai bi i begs best = None"
| "range_loop (Suc n) a b str ai bi i begs best =
     (if i < 0 then (if begs \<noteq> [] then Some best else None)
      else
        let next_i = (\<lambda>ai bi. if ai < bi \<and> 0 \<le> ai then ai else bi) in
        if i = ai then
          (let ai' = indexOf str a (i + 1) in
           range_loop n a b str ai' bi (next_i ai' bi) (i # begs) best)
        else
          case begs of
            [] \<Rightarrow> (let bi' = indexOf str b (i + 1) in range_loop n a b str ai bi' (next_i ai bi') [] best)
          | [beg] \<Rightarrow> Some (beg, bi)
          | beg # begs' \<Rightarrow>
              (let best' = (if beg < fst best then (beg, bi) else best);
                   bi' = indexOf str b (i + 1) in
               range_loop n a b str ai bi' (next_i ai bi') begs' best'))"

definition balanced_range :: "'a list \<Rightarrow> 'a list \<Rightarrow> 'a list \<Rightarrow> (int \<times> int) option" where
  "balanced_range a b str =
     (let ai = indexOf str a 0; bi = indexOf str b (ai + 1); i = ai in
      if 0 \<le> ai \<and> 0 < bi
      then range_loop (2 * length str + 2) a b str ai bi i [] (int (length str), 0)
      else None)"

record 'a balanced_match =
  m_start :: int
  m_end :: int
  m_pre :: "'a list"
  m_body :: "'a list"
  m_post :: "'a list"

definition balanced :: "'a list \<Rightarrow> 'a list \<Rightarrow> 'a list \<Rightarrow> 'a balanced_match option" where
  "balanced a b str =
     (case balanced_range a b str of
        None \<Rightarrow> None
      | Some (l, r) \<Rightarrow> Some \<lparr>
          m_start = l, m_end = r,
          m_pre = slice str 0 (nat l),
          m_body = slice str (nat l + length a) (nat r),
          m_post = drop (nat r + length b) str\<rparr>)"

lemma balanced_post_shorter:
  assumes "balanced a b str = Some m" "b \<noteq> []"
  shows "length (m_post m) < length str"
proof -
  from assms(1) have "str \<noteq> [] \<or> a = []"
    by (auto simp: balanced_def balanced_range_def indexOf_def first_at.simps [of a "[]"]
        clamp_index_def split: if_splits option.splits)
  moreover have "str \<noteq> [] \<or> b = []"
    using assms(1)
    by (auto simp: balanced_def balanced_range_def indexOf_def first_at.simps [of b "[]"]
        clamp_index_def split: if_splits option.splits)
  moreover have "length (m_post m) = length str - (n + length b)" 
    if "m_post m = drop (n + length b) str" for n using that by simp
  ultimately show ?thesis using assms
    by (cases str) (auto simp: balanced_def split: option.splits prod.splits)
qed

section \<open>brace-expansion: escapes and parts\<close>

abbreviation "slash_u \<equiv> (92 :: unit16)"
abbreviation "open_u \<equiv> (123 :: unit16)"
abbreviation "close_u \<equiv> (125 :: unit16)"
abbreviation "comma_u \<equiv> (44 :: unit16)"
abbreviation "period_u \<equiv> (46 :: unit16)"
abbreviation "dollar_u \<equiv> (36 :: unit16)"
abbreviation "zero_u \<equiv> (48 :: unit16)"

datatype mark = Slash | Open | Close | Comma | Period

primrec mark_name :: "mark \<Rightarrow> jstring" where
  "mark_name Slash = js ''SLASH''"
| "mark_name Open = js ''OPEN''"
| "mark_name Close = js ''CLOSE''"
| "mark_name Comma = js ''COMMA''"
| "mark_name Period = js ''PERIOD''"

text \<open>\<open>rnd m\<close> is \<open>String(Math.random())\<close>, drawn once for each mark when the module loads.\<close>

definition esc :: "(mark \<Rightarrow> jstring) \<Rightarrow> mark \<Rightarrow> jstring" where
  "esc rnd m = 0 # mark_name m @ rnd m @ [0]"

definition numeric :: "jstring \<Rightarrow> int" where
  "numeric s = (if is_int s then int_of_string s else case s of [] \<Rightarrow> 0 | c # cs \<Rightarrow> uint c)"

definition escapeBraces :: "(mark \<Rightarrow> jstring) \<Rightarrow> jstring \<Rightarrow> jstring" where
  "escapeBraces rnd str =
     replace_all [slash_u, period_u] (esc rnd Period)
       (replace_all [slash_u, comma_u] (esc rnd Comma)
         (replace_all [slash_u, close_u] (esc rnd Close)
           (replace_all [slash_u, open_u] (esc rnd Open)
             (replace_all [slash_u, slash_u] (esc rnd Slash) str))))"

definition unescapeBraces :: "(mark \<Rightarrow> jstring) \<Rightarrow> jstring \<Rightarrow> jstring" where
  "unescapeBraces rnd str =
     replace_all (esc rnd Period) [period_u]
       (replace_all (esc rnd Comma) [comma_u]
         (replace_all (esc rnd Close) [close_u]
           (replace_all (esc rnd Open) [open_u]
             (replace_all (esc rnd Slash) [slash_u] str))))"

section \<open>The pair found is balanced\<close>

text \<open>The same search as one pass over the characters, for delimiters of one character.\<close>

fun scan :: "'a \<Rightarrow> 'a \<Rightarrow> int \<Rightarrow> 'a list \<Rightarrow> int list \<Rightarrow> int \<times> int \<Rightarrow> (int \<times> int) option" where
  "scan p q pos [] begs best = (if begs \<noteq> [] then Some best else None)"
| "scan p q pos (c # cs) begs best =
     (if c = p then scan p q (pos + 1) cs (pos # begs) best
      else if c = q then
        (case begs of
           [] \<Rightarrow> scan p q (pos + 1) cs [] best
         | [b] \<Rightarrow> Some (b, pos)
         | b # bs \<Rightarrow> scan p q (pos + 1) cs bs (if b < fst best then (b, pos) else best))
      else scan p q (pos + 1) cs begs best)"

definition next_at :: "'a \<Rightarrow> nat \<Rightarrow> 'a list \<Rightarrow> int" where
  "next_at c k s = (if c \<in> set s then int k + int (length (takeWhile (\<lambda>x. x \<noteq> c) s)) else -1)"

lemma next_at_simps:
  "next_at c k [] = -1" "next_at c k (c # s) = int k"
  "d \<noteq> c \<Longrightarrow> next_at c k (d # s) = next_at c (Suc k) s"
  by (auto simp: next_at_def)

lemma next_at_ge: "next_at c k s = -1 \<or> int k \<le> next_at c k s"
  by (auto simp: next_at_def)

lemma indexOf_next_at: "k \<le> length s \<Longrightarrow> indexOf s [c] (int k) = next_at c k (drop k s)"
  by (auto simp: indexOf_def clamp_index_def first_at_single next_at_def Let_def)

lemma scan_no_close: "q \<notin> set cs \<Longrightarrow> begs \<noteq> [] \<Longrightarrow> scan p q pos cs begs best = Some best"
  by (induction cs arbitrary: pos begs) auto

lemma drop_Cons_step: "drop k s = c # cs \<Longrightarrow> k < length s \<and> s ! k = c \<and> drop (Suc k) s = cs"
  by (metis Cons_nth_drop_Suc drop_all linorder_not_less list.inject list.distinct(1))

lemma range_loop_scan:
  assumes "p \<noteq> q" "drop k s = cs" "k \<le> length s" "length cs < n"
    and "begs = [] \<Longrightarrow> cs \<noteq> [] \<and> hd cs = p \<and> q \<in> set cs"
  shows "range_loop n [p] [q] s (next_at p k cs) (next_at q k cs)
      (if next_at p k cs < next_at q k cs \<and> 0 \<le> next_at p k cs then next_at p k cs
       else next_at q k cs) begs best
    = scan p q (int k) cs begs best"
  using assms(2-)
proof (induction cs arbitrary: k n begs best)
  case Nil
  then show ?case by (cases n) (auto simp: next_at_simps)
next
  case (Cons c cs)
  have k: "Suc k \<le> length s" "drop (Suc k) s = cs"
    using drop_Cons_step [OF Cons.prems(1)] by simp_all
  have ix: "indexOf s [d] (1 + int k) = next_at d (Suc k) cs" for d
    using indexOf_next_at [OF k(1), of d] k(2) by simp
  obtain m where n: "n = Suc m" "length cs < m" using Cons.prems(3) by (cases n) auto
  have pos: "int k + 1 = int (Suc k)" by simp
  consider (op) "c = p" | (cl) "c = q" "c \<noteq> p" | (other) "c \<noteq> p" "c \<noteq> q" by blast
  then show ?case
  proof cases
    case op
    show ?thesis
    proof (cases "q \<in> set cs")
      case True
      then have "int k < next_at q (Suc k) cs" by (auto simp: next_at_def)
      with op assms(1) n Cons.IH [OF k(2,1), of m "int k # begs" best] show ?thesis
        by (simp add: next_at_simps ix Let_def add.commute)
    next
      case False
      then have "next_at q (Suc k) cs = -1" by (simp add: next_at_def)
      moreover have "begs \<noteq> []" using Cons.prems(4) False op assms(1) by auto
      ultimately show ?thesis using op assms(1) n False
        by (simp add: next_at_simps scan_no_close)
    qed
  next
    case cl
    have ne: "begs \<noteq> []" using Cons.prems(4) cl by auto
    have ai: "next_at p (Suc k) cs \<noteq> int k" "\<not> (next_at p (Suc k) cs < int k \<and> 0 \<le> next_at p (Suc k) cs)"
      using next_at_ge [of p "Suc k" cs] by auto
    show ?thesis
    proof (cases "tl begs")
      case Nil
      with ne obtain b where "begs = [b]" by (cases begs) auto
      with cl n show ?thesis
        by (simp add: next_at_simps Let_def ai(1) [symmetric] if_not_P [OF ai(2)])
    next
      case (Cons b2 bs)
      with ne obtain b where b: "begs = b # b2 # bs" by (cases begs) auto
      have "m > length cs" using n by simp
      from Cons.IH [OF k(2,1) this, of "b2 # bs" "if b < fst best then (b, int k) else best"]
      show ?thesis using cl n b
        by (simp add: next_at_simps ix Let_def add.commute ai(1) [symmetric] if_not_P [OF ai(2)])
    qed
  next
    case other
    have "begs \<noteq> []" using Cons.prems(4) other by auto
    moreover have "length cs < n" using n by simp
    ultimately show ?thesis using other Cons.IH [OF k(2,1), of n begs best]
      by (auto simp del: range_loop.simps simp: next_at_simps add.commute split: if_splits)
  qed
qed

text \<open>Words with balanced delimiters, and what the positions on the stack mean.\<close>

inductive bal :: "'a \<Rightarrow> 'a \<Rightarrow> 'a list \<Rightarrow> bool" for p q where
  bal_Nil: "bal p q []"
| bal_other: "bal p q w \<Longrightarrow> c \<noteq> p \<Longrightarrow> c \<noteq> q \<Longrightarrow> bal p q (w @ [c])"
| bal_pair: "bal p q u \<Longrightarrow> bal p q v \<Longrightarrow> bal p q (u @ p # v @ [q])"

fun open_chain :: "'a \<Rightarrow> 'a \<Rightarrow> int list \<Rightarrow> 'a list \<Rightarrow> bool" where
  "open_chain p q [] w \<longleftrightarrow> p \<notin> set w"
| "open_chain p q (b # bs) w \<longleftrightarrow>
     (\<exists>u v. w = u @ p # v \<and> int (length u) = b \<and> bal p q v \<and> open_chain p q bs u)"

definition pair_at :: "'a \<Rightarrow> 'a \<Rightarrow> 'a list \<Rightarrow> int \<times> int \<Rightarrow> bool" where
  "pair_at p q s lr \<longleftrightarrow>
     (\<exists>u v t. s = u @ p # v @ q # t \<and> bal p q v \<and>
        lr = (int (length u), int (length u + length v + 1)))"

lemma open_chain_other:
  "open_chain p q bs w \<Longrightarrow> c \<noteq> p \<Longrightarrow> c \<noteq> q \<Longrightarrow> open_chain p q bs (w @ [c])"
proof (induction bs arbitrary: w)
  case (Cons b bs)
  then obtain u v where "w = u @ p # v" "int (length u) = b" "bal p q v" "open_chain p q bs u"
    by auto
  moreover have "w @ [c] = u @ p # (v @ [c])" "bal p q (v @ [c])"
    using calculation Cons.prems by (auto intro: bal_other)
  ultimately show ?case unfolding open_chain.simps by blast
qed auto

lemma open_chain_close:
  assumes "open_chain p q (b # b' # bs) w"
  shows "open_chain p q (b' # bs) (w @ [q])"
proof -
  from assms obtain u v x y where "w = u @ p # v" "bal p q v"
    and u: "u = x @ p # y" "bal p q y" "int (length x) = b'" "open_chain p q bs x"
    by auto
  then have "w @ [q] = x @ p # (y @ p # v @ [q])" by simp
  moreover have "bal p q (y @ p # v @ [q])" by (rule bal_pair) fact+
  ultimately show ?thesis unfolding open_chain.simps using u by blast
qed

lemma open_chain_pair:
  "open_chain p q (b # bs) w \<Longrightarrow> s = w @ q # t \<Longrightarrow> pair_at p q s (b, int (length w))"
proof -
  assume "open_chain p q (b # bs) w" and s: "s = w @ q # t"
  then obtain u v where "w = u @ p # v" "int (length u) = b" "bal p q v" by auto
  with s have "s = u @ p # v @ q # t \<and> bal p q v \<and>
      (b, int (length w)) = (int (length u), int (length u + length v + 1))" by auto
  then show ?thesis unfolding pair_at_def by blast
qed

lemma scan_pair:
  assumes "s = w @ cs" "open_chain p q begs w" "p \<noteq> q" "pair_at p q s best \<or> fst best = int (length s) \<and> q \<in> set cs"
    and "begs = [] \<Longrightarrow> cs \<noteq> [] \<and> hd cs = p"
  shows "\<exists>lr. scan p q (int (length w)) cs begs best = Some lr \<and> pair_at p q s lr"
  using assms(1,2,4,5)
proof (induction cs arbitrary: w begs best)
  case Nil
  then show ?case by (cases best) auto
next
  case (Cons c cs)
  have s: "s = (w @ [c]) @ cs" using Cons.prems(1) by simp
  consider (op) "c = p" | (cl) "c = q" "c \<noteq> p" | (other) "c \<noteq> p" "c \<noteq> q" by blast
  then show ?case
  proof cases
    case op
    have "open_chain p q (int (length w) # begs) (w @ [c])"
      using Cons.prems(2) op by (auto intro: bal_Nil)
    moreover have "pair_at p q s best \<or> fst best = int (length s) \<and> q \<in> set cs"
      using Cons.prems(3) op assms(3) by auto
    ultimately show ?thesis
      using Cons.IH [OF s, of "int (length w) # begs" best] op by (simp add: add.commute)
  next
    case cl
    then obtain b bs where b: "begs = b # bs" using Cons.prems(4) by (cases begs) auto
    have pair: "pair_at p q s (b, int (length w))"
      by (rule open_chain_pair [of p q b bs w s cs]) (use Cons.prems(1,2) b cl in simp_all)
    show ?thesis
    proof (cases bs)
      case Nil
      with b cl pair show ?thesis by simp
    next
      case (Cons b' bs')
      let ?best = "if b < fst best then (b, int (length w)) else best"
      have "b < int (length s)" using Cons.prems(1,2) b by auto
      then have best: "pair_at p q s ?best" using pair Cons.prems(3) by auto
      have "open_chain p q (b' # bs') (w @ [c])"
        using open_chain_close [of p q b b' bs' w] Cons.prems(2) b Cons cl by simp
      with Cons.IH [OF s, of "b' # bs'" ?best] best b Cons cl show ?thesis
        by (simp add: add.commute)
    qed
  next
    case other
    with Cons.prems have ne: "begs \<noteq> []" by auto
    have "open_chain p q begs (w @ [c])"
      using open_chain_other [of p q begs w c] Cons.prems(2) other by simp
    with Cons.IH [OF s, of begs best] Cons.prems(3) other ne show ?thesis
      by (simp add: add.commute)
  qed
qed

text \<open>
  The search for one-character delimiters: no result exactly when no closing delimiter stands
  behind an opening one, else a balanced pair.
\<close>

lemma balanced_range_scan:
  assumes "p \<noteq> q"
  shows "balanced_range [p] [q] s =
    (let u = takeWhile (\<lambda>x. x \<noteq> p) s; cs = dropWhile (\<lambda>x. x \<noteq> p) s in
     if q \<in> set cs then scan p q (int (length u)) cs [] (int (length s), 0) else None)"
proof (cases "p \<in> set s")
  case False
  have nil: "dropWhile (\<lambda>x. x \<noteq> p) s = []"
    unfolding dropWhile_eq_Nil_conv using False by blast
  show ?thesis unfolding Let_def nil using False
    by (simp add: balanced_range_def indexOf_def clamp_index_def first_at_single Let_def)
next
  case True
  let ?k = "length (takeWhile (\<lambda>x. x \<noteq> p) s)"
  obtain cs where cs: "dropWhile (\<lambda>x. x \<noteq> p) s = p # cs"
    using True by (cases "dropWhile (\<lambda>x. x \<noteq> p) s") (auto simp: dropWhile_eq_Nil_conv dropWhile_eq_Cons_conv)
  have drop: "drop ?k s = p # cs" using cs by (simp add: dropWhile_eq_drop)
  have k: "?k < length s" "drop (Suc ?k) s = cs" using drop_Cons_step [OF drop] by simp_all
  have ai: "indexOf s [p] 0 = int ?k"
    using True by (simp add: indexOf_def clamp_index_def first_at_single Let_def)
  have bi: "indexOf s [q] (int ?k + 1) = next_at q (Suc ?k) cs"
    using indexOf_next_at [of "Suc ?k" s q] k by (simp add: add.commute)
  show ?thesis
  proof (cases "q \<in> set cs")
    case False
    then show ?thesis using assms by (simp add: balanced_range_def ai bi cs next_at_def)
  next
    case True
    have next_k: "int ?k < next_at q (Suc ?k) cs" using True by (simp add: next_at_def)
    have "length (p # cs) < 2 * length s + 2"
      using arg_cong [OF drop, of length] by simp
    from range_loop_scan [OF assms drop less_imp_le [OF k(1)] this, of "[]" "(int (length s), 0)"]
    show ?thesis using True next_k assms
      by (simp add: balanced_range_def ai bi cs next_at_simps Let_def)
  qed
qed

lemma balanced_range_pair:
  assumes "p \<noteq> q" "q \<in> set (dropWhile (\<lambda>x. x \<noteq> p) s)"
  shows "\<exists>lr. balanced_range [p] [q] s = Some lr \<and> pair_at p q s lr"
proof -
  let ?u = "takeWhile (\<lambda>x. x \<noteq> p) s" and ?cs = "dropWhile (\<lambda>x. x \<noteq> p) s"
  have "open_chain p q [] ?u" by (auto dest: set_takeWhileD)
  moreover have "?cs \<noteq> [] \<and> hd ?cs = p" 
    using assms(2) hd_dropWhile [of "\<lambda>x. x \<noteq> p" s] by (cases ?cs) simp_all
  ultimately have "\<exists>lr. scan p q (int (length ?u)) ?cs [] (int (length s), 0) = Some lr \<and> pair_at p q s lr"
    by (intro scan_pair) (use assms in simp_all)
  then show ?thesis using assms by (simp add: balanced_range_scan)
qed

lemma balanced_decomposition:
  assumes "p \<noteq> q"
  shows "case balanced [p] [q] s of
      None \<Rightarrow> q \<notin> set (dropWhile (\<lambda>x. x \<noteq> p) s)
    | Some m \<Rightarrow> s = m_pre m @ p # m_body m @ q # m_post m \<and> bal p q (m_body m)"
proof (cases "q \<in> set (dropWhile (\<lambda>x. x \<noteq> p) s)")
  case False
  then show ?thesis using assms by (simp add: balanced_def balanced_range_scan)
next
  case True
  from balanced_range_pair [OF assms True] obtain lr u v t
    where r: "balanced_range [p] [q] s = Some lr" "s = u @ p # v @ q # t" "bal p q v"
      and lr: "lr = (int (length u), int (length u + length v + 1))"
    unfolding pair_at_def by blast
  have b: "balanced [p] [q] s = Some \<lparr>m_start = int (length u), m_end = int (length u + length v + 1),
      m_pre = u, m_body = v, m_post = t\<rparr>"
    using r(1,2) lr by (simp add: balanced_def slice_def nat_add_distrib)
  show ?thesis unfolding b using r(2,3) by simp
qed

text \<open>
  Whenever a closing delimiter stands behind an opening one, \<open>balanced\<close> returns a decomposition
  of the string into \<open>pre\<close>, the opening delimiter, \<open>body\<close>, the closing delimiter and \<open>post\<close>
  in which the delimiters of \<open>body\<close> are balanced; otherwise it returns nothing.
\<close>

theorem balanced_pair:
  assumes "p \<noteq> q"
  shows "case balanced [p] [q] s of
      None \<Rightarrow> q \<notin> set (dropWhile (\<lambda>x. x \<noteq> p) s)
    | Some m \<Rightarrow> s = m_pre m @ p # m_body m @ q # m_post m \<and> bal p q (m_body m)"
  using assms by (rule balanced_decomposition)

theorem balanced_pair_witness:
  "case balanced [1] [2] [3, 1, 1, 4, 2, 1, 5, 2, 2 :: nat] of
     None \<Rightarrow> False | Some m \<Rightarrow> m_pre m = [3] \<and> m_post m = [] \<and> bal 1 2 (m_body m)"
  using balanced_pair [of 1 2 "[3, 1, 1, 4, 2, 1, 5, 2, 2 :: nat]"]
  by (simp add: balanced_def balanced_range_def indexOf_def clamp_index_def first_at.simps
      slice_def Let_def eval_nat_numeral split: option.splits)

section \<open>brace-expansion: the expansion\<close>

function parseCommaParts :: "jstring \<Rightarrow> jstring list" where
  "parseCommaParts str =
     (if str = [] then [[]]
      else case balanced [open_u] [close_u] str of
        None \<Rightarrow> split_on [comma_u] str
      | Some m \<Rightarrow>
          (let p = split_on [comma_u] (m_pre m);
               p = p[length p - 1 := last p @ [open_u] @ m_body m @ [close_u]];
               postParts = parseCommaParts (m_post m)
           in if m_post m \<noteq> []
              then p[length p - 1 := last p @ hd postParts] @ tl postParts
              else p))"
  by auto

termination
  by (relation "measure length") (simp_all add: balanced_post_shorter)

declare parseCommaParts.simps [simp del]

definition embrace :: "jstring \<Rightarrow> jstring" where
  "embrace str = [open_u] @ str @ [close_u]"

text \<open>\<open>/^-?0\d/\<close>.\<close>

definition isPadded :: "jstring \<Rightarrow> bool" where
  "isPadded el =
     (let d = (if el \<noteq> [] \<and> hd el = minus_unit then tl el else el)
      in 2 \<le> length d \<and> hd d = zero_u \<and> is_digit (d ! 1))"

definition lte :: "int \<Rightarrow> int \<Rightarrow> bool" where
  "lte i y \<longleftrightarrow> i \<le> y"

definition gte :: "int \<Rightarrow> int \<Rightarrow> bool" where
  "gte i y \<longleftrightarrow> y \<le> i"

definition is_letter :: "unit16 \<Rightarrow> bool" where
  "is_letter c \<longleftrightarrow> 97 \<le> c \<and> c \<le> 122 \<or> 65 \<le> c \<and> c \<le> 90"

text \<open>
  The two tests on the body, read on its parts: a string matches the pattern
  \<open>A\.\.B(?:\.\.C)?\<close> with \<open>A\<close>, \<open>B\<close>, \<open>C\<close> free of dots exactly when it splits at \<open>..\<close> into two
  or three parts that match them.
\<close>

definition dots :: "jstring \<Rightarrow> jstring list" where
  "dots body = split_on [period_u, period_u] body"

definition isNumericSequence :: "jstring \<Rightarrow> bool" where
  "isNumericSequence body =
     (let n = dots body in (length n = 2 \<or> length n = 3) \<and> list_all is_int n)"

definition isAlphaSequence :: "jstring \<Rightarrow> bool" where
  "isAlphaSequence body =
     (let n = dots body in
      (length n = 2 \<or> length n = 3) \<and>
      list_all (\<lambda>x. length x = 1 \<and> is_letter (hd x)) (take 2 n) \<and> list_all is_int (drop 2 n))"

text \<open>\<open>/,.*\}/\<close>: a comma, and behind it on the same line a closing brace.\<close>

definition is_newline :: "unit16 \<Rightarrow> bool" where
  "is_newline c \<longleftrightarrow> c \<in> {10, 13, 0x2028, 0x2029}"

fun comma_then_brace :: "jstring \<Rightarrow> bool" where
  "comma_then_brace [] = False"
| "comma_then_brace (c # cs) =
     (c = comma_u \<and> close_u \<in> set (takeWhile (\<lambda>x. \<not> is_newline x) cs) \<or> comma_then_brace cs)"

text \<open>
  The loop \<open>for (i = x; test(i, y); i += incr)\<close>: the values of \<open>i\<close>, \<open>None\<close> when it never ends. The
  counter is an unbounded integer, so the model is of bounds below \<open>2^53\<close>; beyond it the numbers
  of the program round, and adding 1 may change nothing.
\<close>

partial_function (option) seq_loop :: "(int \<Rightarrow> int \<Rightarrow> bool) \<Rightarrow> int \<Rightarrow> int \<Rightarrow> int \<Rightarrow> int list option" where
  "seq_loop test y incr i =
     (if test i y then Option.bind (seq_loop test y incr (i + incr)) (\<lambda>is. Some (i # is)) else Some [])"

definition seq_item :: "bool \<Rightarrow> bool \<Rightarrow> nat \<Rightarrow> int \<Rightarrow> jstring" where
  "seq_item isAlpha pad width i =
     (if isAlpha then (let c = [word_of_int i] in if c = [slash_u] then [] else c)
      else
        let c = string_of_int i; need = width - length c in
        if pad \<and> 0 < need then
          (let z = replicate need zero_u in if i < 0 then [minus_unit] @ z @ tl c else z @ c)
        else c)"

definition sequence_items :: "bool \<Rightarrow> jstring list \<Rightarrow> jstring list outcome" where
  "sequence_items isAlpha n =
     (let x = numeric (n ! 0);
          y = numeric (n ! 1);
          width = max (length (n ! 0)) (length (n ! 1));
          incr = (if length n = 3 then \<bar>numeric (n ! 2)\<bar> else 1);
          reverse = y < x;
          incr = (if reverse then incr * (-1) else incr);
          test = (if reverse then gte else lte);
          pad = list_ex isPadded n
      in case seq_loop test y incr x of
           None \<Rightarrow> Diverges
         | Some is \<Rightarrow> Returns (map (seq_item isAlpha pad width) is))"

text \<open>\<open>concatMap(xs, fn)\<close>, where \<open>fn\<close> gives an array for each element.\<close>

fun concatMap :: "'a list \<Rightarrow> ('a \<Rightarrow> 'b list outcome) \<Rightarrow> 'b list outcome" where
  "concatMap [] fn = Returns []"
| "concatMap (x # xs) fn =
     and_run (fn x) (\<lambda>ys. and_run (concatMap xs fn) (\<lambda>zs. Returns (ys @ zs)))"

definition combine :: "bool \<Rightarrow> jstring \<Rightarrow> jstring list \<Rightarrow> jstring list \<Rightarrow> jstring list" where
  "combine keep_empty pre N post =
     [expansion. n \<leftarrow> N, p \<leftarrow> post, expansion \<leftarrow> [pre @ n @ p], keep_empty \<or> expansion \<noteq> []]"

primrec expand :: "(mark \<Rightarrow> jstring) \<Rightarrow> nat \<Rightarrow> jstring \<Rightarrow> bool \<Rightarrow> jstring list outcome" where
  "expand rnd 0 str isTop = Out_of_fuel"
| "expand rnd (Suc fuel) str isTop =
     (case balanced [open_u] [close_u] str of
        None \<Rightarrow> Returns [str]
      | Some m \<Rightarrow>
          if m_pre m \<noteq> [] \<and> last (m_pre m) = dollar_u then Returns [str]
          else
            let isAlpha = isAlphaSequence (m_body m);
                isSequence = (isNumericSequence (m_body m) \<or> isAlpha);
                isOptions = (comma_u \<in> set (m_body m));
                post_expansions = (if m_post m \<noteq> [] then expand rnd fuel (m_post m) False else Returns [[]])
            in
            if \<not> isSequence \<and> \<not> isOptions then
              (if comma_then_brace (m_post m)
               then expand rnd fuel (m_pre m @ [open_u] @ m_body m @ esc rnd Close @ m_post m) False
               else Returns [str])
            else if isSequence then
              and_run post_expansions (\<lambda>post.
              and_run (sequence_items isAlpha (dots (m_body m))) (\<lambda>N.
              Returns (combine True (m_pre m) N post)))
            else
              let finish = (\<lambda>n.
                    and_run post_expansions (\<lambda>post.
                    and_run (concatMap n (\<lambda>el. expand rnd fuel el False)) (\<lambda>N.
                    Returns (combine (\<not> isTop) (m_pre m) N post))));
                  n = parseCommaParts (m_body m)
              in if length n = 1 then
                   and_run (expand rnd fuel (n ! 0) False) (\<lambda>e.
                   let n = map embrace e in
                   if length n = 1
                   then and_run post_expansions (\<lambda>post. Returns (map (\<lambda>p. m_pre m @ n ! 0 @ p) post))
                   else finish n)
                 else finish n)"

definition expandTop :: "(mark \<Rightarrow> jstring) \<Rightarrow> jstring \<Rightarrow> jstring list outcome" where
  "expandTop rnd str =
     (if str = [] then Returns []
      else
        let str = (if take 2 str = [open_u, close_u]
                   then [slash_u, open_u, slash_u, close_u] @ drop 2 str else str);
            s = escapeBraces rnd str
        in and_run (expand rnd (Suc (count_list s close_u)) s True)
             (\<lambda>es. Returns (map (unescapeBraces rnd) es)))"

section \<open>Enough fuel\<close>

lemma split_on_single_count: "count_list s c = (\<Sum>x\<leftarrow>split_on [d] s. count_list x c)"
  if "c \<noteq> d"
  using that
proof (induction s)
  case Nil
  show ?case by (subst split_on.simps) simp
next
  case (Cons x s)
  then show ?case
    by (subst split_on.simps) (auto split: list.splits)
qed

lemma sum_list_update_last:
  fixes f :: "'a \<Rightarrow> nat"
  assumes "xs \<noteq> []"
  shows "sum_list (map f (xs[length xs - 1 := y])) + f (last xs) = sum_list (map f xs) + f y"
  using assms
proof (induction xs rule: rev_induct)
  case (snoc x xs)
  then show ?case by (simp add: list_update_append)
qed simp

lemma balanced_braces:
  assumes "balanced [open_u] [close_u] s = Some m"
  shows "s = m_pre m @ open_u # m_body m @ close_u # m_post m"
  using balanced_decomposition [of open_u close_u s] assms by simp

lemma parseCommaParts_not_Nil [simp]: "parseCommaParts s \<noteq> []"
  by (subst parseCommaParts.simps) (simp add: Let_def split: option.splits)

lemma parseCommaParts_Nil [simp]: "parseCommaParts [] = [[]]"
  by (simp add: parseCommaParts.simps [of "[]"])

lemma parseCommaParts_count:
  "(\<Sum>x\<leftarrow>parseCommaParts s. count_list x close_u) = count_list s close_u"
proof (induction s rule: parseCommaParts.induct)
  case (1 str)
  let ?c = "\<lambda>x. count_list x close_u"
  show ?case
  proof (cases "balanced [open_u] [close_u] str")
    case None
    then show ?thesis
      by (cases "str = []")
        (simp_all add: parseCommaParts.simps [of str] split_on_single_count [of close_u comma_u str])
  next
    case (Some m)
    let ?p = "split_on [comma_u] (m_pre m)"
    let ?q = "?p[length ?p - 1 := last ?p @ [open_u] @ m_body m @ [close_u]]"
    have ne: "str \<noteq> []" using balanced_braces [OF Some] by (metis Nil_is_append_conv list.distinct(1))
    have q: "sum_list (map ?c ?q) = ?c (m_pre m) + ?c (m_body m) + 1"
      using sum_list_update_last [of ?p ?c "last ?p @ [open_u] @ m_body m @ [close_u]"]
      by (simp add: split_on_single_count [of close_u comma_u "m_pre m"])
    have str: "?c str = ?c (m_pre m) + ?c (m_body m) + 1 + ?c (m_post m)"
      by (subst balanced_braces [OF Some]) simp
    show ?thesis
    proof (cases "m_post m = []")
      case True
      then show ?thesis using ne Some q str by (simp add: parseCommaParts.simps [of str] Let_def)
    next
      case False
      let ?r = "parseCommaParts (m_post m)"
      have ih: "sum_list (map ?c ?r) = ?c (m_post m)" using 1 [OF ne Some refl refl] .
      have r: "sum_list (map ?c ?r) = ?c (hd ?r) + sum_list (map ?c (tl ?r))"
        by (cases ?r) simp_all
      have "?q \<noteq> []" by simp
      from sum_list_update_last [OF this, of ?c "last ?q @ hd ?r"]
      have "sum_list (map ?c (?q[length ?q - 1 := last ?q @ hd ?r])) = sum_list (map ?c ?q) + ?c (hd ?r)"
        by simp
      then show ?thesis using ne Some q str False r ih
        by (simp add: parseCommaParts.simps [of str] Let_def)
    qed
  qed
qed

lemma and_run_fuel:
  "m \<noteq> Out_of_fuel \<Longrightarrow> (\<And>x. m = Returns x \<Longrightarrow> f x \<noteq> Out_of_fuel) \<Longrightarrow> and_run m f \<noteq> Out_of_fuel"
  by (cases m) simp_all

lemma if_neq: "(P \<Longrightarrow> a \<noteq> z) \<Longrightarrow> (\<not> P \<Longrightarrow> b \<noteq> z) \<Longrightarrow> (if P then a else b) \<noteq> z"
  by simp

lemma concatMap_fuel:
  "(\<And>x. x \<in> set xs \<Longrightarrow> f x \<noteq> Out_of_fuel) \<Longrightarrow> concatMap xs f \<noteq> Out_of_fuel"
  by (induction xs) (simp_all add: and_run_fuel)

lemma sequence_items_fuel: "sequence_items a n \<noteq> Out_of_fuel"
  by (simp add: sequence_items_def Let_def split: option.splits)

definition brace_free :: "(mark \<Rightarrow> jstring) \<Rightarrow> bool" where
  "brace_free rnd \<longleftrightarrow> list_all (\<lambda>m. close_u \<notin> set (rnd m)) [Slash, Open, Close, Comma, Period]"

lemma brace_free_esc: "brace_free rnd \<Longrightarrow> count_list (esc rnd m) close_u = 0"
  by (cases m) (simp_all add: brace_free_def esc_def js_def of_char_of)

text \<open>The values of the sequence loop, and their strings.\<close>

definition seq_values :: "(int \<Rightarrow> int \<Rightarrow> bool) \<Rightarrow> int \<Rightarrow> int \<Rightarrow> int \<Rightarrow> int list \<Rightarrow> bool" where
  "seq_values test y incr i vs \<longleftrightarrow> (\<forall>v \<in> set vs. test v y \<and> (\<exists>k. v = i + int k * incr))"

lemma seq_values_Cons:
  assumes "test i y" "seq_values test y incr (i + incr) vs"
  shows "seq_values test y incr i (i # vs)"
  unfolding seq_values_def
proof
  fix v
  assume "v \<in> set (i # vs)"
  then consider "v = i" | "v \<in> set vs" by auto
  then show "test v y \<and> (\<exists>k. v = i + int k * incr)"
  proof cases
    case 1
    then have "v = i + int 0 * incr" by simp
    with 1 assms(1) show ?thesis by blast
  next
    case 2
    with assms(2) obtain k where "test v y" "v = i + incr + int k * incr"
      unfolding seq_values_def by blast
    then have "test v y \<and> v = i + int (Suc k) * incr" by (simp add: algebra_simps)
    then show ?thesis by blast
  qed
qed

lemma seq_loop_values: "seq_loop test y incr i = Some vs \<Longrightarrow> seq_values test y incr i vs"
proof (rule seq_loop.raw_induct [of seq_values])
  fix loop test y incr i vs
  assume ih: "\<And>test y incr i vs. loop test y incr i = Some vs \<Longrightarrow> seq_values test y incr i vs"
    and eq: "(if test i y then Option.bind (loop test y incr (i + incr)) (\<lambda>is. Some (i # is))
      else Some []) = Some vs"
  show "seq_values test y incr i vs"
  proof (cases "test i y")
    case True
    with eq obtain zs where "loop test y incr (i + incr) = Some zs" "vs = i # zs"
      by (auto split: bind_splits)
    with ih True show ?thesis by (simp add: seq_values_Cons)
  next
    case False
    with eq show ?thesis by (simp add: seq_values_def)
  qed
qed

lemma seq_item_units:
  assumes "c \<in> set (seq_item a pad width i)" "\<not> a"
  shows "c = minus_unit \<or> is_digit c"
proof -
  have "is_digit zero_u" by (simp add: is_digit_def)
  moreover have "set (tl xs) \<subseteq> set xs" for xs :: jstring by (cases xs) auto
  ultimately show ?thesis using assms string_of_int_units [of c i]
    by (auto simp: seq_item_def Let_def split: if_splits)
qed

lemma is_int_letter: "is_letter c \<Longrightarrow> \<not> is_int [c]"
  unfolding is_int_def is_letter_def is_digit_def by (auto simp: word_le_def) 

lemma sequence_items_count:
  assumes "sequence_items (isAlphaSequence w) (dots w) = Returns N" "x \<in> set N"
  shows "count_list x close_u = 0"
proof -
  let ?n = "dots w"
  let ?x = "numeric (?n ! 0)" and ?y = "numeric (?n ! 1)"
  from assms obtain pad width test incr "is" v where
    loop: "seq_loop test ?y incr ?x = Some is" "v \<in> set is"
    and x: "x = seq_item (isAlphaSequence w) pad width v"
    and test: "test = lte \<and> 0 \<le> incr \<or> test = gte \<and> incr \<le> 0"
    unfolding sequence_items_def Let_def by (auto split: option.splits)
  from seq_loop_values [OF loop(1)] loop(2) obtain k
    where v: "test v ?y" "v = ?x + int k * incr"
    unfolding seq_values_def by blast
  show ?thesis
  proof (cases "isAlphaSequence w")
    case False
    have "close_u \<notin> set x"
    proof
      assume "close_u \<in> set x"
      from seq_item_units [OF this [unfolded x] False] show False by (simp add: is_digit_def)
    qed
    then show ?thesis by (simp add: count_list_0_iff)
  next
    case True
    then obtain c d ds where n: "?n = [c] # [d] # ds" "is_letter c" "is_letter d"
      by (auto simp: isAlphaSequence_def Let_def length_Suc_conv numeral_2_eq_2 numeral_3_eq_3)
    then have xy: "?x = uint c" "?y = uint d" by (simp_all add: numeric_def is_int_letter)
    have bounds: "65 \<le> uint c" "uint c \<le> 122" "65 \<le> uint d" "uint d \<le> 122"
      using n(2,3) by (auto simp: is_letter_def word_le_def)
    have "test = lte \<and> 0 \<le> int k * incr \<or> test = gte \<and> int k * incr \<le> 0"
      using test by (auto intro: mult_nonneg_nonpos)
    then have "65 \<le> v \<and> v \<le> 122"
      using v xy bounds by (auto simp: lte_def gte_def)
    then have "uint (word_of_int v :: unit16) = v" by (simp add: uint_word_of_int)
    with \<open>65 \<le> v \<and> v \<le> 122\<close> have "word_of_int v \<noteq> close_u" by auto
    then show ?thesis by (simp add: x seq_item_def True)
  qed
qed

lemma and_run_Returns: "and_run m f = Returns y \<longleftrightarrow> (\<exists>x. m = Returns x \<and> f x = Returns y)"
  by (cases m) simp_all

lemma concatMap_Returns:
  assumes "concatMap xs f = Returns ys" "y \<in> set ys"
  shows "\<exists>x \<in> set xs. \<exists>zs. f x = Returns zs \<and> y \<in> set zs"
  using assms
  by (induction xs arbitrary: ys) (auto simp: and_run_Returns)

lemma combine_elem:
  "x \<in> set (combine k pre N post) \<Longrightarrow> \<exists>n \<in> set N. \<exists>p \<in> set post. x = pre @ n @ p"
  by (auto simp: combine_def split: if_splits)

text \<open>
  An expanded string has at most as many closing braces as the string, and fewer when the
  expansion has not exactly one string.
\<close>

abbreviation closes :: "jstring \<Rightarrow> nat" where
  "closes x \<equiv> count_list x close_u"

definition few_closes :: "jstring \<Rightarrow> jstring list \<Rightarrow> bool" where
  "few_closes s es \<longleftrightarrow> (\<forall>x \<in> set es. closes x \<le> closes s \<and> (length es \<noteq> 1 \<longrightarrow> closes x < closes s))"

lemma few_closes_less: "(\<And>x. x \<in> set es \<Longrightarrow> closes x < closes s) \<Longrightarrow> few_closes s es"
  by (auto simp: few_closes_def less_imp_le)

lemma few_closes_combine:
  assumes "closes s = closes pre + closes body + 1 + closes post"
    and "\<And>x. x \<in> set N \<Longrightarrow> closes x \<le> closes body" "few_closes post ps"
  shows "few_closes s (combine k pre N ps)"
proof (rule few_closes_less)
  fix x
  assume "x \<in> set (combine k pre N ps)"
  then obtain n p where "n \<in> set N" "p \<in> set ps" "x = pre @ n @ p" using combine_elem by blast
  moreover have "closes n \<le> closes body" "closes p \<le> closes post"
    using assms(2,3) calculation by (auto simp: few_closes_def)
  ultimately show "closes x < closes s" using assms(1) by simp
qed

lemma parseCommaParts_closes: "x \<in> set (parseCommaParts s) \<Longrightarrow> closes x \<le> closes s"
  using parseCommaParts_count [of s] member_le_sum_list [of "closes x" "map closes (parseCommaParts s)"]
  by simp

lemma closes_embrace: "closes (embrace x) = closes x + 1"
  by (simp add: embrace_def)

lemma balanced_closes:
  assumes "balanced [open_u] [close_u] s = Some m"
  shows "closes s = closes (m_pre m) + closes (m_body m) + 1 + closes (m_post m)"
  by (subst balanced_braces [OF assms]) simp

lemma concatMap_closes:
  assumes "concatMap n (\<lambda>el. f el) = Returns N" "\<And>el. el \<in> set n \<Longrightarrow> closes el \<le> b"
    and "\<And>el es. f el = Returns es \<Longrightarrow> few_closes el es" "x \<in> set N"
  shows "closes x \<le> b"
proof -
  obtain el zs where "el \<in> set n" "f el = Returns zs" "x \<in> set zs"
    using concatMap_Returns [OF assms(1,4)] by blast
  with assms(2,3) show ?thesis unfolding few_closes_def by (meson order_trans)
qed

lemma expand_closes:
  assumes "brace_free rnd"
  shows "expand rnd n s t = Returns es \<Longrightarrow> few_closes s es"
proof (induction n arbitrary: s t es)
  case (Suc n)
  show ?case
  proof (cases "balanced [open_u] [close_u] s")
    case (Some m)
    note c = balanced_closes [OF Some]
    let ?post = "if m_post m \<noteq> [] then expand rnd n (m_post m) False else Returns [[]]"
    let ?seq = "isNumericSequence (m_body m) \<or> isAlphaSequence (m_body m)"
    let ?finish = "\<lambda>n'. and_run ?post (\<lambda>post. and_run (concatMap n' (\<lambda>el. expand rnd n el False))
        (\<lambda>N. Returns (combine (\<not> t) (m_pre m) N post)))"
    have post: "few_closes (m_post m) ps" if "?post = Returns ps" for ps
      using that Suc.IH by (auto simp: few_closes_def split: if_splits)
    have finish: "few_closes s es"
      if f: "?finish n' = Returns es" and n': "\<And>x. x \<in> set n' \<Longrightarrow> closes x \<le> closes (m_body m)" for n'
    proof -
      from f obtain ps N where ps: "?post = Returns ps"
        and N: "concatMap n' (\<lambda>el. expand rnd n el False) = Returns N"
        and es: "es = combine (\<not> t) (m_pre m) N ps"
        unfolding and_run_Returns by blast
      have "closes x \<le> closes (m_body m)" if "x \<in> set N" for x
        using concatMap_closes [OF N n' Suc.IH that] .
      then show ?thesis unfolding es by (rule few_closes_combine [OF c _ post [OF ps]])
    qed
    let ?parts = "parseCommaParts (m_body m)"
    consider
        (same) "es = [s]"
      | (again) "expand rnd n (m_pre m @ [open_u] @ m_body m @ esc rnd Close @ m_post m) False = Returns es"
      | (seq) ps N where "?post = Returns ps"
          "sequence_items (isAlphaSequence (m_body m)) (dots (m_body m)) = Returns N"
          "es = combine True (m_pre m) N ps"
      | (options) "?finish ?parts = Returns es"
      | (nested) e where "length ?parts = 1" "expand rnd n (?parts ! 0) False = Returns e"
          "length e \<noteq> 1" "?finish (map embrace e) = Returns es"
      | (single) e ps where "length ?parts = 1" "expand rnd n (?parts ! 0) False = Returns e"
          "length e = 1" "?post = Returns ps" "es = map (\<lambda>p. m_pre m @ embrace (e ! 0) @ p) ps"
    proof -
      consider "es = [s]"
        | "\<not> ?seq" "expand rnd n (m_pre m @ [open_u] @ m_body m @ esc rnd Close @ m_post m) False = Returns es"
        | "?seq" "and_run ?post (\<lambda>post.
             and_run (sequence_items (isAlphaSequence (m_body m)) (dots (m_body m))) (\<lambda>N.
             Returns (combine True (m_pre m) N post))) = Returns es"
        | "length ?parts \<noteq> 1" "?finish ?parts = Returns es"
        | "length ?parts = 1" "and_run (expand rnd n (?parts ! 0) False) (\<lambda>e.
             let n' = map embrace e in if length n' = 1
             then and_run ?post (\<lambda>post. Returns (map (\<lambda>p. m_pre m @ n' ! 0 @ p) post))
             else ?finish n') = Returns es"
      proof -
        note eq = Suc.prems [unfolded expand.simps Some option.case Let_def]
        let ?A = "m_pre m \<noteq> [] \<and> last (m_pre m) = dollar_u"
        let ?B = "\<not> ?seq \<and> comma_u \<notin> set (m_body m)"
        let ?C = "comma_then_brace (m_post m)"
        consider ?A | "\<not> ?A" ?B ?C | "\<not> ?A" ?B "\<not> ?C" | "\<not> ?A" "\<not> ?B" ?seq
          | "\<not> ?A" "\<not> ?B" "\<not> ?seq" "length ?parts = 1" | "\<not> ?A" "\<not> ?B" "\<not> ?seq" "length ?parts \<noteq> 1"
          by argo
        then show thesis
        proof cases
          case 1
          from eq [unfolded if_P [OF 1]] that(1) show thesis by simp
        next
          case 2
          from eq [unfolded if_not_P [OF 2(1)] if_P [OF 2(2)] if_P [OF 2(3)]] 2(2) that(2)
          show thesis by blast
        next
          case 3
          from eq [unfolded if_not_P [OF 3(1)] if_P [OF 3(2)] if_not_P [OF 3(3)]] that(1)
          show thesis by simp
        next
          case 4
          from eq [unfolded if_not_P [OF 4(1)] if_not_P [OF 4(2)] if_P [OF 4(3)]]
          show thesis by (rule that(3) [OF 4(3)])
        next
          case 5
          from eq [unfolded if_not_P [OF 5(1)] if_not_P [OF 5(2)] if_not_P [OF 5(3)] if_P [OF 5(4)]]
          show thesis by (rule that(5) [OF 5(4), unfolded Let_def])
        next
          case 6
          from eq [unfolded if_not_P [OF 6(1)] if_not_P [OF 6(2)] if_not_P [OF 6(3)] if_not_P [OF 6(4)]]
          show thesis by (rule that(4) [OF 6(4)])
        qed
      qed
      then show thesis
      proof cases
        case 3
        then show thesis using that(3) unfolding and_run_Returns by blast
      next
        case 5
        then obtain e where e: "expand rnd n (?parts ! 0) False = Returns e"
          "(if length e = 1 then and_run ?post (\<lambda>post. Returns (map (\<lambda>p. m_pre m @ map embrace e ! 0 @ p) post))
             else ?finish (map embrace e)) = Returns es"
          unfolding and_run_Returns by (auto simp: Let_def)
        show thesis
        proof (cases "length e = 1")
          case True
          with e obtain ps where "?post = Returns ps" "es = map (\<lambda>p. m_pre m @ embrace (e ! 0) @ p) ps"
            by (auto simp: and_run_Returns)
          with that(6) [OF 5(1) e(1) True] show thesis by blast
        next
          case False
          with that(5) [OF 5(1) e(1) False] e show thesis by simp
        qed
      qed (use that in blast)+
    qed
    then show ?thesis
    proof cases
      case same
      then show ?thesis by (simp add: few_closes_def)
    next
      case again
      have "closes (m_pre m @ [open_u] @ m_body m @ esc rnd Close @ m_post m) < closes s"
        using c brace_free_esc [OF assms] by simp
      with Suc.IH [OF again] show ?thesis by (force simp: few_closes_def)
    next
      case (seq ps N)
      have "closes x \<le> closes (m_body m)" if "x \<in> set N" for x
        using sequence_items_count [OF seq(2) that] by simp
      with few_closes_combine [OF c _ post [OF seq(1)]] seq(3) show ?thesis by blast
    next
      case options
      then show ?thesis by (rule finish) (rule parseCommaParts_closes)
    next
      case (nested e)
      have "?parts ! 0 \<in> set ?parts" by simp
      with parseCommaParts_closes have "closes (?parts ! 0) \<le> closes (m_body m)" by blast
      moreover have "few_closes (?parts ! 0) e" using nested(2) by (rule Suc.IH)
      ultimately show ?thesis
        using nested(3) by (intro finish [OF nested(4)]) (force simp: few_closes_def closes_embrace)
    next
      case (single e ps)
      have "?parts ! 0 \<in> set ?parts" by simp
      with parseCommaParts_closes have "closes (?parts ! 0) \<le> closes (m_body m)" by blast
      moreover have "closes (e ! 0) \<le> closes (?parts ! 0)"
        using Suc.IH [OF single(2)] single(3) by (cases e) (auto simp: few_closes_def)
      ultimately show ?thesis using post [OF single(4)] single(5) c
        by (force simp: few_closes_def closes_embrace)
    qed
  qed (use Suc.prems in \<open>auto simp: few_closes_def\<close>)
qed simp

lemma expand_fuel:
  assumes "brace_free rnd"
  shows "closes s < n \<Longrightarrow> expand rnd n s t \<noteq> Out_of_fuel"
proof (induction n arbitrary: s t)
  case (Suc n)
  show ?case
  proof (cases "balanced [open_u] [close_u] s")
    case (Some m)
    note c = balanced_closes [OF Some]
    note fuel = Suc.IH and bound = Suc.prems
    let ?post = "if m_post m \<noteq> [] then expand rnd n (m_post m) False else Returns [[]]"
    let ?finish = "\<lambda>n'. and_run ?post (\<lambda>post. and_run (concatMap n' (\<lambda>el. expand rnd n el False))
        (\<lambda>N. Returns (combine (\<not> t) (m_pre m) N post)))"
    let ?parts = "parseCommaParts (m_body m)"
    have post: "?post \<noteq> Out_of_fuel" using fuel c bound by simp
    have part: "closes x \<le> closes (m_body m)" if "x \<in> set ?parts" for x
      using that by (rule parseCommaParts_closes)
    have finish: "?finish n' \<noteq> Out_of_fuel"
      if "\<And>x. x \<in> set n' \<Longrightarrow> closes x \<le> closes (m_body m)" for n'
    proof -
      have "expand rnd n el False \<noteq> Out_of_fuel" if "el \<in> set n'" for el
        using \<open>\<And>x. x \<in> set n' \<Longrightarrow> closes x \<le> closes (m_body m)\<close> [OF that] fuel c bound by simp
      then show ?thesis by (intro and_run_fuel post concatMap_fuel) simp_all
    qed
    have nested: "?finish (map embrace e) \<noteq> Out_of_fuel"
      if "expand rnd n (?parts ! 0) False = Returns e" "length e \<noteq> 1" for e
    proof (rule finish)
      have "few_closes (?parts ! 0) e" using assms that(1) by (rule expand_closes)
      moreover have "closes (?parts ! 0) \<le> closes (m_body m)" by (rule part) simp
      moreover fix x
      assume "x \<in> set (map embrace e)"
      ultimately show "closes x \<le> closes (m_body m)"
        using that(2) by (force simp: few_closes_def closes_embrace)
    qed
    have first: "expand rnd n (?parts ! 0) False \<noteq> Out_of_fuel"
      using part [of "?parts ! 0"] fuel c bound by simp
    have again: "expand rnd n (m_pre m @ [open_u] @ m_body m @ esc rnd Close @ m_post m) False \<noteq> Out_of_fuel"
      using fuel c bound brace_free_esc [OF assms] by simp
    have seq: "and_run ?post (\<lambda>post.
         and_run (sequence_items (isAlphaSequence (m_body m)) (dots (m_body m))) (\<lambda>N.
         Returns (combine True (m_pre m) N post))) \<noteq> Out_of_fuel"
      by (intro and_run_fuel post sequence_items_fuel) simp_all
    have one: "and_run (expand rnd n (?parts ! 0) False) (\<lambda>e.
         let n' = map embrace e in if length n' = 1
         then and_run ?post (\<lambda>post. Returns (map (\<lambda>p. m_pre m @ n' ! 0 @ p) post))
         else ?finish n') \<noteq> Out_of_fuel"
    proof (intro and_run_fuel first)
      fix e
      assume e: "expand rnd n (?parts ! 0) False = Returns e"
      show "(let n' = map embrace e in if length n' = 1
         then and_run ?post (\<lambda>post. Returns (map (\<lambda>p. m_pre m @ n' ! 0 @ p) post))
         else ?finish n') \<noteq> Out_of_fuel"
        unfolding Let_def length_map using nested [OF e] and_run_fuel [OF post]
        by (metis outcome.distinct(3))
    qed
    show ?thesis
      unfolding expand.simps Some option.case Let_def
      by (intro if_neq again seq one [unfolded Let_def] finish part) simp_all
  qed simp
qed simp

text \<open>
  C16: The recursion of \<open>expand\<close> is bounded by the number of closing braces: on any string, with
  any random numbers in the escape marks, the only way not to return is a sequence loop that does
  not end.
\<close>

theorem expandTop_fuel:
  assumes "brace_free rnd"
  shows "expandTop rnd str \<noteq> Out_of_fuel"
  unfolding expandTop_def Let_def
  by (intro if_neq and_run_fuel expand_fuel assms) simp_all

section \<open>Sequences and sets\<close>

lemma seq_loop_up: "seq_loop lte y 1 x = Some [x..y]"
proof (induction "nat (y - x + 1)" arbitrary: x)
  case 0
  then show ?case by (subst seq_loop.simps) (simp add: lte_def)
next
  case (Suc n)
  then have "seq_loop lte y 1 (x + 1) = Some [x + 1..y]" by simp
  moreover have "x \<le> y" using Suc.hyps(2) by simp
  ultimately show ?case by (subst seq_loop.simps) (simp add: lte_def upto_rec1)
qed

lemma seq_loop_down: "seq_loop gte y (-1) x = Some (rev [y..x])"
proof (induction "nat (x - y + 1)" arbitrary: x)
  case 0
  then show ?case by (subst seq_loop.simps) (simp add: gte_def)
next
  case (Suc n)
  then have "seq_loop gte y (-1) (x + (-1)) = Some (rev [y..x - 1])" by simp
  moreover have "y \<le> x" using Suc.hyps(2) by simp
  ultimately show ?case by (subst seq_loop.simps) (simp add: gte_def upto_rec2)
qed

definition never_zero :: "(int \<Rightarrow> int \<Rightarrow> bool) \<Rightarrow> int \<Rightarrow> int \<Rightarrow> int \<Rightarrow> int list \<Rightarrow> bool" where
  "never_zero test y incr i vs \<longleftrightarrow> \<not> (incr = 0 \<and> test i y)"

lemma seq_loop_zero: "test x y \<Longrightarrow> seq_loop test y 0 x = None"
proof (rule ccontr)
  assume "test x y" "seq_loop test y 0 x \<noteq> None"
  then obtain vs where "seq_loop test y 0 x = Some vs" by auto
  then have "never_zero test y 0 x vs"
  proof (rule seq_loop.raw_induct [of never_zero, rotated])
    fix loop test y incr i vs
    assume ih: "\<And>test y incr i vs. loop test y incr i = Some vs \<Longrightarrow> never_zero test y incr i vs"
      and eq: "(if test i y then Option.bind (loop test y incr (i + incr)) (\<lambda>is. Some (i # is))
        else Some []) = Some vs"
    show "never_zero test y incr i vs"
    proof (rule ccontr)
      assume "\<not> never_zero test y incr i vs"
      then have "incr = 0" "test i y" by (simp_all add: never_zero_def)
      with eq obtain zs where "loop test y incr i = Some zs" by (auto split: bind_splits)
      with ih have "never_zero test y incr i zs" by blast
      with \<open>incr = 0\<close> \<open>test i y\<close> show False by (simp add: never_zero_def)
    qed
  qed
  with \<open>test x y\<close> show False by (simp add: never_zero_def)
qed

text \<open>One set of braces whose body holds no brace.\<close>

lemma scan_skip:
  "p \<notin> set w \<Longrightarrow> q \<notin> set w \<Longrightarrow>
    scan p q pos (w @ cs) begs best = scan p q (pos + int (length w)) cs begs best"
  by (induction w arbitrary: pos) (auto simp: add_ac)

lemma balanced_single:
  assumes "p \<noteq> q" "p \<notin> set u" "p \<notin> set w" "q \<notin> set w"
  shows "balanced [p] [q] (u @ p # w @ q # t) = Some \<lparr>m_start = int (length u),
    m_end = int (length u + length w + 1), m_pre = u, m_body = w, m_post = t\<rparr>"
proof -
  have "\<And>x. x \<in> set u \<Longrightarrow> x \<noteq> p" using assms(2) by auto
  then have "takeWhile (\<lambda>x. x \<noteq> p) (u @ p # w @ q # t) = u"
    "dropWhile (\<lambda>x. x \<noteq> p) (u @ p # w @ q # t) = p # w @ q # t"
    by (simp_all add: takeWhile_append dropWhile_append)
  moreover have "scan p q (int (length u)) (p # w @ q # t) [] best =
      Some (int (length u), int (length u) + 1 + int (length w))" for best
    using assms by (simp add: scan_skip)
  ultimately have "balanced_range [p] [q] (u @ p # w @ q # t) =
      Some (int (length u), int (length u) + 1 + int (length w))"
    using assms(1) by (simp add: balanced_range_scan Let_def)
  then show ?thesis by (simp add: balanced_def slice_def nat_add_distrib)
qed

lemma escapeBraces_plain: "slash_u \<notin> set s \<Longrightarrow> escapeBraces rnd s = s"
  by (simp add: escapeBraces_def replace_all_absent)

lemma unescapeBraces_plain: "0 \<notin> set s \<Longrightarrow> unescapeBraces rnd s = s"
  by (simp add: unescapeBraces_def replace_all_absent esc_def)

definition seq_unit :: "unit16 \<Rightarrow> bool" where
  "seq_unit c \<longleftrightarrow> c = minus_unit \<or> is_digit c"

lemma seq_unit_not:
  "seq_unit c \<Longrightarrow> c \<noteq> open_u \<and> c \<noteq> close_u \<and> c \<noteq> period_u \<and> c \<noteq> slash_u \<and> c \<noteq> 0 \<and> \<not> is_letter c"
  unfolding seq_unit_def is_digit_def is_letter_def by (auto simp: word_le_def)

lemma string_of_int_free:
  "open_u \<notin> set (string_of_int i)" "close_u \<notin> set (string_of_int i)"
  "period_u \<notin> set (string_of_int i)" "slash_u \<notin> set (string_of_int i)" "0 \<notin> set (string_of_int i)"
  using string_of_int_units seq_unit_not unfolding seq_unit_def by blast+

lemma string_of_int_not_Nil [simp]: "string_of_int i \<noteq> []"
  by (simp add: string_of_int_def)

lemma not_isPadded: "\<not> isPadded (string_of_int i)"
proof (cases "i = 0")
  case True
  then show ?thesis by (simp add: string_of_int_def isPadded_def digit_unit_def)
next
  case False
  let ?ds = "digits (nat \<bar>i\<bar>)"
  obtain d ds where ds: "?ds = d # ds" by (cases ?ds) simp_all
  have "d < 10" "d \<noteq> 0" using digits_less [of d "nat \<bar>i\<bar>"] digits_hd [of "nat \<bar>i\<bar>"] ds False by simp_all
  then have "digit_unit d \<noteq> zero_u" "digit_unit d \<noteq> minus_unit"
    using digit_unit_digit [of d] by auto
  then show ?thesis by (simp add: isPadded_def string_of_int_def ds Let_def)
qed

text \<open>The body \<open>i..j\<close>, with the parts \<open>ps\<close> that follow.\<close>

definition seq_body :: "int list \<Rightarrow> jstring" where
  "seq_body is = join [period_u, period_u] (map string_of_int is)"

lemma dots_seq_body: "is \<noteq> [] \<Longrightarrow> dots (seq_body is) = map string_of_int is"
proof (induction "is" rule: induct_list012)
  case (2 i)
  then show ?case by (simp add: dots_def seq_body_def split_on_absent string_of_int_free)
next
  case (3 i j ks)
  then have "dots (seq_body (j # ks)) = map string_of_int (j # ks)" by simp
  then show ?case
    using split_on_here [of "[period_u, period_u]" "string_of_int i" "seq_body (j # ks)"]
    by (simp add: dots_def seq_body_def string_of_int_free)
qed simp

lemma seq_body_units: "c \<in> set (seq_body is) \<Longrightarrow> seq_unit c \<or> c = period_u"
proof (induction "is" rule: induct_list012)
  case (3 i j ks)
  then show ?case using string_of_int_units [of c i] by (auto simp: seq_body_def seq_unit_def)
qed (use string_of_int_units in \<open>auto simp: seq_body_def seq_unit_def\<close>)

lemma numeric_string_of_int: "numeric (string_of_int i) = i"
  using int_of_string_of_int [of i] by (simp add: numeric_def)

lemma not_isAlphaSequence: "\<not> isAlphaSequence (seq_body (i # is))"
proof -
  have "\<not> is_letter (hd (string_of_int i))"
    using string_of_int_units [OF hd_in_set [OF string_of_int_not_Nil]] seq_unit_not
    unfolding seq_unit_def by blast
  then show ?thesis by (cases "is") (simp_all add: isAlphaSequence_def dots_seq_body Let_def)
qed

lemma expand_sequence:
  assumes "length is = 2 \<or> length is = 3"
  shows "expand rnd 2 ([open_u] @ seq_body is @ [close_u]) t = sequence_items False (map string_of_int is)"
proof -
  have free: "open_u \<notin> set (seq_body is)" "close_u \<notin> set (seq_body is)"
    using seq_body_units seq_unit_not by fastforce+
  obtain i ks where "is": "is = i # ks" using assms by (cases "is") auto
  then have num: "isNumericSequence (seq_body is)"
    using assms int_of_string_of_int
    by (auto simp: isNumericSequence_def dots_seq_body list_all_iff Let_def)
  have "balanced [open_u] [close_u] ([open_u] @ seq_body is @ [close_u]) = Some \<lparr>m_start = 0,
      m_end = int (length (seq_body is) + 1), m_pre = [], m_body = seq_body is, m_post = []\<rparr>"
    using balanced_single [of open_u close_u "[]" "seq_body is" "[]"] free by simp
  moreover have "combine True [] N [[]] = N" for N
    by (simp add: combine_def)
  ultimately show ?thesis
    using num not_isAlphaSequence [of i ks] "is" assms
    by (simp add: numeral_2_eq_2 dots_seq_body)
qed

lemma sequence_items_ints:
  assumes "length is = 2 \<or> length is = 3"
  shows "sequence_items False (map string_of_int is) =
    (let x = is ! 0; y = is ! 1; incr = (if length is = 3 then \<bar>is ! 2\<bar> else 1) in
     case seq_loop (if y < x then gte else lte) y (if y < x then - incr else incr) x of
       None \<Rightarrow> Diverges | Some vs \<Rightarrow> Returns (map string_of_int vs))"
proof -
  have "seq_item False False w = string_of_int" for w by (simp add: seq_item_def Let_def fun_eq_iff)
  moreover have "list_ex isPadded (map string_of_int is) = False"
    by (simp add: list_ex_iff not_isPadded)
  ultimately show ?thesis
    using assms
    by (auto simp: sequence_items_def numeric_string_of_int Let_def cong: option.case_cong)
qed

lemma expandTop_sequence_items:
  assumes "length is = 2 \<or> length is = 3"
  shows "expandTop rnd ([open_u] @ seq_body is @ [close_u]) =
    and_run (sequence_items False (map string_of_int is)) (\<lambda>es. Returns (map (unescapeBraces rnd) es))"
proof -
  let ?s = "[open_u] @ seq_body is @ [close_u]"
  obtain i j ks where "is": "is = i # j # ks"
    using assms by (cases "is"; cases "tl is") auto
  have "close_u \<notin> set (seq_body is)" "slash_u \<notin> set (seq_body is)"
    using seq_body_units seq_unit_not by fastforce+
  then have "closes ?s = 1" "escapeBraces rnd ?s = ?s"
    by (simp_all add: count_list_0_iff escapeBraces_plain)
  moreover have "take 2 ?s \<noteq> [open_u, close_u]"
  proof -
    have "hd (seq_body is) \<in> set (seq_body is)" by (simp add: "is" seq_body_def)
    with \<open>close_u \<notin> set (seq_body is)\<close> show ?thesis by (cases "seq_body is") auto
  qed
  ultimately show ?thesis
    using expand_sequence [OF assms, of rnd True]
    by (simp del: expand.simps add: expandTop_def Let_def numeral_2_eq_2)
qed

text \<open>
  \<open>{i..j}\<close> expands to the integers from \<open>i\<close> to \<open>j\<close>, upwards or downwards, both ends included.
\<close>

theorem expandTop_sequence:
  "expandTop rnd ([open_u] @ string_of_int i @ [period_u, period_u] @ string_of_int j @ [close_u]) =
    Returns (map string_of_int (if i \<le> j then [i..j] else rev [j..i]))"
proof -
  have "unescapeBraces rnd (string_of_int v) = string_of_int v" for v
    by (simp add: unescapeBraces_plain string_of_int_free)
  then show ?thesis
    using expandTop_sequence_items [of "[i, j]" rnd] sequence_items_ints [of "[i, j]"]
    by (simp add: seq_body_def seq_loop_up seq_loop_down Let_def)
qed

text \<open>
  A sequence with the step 0, such as \<open>{1..3..0}\<close>, makes the expansion loop for ever.
\<close>

theorem expandTop_zero_step:
  "expandTop rnd ([open_u] @ string_of_int i @ [period_u, period_u] @ string_of_int j @
    [period_u, period_u, zero_u, close_u]) = Diverges"
proof -
  have zero: "string_of_int 0 = [zero_u]" by (simp add: string_of_int_def digit_unit_def)
  have "j < i \<Longrightarrow> seq_loop gte j 0 i = None" "\<not> j < i \<Longrightarrow> seq_loop lte j 0 i = None"
    by (simp_all add: seq_loop_zero gte_def lte_def)
  then show ?thesis
    using expandTop_sequence_items [of "[i, j, 0]" rnd] sequence_items_ints [of "[i, j, 0]"]
    by (simp add: seq_body_def Let_def zero)
qed

text \<open>A set of parts without special characters.\<close>

definition plain :: "jstring \<Rightarrow> bool" where
  "plain s \<longleftrightarrow> list_all (\<lambda>c. c \<notin> {0, slash_u, open_u, close_u, comma_u, dollar_u}) s"

lemma plain_free:
  "plain s \<Longrightarrow> 0 \<notin> set s \<and> slash_u \<notin> set s \<and> open_u \<notin> set s \<and> close_u \<notin> set s \<and> comma_u \<notin> set s \<and>
    dollar_u \<notin> set s"
  by (auto simp: plain_def list_all_iff)

lemma plain_append: "plain (a @ b) \<longleftrightarrow> plain a \<and> plain b"
  by (simp add: plain_def)

lemma set_join: "set (join d xs) \<subseteq> set d \<union> (\<Union>x \<in> set xs. set x)"
  by (induction d xs rule: join.induct) auto

lemma comma_in_join: "2 \<le> length ps \<Longrightarrow> comma_u \<in> set (join [comma_u] ps)"
  by (induction ps rule: induct_list012) auto

lemma comma_not_sequence:
  assumes "comma_u \<in> set w"
  shows "\<not> isNumericSequence w \<and> \<not> isAlphaSequence w"
proof -
  have "set w \<subseteq> {period_u} \<union> (\<Union>x \<in> set (dots w). set x)"
    using set_join [of "[period_u, period_u]" "dots w"] by (simp add: dots_def join_split_on)
  with assms obtain x where x: "x \<in> set (dots w)" "comma_u \<in> set x" by auto
  have "\<not> is_digit comma_u" by (simp add: is_digit_def)
  then have int: "\<not> is_int x" if "comma_u \<in> set x" for x
    using that by (auto simp: is_int_def list_all_iff split: list.splits if_splits)
  have letter: "\<not> (length x = 1 \<and> is_letter (hd x))"
    using x(2) by (auto simp: length_Suc_conv is_letter_def)
  have "x \<in> set (take 2 (dots w)) \<or> x \<in> set (drop 2 (dots w))"
    using x(1) by (metis append_take_drop_id Un_iff set_append)
  with int [OF x(2)] letter x(1) show ?thesis
    by (auto simp: isNumericSequence_def isAlphaSequence_def list_all_iff Let_def)
qed

lemma balanced_none: "open_u \<notin> set s \<Longrightarrow> balanced [open_u] [close_u] s = None"
proof -
  assume a: "open_u \<notin> set s"
  have "dropWhile (\<lambda>x. x \<noteq> open_u) s = []"
    unfolding dropWhile_eq_Nil_conv using a by blast
  then show ?thesis by (simp add: balanced_def balanced_range_scan Let_def del: dropWhile_eq_Nil_conv)
qed

lemma expand_plain: "plain s \<Longrightarrow> expand rnd (Suc n) s t = Returns [s]"
  using plain_free by (simp add: balanced_none)

lemma concatMap_single: "(\<And>x. x \<in> set xs \<Longrightarrow> f x = Returns [x]) \<Longrightarrow> concatMap xs f = Returns xs"
  by (induction xs) simp_all

lemma parseCommaParts_plain:
  assumes "ps \<noteq> []" "list_all plain ps"
  shows "parseCommaParts (join [comma_u] ps) = ps"
proof -
  have free: "c \<notin> set (join [comma_u] ps)" if "c \<in> {open_u, close_u, slash_u}" for c
    using that set_join [of "[comma_u]" ps] assms(2) plain_free by (fastforce simp: list_all_iff)
  have "split_on [comma_u] (join [comma_u] ps) = ps"
    using assms plain_free by (intro split_on_join) (auto simp: list_all_iff)
  then show ?thesis
    using free balanced_none
    by (cases "join [comma_u] ps = []") (simp_all add: parseCommaParts.simps [of "join [comma_u] ps"] split_on.simps [of "[comma_u]" "[]"])
qed

text \<open>
  \<open>pre{a,b,...}post\<close> with at least two parts and no special character in \<open>pre\<close>, \<open>post\<close> and
  the parts expands to \<open>pre a post\<close>, \<open>pre b post\<close>, and so on, in order; only an empty result is
  left out.
\<close>

theorem expandTop_options:
  assumes "2 \<le> length ps" "list_all plain (pre # post # ps)"
  shows "expandTop rnd (pre @ [open_u] @ join [comma_u] ps @ [close_u] @ post) =
    Returns (filter (\<lambda>e. e \<noteq> []) (map (\<lambda>p. pre @ p @ post) ps))"
proof -
  let ?w = "join [comma_u] ps"
  let ?s = "pre @ [open_u] @ ?w @ [close_u] @ post"
  have pl: "plain pre" "plain post" "\<And>p. p \<in> set ps \<Longrightarrow> plain p"
    using assms(2) by (simp_all add: list_all_iff)
  have free: "c \<notin> set ?w" if "c \<in> {open_u, close_u, slash_u}" for c
    using that set_join [of "[comma_u]" ps] pl(3) plain_free by fastforce
  have closes: "closes ?s = 1"
    using free plain_free pl(1,2) by (simp add: count_list_0_iff)
  have esc: "escapeBraces rnd ?s = ?s"
    using free plain_free pl(1,2) by (intro escapeBraces_plain) auto
  have comma: "comma_u \<in> set ?w" using assms(1) by (rule comma_in_join)
  have top: "take 2 ?s \<noteq> [open_u, close_u]"
  proof (cases pre)
    case Nil
    obtain d ds where w: "?w = d # ds" using comma by (cases ?w) simp_all
    then have "d \<noteq> close_u" using free [of close_u] by simp
    then show ?thesis by (simp add: Nil w)
  next
    case (Cons c cs)
    then have "c \<noteq> open_u" using plain_free [OF pl(1)] by simp
    then show ?thesis by (simp add: Cons)
  qed
  have bal: "balanced [open_u] [close_u] ?s = Some \<lparr>m_start = int (length pre),
      m_end = int (length pre + length ?w + 1), m_pre = pre, m_body = ?w, m_post = post\<rparr>"
    using balanced_single [of open_u close_u pre ?w post] free plain_free pl(1) by simp
  have dollar: "\<not> (pre \<noteq> [] \<and> last pre = dollar_u)"
    using plain_free [OF pl(1)] last_in_set [of pre] by metis
  have parts: "parseCommaParts ?w = ps"
    using assms by (intro parseCommaParts_plain) auto
  have N: "concatMap ps (\<lambda>el. expand rnd (Suc 0) el False) = Returns ps"
    using pl(3) expand_plain by (intro concatMap_single) blast
  have post: "(if post \<noteq> [] then expand rnd (Suc 0) post False else Returns [[]]) = Returns [post]"
    using expand_plain [OF pl(2)] by (simp del: expand.simps)
  have "expand rnd (Suc (Suc 0)) ?s True = Returns (combine False pre ps [post])"
    unfolding expand.simps(2) [of rnd "Suc 0"] bal option.case balanced_match.simps Let_def
    unfolding if_not_P [OF dollar]
    using comma comma_not_sequence [OF comma] parts N post assms(1) by (simp del: expand.simps)
  moreover have "combine False pre ps [post] = filter (\<lambda>e. e \<noteq> []) (map (\<lambda>p. pre @ p @ post) ps)"
    unfolding combine_def by (induction ps) auto
  moreover have "map (unescapeBraces rnd) (filter (\<lambda>e. e \<noteq> []) (map (\<lambda>p. pre @ p @ post) ps)) =
      filter (\<lambda>e. e \<noteq> []) (map (\<lambda>p. pre @ p @ post) ps)"
  proof (rule map_idI)
    fix e
    assume "e \<in> set (filter (\<lambda>e. e \<noteq> []) (map (\<lambda>p. pre @ p @ post) ps))"
    then obtain p where "p \<in> set ps" "e = pre @ p @ post" by auto
    then show "unescapeBraces rnd e = e"
      using pl plain_free by (intro unescapeBraces_plain) auto
  qed
  ultimately show ?thesis
    using closes esc top by (simp del: expand.simps add: expandTop_def Let_def)
qed

theorem expandTop_fuel_witness:
  "expandTop (\<lambda>m. js ''0.5'') (js ''{{a,b},c}}'') \<noteq> Out_of_fuel"
  by (rule expandTop_fuel) (simp add: brace_free_def js_def of_char_of)

theorem expandTop_options_witness:
  "expandTop (\<lambda>_. js ''0.5'') (js ''x'' @ [open_u] @ join [comma_u] [js ''a'', [], js ''c''] @ [close_u] @ js ''y'')
    = Returns [js ''xay'', js ''xy'', js ''xcy'']"
  by (subst expandTop_options) (simp_all add: plain_def js_def of_char_of)

end
