(* ===== verification/Glob_Parse.thy ===== *)
theory Glob_Parse
  imports Glob_Match Brace_Expansion
begin

text \<open>
  Compilation of glob patterns in the bundled \<open>minimatch\<close> module of \<open>wordcut.js\<close>: the character
  by character translation of one path part into a regular expression (\<open>parse\<close>), the
  construction of a \<open>Minimatch\<close> object (\<open>make\<close>) and the functions of the module around it.
\<close>

section \<open>The state of the translation\<close>

record pattern_list =
  pl_type :: unit16
  pl_start :: int
  pl_reStart :: nat
  pl_open :: jstring
  pl_close :: jstring
  pl_reEnd :: nat

text \<open>The variables of \<open>parse\<close>; the stack is kept with its top first, \<open>stateChar\<close> is false as \<open>None\<close>.\<close>

record parse_state =
  re :: jstring
  hasMagic :: bool
  escaping :: bool
  patternListStack :: "pattern_list list"
  negativeLists :: "pattern_list list"
  stateChar :: "unit16 option"
  inClass :: bool
  reClassStart :: int
  classStart :: int

text \<open>A backslash and a character; \<open>plTypes\<close>, \<open>reSpecials\<close> and the texts for the wild cards.\<close>

definition bs :: "unit16 \<Rightarrow> jstring" where
  "bs c = [slash_u, c]"

definition star :: jstring where "star = js ''[^/]*?''"
definition qmark :: jstring where "qmark = js ''[^/]''"
definition twoStarDot :: jstring where
  "twoStarDot = js ''(?:(?!(?:'' @ bs 47 @ js ''|^)(?:'' @ bs 46 @ js ''{1,2})($|'' @ bs 47 @ js '')).)*?''"
definition twoStarNoDot :: jstring where
  "twoStarNoDot = js ''(?:(?!(?:'' @ bs 47 @ js ''|^)'' @ bs 46 @ js '').)*?''"

definition plTypes_open :: "unit16 \<Rightarrow> jstring" where
  "plTypes_open c = (if c = 33 then js ''(?:(?!(?:'' else js ''(?:'')"

definition plTypes_close :: "unit16 \<Rightarrow> jstring" where
  "plTypes_close c =
     (if c = 33 then js ''))[^/]*?)''
      else if c = 63 then js '')?''
      else if c = 43 then js '')+''
      else if c = 42 then js '')*''
      else js '')'')"

definition reSpecials :: "unit16 \<Rightarrow> bool" where
  "reSpecials c \<longleftrightarrow> c \<in> set (slash_u # js ''().*{}+?[]^$!'')"

definition clearStateChar :: "parse_state \<Rightarrow> parse_state" where
  "clearStateChar st =
     (case stateChar st of
        None \<Rightarrow> st
      | Some c \<Rightarrow>
          if c = 42 then st\<lparr>re := re st @ star, hasMagic := True, stateChar := None\<rparr>
          else if c = 63 then st\<lparr>re := re st @ qmark, hasMagic := True, stateChar := None\<rparr>
          else st\<lparr>re := re st @ bs c, stateChar := None\<rparr>)"

section \<open>One character\<close>

text \<open>
  \<open>sp[0]\<close> and \<open>sp[1]\<close> of the value of a nested call: \<open>undefined\<close>, which is the text
  \<open>undefined\<close> in a concatenation and false as a flag, when the call did not return a pair.
\<close>

fun sub_re :: "part \<Rightarrow> jstring" where
  "sub_re (SubParse r m) = r"
| "sub_re _ = js ''undefined''"

fun sub_magic :: "part \<Rightarrow> bool" where
  "sub_magic (SubParse r m) = m"
| "sub_magic _ = False"

definition add_re :: "jstring \<Rightarrow> parse_state \<Rightarrow> parse_state" where
  "add_re s st = st\<lparr>re := re st @ s\<rparr>"

definition state_char :: "options \<Rightarrow> int \<Rightarrow> unit16 \<Rightarrow> parse_state \<Rightarrow> parse_state" where
  "state_char options i c st =
     (if inClass st then add_re [if c = 33 \<and> i = classStart st + 1 then 94 else c] st
      else
        let st = (clearStateChar st)\<lparr>stateChar := Some c\<rparr>
        in if on options ''noext'' then clearStateChar st else st)"

definition open_list :: "int \<Rightarrow> parse_state \<Rightarrow> parse_state" where
  "open_list i st =
     (if inClass st then add_re [40] st
      else case stateChar st of
        None \<Rightarrow> add_re (bs 40) st
      | Some c \<Rightarrow>
          st\<lparr>patternListStack :=
               \<lparr>pl_type = c, pl_start = i - 1, pl_reStart = length (re st), pl_open = plTypes_open c,
                pl_close = plTypes_close c, pl_reEnd = 0\<rparr> # patternListStack st,
             re := re st @ (if c = 33 then js ''(?:(?!(?:'' else js ''(?:''),
             stateChar := None\<rparr>)"

definition close_list :: "parse_state \<Rightarrow> parse_state" where
  "close_list st =
     (if inClass st \<or> patternListStack st = [] then add_re (bs 41) st
      else
        let st = (clearStateChar st)\<lparr>hasMagic := True\<rparr>;
            pl = hd (patternListStack st);
            st = add_re (pl_close pl) st\<lparr>patternListStack := tl (patternListStack st)\<rparr>;
            pl = pl\<lparr>pl_reEnd := length (re st)\<rparr>
        in if pl_type pl = 33 then st\<lparr>negativeLists := negativeLists st @ [pl]\<rparr> else st)"

definition list_bar :: "parse_state \<Rightarrow> parse_state" where
  "list_bar st =
     (if inClass st \<or> patternListStack st = [] \<or> escaping st
      then (add_re (bs 124) st)\<lparr>escaping := False\<rparr>
      else add_re [124] (clearStateChar st))"

definition open_class :: "int \<Rightarrow> parse_state \<Rightarrow> parse_state" where
  "open_class i st =
     (let st = clearStateChar st in
      if inClass st then add_re (bs 91) st
      else add_re [91] (st\<lparr>inClass := True, classStart := i, reClassStart := int (length (re st))\<rparr>))"

definition bad_class :: "part \<Rightarrow> jstring \<Rightarrow> parse_state \<Rightarrow> parse_state" where
  "bad_class sp ending st =
     st\<lparr>re := take (nat (reClassStart st)) (re st) @ bs 91 @ sub_re sp @ ending,
        hasMagic := hasMagic st \<or> sub_magic sp\<rparr>"

definition close_class ::
    "js_engine \<Rightarrow> (jstring \<Rightarrow> part) \<Rightarrow> jstring \<Rightarrow> int \<Rightarrow> parse_state \<Rightarrow> parse_state" where
  "close_class eng sub pattern i st =
     (if i = classStart st + 1 \<or> \<not> inClass st then (add_re (bs 93) st)\<lparr>escaping := False\<rparr>
      else
        let cs = substring pattern (classStart st + 1) i in
        if \<not> re_valid eng ([91] @ cs @ [93])
        then (bad_class (sub cs) (bs 93) st)\<lparr>inClass := False\<rparr>
        else add_re [93] (st\<lparr>hasMagic := True, inClass := False\<rparr>))"

definition plain_char :: "unit16 \<Rightarrow> parse_state \<Rightarrow> parse_state" where
  "plain_char c st =
     (let st = clearStateChar st in
      if escaping st then add_re [c] (st\<lparr>escaping := False\<rparr>)
      else if reSpecials c \<and> \<not> (c = 94 \<and> inClass st) then add_re (bs c) st
      else add_re [c] st)"

text \<open>The body of the loop: \<open>None\<close> is \<open>return false\<close>.\<close>

definition parse_char ::
    "js_engine \<Rightarrow> options \<Rightarrow> (jstring \<Rightarrow> part) \<Rightarrow> jstring \<Rightarrow> int \<Rightarrow> unit16 \<Rightarrow> parse_state
      \<Rightarrow> parse_state option" where
  "parse_char eng options sub pattern i c st =
     (if escaping st \<and> reSpecials c then Some ((add_re (bs c) st)\<lparr>escaping := False\<rparr>)
      else if c = 47 then None
      else Some (
        if c = 92 then (clearStateChar st)\<lparr>escaping := True\<rparr>
        else if c \<in> {63, 42, 43, 64, 33} then state_char options i c st
        else if c = 40 then open_list i st
        else if c = 41 then close_list st
        else if c = 124 then list_bar st
        else if c = 91 then open_class i st
        else if c = 93 then close_class eng sub pattern i st
        else plain_char c st))"

fun parse_loop ::
    "js_engine \<Rightarrow> options \<Rightarrow> (jstring \<Rightarrow> part) \<Rightarrow> jstring \<Rightarrow> int \<Rightarrow> jstring \<Rightarrow> parse_state
      \<Rightarrow> parse_state option" where
  "parse_loop eng options sub pattern i [] st = Some st"
| "parse_loop eng options sub pattern i (c # cs) st =
     (case parse_char eng options sub pattern i c st of
        None \<Rightarrow> None
      | Some st' \<Rightarrow> parse_loop eng options sub pattern (i + 1) cs st')"

section \<open>The end of the pattern\<close>

text \<open>
  The replacement of \<open>/((?:\\{2}){0,64})(\\?)\|/g\<close>: of a run of backslashes before a bar, the last
  129 at most take part in the match; the pairs are doubled and the bar ends up escaped.
\<close>

function escape_bars :: "jstring \<Rightarrow> jstring" where
  "escape_bars s =
     (case s of
        [] \<Rightarrow> []
      | c # cs \<Rightarrow>
          let b = length (takeWhile (\<lambda>x. x = slash_u) s);
              rest = drop b s;
              m = min b 129;
              pairs = 2 * (m div 2)
          in if rest \<noteq> [] \<and> hd rest = 124
             then replicate (b - m) slash_u @ replicate (2 * pairs) slash_u @ bs 124 @ escape_bars (tl rest)
             else if b = 0 then c # escape_bars cs
             else replicate b slash_u @ escape_bars rest)"
  by auto

termination
  by (relation "measure length") auto

declare escape_bars.simps [simp del]

fun unclosed_lists :: "pattern_list list \<Rightarrow> parse_state \<Rightarrow> parse_state" where
  "unclosed_lists [] st = st"
| "unclosed_lists (pl # pls) st =
     (let tail = escape_bars (drop (pl_reStart pl + length (pl_open pl)) (re st));
          t = (if pl_type pl = 42 then star else if pl_type pl = 63 then qmark else bs (pl_type pl))
      in unclosed_lists pls
           (st\<lparr>hasMagic := True, re := take (pl_reStart pl) (re st) @ t @ bs 40 @ tail\<rparr>))"

text \<open>\<open>replace(/\)[+*?]?/, '')\<close>, the first match only.\<close>

fun drop_close :: "jstring \<Rightarrow> jstring" where
  "drop_close [] = []"
| "drop_close (c # cs) =
     (if c = 41 then (if cs \<noteq> [] \<and> hd cs \<in> {43, 42, 63} then tl cs else cs)
      else c # drop_close cs)"

definition negative_list :: "bool \<Rightarrow> pattern_list \<Rightarrow> jstring \<Rightarrow> jstring" where
  "negative_list isSub nl r =
     (let nlBefore = take (pl_reStart nl) r;
          nlFirst = slice r (pl_reStart nl) (pl_reEnd nl - 8);
          nlAfter = drop (pl_reEnd nl) r;
          nlLast = slice r (pl_reEnd nl - 8) (pl_reEnd nl) @ nlAfter;
          openParensBefore = length (split_on [40] nlBefore) - 1;
          nlAfter = (drop_close ^^ openParensBefore) nlAfter;
          dollar = (if nlAfter = [] \<and> \<not> isSub then [dollar_u] else [])
      in nlBefore @ nlFirst @ nlAfter @ dollar @ nlLast)"

definition patternStart :: "options \<Rightarrow> jstring \<Rightarrow> jstring" where
  "patternStart options pattern =
     (if pattern \<noteq> [] \<and> hd pattern = dot_u then []
      else if on options ''dot''
      then js ''(?!(?:^|'' @ bs 47 @ js '')'' @ bs 46 @ js ''{1,2}(?:$|'' @ bs 47 @ js ''))''
      else js ''(?!'' @ bs 46 @ js '')'')"

fun globUnescape :: "jstring \<Rightarrow> jstring" where
  "globUnescape (c # d # cs) =
     (if c = slash_u \<and> \<not> is_newline d then d # globUnescape cs else c # globUnescape (d # cs))"
| "globUnescape s = s"

text \<open>What follows the loop; \<open>sub\<close> parses the rest of a class that was left open.\<close>

definition finish_re :: "(jstring \<Rightarrow> part) \<Rightarrow> jstring \<Rightarrow> parse_state \<Rightarrow> parse_state" where
  "finish_re sub pattern st =
     (let st = (if inClass st then bad_class (sub (drop (nat (classStart st + 1)) pattern)) [] st else st);
          st = unclosed_lists (patternListStack st) st;
          st = clearStateChar st
      in if escaping st then add_re (bs slash_u) st else st)"

definition glob_part :: "js_engine \<Rightarrow> options \<Rightarrow> bool \<Rightarrow> jstring \<Rightarrow> parse_state \<Rightarrow> part" where
  "glob_part eng options isSub pattern st =
     (let addPatternStart = (re st \<noteq> [] \<and> hd (re st) \<in> {46, 91, 40});
          r = foldr (negative_list isSub) (negativeLists st) (re st);
          r = (if r \<noteq> [] \<and> hasMagic st then js ''(?=.)'' @ r else r);
          r = (if addPatternStart then patternStart options pattern @ r else r)
      in if isSub then SubParse r (hasMagic st)
         else if \<not> hasMagic st then Literal (globUnescape pattern)
         else
           let src = [94] @ r @ [dollar_u] in
           if re_valid eng src
           then Magic \<lparr>re_source = src, re_ignore_case = on options ''nocase'', re_glob = Some pattern,
                       re_src = Some r\<rparr>
           else Magic \<lparr>re_source = [dollar_u, dot_u], re_ignore_case = False, re_glob = None,
                       re_src = None\<rparr>)"

definition start_state :: "options \<Rightarrow> parse_state" where
  "start_state options = \<lparr>re = [], hasMagic = on options ''nocase'', escaping = False,
     patternListStack = [], negativeLists = [], stateChar = None, inClass = False,
     reClassStart = -1, classStart = -1\<rparr>"

text \<open>
  \<open>parse\<close> with a bound on the nesting of calls for pieces of the pattern. A piece is shorter than
  the pattern, so one more than the length of the pattern is enough.
\<close>

primrec parse_part :: "js_engine \<Rightarrow> options \<Rightarrow> nat \<Rightarrow> bool \<Rightarrow> jstring \<Rightarrow> part" where
  "parse_part eng options 0 isSub pattern = NoPart"
| "parse_part eng options (Suc n) isSub pattern =
     (if \<not> on options ''noglobstar'' \<and> pattern = [42, 42] then Globstar
      else if pattern = [] then Literal []
      else case parse_loop eng options (parse_part eng options n True) pattern 0 pattern (start_state options) of
        None \<Rightarrow> NoPart
      | Some st \<Rightarrow>
          glob_part eng options isSub pattern (finish_re (parse_part eng options n True) pattern st))"

definition parse_glob :: "js_engine \<Rightarrow> options \<Rightarrow> jstring \<Rightarrow> part result" where
  "parse_glob eng options pattern =
     (if 1024 * 64 < length pattern then Inl TypeError
      else Inr (parse_part eng options (Suc (length pattern)) False pattern))"

section \<open>The nesting bound\<close>

definition class_inv :: "int \<Rightarrow> parse_state \<Rightarrow> bool" where
  "class_inv i st \<longleftrightarrow> (inClass st \<longrightarrow> 0 \<le> classStart st \<and> classStart st < i)"

lemma clearStateChar_simps [simp]:
  "inClass (clearStateChar st) = inClass st" "classStart (clearStateChar st) = classStart st"
  "escaping (clearStateChar st) = escaping st"
  "patternListStack (clearStateChar st) = patternListStack st"
  "stateChar (clearStateChar st) = None"
  by (simp_all add: clearStateChar_def split: option.splits)

lemma add_re_simps [simp]:
  "inClass (add_re s st) = inClass st" "classStart (add_re s st) = classStart st"
  "escaping (add_re s st) = escaping st" "hasMagic (add_re s st) = hasMagic st"
  "patternListStack (add_re s st) = patternListStack st" "stateChar (add_re s st) = stateChar st"
  "re (add_re s st) = re st @ s"
  by (simp_all add: add_re_def)

lemma class_inv_step:
  assumes "class_inv i st" "0 \<le> i" "parse_char eng options sub pattern i c st = Some st'"
  shows "class_inv (i + 1) st'"
proof -
  have "inClass st' \<Longrightarrow> inClass st \<and> classStart st' = classStart st \<or> classStart st' = i"
    using assms(3)
    by (auto simp: parse_char_def state_char_def open_list_def close_list_def list_bar_def
        open_class_def close_class_def plain_char_def bad_class_def Let_def
        split: if_splits option.splits)
  with assms(1,2) show ?thesis by (auto simp: class_inv_def)
qed

lemma parse_char_cong:
  assumes "class_inv i st" "0 \<le> i" "i < int (length pattern)"
    and "\<And>cs. length cs < length pattern \<Longrightarrow> sub cs = sub' cs"
  shows "parse_char eng options sub pattern i c st = parse_char eng options sub' pattern i c st"
proof -
  have "close_class eng sub pattern i st = close_class eng sub' pattern i st"
  proof (cases "inClass st")
    case True
    then have "length (substring pattern (classStart st + 1) i) = nat i - nat (classStart st + 1)"
      using assms(1-3) by (intro length_substring) (auto simp: class_inv_def)
    then have "sub (substring pattern (classStart st + 1) i) = sub' (substring pattern (classStart st + 1) i)"
      using assms(2,3) by (intro assms(4)) auto
    then show ?thesis by (simp add: close_class_def Let_def)
  qed (simp add: close_class_def)
  then show ?thesis by (simp add: parse_char_def)
qed

lemma parse_loop_cong:
  assumes "\<And>cs. length cs < length pattern \<Longrightarrow> sub cs = sub' cs"
  shows "class_inv i st \<Longrightarrow> 0 \<le> i \<Longrightarrow> i + int (length rest) \<le> int (length pattern) \<Longrightarrow>
    parse_loop eng options sub pattern i rest st = parse_loop eng options sub' pattern i rest st \<and>
    (\<forall>st'. parse_loop eng options sub pattern i rest st = Some st' \<longrightarrow>
       class_inv (i + int (length rest)) st')"
proof (induction rest arbitrary: i st)
  case (Cons c rest)
  have eq: "parse_char eng options sub pattern i c st = parse_char eng options sub' pattern i c st"
    by (rule parse_char_cong) (use Cons.prems assms in auto)
  show ?case
  proof (cases "parse_char eng options sub pattern i c st")
    case None
    with eq show ?thesis by simp
  next
    case (Some st1)
    have "class_inv (i + 1) st1"
      by (rule class_inv_step [OF Cons.prems(1,2) Some])
    with Cons.IH [of "i + 1" st1] Cons.prems show ?thesis
      by (simp add: add.assoc Some eq [unfolded Some, symmetric])
  qed
qed simp

lemma parse_part_enough:
  "length pattern < n \<Longrightarrow> length pattern < m \<Longrightarrow>
    parse_part eng options n isSub pattern = parse_part eng options m isSub pattern"
proof (induction n arbitrary: m isSub pattern)
  case (Suc n)
  then obtain m' where m: "m = Suc m'" by (cases m) auto
  let ?sub = "parse_part eng options n True" and ?sub' = "parse_part eng options m' True"
  have sub: "?sub cs = ?sub' cs" if "length cs < length pattern" for cs
    using that Suc.prems m by (intro Suc.IH) auto
  have inv: "class_inv 0 (start_state options)" by (simp add: class_inv_def start_state_def)
  from parse_loop_cong [of pattern ?sub ?sub' 0 "start_state options" pattern, OF sub inv]
  have loop: "parse_loop eng options ?sub pattern 0 pattern (start_state options) =
      parse_loop eng options ?sub' pattern 0 pattern (start_state options)"
    and keep: "\<And>st'. parse_loop eng options ?sub pattern 0 pattern (start_state options) = Some st' \<Longrightarrow>
      class_inv (int (length pattern)) st'" by auto
  have "finish_re ?sub pattern st = finish_re ?sub' pattern st"
    if "class_inv (int (length pattern)) st" "pattern \<noteq> []" for st
  proof (cases "inClass st")
    case True
    with that have "length (drop (nat (classStart st + 1)) pattern) < length pattern"
      by (auto simp: class_inv_def)
    then show ?thesis by (simp add: finish_re_def sub)
  qed (simp add: finish_re_def)
  with loop keep show ?case unfolding m parse_part.simps by (auto split: option.splits)
qed simp

text \<open>
  The translation of a path part ends: with any bound larger than the length of the pattern
  the nested calls give the result of \<open>parse\<close>.
\<close>

theorem parse_glob_enough:
  assumes "length pattern < n" "length pattern \<le> 1024 * 64"
  shows "parse_glob eng options pattern = Inr (parse_part eng options n False pattern)"
  using assms parse_part_enough [of pattern "Suc (length pattern)" n] by (simp add: parse_glob_def)

section \<open>Quoted patterns\<close>

text \<open>A backslash before each character that is special in a regular expression.\<close>

definition quote_glob :: "jstring \<Rightarrow> jstring" where
  "quote_glob s = concat (map (\<lambda>c. if reSpecials c then bs c else [c]) s)"

lemma quote_glob_simps [simp]:
  "quote_glob [] = []"
  "quote_glob (c # s) = (if reSpecials c then slash_u # c # quote_glob s else c # quote_glob s)"
  by (simp_all add: quote_glob_def bs_def)

lemma reSpecials_simps:
  "reSpecials slash_u" "reSpecials 63" "reSpecials 42" "reSpecials 43" "reSpecials 33" "reSpecials 40"
  "reSpecials 41" "reSpecials 91" "reSpecials 93" "\<not> reSpecials 64" "\<not> reSpecials 124"
  "\<not> reSpecials 47" "reSpecials open_u" "reSpecials close_u"
  by (simp_all add: reSpecials_def js_def of_char_of)

lemma not_newline_special: "reSpecials d \<Longrightarrow> \<not> is_newline d"
  by (auto simp: reSpecials_def is_newline_def js_def of_char_of)

lemma globUnescape_quote: "globUnescape (quote_glob s) = s"
proof (induction s)
  case (Cons c s)
  show ?case
  proof (cases "reSpecials c")
    case True
    with Cons not_newline_special show ?thesis by simp
  next
    case False
    then have "c \<noteq> slash_u" using reSpecials_simps(1) by auto
    with Cons False show ?thesis by (cases "quote_glob s") simp_all
  qed
qed simp

text \<open>The states that a quoted pattern goes through: no magic, no list and no class.\<close>

definition dull :: "parse_state \<Rightarrow> bool" where
  "dull st \<longleftrightarrow> \<not> hasMagic st \<and> \<not> inClass st \<and> patternListStack st = [] \<and> \<not> escaping st \<and>
     (stateChar st = None \<or> stateChar st = Some 64)"

lemma dull_clear: "dull st \<Longrightarrow> dull (clearStateChar st)"
  by (auto simp: dull_def clearStateChar_def split: option.splits)

lemma parse_loop_quote:
  "dull st \<Longrightarrow> 47 \<notin> set s \<Longrightarrow>
    \<exists>st'. parse_loop eng options sub pattern i (quote_glob s) st = Some st' \<and> dull st'"
proof (induction s arbitrary: i st)
  case (Cons c s)
  let ?st = "clearStateChar st"
  have d: "dull ?st" using Cons.prems(1) by (rule dull_clear)
  show ?case
  proof (cases "reSpecials c")
    case True
    have "parse_char eng options sub pattern i slash_u st = Some (?st\<lparr>escaping := True\<rparr>)"
      using Cons.prems(1) by (simp add: parse_char_def dull_def)
    moreover have "parse_char eng options sub pattern (i + 1) c (?st\<lparr>escaping := True\<rparr>) =
        Some ((add_re (bs c) (?st\<lparr>escaping := True\<rparr>))\<lparr>escaping := False\<rparr>)"
      using True by (simp add: parse_char_def)
    moreover have "dull ((add_re (bs c) (?st\<lparr>escaping := True\<rparr>))\<lparr>escaping := False\<rparr>)"
      using d by (simp add: dull_def add_re_def)
    ultimately show ?thesis using Cons.IH Cons.prems(2) True by simp
  next
    case False
    have "\<exists>st'. parse_char eng options sub pattern i c st = Some st' \<and> dull st'"
      using False Cons.prems d reSpecials_simps
      by (auto simp: parse_char_def state_char_def list_bar_def plain_char_def dull_def add_re_def
          clearStateChar_def Let_def split: option.splits)
    with Cons.IH Cons.prems(2) False show ?thesis by auto
  qed
qed simp

lemma quote_glob_not_globstar: "quote_glob s \<noteq> [42, 42]"
  using reSpecials_simps(3) by (cases s) auto

text \<open>
  Quoting and parsing is a round trip: the quoted form of a path part compiles to the literal
  part, which then matches this text and no other.
\<close>

theorem parse_quote_roundtrip:
  assumes "47 \<notin> set s" "\<not> on options ''nocase''" "length (quote_glob s) \<le> 1024 * 64"
  shows "parse_glob eng options (quote_glob s) = Inr (Literal s)"
proof (cases "s = []")
  case True
  then show ?thesis by (simp add: parse_glob_def)
next
  case False
  let ?q = "quote_glob s" and ?sub = "parse_part eng options (length (quote_glob s)) True"
  have ne: "?q \<noteq> []" using False by (cases s) simp_all
  have "dull (start_state options)" using assms(2) by (simp add: dull_def start_state_def)
  from parse_loop_quote [OF this assms(1)] obtain st where
    st: "parse_loop eng options ?sub ?q 0 ?q (start_state options) = Some st" "dull st" by blast
  have "\<not> hasMagic (finish_re ?sub ?q st)"
    using st(2) dull_clear [OF st(2)] by (simp add: finish_re_def dull_def)
  then show ?thesis
    using assms(3) st(1) ne quote_glob_not_globstar [of s] globUnescape_quote
    by (simp add: parse_glob_def glob_part_def Let_def)
qed

text \<open>
  A pattern that ends with an opening bracket after a wild card is compiled wrongly: the text
  \<open>undefined\<close> is pasted into the regular expression, so \<open>*[\<close> matches \<open>x[undefined\<close> and not \<open>x[\<close>.
\<close>

theorem parse_open_bracket:
  "parse_glob eng (\<lambda>_. None) (js ''*['') =
    Inr (let r = js ''(?!'' @ bs 46 @ js '')(?=.)[^/]*?'' @ bs 91 @ js ''undefined''; src = js ''^'' @ r @ js ''$''
         in if re_valid eng src
            then Magic \<lparr>re_source = src, re_ignore_case = False, re_glob = Some (js ''*[''), re_src = Some r\<rparr>
            else Magic \<lparr>re_source = js ''$.'', re_ignore_case = False, re_glob = None, re_src = None\<rparr>)"
  by (simp add: parse_glob_def on_def start_state_def parse_char_def state_char_def open_class_def
      clearStateChar_def add_re_def finish_re_def bad_class_def glob_part_def patternStart_def
      js_def of_char_of star_def bs_def Let_def)

end
