(* ===== verification/Glob_Minimatch.thy ===== *)
theory Glob_Minimatch
  imports Glob_Parse
begin

text \<open>
  The \<open>Minimatch\<close> objects of the bundled \<open>minimatch\<close> module of \<open>wordcut.js\<close>: construction
  (negation, brace expansion, compilation of every part), matching of whole paths, the single
  regular expression of \<open>makeRe\<close>, and the functions of the module built on them.
\<close>

section \<open>Text operations\<close>

definition is_white :: "unit16 \<Rightarrow> bool" where
  "is_white c \<longleftrightarrow> c \<in> {9, 10, 11, 12, 13, 32, 0xA0, 0x1680, 0x2028, 0x2029, 0x202F, 0x205F, 0x3000, 0xFEFF}
     \<or> 0x2000 \<le> c \<and> c \<le> 0x200A"

definition trim_text :: "jstring \<Rightarrow> jstring" where
  "trim_text s = rev (dropWhile is_white (rev (dropWhile is_white s)))"

text \<open>\<open>s.split(/\/+/)\<close>.\<close>

function slash_split :: "jstring \<Rightarrow> jstring list" where
  "slash_split [] = [[]]"
| "slash_split (c # cs) =
     (if c = 47 then [] # slash_split (dropWhile (\<lambda>x. x = 47) cs)
      else (case slash_split cs of [] \<Rightarrow> [[c]] | p # ps \<Rightarrow> (c # p) # ps))"
  by pat_completeness auto

termination
  by (relation "measure length") (auto simp: le_imp_less_Suc length_dropWhile_le)

text \<open>\<open>/\{.*\}/\<close>.\<close>

fun has_braces :: "jstring \<Rightarrow> bool" where
  "has_braces [] = False"
| "has_braces (c # cs) =
     (c = open_u \<and> close_u \<in> set (takeWhile (\<lambda>x. \<not> is_newline x) cs) \<or> has_braces cs)"

definition regExpEscape :: "jstring \<Rightarrow> jstring" where
  "regExpEscape s =
     concat (map (\<lambda>c. if c \<in> set (slash_u # js ''-[]{}()*+?.,^$|#'') \<or> is_white c then bs c else [c]) s)"

section \<open>Minimatch objects\<close>

text \<open>
  \<open>mm_globSet\<close> holds the expanded patterns and stays empty for comments and empty patterns, where
  the field is absent. \<open>mm_regexp\<close> is \<open>null\<close> at first (\<open>None\<close>), then \<open>false\<close> (\<open>Some None\<close>) or a regular expression.
\<close>

record minimatch =
  mm_options :: options
  mm_set :: "part list list"
  mm_globSet :: "jstring list"
  mm_pattern :: jstring
  mm_regexp :: "glob_regexp option option"
  mm_negate :: bool
  mm_comment :: bool
  mm_empty :: bool

definition parseNegate :: "minimatch \<Rightarrow> minimatch" where
  "parseNegate mm =
     (if on (mm_options mm) ''nonegate'' then mm
      else
        let negateOffset = length (takeWhile (\<lambda>c. c = 33) (mm_pattern mm)) in
        mm\<lparr>mm_pattern := drop negateOffset (mm_pattern mm), mm_negate := odd negateOffset\<rparr>)"

definition braceExpand :: "(mark \<Rightarrow> jstring) \<Rightarrow> options \<Rightarrow> jstring \<Rightarrow> jstring list outcome" where
  "braceExpand rnd options pattern =
     (if on options ''nobrace'' \<or> \<not> has_braces pattern then Returns [pattern]
      else expandTop rnd pattern)"

definition is_comment :: "options \<Rightarrow> jstring \<Rightarrow> bool" where
  "is_comment options pattern \<longleftrightarrow> \<not> on options ''nocomment'' \<and> pattern \<noteq> [] \<and> hd pattern = 35"

definition make :: "js_engine \<Rightarrow> (mark \<Rightarrow> jstring) \<Rightarrow> minimatch \<Rightarrow> minimatch result outcome" where
  "make eng rnd mm =
     (if is_comment (mm_options mm) (mm_pattern mm) then Returns (Inr (mm\<lparr>mm_comment := True\<rparr>))
      else if mm_pattern mm = [] then Returns (Inr (mm\<lparr>mm_empty := True\<rparr>))
      else
        let mm = parseNegate mm in
        and_run (braceExpand rnd (mm_options mm) (mm_pattern mm)) (\<lambda>globSet.
        let globParts = map slash_split globSet in
        Returns (and_then (map_res (map_res (parse_glob eng (mm_options mm))) globParts) (\<lambda>set.
          Inr (mm\<lparr>mm_globSet := globSet, mm_set := filter (\<lambda>s. NoPart \<notin> List.set s) set\<rparr>)))))"

definition new_Minimatch ::
    "js_engine \<Rightarrow> (mark \<Rightarrow> jstring) \<Rightarrow> jstring \<Rightarrow> options \<Rightarrow> minimatch result outcome" where
  "new_Minimatch eng rnd pattern options =
     make eng rnd \<lparr>mm_options = options, mm_set = [], mm_globSet = [], mm_pattern = trim_text pattern,
       mm_regexp = None, mm_negate = False, mm_comment = False, mm_empty = False\<rparr>"

text \<open>The last part that is not empty, else the first part.\<close>

definition path_filename :: "jstring list \<Rightarrow> jstring" where
  "path_filename f = (case find (\<lambda>x. x \<noteq> []) (rev f) of Some x \<Rightarrow> x | None \<Rightarrow> hd f)"

definition mm_match :: "js_engine \<Rightarrow> minimatch \<Rightarrow> jstring \<Rightarrow> bool \<Rightarrow> bool" where
  "mm_match eng mm f partial =
     (if mm_comment mm then False
      else if mm_empty mm then f = []
      else if f = [47] \<and> partial then True
      else
        let options = mm_options mm;
            parts = slash_split f;
            filename = path_filename parts;
            hit = list_ex (\<lambda>pattern.
              let file = (if on options ''matchBase'' \<and> length pattern = 1 then [filename] else parts)
              in matchOne eng options partial file pattern) (mm_set mm)
        in if hit then (if on options ''flipNegate'' then True else \<not> mm_negate mm)
           else (if on options ''flipNegate'' then False else mm_negate mm))"

definition and_res :: "'a result outcome \<Rightarrow> ('a \<Rightarrow> 'b) \<Rightarrow> 'b result outcome" where
  "and_res m f = and_run m (\<lambda>r. Returns (and_then r (\<lambda>x. Inr (f x))))"

definition minimatch ::
    "js_engine \<Rightarrow> (mark \<Rightarrow> jstring) \<Rightarrow> jstring \<Rightarrow> jstring \<Rightarrow> options \<Rightarrow> bool result outcome" where
  "minimatch eng rnd p pattern options =
     (if is_comment options pattern then Returns (Inr False)
      else if trim_text pattern = [] then Returns (Inr (p = []))
      else and_res (new_Minimatch eng rnd pattern options) (\<lambda>mm. mm_match eng mm p False))"

definition minimatch_match ::
    "js_engine \<Rightarrow> (mark \<Rightarrow> jstring) \<Rightarrow> jstring list \<Rightarrow> jstring \<Rightarrow> options \<Rightarrow> jstring list result outcome" where
  "minimatch_match eng rnd list pattern options =
     and_res (new_Minimatch eng rnd pattern options) (\<lambda>mm.
       let list' = filter (\<lambda>f. mm_match eng mm f False) list in
       if on (mm_options mm) ''nonull'' \<and> list' = [] then [pattern] else list')"

definition part_source :: "jstring \<Rightarrow> part \<Rightarrow> jstring" where
  "part_source twoStar p =
     (case p of
        Globstar \<Rightarrow> twoStar
      | Literal s \<Rightarrow> regExpEscape s
      | Magic r \<Rightarrow> (case re_src r of None \<Rightarrow> [] | Some s \<Rightarrow> s)
      | _ \<Rightarrow> [])"

definition makeRe :: "js_engine \<Rightarrow> minimatch \<Rightarrow> minimatch \<times> glob_regexp option" where
  "makeRe eng mm =
     (case mm_regexp mm of
        Some r \<Rightarrow> (mm, r)
      | None \<Rightarrow>
          if mm_set mm = [] then (mm\<lparr>mm_regexp := Some None\<rparr>, None)
          else
            let options = mm_options mm;
                twoStar = (if on options ''noglobstar'' then star
                           else if on options ''dot'' then twoStarDot else twoStarNoDot);
                r = join [124] (map (\<lambda>pattern. join (bs 47) (map (part_source twoStar) pattern)) (mm_set mm));
                r = js ''^(?:'' @ r @ js '')$'';
                r = (if mm_negate mm then js ''^(?!'' @ r @ js '').*$'' else r);
                v = (if re_valid eng r
                     then Some \<lparr>re_source = r, re_ignore_case = on options ''nocase'',
                                re_glob = None, re_src = None\<rparr>
                     else None)
            in (mm\<lparr>mm_regexp := Some v\<rparr>, v))"

text \<open>\<open>ext(a, b)\<close> copies \<open>b\<close> and then \<open>a\<close>, so the keys of \<open>a\<close> win.\<close>

definition ext :: "options \<Rightarrow> options \<Rightarrow> options" where
  "ext a b = b ++ a"

definition minimatch_defaults ::
    "options \<Rightarrow> js_engine \<Rightarrow> (mark \<Rightarrow> jstring) \<Rightarrow> jstring \<Rightarrow> jstring \<Rightarrow> options \<Rightarrow> bool result outcome" where
  "minimatch_defaults def eng rnd p pattern options = minimatch eng rnd p pattern (ext def options)"

section \<open>Literal paths\<close>

lemma slash_split_not_Nil [simp]: "slash_split s \<noteq> []"
  by (cases s) (auto split: list.splits)

lemma slash_split_free: "p \<in> set (slash_split s) \<Longrightarrow> 47 \<notin> set p"
  by (induction s arbitrary: p rule: slash_split.induct) (auto split: if_splits list.splits)

lemma dropWhile_quote:
  "dropWhile (\<lambda>x. x = 47) (quote_glob s) = quote_glob (dropWhile (\<lambda>x. x = 47) s)"
  using reSpecials_simps(12) by (induction s) auto

lemma slash_split_quote: "slash_split (quote_glob s) = map quote_glob (slash_split s)"
proof (induction s rule: slash_split.induct)
  case (2 c cs)
  show ?case
  proof (cases "c = 47")
    case True
    with 2(1) reSpecials_simps(12) show ?thesis by (simp add: dropWhile_quote)
  next
    case False
    from 2(2) [OF False] False show ?thesis
      by (cases "slash_split cs") (auto split: list.splits)
  qed
qed simp

lemma has_braces_open: "has_braces s \<Longrightarrow> open_u \<in> set s"
  by (induction s) auto

lemma matchOne_literals:
  assumes "\<not> on options ''nocase''"
  shows "matchOne eng options False fs (map Literal ps) \<longleftrightarrow> fs = ps \<or> fs = ps @ [[]]"
proof (induction ps arbitrary: fs)
  case Nil
  show ?case by (cases fs) auto
next
  case (Cons p ps)
  then show ?case using assms by (cases fs) (auto simp: part_hit_def)
qed

lemma trim_text_id:
  assumes "s \<noteq> []" "\<not> is_white (hd s)" "\<not> is_white (last s)"
  shows "trim_text s = s"
proof -
  have "dropWhile is_white s = s" using assms by (cases s) simp_all
  moreover have "dropWhile is_white (rev s) = rev s"
    using assms by (cases "rev s") (auto simp: hd_rev [symmetric])
  ultimately show ?thesis by (simp add: trim_text_def)
qed

lemma quote_glob_length: "length s \<le> length (quote_glob s)" "length (quote_glob s) \<le> 2 * length s"
  by (induction s) auto

lemma slash_split_length: "p \<in> set (slash_split s) \<Longrightarrow> length p \<le> length s"
proof (induction s arbitrary: p rule: slash_split.induct)
  case (2 c cs)
  show ?case
  proof (cases "c = 47")
    case True
    with 2 length_dropWhile_le [of "\<lambda>x. x = 47" cs] show ?thesis by force
  next
    case False
    with 2 show ?thesis by (fastforce split: list.splits intro: le_SucI)
  qed
qed simp

text \<open>A path that can be quoted: no opening brace, no comment sign in front, no outer white space.\<close>

definition quotable :: "jstring \<Rightarrow> bool" where
  "quotable s \<longleftrightarrow> s \<noteq> [] \<and> open_u \<notin> set s \<and> hd s \<noteq> 35 \<and> \<not> is_white (hd s) \<and> \<not> is_white (last s) \<and>
     length s \<le> 1024 * 32"

definition without :: "options \<Rightarrow> string list \<Rightarrow> bool" where
  "without options ks \<longleftrightarrow> list_all (\<lambda>k. \<not> on options k) ks"

lemma last_quote: "s \<noteq> [] \<Longrightarrow> last (quote_glob s) = last s"
proof (induction s)
  case (Cons c s)
  then show ?case by (cases s) auto
qed simp

lemma quote_glob_hd: "s \<noteq> [] \<Longrightarrow> hd (quote_glob s) = slash_u \<or> hd (quote_glob s) = hd s \<and> \<not> reSpecials (hd s)"
  by (cases s) auto

lemma set_quote: "set (quote_glob s) \<subseteq> insert slash_u (set s)"
  by (induction s) auto

lemma quote_trim_comment:
  assumes "quotable s"
  shows "trim_text (quote_glob s) = quote_glob s" "\<not> is_comment options (quote_glob s)"
    "quote_glob s \<noteq> []" "takeWhile (\<lambda>c. c = 33) (quote_glob s) = []" "\<not> has_braces (quote_glob s)"
proof -
  have s: "s \<noteq> []" using assms by (simp add: quotable_def)
  then show ne: "quote_glob s \<noteq> []" by (cases s) simp_all
  have slash: "\<not> is_white slash_u" by (simp add: is_white_def)
  have hd: "\<not> is_white (hd (quote_glob s))" "hd (quote_glob s) \<noteq> 35" "hd (quote_glob s) \<noteq> 33"
    using quote_glob_hd [OF s] assms slash reSpecials_simps(5) by (auto simp: quotable_def)
  have "\<not> is_white (last (quote_glob s))" using last_quote [OF s] assms by (simp add: quotable_def)
  with hd ne show "trim_text (quote_glob s) = quote_glob s" by (intro trim_text_id)
  show "\<not> is_comment options (quote_glob s)" using hd by (simp add: is_comment_def)
  show "takeWhile (\<lambda>c. c = 33) (quote_glob s) = []" using hd ne by (cases "quote_glob s") simp_all
  have "open_u \<notin> set (quote_glob s)" using set_quote [of s] assms by (auto simp: quotable_def)
  then show "\<not> has_braces (quote_glob s)" using has_braces_open by blast
qed

text \<open>
  The quoted form of a path matches the paths with the same parts, one trailing slash more
  allowed, and no others; construction, compilation and matching never fail on it.
\<close>

theorem minimatch_quoted_path:
  assumes "quotable s" "without options [''nocase'', ''matchBase'', ''flipNegate'']"
  shows "minimatch eng rnd f (quote_glob s) options =
    Returns (Inr (slash_split f = slash_split s \<or> slash_split f = slash_split s @ [[]]))"
proof -
  note q = quote_trim_comment [OF assms(1)]
  have opts: "\<not> on options ''nocase''" "\<not> on options ''matchBase''" "\<not> on options ''flipNegate''"
    using assms(2) by (simp_all add: without_def)
  have "parse_glob eng options (quote_glob p) = Inr (Literal p)" if "p \<in> set (slash_split s)" for p
    using slash_split_free [OF that] slash_split_length [OF that] quote_glob_length(2) [of p] opts assms(1)
    by (intro parse_quote_roundtrip) (auto simp: quotable_def)
  then have "map_res (parse_glob eng options) (map quote_glob (slash_split s)) =
      Inr (map Literal (slash_split s))"
    by (simp add: map_res_Inr_iff list_all2_conv_all_nth)
  then have "make eng rnd \<lparr>mm_options = options, mm_set = [], mm_globSet = [], mm_pattern = quote_glob s,
       mm_regexp = None, mm_negate = False, mm_comment = False, mm_empty = False\<rparr> =
     Returns (Inr \<lparr>mm_options = options, mm_set = [map Literal (slash_split s)], mm_globSet = [quote_glob s],
       mm_pattern = quote_glob s, mm_regexp = None, mm_negate = False, mm_comment = False,
       mm_empty = False\<rparr>)"
    using q by (simp add: make_def parseNegate_def braceExpand_def slash_split_quote image_iff)
  then have "minimatch eng rnd f (quote_glob s) options = Returns (Inr (mm_match eng
      \<lparr>mm_options = options, mm_set = [map Literal (slash_split s)], mm_globSet = [quote_glob s], mm_pattern = quote_glob s,
       mm_regexp = None, mm_negate = False, mm_comment = False, mm_empty = False\<rparr> f False))"
    using q by (simp add: minimatch_def new_Minimatch_def and_res_def)
  then show ?thesis
    using opts by (simp add: mm_match_def matchOne_literals Let_def)
qed

theorem minimatch_quoted_path_witness:
  "minimatch plain_engine (\<lambda>_. js ''0.5'') (js ''a//b*/'') (quote_glob (js ''a/b*'')) (\<lambda>_. None) = Returns (Inr True)"
  by (subst minimatch_quoted_path)
    (simp_all add: quotable_def without_def on_def js_def of_char_of is_white_def)

text \<open>A pattern without negation, comment sign and outer white space.\<close>

definition positive :: "jstring \<Rightarrow> bool" where
  "positive p \<longleftrightarrow> p \<noteq> [] \<and> hd p \<noteq> 33 \<and> hd p \<noteq> 35 \<and> \<not> is_white (hd p) \<and> \<not> is_white (last p)"

lemma make_negated:
  assumes "positive p" "\<not> on options ''nonegate''"
  shows "new_Minimatch eng rnd (33 # p) options =
    and_res (new_Minimatch eng rnd p options) (\<lambda>mm. mm\<lparr>mm_negate := True\<rparr>)"
proof -
  have w: "\<not> is_white 33" by (simp add: is_white_def)
  have p: "p \<noteq> []" "hd p \<noteq> 33" "hd p \<noteq> 35" using assms(1) by (simp_all add: positive_def)
  have trim: "trim_text p = p" "trim_text (33 # p) = 33 # p"
    using assms(1) w by (simp_all add: trim_text_id positive_def)
  have take: "takeWhile (\<lambda>c. c = 33) p = []" using p by (cases p) simp_all
  show ?thesis
    unfolding new_Minimatch_def trim make_def
    using p assms(2)
    by (cases "braceExpand rnd options p")
      (simp_all add: is_comment_def parseNegate_def take and_res_def Let_def
        split: sum.split add: and_then_def)
qed

lemma new_Minimatch_fields:
  assumes "new_Minimatch eng rnd p options = Returns (Inr mm)" "positive p"
  shows "\<not> mm_comment mm \<and> \<not> mm_empty mm \<and> mm_options mm = options \<and> \<not> mm_negate mm"
proof -
  have p: "p \<noteq> []" "hd p \<noteq> 33" "hd p \<noteq> 35" "trim_text p = p"
    using assms(2) by (simp_all add: positive_def trim_text_id)
  have take: "takeWhile (\<lambda>c. c = 33) p = []" using p(1,2) by (cases p) simp_all
  show ?thesis using assms(1) p
    by (auto simp: new_Minimatch_def make_def is_comment_def parseNegate_def take and_run_Returns
        and_then_eq_Inr Let_def split: if_splits)
qed

text \<open>
  An exclamation mark in front of a pattern negates it: the answer for every path is the
  opposite, and the call fails or diverges exactly when it does without the mark.
\<close>

theorem minimatch_negated:
  assumes "positive p" "without options [''nonegate'', ''flipNegate'']"
  shows "minimatch eng rnd f (33 # p) options = and_res (minimatch eng rnd f p options) Not"
proof -
  have opts: "\<not> on options ''nonegate''" "\<not> on options ''flipNegate''"
    using assms(2) by (simp_all add: without_def)
  have p: "p \<noteq> []" "hd p \<noteq> 33" "hd p \<noteq> 35" "trim_text p = p"
    using assms(1) by (simp_all add: positive_def trim_text_id)
  have "trim_text (33 # p) = 33 # p"
    using assms(1) by (intro trim_text_id) (simp_all add: positive_def is_white_def)
  then have "minimatch eng rnd f (33 # p) options = and_res (and_res (new_Minimatch eng rnd p options)
      (\<lambda>mm. mm\<lparr>mm_negate := True\<rparr>)) (\<lambda>mm. mm_match eng mm f False)"
    using make_negated [OF assms(1) opts(1)] by (simp add: minimatch_def is_comment_def)
  moreover have "minimatch eng rnd f p options =
      and_res (new_Minimatch eng rnd p options) (\<lambda>mm. mm_match eng mm f False)"
    using p by (simp add: minimatch_def is_comment_def)
  moreover have "mm_match eng (mm\<lparr>mm_negate := True\<rparr>) f False = (\<not> mm_match eng mm f False)"
    if "new_Minimatch eng rnd p options = Returns (Inr mm)" for mm
    using new_Minimatch_fields [OF that assms(1)] opts by (simp add: mm_match_def Let_def)
  ultimately show ?thesis
    by (cases "new_Minimatch eng rnd p options")
      (auto simp: and_res_def and_then_def split: sum.splits)
qed

theorem minimatch_negated_witness:
  "minimatch plain_engine (\<lambda>_. js ''0.5'') (js ''b'') (js ''!a'') (\<lambda>_. None) =
    and_res (minimatch plain_engine (\<lambda>_. js ''0.5'') (js ''b'') (js ''a'') (\<lambda>_. None)) Not"
  using minimatch_negated [of "js ''a''" "\<lambda>_. None" plain_engine "\<lambda>_. js ''0.5''" "js ''b''"]
  by (simp add: positive_def without_def on_def js_def of_char_of is_white_def)

end
