(* ===== verification/Js_Objects.thy ===== *)
theory Js_Objects
  imports Js_Text "HOL-Library.Multiset"
begin

text \<open>
  Two parts of the language that several modules rely on: the order in which the keys of an object
  are enumerated, and \<open>Array.prototype.sort\<close> with a comparison function.
\<close>

section \<open>Keys of objects\<close>

text \<open>
  The keys of an object in the order in which they are enumerated: array indices by their value,
  the other keys in the order in which they were added.
\<close>

definition add_key :: "jstring \<Rightarrow> jstring list \<Rightarrow> jstring list" where
  "add_key k ks = (if k \<in> set ks then ks else ks @ [k])"

definition is_array_index :: "jstring \<Rightarrow> bool" where
  "is_array_index s \<longleftrightarrow> s \<noteq> [] \<and> list_all is_digit s \<and> (hd s = 48 \<longrightarrow> length s = 1) \<and> int_of_string s < 2 ^ 32 - 1"

definition object_keys :: "jstring list \<Rightarrow> jstring list" where
  "object_keys ks = sort_key int_of_string (filter is_array_index ks) @ filter (\<lambda>k. \<not> is_array_index k) ks"

lemma set_add_key [simp]: "set (add_key k ks) = insert k (set ks)"
  by (auto simp: add_key_def)

lemma distinct_add_key [simp]: "distinct (add_key k ks) = distinct ks"
  by (simp add: add_key_def)

lemma set_object_keys [simp]: "set (object_keys ks) = set ks"
  by (auto simp: object_keys_def)

lemma distinct_object_keys [simp]: "distinct ks \<Longrightarrow> distinct (object_keys ks)"
  by (auto simp: object_keys_def)

lemma length_object_keys [simp]: "length (object_keys ks) = length ks"
  using sum_length_filter_compl [of is_array_index ks] by (simp add: object_keys_def)

lemma object_keys_eq_Nil [simp]: "object_keys ks = [] \<longleftrightarrow> ks = []"
  using set_object_keys [of ks] by (cases ks) (auto simp del: set_object_keys)

section \<open>Sorting with a comparison function\<close>

text \<open>
  \<open>xs.sort(cmp)\<close>, which is stable: one fixed sort, also for comparisons that are not consistent.
  Where the language leaves the result to the engine and it matters (\<open>_.sortBy\<close>), the sort is a
  parameter of which \<open>engine_sort\<close> is assumed.
\<close>

fun insort_with :: "('a \<Rightarrow> 'a \<Rightarrow> int) \<Rightarrow> 'a \<Rightarrow> 'a list \<Rightarrow> 'a list" where
  "insort_with cmp x [] = [x]"
| "insort_with cmp x (y # ys) = (if cmp x y \<le> 0 then x # y # ys else y # insort_with cmp x ys)"

definition sort_with :: "('a \<Rightarrow> 'a \<Rightarrow> int) \<Rightarrow> 'a list \<Rightarrow> 'a list" where
  "sort_with cmp xs = foldr (insort_with cmp) xs []"

lemma set_insort_with [simp]: "set (insort_with cmp x ys) = insert x (set ys)"
  by (induction ys) auto

lemma set_sort_with [simp]: "set (sort_with cmp xs) = set xs"
  by (induction xs) (simp_all add: sort_with_def)

lemma distinct_insort_with: "distinct (insort_with cmp x ys) = distinct (x # ys)"
  by (induction ys) auto

lemma distinct_sort_with [simp]: "distinct (sort_with cmp xs) = distinct xs"
proof (induction xs)
  case (Cons x xs)
  then show ?case using set_sort_with [of cmp xs] by (simp add: sort_with_def distinct_insort_with)
qed (simp add: sort_with_def)

text \<open>A comparison that is total and transitive.\<close>

definition collation :: "('a \<Rightarrow> 'a \<Rightarrow> int) \<Rightarrow> bool" where
  "collation cmp \<longleftrightarrow> (\<forall>a b. cmp a b \<le> 0 \<or> cmp b a \<le> 0) \<and>
     (\<forall>a b c. cmp a b \<le> 0 \<longrightarrow> cmp b c \<le> 0 \<longrightarrow> cmp a c \<le> 0)"

lemma collation_total: "collation cmp \<Longrightarrow> \<not> cmp a b \<le> 0 \<Longrightarrow> cmp b a \<le> 0"
  and collation_trans: "collation cmp \<Longrightarrow> cmp a b \<le> 0 \<Longrightarrow> cmp b c \<le> 0 \<Longrightarrow> cmp a c \<le> 0"
  unfolding collation_def by blast+

lemma sorted_insort_with:
  assumes "collation cmp" "sorted_wrt (\<lambda>a b. cmp a b \<le> 0) ys"
  shows "sorted_wrt (\<lambda>a b. cmp a b \<le> 0) (insort_with cmp x ys)"
  using assms(2)
proof (induction ys)
  case (Cons y ys)
  then show ?case
    using collation_total [OF assms(1), of x y] collation_trans [OF assms(1), of x y] by auto
qed simp

lemma sorted_sort_with: "collation cmp \<Longrightarrow> sorted_wrt (\<lambda>a b. cmp a b \<le> 0) (sort_with cmp xs)"
  by (induction xs) (simp_all add: sort_with_def sorted_insort_with)

subsection \<open>The sort of an engine\<close>

text \<open>
  What the language promises of \<open>xs.sort(cmp)\<close>: when \<open>cmp\<close> is a consistent comparison of the elements,
  the result holds the same elements, in the order of \<open>cmp\<close>. Elements that \<open>cmp\<close> takes for equal may
  come in any order.
\<close>

definition consistent_on :: "'a set \<Rightarrow> ('a \<Rightarrow> 'a \<Rightarrow> int) \<Rightarrow> bool" where
  "consistent_on A cmp \<longleftrightarrow>
     (\<forall>a \<in> A. cmp a a = 0) \<and> (\<forall>a \<in> A. \<forall>b \<in> A. cmp a b < 0 \<longleftrightarrow> 0 < cmp b a) \<and>
     (\<forall>a \<in> A. \<forall>b \<in> A. \<forall>c \<in> A. cmp a b \<le> 0 \<longrightarrow> cmp b c \<le> 0 \<longrightarrow> cmp a c \<le> 0)"

definition engine_sort :: "(('a \<Rightarrow> 'a \<Rightarrow> int) \<Rightarrow> 'a list \<Rightarrow> 'a list) \<Rightarrow> bool" where
  "engine_sort sort_fn \<longleftrightarrow> (\<forall>cmp xs. consistent_on (set xs) cmp \<longrightarrow>
     mset (sort_fn cmp xs) = mset xs \<and> sorted_wrt (\<lambda>a b. cmp a b \<le> 0) (sort_fn cmp xs))"

lemma consistent_total:
  assumes "consistent_on A cmp" "a \<in> A" "b \<in> A" "\<not> cmp a b \<le> 0"
  shows "cmp b a \<le> 0"
proof -
  have "cmp b a < 0" using assms unfolding consistent_on_def by (metis not_le)
  then show ?thesis by simp
qed

lemma mset_insort_with: "mset (insort_with cmp x ys) = add_mset x (mset ys)"
  by (induction ys) auto

lemma mset_sort_with: "mset (sort_with cmp xs) = mset xs"
  by (induction xs) (simp_all add: sort_with_def mset_insort_with)

lemma sorted_insort_with_on:
  assumes "consistent_on A cmp" "x \<in> A" "set ys \<subseteq> A" "sorted_wrt (\<lambda>a b. cmp a b \<le> 0) ys"
  shows "sorted_wrt (\<lambda>a b. cmp a b \<le> 0) (insort_with cmp x ys)"
  using assms(3,4)
proof (induction ys)
  case (Cons y ys)
  have "cmp x z \<le> 0" if "cmp x y \<le> 0" "z \<in> set ys" for z
  proof -
    have "y \<in> A" "z \<in> A" "cmp y z \<le> 0" using Cons.prems that(2) by auto
    with assms(1,2) that(1) show ?thesis unfolding consistent_on_def by blast
  qed
  moreover have "cmp y x \<le> 0" if "\<not> cmp x y \<le> 0"
    using consistent_total [OF assms(1,2) _ that] Cons.prems(1) by simp
  ultimately show ?case using Cons by auto
qed simp

lemma sorted_sort_with_on:
  "consistent_on A cmp \<Longrightarrow> set xs \<subseteq> A \<Longrightarrow> sorted_wrt (\<lambda>a b. cmp a b \<le> 0) (sort_with cmp xs)"
proof (induction xs)
  case (Cons x xs)
  then show ?case
    using sorted_insort_with_on [of A cmp x "sort_with cmp xs"] set_sort_with [of cmp xs]
    by (simp add: sort_with_def)
qed (simp add: sort_with_def)

text \<open>The stable sort is one, and so is the sort that turns equal elements round.\<close>

lemma engine_sort_with: "engine_sort sort_with"
  unfolding engine_sort_def by (auto simp: mset_sort_with intro: sorted_sort_with_on)

definition turning_sort :: "('a \<Rightarrow> 'a \<Rightarrow> int) \<Rightarrow> 'a list \<Rightarrow> 'a list" where
  "turning_sort cmp xs = sort_with cmp (rev xs)"

lemma engine_sort_turning: "engine_sort turning_sort"
  unfolding engine_sort_def turning_sort_def
  by (auto simp: mset_sort_with intro: sorted_sort_with_on)

lemma turning_sort_unstable: "turning_sort (\<lambda>a b. fst a - fst b) [(0, 1), (0, 2)] = [(0, 2), (0, 1)]"
  by (simp add: turning_sort_def sort_with_def)

text \<open>Where no two elements are equal, the result is determined.\<close>

lemma sorted_wrt_unique:
  assumes "mset xs = mset ys" "sorted_wrt R xs" "sorted_wrt R ys"
    and "\<And>a b. a \<in> set xs \<Longrightarrow> b \<in> set xs \<Longrightarrow> R a b \<Longrightarrow> R b a \<Longrightarrow> a = b"
  shows "xs = ys"
  using assms
proof (induction xs arbitrary: ys)
  case (Cons x xs)
  then obtain y ys' where ys: "ys = y # ys'" by (cases ys) auto
  have sets: "set (x # xs) = set ys" using Cons.prems(1) by (metis set_mset_mset)
  have "x = y"
  proof (rule ccontr)
    assume "x \<noteq> y"
    with sets ys have "x \<in> set ys'" "y \<in> set xs" by auto
    then have "R y x" "R x y" using Cons.prems(2,3) ys by auto
    with Cons.prems(4) [of x y] \<open>y \<in> set xs\<close> \<open>x \<noteq> y\<close> show False by simp
  qed
  with Cons ys show ?case by auto
qed simp

lemma engine_sort_eq:
  assumes "engine_sort sort_fn" "consistent_on (set xs) cmp" "mset ys = mset xs" "sorted_wrt (\<lambda>a b. cmp a b \<le> 0) ys"
    and "\<And>a b. a \<in> set xs \<Longrightarrow> b \<in> set xs \<Longrightarrow> cmp a b = 0 \<Longrightarrow> a = b"
  shows "sort_fn cmp xs = ys"
proof -
  have s: "mset (sort_fn cmp xs) = mset xs" "sorted_wrt (\<lambda>a b. cmp a b \<le> 0) (sort_fn cmp xs)"
    using assms(1,2) unfolding engine_sort_def by blast+
  then have set: "set (sort_fn cmp xs) = set xs" by (metis set_mset_mset)
  show ?thesis
  proof (rule sorted_wrt_unique [OF _ s(2) assms(4)])
    fix a b assume ab: "a \<in> set (sort_fn cmp xs)" "b \<in> set (sort_fn cmp xs)" "cmp a b \<le> 0" "cmp b a \<le> 0"
    then have "\<not> cmp a b < 0" using assms(2) set unfolding consistent_on_def by (metis not_le)
    with ab assms(5) set show "a = b" by auto
  qed (simp add: s(1) assms(3))
qed

end
