(* ===== verification/Glob_Common.thy ===== *)
theory Glob_Common
  imports Glob_Minimatch Node_Names Js_Objects
begin

text \<open>
  The part of the bundled \<open>glob\<close> package of \<open>wordcut.js\<close> that its two walkers share (module 15,
  \<open>common.js\<close>): the options and the state of a glob object, ignored paths, absolute paths, marking
  of directories, and the collection of the results.

  The file system (the module \<open>fs\<close>, empty in the bundle) and the collation order of the locale
  are the parameter \<open>host\<close>. The file system does not change during a walk.
\<close>

section \<open>The host\<close>

record fs_error =
  er_code :: string
  er_syscall :: string

record fs_stat =
  isDirectory :: bool
  isSymbolicLink :: bool

record host =
  lstatSync :: "jstring \<Rightarrow> fs_error + fs_stat"
  statSync :: "jstring \<Rightarrow> fs_error + fs_stat"
  readdirSync :: "jstring \<Rightarrow> fs_error + jstring list"
  realpathSync :: "jstring \<Rightarrow> fs_error + jstring"
  localeCompare :: "jstring \<Rightarrow> jstring \<Rightarrow> int"

text \<open>Exceptions of the walkers: those of the language, and errors of the file system.\<close>

datatype glob_error = Thrown js_error | Fs_error fs_error

section \<open>Calls with a state\<close>

text \<open>
  A call reads and changes a state, may throw, and may not return (\<open>None\<close>: the bound on the
  recursion is used up, or a loop runs forever). What is left in the state after an exception is
  not modelled.
\<close>

type_synonym ('s, 'a) call = "'s \<Rightarrow> (glob_error + 'a \<times> 's) option"

definition ret :: "'a \<Rightarrow> ('s, 'a) call" where
  "ret x s = Some (Inr (x, s))"

definition throw :: "glob_error \<Rightarrow> ('s, 'a) call" where
  "throw e s = Some (Inl e)"

definition bind_call :: "('s, 'a) call \<Rightarrow> ('a \<Rightarrow> ('s, 'b) call) \<Rightarrow> ('s, 'b) call" where
  "bind_call m f s =
     (case m s of None \<Rightarrow> None | Some r \<Rightarrow> (case r of Inl e \<Rightarrow> Some (Inl e) | Inr y \<Rightarrow> f (fst y) (snd y)))"

definition reading :: "('s \<Rightarrow> ('s, 'a) call) \<Rightarrow> ('s, 'a) call" where
  "reading f s = f s s"

definition change :: "('s \<Rightarrow> 's) \<Rightarrow> ('s, unit) call" where
  "change f s = Some (Inr ((), f s))"

fun for_each :: "('a \<Rightarrow> ('s, unit) call) \<Rightarrow> 'a list \<Rightarrow> ('s, unit) call" where
  "for_each f [] = ret ()"
| "for_each f (x # xs) = bind_call (f x) (\<lambda>_. for_each f xs)"

fun collect_each :: "('a \<Rightarrow> ('s, 'b) call) \<Rightarrow> 'a list \<Rightarrow> ('s, 'b list) call" where
  "collect_each f [] = ret []"
| "collect_each f (x # xs) = bind_call (f x) (\<lambda>y. bind_call (collect_each f xs) (\<lambda>ys. ret (y # ys)))"

text \<open>A call of the modules on which this one is built.\<close>

definition lift_outcome :: "'a result outcome \<Rightarrow> ('s, 'a) call" where
  "lift_outcome r s =
     (case r of
        Returns (Inr x) \<Rightarrow> Some (Inr (x, s))
      | Returns (Inl e) \<Rightarrow> Some (Inl (Thrown e))
      | _ \<Rightarrow> None)"

text \<open>
  \<open>ensures P m Q\<close>: when the call \<open>m\<close> returns from a state with \<open>P\<close>, its result and the state
  then satisfy \<open>Q\<close>.
\<close>

definition ensures :: "('s \<Rightarrow> bool) \<Rightarrow> ('s, 'a) call \<Rightarrow> ('a \<Rightarrow> 's \<Rightarrow> bool) \<Rightarrow> bool" where
  "ensures P m Q \<longleftrightarrow> (\<forall>s x s'. P s \<longrightarrow> m s = Some (Inr (x, s')) \<longrightarrow> Q x s')"

lemma ensuresD: "ensures P m Q \<Longrightarrow> P s \<Longrightarrow> m s = Some (Inr (x, s')) \<Longrightarrow> Q x s'"
  unfolding ensures_def by blast

lemma ensures_ret: "(\<And>s. P s \<Longrightarrow> Q x s) \<Longrightarrow> ensures P (ret x) Q"
  by (auto simp: ensures_def ret_def)

lemma ensures_throw: "ensures P (throw e) Q"
  by (auto simp: ensures_def throw_def)

lemma ensures_change: "(\<And>s. P s \<Longrightarrow> Q () (f s)) \<Longrightarrow> ensures P (change f) Q"
  by (auto simp: ensures_def change_def)

lemma ensures_bind: "ensures P m R \<Longrightarrow> (\<And>x. ensures (R x) (f x) Q) \<Longrightarrow> ensures P (bind_call m f) Q"
  unfolding ensures_def bind_call_def by (fastforce split: option.splits sum.splits)

lemma ensures_reading: "(\<And>s. P s \<Longrightarrow> ensures (\<lambda>s'. s' = s) (f s) Q) \<Longrightarrow> ensures P (reading f) Q"
  unfolding ensures_def reading_def by blast

lemma ensures_pre: "ensures P m Q \<Longrightarrow> (\<And>s. P' s \<Longrightarrow> P s) \<Longrightarrow> ensures P' m Q"
  unfolding ensures_def by blast

lemma ensures_post: "ensures P m Q \<Longrightarrow> (\<And>x s. Q x s \<Longrightarrow> Q' x s) \<Longrightarrow> ensures P m Q'"
  unfolding ensures_def by blast

lemma ensures_for_each:
  "(\<And>x. x \<in> set xs \<Longrightarrow> ensures I (f x) (\<lambda>_. I)) \<Longrightarrow> ensures I (for_each f xs) (\<lambda>_. I)"
proof (induction xs)
  case (Cons x xs)
  then show ?case by (auto intro: ensures_bind)
qed (auto intro: ensures_ret)

lemma ensures_if: "(b \<Longrightarrow> ensures P m Q) \<Longrightarrow> (\<not> b \<Longrightarrow> ensures P m' Q) \<Longrightarrow> ensures P (if b then m else m') Q"
  by simp

section \<open>Glob objects\<close>

text \<open>
  What is known of a path: \<open>false\<close>, \<open>true\<close>, \<open>'FILE'\<close>, \<open>'DIR'\<close> or the entries of the directory. A
  match set that has not been created yet is \<open>None\<close>. \<open>g_console\<close> is what was written to the
  console, \<open>g_deprecationWarned\<close> the variable of the module.
\<close>

datatype cached = Absent | Exists | File | Dir | Entries "jstring list"

record ignore_item =
  matcher :: minimatch
  gmatcher :: "minimatch option"

record glob_options =
  go_flags :: options
  go_cwd :: "jstring option"
  go_root :: "jstring option"
  go_maxLength :: "nat option"
  go_cache :: "jstring \<rightharpoonup> cached"
  go_statCache :: "jstring \<rightharpoonup> fs_stat"
  go_symlinks :: "jstring \<rightharpoonup> bool"
  go_ignore :: "jstring list"

record glob =
  g_silent :: bool
  g_strict :: bool
  g_realpath :: bool
  g_follow :: bool
  g_dot :: bool
  g_mark :: bool
  g_nodir :: bool
  g_nounique :: bool
  g_nonull :: bool
  g_nosort :: bool
  g_nocase :: bool
  g_stat :: bool
  g_noprocess :: bool
  g_nomount :: bool
  g_maxLength :: "nat option"
  g_cache :: "jstring \<rightharpoonup> cached"
  g_statCache :: "jstring \<rightharpoonup> fs_stat"
  g_symlinks :: "jstring \<rightharpoonup> bool"
  g_ignore :: "ignore_item list"
  g_changedCwd :: bool
  g_cwd :: jstring
  g_root :: jstring
  g_minimatch :: minimatch
  g_matches :: "jstring list option list"
  g_found :: "jstring list option"
  g_deprecationWarned :: bool
  g_console :: "string list"

section \<open>Paths\<close>

text \<open>\<open>path.resolve\<close> and \<open>path.join\<close> of strings, which never throw.\<close>

definition resolve_paths :: "jstring list \<Rightarrow> jstring" where
  "resolve_paths ps = (case resolve (map Some ps) of Inr p \<Rightarrow> p | Inl _ \<Rightarrow> [])"

definition join_paths :: "jstring list \<Rightarrow> jstring" where
  "join_paths ps = (case path_join (map Some ps) of Inr p \<Rightarrow> p | Inl _ \<Rightarrow> [])"

text \<open>\<open>path-is-absolute\<close> is its POSIX version where \<open>process.platform\<close> is not \<open>win32\<close>.\<close>

definition makeAbs :: "glob \<Rightarrow> jstring \<Rightarrow> jstring" where
  "makeAbs self f =
     (if f \<noteq> [] \<and> hd f = slash then join_paths [g_root self, f]
      else if posix f \<or> f = [] then f
      else if g_changedCwd self then resolve_paths [g_cwd self, f]
      else resolve_paths [f])"

section \<open>Setting up\<close>

function strip_globstars :: "jstring \<Rightarrow> jstring" where
  "strip_globstars s = (if suffix (js ''/**'') s then strip_globstars (take (length s - 3) s) else s)"
  by auto

termination
  by (relation "measure length") (auto simp: suffix_def js_def)

declare strip_globstars.simps [simp del]

definition ignoreMap :: "js_engine \<Rightarrow> (mark \<Rightarrow> jstring) \<Rightarrow> jstring \<Rightarrow> ('s, ignore_item) call" where
  "ignoreMap eng rnd pattern =
     bind_call
       (if suffix (js ''/**'') pattern
        then bind_call (lift_outcome (new_Minimatch eng rnd (strip_globstars pattern) (\<lambda>_. None)))
               (\<lambda>gm. ret (Some gm))
        else ret None)
       (\<lambda>gmatcher.
     bind_call (lift_outcome (new_Minimatch eng rnd pattern (\<lambda>_. None))) (\<lambda>matcher.
     ret \<lparr>matcher = matcher, gmatcher = gmatcher\<rparr>))"

definition setupIgnores :: "js_engine \<Rightarrow> (mark \<Rightarrow> jstring) \<Rightarrow> jstring list \<Rightarrow> ('s, ignore_item list) call" where
  "setupIgnores eng rnd ignore = collect_each (ignoreMap eng rnd) ignore"

text \<open>The messages of \<open>deprecationWarning\<close>; \<open>process\<close> has none of the properties that suppress them.\<close>

definition deprecationWarning :: "options \<Rightarrow> bool \<Rightarrow> string list \<times> bool" where
  "deprecationWarning options warned =
     (if \<not> on options ''nonegate'' \<or> \<not> on options ''nocomment'' then
        if \<not> warned then ([''glob WARNING: comments and negation will be disabled in v6''], True)
        else ([], warned)
      else ([], warned))"

definition base_pattern :: "options \<Rightarrow> jstring \<Rightarrow> jstring result" where
  "base_pattern options pattern =
     (if on options ''matchBase'' \<and> slash \<notin> set pattern then
        if on options ''noglobstar'' then Inl (ErrorObj ''base matching requires globstar'')
        else Inr (js ''**/'' @ pattern)
      else Inr pattern)"

text \<open>\<open>options.nonegate\<close> and \<open>options.nocomment\<close> become true unless they are \<open>false\<close>.\<close>

definition glob_flags :: "options \<Rightarrow> options" where
  "glob_flags flags =
     flags(''nonegate'' \<mapsto> flags ''nonegate'' \<noteq> Some False, ''nocomment'' \<mapsto> flags ''nocomment'' \<noteq> Some False)"

definition glob_root :: "jstring option \<Rightarrow> jstring \<Rightarrow> jstring" where
  "glob_root r cwd =
     resolve_paths [case r of Some p \<Rightarrow> if p \<noteq> [] then p else resolve_paths [cwd, [slash]]
                    | None \<Rightarrow> resolve_paths [cwd, [slash]]]"

text \<open>The fields of a new glob object.\<close>

definition initial_glob ::
    "glob_options \<Rightarrow> ignore_item list \<Rightarrow> minimatch \<Rightarrow> string list \<times> bool \<Rightarrow> glob" where
  "initial_glob options ignore mm warning =
     (let flags = go_flags options;
          cwd = (case go_cwd options of None \<Rightarrow> process_cwd | Some c \<Rightarrow> c) in
      \<lparr>g_silent = on flags ''silent'', g_strict = (flags ''strict'' \<noteq> Some False),
       g_realpath = on flags ''realpath'', g_follow = on flags ''follow'', g_dot = on flags ''dot'',
       g_mark = on flags ''mark'' \<or> on flags ''nodir'', g_nodir = on flags ''nodir'',
       g_nounique = on flags ''nounique'', g_nonull = on flags ''nonull'', g_nosort = on flags ''nosort'',
       g_nocase = on flags ''nocase'', g_stat = on flags ''stat'', g_noprocess = on flags ''noprocess'',
       g_nomount = on flags ''nomount'',
       g_maxLength = (if go_maxLength options = Some 0 then None else go_maxLength options),
       g_cache = go_cache options, g_statCache = go_statCache options, g_symlinks = go_symlinks options,
       g_ignore = ignore,
       g_changedCwd = (case go_cwd options of None \<Rightarrow> False | Some c \<Rightarrow> resolve_paths [c] \<noteq> process_cwd),
       g_cwd = cwd, g_root = glob_root (go_root options) cwd, g_minimatch = mm, g_matches = [],
       g_found = None, g_deprecationWarned = snd warning, g_console = fst warning\<rparr>)"

definition setopts ::
    "js_engine \<Rightarrow> (mark \<Rightarrow> jstring) \<Rightarrow> bool \<Rightarrow> jstring \<Rightarrow> glob_options \<Rightarrow> ('s, glob) call" where
  "setopts eng rnd warned pattern options =
     (let flags = go_flags options; flags' = glob_flags flags in
      bind_call (lift_outcome (Returns (base_pattern flags pattern))) (\<lambda>pattern.
      bind_call (setupIgnores eng rnd (go_ignore options)) (\<lambda>ignore.
      bind_call (lift_outcome (new_Minimatch eng rnd pattern flags')) (\<lambda>mm.
      ret (initial_glob options ignore mm (deprecationWarning flags' warned))))))"

section \<open>Ignored paths\<close>

definition isIgnored :: "js_engine \<Rightarrow> glob \<Rightarrow> jstring \<Rightarrow> bool" where
  "isIgnored eng self path =
     list_ex (\<lambda>item. mm_match eng (matcher item) path False \<or>
       (case gmatcher item of None \<Rightarrow> False | Some gm \<Rightarrow> mm_match eng gm path False)) (g_ignore self)"

definition childrenIgnored :: "js_engine \<Rightarrow> glob \<Rightarrow> jstring \<Rightarrow> bool" where
  "childrenIgnored eng self path =
     list_ex (\<lambda>item. case gmatcher item of None \<Rightarrow> False | Some gm \<Rightarrow> mm_match eng gm path False) (g_ignore self)"

section \<open>Marking and collecting\<close>

definition ends_with_slash :: "jstring \<Rightarrow> bool" where
  "ends_with_slash p \<longleftrightarrow> p \<noteq> [] \<and> last p = slash"

fun is_dir_entry :: "cached \<Rightarrow> bool" where
  "is_dir_entry Dir = True"
| "is_dir_entry (Entries es) = True"
| "is_dir_entry _ = False"

text \<open>Writing \<open>undefined\<close> into the cache of stats is the same as no entry, for every reader.\<close>

definition mark_path :: "jstring \<Rightarrow> (glob, jstring) call" where
  "mark_path p = reading (\<lambda>self.
     let absPath = makeAbs self p in
     case g_cache self absPath of
       None \<Rightarrow> ret p
     | Some c \<Rightarrow>
         if c = Absent then ret p
         else
           let isDir = is_dir_entry c;
               m = (if isDir \<and> \<not> ends_with_slash p then p @ [slash]
                    else if \<not> isDir \<and> ends_with_slash p then butlast p
                    else p);
               mabs = makeAbs self m
           in if m \<noteq> p then
                bind_call (change (\<lambda>self. self\<lparr>g_statCache := (g_statCache self)(mabs := g_statCache self absPath),
                  g_cache := (g_cache self)(mabs := g_cache self absPath)\<rparr>)) (\<lambda>_. ret m)
              else ret m)"

definition alphasort :: "host \<Rightarrow> jstring \<Rightarrow> jstring \<Rightarrow> int" where
  "alphasort h a b = localeCompare h a b"

definition alphasorti :: "js_engine \<Rightarrow> host \<Rightarrow> jstring \<Rightarrow> jstring \<Rightarrow> int" where
  "alphasorti eng h a b = localeCompare h (lower eng a) (lower eng b)"

text \<open>
  \<open>all\<close> is an array or the keys of an object, by \<open>nounique\<close>: the match sets in order, with the
  pattern itself for an empty one when \<open>nonull\<close> is set.
\<close>

definition add_match :: "bool \<Rightarrow> jstring \<Rightarrow> jstring list \<Rightarrow> jstring list" where
  "add_match nou m all = (if nou then all @ [m] else add_key m all)"

definition add_matches :: "glob \<Rightarrow> jstring list option \<Rightarrow> jstring \<Rightarrow> jstring list \<Rightarrow> jstring list" where
  "add_matches self matches literal all =
     (if matches = None \<or> matches = Some [] then
        (if g_nonull self then add_match (g_nounique self) literal all else all)
      else fold (add_match (g_nounique self)) (object_keys (the matches)) all)"

fun gather :: "glob \<Rightarrow> jstring list option list \<Rightarrow> jstring list \<Rightarrow> jstring list \<Rightarrow> jstring list" where
  "gather self (matches # ms) globSet all =
     gather self ms (tl globSet) (add_matches self matches (hd globSet) all)"
| "gather self [] globSet all = all"

definition all_matches :: "glob \<Rightarrow> jstring list" where
  "all_matches self =
     (let all = gather self (g_matches self) (mm_globSet (g_minimatch self)) []
      in if g_nounique self then all else object_keys all)"

definition finish :: "js_engine \<Rightarrow> host \<Rightarrow> (glob, unit) call" where
  "finish eng h = reading (\<lambda>self.
     let all = all_matches self;
         all = (if \<not> g_nosort self
                then sort_with (if g_nocase self then alphasorti eng h else alphasort h) all else all) in
     bind_call
       (if g_mark self then
          bind_call (collect_each mark_path all) (\<lambda>all.
          ret (if g_nodir self then filter (\<lambda>e. \<not> ends_with_slash e) all else all))
        else ret all)
       (\<lambda>all.
     change (\<lambda>self. self\<lparr>g_found := Some (if g_ignore self \<noteq> []
       then filter (\<lambda>m. \<not> isIgnored eng self m) all else all)\<rparr>)))"
end
