(* ===== verification/Glob_Sync.thy ===== *)
theory Glob_Sync
  imports Glob_Common
begin

text \<open>
  The synchronous walker \<open>GlobSync\<close> of the bundled \<open>glob\<close> package of \<open>wordcut.js\<close> (module 17,
  \<open>sync.js\<close>), which finds the dictionary files of the word cutter: it expands a pattern against the
  file system, one part at a time, and remembers what it has learned in its caches.
\<close>

section \<open>Reading directories\<close>

definition cache_put :: "jstring \<Rightarrow> cached \<Rightarrow> (glob, unit) call" where
  "cache_put absPath c = change (\<lambda>self. self\<lparr>g_cache := (g_cache self)(absPath \<mapsto> c)\<rparr>)"

definition child :: "jstring \<Rightarrow> jstring \<Rightarrow> jstring" where
  "child absPath e = (if absPath = [slash] then absPath @ e else absPath @ [slash] @ e)"

definition readdirEntries :: "jstring \<Rightarrow> jstring list \<Rightarrow> (glob, jstring list) call" where
  "readdirEntries absPath entries = reading (\<lambda>self.
     bind_call
       (if \<not> g_mark self \<and> \<not> g_stat self then for_each (\<lambda>e. cache_put (child absPath e) Exists) entries else ret ())
       (\<lambda>_. bind_call (cache_put absPath (Entries entries)) (\<lambda>_. ret entries)))"

definition readdirError :: "jstring \<Rightarrow> fs_error \<Rightarrow> (glob, unit) call" where
  "readdirError f er = reading (\<lambda>self.
     if er_code er \<in> {''ENOTSUP'', ''ENOTDIR''} then cache_put (makeAbs self f) File
     else if er_code er \<in> {''ENOENT'', ''ELOOP'', ''ENAMETOOLONG'', ''UNKNOWN''} then
       cache_put (makeAbs self f) Absent
     else bind_call (cache_put (makeAbs self f) Absent) (\<lambda>_.
       if g_strict self then throw (Fs_error er)
       else if \<not> g_silent self then change (\<lambda>self. self\<lparr>g_console := g_console self @ [''glob error'']\<rparr>)
       else ret ()))"

text \<open>\<open>_readdir(absPath, false)\<close>; the result is \<open>None\<close> for \<open>null\<close>.\<close>

definition readdir_plain :: "host \<Rightarrow> jstring \<Rightarrow> (glob, jstring list option) call" where
  "readdir_plain h absPath = reading (\<lambda>self.
     let fresh =
       (case readdirSync h absPath of
          Inr entries \<Rightarrow> bind_call (readdirEntries absPath entries) (\<lambda>entries. ret (Some entries))
        | Inl er \<Rightarrow> bind_call (readdirError absPath er) (\<lambda>_. ret None)) in
     case g_cache self absPath of
       Some Absent \<Rightarrow> ret None
     | Some File \<Rightarrow> ret None
     | Some (Entries es) \<Rightarrow> ret (Some es)
     | _ \<Rightarrow> fresh)"

definition readdirInGlobStar :: "host \<Rightarrow> jstring \<Rightarrow> (glob, jstring list option) call" where
  "readdirInGlobStar h absPath = reading (\<lambda>self.
     if g_follow self then readdir_plain h absPath
     else
       case lstatSync h absPath of
         Inl er \<Rightarrow> ret None
       | Inr lstat \<Rightarrow>
           let isSym = isSymbolicLink lstat in
           bind_call (change (\<lambda>self. self\<lparr>g_symlinks := (g_symlinks self)(absPath \<mapsto> isSym)\<rparr>)) (\<lambda>_.
           if \<not> isSym \<and> \<not> isDirectory lstat then bind_call (cache_put absPath File) (\<lambda>_. ret None)
           else readdir_plain h absPath))"

definition readdir :: "host \<Rightarrow> jstring \<Rightarrow> bool \<Rightarrow> (glob, jstring list option) call" where
  "readdir h absPath inGlobStar = reading (\<lambda>self.
     if inGlobStar \<and> absPath \<notin> dom (g_symlinks self) then readdirInGlobStar h absPath else readdir_plain h absPath)"

section \<open>Stats\<close>

definition too_long :: "glob \<Rightarrow> jstring \<Rightarrow> bool" where
  "too_long self f = (case g_maxLength self of None \<Rightarrow> False | Some n \<Rightarrow> length f > n)"

text \<open>The answer of the cache, when it has one that settles the question.\<close>

definition cached_stat :: "glob \<Rightarrow> jstring \<Rightarrow> bool \<Rightarrow> cached option" where
  "cached_stat self absPath needDir =
     (if g_stat self then None
      else case g_cache self absPath of
        None \<Rightarrow> None
      | Some c \<Rightarrow>
          let c = (case c of Entries es \<Rightarrow> Dir | _ \<Rightarrow> c) in
          if \<not> needDir \<or> c = Dir then Some c
          else if c = File then Some Absent
          else None)"

definition stat_of :: "host \<Rightarrow> glob \<Rightarrow> jstring \<Rightarrow> fs_stat option" where
  "stat_of h self absPath =
     (case g_statCache self absPath of
        Some stat \<Rightarrow> Some stat
      | None \<Rightarrow>
          (case lstatSync h absPath of
             Inl er \<Rightarrow> None
           | Inr lstat \<Rightarrow>
               if isSymbolicLink lstat
               then Some (case statSync h absPath of Inl er \<Rightarrow> lstat | Inr stat \<Rightarrow> stat)
               else Some lstat))"

definition stat_path :: "host \<Rightarrow> jstring \<Rightarrow> (glob, cached) call" where
  "stat_path h f = reading (\<lambda>self.
     let absPath = makeAbs self f; needDir = ends_with_slash f in
     if too_long self f then ret Absent
     else case cached_stat self absPath needDir of
       Some c \<Rightarrow> ret c
     | None \<Rightarrow>
         case stat_of h self absPath of
           None \<Rightarrow> ret Absent
         | Some stat \<Rightarrow>
             let c = (if isDirectory stat then Dir else File) in
             bind_call (change (\<lambda>self. self\<lparr>g_statCache := (g_statCache self)(absPath \<mapsto> stat)\<rparr>)) (\<lambda>_.
             bind_call (cache_put absPath (case g_cache self absPath of None \<Rightarrow> c | Some Absent \<Rightarrow> c | Some c' \<Rightarrow> c')) (\<lambda>_.
             ret (if needDir \<and> c \<noteq> Dir then Absent else c))))"

section \<open>The walk\<close>

definition create_matches :: "nat \<Rightarrow> (glob, unit) call" where
  "create_matches index = change (\<lambda>self. case g_matches self ! index of
     None \<Rightarrow> self\<lparr>g_matches := (g_matches self)[index := Some []]\<rparr>
   | Some ks \<Rightarrow> self)"

definition put_match :: "nat \<Rightarrow> jstring \<Rightarrow> (glob, unit) call" where
  "put_match index e = change (\<lambda>self. self\<lparr>g_matches :=
     (g_matches self)[index := map_option (add_key e) (g_matches self ! index)]\<rparr>)"

definition mount :: "glob \<Rightarrow> jstring \<Rightarrow> jstring" where
  "mount self e = (if e \<noteq> [] \<and> hd e = slash \<and> \<not> g_nomount self then join_paths [g_root self, e] else e)"

text \<open>An absolute path is one with a leading slash here, so that \<open>path.join\<close> is always chosen.\<close>

definition processSimple :: "host \<Rightarrow> jstring \<Rightarrow> nat \<Rightarrow> (glob, unit) call" where
  "processSimple h pfx index =
     bind_call (stat_path h pfx) (\<lambda>exists.
     bind_call (create_matches index) (\<lambda>_.
     if exists = Absent then ret ()
     else reading (\<lambda>self. put_match index (mount self pfx))))"

text \<open>The pieces of a pattern: the leading strings, joined (\<open>None\<close> without one), and the rest.\<close>

fun leading :: "part list \<Rightarrow> jstring list \<times> part list" where
  "leading (Literal s # ps) = (case leading ps of (ss, rest) \<Rightarrow> (s # ss, rest))"
| "leading ps = ([], ps)"

type_synonym walk = "part list \<Rightarrow> nat \<Rightarrow> bool \<Rightarrow> (glob, unit) call"

definition with_prefix :: "jstring option \<Rightarrow> part list" where
  "with_prefix pfx = (case pfx of Some p \<Rightarrow> if p \<noteq> [] then [Literal p] else [] | None \<Rightarrow> [])"

definition join_prefix :: "jstring option \<Rightarrow> jstring \<Rightarrow> jstring" where
  "join_prefix pfx e =
     (case pfx of
        Some p \<Rightarrow> if p = [] then e else if last p \<noteq> slash then p @ [slash] @ e else p @ e
      | None \<Rightarrow> e)"

text \<open>Which entries of a directory match the next part: \<open>e.match(pn)\<close>.\<close>

definition matched_entries ::
    "js_engine \<Rightarrow> glob \<Rightarrow> bool \<Rightarrow> glob_regexp \<Rightarrow> jstring \<Rightarrow> jstring list \<Rightarrow> jstring list" where
  "matched_entries eng self no_prefix pn rawGlob entries =
     (let negate = mm_negate (g_minimatch self);
          dotOk = g_dot self \<or> (rawGlob \<noteq> [] \<and> hd rawGlob = dot) in
      filter (\<lambda>e. (\<not> (e \<noteq> [] \<and> hd e = dot) \<or> dotOk) \<and>
        (if negate \<and> no_prefix then \<not> re_test eng (re_source pn) (re_ignore_case pn) e
         else re_test eng (re_source pn) (re_ignore_case pn) e)) entries)"

text \<open>
  \<open>this.dot || rawGlob.charAt(0) === '.'\<close>: a part without \<open>_glob\<close> (the regular expression that
  stands for one that does not compile) makes \<open>rawGlob.charAt\<close> throw, but only where \<open>dot\<close> is not
  set; with \<open>dot\<close> the raw text is not looked at.
\<close>

definition raw_glob :: "glob \<Rightarrow> glob_regexp \<Rightarrow> jstring option" where
  "raw_glob self pn =
     (case re_glob pn of Some rawGlob \<Rightarrow> Some rawGlob | None \<Rightarrow> if g_dot self then Some [] else None)"

definition enter_matched ::
    "js_engine \<Rightarrow> walk \<Rightarrow> jstring option \<Rightarrow> part list \<Rightarrow> nat \<Rightarrow> bool \<Rightarrow> jstring list \<Rightarrow> (glob, unit) call" where
  "enter_matched eng self_process pfx remain index inGlobStar entries =
     (case remain of
        Magic pn # rest \<Rightarrow> reading (\<lambda>self.
          (case raw_glob self pn of
             None \<Rightarrow> throw (Thrown TypeError)
           | Some rawGlob \<Rightarrow>
               let no_prefix = (pfx = None \<or> pfx = Some []);
                   matchedEntries = matched_entries eng self no_prefix pn rawGlob entries in
               if matchedEntries = [] then ret ()
               else if rest = [] \<and> \<not> g_mark self \<and> \<not> g_stat self then
                 bind_call (create_matches index) (\<lambda>_.
                 for_each (\<lambda>e. put_match index (mount self (join_prefix pfx e))) matchedEntries)
               else
                 for_each (\<lambda>e. self_process (with_prefix pfx @ Literal e # rest) index inGlobStar)
                   matchedEntries))
      | _ \<Rightarrow> throw (Thrown TypeError))"

definition processReaddir ::
    "js_engine \<Rightarrow> host \<Rightarrow> walk \<Rightarrow> jstring option \<Rightarrow> jstring \<Rightarrow> part list \<Rightarrow> nat \<Rightarrow> bool \<Rightarrow> (glob, unit) call" where
  "processReaddir eng h self_process pfx absPath remain index inGlobStar =
     bind_call (readdir h absPath inGlobStar) (\<lambda>found.
     case found of
       None \<Rightarrow> ret ()
     | Some entries \<Rightarrow> enter_matched eng self_process pfx remain index inGlobStar entries)"

definition enter_all ::
    "walk \<Rightarrow> jstring option \<Rightarrow> jstring \<Rightarrow> part list \<Rightarrow> nat \<Rightarrow> bool \<Rightarrow> jstring list \<Rightarrow> (glob, unit) call" where
  "enter_all self_process pfx absPath remain index inGlobStar entries =
     (let remainWithoutGlobStar = tl remain; gspref = with_prefix pfx in
      bind_call (self_process (gspref @ remainWithoutGlobStar) index False) (\<lambda>_. reading (\<lambda>self.
      let isSym = (g_symlinks self absPath = Some True) in
      if isSym \<and> inGlobStar then ret ()
      else for_each (\<lambda>e.
        if e \<noteq> [] \<and> hd e = dot \<and> \<not> g_dot self then ret ()
        else bind_call (self_process (gspref @ Literal e # remainWithoutGlobStar) index True) (\<lambda>_.
          self_process (gspref @ Literal e # remain) index True)) entries)))"

definition processGlobStar ::
    "host \<Rightarrow> walk \<Rightarrow> jstring option \<Rightarrow> jstring \<Rightarrow> part list \<Rightarrow> nat \<Rightarrow> bool \<Rightarrow> (glob, unit) call" where
  "processGlobStar h self_process pfx absPath remain index inGlobStar =
     bind_call (readdir h absPath inGlobStar) (\<lambda>found.
     case found of
       None \<Rightarrow> ret ()
     | Some entries \<Rightarrow> enter_all self_process pfx absPath remain index inGlobStar entries)"

text \<open>
  \<open>isAbsolute(pattern.join('/'))\<close> looks at the first unit only: it is that of the prefix and the
  slash behind it, which the rest of the pattern follows.
\<close>

definition absolute_prefix :: "jstring option \<Rightarrow> jstring option" where
  "absolute_prefix pfx =
     (case pfx of
        None \<Rightarrow> None
      | Some p \<Rightarrow>
          if posix p \<or> posix (p @ [slash]) then Some (if p = [] \<or> \<not> posix p then [slash] @ p else p)
          else Some p)"

definition process_step :: "js_engine \<Rightarrow> host \<Rightarrow> walk \<Rightarrow> walk" where
  "process_step eng h self_process pattern index inGlobStar =
     (case leading pattern of (strings, remain) \<Rightarrow>
        if remain = [] then processSimple h (join [slash] strings) index
        else reading (\<lambda>self.
          let pfx = absolute_prefix (if strings = [] then None else Some (join [slash] strings));
              read = (case pfx of None \<Rightarrow> [dot] | Some p \<Rightarrow> p);
              absPath = makeAbs self read in
          if childrenIgnored eng self read then ret ()
          else if hd remain = Globstar then processGlobStar h self_process pfx absPath remain index inGlobStar
          else processReaddir eng h self_process pfx absPath remain index inGlobStar))"

text \<open>The recursion of \<open>_process\<close>, to a bounded depth.\<close>

primrec process :: "js_engine \<Rightarrow> host \<Rightarrow> nat \<Rightarrow> walk" where
  "process eng h 0 = (\<lambda>pattern index inGlobStar self. None)"
| "process eng h (Suc n) = process_step eng h (process eng h n)"

section \<open>Glob objects of the synchronous walker\<close>

text \<open>\<open>_emitMatch\<close> is not called by this walker.\<close>

definition emitMatch :: "host \<Rightarrow> nat \<Rightarrow> jstring \<Rightarrow> (glob, unit) call" where
  "emitMatch h index e = reading (\<lambda>self.
     bind_call (if g_mark self then mark_path e else ret e) (\<lambda>e. reading (\<lambda>self.
     case g_matches self ! index of
       None \<Rightarrow> throw (Thrown TypeError)
     | Some ks \<Rightarrow>
         if e \<in> set ks then ret ()
         else if g_nodir self \<and> (case g_cache self (makeAbs self e) of None \<Rightarrow> False | Some c \<Rightarrow> is_dir_entry c)
         then ret ()
         else bind_call (put_match index e) (\<lambda>_.
           if g_stat self then bind_call (stat_path h e) (\<lambda>_. ret ()) else ret ()))))"

text \<open>The real paths of a match set; an error of the system call \<open>stat\<close> keeps the path.\<close>

fun real_paths :: "host \<Rightarrow> glob \<Rightarrow> jstring list \<Rightarrow> jstring list \<Rightarrow> glob_error + jstring list" where
  "real_paths h self [] acc = Inr acc"
| "real_paths h self (p # ps) acc =
     (let p = makeAbs self p in
      case realpathSync h p of
        Inr real \<Rightarrow> real_paths h self ps (add_key real acc)
      | Inl er \<Rightarrow>
          if er_syscall er = ''stat'' then real_paths h self ps (add_key (makeAbs self p) acc)
          else Inl (Fs_error er))"

definition real_matchset :: "host \<Rightarrow> nat \<Rightarrow> (glob, unit) call" where
  "real_matchset h index = reading (\<lambda>self.
     case g_matches self ! index of
       None \<Rightarrow> ret ()
     | Some ks \<Rightarrow>
         (case real_paths h self (object_keys ks) [] of
            Inl e \<Rightarrow> throw e
          | Inr ks' \<Rightarrow> change (\<lambda>self. self\<lparr>g_matches := (g_matches self)[index := Some ks']\<rparr>)))"

definition sync_finish :: "js_engine \<Rightarrow> host \<Rightarrow> (glob, unit) call" where
  "sync_finish eng h = reading (\<lambda>self.
     bind_call (if g_realpath self then for_each (real_matchset h) [0..<length (g_matches self)] else ret ())
       (\<lambda>_. finish eng h))"

definition run_patterns :: "js_engine \<Rightarrow> host \<Rightarrow> nat \<Rightarrow> (glob, unit) call" where
  "run_patterns eng h n self =
     (let patterns = mm_set (g_minimatch self) in
      bind_call (for_each (\<lambda>i. process eng h n (patterns ! i) i False) [0..<length patterns])
        (\<lambda>_. sync_finish eng h)
        (self\<lparr>g_matches := replicate (length patterns) None\<rparr>))"

definition GlobSync ::
    "js_engine \<Rightarrow> (mark \<Rightarrow> jstring) \<Rightarrow> host \<Rightarrow> nat \<Rightarrow> bool \<Rightarrow> jstring \<Rightarrow> glob_options \<Rightarrow> (glob_error + glob) option" where
  "GlobSync eng rnd h n warned pattern options =
     (if pattern = [] then Some (Inl (Thrown (ErrorObj ''must provide pattern'')))
      else case setopts eng rnd warned pattern options () of
        None \<Rightarrow> None
      | Some (Inl e) \<Rightarrow> Some (Inl e)
      | Some (Inr (self, _)) \<Rightarrow>
          if g_noprocess self then Some (Inr self)
          else map_option (map_sum id snd) (run_patterns eng h n self))"

definition globSync ::
    "js_engine \<Rightarrow> (mark \<Rightarrow> jstring) \<Rightarrow> host \<Rightarrow> nat \<Rightarrow> bool \<Rightarrow> jstring \<Rightarrow> glob_options
      \<Rightarrow> (glob_error + jstring list option) option" where
  "globSync eng rnd h n warned pattern options =
     map_option (map_sum id g_found) (GlobSync eng rnd h n warned pattern options)"

end
