(* ===== verification/Glob_Walk.thy ===== *)
theory Glob_Walk
  imports Glob_Sync
begin

text \<open>
  What the synchronous walker finds: every path it returns matches the pattern part by part, and
  can be statted, but for one exception: a path that a pattern names as a directory to be read
  (\<open>f/x\<close> of \<open>f/x/*\<close>) and whose listing fails with \<open>ENOTDIR\<close> is remembered as a file, and passes
  for one with the other patterns. The file system is a parameter; what is assumed of it is
  \<open>file_system\<close>.
\<close>

section \<open>Absolute paths\<close>

text \<open>The absolute path with the given components.\<close>

definition at_root :: "jstring list \<Rightarrow> jstring" where
  "at_root ws = slash # join [slash] ws"

definition cwd_parts :: "glob \<Rightarrow> jstring list" where
  "cwd_parts c = (if g_changedCwd c then resolve_parts [g_cwd c] else [])"

definition walk_parts :: "glob \<Rightarrow> jstring \<Rightarrow> jstring list" where
  "walk_parts c p = walk False (cwd_parts c @ path_parts p)"

lemma resolve_paths_at_root: "resolve_paths ps = at_root (walk False (resolve_parts ps))"
  by (simp add: resolve_paths_def resolve_walk at_root_def)

lemma makeAbs_relative:
  assumes "p \<noteq> []" "hd p \<noteq> slash"
  shows "makeAbs c p = at_root (walk_parts c p)"
proof -
  from assms have "\<not> isAbsolute p" by (cases p) (auto simp: isAbsolute_def)
  then show ?thesis
    using assms by (simp add: makeAbs_def posix_def resolve_paths_at_root walk_parts_def cwd_parts_def resolve_parts_def)
qed

lemma makeAbs_Nil [simp]: "makeAbs c [] = []"
  by (simp add: makeAbs_def)

lemma walk_parts_plain: "list_all plain (walk_parts c p)"
proof -
  have "\<forall>x \<in> set (cwd_parts c). component x"
    using resolve_parts_components [of _ "[g_cwd c]"] by (simp add: cwd_parts_def)
  then show ?thesis
    unfolding walk_parts_def by (intro walk_plain) (auto intro: path_parts_components)
qed

lemma plain_components: "list_all plain ws \<Longrightarrow> \<forall>x \<in> set ws. component x"
  by (auto simp: list_all_iff plain_component)

lemma walk_snoc_plain: "plain e \<Longrightarrow> walk False (xs @ [e]) = walk False xs @ [e]"
  by (simp add: walk_append plain_def walk_step_simps)

lemma path_parts_plain: "plain e \<Longrightarrow> path_parts e = [e]"
  using path_parts_join [of "[e]"] by (simp add: plain_component)

lemma join_snoc: "join d (xs @ [x]) = (if xs = [] then x else join d xs @ d @ x)"
  by (induction xs) (auto simp: join_Cons)

lemma at_root_snoc: "list_all plain ws \<Longrightarrow> child (at_root ws) e = at_root (ws @ [e])"
  using join_components(1) [OF plain_components] by (auto simp: child_def at_root_def join_snoc)

lemma walk_parts_child: "plain e \<Longrightarrow> walk_parts c (p @ slash # e) = walk_parts c p @ [e]"
  by (simp add: walk_parts_def path_parts_append path_parts_plain walk_snoc_plain flip: append_assoc)

lemma makeAbs_child:
  assumes "p \<noteq> []" "hd p \<noteq> slash" "plain e"
  shows "makeAbs c (p @ slash # e) = child (makeAbs c p) e"
  using assms makeAbs_relative [of "p @ slash # e" c]
  by (simp add: makeAbs_relative walk_parts_child at_root_snoc walk_parts_plain)

lemma plain_hd: "plain e \<Longrightarrow> e \<noteq> [] \<and> hd e \<noteq> slash \<and> last e \<noteq> slash"
  by (metis hd_in_set last_in_set plain_def)

lemma walk_parts_dot_child:
  assumes "plain e"
  shows "walk_parts c e = walk_parts c [dot] @ [e]"
proof -
  have "path_parts [dot] = [[dot]]" by (simp add: path_parts_def slash_def dot_def)
  then have "walk_parts c [dot] = walk False (cwd_parts c)"
    by (simp add: walk_parts_def walk_append walk_step_simps)
  moreover have "walk_parts c e = walk False (cwd_parts c) @ [e]"
    using assms by (simp add: walk_parts_def path_parts_plain walk_snoc_plain)
  ultimately show ?thesis by simp
qed

lemma makeAbs_dot_child: "plain e \<Longrightarrow> makeAbs c e = child (makeAbs c [dot]) e"
  using plain_hd [of e] walk_parts_plain [of c "[dot]"]
  by (simp add: makeAbs_relative at_root_snoc walk_parts_dot_child dot_def slash_def)

text \<open>With the default root, making an absolute path absolute changes nothing.\<close>

lemma makeAbs_at_root:
  assumes "g_root c = [slash]" "list_all plain ws"
  shows "makeAbs c (at_root ws) = at_root ws"
proof -
  note comp = plain_components [OF assms(2)]
  have parts: "path_parts (join [slash] [[slash], at_root ws]) = ws"
    using path_parts_join [OF comp] by (simp add: at_root_def)
  have last: "last (join [slash] [[slash], at_root ws]) = slash \<longleftrightarrow> ws = []"
    using join_components(1,3) [OF comp] by (cases "ws = []") (auto simp: at_root_def)
  have "normalize (join [slash] [[slash], at_root ws]) = render True (ws = []) (normalizeArray ws False)"
    unfolding normalize_render parts last by (simp add: isAbsolute_def)
  also have "normalizeArray ws False = ws"
    using assms(2) by (intro normalizeArray_id) (auto simp: normal_def list_all_iff plain_def dest: set_dropWhileD)
  also have "render True (ws = []) ws = at_root ws"
    using join_components(1) [OF comp] by (simp add: render_def at_root_def Let_def)
  finally show ?thesis
    using assms(1) by (simp add: makeAbs_def join_paths_def path_join_def at_root_def)
qed

section \<open>What the caches hold\<close>

text \<open>
  The assumptions on the file system: a directory that can be listed is there, and so are its
  entries, which are names of one component other than \<open>.\<close> and \<open>..\<close>.
\<close>

definition file_system :: "host \<Rightarrow> bool" where
  "file_system h \<longleftrightarrow> (\<forall>p es. readdirSync h p = Inr es \<longrightarrow>
     (\<exists>st. lstatSync h p = Inr st) \<and>
     (\<forall>e \<in> set es. plain e \<and> (\<exists>st. lstatSync h (child p e) = Inr st)))"

text \<open>
  The walker takes a path for existing when it can be statted, and also when listing it has failed
  because it is no directory (\<open>ENOTDIR\<close> is also the answer for \<open>f/x\<close> when \<open>f\<close> is a file). The
  parameter \<open>N\<close> are the directories that are read because a pattern names them; every other one
  that is read has been listed in its parent.
\<close>

definition not_a_directory :: "host \<Rightarrow> jstring \<Rightarrow> bool" where
  "not_a_directory h p \<longleftrightarrow> (\<exists>er. readdirSync h p = Inl er \<and> er_code er \<in> {''ENOTSUP'', ''ENOTDIR''})"

definition occurs :: "host \<Rightarrow> jstring set \<Rightarrow> jstring \<Rightarrow> bool" where
  "occurs h N p \<longleftrightarrow> (\<exists>st. lstatSync h p = Inr st) \<or> not_a_directory h p \<and> p \<in> N"

definition known :: "host \<Rightarrow> jstring set \<Rightarrow> jstring \<Rightarrow> bool" where
  "known h N p \<longleftrightarrow> (\<exists>st. lstatSync h p = Inr st) \<or> p \<in> N"

definition cache_ok :: "host \<Rightarrow> jstring set \<Rightarrow> (jstring \<rightharpoonup> cached) \<Rightarrow> bool" where
  "cache_ok h N cache \<longleftrightarrow> (\<forall>p c. cache p = Some c \<longrightarrow>
     (c \<noteq> Absent \<longrightarrow> occurs h N p) \<and> (\<forall>es. c = Entries es \<longrightarrow> readdirSync h p = Inr es))"

text \<open>The part of the state that a walk does not change.\<close>

definition same_config :: "glob \<Rightarrow> glob \<Rightarrow> bool" where
  "same_config s c \<longleftrightarrow>
     g_strict s = g_strict c \<and> g_silent s = g_silent c \<and> g_follow s = g_follow c \<and> g_dot s = g_dot c \<and>
     g_mark s = g_mark c \<and> g_stat s = g_stat c \<and> g_nomount s = g_nomount c \<and> g_root s = g_root c \<and>
     g_cwd s = g_cwd c \<and> g_changedCwd s = g_changedCwd c \<and> g_minimatch s = g_minimatch c \<and> g_ignore s = g_ignore c \<and>
     g_maxLength s = g_maxLength c \<and> g_nosort s = g_nosort c \<and> g_nounique s = g_nounique c \<and> g_nonull s = g_nonull c \<and>
     g_realpath s = g_realpath c \<and> g_nocase s = g_nocase c \<and> g_nodir s = g_nodir c \<and> g_noprocess s = g_noprocess c"

definition walk_inv :: "host \<Rightarrow> jstring set \<Rightarrow> glob \<Rightarrow> (nat \<Rightarrow> jstring set) \<Rightarrow> glob \<Rightarrow> bool" where
  "walk_inv h N c K s \<longleftrightarrow> same_config s c \<and> cache_ok h N (g_cache s) \<and>
     (\<forall>p st. g_statCache s p = Some st \<longrightarrow> occurs h N p) \<and>
     (\<forall>i ks. i < length (g_matches s) \<longrightarrow> g_matches s ! i = Some ks \<longrightarrow> distinct ks \<and> set ks \<subseteq> K i)"

lemma config_fields:
  assumes "same_config s c"
  shows "g_strict s = g_strict c" "g_silent s = g_silent c" "g_follow s = g_follow c" "g_dot s = g_dot c"
    "g_mark s = g_mark c" "g_stat s = g_stat c" "g_nomount s = g_nomount c" "g_root s = g_root c"
    "g_cwd s = g_cwd c" "g_changedCwd s = g_changedCwd c" "g_minimatch s = g_minimatch c" "g_ignore s = g_ignore c"
    "g_maxLength s = g_maxLength c" "g_nosort s = g_nosort c" "g_nounique s = g_nounique c" "g_nonull s = g_nonull c"
    "g_realpath s = g_realpath c" "g_nocase s = g_nocase c" "g_nodir s = g_nodir c" "g_noprocess s = g_noprocess c"
  using assms by (simp_all only: same_config_def)

lemma config_makeAbs: "same_config s c \<Longrightarrow> makeAbs s p = makeAbs c p"
  by (simp add: makeAbs_def config_fields)

lemma same_config_updates [simp]:
  "same_config (s\<lparr>g_cache := x\<rparr>) c = same_config s c" "same_config (s\<lparr>g_statCache := y\<rparr>) c = same_config s c"
  "same_config (s\<lparr>g_symlinks := z\<rparr>) c = same_config s c" "same_config (s\<lparr>g_matches := m\<rparr>) c = same_config s c"
  "same_config (s\<lparr>g_console := t\<rparr>) c = same_config s c"
  by (simp_all add: same_config_def)

lemma walk_inv_makeAbs: "walk_inv h N c K s \<Longrightarrow> makeAbs s p = makeAbs c p"
  by (simp add: walk_inv_def config_makeAbs)

text \<open>What may be written into the cache.\<close>

lemma ensures_cache_put:
  assumes "c' \<noteq> Absent \<Longrightarrow> occurs h N p" "\<And>es. c' = Entries es \<Longrightarrow> readdirSync h p = Inr es"
  shows "ensures (walk_inv h N c K) (cache_put p c') (\<lambda>_. walk_inv h N c K)"
  unfolding cache_put_def by (rule ensures_change) (use assms in \<open>auto simp: walk_inv_def cache_ok_def\<close>)

lemma list_update_nth: "j < length xs \<Longrightarrow> xs[i := v] ! j = (if i = j then v else xs ! j)"
  by simp

lemma ensures_put_match:
  assumes "k \<in> K i"
  shows "ensures (walk_inv h N c K) (put_match i k) (\<lambda>_. walk_inv h N c K)"
  unfolding put_match_def
  by (rule ensures_change) (use assms in \<open>fastforce simp: walk_inv_def list_update_nth split: if_splits\<close>)

lemma ensures_create_matches: "ensures (walk_inv h N c K) (create_matches i) (\<lambda>_. walk_inv h N c K)"
  unfolding create_matches_def
  by (rule ensures_change) (auto simp: walk_inv_def list_update_nth split: option.split if_splits)

section \<open>The operations keep this\<close>

lemma ensures_reading_inv: "(\<And>s. P s \<Longrightarrow> ensures P (f s) Q) \<Longrightarrow> ensures P (reading f) Q"
  unfolding ensures_def reading_def by blast

lemma ensures_seq: "ensures P m (\<lambda>_. R) \<Longrightarrow> (\<And>x. ensures R (f x) Q) \<Longrightarrow> ensures P (bind_call m f) Q"
  by (rule ensures_bind)

lemma ensures_change_inv:
  "(\<And>s. walk_inv h N c K s \<Longrightarrow> walk_inv h N c K (f s)) \<Longrightarrow> ensures (walk_inv h N c K) (change f) (\<lambda>_. walk_inv h N c K)"
  by (rule ensures_change)

lemma occurs_listed: "file_system h \<Longrightarrow> readdirSync h p = Inr es \<Longrightarrow> occurs h N p"
  and occurs_entry: "file_system h \<Longrightarrow> readdirSync h p = Inr es \<Longrightarrow> e \<in> set es \<Longrightarrow> occurs h N (child p e)"
  and entry_plain: "file_system h \<Longrightarrow> readdirSync h p = Inr es \<Longrightarrow> e \<in> set es \<Longrightarrow> plain e"
  unfolding file_system_def occurs_def by blast+

lemma ensures_readdirEntries:
  assumes "file_system h" "readdirSync h p = Inr es"
  shows "ensures (walk_inv h N c K) (readdirEntries p es) (\<lambda>r s. walk_inv h N c K s \<and> r = es)"
  unfolding readdirEntries_def
proof (rule ensures_reading_inv, rule ensures_seq)
  fix s assume "walk_inv h N c K s"
  show "ensures (walk_inv h N c K) (if \<not> g_mark s \<and> \<not> g_stat s
      then for_each (\<lambda>e. cache_put (child p e) Exists) es else ret ()) (\<lambda>_. walk_inv h N c K)"
    using assms by (auto intro!: ensures_for_each ensures_cache_put ensures_ret occurs_entry)
  show "ensures (walk_inv h N c K) (bind_call (cache_put p (Entries es)) (\<lambda>_. ret es))
      (\<lambda>r s. walk_inv h N c K s \<and> r = es)" for x :: unit
    using assms by (intro ensures_seq [OF ensures_cache_put]) (auto intro: ensures_ret occurs_listed)
qed

lemma ensures_readdirError:
  assumes "readdirSync h p = Inl er" "makeAbs c p = p" "known h N p"
  shows "ensures (walk_inv h N c K) (readdirError p er) (\<lambda>_. walk_inv h N c K)"
  unfolding readdirError_def
proof (rule ensures_reading_inv)
  fix s assume "walk_inv h N c K s"
  then have p: "makeAbs s p = p" using assms(2) by (simp add: walk_inv_makeAbs)
  have "ensures (walk_inv h N c K) (cache_put p Absent) (\<lambda>_. walk_inv h N c K)"
    by (rule ensures_cache_put) simp_all
  moreover have "ensures (walk_inv h N c K) (cache_put p File) (\<lambda>_. walk_inv h N c K)"
    if "er_code er \<in> {''ENOTSUP'', ''ENOTDIR''}"
    using that assms(1,3) by (intro ensures_cache_put) (auto simp: occurs_def known_def not_a_directory_def)
  moreover have "ensures (walk_inv h N c K) (change (\<lambda>self. self\<lparr>g_console := g_console self @ [''glob error'']\<rparr>))
      (\<lambda>_. walk_inv h N c K)"
    by (rule ensures_change) (simp add: walk_inv_def)
  ultimately show "ensures (walk_inv h N c K)
     (if er_code er \<in> {''ENOTSUP'', ''ENOTDIR''} then cache_put (makeAbs s p) File
      else if er_code er \<in> {''ENOENT'', ''ELOOP'', ''ENAMETOOLONG'', ''UNKNOWN''} then cache_put (makeAbs s p) Absent
      else bind_call (cache_put (makeAbs s p) Absent) (\<lambda>_.
        if g_strict s then throw (Fs_error er)
        else if \<not> g_silent s then change (\<lambda>self. self\<lparr>g_console := g_console self @ [''glob error'']\<rparr>)
        else ret ())) (\<lambda>_. walk_inv h N c K)"
    by (auto simp: p intro!: ensures_seq intro: ensures_throw ensures_ret)
qed

definition listing :: "host \<Rightarrow> jstring \<Rightarrow> jstring list option \<Rightarrow> bool" where
  "listing h p r \<longleftrightarrow> (\<forall>es. r = Some es \<longrightarrow> readdirSync h p = Inr es)"

lemma ensures_readdir_plain:
  assumes "file_system h" "makeAbs c p = p" "known h N p"
  shows "ensures (walk_inv h N c K) (readdir_plain h p) (\<lambda>r s. walk_inv h N c K s \<and> listing h p r)"
  unfolding readdir_plain_def
proof (rule ensures_reading_inv, unfold Let_def)
  fix s assume "walk_inv h N c K s"
  then have entries: "g_cache s p = Some (Entries es) \<Longrightarrow> readdirSync h p = Inr es" for es
    unfolding walk_inv_def cache_ok_def by blast
  have fresh: "ensures (walk_inv h N c K)
      (case readdirSync h p of
         Inl er \<Rightarrow> bind_call (readdirError p er) (\<lambda>_. ret None)
       | Inr entries \<Rightarrow> bind_call (readdirEntries p entries) (\<lambda>entries. ret (Some entries)))
      (\<lambda>r s. walk_inv h N c K s \<and> listing h p r)"
    using assms
    by (auto split: sum.split simp: listing_def intro!: ensures_ret
        ensures_bind [OF ensures_readdirEntries] ensures_seq [OF ensures_readdirError])
  show "ensures (walk_inv h N c K)
      (case g_cache s p of
         None \<Rightarrow> case readdirSync h p of
           Inl er \<Rightarrow> bind_call (readdirError p er) (\<lambda>_. ret None)
         | Inr entries \<Rightarrow> bind_call (readdirEntries p entries) (\<lambda>entries. ret (Some entries))
       | Some Absent \<Rightarrow> ret None
       | Some File \<Rightarrow> ret None
       | Some (Entries es) \<Rightarrow> ret (Some es)
       | Some _ \<Rightarrow> case readdirSync h p of
           Inl er \<Rightarrow> bind_call (readdirError p er) (\<lambda>_. ret None)
         | Inr entries \<Rightarrow> bind_call (readdirEntries p entries) (\<lambda>entries. ret (Some entries)))
      (\<lambda>r s. walk_inv h N c K s \<and> listing h p r)"
    using fresh entries by (auto split: option.split cached.split intro!: ensures_ret simp: listing_def)
qed

lemma ensures_readdir:
  assumes "file_system h" "makeAbs c p = p" "known h N p"
  shows "ensures (walk_inv h N c K) (readdir h p g) (\<lambda>r s. walk_inv h N c K s \<and> listing h p r)"
proof -
  note plain = ensures_readdir_plain [OF assms]
  have filed: "ensures (walk_inv h N c K) (bind_call (cache_put p File) (\<lambda>_. ret None))
      (\<lambda>r s. walk_inv h N c K s \<and> listing h p r)" if "lstatSync h p = Inr st" for st
    using that by (intro ensures_seq [OF ensures_cache_put]) (auto simp: occurs_def listing_def intro: ensures_ret)
  have sym: "ensures (walk_inv h N c K) (change (\<lambda>self. self\<lparr>g_symlinks := (g_symlinks self)(p \<mapsto> b)\<rparr>))
      (\<lambda>_. walk_inv h N c K)" for b
    by (rule ensures_change) (simp add: walk_inv_def)
  have "ensures (walk_inv h N c K) (readdirInGlobStar h p) (\<lambda>r s. walk_inv h N c K s \<and> listing h p r)"
    unfolding readdirInGlobStar_def
    by (rule ensures_reading_inv)
      (auto simp: Let_def listing_def split: sum.split intro!: ensures_ret ensures_seq [OF sym] plain [unfolded listing_def]
        filed [unfolded listing_def])
  with plain show ?thesis unfolding readdir_def by (auto intro!: ensures_reading_inv)
qed

lemma stat_of_occurs:
  assumes "walk_inv h N c K s" "stat_of h s p = Some st"
  shows "occurs h N p"
  using assms by (auto simp: walk_inv_def stat_of_def occurs_def split: option.splits sum.splits if_splits)

lemma cached_stat_occurs:
  assumes "walk_inv h N c K s" "cached_stat s p needDir = Some r" "r \<noteq> Absent"
  shows "occurs h N p"
proof -
  from assms(2,3) obtain c' where c': "g_cache s p = Some c'" "c' \<noteq> Absent"
    by (auto simp: cached_stat_def Let_def split: if_splits option.splits cached.splits)
  with assms(1) show ?thesis unfolding walk_inv_def cache_ok_def by blast
qed

lemma ensures_stat_path:
  "ensures (walk_inv h N c K) (stat_path h f) (\<lambda>r s. walk_inv h N c K s \<and> (r \<noteq> Absent \<longrightarrow> occurs h N (makeAbs c f)))"
  unfolding stat_path_def
proof (rule ensures_reading_inv)
  fix s assume s: "walk_inv h N c K s"
  let ?p = "makeAbs c f"
  have p: "makeAbs s f = ?p" using s by (rule walk_inv_makeAbs)
  have entries: "g_cache s ?p = Some (Entries es) \<Longrightarrow> readdirSync h ?p = Inr es" for es
    using s unfolding walk_inv_def cache_ok_def by blast
  have new: "ensures (walk_inv h N c K)
      (bind_call (change (\<lambda>self. self\<lparr>g_statCache := (g_statCache self)(?p \<mapsto> st)\<rparr>)) (\<lambda>_.
       bind_call (cache_put ?p v) (\<lambda>_. ret r)))
      (\<lambda>r s. walk_inv h N c K s \<and> (r \<noteq> Absent \<longrightarrow> occurs h N ?p))"
    if st: "stat_of h s ?p = Some st" and v: "\<And>es. v = Entries es \<Longrightarrow> readdirSync h ?p = Inr es" for st v r
  proof (intro ensures_seq [OF ensures_change_inv] ensures_seq [OF ensures_cache_put] ensures_ret)
    note occ = stat_of_occurs [OF s st]
    show "walk_inv h N c K s' \<Longrightarrow> walk_inv h N c K (s'\<lparr>g_statCache := (g_statCache s')(?p \<mapsto> st)\<rparr>)" for s'
      using occ by (auto simp: walk_inv_def)
    show "occurs h N ?p" by (rule occ)
    show "walk_inv h N c K s' \<Longrightarrow> walk_inv h N c K s' \<and> (r \<noteq> Absent \<longrightarrow> occurs h N ?p)" for s' using occ by simp
  qed (rule v)
  show "ensures (walk_inv h N c K)
      (let absPath = makeAbs s f; needDir = ends_with_slash f
       in if too_long s f then ret Absent
          else case cached_stat s absPath needDir of
            None \<Rightarrow> (case stat_of h s absPath of
              None \<Rightarrow> ret Absent
            | Some stat \<Rightarrow>
                let c = if isDirectory stat then Dir else File
                in bind_call (change (\<lambda>self. self\<lparr>g_statCache := (g_statCache self)(absPath \<mapsto> stat)\<rparr>)) (\<lambda>_.
                   bind_call (cache_put absPath
                     (case g_cache s absPath of None \<Rightarrow> c | Some Absent \<Rightarrow> c | Some c' \<Rightarrow> c')) (\<lambda>_.
                   ret (if needDir \<and> c \<noteq> Dir then Absent else c))))
          | Some c \<Rightarrow> ret c)
      (\<lambda>r s. walk_inv h N c K s \<and> (r \<noteq> Absent \<longrightarrow> occurs h N (makeAbs c f)))"
    unfolding Let_def p using cached_stat_occurs [OF s, of ?p]
    by (auto split: option.split cached.split intro!: ensures_ret new dest: entries)
qed

section \<open>What a walk may find\<close>

text \<open>
  The paths, as lists of parts, that the walker may find for a pattern: strings stand for
  themselves, a regular expression for an entry that it matches, a globstar for any number of
  entries, hidden ones only when \<open>dot\<close> is set.
\<close>

inductive walk_match :: "js_engine \<Rightarrow> bool \<Rightarrow> jstring list \<Rightarrow> part list \<Rightarrow> bool" for eng hidden where
  at_end: "walk_match eng hidden [] []"
| same: "walk_match eng hidden fs ps \<Longrightarrow> walk_match eng hidden (s # fs) (Literal s # ps)"
| hit: "plain f \<Longrightarrow> re_test eng (re_source r) (re_ignore_case r) f \<Longrightarrow> walk_match eng hidden fs ps \<Longrightarrow>
    walk_match eng hidden (f # fs) (Magic r # ps)"
| stop: "walk_match eng hidden fs ps \<Longrightarrow> walk_match eng hidden fs (Globstar # ps)"
| swallow: "plain f \<Longrightarrow> (hd f = dot \<longrightarrow> hidden) \<Longrightarrow> walk_match eng hidden fs (Globstar # ps) \<Longrightarrow>
    walk_match eng hidden (f # fs) (Globstar # ps)"

inductive_cases walk_match_NilE: "walk_match eng hidden fs []"
inductive_cases walk_match_LiteralE: "walk_match eng hidden fs (Literal s # ps)"

lemma walk_match_strings:
  "walk_match eng hidden fs (map Literal ss @ ps) \<longleftrightarrow> (\<exists>fs'. fs = ss @ fs' \<and> walk_match eng hidden fs' ps)"
proof (induction ss arbitrary: fs)
  case (Cons s ss)
  then show ?case by (auto elim: walk_match_LiteralE intro: same)
qed simp

text \<open>Patterns for relative paths whose strings are not empty, but for a last one.\<close>

fun walkable :: "part list \<Rightarrow> bool" where
  "walkable [] = True"
| "walkable (Literal s # ps) \<longleftrightarrow>
     (s = [] \<or> hd s \<noteq> slash) \<and> (ps \<noteq> [] \<longrightarrow> s \<noteq> [] \<and> last s \<noteq> slash) \<and> walkable ps"
| "walkable (p # ps) = walkable ps"

lemma walkable_tl: "walkable (p # ps) \<Longrightarrow> walkable ps"
  by (cases p) auto

lemma walkable_strings:
  assumes "walkable (map Literal ss @ ps)" "ss \<noteq> []"
  shows "walkable ps \<and> (join [slash] ss = [] \<or> hd (join [slash] ss) \<noteq> slash) \<and>
    (ps \<noteq> [] \<longrightarrow> join [slash] ss \<noteq> [] \<and> last (join [slash] ss) \<noteq> slash)"
  using assms
proof (induction ss)
  case (Cons s ss)
  then show ?case by (cases ss) auto
qed simp

lemma leading_split: "leading ps = (ss, rest) \<Longrightarrow> ps = map Literal ss @ rest \<and> (\<forall>s r. rest \<noteq> Literal s # r)"
  by (induction ps arbitrary: ss rule: leading.induct) (auto split: prod.splits)

lemma join_merge: "ss \<noteq> [] \<Longrightarrow> join d (join d ss # ys) = join d (ss @ ys)"
  by (induction ss) (auto simp: join_Cons)

text \<open>The keys that a pattern may add to a match set.\<close>

definition allowed :: "js_engine \<Rightarrow> host \<Rightarrow> jstring set \<Rightarrow> glob \<Rightarrow> jstring set \<Rightarrow> part list \<Rightarrow> bool" where
  "allowed eng h N c A ps \<longleftrightarrow>
     (\<forall>fs. walk_match eng (g_dot c) fs ps \<longrightarrow> occurs h N (makeAbs c (join [slash] fs)) \<longrightarrow> join [slash] fs \<in> A)"

definition joined :: "jstring list \<Rightarrow> jstring option" where
  "joined ss = (if ss = [] then None else Some (join [slash] ss))"

lemma allowed_prefix:
  assumes "allowed eng h N c A (map Literal ss @ ps)" "ss \<noteq> [] \<longrightarrow> join [slash] ss \<noteq> []"
    and "\<And>fs. walk_match eng (g_dot c) fs ps' \<Longrightarrow> walk_match eng (g_dot c) fs ps"
  shows "allowed eng h N c A (with_prefix (joined ss) @ ps')"
  unfolding allowed_def
proof (intro allI impI)
  fix fs assume fs: "walk_match eng (g_dot c) fs (with_prefix (joined ss) @ ps')"
    "occurs h N (makeAbs c (join [slash] fs))"
  show "join [slash] fs \<in> A"
  proof (cases "ss = []")
    case True
    with fs assms(1,3) show ?thesis by (simp add: with_prefix_def joined_def allowed_def)
  next
    case False
    with fs(1) assms(2) obtain fs' where fs': "fs = join [slash] ss # fs'" "walk_match eng (g_dot c) fs' ps'"
      by (auto simp: with_prefix_def joined_def elim: walk_match_LiteralE)
    then have "walk_match eng (g_dot c) (ss @ fs') (map Literal ss @ ps)"
      using assms(3) by (simp add: walk_match_strings)
    then show ?thesis
      using assms(1) fs(2) fs'(1) join_merge [OF False, of "[slash]" fs'] by (simp add: allowed_def)
  qed
qed

lemma walkable_prefix:
  assumes "walkable (map Literal ss @ ps)" "ps \<noteq> []" "walkable ps'"
  shows "walkable (with_prefix (joined ss) @ ps')"
  using walkable_strings [OF assms(1)] assms(2,3) by (auto simp: with_prefix_def joined_def)

lemma mount_relative: "p = [] \<or> hd p \<noteq> slash \<Longrightarrow> mount s p = p"
  by (auto simp: mount_def)

section \<open>Every path that is found matches and occurs\<close>

lemma ensures_processSimple:
  assumes "occurs h N (makeAbs c p) \<Longrightarrow> p \<in> K i" "p = [] \<or> hd p \<noteq> slash"
  shows "ensures (walk_inv h N c K) (processSimple h p i) (\<lambda>_. walk_inv h N c K)"
  unfolding processSimple_def
proof (rule ensures_bind [OF ensures_stat_path])
  fix r
  show "ensures (\<lambda>s. walk_inv h N c K s \<and> (r \<noteq> Absent \<longrightarrow> occurs h N (makeAbs c p)))
     (bind_call (create_matches i) (\<lambda>_. if r = Absent then ret ()
        else reading (\<lambda>self. put_match i (mount self p)))) (\<lambda>_. walk_inv h N c K)"
  proof (cases "r = Absent \<or> occurs h N (makeAbs c p)")
    case True
    then have "ensures (walk_inv h N c K)
       (bind_call (create_matches i) (\<lambda>_. if r = Absent then ret ()
          else reading (\<lambda>self. put_match i (mount self p)))) (\<lambda>_. walk_inv h N c K)"
      using assms
      by (auto simp: mount_relative intro!: ensures_seq [OF ensures_create_matches] ensures_ret ensures_reading_inv
          ensures_put_match)
    then show ?thesis by (rule ensures_pre) simp
  qed (auto simp: ensures_def)
qed

text \<open>The entries of a directory are passed on to \<open>f\<close>.\<close>

lemma ensures_listing:
  assumes "file_system h" "makeAbs c p = p" "known h N p"
    and "\<And>es. readdirSync h p = Inr es \<Longrightarrow> ensures (walk_inv h N c K) (f es) (\<lambda>_. walk_inv h N c K)"
  shows "ensures (walk_inv h N c K)
    (bind_call (readdir h p g) (\<lambda>found. case found of None \<Rightarrow> ret () | Some es \<Rightarrow> f es)) (\<lambda>_. walk_inv h N c K)"
proof (rule ensures_bind [OF ensures_readdir [OF assms(1-3)]])
  fix r
  show "ensures (\<lambda>s. walk_inv h N c K s \<and> listing h p r)
      (case r of None \<Rightarrow> ret () | Some es \<Rightarrow> f es) (\<lambda>_. walk_inv h N c K)"
  proof (cases "listing h p r")
    case True
    with assms(4) have "ensures (walk_inv h N c K) (case r of None \<Rightarrow> ret () | Some es \<Rightarrow> f es) (\<lambda>_. walk_inv h N c K)"
      by (auto simp: listing_def split: option.split intro: ensures_ret)
    then show ?thesis by (rule ensures_pre) simp
  qed (auto simp: ensures_def)
qed

lemma ensures_processReaddir:
  assumes "file_system h" "makeAbs c p = p" "known h N p" "\<not> mm_negate (g_minimatch c)"
    and each: "\<And>es e pn rest. readdirSync h p = Inr es \<Longrightarrow> e \<in> set es \<Longrightarrow> remain = Magic pn # rest \<Longrightarrow>
      re_test eng (re_source pn) (re_ignore_case pn) e \<Longrightarrow>
      (rest = [] \<longrightarrow> join_prefix pfx e \<in> K i \<and> hd (join_prefix pfx e) \<noteq> slash) \<and>
      ensures (walk_inv h N c K) (proc (with_prefix pfx @ Literal e # rest) i g) (\<lambda>_. walk_inv h N c K)"
  shows "ensures (walk_inv h N c K) (processReaddir eng h proc pfx p remain i g) (\<lambda>_. walk_inv h N c K)"
  unfolding processReaddir_def
proof (rule ensures_listing [OF assms(1-3)])
  fix es assume list: "readdirSync h p = Inr es"
  have entries: "e \<in> set es \<and> re_test eng (re_source pn) (re_ignore_case pn) e"
    if "walk_inv h N c K s" "e \<in> set (matched_entries eng s b pn raw es)" for s b pn raw e
    using that assms(4) by (auto simp: matched_entries_def walk_inv_def config_fields)
  show "ensures (walk_inv h N c K) (enter_matched eng proc pfx remain i g es) (\<lambda>_. walk_inv h N c K)"
    unfolding enter_matched_def using each [OF list] entries
    by (fastforce simp: Let_def mount_relative split: list.split part.split option.split
        intro!: ensures_throw ensures_ret ensures_reading_inv ensures_seq [OF ensures_create_matches]
        ensures_for_each ensures_put_match)
qed

lemma ensures_processGlobStar:
  assumes "file_system h" "makeAbs c p = p" "known h N p"
    and zero: "ensures (walk_inv h N c K) (proc (with_prefix pfx @ tl remain) i False) (\<lambda>_. walk_inv h N c K)"
    and each: "\<And>es e. readdirSync h p = Inr es \<Longrightarrow> e \<in> set es \<Longrightarrow> (hd e = dot \<longrightarrow> g_dot c) \<Longrightarrow>
      ensures (walk_inv h N c K) (proc (with_prefix pfx @ Literal e # tl remain) i True) (\<lambda>_. walk_inv h N c K) \<and>
      ensures (walk_inv h N c K) (proc (with_prefix pfx @ Literal e # remain) i True) (\<lambda>_. walk_inv h N c K)"
  shows "ensures (walk_inv h N c K) (processGlobStar h proc pfx p remain i g) (\<lambda>_. walk_inv h N c K)"
  unfolding processGlobStar_def
proof (rule ensures_listing [OF assms(1-3)])
  fix es assume list: "readdirSync h p = Inr es"
  have body: "ensures (walk_inv h N c K) (bind_call (proc (with_prefix pfx @ Literal e # tl remain) i True) (\<lambda>_.
      proc (with_prefix pfx @ Literal e # remain) i True)) (\<lambda>_. walk_inv h N c K)"
    if "e \<in> set es" "hd e = dot \<longrightarrow> g_dot c" for e
    using each [OF list that] by (auto intro: ensures_seq)
  have ne: "e \<noteq> []" if "e \<in> set es" for e using entry_plain [OF assms(1) list that] by (simp add: plain_def)
  have dots: "g_dot s = g_dot c" if "walk_inv h N c K s" for s
    using that by (simp add: walk_inv_def config_fields)
  show "ensures (walk_inv h N c K) (enter_all proc pfx p remain i g es) (\<lambda>_. walk_inv h N c K)"
    unfolding enter_all_def Let_def using body ne
    by (auto simp: dots intro!: ensures_seq [OF zero] ensures_reading_inv ensures_ret ensures_for_each)
qed

text \<open>The setting of a walk: the default root, no negation, a lawful file system.\<close>

definition walk_setting :: "host \<Rightarrow> glob \<Rightarrow> bool" where
  "walk_setting h c \<longleftrightarrow> file_system h \<and> g_root c = [slash] \<and> \<not> mm_negate (g_minimatch c)"

lemma join_prefix_joined:
  assumes "ss \<noteq> [] \<longrightarrow> join [slash] ss \<noteq> [] \<and> last (join [slash] ss) \<noteq> slash"
  shows "join_prefix (joined ss) e = join [slash] (ss @ [e])"
  using assms by (auto simp: join_prefix_def joined_def join_snoc)

lemma absolute_prefix_joined:
  assumes "ss \<noteq> [] \<longrightarrow> join [slash] ss \<noteq> [] \<and> hd (join [slash] ss) \<noteq> slash"
  shows "absolute_prefix (joined ss) = joined ss"
  using assms by (auto simp: absolute_prefix_def joined_def posix_def)

definition read_path :: "jstring list \<Rightarrow> jstring" where
  "read_path ss = (case joined ss of None \<Rightarrow> [dot] | Some p \<Rightarrow> p)"

lemma read_path_abs:
  assumes "walk_setting h c" "ss \<noteq> [] \<longrightarrow> join [slash] ss \<noteq> [] \<and> hd (join [slash] ss) \<noteq> slash"
  shows "makeAbs c (read_path ss) = at_root (walk_parts c (read_path ss))"
    and "makeAbs c (makeAbs c (read_path ss)) = makeAbs c (read_path ss)"
proof -
  have "read_path ss \<noteq> []" "hd (read_path ss) \<noteq> slash"
    using assms(2) by (auto simp: read_path_def joined_def dot_def slash_def)
  then show p: "makeAbs c (read_path ss) = at_root (walk_parts c (read_path ss))"
    by (rule makeAbs_relative)
  show "makeAbs c (makeAbs c (read_path ss)) = makeAbs c (read_path ss)"
    unfolding p using assms(1) by (intro makeAbs_at_root walk_parts_plain) (simp add: walk_setting_def)
qed

lemma entry_abs:
  assumes "ss \<noteq> [] \<longrightarrow> join [slash] ss \<noteq> [] \<and> hd (join [slash] ss) \<noteq> slash" "plain e"
  shows "makeAbs c (join [slash] (ss @ [e])) = child (makeAbs c (read_path ss)) e"
  using assms makeAbs_child [of "join [slash] ss" e c] makeAbs_dot_child [of e c]
  by (auto simp: read_path_def joined_def join_snoc)

subsection \<open>The directories that are read\<close>

text \<open>
  A directory is read for the leading strings of a pattern in front of another part. What a
  pattern may read: the paths of its initial pieces that are empty or end in a string, and are
  followed by a part that is no string. These can be statted or are in \<open>N\<close>.
\<close>

fun is_string :: "part \<Rightarrow> bool" where
  "is_string (Literal s) = True"
| "is_string _ = False"

definition reading_piece :: "part list \<Rightarrow> part list \<Rightarrow> bool" where
  "reading_piece ps pre \<longleftrightarrow>
     (\<exists>p post. ps = pre @ p # post \<and> \<not> is_string p \<and> (pre = [] \<or> is_string (last pre)))"

definition reads_known :: "js_engine \<Rightarrow> host \<Rightarrow> jstring set \<Rightarrow> glob \<Rightarrow> part list \<Rightarrow> bool" where
  "reads_known eng h N c ps \<longleftrightarrow> (\<forall>pre fs. reading_piece ps pre \<longrightarrow> walk_match eng (g_dot c) fs pre \<longrightarrow>
     known h N (makeAbs c (read_path fs)))"

lemma reads_known_here:
  assumes "reads_known eng h N c (map Literal ss @ r # rest)" "\<not> is_string r"
  shows "known h N (makeAbs c (read_path ss))"
proof -
  have "reading_piece (map Literal ss @ r # rest) (map Literal ss)"
    using assms(2) by (cases ss rule: rev_cases) (auto simp: reading_piece_def)
  moreover have "walk_match eng (g_dot c) ss (map Literal ss)"
    using walk_match_strings [of eng "g_dot c" ss ss "[]"] at_end by simp
  ultimately show ?thesis using assms(1) unfolding reads_known_def by blast
qed

lemma read_path_merge: "ss \<noteq> [] \<Longrightarrow> read_path (join [slash] ss # fs) = read_path (ss @ fs)"
  by (simp add: read_path_def joined_def join_merge)

lemma reading_piece_strings:
  assumes "reading_piece (map Literal ss @ qs) pre"
  obtains pre' where "pre = map Literal ss @ pre'" "reading_piece qs pre'"
    "pre' = [] \<or> is_string (last pre')"
proof -
  from assms obtain p post where pre: "map Literal ss @ qs = pre @ p # post" "\<not> is_string p"
    "pre = [] \<or> is_string (last pre)" unfolding reading_piece_def by blast
  have "length ss \<le> length pre"
  proof (rule ccontr)
    assume "\<not> length ss \<le> length pre"
    then have less: "length pre < length ss" by simp
    have "(map Literal ss @ qs) ! length pre = p" using pre(1) by (simp add: nth_append)
    with less have "p = Literal (ss ! length pre)" by (simp add: nth_append)
    with pre(2) show False by simp
  qed
  define pre' where "pre' = drop (length ss) pre"
  have "take (length ss) (pre @ p # post) = map Literal ss" "drop (length ss) (pre @ p # post) = qs"
    unfolding pre(1) [symmetric] by simp_all
  with \<open>length ss \<le> length pre\<close> have pre': "pre = map Literal ss @ pre'" "qs = pre' @ p # post"
    unfolding pre'_def using append_take_drop_id [of "length ss" pre] by simp_all
  moreover have "pre' = [] \<or> is_string (last pre')" using pre' pre(3) by (cases "pre' = []") auto
  ultimately show ?thesis using pre(2) that unfolding reading_piece_def by blast
qed

lemma reads_known_prefix:
  assumes "ss \<noteq> [] \<longrightarrow> join [slash] ss \<noteq> []"
    and "\<And>pre fs. reading_piece qs pre \<Longrightarrow> walk_match eng (g_dot c) fs pre \<Longrightarrow>
      known h N (makeAbs c (read_path (ss @ fs)))"
  shows "reads_known eng h N c (with_prefix (joined ss) @ qs)"
  unfolding reads_known_def
proof (intro allI impI)
  fix pre fs assume pre: "reading_piece (with_prefix (joined ss) @ qs) pre" "walk_match eng (g_dot c) fs pre"
  show "known h N (makeAbs c (read_path fs))"
  proof (cases "ss = []")
    case True
    with pre assms(2) show ?thesis by (simp add: with_prefix_def joined_def)
  next
    case False
    with assms(1) have "with_prefix (joined ss) = map Literal [join [slash] ss]"
      by (simp add: with_prefix_def joined_def)
    with pre(1) obtain pre' where pre': "pre = map Literal [join [slash] ss] @ pre'" "reading_piece qs pre'"
      using reading_piece_strings by metis
    with pre(2) obtain fs' where "fs = [join [slash] ss] @ fs'" "walk_match eng (g_dot c) fs' pre'"
      using walk_match_strings by blast
    with assms(2) [OF pre'(2)] read_path_merge [OF False] show ?thesis by simp
  qed
qed

text \<open>What a step goes on with: the rest after a globstar, or an entry that has been listed.\<close>

lemma reads_known_rest:
  assumes "reads_known eng h N c (map Literal ss @ Globstar # rest)" "ss \<noteq> [] \<longrightarrow> join [slash] ss \<noteq> []"
  shows "reads_known eng h N c (with_prefix (joined ss) @ rest)"
proof (rule reads_known_prefix [OF assms(2)])
  fix pre fs assume pre: "reading_piece rest pre" "walk_match eng (g_dot c) fs pre"
  show "known h N (makeAbs c (read_path (ss @ fs)))"
  proof (cases "pre = []")
    case True
    with pre(2) have "fs = []" by (auto elim: walk_match_NilE)
    with reads_known_here [OF assms(1)] show ?thesis by simp
  next
    case False
    then have "reading_piece (map Literal ss @ Globstar # rest) (map Literal ss @ Globstar # pre)"
      using pre(1) unfolding reading_piece_def by auto
    moreover have "walk_match eng (g_dot c) (ss @ fs) (map Literal ss @ Globstar # pre)"
      using pre(2) by (auto simp: walk_match_strings intro: stop)
    ultimately show ?thesis using assms(1) unfolding reads_known_def by blast
  qed
qed

lemma reads_known_entry:
  assumes known: "reads_known eng h N c (map Literal ss @ r # rest)"
    and ss: "ss \<noteq> [] \<longrightarrow> join [slash] ss \<noteq> []" "ss \<noteq> [] \<longrightarrow> join [slash] ss \<noteq> [] \<and> hd (join [slash] ss) \<noteq> slash"
    and e: "file_system h" "readdirSync h (makeAbs c (read_path ss)) = Inr es" "e \<in> set es"
    and hits: "\<And>fs pre. walk_match eng (g_dot c) fs pre \<Longrightarrow> walk_match eng (g_dot c) (e # fs) (r # pre)"
  shows "reads_known eng h N c (with_prefix (joined ss) @ Literal e # rest)"
proof (rule reads_known_prefix [OF ss(1)])
  fix pre fs assume pre: "reading_piece (Literal e # rest) pre" "walk_match eng (g_dot c) fs pre"
  from reading_piece_strings [of "[e]" rest pre] pre(1) obtain pre' where
    pre': "pre = Literal e # pre'" "reading_piece rest pre'" "pre' = [] \<or> is_string (last pre')" by auto
  with pre(2) obtain fs' where fs': "fs = e # fs'" "walk_match eng (g_dot c) fs' pre'"
    by (auto elim: walk_match_LiteralE)
  show "known h N (makeAbs c (read_path (ss @ fs)))"
  proof (cases "pre' = []")
    case True
    with fs' have "fs = [e]" by (auto elim: walk_match_NilE)
    moreover have "makeAbs c (read_path (ss @ [e])) = child (makeAbs c (read_path ss)) e"
      using entry_abs [OF ss(2) entry_plain [OF e]] by (simp add: read_path_def joined_def)
    ultimately show ?thesis using e unfolding known_def file_system_def by auto
  next
    case False
    then have "reading_piece (map Literal ss @ r # rest) (map Literal ss @ r # pre')"
      using pre'(2) unfolding reading_piece_def by auto
    moreover have "walk_match eng (g_dot c) (ss @ fs) (map Literal ss @ r # pre')"
      using fs' hits by (auto simp: walk_match_strings)
    ultimately show ?thesis using known unfolding reads_known_def by blast
  qed
qed

lemma reads_known_again:
  assumes known: "reads_known eng h N c (map Literal ss @ Globstar # rest)"
    and ss: "ss \<noteq> [] \<longrightarrow> join [slash] ss \<noteq> []" "ss \<noteq> [] \<longrightarrow> join [slash] ss \<noteq> [] \<and> hd (join [slash] ss) \<noteq> slash"
    and e: "file_system h" "readdirSync h (makeAbs c (read_path ss)) = Inr es" "e \<in> set es" "hd e = dot \<longrightarrow> g_dot c"
  shows "reads_known eng h N c (with_prefix (joined ss) @ Literal e # Globstar # rest)"
proof (rule reads_known_prefix [OF ss(1)])
  note plain = entry_plain [OF e(1-3)]
  fix pre fs assume pre: "reading_piece (Literal e # Globstar # rest) pre" "walk_match eng (g_dot c) fs pre"
  from reading_piece_strings [of "[e]" "Globstar # rest" pre] pre(1) obtain pre' where
    pre': "pre = Literal e # pre'" "reading_piece (Globstar # rest) pre'" "pre' = [] \<or> is_string (last pre')" by auto
  with pre(2) obtain fs' where fs': "fs = e # fs'" "walk_match eng (g_dot c) fs' pre'"
    by (auto elim: walk_match_LiteralE)
  show "known h N (makeAbs c (read_path (ss @ fs)))"
  proof (cases pre')
    case Nil
    with fs' have "fs = [e]" by (auto elim: walk_match_NilE)
    moreover have "makeAbs c (read_path (ss @ [e])) = child (makeAbs c (read_path ss)) e"
      using entry_abs [OF ss(2) plain] by (simp add: read_path_def joined_def)
    ultimately show ?thesis using e unfolding known_def file_system_def by auto
  next
    case (Cons q pre'')
    then have q: "q = Globstar" using pre'(2) unfolding reading_piece_def by auto
    have "reading_piece (map Literal ss @ Globstar # rest) (map Literal ss @ pre')"
      using pre'(2,3) Cons unfolding reading_piece_def by auto
    moreover have "walk_match eng (g_dot c) (ss @ fs) (map Literal ss @ pre')"
      using fs' plain e(4) by (auto simp: walk_match_strings Cons q intro: swallow)
    ultimately show ?thesis using known unfolding reads_known_def by blast
  qed
qed

text \<open>A walk that writes only allowed keys, and keeps the caches true.\<close>

definition sound_walk :: "js_engine \<Rightarrow> host \<Rightarrow> jstring set \<Rightarrow> glob \<Rightarrow> (nat \<Rightarrow> jstring set) \<Rightarrow> nat \<Rightarrow> walk \<Rightarrow> bool" where
  "sound_walk eng h N c K i w \<longleftrightarrow>
     (\<forall>ps g. walkable ps \<longrightarrow> allowed eng h N c (K i) ps \<longrightarrow> reads_known eng h N c ps \<longrightarrow>
     ensures (walk_inv h N c K) (w ps i g) (\<lambda>_. walk_inv h N c K))"

text \<open>A pattern that is split into its leading strings and a rest that is not empty.\<close>

definition split_pattern :: "js_engine \<Rightarrow> host \<Rightarrow> jstring set \<Rightarrow> glob \<Rightarrow> jstring set \<Rightarrow> jstring list \<Rightarrow> part list \<Rightarrow> bool" where
  "split_pattern eng h N c A ss remain \<longleftrightarrow>
     remain \<noteq> [] \<and> (\<forall>s r. remain \<noteq> Literal s # r) \<and> walkable (map Literal ss @ remain) \<and>
     allowed eng h N c A (map Literal ss @ remain) \<and> reads_known eng h N c (map Literal ss @ remain)"

lemma split_pattern_strings:
  assumes "split_pattern eng h N c A ss remain"
  shows "ss \<noteq> [] \<longrightarrow> join [slash] ss \<noteq> []" "ss \<noteq> [] \<longrightarrow> join [slash] ss \<noteq> [] \<and> hd (join [slash] ss) \<noteq> slash"
    "ss \<noteq> [] \<longrightarrow> join [slash] ss \<noteq> [] \<and> last (join [slash] ss) \<noteq> slash" "walkable remain" "walkable (tl remain)"
proof -
  from assms have h: "remain \<noteq> []" "walkable (map Literal ss @ remain)" by (simp_all add: split_pattern_def)
  note strs = walkable_strings [OF h(2)]
  from strs h(1) show "ss \<noteq> [] \<longrightarrow> join [slash] ss \<noteq> []"
    "ss \<noteq> [] \<longrightarrow> join [slash] ss \<noteq> [] \<and> hd (join [slash] ss) \<noteq> slash"
    "ss \<noteq> [] \<longrightarrow> join [slash] ss \<noteq> [] \<and> last (join [slash] ss) \<noteq> slash" by auto
  from strs h(2) show w: "walkable remain" by (cases "ss = []") auto
  show "walkable (tl remain)" using w walkable_tl by (cases remain) auto
qed

lemma split_pattern_known:
  assumes "split_pattern eng h N c A ss remain"
  shows "known h N (makeAbs c (read_path ss))"
proof -
  from assms obtain r rest where "remain = r # rest" "\<not> is_string r"
    by (cases remain; cases "hd remain") (auto simp: split_pattern_def)
  with assms reads_known_here [of eng h N c ss r rest] show ?thesis by (simp add: split_pattern_def)
qed

lemma sound_walk_rec:
  assumes "sound_walk eng h N c K i w" "split_pattern eng h N c (K i) ss remain" "walkable ps'"
    and "reads_known eng h N c (with_prefix (joined ss) @ ps')"
    and "\<And>fs. walk_match eng (g_dot c) fs ps' \<Longrightarrow> walk_match eng (g_dot c) fs remain"
  shows "ensures (walk_inv h N c K) (w (with_prefix (joined ss) @ ps') i g) (\<lambda>_. walk_inv h N c K)"
proof -
  note split = assms(2) [unfolded split_pattern_def]
  have "walkable (with_prefix (joined ss) @ ps')" using split assms(3) by (intro walkable_prefix) auto
  moreover have "allowed eng h N c (K i) (with_prefix (joined ss) @ ps')"
    by (rule allowed_prefix [OF _ split_pattern_strings(1) [OF assms(2)] assms(5)]) (use split in blast)
  ultimately show ?thesis using assms(1,4) unfolding sound_walk_def by blast
qed

lemma sound_readdir:
  assumes "walk_setting h c" "sound_walk eng h N c K i w" "split_pattern eng h N c (K i) ss remain"
  shows "ensures (walk_inv h N c K) (processReaddir eng h w (joined ss) (makeAbs c (read_path ss)) remain i g)
    (\<lambda>_. walk_inv h N c K)"
proof -
  note pre = split_pattern_strings [OF assms(3)]
  have fs: "file_system h" and neg: "\<not> mm_negate (g_minimatch c)" using assms(1) by (simp_all add: walk_setting_def)
  show ?thesis
  proof (rule ensures_processReaddir [OF fs read_path_abs(2) [OF assms(1) pre(2)] split_pattern_known [OF assms(3)] neg],
      intro conjI impI)
    fix es e pn rest assume e: "readdirSync h (makeAbs c (read_path ss)) = Inr es" "e \<in> set es"
      "remain = Magic pn # rest" "re_test eng (re_source pn) (re_ignore_case pn) e"
    note plain = entry_plain [OF fs e(1,2)]
    note join = join_prefix_joined [OF pre(3), of e]
    have "reads_known eng h N c (map Literal ss @ Magic pn # rest)"
      using assms(3) e(3) by (simp add: split_pattern_def)
    from reads_known_entry [OF this pre(1,2) fs e(1,2)] plain e(4)
    have "reads_known eng h N c (with_prefix (joined ss) @ Literal e # rest)" by (blast intro: hit)
    then show "ensures (walk_inv h N c K) (w (with_prefix (joined ss) @ Literal e # rest) i g) (\<lambda>_. walk_inv h N c K)"
      using pre(5) e(3,4) plain plain_hd [OF plain]
      by (intro sound_walk_rec [OF assms(2,3)]) (auto elim!: walk_match_LiteralE intro: hit)
    show "hd (join_prefix (joined ss) e) \<noteq> slash"
      using pre(2) plain_hd [OF plain] by (auto simp: join join_snoc)
    assume "rest = []"
    then have "walk_match eng (g_dot c) (ss @ [e]) (map Literal ss @ remain)"
      using e(3,4) plain by (auto simp: walk_match_strings intro: hit at_end)
    then show "join_prefix (joined ss) e \<in> K i"
      using assms(3) occurs_entry [OF fs e(1,2)] entry_abs [OF pre(2) plain, of c]
      by (simp add: split_pattern_def allowed_def join)
  qed
qed

lemma sound_globstar:
  assumes "walk_setting h c" "sound_walk eng h N c K i w" "split_pattern eng h N c (K i) ss remain"
    and "remain = Globstar # rest"
  shows "ensures (walk_inv h N c K) (processGlobStar h w (joined ss) (makeAbs c (read_path ss)) remain i g)
    (\<lambda>_. walk_inv h N c K)"
proof -
  note pre = split_pattern_strings [OF assms(3)]
  have fs: "file_system h" using assms(1) by (simp add: walk_setting_def)
  have known: "reads_known eng h N c (map Literal ss @ Globstar # rest)"
    using assms(3,4) by (simp add: split_pattern_def)
  show ?thesis
  proof (rule ensures_processGlobStar [OF fs read_path_abs(2) [OF assms(1) pre(2)] split_pattern_known [OF assms(3)]],
      goal_cases)
    case 1
    then show ?case
      using pre(5) assms(4) reads_known_rest [OF known pre(1)]
      by (intro sound_walk_rec [OF assms(2,3)]) (auto intro: stop)
  next
    case (2 es e)
    note plain = entry_plain [OF fs 2(1,2)]
    have "walk_match eng (g_dot c) (e # fs) (Globstar # ps)" if "walk_match eng (g_dot c) fs ps" for fs ps
      using that plain 2(3) by (blast intro: swallow stop)
    note entry = reads_known_entry [OF known pre(1,2) fs 2(1,2) this] reads_known_again [OF known pre(1,2) fs 2]
    show ?case
      using pre(4,5) assms(4) 2(3) plain plain_hd [OF plain] entry
      by (intro conjI sound_walk_rec [OF assms(2,3)]) (auto elim!: walk_match_LiteralE intro: swallow stop)
  qed
qed

lemma sound_step:
  assumes "walk_setting h c" "sound_walk eng h N c K i w"
  shows "sound_walk eng h N c K i (process_step eng h w)"
  unfolding sound_walk_def
proof (intro allI impI)
  fix ps g assume walkable: "walkable ps" and allowed: "allowed eng h N c (K i) ps" and known: "reads_known eng h N c ps"
  obtain ss remain where lead: "leading ps = (ss, remain)" by (cases "leading ps")
  note ps = leading_split [OF lead]
  show "ensures (walk_inv h N c K) (process_step eng h w ps i g) (\<lambda>_. walk_inv h N c K)"
  proof (cases "remain = []")
    case True
    have "walk_match eng (g_dot c) ss ps" using ps True walk_match_strings [of eng "g_dot c" ss ss "[]"] at_end by simp
    moreover have "join [slash] ss = [] \<or> hd (join [slash] ss) \<noteq> slash"
      using walkable_strings [of ss "[]"] walkable ps True by (cases "ss = []") auto
    ultimately show ?thesis
      using allowed lead True by (auto simp: process_step_def allowed_def intro!: ensures_processSimple)
  next
    case False
    then have split: "split_pattern eng h N c (K i) ss remain"
      using ps walkable allowed known by (simp add: split_pattern_def)
    obtain p rest where remain: "remain = p # rest" using False by (cases remain) auto
    have "ensures (walk_inv h N c K) (reading (\<lambda>self.
        if childrenIgnored eng self (read_path ss) then ret ()
        else if p = Globstar then processGlobStar h w (joined ss) (makeAbs self (read_path ss)) remain i g
        else processReaddir eng h w (joined ss) (makeAbs self (read_path ss)) remain i g)) (\<lambda>_. walk_inv h N c K)"
      using sound_readdir [OF assms split] sound_globstar [OF assms split] remain
      by (auto intro!: ensures_reading_inv ensures_ret simp: walk_inv_makeAbs)
    then show ?thesis
      using lead False absolute_prefix_joined [OF split_pattern_strings(2) [OF split]] remain
      by (simp only: process_step_def Let_def prod.case if_False list.sel read_path_def [symmetric]
          joined_def [symmetric])
  qed
qed

lemma sound_process: "walk_setting h c \<Longrightarrow> sound_walk eng h N c K i (process eng h n)"
proof (induction n)
  case 0
  show ?case by (simp add: sound_walk_def ensures_def)
next
  case (Suc n)
  then show ?case using sound_step by simp
qed

end
