(* ===== verification/Glob_Results.thy ===== *)
theory Glob_Results
  imports Glob_Walk
begin

text \<open>
  The results of \<open>glob.sync\<close> for relative patterns: each path matches a pattern as \<open>minimatch\<close>
  understands it, and exists unless a pattern names it as a directory to be read and its listing
  fails with \<open>ENOTDIR\<close>; the results are sorted and distinct; and the walk ends when the depth of
  the file system is bounded.
\<close>

section \<open>From the walk to the matcher\<close>

text \<open>
  What the walker finds, the matcher accepts, except that a globstar at the end of the pattern may
  stand for nothing in the walk.
\<close>

lemma walk_match_path_matches:
  assumes "walk_match eng (on options ''dot'') fs ps"
  shows "\<exists>ps' k. ps = ps' @ replicate k Globstar \<and> path_matches eng options fs ps' \<and> (ps' = [] \<longrightarrow> fs = [])"
  using assms
proof induction
  case at_end
  show ?case by (intro exI [of _ "[]"] exI [of _ 0]) (simp add: both_end)
next
  case (same fs ps s)
  then obtain ps' k where "ps = ps' @ replicate k Globstar" "path_matches eng options fs ps'" by blast
  then show ?case by (intro exI [of _ "Literal s # ps'"] exI [of _ k]) (simp add: one_part part_hit_def)
next
  case (hit f r fs ps)
  then obtain ps' k where "ps = ps' @ replicate k Globstar" "path_matches eng options fs ps'" by blast
  with hit show ?case by (intro exI [of _ "Magic r # ps'"] exI [of _ k]) (simp add: one_part part_hit_def)
next
  case (stop fs ps)
  then obtain ps' k where IH: "ps = ps' @ replicate k Globstar" "path_matches eng options fs ps'"
    "ps' = [] \<longrightarrow> fs = []" by blast
  show ?case
  proof (cases "ps' = []")
    case True
    with IH show ?thesis by (intro exI [of _ "[]"] exI [of _ "Suc k"]) (simp add: both_end)
  next
    case False
    with IH(2) have "fs \<noteq> []" using path_matches_Nil_Cons by (cases ps') auto
    with False IH have "path_matches eng options ([] @ fs) (Globstar # ps')" by (intro globstar) auto
    with IH show ?thesis by (intro exI [of _ "Globstar # ps'"] exI [of _ k]) simp
  qed
next
  case (swallow f fs ps)
  have f: "\<not> dotted options f" using swallow(1,2) by (auto simp: dotted_def plain_def dot_def)
  from swallow obtain ps' k where IH: "Globstar # ps = ps' @ replicate k Globstar"
    "path_matches eng options fs ps'" "ps' = [] \<longrightarrow> fs = []" by blast
  show ?case
  proof (cases ps')
    case Nil
    with IH have "path_matches eng options (f # fs) [Globstar]" using f by (intro last_globstar) auto
    moreover from IH Nil obtain j where "k = Suc j" by (cases k) auto
    ultimately show ?thesis using IH Nil by (intro exI [of _ "[Globstar]"] exI [of _ j]) simp
  next
    case (Cons q qs)
    with IH have q: "q = Globstar" "ps = qs @ replicate k Globstar" by auto
    have "path_matches eng options (f # fs) (Globstar # qs)"
    proof (cases "qs = []")
      case True
      with IH(2) Cons q have "\<forall>x \<in> set fs. \<not> dotted options x"
        by (auto elim: path_matches_ConsE)
      with f True show ?thesis using last_globstar [of "f # fs" options eng] by auto
    next
      case False
      have "path_matches eng options fs (Globstar # qs)" using IH(2) Cons q by simp
      then obtain xs ys where ys: "fs = xs @ ys" "list_all (\<lambda>x. \<not> dotted options x) xs" "ys \<noteq> []"
        "path_matches eng options ys qs" unfolding path_matches_globstar [OF False] by blast
      have "path_matches eng options ((f # xs) @ ys) (Globstar # qs)"
      proof (rule globstar [OF _ ys(3) False ys(4)])
        show "\<not> dotted options x" if "x \<in> set (f # xs)" for x using that f ys(2) by (auto simp: list_all_iff)
      qed
      with ys(1) show ?thesis by simp
    qed
    with q show ?thesis by (intro exI [of _ "Globstar # qs"] exI [of _ k]) simp
  qed
qed

lemma walk_match_slash_free:
  "walk_match eng hidden fs ps \<Longrightarrow> \<forall>s. Literal s \<in> set ps \<longrightarrow> slash \<notin> set s \<Longrightarrow> \<forall>f \<in> set fs. slash \<notin> set f"
  by (induction rule: walk_match.induct) (auto simp: plain_def)

lemma walk_match_nonempty:
  "walk_match eng hidden fs ps \<Longrightarrow> walkable ps \<Longrightarrow> [] \<notin> set (butlast fs)"
proof (induction rule: walk_match.induct)
  case (same fs ps s)
  then show ?case by (cases "ps = []") (auto elim: walk_match_NilE)
qed (auto simp: plain_def)

lemma slash_split_cons:
  "c \<noteq> 47 \<Longrightarrow> slash_split (c # cs) = (c # hd (slash_split cs)) # tl (slash_split cs)"
  by (cases "slash_split cs") simp_all

lemma slash_split_append: "47 \<notin> set f \<Longrightarrow> slash_split (f @ s) = (f @ hd (slash_split s)) # tl (slash_split s)"
proof (induction f)
  case (Cons c f)
  then show ?case by (simp add: slash_split_cons del: slash_split.simps)
qed simp

lemma slash_split_free_id: "47 \<notin> set f \<Longrightarrow> slash_split f = [f]"
  using slash_split_append [of f "[]"] by simp

lemma slash_split_join:
  assumes "fs \<noteq> []" "\<forall>f \<in> set fs. slash \<notin> set f" "[] \<notin> set (butlast fs)"
  shows "slash_split (join [slash] fs) = fs"
  using assms
proof (induction "[slash]" fs rule: join.induct)
  case (2 x)
  then show ?case by (simp add: slash_split_free_id slash_def)
next
  case (3 x y ys)
  have "slash_split (join [slash] (y # ys)) = y # ys" using 3 by simp
  moreover have "dropWhile (\<lambda>c. c = 47) (join [slash] (y # ys)) = join [slash] (y # ys)"
    using 3(2-4) by (cases y; cases ys) (auto simp: slash_def)
  ultimately show ?case
    using 3(3) slash_split_append [of x "slash # join [slash] (y # ys)"] by (simp add: slash_def)
qed simp

text \<open>The parts of a compiled pattern: the strings hold no slash, and are not empty before the end.\<close>

lemma parse_glob_Literal:
  assumes "parse_glob eng options t = Inr (Literal s)"
  shows "s = globUnescape t"
  using assms by (auto simp: parse_glob_def glob_part_def Let_def split: if_splits option.splits)

lemma globUnescape_set: "set (globUnescape t) \<subseteq> set t"
  by (induction t rule: globUnescape.induct) auto

lemma globUnescape_Nil: "globUnescape t = [] \<longleftrightarrow> t = []"
  by (induction t rule: globUnescape.induct) auto

lemma slash_split_inner:
  "s = [] \<or> hd s \<noteq> 47 \<Longrightarrow> [] \<notin> set (butlast (slash_split s))"
proof (induction s rule: measure_induct_rule [of length])
  case (less s)
  show ?case
  proof (cases s)
    case (Cons c cs)
    with less.prems have c: "c \<noteq> 47" by simp
    let ?ds = "dropWhile (\<lambda>x. x = 47) cs"
    show ?thesis
    proof (cases "cs = [] \<or> hd cs \<noteq> 47")
      case True
      with less.IH [of cs] Cons c show ?thesis
        by (cases "slash_split cs") (auto split: if_splits)
    next
      case False
      then obtain ds where cs: "cs = 47 # ds" by (cases cs) auto
      have "?ds = [] \<or> hd ?ds \<noteq> 47" using hd_dropWhile [of "\<lambda>x. x = 47" cs] by blast
      moreover have "length ?ds < length s" using Cons length_dropWhile_le [of "\<lambda>x. x = 47" cs] by simp
      ultimately have "[] \<notin> set (butlast (slash_split ?ds))" by (rule less.IH [rotated])
      with Cons c cs show ?thesis by (simp add: slash_split_cons del: slash_split.simps(2)) simp
    qed
  qed simp
qed

text \<open>Patterns of \<open>minimatch\<close> are walkable, if they do not begin with a slash.\<close>

lemma parsed_walkable:
  assumes "list_all2 (\<lambda>t p. parse_glob eng options t = Inr p) ts ps" "\<forall>t \<in> set ts. slash \<notin> set t"
    "[] \<notin> set (butlast ts)"
  shows "walkable ps \<and> (\<forall>s. Literal s \<in> set ps \<longrightarrow> slash \<notin> set s)"
  using assms
proof (induction ts ps rule: list_all2_induct)
  case (Cons t ts p ps)
  have ps: "ps \<noteq> [] \<longleftrightarrow> ts \<noteq> []" using Cons.hyps(2) by auto
  have IH: "walkable ps \<and> (\<forall>s. Literal s \<in> set ps \<longrightarrow> slash \<notin> set s)"
    using Cons.IH Cons.prems by (auto split: if_splits)
  have "slash \<notin> set s \<and> (s = [] \<or> hd s \<noteq> slash) \<and> (ps \<noteq> [] \<longrightarrow> s \<noteq> [] \<and> last s \<noteq> slash)" if "p = Literal s" for s
  proof -
    have s: "s = globUnescape t" using parse_glob_Literal Cons.hyps(1) that by blast
    then have free: "slash \<notin> set s" using globUnescape_set Cons.prems(1) by fastforce
    moreover have "s \<noteq> []" if "ps \<noteq> []"
      using that ps Cons.prems(2) s globUnescape_Nil [of t] by auto
    ultimately show ?thesis by (metis hd_in_set last_in_set)
  qed
  with IH show ?case by (cases p) auto
qed simp

lemma new_Minimatch_set:
  assumes "new_Minimatch eng rnd pattern options = Returns (Inr mm)" "pat \<in> set (mm_set mm)"
  shows "\<exists>g \<in> set (mm_globSet mm). list_all2 (\<lambda>t p. parse_glob eng options t = Inr p) (slash_split g) pat"
proof -
  from assms obtain ps where ps: "map_res (map_res (parse_glob eng options)) (map slash_split (mm_globSet mm)) = Inr ps"
    "pat \<in> set ps"
    by (auto simp: new_Minimatch_def Glob_Minimatch.make_def parseNegate_def Let_def and_then_eq_Inr and_run_Returns
        split: if_splits)
  from ps(1) have "list_all2 (\<lambda>ts p. map_res (parse_glob eng options) ts = Inr p) (map slash_split (mm_globSet mm)) ps"
    by (simp add: map_res_Inr_iff)
  from list_all2_right [OF this ps(2)] show ?thesis by (auto simp: map_res_Inr_iff)
qed

section \<open>The results of a run\<close>

lemma set_add_match: "set (add_match nou m ms) = insert m (set ms)"
  by (simp add: add_match_def)

lemma set_fold_add_match: "set (fold (add_match nou) ks ms) = set ks \<union> set ms"
  by (induction ks arbitrary: ms) (auto simp: set_add_match)

lemma set_add_matches:
  "\<not> g_nonull c \<Longrightarrow> set (add_matches c m l ks) \<subseteq> set ks \<union> (case m of None \<Rightarrow> {} | Some ks' \<Rightarrow> set ks')"
  by (auto simp: add_matches_def set_fold_add_match)

lemma set_gather:
  "\<not> g_nonull c \<Longrightarrow> set (gather c ms gs ks) \<subseteq> set ks \<union> {k. \<exists>ks'. Some ks' \<in> set ms \<and> k \<in> set ks'}"
proof (induction c ms gs ks rule: gather.induct)
  case (1 c m ms gs ks)
  from 1(1) [OF 1(2)] set_add_matches [OF 1(2), of m "hd gs" ks] show ?case by (cases m) auto
qed simp

lemma distinct_fold_add_match: "distinct (fold (add_match False) ks ms) = distinct ms"
  by (induction ks arbitrary: ms) (simp_all add: add_match_def)

lemma distinct_gather: "\<not> g_nounique c \<Longrightarrow> distinct (gather c ms gs ks) = distinct ks"
proof (induction c ms gs ks rule: gather.induct)
  case (1 c m ms gs ks)
  then show ?case by (simp add: add_matches_def distinct_fold_add_match) (simp add: add_match_def)
qed simp

lemma all_matches_set:
  assumes "\<not> g_nonull s" "\<And>i ks. i < length (g_matches s) \<Longrightarrow> g_matches s ! i = Some ks \<Longrightarrow> set ks \<subseteq> A"
  shows "set (all_matches s) \<subseteq> A"
proof -
  have "set ks \<subseteq> A" if ks: "Some ks \<in> set (g_matches s)" for ks
  proof -
    from ks obtain i where "i < length (g_matches s)" "g_matches s ! i = Some ks"
      unfolding in_set_conv_nth by blast
    then show ?thesis by (rule assms(2))
  qed
  then have "{k. \<exists>ks'. Some ks' \<in> set (g_matches s) \<and> k \<in> set ks'} \<subseteq> A" by blast
  with set_gather [OF assms(1), of "g_matches s" "mm_globSet (g_minimatch s)" "[]"]
  have "set (gather s (g_matches s) (mm_globSet (g_minimatch s)) []) \<subseteq> A" by simp
  then show ?thesis by (simp add: all_matches_def Let_def)
qed

lemma all_matches_distinct: "\<not> g_nounique s \<Longrightarrow> distinct (all_matches s)"
  by (simp add: all_matches_def distinct_gather)

text \<open>Without marks, the results are the sorted and filtered match sets.\<close>

definition result_order :: "js_engine \<Rightarrow> host \<Rightarrow> glob \<Rightarrow> jstring \<Rightarrow> jstring \<Rightarrow> int" where
  "result_order eng h c = (if g_nocase c then alphasorti eng h else alphasort h)"

lemma finish_found:
  assumes "finish eng h s = Some (Inr (u, s'))" "\<not> g_mark s"
  shows "g_found s' = Some (filter (\<lambda>m. g_ignore s = [] \<or> \<not> isIgnored eng s m)
    (if g_nosort s then all_matches s else sort_with (result_order eng h s) (all_matches s)))"
  using assms by (auto simp: finish_def reading_def bind_call_def change_def ret_def Let_def result_order_def)

text \<open>Options with empty caches, the default root, and none of the options that rewrite the results.\<close>

definition fresh_options :: "glob_options \<Rightarrow> bool" where
  "fresh_options options \<longleftrightarrow> go_cache options = Map.empty \<and> go_statCache options = Map.empty \<and>
     go_root options = None \<and> go_flags options ''nonegate'' \<noteq> Some False \<and>
     list_all (\<lambda>k. \<not> on (go_flags options) k) [''realpath'', ''mark'', ''nodir'', ''nonull'', ''noprocess'']"

lemma glob_root_default: "glob_root None cwd = [slash]"
proof -
  have "resolve_parts [cwd, [slash]] = []"
    by (simp add: resolve_parts_def isAbsolute_def path_parts_def)
  then have "resolve_paths [cwd, [slash]] = [slash]"
    by (simp add: resolve_paths_at_root at_root_def walk_def)
  moreover have "resolve_paths [[slash]] = [slash]"
    by (simp add: resolve_paths_at_root at_root_def resolve_parts_def isAbsolute_def path_parts_def walk_def)
  ultimately show ?thesis by (simp add: glob_root_def)
qed

lemma bind_call_Some:
  "bind_call m f s = Some (Inr y) \<longleftrightarrow> (\<exists>x s'. m s = Some (Inr (x, s')) \<and> f x s' = Some (Inr y))"
  by (auto simp: bind_call_def split: option.splits sum.splits)

lemma lift_outcome_Some: "lift_outcome r s = Some (Inr y) \<longleftrightarrow> (\<exists>x. r = Returns (Inr x) \<and> y = (x, s))"
  by (auto simp: lift_outcome_def split: outcome.splits sum.splits)

lemma setopts_fields:
  assumes "setopts eng rnd warned pattern options () = Some (Inr (self, u))" "fresh_options options"
  shows "g_cache self = Map.empty" "g_statCache self = Map.empty" "g_root self = [slash]"
    "\<not> g_realpath self" "\<not> g_mark self" "\<not> g_nonull self" "\<not> g_noprocess self"
    "\<exists>p. new_Minimatch eng rnd p (glob_flags (go_flags options)) = Returns (Inr (g_minimatch self))"
    "g_dot self = on (glob_flags (go_flags options)) ''dot''"
proof -
  from assms(1) obtain ignore mm p where self:
    "new_Minimatch eng rnd p (glob_flags (go_flags options)) = Returns (Inr mm)"
    "self = initial_glob options ignore mm (deprecationWarning (glob_flags (go_flags options)) warned)"
    unfolding setopts_def Let_def by (auto simp: bind_call_Some lift_outcome_Some ret_def)
  show "g_cache self = Map.empty" "g_statCache self = Map.empty" "g_root self = [slash]"
    "\<not> g_realpath self" "\<not> g_mark self" "\<not> g_nonull self" "\<not> g_noprocess self"
    "\<exists>p. new_Minimatch eng rnd p (glob_flags (go_flags options)) = Returns (Inr (g_minimatch self))"
    "g_dot self = on (glob_flags (go_flags options)) ''dot''"
    using assms(2) self(1) by (auto simp: self(2) initial_glob_def Let_def fresh_options_def glob_root_default glob_flags_def on_def)
qed

section \<open>Whole runs\<close>

lemma ensures_for_each_indexed:
  "(\<And>i. i < n \<Longrightarrow> ensures I (f i) (\<lambda>_. I)) \<Longrightarrow> ensures I (for_each f [0..<n]) (\<lambda>_. I)"
  by (rule ensures_for_each) simp

lemma relative_pattern_walkable:
  assumes "new_Minimatch eng rnd p options = Returns (Inr mm)" "pat \<in> set (mm_set mm)"
    and "\<forall>g \<in> set (mm_globSet mm). g = [] \<or> hd g \<noteq> slash"
  shows "walkable pat \<and> (\<forall>s. Literal s \<in> set pat \<longrightarrow> slash \<notin> set s)"
proof -
  from new_Minimatch_set [OF assms(1,2)] obtain g where g: "g \<in> set (mm_globSet mm)"
    "list_all2 (\<lambda>t p. parse_glob eng options t = Inr p) (slash_split g) pat" by blast
  then show ?thesis
    using assms(3) slash_split_inner [of g] slash_split_free [of _ g] by (intro parsed_walkable) (auto simp: slash_def)
qed

lemma minimatch_not_negated:
  assumes "new_Minimatch eng rnd p options = Returns (Inr mm)" "on options ''nonegate''"
  shows "\<not> mm_negate mm"
  using assms
  by (auto simp: new_Minimatch_def Glob_Minimatch.make_def parseNegate_def Let_def and_then_eq_Inr and_run_Returns
      split: if_splits)

text \<open>What the matcher says of a path that the walker has found.\<close>

definition matches_but_globstars :: "js_engine \<Rightarrow> options \<Rightarrow> jstring \<Rightarrow> part list \<Rightarrow> bool" where
  "matches_but_globstars eng options p pat \<longleftrightarrow>
     (\<exists>pat' k. pat = pat' @ replicate k Globstar \<and> matchOne eng options False (slash_split p) pat')"

lemma walk_match_matchOne:
  assumes "walk_match eng (on options ''dot'') fs pat" "walkable pat" "\<forall>s. Literal s \<in> set pat \<longrightarrow> slash \<notin> set s"
  shows "matches_but_globstars eng options (join [slash] fs) pat"
proof -
  from walk_match_path_matches [OF assms(1)] obtain pat' k where
    pat': "pat = pat' @ replicate k Globstar" "path_matches eng options fs pat'" by blast
  have "matchOne eng options False (slash_split (join [slash] fs)) pat'"
  proof (cases "fs = []")
    case True
    with pat'(2) have "pat' = []" using path_matches_Nil_Cons by (cases pat') auto
    with True show ?thesis by simp
  next
    case False
    then have "slash_split (join [slash] fs) = fs"
      using walk_match_slash_free [OF assms(1,3)] walk_match_nonempty [OF assms(1,2)] by (intro slash_split_join)
    with pat'(2) show ?thesis by (simp add: matchOne_path_matches)
  qed
  with pat'(1) show ?thesis unfolding matches_but_globstars_def by blast
qed

definition relative_patterns :: "glob \<Rightarrow> bool" where
  "relative_patterns c \<longleftrightarrow> (\<forall>g \<in> set (mm_globSet (g_minimatch c)). g = [] \<or> hd g \<noteq> slash)"

text \<open>The state before the first pattern.\<close>

definition run_start :: "glob \<Rightarrow> glob" where
  "run_start c = c\<lparr>g_matches := replicate (length (mm_set (g_minimatch c))) None\<rparr>"

lemma run_start_inv:
  assumes "g_cache c = Map.empty" "g_statCache c = Map.empty"
  shows "walk_inv h N c K (run_start c)"
  using assms by (simp add: walk_inv_def run_start_def cache_ok_def same_config_def)

lemma map_sum_Inr: "map_sum f g x = Inr y \<longleftrightarrow> (\<exists>z. x = Inr z \<and> y = g z)"
  by (cases x) auto

lemma globSync_Some:
  assumes "setopts eng rnd warned pattern options () = Some (Inr (self, ()))" "\<not> g_noprocess self"
    and "globSync eng rnd h n warned pattern options = Some (Inr found)"
  obtains s s' where "for_each (\<lambda>i. process eng h n (mm_set (g_minimatch self) ! i) i False)
      [0..<length (mm_set (g_minimatch self))] (run_start self) = Some (Inr ((), s))"
    "sync_finish eng h s = Some (Inr ((), s'))" "g_found s' = found"
proof -
  from assms obtain s' where
    "run_patterns eng h n self = Some (Inr ((), s'))" "g_found s' = found"
    by (auto simp: globSync_def GlobSync_def map_sum_Inr split: if_splits)
  then show ?thesis using that by (auto simp: run_patterns_def Let_def bind_call_Some run_start_def)
qed

text \<open>
  The directories that the walk reads because the patterns name them: the paths that match an
  initial piece of a pattern which is empty (the working directory) or ends in a string, and is
  followed by a part that is no string, such as \<open>f/x\<close> of \<open>f/x/*\<close>.
\<close>

definition directories_named :: "js_engine \<Rightarrow> glob \<Rightarrow> jstring set" where
  "directories_named eng c =
     {makeAbs c (read_path fs) | fs. \<exists>pat \<in> set (mm_set (g_minimatch c)). \<exists>pre.
        reading_piece pat pre \<and> walk_match eng (g_dot c) fs pre}"

lemma reads_known_named:
  "pat \<in> set (mm_set (g_minimatch c)) \<Longrightarrow> reads_known eng h (directories_named eng c) c pat"
  unfolding reads_known_def known_def directories_named_def by blast

text \<open>
  C13: Let the patterns be relative, and let the options give no caches and no root, set none of
  \<open>realpath\<close>, \<open>mark\<close>, \<open>nodir\<close>, \<open>nonull\<close> and \<open>noprocess\<close>, and not turn \<open>nonegate\<close> off. Then every
  path that \<open>glob.sync\<close> returns matches one of the patterns, up to globstars at its end, and it can
  be statted, with one exception: a path that a pattern names as a directory to be read, and whose
  listing fails with \<open>ENOTDIR\<close> or \<open>ENOTSUP\<close>, may be returned though it does not exist (\<open>f/x\<close> for the
  pattern \<open>{f/x/*,f/x}\<close> where \<open>f\<close> is a file).
\<close>

theorem globSync_sound:
  assumes "file_system h" "fresh_options options"
    and "setopts eng rnd warned pattern options () = Some (Inr (self, ()))" "relative_patterns self"
    and "globSync eng rnd h n warned pattern options = Some (Inr (Some found))" "p \<in> set found"
  shows "((\<exists>st. lstatSync h (makeAbs self p) = Inr st) \<or>
      not_a_directory h (makeAbs self p) \<and> makeAbs self p \<in> directories_named eng self) \<and>
    (\<exists>pat \<in> set (mm_set (g_minimatch self)).
       matches_but_globstars eng (glob_flags (go_flags options)) p pat)"
proof -
  let ?flags = "glob_flags (go_flags options)" and ?set = "mm_set (g_minimatch self)"
  note opts = setopts_fields [OF assms(3,2)]
  from opts(8) obtain q where mm: "new_Minimatch eng rnd q ?flags = Returns (Inr (g_minimatch self))" ..
  have "walk_setting h self"
    using assms(1,2) opts(3) minimatch_not_negated [OF mm]
    by (simp add: walk_setting_def glob_flags_def on_def fresh_options_def)
  note sound = sound_process [OF this, of eng _ _ _ n]
  define N where "N = directories_named eng self"
  define K where "K = (\<lambda>i. {k. i < length ?set \<and> occurs h N (makeAbs self k) \<and> matches_but_globstars eng ?flags k (?set ! i)})"
  have walkable: "walkable (?set ! i) \<and> (\<forall>s. Literal s \<in> set (?set ! i) \<longrightarrow> slash \<notin> set s)" if "i < length ?set" for i
    using relative_pattern_walkable [OF mm, of "?set ! i"] that assms(4) by (simp add: relative_patterns_def)
  from assms(3) opts(7) assms(5) obtain s s' where run: "for_each (\<lambda>i. process eng h n (?set ! i) i False) [0..<length ?set]
      (run_start self) = Some (Inr ((), s))" "sync_finish eng h s = Some (Inr ((), s'))" "g_found s' = Some found"
    by (rule globSync_Some)
  have "ensures (walk_inv h N self K) (for_each (\<lambda>i. process eng h n (?set ! i) i False) [0..<length ?set])
      (\<lambda>_. walk_inv h N self K)"
  proof (rule ensures_for_each_indexed)
    fix i assume i: "i < length ?set"
    have "allowed eng h N self (K i) (?set ! i)"
      using i walkable [OF i] walk_match_matchOne [of eng ?flags] opts(9) by (auto simp: allowed_def K_def)
    moreover have "reads_known eng h N self (?set ! i)"
      using i reads_known_named [of "?set ! i" self] by (simp add: N_def)
    ultimately
    show "ensures (walk_inv h N self K) (process eng h n (?set ! i) i False) (\<lambda>_. walk_inv h N self K)"
      using sound [of N K i] walkable [OF i] unfolding sound_walk_def by blast
  qed
  from ensuresD [OF this run_start_inv [OF opts(1,2)] run(1)] have inv: "walk_inv h N self K s" .
  then have conf: "same_config s self" by (simp add: walk_inv_def)
  have "set found \<subseteq> set (all_matches s)"
    using run(2,3) finish_found [of eng h s "()" s'] opts(4,5) conf
    by (auto simp: sync_finish_def reading_def bind_call_def ret_def config_fields split: if_splits)
  also have "\<dots> \<subseteq> (\<Union>i. K i)"
  proof (rule all_matches_set)
    show "\<not> g_nonull s" using opts(6) conf by (simp add: config_fields)
    show "set ks \<subseteq> (\<Union>i. K i)" if "i < length (g_matches s)" "g_matches s ! i = Some ks" for i ks
      using inv that unfolding walk_inv_def by blast
  qed
  finally obtain i where "p \<in> K i" using assms(6) by blast
  then show ?thesis by (auto simp: K_def N_def occurs_def intro: bexI [OF _ nth_mem])
qed

section \<open>Invariants of every walk\<close>

text \<open>
  What does not depend on the caches and is kept when a match is added is kept by every walk, also
  for absolute patterns and with any option.
\<close>

definition closed_under_walk :: "(glob \<Rightarrow> bool) \<Rightarrow> bool" where
  "closed_under_walk I \<longleftrightarrow>
     (\<forall>s x. I s \<longrightarrow> I (s\<lparr>g_cache := x\<rparr>)) \<and> (\<forall>s x. I s \<longrightarrow> I (s\<lparr>g_statCache := x\<rparr>)) \<and>
     (\<forall>s x. I s \<longrightarrow> I (s\<lparr>g_symlinks := x\<rparr>)) \<and> (\<forall>s x. I s \<longrightarrow> I (s\<lparr>g_console := x\<rparr>)) \<and>
     (\<forall>i. ensures I (create_matches i) (\<lambda>_. I)) \<and> (\<forall>i e. ensures I (put_match i e) (\<lambda>_. I))"

lemma closed_cache_put: "closed_under_walk I \<Longrightarrow> ensures I (cache_put p c) (\<lambda>_. I)"
  unfolding cache_put_def closed_under_walk_def by (intro ensures_change) blast

lemma closed_changes:
  assumes "closed_under_walk I"
  shows "ensures I (change (\<lambda>s. s\<lparr>g_statCache := (g_statCache s)(p \<mapsto> st)\<rparr>)) (\<lambda>_. I)"
    "ensures I (change (\<lambda>s. s\<lparr>g_symlinks := (g_symlinks s)(p \<mapsto> b)\<rparr>)) (\<lambda>_. I)"
    "ensures I (change (\<lambda>s. s\<lparr>g_console := g_console s @ m\<rparr>)) (\<lambda>_. I)"
    "ensures I (create_matches i) (\<lambda>_. I)" "ensures I (put_match i e) (\<lambda>_. I)"
  using assms unfolding closed_under_walk_def by (auto intro!: ensures_change)

lemmas ensures_rules = ensures_reading_inv ensures_ret ensures_throw ensures_for_each

lemma ensures_bind_inv:
  "ensures I m (\<lambda>_. I) \<Longrightarrow> (\<And>x. ensures I (f x) (\<lambda>_. I)) \<Longrightarrow> ensures I (bind_call m f) (\<lambda>_. I)"
  by (rule ensures_bind)

lemma closed_readdir:
  assumes "closed_under_walk I"
  shows "ensures I (readdir h p g) (\<lambda>_. I)"
proof -
  note put = closed_cache_put [OF assms] closed_changes [OF assms]
  have entries: "ensures I (readdirEntries q es) (\<lambda>_. I)" for q es
    unfolding readdirEntries_def by (auto intro!: ensures_rules ensures_bind_inv put)
  have error: "ensures I (readdirError q er) (\<lambda>_. I)" for q er
    unfolding readdirError_def by (auto intro!: ensures_rules ensures_bind_inv put)
  have plain: "ensures I (readdir_plain h q) (\<lambda>_. I)" for q
    unfolding readdir_plain_def
    by (auto simp: Let_def split: option.split cached.split sum.split
        intro!: ensures_rules ensures_bind_inv entries error)
  have "ensures I (readdirInGlobStar h p) (\<lambda>_. I)"
    unfolding readdirInGlobStar_def
    by (auto simp: Let_def split: sum.split intro!: ensures_rules ensures_bind_inv put plain)
  with plain show ?thesis unfolding readdir_def by (auto intro!: ensures_rules)
qed

lemma closed_stat_path:
  assumes "closed_under_walk I"
  shows "ensures I (stat_path h f) (\<lambda>_. I)"
  unfolding stat_path_def
  by (auto simp: Let_def split: option.split cached.split intro!: ensures_rules ensures_bind_inv
      closed_cache_put [OF assms] closed_changes [OF assms])

lemma closed_process:
  assumes "closed_under_walk I"
  shows "ensures I (process eng h n ps i g) (\<lambda>_. I)"
proof (induction n arbitrary: ps g)
  case 0
  show ?case by (simp add: ensures_def)
next
  case (Suc n)
  note rules = ensures_rules ensures_bind_inv closed_readdir [OF assms] closed_stat_path [OF assms] closed_changes [OF assms]
  have "ensures I (processReaddir eng h (process eng h n) pfx p remain i g) (\<lambda>_. I)" for pfx p remain
    unfolding processReaddir_def enter_matched_def
    by (auto simp: Let_def split: option.split list.split part.split intro!: rules Suc.IH)
  moreover have "ensures I (processGlobStar h (process eng h n) pfx p remain i g) (\<lambda>_. I)" for pfx p remain
    unfolding processGlobStar_def enter_all_def
    by (auto simp: Let_def split: option.split intro!: rules Suc.IH)
  moreover have "ensures I (processSimple h p i) (\<lambda>_. I)" for p
    unfolding processSimple_def by (auto intro!: rules)
  ultimately show ?case by (auto simp: process_step_def Let_def split: prod.split intro!: ensures_rules)
qed

section \<open>Sorted results\<close>

lemma same_config_closed: "closed_under_walk (\<lambda>s. same_config s c)"
  unfolding closed_under_walk_def create_matches_def put_match_def
  by (auto intro!: ensures_change split: option.split)

lemma same_config_refl: "same_config c c"
  by (simp add: same_config_def)

lemma ensures_real_matchset: "ensures (\<lambda>s. same_config s c) (real_matchset h i) (\<lambda>_ s. same_config s c)"
  unfolding real_matchset_def
  by (auto split: option.split sum.split intro!: ensures_reading_inv ensures_ret ensures_throw ensures_change)

lemma collation_result_order: "collation (localeCompare h) \<Longrightarrow> collation (result_order eng h c)"
  unfolding result_order_def alphasort_def [abs_def] alphasorti_def [abs_def]
  by (auto simp: collation_def)

lemma sorted_wrt_filtered: "sorted_wrt R xs \<Longrightarrow> sorted_wrt R (filter P xs)"
  by (induction xs) auto

text \<open>
  C15: The results of \<open>glob.sync\<close> are distinct and in the order of the locale, unless duplicates, no
  order or marks are asked for.
\<close>

theorem globSync_sorted:
  assumes "collation (localeCompare h)"
    and "setopts eng rnd warned pattern options () = Some (Inr (self, ()))"
    and "\<not> g_noprocess self" "\<not> g_nounique self" "\<not> g_nosort self" "\<not> g_mark self"
    and "globSync eng rnd h n warned pattern options = Some (Inr (Some found))"
  shows "distinct found \<and> sorted_wrt (\<lambda>a b. result_order eng h self a b \<le> 0) found"
proof -
  from assms(2,3,7) obtain s s' where run: "for_each (\<lambda>i. process eng h n (mm_set (g_minimatch self) ! i) i False)
      [0..<length (mm_set (g_minimatch self))] (run_start self) = Some (Inr ((), s))"
    "sync_finish eng h s = Some (Inr ((), s'))" "g_found s' = Some found" by (rule globSync_Some)
  let ?I = "\<lambda>s. same_config s self"
  have "ensures ?I (for_each (\<lambda>i. process eng h n (mm_set (g_minimatch self) ! i) i False)
      [0..<length (mm_set (g_minimatch self))]) (\<lambda>_. ?I)"
    by (intro ensures_for_each closed_process same_config_closed)
  from ensuresD [OF this _ run(1)] have s: "same_config s self" by (simp add: run_start_def same_config_refl)
  have "ensures ?I (if g_realpath s then for_each (real_matchset h) [0..<length (g_matches s)] else ret ()) (\<lambda>_. ?I)"
    by (auto intro!: ensures_for_each ensures_real_matchset ensures_ret)
  moreover from run(2) obtain s1 where s1:
    "(if g_realpath s then for_each (real_matchset h) [0..<length (g_matches s)] else ret ()) s = Some (Inr ((), s1))"
    "finish eng h s1 = Some (Inr ((), s'))" by (auto simp: sync_finish_def reading_def bind_call_Some)
  ultimately have conf: "same_config s1 self" using s unfolding ensures_def by blast
  then have "\<not> g_mark s1" "\<not> g_nosort s1" "\<not> g_nounique s1" "result_order eng h s1 = result_order eng h self"
    using assms(4-6) by (simp_all add: config_fields result_order_def)
  with finish_found [OF s1(2)] run(3) have
    "found = filter (\<lambda>m. g_ignore s1 = [] \<or> \<not> isIgnored eng s1 m) (sort_with (result_order eng h self) (all_matches s1))"
    by simp
  then show ?thesis
    using \<open>\<not> g_nounique s1\<close> sorted_sort_with [OF collation_result_order [OF assms(1)]]
    by (simp add: all_matches_distinct sorted_wrt_filtered)
qed

section \<open>Termination\<close>

definition returns :: "('s \<Rightarrow> bool) \<Rightarrow> ('s, 'a) call \<Rightarrow> bool" where
  "returns P m \<longleftrightarrow> (\<forall>s. P s \<longrightarrow> m s \<noteq> None)"

lemma returns_ret: "returns P (ret x)" and returns_throw: "returns P (throw e)"
  and returns_change: "returns P (change f)"
  by (simp_all add: returns_def ret_def throw_def change_def)

lemma returns_bind:
  "returns P m \<Longrightarrow> ensures P m R \<Longrightarrow> (\<And>x. returns (R x) (f x)) \<Longrightarrow> returns P (bind_call m f)"
  unfolding returns_def ensures_def bind_call_def by (fastforce split: option.splits sum.splits)

lemma returns_bind_any: "returns P m \<Longrightarrow> (\<And>x. returns (\<lambda>_. True) (f x)) \<Longrightarrow> returns P (bind_call m f)"
  by (rule returns_bind [where R = "\<lambda>_ _. True"]) (auto simp: ensures_def)

lemma returns_reading: "(\<And>s. P s \<Longrightarrow> returns P (f s)) \<Longrightarrow> returns P (reading f)"
  unfolding returns_def reading_def by blast

lemma returns_for_each:
  "(\<And>x. x \<in> set xs \<Longrightarrow> returns I (f x) \<and> ensures I (f x) (\<lambda>_. I)) \<Longrightarrow> returns I (for_each f xs)"
proof (induction xs)
  case (Cons x xs)
  then show ?case by (auto intro!: returns_bind [where R = "\<lambda>_. I"])
qed (simp add: returns_ret)

lemma returns_collect_each: "(\<And>x. returns (\<lambda>_. True) (f x)) \<Longrightarrow> returns (\<lambda>_. True) (collect_each f xs)"
  by (induction xs) (auto intro!: returns_bind_any returns_ret)

lemma returns_weaken: "returns (\<lambda>_. True) m \<Longrightarrow> returns P m"
  by (simp add: returns_def)

lemmas returns_rules = returns_ret returns_throw returns_change returns_bind_any returns_reading

lemma returns_for_each_any: "(\<And>x. returns (\<lambda>_. True) (f x)) \<Longrightarrow> returns (\<lambda>_. True) (for_each f xs)"
  by (rule returns_for_each) (simp add: ensures_def)

lemma returns_readdir: "returns (\<lambda>_. True) (readdir h p g)"
proof -
  have put: "returns (\<lambda>_. True) (cache_put q c)" for q c
    by (simp add: cache_put_def returns_change)
  have entries: "returns (\<lambda>_. True) (readdirEntries q es)" for q es
    unfolding readdirEntries_def by (auto intro!: returns_rules put returns_for_each_any)
  have error: "returns (\<lambda>_. True) (readdirError q er)" for q er
    unfolding readdirError_def by (auto intro!: returns_rules put)
  have plain: "returns (\<lambda>_. True) (readdir_plain h q)" for q
    unfolding readdir_plain_def
    by (auto simp: Let_def split: option.split cached.split sum.split intro!: returns_rules entries error)
  have "returns (\<lambda>_. True) (readdirInGlobStar h p)"
    unfolding readdirInGlobStar_def
    by (auto simp: Let_def split: sum.split intro!: returns_rules put plain)
  with plain show ?thesis unfolding readdir_def by (auto intro!: returns_rules)
qed

lemma returns_processSimple: "returns (\<lambda>_. True) (processSimple h p i)"
proof -
  have "returns (\<lambda>_. True) (stat_path h f)" for f
    unfolding stat_path_def cache_put_def
    by (auto simp: Let_def split: option.split cached.split intro!: returns_rules)
  then show ?thesis
    unfolding processSimple_def create_matches_def put_match_def
    by (auto split: option.split intro!: returns_rules)
qed

lemma returns_sync_finish: "returns (\<lambda>_. True) (sync_finish eng h)"
proof -
  have "returns (\<lambda>_. True) (real_matchset h i)" for i
    unfolding real_matchset_def by (auto split: option.split sum.split intro!: returns_rules)
  moreover have "returns (\<lambda>_. True) (mark_path p)" for p
    unfolding mark_path_def by (auto simp: Let_def split: option.split intro!: returns_rules)
  then have "returns (\<lambda>_. True) (finish eng h)"
    unfolding finish_def Let_def by (auto intro!: returns_rules returns_collect_each)
  ultimately show ?thesis
    unfolding sync_finish_def by (auto intro!: returns_rules returns_for_each_any)
qed

text \<open>
  Directories deeper than \<open>d\<close> have no entries or cannot be listed. The depth is that of a normalized
  path, without \<open>.\<close>, \<open>..\<close> and empty components: other spellings of a directory may be of any
  length, and the walk only reads normalized ones. A file system with cycles of links has such a
  bound as well, by the number of links or the length of a path that it resolves.
\<close>

definition bounded_depth :: "host \<Rightarrow> nat \<Rightarrow> bool" where
  "bounded_depth h d \<longleftrightarrow>
     (\<forall>ws es. list_all plain ws \<longrightarrow> readdirSync h (at_root ws) = Inr es \<longrightarrow> es \<noteq> [] \<longrightarrow> length ws \<le> d)"

fun nonstrings :: "part list \<Rightarrow> nat" where
  "nonstrings [] = 0"
| "nonstrings (Literal s # ps) = nonstrings ps"
| "nonstrings (p # ps) = Suc (nonstrings ps)"

text \<open>
  A step either removes a part that is no string, or goes down by one directory. So the depth of
  the recursion is bounded by \<open>rank\<close>.
\<close>

definition rank :: "glob \<Rightarrow> nat \<Rightarrow> part list \<Rightarrow> nat" where
  "rank c d ps = nonstrings ps * (d + 2) + (d + 1 - length (walk_parts c (read_path (fst (leading ps))))) + 1"

lemma nonstrings_strings [simp]: "nonstrings (map Literal ss @ ps) = nonstrings ps"
  by (induction ss) auto

lemma nonstrings_prefix [simp]: "nonstrings (with_prefix pfx @ ps) = nonstrings ps"
  by (auto simp: with_prefix_def split: option.split)

lemma nonstrings_length: "nonstrings ps \<le> length ps"
  by (induction ps rule: nonstrings.induct) auto

lemma rank_le: "rank c d ps \<le> nonstrings ps * (d + 2) + d + 2"
  by (simp add: rank_def)

lemma leading_strings: "(\<forall>s r. ps \<noteq> Literal s # r) \<Longrightarrow> leading (map Literal ss @ ps) = (ss, ps)"
proof (induction ss)
  case Nil
  then show ?case by (cases ps rule: leading.cases) auto
qed simp

lemma rank_below:
  assumes "split_pattern eng h UNIV c A ss (Globstar # rest)" "plain e" "length (walk_parts c (read_path ss)) \<le> d"
  shows "rank c d (with_prefix (joined ss) @ Literal e # Globstar # rest) < rank c d (map Literal ss @ Globstar # rest)"
proof -
  note pre = split_pattern_strings(1) [OF assms(1)]
  have l: "leading (map Literal ss @ Globstar # rest) = (ss, Globstar # rest)" by (rule leading_strings) simp
  define ts where "ts = (if ss = [] then [] else [join [slash] ss]) @ [e]"
  have eq: "with_prefix (joined ss) @ Literal e # Globstar # rest = map Literal ts @ Globstar # rest"
    using pre by (simp add: with_prefix_def joined_def ts_def)
  have lt: "leading (map Literal ts @ Globstar # rest) = (ts, Globstar # rest)" by (rule leading_strings) simp
  have "join [slash] ts = join [slash] (ss @ [e])"
    using join_merge [of ss "[slash]" "[e]"] by (simp add: ts_def)
  then have parts: "walk_parts c (read_path ts) = walk_parts c (read_path ss) @ [e]"
    using walk_parts_child [OF assms(2), of c "join [slash] ss"] walk_parts_dot_child [OF assms(2), of c]
    by (auto simp: read_path_def joined_def ts_def join_snoc)
  show ?thesis
    unfolding eq rank_def lt l using assms(3) parts by simp
qed

text \<open>How long a walk takes does not depend on which paths pass for existing ones.\<close>

lemma known_UNIV [simp]: "known h UNIV p"
  by (simp add: known_def)

lemma reads_known_UNIV [simp]: "reads_known eng h UNIV c ps"
  by (simp add: reads_known_def)

lemma returns_listing:
  assumes "file_system h" "makeAbs c p = p"
    and "\<And>es. readdirSync h p = Inr es \<Longrightarrow> returns (walk_inv h UNIV c K) (f es)"
  shows "returns (walk_inv h UNIV c K)
    (bind_call (readdir h p g) (\<lambda>found. case found of None \<Rightarrow> ret () | Some es \<Rightarrow> f es))"
proof (rule returns_bind [OF returns_weaken [OF returns_readdir] ensures_readdir [OF assms(1,2) known_UNIV]])
  fix r
  show "returns (\<lambda>s. walk_inv h UNIV c K s \<and> listing h p r) (case r of None \<Rightarrow> ret () | Some es \<Rightarrow> f es)"
    using assms(3) by (auto simp: listing_def returns_def ret_def split: option.split)
qed

text \<open>A walk that returns for the patterns of a rank up to \<open>n\<close>.\<close>

definition total_walk :: "host \<Rightarrow> glob \<Rightarrow> nat \<Rightarrow> nat \<Rightarrow> nat \<Rightarrow> walk \<Rightarrow> bool" where
  "total_walk h c d i n w \<longleftrightarrow> (\<forall>ps g. walkable ps \<longrightarrow> rank c d ps \<le> n \<longrightarrow>
     returns (walk_inv h UNIV c (\<lambda>_. UNIV)) (w ps i g))"

lemma returns_each_entry:
  assumes "\<And>e. e \<in> set es \<Longrightarrow> returns I (f e)" "\<And>e. e \<in> set es \<Longrightarrow> ensures I (f e) (\<lambda>_. I)"
  shows "returns I (for_each f es)"
  using assms by (auto intro: returns_for_each)

lemma split_recursion:
  assumes "split_pattern eng h UNIV c UNIV ss (p # rest)" "sound_walk eng h UNIV c (\<lambda>_. UNIV) i w" "total_walk h c d i n w"
    and "walkable ps'" "rank c d (with_prefix (joined ss) @ ps') \<le> n"
  shows "returns (walk_inv h UNIV c (\<lambda>_. UNIV)) (w (with_prefix (joined ss) @ ps') i g) \<and>
    ensures (walk_inv h UNIV c (\<lambda>_. UNIV)) (w (with_prefix (joined ss) @ ps') i g) (\<lambda>_. walk_inv h UNIV c (\<lambda>_. UNIV))"
proof -
  have "walkable (with_prefix (joined ss) @ ps')"
    using assms(1,4) by (intro walkable_prefix) (auto simp: split_pattern_def)
  then show ?thesis using assms(2,3,5) by (simp add: sound_walk_def total_walk_def allowed_def)
qed

text \<open>What the two branches of a step recurse on.\<close>

definition rank_setting :: "js_engine \<Rightarrow> host \<Rightarrow> glob \<Rightarrow> nat \<Rightarrow> nat \<Rightarrow> nat \<Rightarrow> walk \<Rightarrow> bool" where
  "rank_setting eng h c d i n w \<longleftrightarrow> walk_setting h c \<and> bounded_depth h d \<and> sound_walk eng h UNIV c (\<lambda>_. UNIV) i w \<and>
     total_walk h c d i n w"

lemma rank_recursion:
  assumes "rank_setting eng h c d i n w" "split_pattern eng h UNIV c UNIV ss (p # rest)"
    and "rank c d (map Literal ss @ p # rest) \<le> Suc n" "\<forall>s. p \<noteq> Literal s"
    and "walkable ps'" "nonstrings ps' = nonstrings rest"
  shows "returns (walk_inv h UNIV c (\<lambda>_. UNIV)) (w (with_prefix (joined ss) @ ps') i g) \<and>
    ensures (walk_inv h UNIV c (\<lambda>_. UNIV)) (w (with_prefix (joined ss) @ ps') i g) (\<lambda>_. walk_inv h UNIV c (\<lambda>_. UNIV))"
proof (rule split_recursion [OF assms(2) _ _ assms(5)])
  have "nonstrings (p # rest) = Suc (nonstrings rest)" using assms(4) by (cases p) auto
  then show "rank c d (with_prefix (joined ss) @ ps') \<le> n"
    using rank_le [of c d "with_prefix (joined ss) @ ps'"] assms(3,6) by (simp add: rank_def)
qed (use assms(1) in \<open>simp_all add: rank_setting_def\<close>)

lemma total_readdir:
  assumes "rank_setting eng h c d i n w" "split_pattern eng h UNIV c UNIV ss (p # rest)"
    and "rank c d (map Literal ss @ p # rest) \<le> Suc n" "\<forall>s. p \<noteq> Literal s"
  shows "returns (walk_inv h UNIV c (\<lambda>_. UNIV))
    (processReaddir eng h w (joined ss) (makeAbs c (read_path ss)) (p # rest) i g)"
  unfolding processReaddir_def
proof (rule returns_listing)
  let ?I = "walk_inv h UNIV c (\<lambda>_. UNIV)"
  note pre = split_pattern_strings [OF assms(2)]
  have setting: "walk_setting h c" using assms(1) by (simp add: rank_setting_def)
  then show fs: "file_system h" by (simp add: walk_setting_def)
  show "makeAbs c (makeAbs c (read_path ss)) = makeAbs c (read_path ss)" by (rule read_path_abs(2) [OF setting pre(2)])
  fix es assume es: "readdirSync h (makeAbs c (read_path ss)) = Inr es"
  have each: "returns ?I (w (with_prefix (joined ss) @ Literal e # rest) i g) \<and>
      ensures ?I (w (with_prefix (joined ss) @ Literal e # rest) i g) (\<lambda>_. ?I)" if "e \<in> set es" for e
    using pre(5) plain_hd [OF entry_plain [OF fs es that]] by (intro rank_recursion [OF assms]) auto
  have entries: "e \<in> set es" if "e \<in> set (matched_entries eng s b pn raw es)" for s b pn raw e
    using that by (simp add: matched_entries_def)
  have put: "returns ?I (bind_call (create_matches i) (\<lambda>_. for_each (\<lambda>e. put_match i (f e)) xs))" for f xs
    unfolding create_matches_def put_match_def
    by (auto intro!: returns_bind_any returns_change returns_for_each_any)
  show "returns ?I (enter_matched eng w (joined ss) (p # rest) i g es)"
    unfolding enter_matched_def using each entries
    by (fastforce simp: Let_def split: part.split option.split
        intro!: returns_throw returns_ret returns_reading returns_each_entry put)
qed

lemma total_globstar:
  assumes "rank_setting eng h c d i n w" "split_pattern eng h UNIV c UNIV ss (Globstar # rest)"
    and "rank c d (map Literal ss @ Globstar # rest) \<le> Suc n"
  shows "returns (walk_inv h UNIV c (\<lambda>_. UNIV))
    (processGlobStar h w (joined ss) (makeAbs c (read_path ss)) (Globstar # rest) i g)"
  unfolding processGlobStar_def
proof (rule returns_listing)
  let ?I = "walk_inv h UNIV c (\<lambda>_. UNIV)" and ?abs = "makeAbs c (read_path ss)"
  note pre = split_pattern_strings [OF assms(2)] and rec = rank_recursion [OF assms, simplified]
  have setting: "walk_setting h c" "bounded_depth h d" "sound_walk eng h UNIV c (\<lambda>_. UNIV) i w" "total_walk h c d i n w"
    using assms(1) by (simp_all add: rank_setting_def)
  then show fs: "file_system h" by (simp add: walk_setting_def)
  note abs = read_path_abs [OF setting(1) pre(2)]
  show "makeAbs c ?abs = ?abs" by (rule abs(2))
  fix es assume es: "readdirSync h ?abs = Inr es"
  have zero: "returns ?I (w (with_prefix (joined ss) @ rest) i False) \<and>
      ensures ?I (w (with_prefix (joined ss) @ rest) i False) (\<lambda>_. ?I)"
    using pre(5) by (intro rec) auto
  have each: "returns ?I (bind_call (w (with_prefix (joined ss) @ Literal e # rest) i True) (\<lambda>_.
        w (with_prefix (joined ss) @ Literal e # Globstar # rest) i True)) \<and>
      ensures ?I (bind_call (w (with_prefix (joined ss) @ Literal e # rest) i True) (\<lambda>_.
        w (with_prefix (joined ss) @ Literal e # Globstar # rest) i True)) (\<lambda>_. ?I)" if "e \<in> set es" for e
  proof -
    have e: "plain e" "es \<noteq> []" using entry_plain [OF fs es that] that by auto
    have "length (walk_parts c (read_path ss)) \<le> d"
      using setting(2) es e(2) walk_parts_plain [of c] unfolding bounded_depth_def abs(1) by blast
    then have "rank c d (with_prefix (joined ss) @ Literal e # Globstar # rest) \<le> n"
      using rank_below [OF assms(2) e(1), of d] assms(3) by simp
    then have "returns ?I (w (with_prefix (joined ss) @ Literal e # Globstar # rest) i True) \<and>
        ensures ?I (w (with_prefix (joined ss) @ Literal e # Globstar # rest) i True) (\<lambda>_. ?I)"
      using pre(4) plain_hd [OF e(1)] by (intro split_recursion [OF assms(2) setting(3,4)]) auto
    moreover have "returns ?I (w (with_prefix (joined ss) @ Literal e # rest) i True) \<and>
        ensures ?I (w (with_prefix (joined ss) @ Literal e # rest) i True) (\<lambda>_. ?I)"
      using pre(5) plain_hd [OF e(1)] by (intro rec) auto
    ultimately show ?thesis by (auto intro: returns_bind [where R = "\<lambda>_. ?I"] ensures_bind_inv)
  qed
  show "returns ?I (enter_all w (joined ss) ?abs (Globstar # rest) i g es)"
    unfolding enter_all_def Let_def using zero each
    by (auto intro!: returns_bind [where R = "\<lambda>_. ?I"] returns_reading returns_ret returns_each_entry ensures_ret)
qed

lemma total_step:
  assumes "rank_setting eng h c d i n w"
  shows "total_walk h c d i (Suc n) (process_step eng h w)"
  unfolding total_walk_def
proof (intro allI impI)
  fix ps g assume walkable: "walkable ps" and rank: "rank c d ps \<le> Suc n"
  let ?I = "walk_inv h UNIV c (\<lambda>_. UNIV)"
  obtain ss remain where lead: "leading ps = (ss, remain)" by (cases "leading ps")
  note ps = leading_split [OF lead]
  show "returns ?I (process_step eng h w ps i g)"
  proof (cases remain)
    case Nil
    then show ?thesis using lead returns_processSimple by (auto simp: process_step_def returns_def)
  next
    case (Cons p rest)
    then have split: "split_pattern eng h UNIV c UNIV ss (p # rest)"
      using ps walkable by (simp add: split_pattern_def allowed_def)
    have "returns ?I (reading (\<lambda>self.
        if childrenIgnored eng self (read_path ss) then ret ()
        else if p = Globstar then processGlobStar h w (joined ss) (makeAbs self (read_path ss)) remain i g
        else processReaddir eng h w (joined ss) (makeAbs self (read_path ss)) remain i g))"
      using total_readdir [OF assms split] total_globstar [OF assms] split ps rank Cons
      by (auto intro!: returns_reading returns_ret simp: walk_inv_makeAbs)
    then show ?thesis
      using lead absolute_prefix_joined [OF split_pattern_strings(2) [OF split]] Cons
      by (simp only: process_step_def Let_def prod.case if_False list.sel list.distinct read_path_def [symmetric]
          joined_def [symmetric])
  qed
qed

lemma total_process:
  assumes "walk_setting h c" "bounded_depth h d"
  shows "total_walk h c d i n (process eng h n)"
proof (induction n)
  case 0
  show ?case by (simp add: total_walk_def rank_def)
next
  case (Suc n)
  then show ?case
    using total_step [of eng h c d i n "process eng h n"] assms sound_process [OF assms(1)]
    by (simp add: rank_setting_def)
qed


section \<open>A concrete run\<close>

text \<open>
  The pattern \<open>**\<close> on a file system with one file, \<open>b\<close> in the root, which is also the working
  directory. Every spelling of a path is answered, as by the system calls: \<open>.\<close>, \<open>..\<close> and empty
  components stay in the root, and nothing is below the file.
\<close>

datatype located = At_dir | At_file | Below_file | Nowhere

fun example_find :: "jstring list \<Rightarrow> located" where
  "example_find [] = At_dir"
| "example_find (w # ws) =
     (if w = [] \<or> w = [46] \<or> w = [46, 46] then example_find ws
      else if w = [98] then (if ws = [] then At_file else Below_file)
      else Nowhere)"

definition example_at :: "jstring \<Rightarrow> located" where
  "example_at p = (if p = [] then Nowhere else example_find (split1 slash p))"

definition example_error :: "located \<Rightarrow> string" where
  "example_error f = (if f = Nowhere then ''ENOENT'' else ''ENOTDIR'')"

definition example_stat :: "string \<Rightarrow> jstring \<Rightarrow> fs_error + fs_stat" where
  "example_stat call p =
     (if example_at p \<in> {At_dir, At_file}
      then Inr \<lparr>isDirectory = (example_at p = At_dir), isSymbolicLink = False\<rparr>
      else Inl \<lparr>er_code = example_error (example_at p), er_syscall = call\<rparr>)"

definition example_host :: host where
  "example_host = \<lparr>
     lstatSync = example_stat ''lstat'',
     statSync = example_stat ''stat'',
     readdirSync = (\<lambda>p. if example_at p = At_dir then Inr [[98]]
       else Inl \<lparr>er_code = example_error (example_at p), er_syscall = ''scandir''\<rparr>),
     realpathSync = (\<lambda>p. Inr p),
     localeCompare = (\<lambda>a b. if a < b then -1 else if a = b then 0 else 1)\<rparr>"

definition no_options :: glob_options where
  "no_options = \<lparr>go_flags = Map.empty, go_cwd = None, go_root = None, go_maxLength = None, go_cache = Map.empty,
     go_statCache = Map.empty, go_symlinks = Map.empty, go_ignore = []\<rparr>"

definition example_minimatch :: minimatch where
  "example_minimatch = \<lparr>mm_options = glob_flags Map.empty, mm_set = [[Globstar]], mm_globSet = [[42, 42]],
     mm_pattern = [42, 42], mm_regexp = None, mm_negate = False, mm_comment = False, mm_empty = False\<rparr>"

definition example_glob :: glob where
  "example_glob = initial_glob no_options [] example_minimatch ([], False)"

lemma example_new_Minimatch:
  "new_Minimatch plain_engine rnd [42, 42] (glob_flags Map.empty) = Returns (Inr example_minimatch)"
  by (simp add: new_Minimatch_def Glob_Minimatch.make_def is_comment_def parseNegate_def braceExpand_def parse_glob_def
      glob_flags_def on_def trim_text_def is_white_def and_run_def example_minimatch_def)

lemma bind_ret: "bind_call (ret x) f = f x" "lift_outcome (Returns (Inr x)) = ret x"
  by (simp_all add: fun_eq_iff bind_call_def ret_def lift_outcome_def)

lemma example_setopts:
  "setopts plain_engine rnd False [42, 42] no_options () = Some (Inr (example_glob, ()))"
proof -
  have "deprecationWarning (glob_flags Map.empty) False = ([], False)"
    by (simp add: deprecationWarning_def glob_flags_def on_def)
  moreover have "go_flags no_options = Map.empty" "go_ignore no_options = []" by (simp_all add: no_options_def)
  ultimately show ?thesis
    by (simp add: setopts_def Let_def base_pattern_def on_def bind_ret setupIgnores_def example_new_Minimatch
        example_glob_def) (simp add: ret_def)
qed

lemma example_fields:
  "g_silent example_glob = False" "g_strict example_glob = True" "g_realpath example_glob = False"
  "g_follow example_glob = False" "g_dot example_glob = False" "g_mark example_glob = False"
  "g_nodir example_glob = False" "g_nounique example_glob = False" "g_nonull example_glob = False"
  "g_nosort example_glob = False" "g_nocase example_glob = False" "g_stat example_glob = False"
  "g_noprocess example_glob = False" "g_nomount example_glob = False" "g_maxLength example_glob = None"
  "g_cache example_glob = Map.empty" "g_statCache example_glob = Map.empty" "g_symlinks example_glob = Map.empty"
  "g_ignore example_glob = []" "g_changedCwd example_glob = False" "g_root example_glob = [slash]"
  "g_minimatch example_glob = example_minimatch" "g_matches example_glob = []"
  by (simp_all add: example_glob_def initial_glob_def no_options_def on_def glob_root_default Let_def)

lemma example_calls:
  "lstatSync example_host [] = Inl \<lparr>er_code = ''ENOENT'', er_syscall = ''lstat''\<rparr>"
  "lstatSync example_host [47, 98] = Inr \<lparr>isDirectory = False, isSymbolicLink = False\<rparr>"
  "readdirSync example_host [47] = Inr [[98]]"
  "readdirSync example_host [47, 98] = Inl \<lparr>er_code = ''ENOTDIR'', er_syscall = ''scandir''\<rparr>"
  by (simp_all add: example_host_def example_stat_def example_at_def example_error_def slash_def)

lemma example_abs:
  "g_changedCwd s = False \<Longrightarrow> makeAbs s [46] = [47]" "g_changedCwd s = False \<Longrightarrow> makeAbs s [98] = [47, 98]"
  "g_root s = [slash] \<Longrightarrow> makeAbs s [47] = [47]" "g_root s = [slash] \<Longrightarrow> makeAbs s [47, 98] = [47, 98]"
  using makeAbs_at_root [of s "[]"] makeAbs_at_root [of s "[[98]]"]
  by (simp_all add: at_root_def slash_def plain_def dot_def makeAbs_def posix_def resolve_paths_at_root
      resolve_parts_def isAbsolute_def path_parts_def walk_def walk_step_def)

lemmas example_walk = run_patterns_def process_step_def bind_call_def reading_def ret_def Let_def
  absolute_prefix_def childrenIgnored_def dot_def slash_def posix_def child_def with_prefix_def
  processGlobStar_def enter_all_def readdir_def readdirInGlobStar_def readdir_plain_def readdirEntries_def
  readdirError_def cache_put_def change_def processSimple_def stat_path_def too_long_def ends_with_slash_def
  cached_stat_def stat_of_def create_matches_def put_match_def mount_def add_key_def
  example_fields example_calls example_abs example_minimatch_def

lemma example_globSync:
  "globSync plain_engine rnd example_host (Suc (Suc (Suc (Suc 0)))) False [42, 42] no_options = Some (Inr (Some [[98]]))"
  using example_setopts [of rnd]
  by (simp add: globSync_def GlobSync_def example_fields, simp add: example_walk,
    simp add: example_fields sync_finish_def finish_def bind_call_def reading_def ret_def change_def all_matches_def
      add_matches_def add_match_def object_keys_def is_array_index_def is_digit_def add_key_def sort_with_def)

lemma example_lawful:
  "file_system example_host" "bounded_depth example_host 0" "fresh_options no_options" "relative_patterns example_glob"
  "collation (localeCompare example_host)"
proof -
  have "example_at (child p [98]) = At_file" if "example_at p = At_dir" for p
  proof -
    have "example_find (ws @ [[98]]) = At_file" if "example_find ws = At_dir" for ws
      using that by (induction ws) (auto split: if_splits)
    then show ?thesis
      using that split1_append [of slash p "[98]"] split1_plain [of slash "[98]"]
      by (auto simp: example_at_def child_def slash_def split: if_splits)
  qed
  then show "file_system example_host"
    by (auto simp: file_system_def example_host_def example_stat_def plain_def slash_def dot_def split: if_splits)
  show "bounded_depth example_host 0"
    unfolding bounded_depth_def
  proof (intro allI impI)
    fix ws es assume ws: "list_all plain ws" "readdirSync example_host (at_root ws) = Inr es"
    have "example_at (at_root ws) \<noteq> At_dir" if "ws \<noteq> []"
    proof -
      have "\<forall>w \<in> set ws. slash \<notin> set w" using ws(1) by (auto simp: list_all_iff plain_def)
      then have "split1 slash (join [slash] ws) = ws" using that by (intro split1_join) auto
      then show ?thesis
        using ws(1) that by (cases ws) (auto simp: example_at_def at_root_def plain_def dot_def)
    qed
    with ws(2) show "length ws \<le> 0" by (auto simp: example_host_def split: if_splits)
  qed
  show "fresh_options no_options" by (simp add: fresh_options_def no_options_def on_def)
  show "relative_patterns example_glob" by (simp add: relative_patterns_def example_fields example_minimatch_def slash_def)
  show "collation (localeCompare example_host)" by (auto simp: collation_def example_host_def split: if_splits)
qed

theorem globSync_sound_witness:
  "globSync plain_engine (\<lambda>_. []) example_host (Suc (Suc (Suc (Suc 0)))) False [42, 42] no_options = Some (Inr (Some [[98]])) \<and>
   (\<exists>st. lstatSync example_host (makeAbs example_glob [98]) = Inr st)"
  using globSync_sound [OF example_lawful(1,3) example_setopts example_lawful(4) example_globSync] example_globSync
  by (auto simp: example_fields example_abs example_calls)

theorem globSync_sorted_witness:
  "\<exists>found. globSync plain_engine (\<lambda>_. []) example_host (Suc (Suc (Suc (Suc 0)))) False [42, 42] no_options =
     Some (Inr (Some found)) \<and> distinct found"
  using globSync_sorted [OF example_lawful(5) example_setopts _ _ _ _ example_globSync] example_globSync
  by (simp add: example_fields)


end
