(* ===== verification/Glob_Async.thy ===== *)
theory Glob_Async
  imports Glob_Sync
begin

text \<open>
  The asynchronous walker \<open>Glob\<close> of the bundled \<open>glob\<close> package of \<open>wordcut.js\<close> (module 16, \<open>glob.js\<close>):
  the walk of the module 17 with callbacks, over requests that are shared while they are in flight
  (module 18), with events, \<open>pause\<close>, \<open>resume\<close> and \<open>abort\<close>.

  Closures are values of a data type with the variables that they capture. A callback runs to its
  end when an operation of the file system completes, in any order, or at a tick. The requests in
  flight are those of one walker: the callbacks of the keys, the keys to be answered at a later tick.
  The guard by \<open>once\<close> of a request has no part in it, as each request is answered by one operation.
  An exception that a callback throws ends the program. When the end of a walk marks its results, the
  entries \<open>false\<close> of the cache of stats are not copied to the marked names.
\<close>

section \<open>The state\<close>

text \<open>The strings \<open>readdir\0path\0flag\<close>, \<open>lstat\0path\<close> and \<open>stat\0path\<close>.\<close>

datatype flight_key = Readdir_key jstring bool | Lstat_key jstring | Stat_key jstring

text \<open>
  What waits for an answer: the callbacks of \<open>_processReaddir\<close> and \<open>_processGlobStar\<close>, another request
  that is answered in turn, the callback of \<open>_readdirInGlobStar\<close> with the request that it answers, and
  the callback of \<open>_stat\<close> for \<open>_processSimple\<close>.
\<close>

datatype flight_cb =
    Enter_matched "jstring option" "part list" nat bool
  | Enter_all "jstring option" jstring "part list" nat bool
  | Answer_request flight_key
  | Globstar_lstat flight_key
  | Simple_lstat jstring nat

datatype flight_answer = Dir_entries "jstring list option" | Lstat_result "fs_error + fs_stat"

text \<open>Operations of the file system that have been started.\<close>

datatype fs_op =
    Op_lstat flight_key jstring
  | Op_readdir jstring flight_key
  | Op_stat jstring fs_stat nat
  | Op_realpath nat jstring

datatype glob_event =
    Match jstring | Stat_event jstring fs_stat | End "jstring list option" | Error fs_error
  | Abort | Pause | Resume

text \<open>
  \<open>a_missing\<close> are the paths whose entry in the cache of stats is \<open>false\<close>; \<open>a_sets_left\<close> and
  \<open>a_paths_left\<close> are the counters \<open>n\<close> of \<open>_realpath\<close> and of its calls of \<open>_realpathSet\<close>; \<open>a_handled\<close>
  says whether someone listens for errors.
\<close>

record aglob =
  walker :: glob
  a_aborted :: bool
  a_paused :: bool
  a_didRealpath :: bool
  a_processing :: int
  a_emitQueue :: "(nat \<times> jstring) list"
  a_processQueue :: "(part list \<times> nat \<times> bool) list"
  a_missing :: "jstring set"
  a_reqs :: "(flight_key \<times> flight_cb list) list"
  a_ops :: "fs_op list"
  a_ticks :: "(flight_key \<times> flight_answer) list"
  a_sets_left :: int
  a_paths_left :: "nat \<Rightarrow> int"
  a_events :: "glob_event list"
  a_handled :: bool

type_synonym walking = "(aglob, unit) call"

text \<open>A call on the fields that both walkers have.\<close>

definition on_walker :: "(glob, 'a) call \<Rightarrow> (aglob, 'a) call" where
  "on_walker m st =
     (case m (walker st) of
        None \<Rightarrow> None
      | Some (Inl e) \<Rightarrow> Some (Inl e)
      | Some (Inr (x, g)) \<Rightarrow> Some (Inr (x, st\<lparr>walker := g\<rparr>)))"

definition skip :: walking where
  "skip = ret ()"

definition and_then_do :: "walking \<Rightarrow> walking \<Rightarrow> walking" where
  "and_then_do m m' = bind_call m (\<lambda>_. m')"

definition emit_event :: "glob_event \<Rightarrow> walking" where
  "emit_event ev = change (\<lambda>st. st\<lparr>a_events := a_events st @ [ev]\<rparr>)"

text \<open>An error that nobody listens for is thrown.\<close>

definition emit_error :: "fs_error \<Rightarrow> walking" where
  "emit_error er = reading (\<lambda>st. if a_handled st then emit_event (Error er) else throw (Fs_error er))"

definition start_op :: "fs_op \<Rightarrow> walking" where
  "start_op op = change (\<lambda>st. st\<lparr>a_ops := a_ops st @ [op]\<rparr>)"

text \<open>What a callback calls that may lead back to it.\<close>

datatype task = Process "part list" nat bool | Answer flight_key flight_answer

type_synonym runner = "task \<Rightarrow> walking"

section \<open>The end of a walk\<close>

definition finish_found :: "js_engine \<Rightarrow> host \<Rightarrow> walking" where
  "finish_found eng h = reading (\<lambda>st.
     if a_aborted st then skip
     else and_then_do (on_walker (finish eng h)) (reading (\<lambda>st. emit_event (End (g_found (walker st))))))"

text \<open>The callback \<open>next\<close> of \<open>_realpath\<close>; the walk has its real paths then.\<close>

definition next_set :: "js_engine \<Rightarrow> host \<Rightarrow> walking" where
  "next_set eng h =
     and_then_do (change (\<lambda>st. st\<lparr>a_sets_left := a_sets_left st - 1\<rparr>))
       (reading (\<lambda>st. if a_sets_left st = 0 then finish_found eng h else skip))"

definition realpathSet :: "js_engine \<Rightarrow> host \<Rightarrow> nat \<Rightarrow> walking" where
  "realpathSet eng h index = reading (\<lambda>st.
     case g_matches (walker st) ! index of
       None \<Rightarrow> next_set eng h
     | Some matchset \<Rightarrow>
         let found = object_keys matchset in
         if found = [] then next_set eng h
         else
           and_then_do
             (change (\<lambda>st. st\<lparr>walker := (walker st)\<lparr>g_matches := (g_matches (walker st))[index := Some []]\<rparr>,
                a_paths_left := (a_paths_left st)(index := int (length found))\<rparr>))
             (for_each (\<lambda>p. start_op (Op_realpath index (makeAbs (walker st) p))) found))"

definition realpath_async :: "js_engine \<Rightarrow> host \<Rightarrow> walking" where
  "realpath_async eng h = reading (\<lambda>st.
     if a_didRealpath st then skip
     else
       let n = length (g_matches (walker st)) in
       and_then_do (change (\<lambda>st. st\<lparr>a_didRealpath := True, a_sets_left := int n\<rparr>))
         (if n = 0 then finish_found eng h else for_each (realpathSet eng h) [0..<n]))"

definition finish_async :: "js_engine \<Rightarrow> host \<Rightarrow> walking" where
  "finish_async eng h = reading (\<lambda>st.
     if a_aborted st then skip
     else if g_realpath (walker st) \<and> \<not> a_didRealpath st then realpath_async eng h
     else finish_found eng h)"

text \<open>The callback of \<open>fs.realpath\<close>.\<close>

definition add_real :: "nat \<Rightarrow> jstring \<Rightarrow> walking" where
  "add_real index p = on_walker (put_match index p)"

definition realpath_done :: "js_engine \<Rightarrow> host \<Rightarrow> nat \<Rightarrow> jstring \<Rightarrow> walking" where
  "realpath_done eng h index p =
     and_then_do
       (case realpathSync h p of
          Inr real \<Rightarrow> add_real index real
        | Inl er \<Rightarrow> if er_syscall er = ''stat'' then add_real index p else emit_error er)
       (and_then_do (change (\<lambda>st. st\<lparr>a_paths_left := (a_paths_left st)(index := a_paths_left st index - 1)\<rparr>))
         (reading (\<lambda>st. if a_paths_left st index = 0 then next_set eng h else skip)))"

text \<open>The function \<open>done\<close>, the last callback of every pattern.\<close>

definition done_async :: "js_engine \<Rightarrow> host \<Rightarrow> walking" where
  "done_async eng h =
     and_then_do (change (\<lambda>st. st\<lparr>a_processing := a_processing st - 1\<rparr>))
       (reading (\<lambda>st. if a_processing st \<le> 0 then finish_async eng h else skip))"

section \<open>Requests in flight\<close>

definition reqs_of :: "aglob \<Rightarrow> flight_key \<Rightarrow> flight_cb list" where
  "reqs_of st key = (case map_of (a_reqs st) key of None \<Rightarrow> [] | Some cbs \<Rightarrow> cbs)"

fun put_req :: "flight_key \<Rightarrow> flight_cb list \<Rightarrow> (flight_key \<times> flight_cb list) list \<Rightarrow> (flight_key \<times> flight_cb list) list" where
  "put_req key cbs [] = [(key, cbs)]"
| "put_req key cbs (p # ps) = (if fst p = key then (key, cbs) # ps else p # put_req key cbs ps)"

text \<open>\<open>inflight(key, cb)\<close>: whether the caller is to make the request.\<close>

definition join_flight :: "flight_key \<Rightarrow> flight_cb \<Rightarrow> (aglob, bool) call" where
  "join_flight key cb = reading (\<lambda>st.
     bind_call (change (\<lambda>st. st\<lparr>a_reqs := put_req key (reqs_of st key @ [cb]) (a_reqs st)\<rparr>))
       (\<lambda>_. ret (map_of (a_reqs st) key = None)))"

definition settle_flight :: "flight_key \<Rightarrow> flight_answer \<Rightarrow> nat \<Rightarrow> walking" where
  "settle_flight key ans len = change (\<lambda>st.
     if length (reqs_of st key) > len
     then st\<lparr>a_reqs := put_req key (drop len (reqs_of st key)) (a_reqs st), a_ticks := a_ticks st @ [(key, ans)]\<rparr>
     else st\<lparr>a_reqs := filter (\<lambda>p. fst p \<noteq> key) (a_reqs st)\<rparr>)"

definition answer_flight :: "(flight_cb \<Rightarrow> flight_answer \<Rightarrow> walking) \<Rightarrow> flight_key \<Rightarrow> flight_answer \<Rightarrow> walking" where
  "answer_flight run key ans = reading (\<lambda>st.
     case map_of (a_reqs st) key of
       None \<Rightarrow> throw (Thrown TypeError)
     | Some cbs \<Rightarrow>
         and_then_do (for_each (\<lambda>i. reading (\<lambda>st. run (reqs_of st key ! i) ans)) [0..<length cbs])
           (settle_flight key ans (length cbs)))"

section \<open>Events of a walk\<close>

definition abort_async :: walking where
  "abort_async = and_then_do (change (\<lambda>st. st\<lparr>a_aborted := True\<rparr>)) (emit_event Abort)"

definition pause_async :: walking where
  "pause_async = reading (\<lambda>st.
     if a_paused st then skip
     else and_then_do (change (\<lambda>st. st\<lparr>a_paused := True\<rparr>)) (emit_event Pause))"

text \<open>\<open>_mark\<close> copies the entry of the cache of stats, \<open>false\<close> included.\<close>

definition mark_async :: "jstring \<Rightarrow> (aglob, jstring) call" where
  "mark_async e = reading (\<lambda>st.
     bind_call (on_walker (mark_path e)) (\<lambda>m.
     bind_call
       (if m = e then skip
        else change (\<lambda>st'. st'\<lparr>a_missing :=
          (if makeAbs (walker st) e \<in> a_missing st then insert (makeAbs (walker st) m) (a_missing st')
           else a_missing st' - {makeAbs (walker st) m})\<rparr>))
       (\<lambda>_. ret m)))"

definition emitMatch_async :: "js_engine \<Rightarrow> nat \<Rightarrow> jstring \<Rightarrow> walking" where
  "emitMatch_async eng index e = reading (\<lambda>st.
     if a_aborted st then skip
     else case g_matches (walker st) ! index of
       None \<Rightarrow> throw (Thrown TypeError)
     | Some ks \<Rightarrow>
         if e \<in> set ks then skip
         else if isIgnored eng (walker st) e then skip
         else if a_paused st then change (\<lambda>st. st\<lparr>a_emitQueue := a_emitQueue st @ [(index, e)]\<rparr>)
         else
           let absPath = makeAbs (walker st) e in
           if g_nodir (walker st) \<and>
             (case g_cache (walker st) absPath of None \<Rightarrow> False | Some c \<Rightarrow> is_dir_entry c)
           then skip
           else bind_call (if g_mark (walker st) then mark_async e else ret e) (\<lambda>e.
             and_then_do (on_walker (put_match index e)) (reading (\<lambda>st.
               and_then_do
                 (case g_statCache (walker st) absPath of
                    Some stat \<Rightarrow> if absPath \<in> a_missing st then skip else emit_event (Stat_event e stat)
                  | None \<Rightarrow> skip)
                 (emit_event (Match e))))))"

definition resume_async :: "js_engine \<Rightarrow> runner \<Rightarrow> walking" where
  "resume_async eng go = reading (\<lambda>st.
     if \<not> a_paused st then skip
     else
       and_then_do (emit_event Resume)
         (and_then_do (change (\<lambda>st. st\<lparr>a_paused := False, a_emitQueue := []\<rparr>))
           (and_then_do (for_each (\<lambda>(index, e). emitMatch_async eng index e) (a_emitQueue st))
             (reading (\<lambda>st.
               and_then_do (change (\<lambda>st. st\<lparr>a_processQueue := []\<rparr>))
                 (for_each (\<lambda>(pattern, index, inGlobStar).
                    and_then_do (change (\<lambda>st. st\<lparr>a_processing := a_processing st - 1\<rparr>))
                      (go (Process pattern index inGlobStar))) (a_processQueue st)))))))"

section \<open>Stats\<close>

definition processSimple2 :: "js_engine \<Rightarrow> host \<Rightarrow> jstring \<Rightarrow> nat \<Rightarrow> cached \<Rightarrow> walking" where
  "processSimple2 eng h pfx index exists =
     and_then_do (on_walker (create_matches index))
       (if exists = Absent then done_async eng h
        else and_then_do (reading (\<lambda>st. emitMatch_async eng index (mount (walker st) pfx))) (done_async eng h))"

definition stat2 :: "js_engine \<Rightarrow> host \<Rightarrow> jstring \<Rightarrow> nat \<Rightarrow> fs_stat option \<Rightarrow> walking" where
  "stat2 eng h f index result = reading (\<lambda>st.
     let absPath = makeAbs (walker st) f; needDir = ends_with_slash f in
     case result of
       None \<Rightarrow>
         and_then_do (change (\<lambda>st. st\<lparr>a_missing := insert absPath (a_missing st)\<rparr>))
           (processSimple2 eng h f index Absent)
     | Some stat \<Rightarrow>
         and_then_do
           (change (\<lambda>st. st\<lparr>a_missing := a_missing st - {absPath},
              walker := (walker st)\<lparr>g_statCache := (g_statCache (walker st))(absPath \<mapsto> stat)\<rparr>\<rparr>))
           (if ends_with_slash absPath \<and> \<not> isDirectory stat then processSimple2 eng h f index Absent
            else
              let c = (if isDirectory stat then Dir else File) in
              and_then_do
                (on_walker (reading (\<lambda>self. cache_put absPath
                   (case g_cache self absPath of None \<Rightarrow> c | Some Absent \<Rightarrow> c | Some c' \<Rightarrow> c'))))
                (processSimple2 eng h f index (if needDir \<and> c \<noteq> Dir then Absent else c))))"

definition simple_lstat :: "js_engine \<Rightarrow> host \<Rightarrow> jstring \<Rightarrow> nat \<Rightarrow> fs_error + fs_stat \<Rightarrow> walking" where
  "simple_lstat eng h f index result =
     (case result of
        Inr lstat \<Rightarrow> if isSymbolicLink lstat then start_op (Op_stat f lstat index) else stat2 eng h f index (Some lstat)
      | Inl er \<Rightarrow> stat2 eng h f index None)"

definition stat_async :: "js_engine \<Rightarrow> host \<Rightarrow> jstring \<Rightarrow> nat \<Rightarrow> walking" where
  "stat_async eng h f index = reading (\<lambda>st.
     let absPath = makeAbs (walker st) f; needDir = ends_with_slash f in
     if too_long (walker st) f then processSimple2 eng h f index Absent
     else case cached_stat (walker st) absPath needDir of
       Some c \<Rightarrow> processSimple2 eng h f index c
     | None \<Rightarrow>
         if absPath \<in> a_missing st then processSimple2 eng h f index Absent
         else case g_statCache (walker st) absPath of
           Some stat \<Rightarrow>
             let c = (if isDirectory stat then Dir else File)
             in processSimple2 eng h f index (if needDir \<and> c = File then Absent else c)
         | None \<Rightarrow>
             bind_call (join_flight (Stat_key absPath) (Simple_lstat f index))
               (\<lambda>new. if new then start_op (Op_lstat (Stat_key absPath) absPath) else skip))"

section \<open>Reading directories\<close>

definition readdir_answer :: "runner \<Rightarrow> flight_key \<Rightarrow> jstring list option \<Rightarrow> walking" where
  "readdir_answer go key entries = go (Answer key (Dir_entries entries))"

text \<open>\<open>_readdir\<close> without the branch for symbolic links, after the request has been made.\<close>

definition readdir_request :: "runner \<Rightarrow> jstring \<Rightarrow> flight_key \<Rightarrow> walking" where
  "readdir_request go absPath key = reading (\<lambda>st.
     case g_cache (walker st) absPath of
       Some Absent \<Rightarrow> readdir_answer go key None
     | Some File \<Rightarrow> readdir_answer go key None
     | Some (Entries es) \<Rightarrow> readdir_answer go key (Some es)
     | _ \<Rightarrow> start_op (Op_readdir absPath key))"

definition readdir_plain_async :: "runner \<Rightarrow> jstring \<Rightarrow> flight_cb \<Rightarrow> walking" where
  "readdir_plain_async go absPath cb = reading (\<lambda>st.
     if a_aborted st then skip
     else bind_call (join_flight (Readdir_key absPath False) cb)
       (\<lambda>new. if new then readdir_request go absPath (Readdir_key absPath False) else skip))"

definition readdirInGlobStar_async :: "runner \<Rightarrow> jstring \<Rightarrow> flight_key \<Rightarrow> walking" where
  "readdirInGlobStar_async go absPath key = reading (\<lambda>st.
     if a_aborted st then skip
     else if g_follow (walker st) then readdir_plain_async go absPath (Answer_request key)
     else bind_call (join_flight (Lstat_key absPath) (Globstar_lstat key))
       (\<lambda>new. if new then start_op (Op_lstat (Lstat_key absPath) absPath) else skip))"

definition readdir_async :: "runner \<Rightarrow> jstring \<Rightarrow> bool \<Rightarrow> flight_cb \<Rightarrow> walking" where
  "readdir_async go absPath inGlobStar cb = reading (\<lambda>st.
     if a_aborted st then skip
     else if \<not> inGlobStar then readdir_plain_async go absPath cb
     else bind_call (join_flight (Readdir_key absPath True) cb)
       (\<lambda>new. if \<not> new then skip
         else if absPath \<notin> dom (g_symlinks (walker st))
         then readdirInGlobStar_async go absPath (Readdir_key absPath True)
         else readdir_request go absPath (Readdir_key absPath True)))"

text \<open>The callback of \<open>_readdirInGlobStar\<close>; the path is that of the request that it answers.\<close>

definition globstar_lstat :: "runner \<Rightarrow> flight_key \<Rightarrow> fs_error + fs_stat \<Rightarrow> walking" where
  "globstar_lstat go key result =
     (let absPath = (case key of Readdir_key p _ \<Rightarrow> p | Lstat_key p \<Rightarrow> p | Stat_key p \<Rightarrow> p) in
      case result of
        Inl er \<Rightarrow> readdir_answer go key None
      | Inr lstat \<Rightarrow>
          let isSym = isSymbolicLink lstat in
          and_then_do (on_walker (change (\<lambda>self. self\<lparr>g_symlinks := (g_symlinks self)(absPath \<mapsto> isSym)\<rparr>)))
            (if \<not> isSym \<and> \<not> isDirectory lstat
             then and_then_do (on_walker (cache_put absPath File)) (readdir_answer go key None)
             else readdir_plain_async go absPath (Answer_request key)))"

definition readdirEntries_async :: "runner \<Rightarrow> jstring \<Rightarrow> flight_key \<Rightarrow> jstring list \<Rightarrow> walking" where
  "readdirEntries_async go absPath key entries = reading (\<lambda>st.
     if a_aborted st then skip
     else bind_call (on_walker (readdirEntries absPath entries)) (\<lambda>entries. readdir_answer go key (Some entries)))"

definition readdirError_async :: "runner \<Rightarrow> jstring \<Rightarrow> flight_key \<Rightarrow> fs_error \<Rightarrow> walking" where
  "readdirError_async go f key er = reading (\<lambda>st.
     if a_aborted st then skip
     else
       let absPath = makeAbs (walker st) f; kind = er_code er in
       and_then_do
         (if kind \<in> {''ENOTSUP'', ''ENOTDIR''} then on_walker (cache_put absPath File)
          else if kind \<in> {''ENOENT'', ''ELOOP'', ''ENAMETOOLONG'', ''UNKNOWN''} then on_walker (cache_put absPath Absent)
          else
            and_then_do (on_walker (cache_put absPath Absent))
              (and_then_do
                (if g_strict (walker st) then and_then_do (emit_error er) abort_async else skip)
                (if \<not> g_silent (walker st)
                 then on_walker (change (\<lambda>self. self\<lparr>g_console := g_console self @ [''glob error'']\<rparr>)) else skip)))
         (readdir_answer go key None))"

section \<open>Patterns\<close>

definition join_prefix_async :: "jstring option \<Rightarrow> jstring \<Rightarrow> jstring" where
  "join_prefix_async pfx e =
     (case pfx of
        Some p \<Rightarrow> if p = [] then e else if p \<noteq> [slash] then p @ [slash] @ e else p @ e
      | None \<Rightarrow> e)"

definition processReaddir2 ::
  "js_engine \<Rightarrow> host \<Rightarrow> runner \<Rightarrow> jstring option \<Rightarrow> part list \<Rightarrow> nat \<Rightarrow> bool \<Rightarrow> jstring list option \<Rightarrow> walking"
where
  "processReaddir2 eng h go pfx remain index inGlobStar entries =
     (case entries of
        None \<Rightarrow> done_async eng h
      | Some entries \<Rightarrow>
          (case remain of
             Magic pn # rest \<Rightarrow> reading (\<lambda>st.
               (case raw_glob (walker st) pn of
                  None \<Rightarrow> throw (Thrown TypeError)
                | Some rawGlob \<Rightarrow>
                    let self = walker st; no_prefix = (pfx = None \<or> pfx = Some []);
                        matchedEntries = matched_entries eng self no_prefix pn rawGlob entries in
                    if matchedEntries = [] then done_async eng h
                    else if rest = [] \<and> \<not> g_mark self \<and> \<not> g_stat self then
                      and_then_do (on_walker (create_matches index))
                        (and_then_do
                          (for_each (\<lambda>e. emitMatch_async eng index (mount self (join_prefix_async pfx e))) matchedEntries)
                          (done_async eng h))
                    else
                      and_then_do
                        (for_each (\<lambda>e. go (Process (Literal (join_prefix_async pfx e) # rest) index inGlobStar)) matchedEntries)
                        (done_async eng h)))
           | _ \<Rightarrow> throw (Thrown TypeError)))"

definition processGlobStar2 ::
  "js_engine \<Rightarrow> host \<Rightarrow> runner \<Rightarrow> jstring option \<Rightarrow> jstring \<Rightarrow> part list \<Rightarrow> nat \<Rightarrow> bool \<Rightarrow> jstring list option \<Rightarrow> walking"
where
  "processGlobStar2 eng h go pfx absPath remain index inGlobStar entries =
     (case entries of
        None \<Rightarrow> done_async eng h
      | Some entries \<Rightarrow>
          let remainWithoutGlobStar = tl remain; gspref = with_prefix pfx in
          and_then_do (go (Process (gspref @ remainWithoutGlobStar) index False)) (reading (\<lambda>st.
            if g_symlinks (walker st) absPath = Some True \<and> inGlobStar then done_async eng h
            else
              and_then_do
                (for_each (\<lambda>e.
                   if e \<noteq> [] \<and> hd e = dot \<and> \<not> g_dot (walker st) then skip
                   else
                     and_then_do (go (Process (gspref @ Literal e # remainWithoutGlobStar) index True))
                       (go (Process (gspref @ Literal e # remain) index True))) entries)
                (done_async eng h))))"

definition process_async :: "js_engine \<Rightarrow> host \<Rightarrow> runner \<Rightarrow> part list \<Rightarrow> nat \<Rightarrow> bool \<Rightarrow> walking" where
  "process_async eng h go pattern index inGlobStar = reading (\<lambda>st.
     if a_aborted st then skip
     else
       and_then_do (change (\<lambda>st. st\<lparr>a_processing := a_processing st + 1\<rparr>))
         (if a_paused st
          then change (\<lambda>st. st\<lparr>a_processQueue := a_processQueue st @ [(pattern, index, inGlobStar)]\<rparr>)
          else case leading pattern of (strings, remain) \<Rightarrow>
            if remain = [] then stat_async eng h (join [slash] strings) index
            else
              let pfx = absolute_prefix (if strings = [] then None else Some (join [slash] strings));
                  read = (case pfx of None \<Rightarrow> [dot] | Some p \<Rightarrow> p);
                  absPath = makeAbs (walker st) read in
              if childrenIgnored eng (walker st) read then done_async eng h
              else readdir_async go absPath inGlobStar
                (if hd remain = Globstar then Enter_all pfx absPath remain index inGlobStar
                 else Enter_matched pfx remain index inGlobStar)))"

section \<open>Callbacks\<close>

definition run_cb :: "js_engine \<Rightarrow> host \<Rightarrow> runner \<Rightarrow> flight_cb \<Rightarrow> flight_answer \<Rightarrow> walking" where
  "run_cb eng h go cb ans =
     (let entries = (case ans of Dir_entries es \<Rightarrow> es | _ \<Rightarrow> None);
          result = (case ans of Lstat_result r \<Rightarrow> r | _ \<Rightarrow> Inl \<lparr>er_code = [], er_syscall = []\<rparr>) in
      case cb of
        Enter_matched pfx remain index inGlobStar \<Rightarrow> processReaddir2 eng h go pfx remain index inGlobStar entries
      | Enter_all pfx absPath remain index inGlobStar \<Rightarrow>
          processGlobStar2 eng h go pfx absPath remain index inGlobStar entries
      | Answer_request key \<Rightarrow> readdir_answer go key entries
      | Globstar_lstat key \<Rightarrow> globstar_lstat go key result
      | Simple_lstat f index \<Rightarrow> simple_lstat eng h f index result)"

definition run_task :: "js_engine \<Rightarrow> host \<Rightarrow> runner \<Rightarrow> task \<Rightarrow> walking" where
  "run_task eng h go t =
     (case t of
        Process pattern index inGlobStar \<Rightarrow> process_async eng h go pattern index inGlobStar
      | Answer key ans \<Rightarrow> answer_flight (run_cb eng h go) key ans)"

text \<open>The recursion through the callbacks, to a bounded depth.\<close>

primrec run :: "js_engine \<Rightarrow> host \<Rightarrow> nat \<Rightarrow> runner" where
  "run eng h 0 = (\<lambda>t st. None)"
| "run eng h (Suc n) = run_task eng h (run eng h n)"

definition op_done :: "js_engine \<Rightarrow> host \<Rightarrow> runner \<Rightarrow> fs_op \<Rightarrow> walking" where
  "op_done eng h go op =
     (case op of
        Op_lstat key p \<Rightarrow> go (Answer key (Lstat_result (lstatSync h p)))
      | Op_readdir p key \<Rightarrow>
          (case readdirSync h p of
             Inl er \<Rightarrow> readdirError_async go p key er
           | Inr entries \<Rightarrow> readdirEntries_async go p key entries)
      | Op_stat f lstat index \<Rightarrow> reading (\<lambda>st.
          stat2 eng h f index (Some (case statSync h (makeAbs (walker st) f) of Inl er \<Rightarrow> lstat | Inr stat \<Rightarrow> stat)))
      | Op_realpath index p \<Rightarrow> realpath_done eng h index p)"

text \<open>
  The host: an operation completes, a request is answered at a tick, or the client acts.
\<close>

datatype glob_action = Complete nat | Tick | Do_pause | Do_resume | Do_abort

definition glob_step :: "js_engine \<Rightarrow> host \<Rightarrow> nat \<Rightarrow> glob_action \<Rightarrow> walking" where
  "glob_step eng h n act =
     (case act of
        Complete i \<Rightarrow> reading (\<lambda>st.
          if i < length (a_ops st)
          then and_then_do (change (\<lambda>st. st\<lparr>a_ops := take i (a_ops st) @ drop (Suc i) (a_ops st)\<rparr>))
            (op_done eng h (run eng h n) (a_ops st ! i))
          else skip)
      | Tick \<Rightarrow> reading (\<lambda>st.
          case a_ticks st of
            [] \<Rightarrow> skip
          | (key, ans) # ts \<Rightarrow>
              and_then_do (change (\<lambda>st. st\<lparr>a_ticks := ts\<rparr>)) (run eng h n (Answer key ans)))
      | Do_pause \<Rightarrow> pause_async
      | Do_resume \<Rightarrow> resume_async eng (run eng h n)
      | Do_abort \<Rightarrow> abort_async)"

section \<open>Glob objects\<close>

definition new_walk :: "bool \<Rightarrow> glob \<Rightarrow> aglob" where
  "new_walk handled self =
     \<lparr>walker = self\<lparr>g_matches := replicate (length (mm_set (g_minimatch self))) None\<rparr>,
      a_aborted = False, a_paused = False, a_didRealpath = False, a_processing = 0, a_emitQueue = [],
      a_processQueue = [], a_missing = {}, a_reqs = [], a_ops = [], a_ticks = [], a_sets_left = 0,
      a_paths_left = \<lambda>i. 0, a_events = [], a_handled = handled\<rparr>"

definition start_walk :: "js_engine \<Rightarrow> host \<Rightarrow> nat \<Rightarrow> walking" where
  "start_walk eng h n = reading (\<lambda>st.
     let patterns = mm_set (g_minimatch (walker st)) in
     if g_noprocess (walker st) then skip
     else if patterns = [] then done_async eng h
     else for_each (\<lambda>i. run eng h n (Process (patterns ! i) i False)) [0..<length patterns])"

definition Glob ::
    "js_engine \<Rightarrow> (mark \<Rightarrow> jstring) \<Rightarrow> host \<Rightarrow> nat \<Rightarrow> bool \<Rightarrow> bool \<Rightarrow> jstring \<Rightarrow> glob_options \<Rightarrow> (glob_error + aglob) option" where
  "Glob eng rnd h n warned handled pattern options =
     (case setopts eng rnd warned pattern options () of
        None \<Rightarrow> None
      | Some (Inl e) \<Rightarrow> Some (Inl e)
      | Some (Inr (self, _)) \<Rightarrow> map_option (map_sum id snd) (start_walk eng h n (new_walk handled self)))"

text \<open>The function \<open>glob\<close>; \<open>has_cb\<close> says whether a callback is given, which listens for errors.\<close>

datatype glob_use = Walk aglob | Found "jstring list option"

definition glob_call ::
    "js_engine \<Rightarrow> (mark \<Rightarrow> jstring) \<Rightarrow> host \<Rightarrow> nat \<Rightarrow> bool \<Rightarrow> bool \<Rightarrow> jstring \<Rightarrow> glob_options \<Rightarrow> (glob_error + glob_use) option" where
  "glob_call eng rnd h n warned has_cb pattern options =
     (if on (go_flags options) ''sync'' then
        if has_cb then Some (Inl (Thrown TypeError))
        else map_option (map_sum id Found) (globSync eng rnd h n warned pattern options)
      else map_option (map_sum id Walk) (Glob eng rnd h n warned has_cb pattern options))"

text \<open>\<open>glob.hasMagic\<close>: a pattern without sets has no first set, and the read of its length throws.\<close>

definition hasMagic ::
    "js_engine \<Rightarrow> (mark \<Rightarrow> jstring) \<Rightarrow> bool \<Rightarrow> jstring \<Rightarrow> glob_options \<Rightarrow> (glob_error + bool) option" where
  "hasMagic eng rnd warned pattern options =
     (case setopts eng rnd warned pattern (options\<lparr>go_flags := (go_flags options)(''noprocess'' \<mapsto> True)\<rparr>) () of
        None \<Rightarrow> None
      | Some (Inl e) \<Rightarrow> Some (Inl e)
      | Some (Inr (self, _)) \<Rightarrow>
          let sets = mm_set (g_minimatch self) in
          if length sets > 1 then Some (Inr True)
          else case sets of
            [] \<Rightarrow> Some (Inl (Thrown TypeError))
          | parts # _ \<Rightarrow> Some (Inr (list_ex (\<lambda>p. case p of Literal s \<Rightarrow> False | _ \<Rightarrow> True) parts)))"

end
