(* ===== verification/Glob_Flow.thy ===== *)
theory Glob_Flow
  imports Glob_Async Glob_Results
begin

text \<open>
  The bookkeeping of the asynchronous walker (module 16 of \<open>wordcut.js\<close>): the counter \<open>_processing\<close> is
  the number of patterns whose last callback is still to come, every request in flight is answered
  once, and a walk that is not paused never waits for nothing.

  Callbacks, operations and ticks hold resources: the right to call \<open>done\<close> once, and the right to
  answer a request. A piece of code is described by the resources that it uses up; what it calls
  may hand them on.
\<close>

section \<open>Resources\<close>

datatype resource = Done | Token flight_key

fun cb_res :: "flight_cb \<Rightarrow> resource multiset" where
  "cb_res (Enter_matched _ _ _ _) = {#Done#}"
| "cb_res (Enter_all _ _ _ _ _) = {#Done#}"
| "cb_res (Simple_lstat _ _) = {#Done#}"
| "cb_res (Answer_request k) = {#Token k#}"
| "cb_res (Globstar_lstat k) = {#Token k#}"

fun op_res :: "fs_op \<Rightarrow> resource multiset" where
  "op_res (Op_lstat k _) = {#Token k#}"
| "op_res (Op_readdir _ k) = {#Token k#}"
| "op_res (Op_stat _ _ _) = {#Done#}"
| "op_res (Op_realpath _ _) = {#}"

definition cbs_res :: "flight_cb list \<Rightarrow> resource multiset" where
  "cbs_res cbs = (\<Sum>cb \<leftarrow> cbs. cb_res cb)"

text \<open>Of the callbacks of a key that is being answered, \<open>called\<close> have been called.\<close>

definition reqs_res :: "(flight_key \<Rightarrow> nat) \<Rightarrow> (flight_key \<times> flight_cb list) list \<Rightarrow> resource multiset" where
  "reqs_res called reqs = (\<Sum>p \<leftarrow> reqs. cbs_res (drop (called (fst p)) (snd p)))"

definition live :: "(flight_key \<Rightarrow> nat) \<Rightarrow> aglob \<Rightarrow> resource multiset" where
  "live called st = reqs_res called (a_reqs st) + (\<Sum>op \<leftarrow> a_ops st. op_res op) +
     mset (map (\<lambda>t. Token (fst t)) (a_ticks st)) + replicate_mset (length (a_processQueue st)) Done"

text \<open>Requests of a globstar are made by patterns only, and requests are answered by smaller ones.\<close>

fun cb_kind :: "flight_cb \<Rightarrow> bool" where
  "cb_kind (Answer_request k) = (\<exists>p. k = Readdir_key p True)"
| "cb_kind (Globstar_lstat k) = (\<exists>p. k = Readdir_key p True)"
| "cb_kind _ = True"

definition slot_ok :: "flight_key \<Rightarrow> flight_cb \<Rightarrow> bool" where
  "slot_ok k cb \<longleftrightarrow> cb_kind cb \<and> ((\<exists>p. k = Readdir_key p True) \<longrightarrow> cb_res cb = {#Done#})"

text \<open>
  The invariant, where the code that runs holds \<open>E\<close>, the code that waits for it \<open>H\<close>; \<open>F\<close> are the
  callbacks that a key had when its answer began, \<open>Q\<close> says whether the queue is regular, and \<open>W\<close>
  whether a pattern has been begun.
\<close>

definition accounted :: "int \<Rightarrow> flight_key set \<Rightarrow> resource multiset \<Rightarrow> bool" where
  "accounted n K M \<longleftrightarrow> n = int (count M Done) \<and> (\<forall>k. count M (Token k) = (if k \<in> K then 1 else 0))"

text \<open>The end has been announced, or the real paths are being resolved.\<close>

definition concluded :: "aglob \<Rightarrow> bool" where
  "concluded st \<longleftrightarrow> a_didRealpath st \<or> (\<exists>found. End found \<in> set (a_events st))"

definition flow ::
  "bool \<Rightarrow> bool \<Rightarrow> resource multiset \<Rightarrow> resource multiset \<Rightarrow> (flight_key \<Rightarrow> nat) \<Rightarrow> (flight_key \<Rightarrow> flight_cb list) \<Rightarrow> aglob \<Rightarrow> bool"
where
  "flow W Q H E called F st \<longleftrightarrow>
     distinct (map fst (a_reqs st)) \<and>
     accounted (a_processing st) (fst ` set (a_reqs st)) (live called st + H + E) \<and>
     (\<forall>k. Token k \<notin># H \<longrightarrow> called k = 0) \<and>
     (\<forall>k. Token k \<in># H \<longrightarrow> called k \<le> length (reqs_of st k) \<and> prefix (F k) (reqs_of st k)) \<and>
     (\<forall>p \<in> set (a_reqs st). \<forall>cb \<in> set (snd p). slot_ok (fst p) cb) \<and>
     (Q \<longrightarrow> a_paused st \<or> a_processQueue st = []) \<and>
     (W \<longrightarrow> concluded st \<or> 0 < a_processing st)"

definition regular ::
  "bool \<Rightarrow> bool \<Rightarrow> resource multiset \<Rightarrow> resource multiset \<Rightarrow> (flight_key \<Rightarrow> nat) \<Rightarrow> (flight_key \<Rightarrow> flight_cb list) \<Rightarrow> aglob \<Rightarrow> bool"
where
  "regular W Q H E called F st \<longleftrightarrow> a_aborted st \<or> flow W Q H E called F st"

definition consumes :: "resource multiset \<Rightarrow> walking \<Rightarrow> bool" where
  "consumes I m \<longleftrightarrow> (\<forall>W Q H E called F. ensures (regular W Q H (I + E) called F) m (\<lambda>_. regular W Q H E called F))"

section \<open>Rules\<close>

lemma consumesI: "(\<And>W Q H E called F. ensures (regular W Q H (I + E) called F) m (\<lambda>_. regular W Q H E called F)) \<Longrightarrow> consumes I m"
  by (simp add: consumes_def)

lemma consumesD: "consumes I m \<Longrightarrow> ensures (regular W Q H (I + E) called F) m (\<lambda>_. regular W Q H E called F)"
  by (simp add: consumes_def)

lemma consumes_seq: "consumes I m \<Longrightarrow> consumes J m' \<Longrightarrow> consumes (I + J) (and_then_do m m')"
  unfolding and_then_do_def
  by (rule consumesI, rule ensures_bind, unfold add.assoc, erule consumesD) (erule consumesD)

lemma consumes_after: "consumes {#} m \<Longrightarrow> consumes J m' \<Longrightarrow> consumes J (and_then_do m m')"
  using consumes_seq [of "{#}" m J m'] by simp

lemma consumes_before: "consumes I m \<Longrightarrow> consumes {#} m' \<Longrightarrow> consumes I (and_then_do m m')"
  using consumes_seq [of I m "{#}" m'] by simp

lemma consumes_skip [simp]: "consumes {#} skip"
  unfolding skip_def by (rule consumesI) (auto intro: ensures_ret)

lemma consumes_throw [simp]: "consumes I (throw e)"
  by (rule consumesI) (rule ensures_throw)

lemma consumes_reading: "(\<And>st. consumes I (f st)) \<Longrightarrow> consumes I (reading f)"
  unfolding consumes_def ensures_def reading_def by blast

lemma consumes_if: "(b \<Longrightarrow> consumes I m) \<Longrightarrow> (\<not> b \<Longrightarrow> consumes I m') \<Longrightarrow> consumes I (if b then m else m')"
  by simp

lemma consumes_unless_aborted:
  assumes "\<And>st. consumes I (f st)"
  shows "consumes I (reading (\<lambda>st. if a_aborted st then skip else f st))"
  using assms unfolding consumes_def ensures_def reading_def
  by (auto simp: skip_def ret_def regular_def split: if_splits)

lemma consumes_for_each: "(\<And>x. x \<in> set xs \<Longrightarrow> consumes {#} (f x)) \<Longrightarrow> consumes {#} (for_each f xs)"
proof (induction xs)
  case (Cons x xs)
  then show ?case using consumes_after [of "f x" "{#}" "for_each f xs"] by (simp add: and_then_do_def)
qed (use consumes_skip in \<open>simp add: skip_def\<close>)

text \<open>Changes of fields that do not matter.\<close>

lemma regular_cong:
  assumes "a_reqs st' = a_reqs st" "a_ops st' = a_ops st" "a_ticks st' = a_ticks st"
    "a_processQueue st' = a_processQueue st" "a_processing st' = a_processing st"
    "a_paused st' = a_paused st" "a_aborted st' = a_aborted st"
    "a_events st' = a_events st" "a_didRealpath st' = a_didRealpath st"
  shows "regular W Q H E called F st' = regular W Q H E called F st"
  using assms by (simp add: regular_def flow_def live_def reqs_of_def concluded_def)

lemma consumes_change:
  assumes "\<And>st. a_reqs (f st) = a_reqs st \<and> a_ops (f st) = a_ops st \<and> a_ticks (f st) = a_ticks st \<and>
    a_processQueue (f st) = a_processQueue st \<and> a_processing (f st) = a_processing st \<and>
    a_paused (f st) = a_paused st \<and> a_aborted (f st) = a_aborted st \<and>
    a_events (f st) = a_events st \<and> a_didRealpath (f st) = a_didRealpath st"
  shows "consumes {#} (change f)"
  by (rule consumesI, rule ensures_change) (use assms in \<open>simp add: regular_cong [where st' = "f _"]\<close>)

lemma ensures_on_walker: "ensures (regular W Q H E called F) (on_walker m) (\<lambda>_. regular W Q H E called F)"
  unfolding ensures_def on_walker_def
  by (auto split: option.splits sum.splits simp: regular_cong [where st' = "aglob.walker_update _ _"])

lemma consumes_on_walker [simp]: "consumes {#} (on_walker m)"
  by (rule consumesI) (simp add: ensures_on_walker)

lemma consumes_emit [simp]: "consumes {#} (emit_event ev)"
  unfolding emit_event_def
  by (rule consumesI, rule ensures_change) (auto simp: regular_def flow_def live_def reqs_of_def concluded_def)

lemma consumes_emit_error [simp]: "consumes {#} (emit_error er)"
  unfolding emit_error_def by (intro consumes_reading consumes_if consumes_emit consumes_throw)

lemma accounted_done: "accounted n K (add_mset Done M) \<Longrightarrow> accounted (n - 1) K M"
  by (simp add: accounted_def)

lemma accounted_more: "accounted n K M \<Longrightarrow> accounted (n + 1) K (add_mset Done M)"
  by (simp add: accounted_def)

lemma accounted_drop: "accounted n K (add_mset (Token k) M) \<Longrightarrow> accounted n (K - {k}) M"
  unfolding accounted_def by (fastforce split: if_splits)

lemma accounted_key:
  "accounted n K M \<Longrightarrow> k \<in> K \<longleftrightarrow> \<not> new \<Longrightarrow>
   accounted n (insert k K) ((if new then {#Token k#} else {#}) + M)"
  by (cases new) (simp_all add: accounted_def insert_absorb)

lemma live_op: "live called (st\<lparr>a_ops := a_ops st @ [op]\<rparr>) = live called st + op_res op"
  by (simp add: live_def)

lemma live_processing: "live called (st\<lparr>a_processing := i\<rparr>) = live called st"
  by (simp add: live_def)

lemma consumes_start_op: "consumes (op_res op) (start_op op)"
  unfolding start_op_def
  by (rule consumesI, rule ensures_change) (simp add: regular_def flow_def live_op reqs_of_def concluded_def ac_simps)

text \<open>Calls after which a pattern has been begun, or the walk is concluded.\<close>

definition settles :: "walking \<Rightarrow> bool" where
  "settles m \<longleftrightarrow> (\<forall>W Q H E called F. ensures (regular W Q H E called F) m (\<lambda>_. regular True Q H E called F))"

lemma regular_weaken: "regular True Q H E called F st \<Longrightarrow> regular W Q H E called F st"
  by (auto simp: regular_def flow_def)

lemma settlesD: "settles m \<Longrightarrow> ensures (regular W Q H E called F) m (\<lambda>_. regular V Q H E called F)"
  by (rule ensures_post [where Q = "\<lambda>_. regular True Q H E called F"])
    (simp_all add: settles_def regular_weaken)

lemma settles_consumes: "settles m \<Longrightarrow> consumes {#} m"
  unfolding consumes_def add_0 by (simp add: settlesD)

lemma settles_after: "consumes {#} m \<Longrightarrow> settles m' \<Longrightarrow> settles (and_then_do m m')"
  unfolding settles_def consumes_def and_then_do_def add_0 by (blast intro: ensures_bind)

lemma settles_before: "settles m \<Longrightarrow> consumes {#} m' \<Longrightarrow> settles (and_then_do m m')"
  unfolding settles_def consumes_def and_then_do_def add_0 by (blast intro: ensures_bind)

lemma settles_reading: "(\<And>st. settles (f st)) \<Longrightarrow> settles (reading f)"
  unfolding settles_def ensures_def reading_def by blast

lemma settles_if: "(b \<Longrightarrow> settles m) \<Longrightarrow> (\<not> b \<Longrightarrow> settles m') \<Longrightarrow> settles (if b then m else m')"
  by simp

lemma settles_skip:
  assumes "\<And>st. settles (f st) \<or> (f st = skip \<and> (a_aborted st \<or> concluded st \<or> 0 < a_processing st))"
  shows "settles (reading f)"
  unfolding settles_def
proof (intro allI ensures_reading)
  fix W Q H E called F st
  assume pre: "regular W Q H E called F st"
  show "ensures (\<lambda>s. s = st) (f st) (\<lambda>_. regular True Q H E called F)"
  proof (cases "settles (f st)")
    case True
    then show ?thesis by (rule ensures_pre [OF settlesD]) (erule ssubst, rule pre)
  next
    case False
    with assms [of st] pre have "f st = skip" "regular True Q H E called F st"
      by (auto simp: regular_def flow_def)
    then show ?thesis by (auto simp: ensures_def skip_def ret_def)
  qed
qed

lemma settles_unless_aborted: "(\<And>st. settles (f st)) \<Longrightarrow> settles (reading (\<lambda>st. if a_aborted st then skip else f st))"
  by (rule settles_skip) simp

lemma settles_end: "settles (emit_event (End found))"
  unfolding settles_def emit_event_def
  by (intro allI ensures_change) (auto simp: regular_def flow_def live_def reqs_of_def concluded_def)

text \<open>The counter falls, and the call that follows settles the walk.\<close>

lemma ensures_done_count:
  "ensures (regular W Q H ({#Done#} + E) called F) (change (\<lambda>st. st\<lparr>a_processing := a_processing st - 1\<rparr>))
    (\<lambda>_. regular False Q H E called F)"
  by (rule ensures_change) (auto simp: regular_def flow_def live_processing reqs_of_def intro: accounted_done)

lemma consumes_done_count:
  "settles m \<Longrightarrow> consumes {#Done#} (and_then_do (change (\<lambda>st. st\<lparr>a_processing := a_processing st - 1\<rparr>)) m)"
  unfolding and_then_do_def
  by (intro consumesI ensures_bind [OF ensures_done_count] settlesD)

lemma consumes_abort: "consumes I abort_async"
  unfolding abort_async_def and_then_do_def emit_event_def
  by (rule consumesI, rule ensures_bind, rule ensures_change [where Q = "\<lambda>_. a_aborted"], simp)
    (rule ensures_change, simp add: regular_def)

section \<open>Requests\<close>

lemma reqs_of_eq: "map_of (a_reqs st) k = Some cbs \<Longrightarrow> reqs_of st k = cbs" "map_of (a_reqs st) k = None \<Longrightarrow> reqs_of st k = []"
  by (simp_all add: reqs_of_def)

lemma fst_put_req: "map fst (put_req k cbs ps) = (if k \<in> fst ` set ps then map fst ps else map fst ps @ [k])"
  by (induction ps) auto

lemma map_of_put_req: "map_of (put_req k cbs ps) = (map_of ps)(k \<mapsto> cbs)"
  by (induction ps) auto

lemma set_put_req: "set (put_req k cbs ps) \<subseteq> insert (k, cbs) (set ps)"
  by (induction ps) auto

lemma set_fst_put_req: "fst ` set (put_req k cbs ps) = insert k (fst ` set ps)"
  by (induction ps) auto

lemma filter_other_keys: "k \<notin> fst ` set ps \<Longrightarrow> filter (\<lambda>p. fst p \<noteq> k) ps = ps"
  by (force simp: filter_id_conv)

lemma map_of_filter_keys: "k \<noteq> k' \<Longrightarrow> map_of (filter (\<lambda>p. fst p \<noteq> k') ps) k = map_of ps k"
  by (induction ps) auto

lemma reqs_res_put:
  assumes "distinct (map fst ps)"
  shows "reqs_res called (put_req k cbs ps) = cbs_res (drop (called k) cbs) + reqs_res called (filter (\<lambda>p. fst p \<noteq> k) ps)"
  using assms
proof (induction ps)
  case (Cons p ps)
  show ?case
  proof (cases "fst p = k")
    case True
    with Cons.prems have "filter (\<lambda>p. fst p \<noteq> k) ps = ps" by (simp add: filter_other_keys)
    with True show ?thesis by (simp add: reqs_res_def)
  next
    case False
    with Cons show ?thesis by (simp add: reqs_res_def ac_simps)
  qed
qed (simp add: reqs_res_def)

lemma reqs_res_split:
  assumes "distinct (map fst ps)"
  shows "reqs_res called ps = (case map_of ps k of None \<Rightarrow> {#} | Some cbs \<Rightarrow> cbs_res (drop (called k) cbs)) +
    reqs_res called (filter (\<lambda>p. fst p \<noteq> k) ps)"
  using assms
proof (induction ps)
  case (Cons p ps)
  show ?case
  proof (cases "fst p = k")
    case True
    with Cons.prems have "filter (\<lambda>p. fst p \<noteq> k) ps = ps" by (simp add: filter_other_keys)
    with True show ?thesis by (simp add: reqs_res_def)
  next
    case False
    with Cons show ?thesis by (simp add: reqs_res_def ac_simps)
  qed
qed (simp add: reqs_res_def)

lemma reqs_res_cong: "(\<And>p. p \<in> set ps \<Longrightarrow> called (fst p) = called' (fst p)) \<Longrightarrow> reqs_res called ps = reqs_res called' ps"
  unfolding reqs_res_def by (rule arg_cong [of _ _ sum_list]) (simp cong: map_cong)

lemma cbs_res_append [simp]: "cbs_res (xs @ ys) = cbs_res xs + cbs_res ys" "cbs_res [] = {#}" "cbs_res (x # xs) = cb_res x + cbs_res xs"
  by (simp_all add: cbs_res_def)

lemma join_flight_rule:
  assumes "slot_ok key cb"
  shows "ensures (regular W Q H (cb_res cb + E) called F) (join_flight key cb)
    (\<lambda>new. regular W Q H ((if new then {#Token key#} else {#}) + E) called F)"
  unfolding ensures_def
proof (intro allI impI)
  fix st new st'
  assume pre: "regular W Q H (cb_res cb + E) called F st" and run: "join_flight key cb st = Some (Inr (new, st'))"
  have st': "st' = st\<lparr>a_reqs := put_req key (reqs_of st key @ [cb]) (a_reqs st)\<rparr>"
    and new: "new \<longleftrightarrow> map_of (a_reqs st) key = None"
    using run by (auto simp: join_flight_def reading_def bind_call_def change_def ret_def)
  show "regular W Q H ((if new then {#Token key#} else {#}) + E) called F st'"
  proof (cases "a_aborted st")
    case True
    then show ?thesis by (simp add: regular_def st')
  next
    case False
    with pre have fl: "flow W Q H (cb_res cb + E) called F st" by (simp add: regular_def)
    then have dist: "distinct (map fst (a_reqs st))" by (simp add: flow_def)
    have key_in: "key \<in> fst ` set (a_reqs st) \<longleftrightarrow> \<not> new" using new by (auto simp: map_of_eq_None_iff)
    have seen: "called key \<le> length (reqs_of st key)"
      using fl by (cases "Token key \<in># H") (auto simp: flow_def)
    have live': "live called st' = live called st + cb_res cb"
      using seen reqs_res_put [OF dist, of called key "reqs_of st key @ [cb]"] reqs_res_split [OF dist, of called key]
      by (cases "map_of (a_reqs st) key") (simp_all add: live_def st' reqs_of_def ac_simps)
    have reqs': "reqs_of st' k = (if k = key then reqs_of st key @ [cb] else reqs_of st k)" for k
      by (simp add: reqs_of_def st' map_of_put_req)
    have slots: "\<forall>cb' \<in> set (reqs_of st key). slot_ok key cb'"
      using fl by (cases "map_of (a_reqs st) key") (auto simp: flow_def reqs_of_def dest!: map_of_SomeD)
    have acc: "accounted (a_processing st) (fst ` set (a_reqs st)) (live called st + H + (cb_res cb + E))"
      using fl by (simp add: flow_def)
    have keys': "fst ` set (a_reqs st') = insert key (fst ` set (a_reqs st))" "a_processing st' = a_processing st"
      by (simp_all add: st' set_fst_put_req)
    have "W \<longrightarrow> concluded st' \<or> 0 < a_processing st'"
      using fl by (simp add: flow_def st' concluded_def)
    moreover
    have "accounted (a_processing st') (fst ` set (a_reqs st')) (live called st' + H + ((if new then {#Token key#} else {#}) + E))"
      unfolding keys' live' using accounted_key [OF acc key_in] by (simp add: ac_simps)
    moreover have "distinct (map fst (a_reqs st'))" using dist by (simp add: st' fst_put_req)
    moreover have "\<forall>p \<in> set (a_reqs st'). \<forall>cb \<in> set (snd p). slot_ok (fst p) cb"
      using fl slots assms set_put_req [of key "reqs_of st key @ [cb]" "a_reqs st"] by (fastforce simp: flow_def st')
    moreover have "\<forall>k. Token k \<in># H \<longrightarrow> called k \<le> length (reqs_of st' k) \<and> prefix (F k) (reqs_of st' k)"
      using fl by (auto simp: flow_def reqs' prefix_def)
    moreover have "(\<forall>k. Token k \<notin># H \<longrightarrow> called k = 0)" "Q \<longrightarrow> a_paused st' \<or> a_processQueue st' = []"
      using fl by (simp_all add: flow_def st')
    ultimately have "flow W Q H ((if new then {#Token key#} else {#}) + E) called F st'" unfolding flow_def by blast
    then show ?thesis by (simp add: regular_def)
  qed
qed

lemma consumes_join:
  assumes "slot_ok key cb" "consumes {#Token key#} (f True)" "consumes {#} (f False)"
  shows "consumes (cb_res cb) (bind_call (join_flight key cb) f)"
proof (rule consumesI)
  fix W Q H E called F
  show "ensures (regular W Q H (cb_res cb + E) called F) (bind_call (join_flight key cb) f) (\<lambda>_. regular W Q H E called F)"
  proof (rule ensures_bind [OF join_flight_rule [OF assms(1)]])
    fix new
    show "ensures (regular W Q H ((if new then {#Token key#} else {#}) + E) called F) (f new) (\<lambda>_. regular W Q H E called F)"
      using consumesD [OF assms(2)] consumesD [OF assms(3)] by (cases new) simp_all
  qed
qed

section \<open>The end of a walk\<close>

lemma consumes_walker_change: "consumes {#} (change (\<lambda>st. st\<lparr>walker := f st\<rparr>))"
  by (rule consumes_change) simp

lemma settles_finish_found: "settles (finish_found eng h)"
  unfolding finish_found_def
  by (intro settles_unless_aborted settles_after consumes_on_walker settles_reading settles_end)

lemmas consumes_finish_found = settles_consumes [OF settles_finish_found]

lemma consumes_next_set: "consumes {#} (next_set eng h)"
  unfolding next_set_def
  by (intro consumes_after consumes_change consumes_reading consumes_if consumes_finish_found consumes_skip) simp

lemma consumes_realpathSet: "consumes {#} (realpathSet eng h index)"
  unfolding realpathSet_def Let_def
  by (rule consumes_reading)
    (auto split: option.split intro!: consumes_next_set consumes_after consumes_change consumes_for_each consumes_reading
      simp: consumes_start_op [of "Op_realpath _ _", simplified])

lemma settles_did: "settles (change (\<lambda>st. st\<lparr>a_didRealpath := True, a_sets_left := n\<rparr>))"
  unfolding settles_def
  by (intro allI ensures_change) (auto simp: regular_def flow_def live_def reqs_of_def concluded_def)

lemma settles_realpath: "settles (realpath_async eng h)"
proof -
  have "settles (and_then_do (change (\<lambda>st. st\<lparr>a_didRealpath := True, a_sets_left := int n\<rparr>))
      (if n = 0 then finish_found eng h else for_each (realpathSet eng h) [0..<n]))" for n
    by (intro settles_before settles_did consumes_if consumes_for_each consumes_finish_found consumes_realpathSet)
  then show ?thesis
    unfolding realpath_async_def Let_def
    by (intro settles_skip) (simp only: concluded_def if_True if_False simp_thms split: if_split, blast)
qed

lemma settles_finish: "settles (finish_async eng h)"
  unfolding finish_async_def
  by (intro settles_unless_aborted settles_if settles_realpath settles_finish_found)

lemma consumes_realpath_done: "consumes {#} (realpath_done eng h index p)"
  unfolding realpath_done_def add_real_def
  by (intro consumes_after consumes_reading consumes_if consumes_next_set consumes_skip consumes_change)
    (auto split: sum.split)

lemma consumes_done: "consumes {#Done#} (done_async eng h)"
  unfolding done_async_def
proof (rule consumes_done_count)
  show "settles (reading (\<lambda>st. if a_processing st \<le> 0 then finish_async eng h else skip))"
    by (rule settles_skip) (simp add: settles_finish)
qed

section \<open>Matches and stats\<close>

text \<open>Calls with a result that use nothing up.\<close>

definition keeps_flow :: "(aglob, 'a) call \<Rightarrow> bool" where
  "keeps_flow m \<longleftrightarrow> (\<forall>W Q H E called F. ensures (regular W Q H E called F) m (\<lambda>_. regular W Q H E called F))"

lemma keeps_consumes: "consumes {#} m \<Longrightarrow> keeps_flow m"
  by (simp add: consumes_def keeps_flow_def)

lemma keeps_ret: "keeps_flow (ret x)"
  by (simp add: keeps_flow_def ensures_ret)

lemma keeps_if: "(b \<Longrightarrow> keeps_flow m) \<Longrightarrow> (\<not> b \<Longrightarrow> keeps_flow m') \<Longrightarrow> keeps_flow (if b then m else m')"
  by simp

lemma keeps_bind: "keeps_flow m \<Longrightarrow> (\<And>x. keeps_flow (f x)) \<Longrightarrow> keeps_flow (bind_call m f)"
  unfolding keeps_flow_def by (blast intro: ensures_bind)

lemma keeps_reading: "(\<And>st. keeps_flow (f st)) \<Longrightarrow> keeps_flow (reading f)"
  unfolding keeps_flow_def ensures_def reading_def by blast

lemma keeps_on_walker: "keeps_flow (on_walker m)"
  by (simp add: keeps_flow_def ensures_on_walker)

lemma consumes_bind: "keeps_flow m \<Longrightarrow> (\<And>x. consumes I (f x)) \<Longrightarrow> consumes I (bind_call m f)"
  unfolding keeps_flow_def consumes_def by (blast intro: ensures_bind)

lemma keeps_mark: "keeps_flow (mark_async e)"
  unfolding mark_async_def
  by (intro keeps_reading keeps_bind keeps_on_walker keeps_ret keeps_consumes consumes_if consumes_skip consumes_change) simp

lemma consumes_emitMatch: "consumes {#} (emitMatch_async eng index e)"
  unfolding emitMatch_async_def Let_def
  by (rule consumes_unless_aborted)
    (auto split: option.split
      intro!: consumes_bind keeps_if keeps_mark keeps_ret consumes_after consumes_reading consumes_change)

lemma consumes_processSimple2: "consumes {#Done#} (processSimple2 eng h pfx index exists)"
  unfolding processSimple2_def
  by (intro consumes_after consumes_on_walker consumes_if consumes_done consumes_reading consumes_emitMatch)

lemma consumes_stat2: "consumes {#Done#} (stat2 eng h f index result)"
  unfolding stat2_def Let_def
  by (rule consumes_reading)
    (auto split: option.split intro!: consumes_after consumes_change consumes_processSimple2)

lemma consumes_start:
  "consumes {#Token k#} (start_op (Op_lstat k p))" "consumes {#Token k#} (start_op (Op_readdir p k))"
  "consumes {#Done#} (start_op (Op_stat f lstat index))"
  using consumes_start_op [of "Op_lstat k p"] consumes_start_op [of "Op_readdir p k"]
    consumes_start_op [of "Op_stat f lstat index"] by simp_all

lemma consumes_simple_lstat: "consumes {#Done#} (simple_lstat eng h f index result)"
  unfolding simple_lstat_def by (auto split: sum.split intro: consumes_start consumes_stat2)

lemma consumes_stat: "consumes {#Done#} (stat_async eng h f index)"
proof -
  have "consumes {#Done#} (bind_call (join_flight (Stat_key p) (Simple_lstat f index))
    (\<lambda>new. if new then start_op (Op_lstat (Stat_key p) p) else skip))" for p
    using consumes_join [of "Stat_key p" "Simple_lstat f index"] by (simp add: slot_ok_def consumes_start)
  then show ?thesis
    unfolding stat_async_def Let_def
    by (intro consumes_reading consumes_if consumes_processSimple2) (auto split: option.split intro: consumes_processSimple2)
qed

text \<open>An aborted walk stays so.\<close>

definition stays :: "walking \<Rightarrow> bool" where
  "stays m \<longleftrightarrow> ensures a_aborted m (\<lambda>_. a_aborted)"

lemma consumes_stays:
  assumes "consumes I m"
  shows "stays m"
  unfolding stays_def
proof (rule ensures_post [OF ensures_pre [OF consumesD [OF assms]]])
  let ?E = "{#Token (Lstat_key []), Token (Lstat_key [])#}"
  show "a_aborted st \<Longrightarrow> regular False False {#} (I + ?E) (\<lambda>k. 0) (\<lambda>k. []) st" for st
    by (simp add: regular_def)
  show "regular False False {#} ?E (\<lambda>k. 0) (\<lambda>k. []) st \<Longrightarrow> a_aborted st" for st
    by (auto simp: regular_def flow_def accounted_def split: if_splits dest!: spec [where x = "Lstat_key []"])
qed

lemma stays_seq: "stays m \<Longrightarrow> stays m' \<Longrightarrow> stays (and_then_do m m')"
  unfolding stays_def and_then_do_def by (blast intro: ensures_bind)

lemma accounted_nonneg: "accounted n K M \<Longrightarrow> 0 \<le> n"
  by (simp add: accounted_def)

lemma settles_count_up:
  assumes "consumes {#Done#} m"
  shows "settles (and_then_do (change (\<lambda>st. st\<lparr>a_processing := a_processing st + 1\<rparr>)) m)"
  unfolding settles_def
proof (intro allI)
  fix W Q H E called F
  have "ensures (regular W Q H E called F) (change (\<lambda>st. st\<lparr>a_processing := a_processing st + 1\<rparr>))
    (\<lambda>_. regular True Q H ({#Done#} + E) called F)"
    by (rule ensures_change)
      (auto simp: regular_def flow_def live_processing reqs_of_def intro: accounted_more dest: accounted_nonneg)
  then show "ensures (regular W Q H E called F)
    (and_then_do (change (\<lambda>st. st\<lparr>a_processing := a_processing st + 1\<rparr>)) m) (\<lambda>_. regular True Q H E called F)"
    unfolding and_then_do_def using consumesD [OF assms] by (rule ensures_bind)
qed

section \<open>Answers\<close>

lemma ensures_for_each_upto:
  assumes "\<And>i. i < n \<Longrightarrow> ensures (I i) (f i) (\<lambda>_. I (Suc i))"
  shows "ensures (I 0) (for_each f [0..<n]) (\<lambda>_. I n)"
proof -
  have "ensures (I m) (for_each f [m..<n]) (\<lambda>_. I n)" if "m \<le> n" for m
    using that
  proof (induction "n - m" arbitrary: m)
    case 0
    then show ?case by (simp add: ensures_ret)
  next
    case (Suc d)
    then have "m < n" "ensures (I (Suc m)) (for_each f [Suc m..<n]) (\<lambda>_. I n)" by simp_all
    with assms show ?case by (auto simp: upt_conv_Cons intro: ensures_bind)
  qed
  then show ?thesis by simp
qed

lemma flow_slots:
  assumes "flow W Q H E called F st" "cb \<in> set (reqs_of st key)"
  shows "slot_ok key cb"
  using assms by (cases "map_of (a_reqs st) key") (auto simp: flow_def reqs_of_def dest!: map_of_SomeD)

lemma live_call:
  assumes "distinct (map fst (a_reqs st))" "i < length (reqs_of st key)" "called key = i"
  shows "live called st = cb_res (reqs_of st key ! i) + live (called(key := Suc i)) st"
proof -
  obtain cbs where cbs: "map_of (a_reqs st) key = Some cbs" "reqs_of st key = cbs"
    using assms(2) by (cases "map_of (a_reqs st) key") (auto simp: reqs_of_def)
  have "reqs_res called (filter (\<lambda>p. fst p \<noteq> key) (a_reqs st)) =
      reqs_res (called(key := Suc i)) (filter (\<lambda>p. fst p \<noteq> key) (a_reqs st))"
    by (rule reqs_res_cong) simp
  moreover have "drop i cbs = cbs ! i # drop (Suc i) cbs"
    using assms(2) cbs by (simp add: Cons_nth_drop_Suc)
  ultimately have "reqs_res called (a_reqs st) = cb_res (cbs ! i) + reqs_res (called(key := Suc i)) (a_reqs st)"
    using reqs_res_split [OF assms(1), of called key] reqs_res_split [OF assms(1), of "called(key := Suc i)" key]
      cbs assms(3) by (simp add: ac_simps)
  then show ?thesis by (simp add: live_def cbs ac_simps)
qed

text \<open>A request is taken up, its callbacks are called one by one, and what has come since is left for a tick.\<close>

lemma flow_take:
  assumes "flow W Q H ({#Token key#} + E) called F st" "map_of (a_reqs st) key = Some cbs"
  shows "flow W Q (add_mset (Token key) H) E (called(key := 0)) (F(key := cbs)) st" "Token key \<notin># H" "called key = 0"
proof -
  have "accounted (a_processing st) (fst ` set (a_reqs st)) (live called st + H + ({#Token key#} + E))"
    using assms(1) by (simp add: flow_def)
  then have "count (live called st + H + ({#Token key#} + E)) (Token key) \<le> 1"
    by (simp only: accounted_def) simp
  then show H: "Token key \<notin># H" by (simp add: not_in_iff)
  then show called: "called key = 0" using assms(1) by (simp add: flow_def)
  then have "called(key := 0) = called" by auto
  with H called show "flow W Q (add_mset (Token key) H) E (called(key := 0)) (F(key := cbs)) st"
    using assms by (simp add: flow_def reqs_of_def ac_simps)
qed

lemma flow_call:
  assumes "flow W Q (add_mset (Token key) H) E called F st" "called key = i" "i < length (F key)"
  defines "cb \<equiv> reqs_of st key ! i"
  shows "cb_kind cb" "flow W Q (add_mset (Token key) H) (cb_res cb + E) (called(key := Suc i)) F st"
proof -
  have pfx: "prefix (F key) (reqs_of st key)" and dist: "distinct (map fst (a_reqs st))"
    using assms(1) by (simp_all add: flow_def)
  then have i: "i < length (reqs_of st key)" using assms(3) by (auto simp: prefix_def)
  then have "slot_ok key cb" unfolding cb_def by (intro flow_slots [OF assms(1)]) simp
  then show "cb_kind cb" by (simp add: slot_ok_def)
  show "flow W Q (add_mset (Token key) H) (cb_res cb + E) (called(key := Suc i)) F st"
    using assms(1) i live_call [where called = called and key = key, OF dist i assms(2)] unfolding cb_def [symmetric]
    by (simp add: flow_def ac_simps)
qed

lemma flow_settle:
  assumes "flow W Q (add_mset (Token key) H) E (called(key := length (F' key))) F' st"
    and "Token key \<notin># H" "called key = 0" "\<And>k. k \<noteq> key \<Longrightarrow> F' k = F k"
    and "settle_flight key ans (length (F' key)) st = Some (Inr (u, st'))"
  shows "flow W Q H E called F st'"
proof -
  define n called' cbs where "n = length (F' key)" and "called' = called(key := n)" and "cbs = reqs_of st key"
  note fl = assms(1) [folded n_def, folded called'_def]
  have dist: "distinct (map fst (a_reqs st))" and n: "n \<le> length cbs"
    using fl by (auto simp: flow_def n_def cbs_def prefix_def)
  have acc: "accounted (a_processing st) (fst ` set (a_reqs st)) (live called' st + add_mset (Token key) H + E)"
    using fl by (simp add: flow_def)
  then have key: "key \<in> fst ` set (a_reqs st)" by (auto simp: accounted_def split: if_splits)
  then have found: "map_of (a_reqs st) key = Some cbs"
    by (cases "map_of (a_reqs st) key") (auto simp: cbs_def reqs_of_def map_of_eq_None_iff)
  have rest: "reqs_res called' (filter (\<lambda>p. fst p \<noteq> key) (a_reqs st)) = reqs_res called (filter (\<lambda>p. fst p \<noteq> key) (a_reqs st))"
    by (rule reqs_res_cong) (simp add: called'_def)
  have split: "reqs_res called' (a_reqs st) =
      cbs_res (drop n cbs) + reqs_res called (filter (\<lambda>p. fst p \<noteq> key) (a_reqs st))"
    using reqs_res_split [OF dist, of called' key] found rest by (simp add: called'_def)
  have st': "st' = (if length cbs > n
     then st\<lparr>a_reqs := put_req key (drop n cbs) (a_reqs st), a_ticks := a_ticks st @ [(key, ans)]\<rparr>
     else st\<lparr>a_reqs := filter (\<lambda>p. fst p \<noteq> key) (a_reqs st)\<rparr>)"
    using assms(5) by (auto simp add: settle_flight_def change_def n_def cbs_def)
  have others: "reqs_of st' k = reqs_of st k" if "k \<noteq> key" for k
    using that by (simp add: st' reqs_of_def map_of_put_req map_of_filter_keys)
  have slots: "\<forall>cb \<in> set cbs. slot_ok key cb" using flow_slots [OF fl] by (simp add: cbs_def)
  have "accounted (a_processing st') (fst ` set (a_reqs st')) (live called st' + H + E) \<and>
    distinct (map fst (a_reqs st')) \<and> (\<forall>p \<in> set (a_reqs st'). \<forall>cb \<in> set (snd p). slot_ok (fst p) cb)"
  proof (cases "length cbs > n")
    case True
    then have "live called st' = add_mset (Token key) (live called' st)"
      using reqs_res_put [OF dist, of called key "drop n cbs"] split assms(3) by (simp add: st' live_def)
    moreover have "fst ` set (a_reqs st') = fst ` set (a_reqs st)" "a_processing st' = a_processing st"
      using True key by (auto simp: st' set_fst_put_req)
    moreover have "\<forall>p \<in> set (a_reqs st'). \<forall>cb \<in> set (snd p). slot_ok (fst p) cb"
      using fl slots True set_put_req [of key "drop n cbs" "a_reqs st"] by (fastforce simp: flow_def st' dest: in_set_dropD)
    ultimately show ?thesis using acc dist True key by (simp add: st' fst_put_req)
  next
    case False
    then have "live called st' = live called' st" using split by (simp add: st' live_def)
    moreover have "fst ` set (a_reqs st') = fst ` set (a_reqs st) - {key}" "a_processing st' = a_processing st"
      using False by (auto simp: st')
    moreover have "\<forall>p \<in> set (a_reqs st'). \<forall>cb \<in> set (snd p). slot_ok (fst p) cb"
      using fl False by (simp add: flow_def st')
    moreover have "distinct (map fst (a_reqs st'))"
      using dist False by (simp add: st' distinct_map_filter)
    ultimately show ?thesis using acc by (auto intro: accounted_drop)
  qed
  moreover have "called k = 0" if "Token k \<notin># H" for k
    using fl that assms(3) by (cases "k = key") (auto simp: flow_def called'_def split: if_splits)
  moreover have "called k \<le> length (reqs_of st' k) \<and> prefix (F k) (reqs_of st' k)" if "Token k \<in># H" for k
  proof -
    have "k \<noteq> key" using that assms(2) by auto
    with that fl assms(4) show ?thesis by (auto simp: others flow_def called'_def)
  qed
  moreover have "Q \<longrightarrow> a_paused st' \<or> a_processQueue st' = []" using fl by (simp add: flow_def st')
  moreover have "W \<longrightarrow> concluded st' \<or> 0 < a_processing st'" using fl by (simp add: flow_def st' concluded_def)
  ultimately show ?thesis unfolding flow_def by blast
qed

section \<open>What leads back to a callback\<close>

text \<open>The contract of the recursion: a pattern begins by itself, an answer needs the right to answer.\<close>

locale flow_runner =
  fixes go :: runner
  assumes process_settles: "settles (go (Process pattern index inGlobStar))"
    and answer_flow: "consumes {#Token key#} (go (Answer key ans))"
begin

lemma process_flow: "consumes {#} (go (Process pattern index inGlobStar))"
  by (rule settles_consumes [OF process_settles])

lemma readdir_answer_flow: "consumes {#Token key#} (readdir_answer go key entries)"
  unfolding readdir_answer_def by (rule answer_flow)

lemma readdir_request_flow: "consumes {#Token key#} (readdir_request go absPath key)"
  unfolding readdir_request_def
  by (rule consumes_reading)
    (auto split: option.split cached.split intro: readdir_answer_flow consumes_start)

lemma readdir_plain_flow: "cb_kind cb \<Longrightarrow> consumes (cb_res cb) (readdir_plain_async go absPath cb)"
  unfolding readdir_plain_async_def
  by (rule consumes_unless_aborted, rule consumes_join) (simp_all add: slot_ok_def readdir_request_flow)

lemma readdirInGlobStar_flow:
  "consumes {#Token (Readdir_key p True)#} (readdirInGlobStar_async go absPath (Readdir_key p True))"
proof -
  have "consumes {#Token (Readdir_key p True)#} (readdir_plain_async go absPath (Answer_request (Readdir_key p True)))"
    using readdir_plain_flow [of "Answer_request (Readdir_key p True)"] by simp
  moreover have "consumes {#Token (Readdir_key p True)#}
     (bind_call (join_flight (Lstat_key absPath) (Globstar_lstat (Readdir_key p True)))
       (\<lambda>new. if new then start_op (Op_lstat (Lstat_key absPath) absPath) else skip))"
    using consumes_join [of "Lstat_key absPath" "Globstar_lstat (Readdir_key p True)"]
    by (simp add: slot_ok_def consumes_start)
  ultimately show ?thesis
    unfolding readdirInGlobStar_async_def by (intro consumes_unless_aborted consumes_if)
qed

lemma readdir_flow:
  assumes "cb_kind cb" "cb_res cb = {#Done#}"
  shows "consumes {#Done#} (readdir_async go absPath inGlobStar cb)"
proof -
  have "consumes {#Done#} (readdir_plain_async go absPath cb)"
    using readdir_plain_flow [OF assms(1)] assms(2) by simp
  moreover have "consumes {#Done#} (bind_call (join_flight (Readdir_key absPath True) cb)
     (\<lambda>new. if \<not> new then skip
         else if absPath \<notin> dom (g_symlinks (walker st))
         then readdirInGlobStar_async go absPath (Readdir_key absPath True)
         else readdir_request go absPath (Readdir_key absPath True)))" for st
    using consumes_join [of "Readdir_key absPath True" cb] assms
    by (simp add: slot_ok_def readdirInGlobStar_flow readdir_request_flow)
  ultimately show ?thesis
    unfolding readdir_async_def by (intro consumes_unless_aborted consumes_if)
qed

lemma globstar_lstat_flow:
  assumes "key = Readdir_key p True"
  shows "consumes {#Token key#} (globstar_lstat go key result)"
proof -
  have "consumes {#Token key#} (readdir_plain_async go q (Answer_request key))" for q
    using readdir_plain_flow [of "Answer_request key"] assms by simp
  then show ?thesis
    unfolding globstar_lstat_def Let_def assms
    by (auto split: sum.split simp: assms intro!: readdir_answer_flow consumes_after)
qed

lemma readdirEntries_flow: "consumes {#Token key#} (readdirEntries_async go absPath key entries)"
  unfolding readdirEntries_async_def
  by (intro consumes_unless_aborted consumes_bind keeps_on_walker readdir_answer_flow)

lemma readdirError_flow: "consumes {#Token key#} (readdirError_async go f key er)"
  unfolding readdirError_async_def Let_def
  by (intro consumes_unless_aborted consumes_after consumes_if consumes_on_walker consumes_emit_error
      consumes_abort consumes_skip readdir_answer_flow)

lemma processReaddir2_flow: "consumes {#Done#} (processReaddir2 eng h go pfx remain index inGlobStar entries)"
  unfolding processReaddir2_def Let_def
  by (auto split: option.split list.split part.split
      intro!: consumes_done consumes_reading consumes_after consumes_for_each consumes_emitMatch process_flow)

lemma processGlobStar2_flow:
  "consumes {#Done#} (processGlobStar2 eng h go pfx absPath remain index inGlobStar entries)"
  unfolding processGlobStar2_def Let_def
  by (auto split: option.split
      intro!: consumes_done consumes_reading consumes_after consumes_if consumes_for_each process_flow)

lemma run_cb_flow: "cb_kind cb \<Longrightarrow> consumes (cb_res cb) (run_cb eng h go cb ans)"
  by (cases cb) (auto simp: run_cb_def Let_def intro: processReaddir2_flow processGlobStar2_flow readdir_answer_flow
      globstar_lstat_flow consumes_simple_lstat)

lemma run_cb_stays: "stays (run_cb eng h go cb ans)"
proof (cases "cb_kind cb")
  case True
  then show ?thesis by (rule consumes_stays [OF run_cb_flow])
next
  case False
  then show ?thesis
  proof (cases cb)
    case (Globstar_lstat key)
    have "stays (readdir_plain_async go p cb')" for p cb'
      by (auto simp: stays_def ensures_def readdir_plain_async_def reading_def skip_def ret_def)
    then have "stays (globstar_lstat go key result)" for result
      unfolding globstar_lstat_def Let_def
      by (auto split: sum.split intro!: stays_seq consumes_stays [OF readdir_answer_flow] consumes_stays [OF consumes_on_walker])
    with Globstar_lstat show ?thesis by (simp add: run_cb_def)
  qed (simp_all add: run_cb_def consumes_stays [OF readdir_answer_flow])
qed

lemma process_async_settles: "settles (process_async eng h go pattern index inGlobStar)"
  unfolding settles_def
proof (intro allI)
  fix W Q H E called F
  show "ensures (regular W Q H E called F) (process_async eng h go pattern index inGlobStar) (\<lambda>_. regular True Q H E called F)"
    unfolding ensures_def
  proof (intro allI impI)
    fix st u st'
    assume pre: "regular W Q H E called F st"
      and run: "process_async eng h go pattern index inGlobStar st = Some (Inr (u, st'))"
    consider "a_aborted st" | "\<not> a_aborted st" "a_paused st" | "\<not> a_aborted st" "\<not> a_paused st" by blast
    then show "regular True Q H E called F st'"
    proof cases
      case 1
      with run show ?thesis by (simp add: process_async_def reading_def skip_def ret_def regular_def)
    next
      case 2
      then have st': "st' = st\<lparr>a_processing := a_processing st + 1,
          a_processQueue := a_processQueue st @ [(pattern, index, inGlobStar)]\<rparr>"
        using run by (simp add: process_async_def reading_def and_then_do_def bind_call_def change_def)
      have "live called st' = add_mset Done (live called st)" by (simp add: live_def st')
      with pre 2 show ?thesis
        by (simp add: regular_def flow_def) (simp add: st' reqs_of_def accounted_def)
    next
      case 3
      have "settles (and_then_do (change (\<lambda>st. st\<lparr>a_processing := a_processing st + 1\<rparr>))
         (case leading pattern of (strings, remain) \<Rightarrow>
            if remain = [] then stat_async eng h (join [slash] strings) index
            else
              let pfx = absolute_prefix (if strings = [] then None else Some (join [slash] strings));
                  read = (case pfx of None \<Rightarrow> [dot] | Some p \<Rightarrow> p);
                  absPath = makeAbs (walker st) read in
              if childrenIgnored eng (walker st) read then done_async eng h
              else readdir_async go absPath inGlobStar
                (if hd remain = Globstar then Enter_all pfx absPath remain index inGlobStar
                 else Enter_matched pfx remain index inGlobStar)))" (is "settles ?m")
        unfolding Let_def
        by (rule settles_count_up) (auto split: prod.split intro!: consumes_stat consumes_done readdir_flow)
      moreover have "?m st = Some (Inr (u, st'))"
        using run 3 by (simp add: process_async_def reading_def)
      ultimately show ?thesis
        using pre unfolding settles_def ensures_def by blast
    qed
  qed
qed

lemma answer_each_flow:
  assumes "i < length (F key)"
  shows "ensures (regular W Q (add_mset (Token key) H) E (called(key := i)) F)
    (reading (\<lambda>st. run_cb eng h go (reqs_of st key ! i) ans))
    (\<lambda>_. regular W Q (add_mset (Token key) H) E (called(key := Suc i)) F)"
proof (rule ensures_reading)
  fix st
  assume pre: "regular W Q (add_mset (Token key) H) E (called(key := i)) F st"
  let ?cb = "reqs_of st key ! i"
  show "ensures (\<lambda>s. s = st) (run_cb eng h go ?cb ans) (\<lambda>_. regular W Q (add_mset (Token key) H) E (called(key := Suc i)) F)"
  proof (cases "a_aborted st")
    case True
    have "ensures (\<lambda>s. s = st) (run_cb eng h go ?cb ans) (\<lambda>_. a_aborted)"
      by (rule ensures_pre [OF run_cb_stays [unfolded stays_def]]) (simp add: True)
    then show ?thesis by (rule ensures_post) (simp add: regular_def)
  next
    case False
    with pre have fl: "flow W Q (add_mset (Token key) H) E (called(key := i)) F st" by (simp add: regular_def)
    have "flow W Q (add_mset (Token key) H) (cb_res ?cb + E) (called(key := Suc i)) F st"
      using flow_call(2) [OF fl _ assms] by simp
    then have "regular W Q (add_mset (Token key) H) (cb_res ?cb + E) (called(key := Suc i)) F st"
      unfolding regular_def by (rule disjI2)
    moreover have "cb_kind ?cb" using flow_call(1) [OF fl _ assms] by simp
    ultimately show ?thesis
      by (intro ensures_pre [OF consumesD [OF run_cb_flow]]) simp_all
  qed
qed

lemma answer_flight_flow: "consumes {#Token key#} (answer_flight (run_cb eng h go) key ans)"
proof (rule consumesI, unfold answer_flight_def, rule ensures_reading)
  fix W Q H E called F st
  assume pre: "regular W Q H ({#Token key#} + E) called F st"
  show "ensures (\<lambda>s. s = st) (case map_of (a_reqs st) key of
       None \<Rightarrow> throw (Thrown TypeError)
     | Some cbs \<Rightarrow>
         and_then_do (for_each (\<lambda>i. reading (\<lambda>st. run_cb eng h go (reqs_of st key ! i) ans)) [0..<length cbs])
           (settle_flight key ans (length cbs))) (\<lambda>_. regular W Q H E called F)"
  proof (cases "map_of (a_reqs st) key")
    case (Some cbs)
    let ?F = "F(key := cbs)" and ?H = "add_mset (Token key) H"
    show ?thesis
    proof (cases "a_aborted st")
      case True
      have "stays (reading (\<lambda>st. run_cb eng h go (reqs_of st key ! i) ans))" for i
        using run_cb_stays unfolding stays_def ensures_def reading_def by blast
      then have "stays (for_each (\<lambda>i. reading (\<lambda>st. run_cb eng h go (reqs_of st key ! i) ans)) [0..<length cbs])"
        unfolding stays_def by (intro ensures_for_each) simp
      moreover have "stays (settle_flight key ans (length cbs))"
        unfolding stays_def settle_flight_def by (rule ensures_change) simp
      ultimately have "stays (and_then_do (for_each (\<lambda>i. reading (\<lambda>st. run_cb eng h go (reqs_of st key ! i) ans)) [0..<length cbs])
           (settle_flight key ans (length cbs)))" by (rule stays_seq)
      from this [unfolded stays_def] have "ensures (\<lambda>s. s = st)
          (and_then_do (for_each (\<lambda>i. reading (\<lambda>st. run_cb eng h go (reqs_of st key ! i) ans)) [0..<length cbs])
            (settle_flight key ans (length cbs))) (\<lambda>_. a_aborted)"
        by (rule ensures_pre) (erule ssubst, rule True)
      then show ?thesis unfolding Some option.case by (rule ensures_post) (simp add: regular_def)
    next
      case False
      with pre have fl: "flow W Q H ({#Token key#} + E) called F st" by (simp add: regular_def)
      note taken = flow_take [OF fl Some]
      have loop: "ensures (regular W Q ?H E (called(key := 0)) ?F)
          (for_each (\<lambda>i. reading (\<lambda>st. run_cb eng h go (reqs_of st key ! i) ans)) [0..<length cbs])
          (\<lambda>_. regular W Q ?H E (called(key := length cbs)) ?F)"
        by (rule ensures_for_each_upto, rule answer_each_flow) simp
      have settle: "ensures (regular W Q ?H E (called(key := length cbs)) ?F) (settle_flight key ans (length cbs))
          (\<lambda>_. regular W Q H E called F)"
        unfolding ensures_def
      proof (intro allI impI)
        fix st u st'
        assume reg: "regular W Q ?H E (called(key := length cbs)) ?F st"
          and run: "settle_flight key ans (length cbs) st = Some (Inr (u, st'))"
        show "regular W Q H E called F st'"
        proof (cases "a_aborted st")
          case True
          with run show ?thesis by (auto simp: regular_def settle_flight_def change_def)
        next
          case False
          with reg have "flow W Q ?H E (called(key := length (?F key))) ?F st" by (simp add: regular_def)
          from flow_settle [OF this taken(2,3), of F ans u st'] run show ?thesis by (simp add: regular_def)
        qed
      qed
      have start: "regular W Q ?H E (called(key := 0)) ?F st"
        unfolding regular_def using taken(1) by (rule disjI2)
      have whole: "ensures (regular W Q ?H E (called(key := 0)) ?F)
          (and_then_do (for_each (\<lambda>i. reading (\<lambda>st. run_cb eng h go (reqs_of st key ! i) ans)) [0..<length cbs])
            (settle_flight key ans (length cbs))) (\<lambda>_. regular W Q H E called F)"
        unfolding and_then_do_def using loop settle by (rule ensures_bind)
      show ?thesis
        unfolding Some option.case by (rule ensures_pre [OF whole], erule ssubst, rule start)
    qed
  qed (simp add: ensures_throw)
qed

lemma runner: "flow_runner (run_task eng h go)"
  by unfold_locales (simp_all add: run_task_def process_async_settles answer_flight_flow)

lemma op_done_flow: "consumes (op_res op) (op_done eng h go op)"
  by (cases op)
    (auto simp: op_done_def split: sum.split intro!: answer_flow readdirEntries_flow readdirError_flow
      consumes_reading consumes_stat2 consumes_realpath_done)

text \<open>The patterns of a queue, each with its part of the counter.\<close>

lemma resume_each_flow:
  "ensures (regular W Q H (replicate_mset (length ps) Done + E) called F)
    (for_each (\<lambda>(pattern, index, inGlobStar).
       and_then_do (change (\<lambda>st. st\<lparr>a_processing := a_processing st - 1\<rparr>)) (go (Process pattern index inGlobStar))) ps)
    (\<lambda>_. regular W Q H E called F)"
proof (induction ps)
  case (Cons p ps)
  obtain pattern index inGlobStar where p: "p = (pattern, index, inGlobStar)" by (cases p)
  have "consumes {#Done#} (and_then_do (change (\<lambda>st. st\<lparr>a_processing := a_processing st - 1\<rparr>))
      (go (Process pattern index inGlobStar)))"
    by (rule consumes_done_count [OF process_settles])
  then have "ensures (regular W Q H ({#Done#} + (replicate_mset (length ps) Done + E)) called F)
      (and_then_do (change (\<lambda>st. st\<lparr>a_processing := a_processing st - 1\<rparr>)) (go (Process pattern index inGlobStar)))
      (\<lambda>_. regular W Q H (replicate_mset (length ps) Done + E) called F)" by (rule consumesD)
  from ensures_bind [OF this Cons.IH] show ?case by (simp add: p)
qed (simp add: ensures_ret)

end

section \<open>Walks\<close>

lemma run_flow: "flow_runner (run eng h n)"
proof (induction n)
  case 0
  then show ?case by unfold_locales (simp_all add: settles_def consumes_def ensures_def)
next
  case (Suc n)
  then show ?case using flow_runner.runner by simp
qed

interpretation walk: flow_runner "run eng h n" for eng h n
  by (rule run_flow)

abbreviation settled :: "bool \<Rightarrow> aglob \<Rightarrow> bool" where
  "settled W \<equiv> regular W True {#} {#} (\<lambda>k. 0) (\<lambda>k. [])"

text \<open>Outside of a step the queue is regular; a resumed walk takes it over.\<close>

lemma ensures_unpause:
  "ensures (settled W) (change (\<lambda>st. st\<lparr>a_paused := False, a_emitQueue := []\<rparr>))
    (\<lambda>_. regular W False {#} {#} (\<lambda>k. 0) (\<lambda>k. []))"
  by (rule ensures_change) (auto simp: regular_def flow_def live_def reqs_of_def concluded_def)

lemma regular_take_queue:
  "regular W False {#} {#} (\<lambda>k. 0) (\<lambda>k. []) st \<Longrightarrow>
   regular W True {#} (replicate_mset (length (a_processQueue st)) Done + {#}) (\<lambda>k. 0) (\<lambda>k. []) (st\<lparr>a_processQueue := []\<rparr>)"
  by (auto simp: regular_def flow_def live_def reqs_of_def concluded_def ac_simps)

lemma resume_queue_flow:
  "ensures (regular W False {#} {#} (\<lambda>k. 0) (\<lambda>k. []))
    (reading (\<lambda>st. and_then_do (change (\<lambda>st. st\<lparr>a_processQueue := []\<rparr>))
      (for_each (\<lambda>(pattern, index, inGlobStar).
         and_then_do (change (\<lambda>st. st\<lparr>a_processing := a_processing st - 1\<rparr>))
           (run eng h n (Process pattern index inGlobStar))) (a_processQueue st))))
    (\<lambda>_. settled W)"
  unfolding and_then_do_def [of "change (a_processQueue_update _)"]
proof (rule ensures_reading, rule ensures_bind)
  fix st
  assume pre: "regular W False {#} {#} (\<lambda>k. 0) (\<lambda>k. []) st"
  show "ensures (\<lambda>s. s = st) (change (\<lambda>st. st\<lparr>a_processQueue := []\<rparr>))
    (\<lambda>_. regular W True {#} (replicate_mset (length (a_processQueue st)) Done + {#}) (\<lambda>k. 0) (\<lambda>k. []))"
    by (rule ensures_change) (erule ssubst, rule regular_take_queue [OF pre])
qed (rule walk.resume_each_flow)

lemma resume_flow: "ensures (settled W) (resume_async eng (run eng h n)) (\<lambda>_. settled W)"
  unfolding resume_async_def
proof (rule ensures_reading)
  fix st
  assume pre: "settled W st"
  have emits: "ensures (regular W False {#} ({#} + {#}) (\<lambda>k. 0) (\<lambda>k. []))
      (for_each (\<lambda>(index, e). emitMatch_async eng index e) ps)
      (\<lambda>_. regular W False {#} {#} (\<lambda>k. 0) (\<lambda>k. []))" for ps
    by (rule consumesD, rule consumes_for_each) (auto intro: consumes_emitMatch)
  have event: "ensures (settled W) (emit_event Resume) (\<lambda>_. settled W)"
    using consumesD [OF consumes_emit, where E = "{#}"] by simp
  have "ensures (settled W) (and_then_do (emit_event Resume)
         (and_then_do (change (\<lambda>st. st\<lparr>a_paused := False, a_emitQueue := []\<rparr>))
           (and_then_do (for_each (\<lambda>(index, e). emitMatch_async eng index e) (a_emitQueue st))
             (reading (\<lambda>st.
               and_then_do (change (\<lambda>st. st\<lparr>a_processQueue := []\<rparr>))
                 (for_each (\<lambda>(pattern, index, inGlobStar).
                    and_then_do (change (\<lambda>st. st\<lparr>a_processing := a_processing st - 1\<rparr>))
                      (run eng h n (Process pattern index inGlobStar))) (a_processQueue st)))))))
    (\<lambda>_. settled W)" (is "ensures _ ?m _")
    by (subst (1 2 3) and_then_do_def)
      (intro ensures_bind [OF event] ensures_bind [OF ensures_unpause] ensures_bind [OF emits [simplified]] resume_queue_flow)
  then show "ensures (\<lambda>s. s = st) (if \<not> a_paused st then skip else ?m) (\<lambda>_. settled W)"
    using pre by (auto simp: ensures_def skip_def ret_def)
qed

text \<open>What an operation or a tick holds, it hands to the code that it starts.\<close>

lemma ensures_hand_over:
  assumes "consumes I m" "\<And>st. settled W st \<Longrightarrow> P st \<Longrightarrow> regular W True {#} (I + {#}) (\<lambda>k. 0) (\<lambda>k. []) (f st)"
  shows "ensures (\<lambda>s. settled W s \<and> P s) (and_then_do (change f) m) (\<lambda>_. settled W)"
  unfolding and_then_do_def
  by (rule ensures_bind [OF ensures_change consumesD [OF assms(1)]]) (simp only: assms(2))

lemma complete_flow: "ensures (settled W) (glob_step eng h n (Complete i)) (\<lambda>_. settled W)"
proof -
  have split: "(\<Sum>x \<leftarrow> ops. op_res x) = op_res (ops ! i) + (\<Sum>x \<leftarrow> take i ops @ drop (Suc i) ops. op_res x)"
    if "i < length ops" for ops
    using arg_cong [OF id_take_nth_drop [OF that], where f = "\<lambda>ops. \<Sum>x \<leftarrow> ops. op_res x"] by (simp add: ac_simps)
  show ?thesis
    unfolding glob_step_def glob_action.case
  proof (rule ensures_reading)
    fix st
    assume pre: "settled W st"
    let ?rest = "\<lambda>st. st\<lparr>a_ops := take i (a_ops st) @ drop (Suc i) (a_ops st)\<rparr>"
    let ?m = "and_then_do (change ?rest) (op_done eng h (run eng h n) (a_ops st ! i))"
    have "ensures (\<lambda>s. settled W s \<and> s = st \<and> i < length (a_ops s)) ?m (\<lambda>_. settled W)"
    proof (rule ensures_hand_over [OF walk.op_done_flow])
      fix s
      assume s: "settled W s" "s = st \<and> i < length (a_ops s)"
      then have "live (\<lambda>k. 0) s = op_res (a_ops st ! i) + live (\<lambda>k. 0) (?rest s)"
        using split [of "a_ops s"] by (auto simp add: live_def ac_simps)
      with s(1) show "regular W True {#} (op_res (a_ops st ! i) + {#}) (\<lambda>k. 0) (\<lambda>k. []) (?rest s)"
        by (simp add: regular_def flow_def reqs_of_def concluded_def ac_simps)
    qed
    then show "ensures (\<lambda>s. s = st) (if i < length (a_ops st) then ?m else skip) (\<lambda>_. settled W)"
      using pre by (auto simp: ensures_def skip_def ret_def)
  qed
qed

lemma tick_flow: "ensures (settled W) (glob_step eng h n Tick) (\<lambda>_. settled W)"
  unfolding glob_step_def glob_action.case
proof (rule ensures_reading)
  fix st
  assume pre: "settled W st"
  show "ensures (\<lambda>s. s = st) (case a_ticks st of
            [] \<Rightarrow> skip
          | (key, ans) # ts \<Rightarrow>
              and_then_do (change (\<lambda>st. st\<lparr>a_ticks := ts\<rparr>)) (run eng h n (Answer key ans))) (\<lambda>_. settled W)"
  proof (cases "a_ticks st")
    case Nil
    with pre show ?thesis by (auto simp: ensures_def skip_def ret_def)
  next
    case (Cons t ts)
    obtain key ans where t: "t = (key, ans)" by (cases t)
    have "ensures (\<lambda>s. settled W s \<and> s = st) (and_then_do (change (\<lambda>st. st\<lparr>a_ticks := ts\<rparr>)) (run eng h n (Answer key ans)))
        (\<lambda>_. settled W)"
      by (rule ensures_hand_over [OF walk.answer_flow])
        (auto simp: regular_def flow_def reqs_of_def concluded_def live_def Cons t)
    then have "ensures (\<lambda>s. s = st) (and_then_do (change (\<lambda>st. st\<lparr>a_ticks := ts\<rparr>)) (run eng h n (Answer key ans)))
        (\<lambda>_. settled W)"
      by (rule ensures_pre) (use pre in simp)
    then show ?thesis by (simp add: Cons t)
  qed
qed

lemma pause_flow: "ensures (settled W) pause_async (\<lambda>_. settled W)"
proof -
  have "ensures (settled W) (change (\<lambda>st. st\<lparr>a_paused := True\<rparr>)) (\<lambda>_. settled W)"
    by (rule ensures_change) (auto simp: regular_def flow_def live_def reqs_of_def concluded_def)
  moreover have "ensures (settled W) (emit_event Pause) (\<lambda>_. settled W)"
    using consumesD [OF consumes_emit, where E = "{#}"] by simp
  ultimately have "ensures (settled W) (and_then_do (change (\<lambda>st. st\<lparr>a_paused := True\<rparr>)) (emit_event Pause)) (\<lambda>_. settled W)"
    unfolding and_then_do_def by (rule ensures_bind)
  then show ?thesis
    unfolding pause_async_def by (auto simp: ensures_def reading_def skip_def ret_def)
qed

lemma glob_step_flow: "ensures (settled W) (glob_step eng h n act) (\<lambda>_. settled W)"
proof (cases act)
  case Do_abort
  then show ?thesis using consumesD [OF consumes_abort, where I = "{#}" and E = "{#}"] by (simp add: glob_step_def)
qed (use complete_flow tick_flow pause_flow resume_flow in \<open>simp_all add: glob_step_def\<close>)

text \<open>The first pattern begins the walk.\<close>

lemma new_walk_settled: "settled False (new_walk handled self)"
  by (simp add: new_walk_def regular_def flow_def accounted_def live_def reqs_res_def)

lemma start_flow:
  assumes "\<not> g_noprocess self" "mm_set (g_minimatch self) \<noteq> []"
    and "start_walk eng h n (new_walk handled self) = Some (Inr (u, st))"
  shows "settled True st"
proof -
  let ?ps = "mm_set (g_minimatch self)"
  let ?f = "\<lambda>i. run eng h n (Process (?ps ! i) i False)"
  have "settles (for_each ?f [0..<length ?ps])"
    using assms(2) by (cases "[0..<length ?ps]")
      (auto simp: and_then_do_def [symmetric] intro!: settles_before walk.process_settles consumes_for_each walk.process_flow)
  moreover have "for_each ?f [0..<length ?ps] (new_walk handled self) = Some (Inr (u, st))"
    using assms by (simp add: start_walk_def reading_def Let_def new_walk_def)
  ultimately show ?thesis
    using new_walk_settled unfolding settles_def ensures_def by blast
qed

text \<open>The keys of requests are answered by others, and those in turn by operations and ticks.\<close>

lemma in_sum_list: "x \<in># (\<Sum>y \<leftarrow> ys. f y) \<longleftrightarrow> (\<exists>y \<in> set ys. x \<in># f y)"
  by (induction ys) auto

lemma reqs_res_token:
  assumes "flow W Q {#} {#} (\<lambda>k. 0) F st" "Token k \<in># reqs_res (\<lambda>k. 0) (a_reqs st)"
  obtains k' where "k' \<in> fst ` set (a_reqs st)" "\<And>p. k' \<noteq> Readdir_key p True" "\<exists>p. k = Readdir_key p True"
proof -
  obtain key cbs cb where p: "(key, cbs) \<in> set (a_reqs st)" "cb \<in> set cbs" "Token k \<in># cb_res cb"
    using assms(2) by (auto simp: reqs_res_def cbs_res_def in_sum_list)
  then have "slot_ok key cb" using assms(1) by (force simp: flow_def)
  with p have "key \<noteq> Readdir_key p' True" "\<exists>p. k = Readdir_key p True" for p'
    by (cases cb; force simp: slot_ok_def)+
  with p show thesis by (intro that [of key]) (auto simp: image_iff intro!: bexI [of _ "(key, cbs)"])
qed

lemma no_requests:
  assumes "flow W Q {#} {#} (\<lambda>k. 0) F st" "a_ops st = []" "a_ticks st = []"
  shows "a_reqs st = []"
proof (rule ccontr)
  assume "a_reqs st \<noteq> []"
  have token: "Token k \<in># reqs_res (\<lambda>k. 0) (a_reqs st)" if "k \<in> fst ` set (a_reqs st)" for k
  proof -
    have "count (live (\<lambda>k. 0) st) (Token k) = 1" using assms(1) that by (simp add: flow_def accounted_def)
    then show ?thesis using assms(2,3) by (auto simp: live_def intro: ccontr [of "Token k \<in># _"] simp: not_in_iff)
  qed
  obtain k where "k \<in> fst ` set (a_reqs st)" using \<open>a_reqs st \<noteq> []\<close> by (cases "a_reqs st") auto
  then obtain k' where k': "k' \<in> fst ` set (a_reqs st)" "\<And>p. k' \<noteq> Readdir_key p True"
    using reqs_res_token [OF assms(1) token] by metis
  then show False using reqs_res_token [OF assms(1) token [OF k'(1)]] by metis
qed

definition outstanding :: "aglob \<Rightarrow> nat" where
  "outstanding st = count (live (\<lambda>k. 0) st) Done"

text \<open>
  C20: In every state that a walk reaches, \<open>_processing\<close> is the number of last callbacks that requests,
  operations and the queue of a pause still hold, every request in flight is going to be answered
  once, and a walk that has nothing under way and is not paused has been concluded.
\<close>

theorem glob_walk_never_stalls:
  assumes "start_walk eng h n (new_walk handled self) = Some (Inr (u, st0))"
    and "\<not> g_noprocess self" "mm_set (g_minimatch self) \<noteq> []"
    and "for_each (glob_step eng h n) acts st0 = Some (Inr (v, st))" "\<not> a_aborted st"
  shows "a_processing st = int (outstanding st) \<and>
    (\<forall>key. count (live (\<lambda>k. 0) st) (Token key) = (if key \<in> fst ` set (a_reqs st) then 1 else 0)) \<and>
    (a_ops st \<noteq> [] \<or> a_ticks st \<noteq> [] \<or> a_paused st \<or> a_processing st = 0 \<and> concluded st)"
proof -
  have "ensures (settled True) (for_each (glob_step eng h n) acts) (\<lambda>_. settled True)"
    by (rule ensures_for_each) (rule glob_step_flow)
  then have "settled True st" using start_flow [OF assms(2,3,1)] assms(4) unfolding ensures_def by blast
  then have fl: "flow True True {#} {#} (\<lambda>k. 0) (\<lambda>k. []) st" using assms(5) by (simp add: regular_def)
  then have acc: "accounted (a_processing st) (fst ` set (a_reqs st)) (live (\<lambda>k. 0) st)" by (simp add: flow_def)
  have "a_processing st = 0 \<and> concluded st" if "a_ops st = []" "a_ticks st = []" "\<not> a_paused st"
  proof -
    have "live (\<lambda>k. 0) st = {#}"
      using fl that no_requests [OF fl that(1,2)] by (simp add: live_def reqs_res_def flow_def)
    with acc have "a_processing st = 0" by (simp add: accounted_def)
    with fl show ?thesis by (simp add: flow_def)
  qed
  with acc show ?thesis unfolding accounted_def outstanding_def by blast
qed

section \<open>The bound on the recursion\<close>

text \<open>A call with a larger bound has the same result.\<close>

definition at_least :: "('s, 'a) call \<Rightarrow> ('s, 'a) call \<Rightarrow> bool" where
  "at_least m m' \<longleftrightarrow> (\<forall>st r. m st = Some r \<longrightarrow> m' st = Some r)"

lemma at_least_refl: "at_least m m"
  by (simp add: at_least_def)

lemma at_least_bind: "at_least m m' \<Longrightarrow> (\<And>x. at_least (f x) (f' x)) \<Longrightarrow> at_least (bind_call m f) (bind_call m' f')"
  unfolding at_least_def bind_call_def by (fastforce split: option.splits sum.splits)

lemma at_least_seq: "at_least m m' \<Longrightarrow> at_least k k' \<Longrightarrow> at_least (and_then_do m k) (and_then_do m' k')"
  unfolding and_then_do_def by (rule at_least_bind)

lemma at_least_reading: "(\<And>st. at_least (f st) (f' st)) \<Longrightarrow> at_least (reading f) (reading f')"
  by (simp add: at_least_def reading_def)

lemma at_least_if: "at_least m m' \<Longrightarrow> at_least k k' \<Longrightarrow> at_least (if b then m else k) (if b then m' else k')"
  by simp

lemma at_least_for_each: "(\<And>x. at_least (f x) (f' x)) \<Longrightarrow> at_least (for_each f xs) (for_each f' xs)"
  by (induction xs) (auto intro: at_least_refl at_least_bind)

lemmas at_least_rules = at_least_reading at_least_if at_least_seq at_least_bind at_least_for_each at_least_refl

locale larger_bound =
  fixes go go' :: runner
  assumes larger: "at_least (go t) (go' t)"
begin

lemma readdir_answer_larger: "at_least (readdir_answer go key entries) (readdir_answer go' key entries)"
  unfolding readdir_answer_def by (rule larger)

lemma readdir_request_larger: "at_least (readdir_request go p key) (readdir_request go' p key)"
  unfolding readdir_request_def
  by (rule at_least_reading) (auto split: option.split cached.split intro: readdir_answer_larger at_least_refl)

lemma readdir_plain_larger: "at_least (readdir_plain_async go p cb) (readdir_plain_async go' p cb)"
  unfolding readdir_plain_async_def by (intro at_least_rules readdir_request_larger)

lemma readdirInGlobStar_larger: "at_least (readdirInGlobStar_async go p key) (readdirInGlobStar_async go' p key)"
  unfolding readdirInGlobStar_async_def by (intro at_least_reading at_least_if at_least_refl readdir_plain_larger)

lemma readdir_larger: "at_least (readdir_async go p inGlobStar cb) (readdir_async go' p inGlobStar cb)"
  unfolding readdir_async_def
  by (intro at_least_reading at_least_if at_least_bind at_least_refl readdir_plain_larger readdirInGlobStar_larger
      readdir_request_larger)

lemma globstar_lstat_larger: "at_least (globstar_lstat go key result) (globstar_lstat go' key result)"
  unfolding globstar_lstat_def Let_def
  by (auto split: sum.split intro!: at_least_seq readdir_answer_larger readdir_plain_larger at_least_refl)

lemma readdirEntries_larger: "at_least (readdirEntries_async go p key entries) (readdirEntries_async go' p key entries)"
  unfolding readdirEntries_async_def by (intro at_least_reading at_least_if at_least_bind at_least_refl readdir_answer_larger)

lemma readdirError_larger: "at_least (readdirError_async go f key er) (readdirError_async go' f key er)"
  unfolding readdirError_async_def Let_def
  by (intro at_least_reading at_least_if at_least_seq at_least_refl readdir_answer_larger)

lemma processReaddir2_larger:
  "at_least (processReaddir2 eng h go pfx remain index inGlobStar entries) (processReaddir2 eng h go' pfx remain index inGlobStar entries)"
  unfolding processReaddir2_def Let_def
  by (auto split: option.split list.split part.split
      intro!: at_least_reading at_least_seq at_least_for_each larger at_least_refl)

lemma processGlobStar2_larger:
  "at_least (processGlobStar2 eng h go pfx p remain index inGlobStar entries)
     (processGlobStar2 eng h go' pfx p remain index inGlobStar entries)"
  unfolding processGlobStar2_def Let_def
  by (auto split: option.split intro!: at_least_reading at_least_seq at_least_for_each larger at_least_refl)

lemma run_cb_larger: "at_least (run_cb eng h go cb ans) (run_cb eng h go' cb ans)"
  unfolding run_cb_def Let_def
  by (cases cb)
    (simp_all add: processReaddir2_larger processGlobStar2_larger readdir_answer_larger globstar_lstat_larger at_least_refl)

lemma process_async_larger:
  "at_least (process_async eng h go pattern index inGlobStar) (process_async eng h go' pattern index inGlobStar)"
  unfolding process_async_def Let_def
  by (auto split: prod.split intro!: at_least_reading at_least_seq readdir_larger at_least_refl)

lemma answer_flight_larger:
  "at_least (answer_flight (run_cb eng h go) key ans) (answer_flight (run_cb eng h go') key ans)"
  unfolding answer_flight_def
  by (auto split: option.split intro!: at_least_reading at_least_seq at_least_for_each run_cb_larger at_least_refl)

lemma run_task_larger: "at_least (run_task eng h go t) (run_task eng h go' t)"
  by (cases t) (simp_all add: run_task_def process_async_larger answer_flight_larger)

lemma op_done_larger: "at_least (op_done eng h go op) (op_done eng h go' op)"
  by (cases op)
    (auto simp: op_done_def split: sum.split intro!: at_least_reading larger readdirError_larger readdirEntries_larger at_least_refl)

lemma resume_larger: "at_least (resume_async eng go) (resume_async eng go')"
  unfolding resume_async_def
  by (auto intro!: at_least_reading at_least_seq at_least_for_each larger at_least_refl)

end

lemma run_larger: "n \<le> m \<Longrightarrow> at_least (run eng h n t) (run eng h m t)"
proof (induction n arbitrary: m t)
  case 0
  then show ?case by (simp add: at_least_def)
next
  case (Suc n)
  then obtain m' where m': "m = Suc m'" "n \<le> m'" by (cases m) auto
  have "larger_bound (run eng h n) (run eng h m')" by unfold_locales (rule Suc.IH [OF m'(2)])
  then show ?case by (simp add: m' larger_bound.run_task_larger)
qed

interpretation deeper: larger_bound "run eng h n" "run eng h (n + k)" for eng h n k
  by unfold_locales (rule run_larger, simp)

text \<open>What a step with some bound does, a step with a larger one does too.\<close>

lemma glob_step_larger: "at_least (glob_step eng h n act) (glob_step eng h (n + k) act)"
  using run_larger [of n "n + k"]
  by (cases act)
    (auto simp: glob_step_def split: list.split intro!: at_least_rules deeper.op_done_larger deeper.resume_larger)

section \<open>A concrete run\<close>

lemma map_result: "map_sum id f r = Inr y \<longleftrightarrow> (\<exists>x. r = Inr x \<and> f x = y)"
  by (cases r) auto

text \<open>The pattern \<open>**\<close> on a file system with one file, after two operations.\<close>

lemma example_two_steps:
  "map_option (map_sum id (\<lambda>(u, st). (a_aborted st, a_processing st, a_ops st, a_events st)))
    (bind_call (start_walk plain_engine example_host 6)
      (\<lambda>_. for_each (glob_step plain_engine example_host 6) [Complete 0, Complete 0]) (new_walk True example_glob)) =
   Some (Inr (False, 1, [Op_lstat (Lstat_key [47, 98]) [47, 98]], [Match [98]]))"
  by code_simp

theorem glob_walk_never_stalls_witness:
  "\<exists>u st0 v st. start_walk plain_engine example_host 6 (new_walk True example_glob) = Some (Inr (u, st0)) \<and>
     for_each (glob_step plain_engine example_host 6) [Complete 0, Complete 0] st0 = Some (Inr (v, st)) \<and>
     a_ops st = [Op_lstat (Lstat_key [47, 98]) [47, 98]] \<and> outstanding st = 1"
proof -
  obtain u st0 v st where start: "start_walk plain_engine example_host 6 (new_walk True example_glob) = Some (Inr (u, st0))"
    and steps: "for_each (glob_step plain_engine example_host 6) [Complete 0, Complete 0] st0 = Some (Inr (v, st))"
    and st: "\<not> a_aborted st" "a_processing st = 1" "a_ops st = [Op_lstat (Lstat_key [47, 98]) [47, 98]]"
    using example_two_steps
    by (auto simp: map_result bind_call_def simp del: for_each.simps split: option.splits sum.splits)
  have "\<not> g_noprocess example_glob" "mm_set (g_minimatch example_glob) \<noteq> []"
    by (simp_all add: example_fields example_minimatch_def)
  from glob_walk_never_stalls [OF start this steps st(1)] start steps st(2,3) show ?thesis by auto
qed

text \<open>
  A first pattern that is settled by the cache concludes the walk before the others are begun: the
  end is announced twice, first without the matches of the other patterns.
\<close>

definition cached_first :: glob where
  "cached_first = example_glob\<lparr>g_minimatch := example_minimatch\<lparr>mm_set := [[Literal [98]], [Literal [47, 98]]],
     mm_globSet := [[98], [47, 98]]\<rparr>, g_cache := [[47, 98] \<mapsto> File]\<rparr>"

lemma end_comes_early:
  "map_option (map_sum id (\<lambda>(u, st). a_events st)) (start_walk plain_engine example_host 2 (new_walk True cached_first)) =
   Some (Inr [Match [98], End (Some [[98]]), Match [47, 98], End (Some [[47, 98], [98]])])"
  by code_simp

text \<open>The empty pattern has no sets, and \<open>hasMagic\<close> fails on it.\<close>

lemma hasMagic_empty: "hasMagic plain_engine (\<lambda>_. []) False [] no_options = Some (Inl (Thrown TypeError))"
  by code_simp

end
