(* ===== verification/Js_Events.thy ===== *)
theory Js_Events
  imports Js_Prelude "HOL-Library.AList"
begin

text \<open>
  The \<open>EventEmitter\<close> module bundled with the word cutter (\<open>wordcut.js\<close>, module 14).

  Functions are objects with an identity: a listener is the number of a function. A client's
  function is known by its body, a parameter: the operations it performs on the emitter when it is
  called, which may depend on the arguments and on everything that was called before. The wrappers
  that \<open>once\<close> makes are in the state, with their \<open>fired\<close> flag. Arrays of listeners live in a
  store, since \<open>removeAllListeners\<close> holds on to an array that \<open>removeListener\<close> changes.

  Operations call listeners and listeners call operations; \<open>exec\<close> ties the knot with a bound on the
  nesting, and \<open>Stuck\<close> means that the bound was too small.
\<close>

section \<open>State\<close>

datatype entry = One nat | Many nat

datatype 'v arg = Val 'v | ErrorVal 'v | Name string | Func nat

datatype 'v event = Called nat "'v arg list" | Fired nat "'v arg list" | Warned string nat

record wrapper =
  w_type :: string
  w_listener :: nat
  w_fired :: bool

record 'v emitter =
  events :: "(string \<times> entry) list"
  maxListeners :: "int option"
  arrays :: "nat \<Rightarrow> nat list \<times> bool"
  next_array :: nat
  wrappers :: "nat \<Rightarrow> wrapper option"
  next_function :: nat
  trace :: "'v event list"

datatype 'v op =
    Emit string "'v arg list"
  | AddListener string "nat option"
  | Once string "nat option"
  | RemoveListener string "nat option"
  | RemoveAllListeners "string option"
  | SetMaxListeners int
  | Throw js_error
  | Call nat "'v arg list"
  | Drain string nat

datatype ('s, 'a) effect = Stuck | Ran 's "'a result"

definition next_do :: "('s, 'a) effect \<Rightarrow> ('s \<Rightarrow> 'a \<Rightarrow> ('s, 'b) effect) \<Rightarrow> ('s, 'b) effect" where
  "next_do m f = (case m of Stuck \<Rightarrow> Stuck | Ran s r \<Rightarrow> (case r of Inl e \<Rightarrow> Ran s (Inl e) | Inr x \<Rightarrow> f s x))"

lemma next_do_simps [simp]:
  "next_do Stuck f = Stuck" "next_do (Ran s (Inl e)) f = Ran s (Inl e)" "next_do (Ran s (Inr x)) f = f s x"
  by (simp_all add: next_do_def)

type_synonym 'v run = "('v emitter, bool) effect"

definition entry_of :: "'v emitter \<Rightarrow> string \<Rightarrow> entry option" where
  "entry_of st t = map_of (events st) t"

definition set_entry :: "string \<Rightarrow> entry \<Rightarrow> 'v emitter \<Rightarrow> 'v emitter" where
  "set_entry t e st = st\<lparr>events := AList.update t e (events st)\<rparr>"

definition delete_entry :: "string \<Rightarrow> 'v emitter \<Rightarrow> 'v emitter" where
  "delete_entry t st = st\<lparr>events := AList.delete t (events st)\<rparr>"

definition set_array :: "nat \<Rightarrow> nat list \<times> bool \<Rightarrow> 'v emitter \<Rightarrow> 'v emitter" where
  "set_array a v st = st\<lparr>arrays := (arrays st)(a := v)\<rparr>"

definition log_event :: "'v event \<Rightarrow> 'v emitter \<Rightarrow> 'v emitter" where
  "log_event e st = st\<lparr>trace := trace st @ [e]\<rparr>"

definition new_emitter :: "nat \<Rightarrow> 'v emitter" where
  "new_emitter functions = \<lparr>events = [], maxListeners = None, arrays = (\<lambda>_. ([], False)),
     next_array = 0, wrappers = (\<lambda>_. None), next_function = functions, trace = []\<rparr>"

section \<open>Operations\<close>

definition listeners :: "'v emitter \<Rightarrow> string \<Rightarrow> nat list" where
  "listeners st t =
     (case entry_of st t of None \<Rightarrow> [] | Some (One l) \<Rightarrow> [l] | Some (Many a) \<Rightarrow> fst (arrays st a))"

definition listenerCount :: "'v emitter \<Rightarrow> string \<Rightarrow> nat" where
  "listenerCount st t =
     (case entry_of st t of None \<Rightarrow> 0 | Some (One l) \<Rightarrow> 1 | Some (Many a) \<Rightarrow> length (fst (arrays st a)))"

definition setMaxListeners :: "int \<Rightarrow> 'v emitter \<Rightarrow> 'v run" where
  "setMaxListeners n st =
     (if n < 0 then Ran st (Inl TypeError) else Ran (st\<lparr>maxListeners := Some n\<rparr>) (Inr True))"

fun call_all :: "('v op \<Rightarrow> 'v emitter \<Rightarrow> 'v run) \<Rightarrow> 'v op list \<Rightarrow> 'v emitter \<Rightarrow> 'v run" where
  "call_all self [] st = Ran st (Inr True)"
| "call_all self (op # ops) st = next_do (self op st) (\<lambda>st _. call_all self ops st)"

definition emit ::
    "('v op \<Rightarrow> 'v emitter \<Rightarrow> 'v run) \<Rightarrow> string \<Rightarrow> 'v arg list \<Rightarrow> 'v emitter \<Rightarrow> 'v run" where
  "emit self type args st =
     (if type = ''error'' \<and> listeners st type = [] then
        Ran st (Inl (case args of ErrorVal v # _ \<Rightarrow> ErrorObj ''unhandled error'' | _ \<Rightarrow> TypeError))
      else
        case entry_of st type of
          None \<Rightarrow> Ran st (Inr False)
        | Some (One handler) \<Rightarrow> call_all self [Call handler args] st
        | Some (Many a) \<Rightarrow> call_all self (map (\<lambda>l. Call l args) (fst (arrays st a))) st)"

text \<open>\<open>listener.listener\<close>, which only a wrapper of \<open>once\<close> has.\<close>

definition inner :: "'v emitter \<Rightarrow> nat \<Rightarrow> nat option" where
  "inner st l = map_option w_listener (wrappers st l)"

definition push_listener :: "string \<Rightarrow> nat \<Rightarrow> 'v emitter \<Rightarrow> 'v emitter" where
  "push_listener type listener st =
     (case entry_of st type of
        None \<Rightarrow> set_entry type (One listener) st
      | Some (Many a) \<Rightarrow> set_array a (fst (arrays st a) @ [listener], snd (arrays st a)) st
      | Some (One l) \<Rightarrow>
          let a = next_array st in
          set_entry type (Many a) (set_array a ([l, listener], False) (st\<lparr>next_array := a + 1\<rparr>)))"

definition leak_check :: "string \<Rightarrow> 'v emitter \<Rightarrow> 'v emitter" where
  "leak_check type st =
     (case entry_of st type of
        Some (Many a) \<Rightarrow>
          let (ls, warned) = arrays st a;
              m = (case maxListeners st of Some m \<Rightarrow> m | None \<Rightarrow> 10)
          in if \<not> warned \<and> 0 < m \<and> m < int (length ls)
             then log_event (Warned type (length ls)) (set_array a (ls, True) st)
             else st
      | _ \<Rightarrow> st)"

definition addListener ::
    "('v op \<Rightarrow> 'v emitter \<Rightarrow> 'v run) \<Rightarrow> string \<Rightarrow> nat option \<Rightarrow> 'v emitter \<Rightarrow> 'v run" where
  "addListener self type listener st =
     (case listener of
        None \<Rightarrow> Ran st (Inl TypeError)
      | Some l \<Rightarrow>
          next_do
            (if entry_of st ''newListener'' \<noteq> None
             then self (Emit ''newListener''
               [Name type, Func (case inner st l of Some f \<Rightarrow> f | None \<Rightarrow> l)]) st
             else Ran st (Inr True))
            (\<lambda>st _. Ran (leak_check type (push_listener type l st)) (Inr True)))"

definition once ::
    "('v op \<Rightarrow> 'v emitter \<Rightarrow> 'v run) \<Rightarrow> string \<Rightarrow> nat option \<Rightarrow> 'v emitter \<Rightarrow> 'v run" where
  "once self type listener st =
     (case listener of
        None \<Rightarrow> Ran st (Inl TypeError)
      | Some l \<Rightarrow>
          let g = next_function st;
              w = \<lparr>w_type = type, w_listener = l, w_fired = False\<rparr>
          in addListener self type (Some g)
               (st\<lparr>wrappers := (wrappers st)(g := Some w), next_function := g + 1\<rparr>))"

text \<open>The last position whose listener is \<open>l\<close> or a wrapper of \<open>l\<close>, and the list without it.\<close>

definition is_listener :: "'v emitter \<Rightarrow> nat \<Rightarrow> nat \<Rightarrow> bool" where
  "is_listener st l m \<longleftrightarrow> m = l \<or> inner st m = Some l"

definition remove_last :: "('a \<Rightarrow> bool) \<Rightarrow> 'a list \<Rightarrow> 'a list" where
  "remove_last P xs =
     (let ys = rev xs; skipped = takeWhile (\<lambda>x. \<not> P x) ys in rev (skipped @ tl (drop (length skipped) ys)))"

definition emit_removed ::
    "('v op \<Rightarrow> 'v emitter \<Rightarrow> 'v run) \<Rightarrow> string \<Rightarrow> nat \<Rightarrow> 'v emitter \<Rightarrow> 'v run" where
  "emit_removed self type l st =
     (if entry_of st ''removeListener'' \<noteq> None
      then next_do (self (Emit ''removeListener'' [Name type, Func l]) st) (\<lambda>st _. Ran st (Inr True))
      else Ran st (Inr True))"

definition removeListener ::
    "('v op \<Rightarrow> 'v emitter \<Rightarrow> 'v run) \<Rightarrow> string \<Rightarrow> nat option \<Rightarrow> 'v emitter \<Rightarrow> 'v run" where
  "removeListener self type listener st =
     (case listener of
        None \<Rightarrow> Ran st (Inl TypeError)
      | Some l \<Rightarrow>
          (case entry_of st type of
             None \<Rightarrow> Ran st (Inr True)
           | Some (One m) \<Rightarrow>
               if is_listener st l m then emit_removed self type l (delete_entry type st)
               else Ran st (Inr True)
           | Some (Many a) \<Rightarrow>
               let list = fst (arrays st a); warned = snd (arrays st a) in
               if \<not> list_ex (is_listener st l) list then Ran st (Inr True)
               else if length list = 1
               then emit_removed self type l (delete_entry type (set_array a ([], warned) st))
               else emit_removed self type l (set_array a (remove_last (is_listener st l) list, warned) st)))"

text \<open>The loop \<open>while (listeners.length)\<close> over the array \<open>a\<close>.\<close>

definition drain ::
    "('v op \<Rightarrow> 'v emitter \<Rightarrow> 'v run) \<Rightarrow> string \<Rightarrow> nat \<Rightarrow> 'v emitter \<Rightarrow> 'v run" where
  "drain self type a st =
     (let list = fst (arrays st a) in
      if list = [] then Ran st (Inr True)
      else next_do (removeListener self type (Some (last list)) st) (\<lambda>st _. self (Drain type a) st))"

definition removeAll_of ::
    "('v op \<Rightarrow> 'v emitter \<Rightarrow> 'v run) \<Rightarrow> string \<Rightarrow> 'v emitter \<Rightarrow> 'v run" where
  "removeAll_of self type st =
     next_do
       (case entry_of st type of
          None \<Rightarrow> Ran st (Inl TypeError)
        | Some (One l) \<Rightarrow> removeListener self type (Some l) st
        | Some (Many a) \<Rightarrow> drain self type a st)
       (\<lambda>st _. Ran (delete_entry type st) (Inr True))"

definition removeAllListeners ::
    "('v op \<Rightarrow> 'v emitter \<Rightarrow> 'v run) \<Rightarrow> string option \<Rightarrow> 'v emitter \<Rightarrow> 'v run" where
  "removeAllListeners self type st =
     (if entry_of st ''removeListener'' = None then
        (case type of
           None \<Rightarrow> Ran (st\<lparr>events := []\<rparr>) (Inr True)
         | Some t \<Rightarrow> Ran (delete_entry t st) (Inr True))
      else
        case type of
          None \<Rightarrow>
            next_do
              (call_all (\<lambda>op st. case op of
                    RemoveAllListeners (Some key) \<Rightarrow>
                      if entry_of st key = None then Ran st (Inr True) else self op st
                  | _ \<Rightarrow> self op st)
                (map (\<lambda>key. RemoveAllListeners (Some key))
                  (filter (\<lambda>key. key \<noteq> ''removeListener'') (map fst (events st)))) st)
              (\<lambda>st _. next_do (self (RemoveAllListeners (Some ''removeListener'')) st)
              (\<lambda>st _. Ran (st\<lparr>events := []\<rparr>) (Inr True)))
        | Some t \<Rightarrow> removeAll_of self t st)"

text \<open>A call of a function: a client's function, or a wrapper \<open>g\<close> of \<open>once\<close>.\<close>

definition call_function ::
    "('v event list \<Rightarrow> nat \<Rightarrow> 'v arg list \<Rightarrow> 'v op list) \<Rightarrow> ('v op \<Rightarrow> 'v emitter \<Rightarrow> 'v run)
      \<Rightarrow> nat \<Rightarrow> 'v arg list \<Rightarrow> 'v emitter \<Rightarrow> 'v run" where
  "call_function body self f args st =
     (case wrappers st f of
        None \<Rightarrow> call_all self (body (trace st) f args) (log_event (Called f args) st)
      | Some w \<Rightarrow>
          next_do (removeListener self (w_type w) (Some f) st) (\<lambda>st _.
            case wrappers st f of
              None \<Rightarrow> Ran st (Inr True)
            | Some w \<Rightarrow>
                if w_fired w then Ran st (Inr True)
                else self (Call (w_listener w) args)
                       (log_event (Fired f args)
                         (st\<lparr>wrappers := (wrappers st)(f := Some (w\<lparr>w_fired := True\<rparr>))\<rparr>))))"

primrec exec ::
    "('v event list \<Rightarrow> nat \<Rightarrow> 'v arg list \<Rightarrow> 'v op list) \<Rightarrow> nat \<Rightarrow> 'v op \<Rightarrow> 'v emitter \<Rightarrow> 'v run" where
  "exec body 0 op st = Stuck"
| "exec body (Suc n) op st =
     (case op of
        Emit t args \<Rightarrow> emit (exec body n) t args st
      | AddListener t l \<Rightarrow> addListener (exec body n) t l st
      | Once t l \<Rightarrow> once (exec body n) t l st
      | RemoveListener t l \<Rightarrow> removeListener (exec body n) t l st
      | RemoveAllListeners t \<Rightarrow> removeAllListeners (exec body n) t st
      | SetMaxListeners m \<Rightarrow> setMaxListeners m st
      | Throw e \<Rightarrow> Ran st (Inl e)
      | Call f args \<Rightarrow> call_function body (exec body n) f args st
      | Drain t a \<Rightarrow> drain (exec body n) t a st)"

section \<open>A listener of once fires at most once\<close>

definition fires :: "nat \<Rightarrow> 'v emitter \<Rightarrow> nat" where
  "fires g st = length (filter (\<lambda>e. case e of Fired f args \<Rightarrow> f = g | _ \<Rightarrow> False) (trace st))"

text \<open>A wrapper has fired as often as its flag says, and numbers not yet given out are no wrappers.\<close>

definition fire_inv :: "'v emitter \<Rightarrow> bool" where
  "fire_inv st \<longleftrightarrow>
     (\<forall>g. fires g st = (case wrappers st g of Some w \<Rightarrow> (if w_fired w then 1 else 0) | None \<Rightarrow> 0)) \<and>
     (\<forall>g \<ge> next_function st. wrappers st g = None)"

definition keeps :: "('v emitter \<Rightarrow> bool) \<Rightarrow> ('v emitter, 'a) effect \<Rightarrow> bool" where
  "keeps I m \<longleftrightarrow> (\<forall>s r. m = Ran s r \<longrightarrow> I s)"

lemma keeps_Ran [simp]: "keeps I (Ran s r) = I s"
  by (simp add: keeps_def)

lemma keeps_Stuck [simp]: "keeps I Stuck"
  by (simp add: keeps_def)

lemma keeps_next:
  assumes "keeps I m" "\<And>s x. I s \<Longrightarrow> keeps I (f s x)"
  shows "keeps I (next_do m f)"
  using assms by (cases m) (auto simp: keeps_def next_do_def split: sum.splits)

lemma keeps_call_all:
  "(\<And>op st. I st \<Longrightarrow> keeps I (self op st)) \<Longrightarrow> I st \<Longrightarrow> keeps I (call_all self ops st)"
  by (induction ops arbitrary: st) (simp_all add: keeps_next)

text \<open>Changes that do not touch the wrappers and the trace.\<close>

lemma fire_inv_cong:
  "trace st' = trace st \<Longrightarrow> wrappers st' = wrappers st \<Longrightarrow> next_function st' = next_function st \<Longrightarrow>
    fire_inv st' = fire_inv st"
  by (simp add: fire_inv_def fires_def)

lemma fire_inv_simps [simp]:
  "fire_inv (set_entry t e st) = fire_inv st" "fire_inv (delete_entry t st) = fire_inv st"
  "fire_inv (set_array a v st) = fire_inv st" "fire_inv (st\<lparr>events := es\<rparr>) = fire_inv st"
  "fire_inv (st\<lparr>maxListeners := m\<rparr>) = fire_inv st" "fire_inv (st\<lparr>next_array := k\<rparr>) = fire_inv st"
  by (rule fire_inv_cong; simp add: set_entry_def delete_entry_def set_array_def)+

lemma fire_inv_log:
  "fire_inv (log_event (Called f args) st) = fire_inv st" "fire_inv (log_event (Warned t k) st) = fire_inv st"
  by (simp_all add: fire_inv_def fires_def log_event_def)

lemma fire_inv_push: "fire_inv (leak_check t (push_listener t l st)) = fire_inv st"
  by (simp add: leak_check_def push_listener_def Let_def fire_inv_log split: option.split entry.split prod.split)

lemma fire_inv_new_wrapper:
  assumes "fire_inv st"
  shows "fire_inv (st\<lparr>wrappers := (wrappers st)(next_function st := Some \<lparr>w_type = t, w_listener = l, w_fired = False\<rparr>),
    next_function := next_function st + 1\<rparr>)"
  using assms by (auto simp: fire_inv_def fires_def)

lemma fire_inv_fire:
  assumes "fire_inv st" "wrappers st g = Some w" "\<not> w_fired w"
  shows "fire_inv (log_event (Fired g args) (st\<lparr>wrappers := (wrappers st)(g := Some (w\<lparr>w_fired := True\<rparr>))\<rparr>))"
  using assms by (auto simp: fire_inv_def fires_def log_event_def)

lemma keeps_removeListener:
  assumes "\<And>op st. fire_inv st \<Longrightarrow> keeps fire_inv (self op st)" "fire_inv st"
  shows "keeps fire_inv (removeListener self t l st)"
proof -
  have "keeps fire_inv (emit_removed self t l st)" if "fire_inv st" for l st
    using that assms(1) by (simp add: emit_removed_def keeps_next)
  with assms(2) show ?thesis
    by (simp add: removeListener_def Let_def split: option.split entry.split)
qed

lemma keeps_addListener:
  assumes "\<And>op st. fire_inv st \<Longrightarrow> keeps fire_inv (self op st)" "fire_inv st"
  shows "keeps fire_inv (addListener self t l st)"
  unfolding addListener_def
  by (cases l) (use assms in \<open>auto intro!: keeps_next simp: fire_inv_push\<close>)

lemma keeps_exec: "fire_inv st \<Longrightarrow> keeps fire_inv (exec body n op st)"
proof (induction n arbitrary: op st)
  case (Suc n)
  let ?self = "exec body n"
  note self = Suc.IH and inv = Suc.prems
  have all: "fire_inv st \<Longrightarrow> keeps fire_inv (call_all ?self ops st)" for ops st
    by (rule keeps_call_all) (rule self)
  note remove = keeps_removeListener [of ?self, OF self]
  have drain: "fire_inv st \<Longrightarrow> keeps fire_inv (drain ?self t a st)" for t a st
    by (simp add: drain_def Let_def keeps_next remove self)
  show ?case
  proof (cases op)
    case (Emit t args)
    then show ?thesis using inv all
      by (simp add: emit_def del: call_all.simps split: option.split entry.split)
  next
    case (AddListener t l)
    then show ?thesis using inv self by (simp add: keeps_addListener)
  next
    case (Once t l)
    have "keeps fire_inv (addListener ?self t (Some (next_function st)) (st\<lparr>wrappers := (wrappers st)
        (next_function st := Some \<lparr>w_type = t, w_listener = m, w_fired = False\<rparr>),
        next_function := next_function st + 1\<rparr>))" for m
      by (rule keeps_addListener [OF self fire_inv_new_wrapper [OF inv]])
    with Once inv show ?thesis by (simp add: once_def Let_def split: option.split)
  next
    case (RemoveListener t l)
    then show ?thesis using inv remove by simp
  next
    case (RemoveAllListeners t)
    have of: "keeps fire_inv (removeAll_of ?self k st)" for k
      unfolding removeAll_of_def
      by (rule keeps_next) (use inv remove drain in \<open>auto split: option.split entry.split\<close>)
    have some: "keeps fire_inv (call_all (\<lambda>op st. case op of
          RemoveAllListeners (Some key) \<Rightarrow> if entry_of st key = None then Ran st (Inr True) else ?self op st
        | _ \<Rightarrow> ?self op st) ops st)" for ops
      by (rule keeps_call_all) (use self inv in \<open>auto split: op.split option.split\<close>)
    show ?thesis unfolding RemoveAllListeners exec.simps op.case removeAllListeners_def
      using inv of some self by (auto intro!: keeps_next split: option.split)
  next
    case (SetMaxListeners m)
    then show ?thesis using inv by (simp add: setMaxListeners_def)
  next
    case (Throw e)
    then show ?thesis using inv by simp
  next
    case (Call f args)
    have "keeps fire_inv (call_function body ?self f args st)"
    proof (cases "wrappers st f")
      case None
      then show ?thesis using inv all by (simp add: call_function_def fire_inv_log)
    next
      case (Some w)
      then show ?thesis unfolding call_function_def Some option.case
        by (intro keeps_next remove inv) (auto split: option.split intro!: self fire_inv_fire)
    qed
    then show ?thesis using Call by simp
  next
    case (Drain t a)
    then show ?thesis using inv drain by simp
  qed
qed simp

lemma fire_inv_new: "fire_inv (new_emitter k)"
  by (simp add: fire_inv_def fires_def new_emitter_def)

text \<open>
  In every run of operations on a new emitter, with any client functions that call back into
  the emitter, every wrapper made by \<open>once\<close> calls its listener at most once.
\<close>

theorem once_fires_once:
  assumes "call_all (exec body n) ops (new_emitter k) = Ran st r"
  shows "fires g st \<le> 1"
proof -
  have "keeps fire_inv (call_all (exec body n) ops (new_emitter k))"
    by (rule keeps_call_all [OF keeps_exec fire_inv_new])
  with assms have "fire_inv st" by (simp add: keeps_def)
  then show ?thesis by (auto simp: fire_inv_def split: option.splits)
qed

theorem once_fires_once_witness:
  "\<exists>st r. call_all (exec (\<lambda>_ _ _. [Emit ''e'' []]) 6) [Once ''e'' (Some 0), Emit ''e'' []]
      (new_emitter 1 :: nat emitter) = Ran st r \<and> fires 1 st \<le> 1"
proof -
  let ?m = "call_all (exec (\<lambda>_ _ _. [Emit ''e'' []]) 6) [Once ''e'' (Some 0), Emit ''e'' []]
      (new_emitter 1 :: nat emitter)"
  have "?m \<noteq> Stuck"
    by (simp add: eval_nat_numeral once_def addListener_def leak_check_def push_listener_def emit_def
        listeners_def call_function_def removeListener_def emit_removed_def is_listener_def
        set_entry_def delete_entry_def log_event_def entry_of_def new_emitter_def Let_def)
  then obtain st r where m: "?m = Ran st r" by (cases ?m) auto
  then show ?thesis using once_fires_once [OF m] by blast
qed

section \<open>Listeners as a list\<close>

text \<open>Arrays are numbered as they are made, and no two event types share one.\<close>

definition arrays_ok :: "'v emitter \<Rightarrow> bool" where
  "arrays_ok st \<longleftrightarrow>
     (\<forall>t a. entry_of st t = Some (Many a) \<longrightarrow> a < next_array st) \<and>
     (\<forall>t u a. entry_of st t = Some (Many a) \<longrightarrow> entry_of st u = Some (Many a) \<longrightarrow> t = u)"

lemma entry_of_simps [simp]:
  "entry_of (set_entry t e st) u = (if u = t then Some e else entry_of st u)"
  "entry_of (delete_entry t st) u = (if u = t then None else entry_of st u)"
  "entry_of (set_array a v st) u = entry_of st u"
  "entry_of (log_event ev st) u = entry_of st u"
  by (simp_all add: entry_of_def set_entry_def delete_entry_def set_array_def log_event_def
      update_conv' delete_conv')

lemma array_simps [simp]:
  "arrays (set_entry t e st) = arrays st" "arrays (delete_entry t st) = arrays st"
  "arrays (set_array a v st) = (arrays st)(a := v)" "arrays (log_event ev st) = arrays st"
  "next_array (set_entry t e st) = next_array st" "next_array (delete_entry t st) = next_array st"
  "next_array (set_array a v st) = next_array st" "next_array (log_event ev st) = next_array st"
  by (simp_all add: set_entry_def delete_entry_def set_array_def log_event_def)

lemma leak_check_listeners: "listeners (leak_check t st) u = listeners st u \<and> (arrays_ok (leak_check t st) \<longleftrightarrow> arrays_ok st)"
  by (auto simp: leak_check_def listeners_def arrays_ok_def split: option.splits entry.splits prod.splits)

lemma push_listener_listeners:
  assumes "arrays_ok st"
  shows "listeners (push_listener t l st) = (listeners st)(t := listeners st t @ [l]) \<and>
    arrays_ok (push_listener t l st)"
proof (cases "entry_of st t")
  case None
  with assms show ?thesis
    by (auto simp: push_listener_def listeners_def arrays_ok_def fun_eq_iff split: option.split entry.split)
next
  case (Some e)
  show ?thesis
  proof (cases e)
    case (One m)
    have e: "entry_of (st\<lparr>next_array := k\<rparr>) u = entry_of st u" for k u
      by (simp add: entry_of_def)
    have fresh: "entry_of st u \<noteq> Some (Many (next_array st))" for u
      using assms by (auto simp: arrays_ok_def)
    have "listeners (push_listener t l st) u = ((listeners st)(t := listeners st t @ [l])) u" for u
      using Some One fresh [of u]
      by (auto simp: push_listener_def listeners_def e Let_def split: option.split entry.split)
    moreover have "arrays_ok (push_listener t l st)"
      using assms Some One fresh by (fastforce simp: arrays_ok_def push_listener_def e Let_def)
    ultimately show ?thesis by blast
  next
    case (Many a)
    have "u \<noteq> t \<Longrightarrow> entry_of st u \<noteq> Some (Many a)" for u
      using assms Some Many by (auto simp: arrays_ok_def)
    then have "listeners (push_listener t l st) u = ((listeners st)(t := listeners st t @ [l])) u" for u
      using Some Many by (auto simp: push_listener_def listeners_def split: option.split entry.split)
    moreover have "arrays_ok (push_listener t l st)"
      using assms Some Many by (simp add: arrays_ok_def push_listener_def)
    ultimately show ?thesis by blast
  qed
qed

lemma remove_last_none: "\<not> list_ex P xs \<Longrightarrow> remove_last P xs = xs"
  by (auto simp: remove_last_def list_ex_iff Let_def takeWhile_eq_all_conv [THEN iffD2])

lemma remove_last_single: "P x \<Longrightarrow> remove_last P [x] = []"
  by (simp add: remove_last_def)



section \<open>emit\<close>

text \<open>
  \<open>emit\<close> calls exactly the listeners of the event, each once, in the order they were added,
  with the arguments of the event, and returns true; here for listeners that make no calls back.
\<close>

theorem emit_calls_in_order:
  assumes "listeners st t \<noteq> []" "list_all (\<lambda>l. wrappers st l = None) (listeners st t)"
  shows "exec (\<lambda>_ _ _. []) (Suc (Suc n)) (Emit t args) st =
    Ran (st\<lparr>trace := trace st @ map (\<lambda>l. Called l args) (listeners st t)\<rparr>) (Inr True)"
proof -
  let ?self = "exec (\<lambda>_ _ _. []) (Suc n)"
  have "call_all ?self (map (\<lambda>l. Call l args) ls) s =
      Ran (s\<lparr>trace := trace s @ map (\<lambda>l. Called l args) ls\<rparr>) (Inr True)"
    if "list_all (\<lambda>l. wrappers s l = None) ls" for ls s
    using that by (induction ls arbitrary: s) (simp_all add: call_function_def log_event_def)
  from this [OF assms(2)] show ?thesis
    using assms(1) by (cases "entry_of st t") (auto simp: emit_def listeners_def split: entry.splits)
qed

theorem emit_calls_in_order_witness:
  "exec (\<lambda>_ _ _. []) 2 (Emit ''e'' [Val 7])
     ((new_emitter 3)\<lparr>events := [(''e'', Many 0)], arrays := (\<lambda>_. ([2, 1], False)), next_array := 1\<rparr> :: nat emitter) =
   Ran ((new_emitter 3)\<lparr>events := [(''e'', Many 0)], arrays := (\<lambda>_. ([2, 1], False)), next_array := 1,
     trace := [Called 2 [Val 7], Called 1 [Val 7]]\<rparr>) (Inr True)"
  using emit_calls_in_order [of "(new_emitter 3)\<lparr>events := [(''e'', Many 0)], arrays := (\<lambda>_. ([2, 1], False)),
    next_array := 1\<rparr> :: nat emitter" "''e''" 0 "[Val 7]"]
  by (simp add: listeners_def entry_of_def new_emitter_def numeral_2_eq_2)

text \<open>
  \<open>removeAllListeners(type)\<close> throws a type error when the type has no listeners and somebody
  listens to \<open>removeListener\<close>: it reads the length of an undefined list.
\<close>

theorem removeAllListeners_undefined:
  assumes "entry_of st ''removeListener'' \<noteq> None" "entry_of st t = None"
  shows "exec body (Suc n) (RemoveAllListeners (Some t)) st = Ran st (Inl TypeError)"
  using assms by (auto simp: removeAllListeners_def removeAll_of_def)

theorem removeAllListeners_undefined_witness:
  "exec body 1 (RemoveAllListeners (Some ''e'')) ((new_emitter 1)\<lparr>events := [(''removeListener'', One 0)]\<rparr>) =
    Ran ((new_emitter 1)\<lparr>events := [(''removeListener'', One 0)]\<rparr>) (Inl TypeError)"
  using removeAllListeners_undefined [of "(new_emitter 1)\<lparr>events := [(''removeListener'', One 0)]\<rparr>" "''e''" body 0]
  by (simp add: entry_of_def new_emitter_def)

end
