(* ===== verification/Js_Async.thy ===== *)
theory Js_Async
  imports Js_Prelude
begin

text \<open>
  Deferred and guarded calls in the bundle \<open>wordcut.js\<close>: the task queue of the \<open>process\<close> shim
  (module 24), and the wrappers \<open>once\<close> and \<open>onceStrict\<close> (module 21).

  A task is run by \<open>Item.run\<close>; what it does is a parameter: the tasks it hands to \<open>nextTick\<close>, in
  order, and whether it then throws; both may depend on the tasks that ran before. The timers of
  the host are part of the state; \<open>setTimeout\<close> with delay 0 queues a call, \<open>clearTimeout\<close> removes it.
  The state also records the tasks handed in and the tasks started, for the specification.
\<close>

section \<open>The task queue\<close>

datatype timer = DrainQueue | CleanUpNextTick

record 'i ticks =
  queue :: "'i list"
  draining :: bool
  currentQueue :: "'i list option"
  queueIndex :: int
  timers :: "(nat \<times> timer) list"
  next_timer :: nat
  submitted :: "'i list"
  started :: "'i list"

definition no_ticks :: "'i ticks" where
  "no_ticks = \<lparr>queue = [], draining = False, currentQueue = None, queueIndex = -1, timers = [],
     next_timer = 0, submitted = [], started = []\<rparr>"

definition runTimeout :: "timer \<Rightarrow> 'i ticks \<Rightarrow> 'i ticks" where
  "runTimeout f st = st\<lparr>timers := timers st @ [(next_timer st, f)], next_timer := next_timer st + 1\<rparr>"

definition runClearTimeout :: "nat \<Rightarrow> 'i ticks \<Rightarrow> 'i ticks" where
  "runClearTimeout k st = st\<lparr>timers := filter (\<lambda>t. fst t \<noteq> k) (timers st)\<rparr>"

definition nextTick :: "'i \<Rightarrow> 'i ticks \<Rightarrow> 'i ticks" where
  "nextTick item st =
     (let st = st\<lparr>queue := queue st @ [item], submitted := submitted st @ [item]\<rparr> in
      if length (queue st) = 1 \<and> \<not> draining st then runTimeout DrainQueue st else st)"

type_synonym 'i task_body = "'i list \<Rightarrow> 'i \<Rightarrow> 'i list \<times> bool"

definition item_run :: "'i task_body \<Rightarrow> 'i \<Rightarrow> 'i ticks \<Rightarrow> 'i ticks" where
  "item_run body item st =
     fold nextTick (fst (body (started st) item)) (st\<lparr>started := started st @ [item]\<rparr>)"

text \<open>
  The two loops of \<open>drainQueue\<close>, entered in front of \<open>++queueIndex < len\<close> with the current queue \<open>cq\<close>
  of length \<open>len\<close> or more. One unit of fuel is used for each task and each new queue. A task
  that throws leaves the state as it is.
\<close>

fun drain_loop :: "'i task_body \<Rightarrow> nat \<Rightarrow> nat \<Rightarrow> 'i ticks \<Rightarrow> 'i ticks option" where
  "drain_loop body 0 timeout st = None"
| "drain_loop body (Suc n) timeout st =
     (let cq = (case currentQueue st of Some q \<Rightarrow> q | None \<Rightarrow> []);
          st = st\<lparr>queueIndex := queueIndex st + 1\<rparr>
      in if queueIndex st < int (length cq) then
           (let item = cq ! nat (queueIndex st); throws = snd (body (started st) item);
                st = item_run body item st
            in if throws then Some st else drain_loop body n timeout st)
         else
           (let st = st\<lparr>queueIndex := -1\<rparr> in
            if queue st \<noteq> [] then drain_loop body n timeout (st\<lparr>currentQueue := Some (queue st), queue := []\<rparr>)
            else Some (runClearTimeout timeout (st\<lparr>currentQueue := None, draining := False\<rparr>))))"

definition drainQueue :: "'i task_body \<Rightarrow> nat \<Rightarrow> 'i ticks \<Rightarrow> 'i ticks option" where
  "drainQueue body n st =
     (if draining st then Some st
      else
        let timeout = next_timer st;
            st = (runTimeout CleanUpNextTick st)\<lparr>draining := True\<rparr>
        in if queue st \<noteq> []
           then drain_loop body n timeout (st\<lparr>currentQueue := Some (queue st), queue := []\<rparr>)
           else Some (runClearTimeout timeout (st\<lparr>currentQueue := None, draining := False\<rparr>)))"

definition cleanUpNextTick :: "'i task_body \<Rightarrow> nat \<Rightarrow> 'i ticks \<Rightarrow> 'i ticks option" where
  "cleanUpNextTick body n st =
     (case currentQueue st of
        None \<Rightarrow> Some st
      | Some cq \<Rightarrow>
          if \<not> draining st then Some st
          else
            let st = st\<lparr>draining := False\<rparr>;
                st = (if cq \<noteq> [] then st\<lparr>queue := cq @ queue st\<rparr> else st\<lparr>queueIndex := -1\<rparr>)
            in if queue st \<noteq> [] then drainQueue body n st else Some st)"

text \<open>The host: a client hands in a task, or the first timer fires.\<close>

datatype 'i tick_event = Submit 'i | Fire

definition tick_step :: "'i task_body \<Rightarrow> nat \<Rightarrow> 'i tick_event \<Rightarrow> 'i ticks \<Rightarrow> 'i ticks option" where
  "tick_step body n ev st =
     (case ev of
        Submit item \<Rightarrow> Some (nextTick item st)
      | Fire \<Rightarrow>
          (case timers st of
             [] \<Rightarrow> Some st
           | (k, DrainQueue) # ts \<Rightarrow> drainQueue body n (st\<lparr>timers := ts\<rparr>)
           | (k, CleanUpNextTick) # ts \<Rightarrow> cleanUpNextTick body n (st\<lparr>timers := ts\<rparr>)))"

fun tick_run :: "'i task_body \<Rightarrow> nat \<Rightarrow> 'i tick_event list \<Rightarrow> 'i ticks \<Rightarrow> 'i ticks option" where
  "tick_run body n [] st = Some st"
| "tick_run body n (ev # evs) st = Option.bind (tick_step body n ev st) (tick_run body n evs)"

section \<open>Tasks run once, in order\<close>

text \<open>
  Between two events the queue is idle, with a timer when there is work, or a task has thrown: then
  the rest of the current queue is still to be run, and the clean-up timer is set.
\<close>

definition idle :: "'i ticks \<Rightarrow> bool" where
  "idle st \<longleftrightarrow> \<not> draining st \<and> queueIndex st = -1 \<and> currentQueue st = None \<and>
     submitted st = started st @ queue st \<and>
     (if queue st = [] then timers st = [] else \<exists>k. timers st = [(k, DrainQueue)])"

definition crashed :: "'i ticks \<Rightarrow> bool" where
  "crashed st \<longleftrightarrow> draining st \<and>
     (\<exists>cq. currentQueue st = Some cq \<and> 0 \<le> queueIndex st \<and> queueIndex st < int (length cq) \<and>
       submitted st = started st @ drop (nat (queueIndex st + 1)) cq @ queue st) \<and>
     (\<exists>k. timers st = [(k, CleanUpNextTick)])"

text \<open>Inside the loops of \<open>drainQueue\<close>.\<close>

definition busy :: "nat \<Rightarrow> 'i ticks \<Rightarrow> bool" where
  "busy timeout st \<longleftrightarrow> draining st \<and> timers st = [(timeout, CleanUpNextTick)] \<and>
     (\<exists>cq. currentQueue st = Some cq \<and> -1 \<le> queueIndex st \<and> queueIndex st < int (length cq) \<and>
       submitted st = started st @ drop (nat (queueIndex st + 1)) cq @ queue st)"

lemma fold_nextTick:
  "draining st \<Longrightarrow> fold nextTick is st = st\<lparr>queue := queue st @ is, submitted := submitted st @ is\<rparr>"
  by (induction "is" arbitrary: st) (simp_all add: nextTick_def)

lemma item_run_draining:
  assumes "draining st"
  shows "item_run body item st = (let is = fst (body (started st) item) in
    st\<lparr>started := started st @ [item], queue := queue st @ is, submitted := submitted st @ is\<rparr>)"
  using assms by (simp add: item_run_def fold_nextTick Let_def)

lemma drop_step: "0 \<le> i \<Longrightarrow> i < int (length xs) \<Longrightarrow> drop (nat i) xs = xs ! nat i # drop (nat (i + 1)) xs"
  by (simp add: Cons_nth_drop_Suc nat_add_distrib)

lemma drain_loop_inv:
  "busy timeout st \<Longrightarrow> drain_loop body n timeout st = Some st' \<Longrightarrow> idle st' \<or> crashed st'"
proof (induction n arbitrary: st)
  case (Suc n)
  from Suc.prems(1) obtain cq where cq: "draining st" "timers st = [(timeout, CleanUpNextTick)]"
    "currentQueue st = Some cq" "-1 \<le> queueIndex st" "queueIndex st < int (length cq)"
    "submitted st = started st @ drop (nat (queueIndex st + 1)) cq @ queue st"
    by (auto simp: busy_def)
  let ?i = "queueIndex st + 1"
  show ?case
  proof (cases "?i < int (length cq)")
    case True
    let ?item = "cq ! nat ?i"
    let ?is = "fst (body (started st) ?item)"
    let ?st = "st\<lparr>queueIndex := ?i, started := started st @ [?item], queue := queue st @ ?is,
      submitted := submitted st @ ?is\<rparr>"
    have run: "item_run body ?item (st\<lparr>queueIndex := ?i\<rparr>) = ?st"
      using cq(1) by (simp add: item_run_draining Let_def)
    have drop: "drop (nat ?i) cq = ?item # drop (nat (?i + 1)) cq"
      using cq(4) True by (intro drop_step) simp_all
    show ?thesis
    proof (cases "snd (body (started st) ?item)")
      case throws: True
      then have "st' = ?st" using Suc.prems(2) cq True run by (simp add: Let_def)
      moreover have "crashed ?st" using cq True drop by (simp add: crashed_def)
      ultimately show ?thesis by simp
    next
      case False
      then have "drain_loop body n timeout ?st = Some st'"
        using Suc.prems(2) cq True run by (simp add: Let_def)
      moreover have "busy timeout ?st" using cq True drop by (simp add: busy_def)
      ultimately show ?thesis using Suc.IH by blast
    qed
  next
    case False
    then have sub: "submitted st = started st @ queue st" using cq(4,5,6) by simp
    show ?thesis
    proof (cases "queue st = []")
      case True
      then have "st' = runClearTimeout timeout (st\<lparr>queueIndex := -1, currentQueue := None, draining := False\<rparr>)"
        using Suc.prems(2) cq(3) False by (simp add: Let_def)
      then have "idle st'" using True sub cq(2) by (simp add: idle_def runClearTimeout_def)
      then show ?thesis ..
    next
      case ne: False
      let ?st = "st\<lparr>queueIndex := -1, currentQueue := Some (queue st), queue := []\<rparr>"
      have "drain_loop body n timeout ?st = Some st'"
        using Suc.prems(2) cq(3) False ne by (simp add: Let_def)
      moreover have "busy timeout ?st" using cq(1,2) ne sub by (simp add: busy_def)
      ultimately show ?thesis using Suc.IH by blast
    qed
  qed
qed simp

text \<open>What \<open>drainQueue\<close> starts from, when the timer fires or after a task has thrown.\<close>

definition ready :: "'i ticks \<Rightarrow> bool" where
  "ready st \<longleftrightarrow> \<not> draining st \<and> timers st = [] \<and> queue st \<noteq> [] \<and> -1 \<le> queueIndex st \<and>
     queueIndex st < int (length (queue st)) \<and>
     submitted st = started st @ drop (nat (queueIndex st + 1)) (queue st)"

lemma ready_drainQueue:
  assumes "ready st"
  shows "\<exists>timeout st1. busy timeout st1 \<and> queue st1 = [] \<and> drainQueue body n st = drain_loop body n timeout st1 \<and>
    submitted st1 = submitted st"
proof -
  let ?st = "st\<lparr>timers := [(next_timer st, CleanUpNextTick)], next_timer := next_timer st + 1,
    draining := True, currentQueue := Some (queue st), queue := []\<rparr>"
  have "busy (next_timer st) ?st" using assms by (simp add: ready_def busy_def)
  moreover have "drainQueue body n st = drain_loop body n (next_timer st) ?st"
    using assms by (simp add: ready_def drainQueue_def runTimeout_def Let_def)
  ultimately show ?thesis
    by (intro exI [of _ "next_timer st"] exI [of _ ?st] conjI) simp_all
qed

lemma fire_cases:
  assumes "idle st \<or> crashed st"
  shows "tick_step body n Fire st = Some st \<and> timers st = [] \<and> idle st \<or>
    (\<exists>st1. ready st1 \<and> submitted st1 = submitted st \<and> tick_step body n Fire st = drainQueue body n st1)"
  using assms
proof
  assume i: "idle st"
  show ?thesis
  proof (cases "queue st = []")
    case True
    with i show ?thesis by (simp add: idle_def tick_step_def)
  next
    case False
    with i obtain k where "timers st = [(k, DrainQueue)]" by (auto simp: idle_def)
    then have "tick_step body n Fire st = drainQueue body n (st\<lparr>timers := []\<rparr>)" by (simp add: tick_step_def)
    moreover have "ready (st\<lparr>timers := []\<rparr>)" using i False by (simp add: idle_def ready_def)
    ultimately show ?thesis by (intro disjI2 exI conjI) simp_all
  qed
next
  assume c: "crashed st"
  then obtain cq k where cq: "draining st" "currentQueue st = Some cq" "0 \<le> queueIndex st"
    "queueIndex st < int (length cq)" "timers st = [(k, CleanUpNextTick)]"
    "submitted st = started st @ drop (nat (queueIndex st + 1)) cq @ queue st"
    by (auto simp: crashed_def)
  let ?st = "st\<lparr>timers := [], draining := False, queue := cq @ queue st\<rparr>"
  have "nat (queueIndex st + 1) \<le> length cq" using cq(3,4) by simp
  then have "ready ?st" using cq by (auto simp: ready_def)
  moreover have "tick_step body n Fire st = drainQueue body n ?st"
    using cq(1-5) by (auto simp: tick_step_def cleanUpNextTick_def Let_def)
  ultimately show ?thesis by (intro disjI2 exI conjI) simp_all
qed

lemma tick_step_inv:
  assumes "idle st \<or> crashed st" "tick_step body n ev st = Some st'"
  shows "idle st' \<or> crashed st'"
proof (cases ev)
  case (Submit item)
  then show ?thesis using assms
    by (auto simp: tick_step_def nextTick_def idle_def crashed_def runTimeout_def Let_def split: if_splits)
next
  case Fire
  from fire_cases [OF assms(1), of body n] show ?thesis
  proof
    assume "tick_step body n Fire st = Some st \<and> timers st = [] \<and> idle st"
    with assms(2) Fire show ?thesis by simp
  next
    assume "\<exists>st1. ready st1 \<and> submitted st1 = submitted st \<and> tick_step body n Fire st = drainQueue body n st1"
    with ready_drainQueue assms(2) Fire drain_loop_inv show ?thesis by metis
  qed
qed

lemma tick_run_inv:
  "idle st \<or> crashed st \<Longrightarrow> tick_run body n evs st = Some st' \<Longrightarrow> idle st' \<or> crashed st'"
proof (induction evs arbitrary: st)
  case (Cons ev evs)
  then obtain st1 where "tick_step body n ev st = Some st1" "tick_run body n evs st1 = Some st'"
    by (auto split: bind_splits)
  with Cons.IH tick_step_inv [OF Cons.prems(1)] show ?case by blast
qed simp

text \<open>Tasks that hand in no further tasks: the loop ends.\<close>

lemma drain_loop_returns:
  assumes "\<And>h i. fst (body h i) = []"
  shows "busy timeout st \<Longrightarrow> queue st = [] \<Longrightarrow> length (submitted st) - length (started st) < n \<Longrightarrow>
    \<exists>st'. drain_loop body n timeout st = Some st' \<and> submitted st' = submitted st"
proof (induction n arbitrary: st)
  case (Suc n)
  from Suc.prems(1) obtain cq where cq: "draining st" "timers st = [(timeout, CleanUpNextTick)]"
    "currentQueue st = Some cq" "-1 \<le> queueIndex st" "queueIndex st < int (length cq)"
    "submitted st = started st @ drop (nat (queueIndex st + 1)) cq"
    using Suc.prems(2) by (auto simp: busy_def)
  let ?i = "queueIndex st + 1"
  show ?case
  proof (cases "?i < int (length cq)")
    case True
    let ?st = "st\<lparr>queueIndex := ?i, started := started st @ [cq ! nat ?i]\<rparr>"
    have run: "item_run body (cq ! nat ?i) (st\<lparr>queueIndex := ?i\<rparr>) = ?st"
      using cq(1) assms by (simp add: item_run_def)
    have drop: "drop (nat ?i) cq = cq ! nat ?i # drop (nat (?i + 1)) cq"
      using cq(4) True by (intro drop_step) simp_all
    then have "busy timeout ?st" using cq True Suc.prems(2) by (simp add: busy_def)
    moreover have "length (submitted st) - Suc (length (started st)) < n"
      using Suc.prems(3) cq(6) drop by simp
    ultimately have "\<exists>st'. drain_loop body n timeout ?st = Some st' \<and> submitted st' = submitted st"
      using Suc.IH [of ?st] Suc.prems(2) by simp
    then show ?thesis using cq(3) True run by (simp add: Let_def)
  next
    case False
    then show ?thesis using cq(3) Suc.prems(2) by (simp add: Let_def runClearTimeout_def)
  qed
qed simp

lemma tick_run_returns:
  assumes "\<And>h i. fst (body h i) = []"
  shows "idle st \<or> crashed st \<Longrightarrow> length (submitted st) + length evs < n \<Longrightarrow>
    tick_run body n evs st \<noteq> None"
proof (induction evs arbitrary: st)
  case (Cons ev evs)
  have "\<exists>st1. tick_step body n ev st = Some st1 \<and> length (submitted st1) \<le> Suc (length (submitted st))"
  proof (cases ev)
    case (Submit item)
    then show ?thesis by (simp add: tick_step_def nextTick_def runTimeout_def Let_def)
  next
    case Fire
    from fire_cases [OF Cons.prems(1), of body n] show ?thesis
    proof
      assume "tick_step body n Fire st = Some st \<and> timers st = [] \<and> idle st"
      then show ?thesis using Fire by simp
    next
      assume "\<exists>st1. ready st1 \<and> submitted st1 = submitted st \<and> tick_step body n Fire st = drainQueue body n st1"
      then obtain st1 where st1: "ready st1" "submitted st1 = submitted st"
        "tick_step body n Fire st = drainQueue body n st1" by blast
      from ready_drainQueue [OF st1(1), of body n] obtain timeout st2 where st2: "busy timeout st2"
        "queue st2 = []" "drainQueue body n st1 = drain_loop body n timeout st2"
        "submitted st2 = submitted st1" by blast
      have "\<exists>st'. drain_loop body n timeout st2 = Some st' \<and> submitted st' = submitted st2"
        by (rule drain_loop_returns [OF assms st2(1,2)]) (use Cons.prems(2) st1 st2 in simp)
      then show ?thesis using Fire st1 st2 by force
    qed
  qed
  then obtain st1 where st1: "tick_step body n ev st = Some st1"
    "length (submitted st1) \<le> Suc (length (submitted st))" by blast
  with tick_step_inv [OF Cons.prems(1) st1(1)] Cons.IH [of st1] Cons.prems(2) show ?case by simp
qed simp

text \<open>
  C18: The task queue is first in, first out and loses nothing, even when tasks throw or hand in
  more tasks: the tasks started so far are an initial piece of the tasks handed in, and all of them
  when no timer is left. When tasks hand in no further tasks, every event is handled in finitely
  many rounds.
\<close>

theorem nextTick_fifo:
  "(\<forall>st. tick_run body n evs no_ticks = Some st \<longrightarrow>
      prefix (started st) (submitted st) \<and> (timers st = [] \<longrightarrow> started st = submitted st)) \<and>
   ((\<forall>h i. fst (body h i) = []) \<and> length evs < n \<longrightarrow> tick_run body n evs no_ticks \<noteq> None)"
proof (intro conjI allI impI)
  have start: "idle (no_ticks :: 'a ticks)" by (simp add: idle_def no_ticks_def)
  {
    fix st
    assume "tick_run body n evs no_ticks = Some st"
    with start have "idle st \<or> crashed st" using tick_run_inv by blast
    then show "prefix (started st) (submitted st)" "timers st = [] \<Longrightarrow> started st = submitted st"
      by (auto simp: idle_def crashed_def split: if_splits)
  }
  assume "(\<forall>h i. fst (body h i) = []) \<and> length evs < n"
  then show "tick_run body n evs no_ticks \<noteq> None"
    using start by (intro tick_run_returns) (auto simp: no_ticks_def)
qed

theorem nextTick_fifo_witness:
  "\<exists>st. tick_run (\<lambda>h i. ([], i = 1)) 6 [Submit 1, Submit (2::nat), Fire, Submit 3, Fire] no_ticks = Some st \<and>
     prefix (started st) (submitted st)"
  using nextTick_fifo [of "\<lambda>h i. ([], i = 1)" 6 "[Submit 1, Submit (2::nat), Fire, Submit 3, Fire]"]
  by auto

section \<open>once and onceStrict\<close>

text \<open>
  \<open>f.called\<close> and \<open>f.value\<close> of the wrapper of a function \<open>fn\<close>. The function sees the wrapper (it may
  call it again) and the rest of the state \<open>s\<close>; it returns a value or throws.
\<close>

record 'v once_state =
  called :: bool
  once_value :: "'v option"

type_synonym ('v, 's) once_fn = "'v list \<Rightarrow> 'v once_state \<times> 's \<Rightarrow> 'v result \<times> 'v once_state \<times> 's"

definition once_start :: "'v once_state" where
  "once_start = \<lparr>called = False, once_value = None\<rparr>"

definition once_call :: "('v, 's) once_fn \<Rightarrow> 'v list \<Rightarrow> 'v once_state \<times> 's
    \<Rightarrow> 'v option result \<times> 'v once_state \<times> 's" where
  "once_call fn args st =
     (let (f, s) = st in
      if called f then (Inr (once_value f), f, s)
      else case fn args (f\<lparr>called := True\<rparr>, s) of
        (Inl e, f, s) \<Rightarrow> (Inl e, f, s)
      | (Inr v, f, s) \<Rightarrow> (Inr (Some v), f\<lparr>once_value := Some v\<rparr>, s))"

definition onceStrict_call :: "('v, 's) once_fn \<Rightarrow> 'v list \<Rightarrow> 'v once_state \<times> 's
    \<Rightarrow> 'v option result \<times> 'v once_state \<times> 's" where
  "onceStrict_call fn args st =
     (let (f, s) = st in
      if called f then (Inl (ErrorObj ''shouldn't be called more than once''), f, s)
      else case fn args (f\<lparr>called := True\<rparr>, s) of
        (Inl e, f, s) \<Rightarrow> (Inl e, f, s)
      | (Inr v, f, s) \<Rightarrow> (Inr (Some v), f\<lparr>once_value := Some v\<rparr>, s))"

text \<open>After the first call, which may have thrown, the function is never called again.\<close>

lemma once_call_called:
  "called f \<Longrightarrow> once_call fn args (f, s) = (Inr (once_value f), f, s)"
  "called f \<Longrightarrow> onceStrict_call fn args (f, s) = (Inl (ErrorObj ''shouldn't be called more than once''), f, s)"
  by (simp_all add: once_call_def onceStrict_call_def)

lemma once_call_first:
  assumes "once_call fn args (f, s) = (r, f', s')" "\<And>args f s r f' s'. fn args (f, s) = (r, f', s') \<Longrightarrow> called f \<Longrightarrow> called f'"
  shows "called f' \<and> (\<forall>v. r = Inr v \<longrightarrow> called f \<or> once_value f' = v)"
  using assms(1) assms(2) [of args "f\<lparr>called := True\<rparr>" s]
  by (auto simp: once_call_def split: if_splits prod.splits sum.splits)

end
