(* ===== verification/Js_Timers.thy ===== *)
theory Js_Timers
  imports Js_Prelude
begin

text \<open>
  How the \<open>process\<close> shim of \<open>wordcut.js\<close> (module 24) reaches the timers of its host: it remembers
  \<open>setTimeout\<close> and \<open>clearTimeout\<close> when it is loaded, and looks again when they came later. What the
  shim has in place of the rest of \<open>process\<close> are constants and functions that throw.

  The task queue of \<open>Js_Async\<close> uses the timers in the normal environment, where they are never
  replaced; here they may be missing at first, be replaced at any time, and throw.
\<close>

section \<open>Timers of the host\<close>

text \<open>
  A value of a global variable: a function of the host, or another value that counts as true or
  not. The shim may also hold its own default, which throws. A variable that is not declared has
  no value.
\<close>

datatype 'f timer_value = Host_fn 'f | Default_fn | Other_value bool

datatype timer_error = Reference_error | Timer_js js_error

text \<open>How a function of the host is called: by itself, with \<open>this\<close> as \<open>null\<close>, with the \<open>this\<close> of the caller.\<close>

datatype receiver = Bare | Null_this | Caller_this

type_synonym ('f, 'r, 's) timer_host = "receiver \<Rightarrow> 'f \<Rightarrow> 's \<Rightarrow> (timer_error + 'r) \<times> 's"

fun is_true :: "'f timer_value \<Rightarrow> bool" where
  "is_true (Other_value b) = b"
| "is_true _ = True"

definition defaultSetTimeout :: timer_error where
  "defaultSetTimeout = Timer_js (ErrorObj ''setTimeout has not been defined'')"

definition defaultClearTimeout :: timer_error where
  "defaultClearTimeout = Timer_js (ErrorObj ''clearTimeout has not been defined'')"

definition cached_timer :: "'f timer_value option \<Rightarrow> 'f timer_value" where
  "cached_timer global = (case global of Some (Host_fn f) \<Rightarrow> Host_fn f | _ \<Rightarrow> Default_fn)"

fun call_timer ::
  "('f, 'r, 's) timer_host \<Rightarrow> timer_error \<Rightarrow> receiver \<Rightarrow> 'f timer_value \<Rightarrow> 's \<Rightarrow> (timer_error + 'r) \<times> 's"
where
  "call_timer host missing r (Host_fn f) s = host r f s"
| "call_timer host missing r Default_fn s = (Inl missing, s)"
| "call_timer host missing r (Other_value _) s = (Inl (Timer_js TypeError), s)"

text \<open>The call of the remembered function, tried with each receiver in turn.\<close>

definition or_else :: "(timer_error + 'r) \<times> 's \<Rightarrow> ('s \<Rightarrow> (timer_error + 'r) \<times> 's) \<Rightarrow> (timer_error + 'r) \<times> 's" where
  "or_else x f = (case fst x of Inr r \<Rightarrow> x | Inl e \<Rightarrow> f (snd x))"

definition try_timer ::
  "('f, 'r, 's) timer_host \<Rightarrow> timer_error \<Rightarrow> 'f timer_value \<Rightarrow> 's \<Rightarrow> (timer_error + 'r) \<times> 's"
where
  "try_timer host missing cached s =
     or_else (call_timer host missing Bare cached s)
       (\<lambda>s. or_else (call_timer host missing Null_this cached s)
         (\<lambda>s. call_timer host missing Caller_this cached s))"

text \<open>The three ways of a call; the second part of the result is what is remembered then.\<close>

definition run_timer ::
  "('f, 'r, 's) timer_host \<Rightarrow> timer_error \<Rightarrow> 'f timer_value option \<Rightarrow> 'f timer_value \<Rightarrow> 's
     \<Rightarrow> ((timer_error + 'r) \<times> 's) \<times> 'f timer_value"
where
  "run_timer host missing global cached s =
     (case global of
        None \<Rightarrow> ((Inl Reference_error, s), cached)
      | Some v \<Rightarrow>
          if cached = v then (call_timer host missing Bare v s, cached)
          else if (cached = Default_fn \<or> \<not> is_true cached) \<and> is_true v
          then (call_timer host missing Bare v s, v)
          else (try_timer host missing cached s, cached))"

definition runTimeout_in ::
  "('f, 'r, 's) timer_host \<Rightarrow> 'f timer_value option \<Rightarrow> 'f timer_value \<Rightarrow> 's \<Rightarrow> ((timer_error + 'r) \<times> 's) \<times> 'f timer_value"
where
  "runTimeout_in host = run_timer host defaultSetTimeout"

definition runClearTimeout_in ::
  "('f, 'r, 's) timer_host \<Rightarrow> 'f timer_value option \<Rightarrow> 'f timer_value \<Rightarrow> 's \<Rightarrow> ((timer_error + 'r) \<times> 's) \<times> 'f timer_value"
where
  "runClearTimeout_in host = run_timer host defaultClearTimeout"

section \<open>Which function is called\<close>

text \<open>Once a function of the host is remembered, it stays, whatever becomes of the variable.\<close>

fun remembered :: "('f, 'r, 's) timer_host \<Rightarrow> timer_error \<Rightarrow> 'f timer_value \<Rightarrow> 'f timer_value option list \<Rightarrow> 's \<Rightarrow> 'f timer_value" where
  "remembered host missing cached [] s = cached"
| "remembered host missing cached (g # gs) s =
     (let x = run_timer host missing g cached s in remembered host missing (snd x) gs (snd (fst x)))"

lemma run_timer_keeps: "snd (run_timer host missing g (Host_fn f) s) = Host_fn f"
  by (simp add: run_timer_def split: option.split)

lemma run_timer_waits: "snd (run_timer host missing g Default_fn s) = (case g of Some (Host_fn f) \<Rightarrow> Host_fn f | Some (Other_value True) \<Rightarrow> Other_value True | _ \<Rightarrow> Default_fn)"
  by (auto simp: run_timer_def split: option.split timer_value.split bool.split)

lemma remembered_keeps: "remembered host missing (Host_fn f) gs s = Host_fn f"
proof (induction gs arbitrary: s)
  case (Cons g gs)
  then show ?case by (simp add: Let_def run_timer_keeps)
qed simp

definition no_value :: "'f timer_value option \<Rightarrow> bool" where
  "no_value g \<longleftrightarrow> (case g of None \<Rightarrow> True | Some v \<Rightarrow> v = Default_fn \<or> \<not> is_true v)"

lemma remembered_first:
  "\<forall>g \<in> set gs. no_value g \<Longrightarrow> remembered host missing Default_fn (gs @ Some (Host_fn f) # gs') s = Host_fn f"
proof (induction gs arbitrary: s)
  case Nil
  then show ?case by (simp add: Let_def run_timer_waits remembered_keeps)
next
  case (Cons g gs)
  then have "snd (run_timer host missing g Default_fn s) = Default_fn"
    by (auto simp: run_timer_waits no_value_def split: option.split timer_value.split bool.split)
  with Cons show ?case by (simp add: Let_def)
qed

text \<open>
  The shim goes on with the first function that the variable ever had, when it was loaded or at a
  later call, however often the variable is replaced.
\<close>

theorem first_timer_stays:
  assumes "\<forall>g \<in> set gs. no_value g"
  shows "remembered host missing (cached_timer g0) (gs @ Some (Host_fn f) # gs') s =
    (case g0 of Some (Host_fn f0) \<Rightarrow> Host_fn f0 | _ \<Rightarrow> Host_fn f)"
  using remembered_first [OF assms] remembered_keeps
  by (auto simp: cached_timer_def split: option.split timer_value.split)

text \<open>A call in an environment where nothing is replaced is one call of the host.\<close>

lemma normal_timer: "run_timer host missing (Some (Host_fn f)) (cached_timer (Some (Host_fn f))) s = (host Bare f s, Host_fn f)"
  by (simp add: run_timer_def cached_timer_def)

text \<open>After a replacement the host is called again only when it threw, and at most three times.\<close>

definition counting :: "('f, 'r, 's) timer_host \<Rightarrow> ('f, 'r, 's \<times> receiver list) timer_host" where
  "counting host r f x = (case host r f (fst x) of (y, s') \<Rightarrow> (y, (s', snd x @ [r])))"

lemma replaced_timer:
  assumes "v \<noteq> Host_fn f" "run_timer (counting host) missing (Some v) (Host_fn f) (s, []) = ((y, (s', rs)), c)"
  shows "c = Host_fn f \<and> rs \<in> {[Bare], [Bare, Null_this], [Bare, Null_this, Caller_this]} \<and>
    ((\<exists>e. y = Inl e) \<longrightarrow> length rs = 3)"
  using assms
  by (auto simp: run_timer_def try_timer_def or_else_def counting_def split: sum.splits prod.splits if_splits)

text \<open>Where the variable is not declared, the comparison throws before the default can say what is missing.\<close>

lemma undeclared_timer: "fst (fst (runTimeout_in host None c s)) = Inl Reference_error"
  by (simp add: runTimeout_in_def run_timer_def)

section \<open>The rest of the shim\<close>

text \<open>The properties \<open>title\<close>, \<open>browser\<close>, \<open>version\<close>, \<open>argv\<close>, \<open>env\<close>, \<open>versions\<close>.\<close>

record process_props =
  p_title :: string
  p_browser :: bool
  p_version :: string
  p_argv :: "string list"
  p_env :: "(string \<times> string) list"
  p_versions :: "(string \<times> string) list"

definition process_shim :: process_props where
  "process_shim = \<lparr>p_title = ''browser'', p_browser = True, p_version = [], p_argv = [], p_env = [], p_versions = []\<rparr>"

text \<open>Events of the process are ignored.\<close>

definition noop :: "'s \<Rightarrow> 's" where
  "noop s = s"

definition process_listeners :: "string \<Rightarrow> 'f list" where
  "process_listeners name = []"

definition process_binding :: "string \<Rightarrow> 'a result" where
  "process_binding name = Inl (ErrorObj ''process.binding is not supported'')"

definition process_chdir :: "string \<Rightarrow> 'a result" where
  "process_chdir dir = Inl (ErrorObj ''process.chdir is not supported'')"

definition process_umask :: nat where
  "process_umask = 0"

end
