(* ===== verification/Tinyseg.thy ===== *)
theory Tinyseg
  imports Tinyseg_Tables
begin

text \<open>
  The Japanese segmenter of the documentation site's search (\<open>tinyseg.js\<close>): the character classes,
  the score of a possible boundary and the loop over the text, with the weight tables of
  \<open>Tinyseg_Tables\<close>. Indices are relative to the padded arrays of the code.
\<close>

section \<open>Model\<close>

text \<open>The character classes, tried in this order: ranges of code units and the letter of the class.\<close>

definition chartype :: "((unit16 \<times> unit16) list \<times> jstring) list" where
  "chartype =
     [(map (\<lambda>c. (c, c)) [0x4e00, 0x4e8c, 0x4e09, 0x56db, 0x4e94, 0x516d, 0x4e03, 0x516b, 0x4e5d, 0x5341,
        0x767e, 0x5343, 0x4e07, 0x5104, 0x5146], js ''M''),
      ([(0x4e00, 0x9fa0), (0x3005, 0x3005), (0x3006, 0x3006), (0x30f5, 0x30f5), (0x30f6, 0x30f6)], js ''H''),
      ([(0x3041, 0x3093)], js ''I''),
      ([(0x30a1, 0x30f4), (0x30fc, 0x30fc), (0xff71, 0xff9d), (0xff9e, 0xff9e), (0xff70, 0xff70)], js ''K''),
      ([(0x61, 0x7a), (0x41, 0x5a), (0xff41, 0xff5a), (0xff21, 0xff3a)], js ''A''),
      ([(0x30, 0x39), (0xff10, 0xff19)], js ''N'')]"

definition class_test :: "(unit16 \<times> unit16) list \<Rightarrow> jstring \<Rightarrow> bool" where
  "class_test rs str \<longleftrightarrow> list_ex (\<lambda>c. list_ex (\<lambda>(a, b). a \<le> c \<and> c \<le> b) rs) str"

definition ctype :: "jstring \<Rightarrow> jstring" where
  "ctype str = (case find (\<lambda>(rs, t). class_test rs str) chartype of Some (rs, t) \<Rightarrow> t | None \<Rightarrow> js ''O'')"

text \<open>\<open>ts_(T[k])\<close>: the weight of a key, 0 for an absent one.\<close>

definition ts :: "int option \<Rightarrow> int" where
  "ts v = (case v of Some x \<Rightarrow> x | None \<Rightarrow> 0)"

abbreviation weight :: "table \<Rightarrow> jstring \<Rightarrow> int" where
  "weight T k \<equiv> ts (map_of T k)"

definition BIAS :: int where "BIAS = -332"

text \<open>The score of a boundary in front of \<open>seg[i]\<close>.\<close>

definition score :: "jstring list \<Rightarrow> jstring list \<Rightarrow> nat \<Rightarrow> jstring \<Rightarrow> jstring \<Rightarrow> jstring \<Rightarrow> int" where
  "score seg ctypes i p1 p2 p3 =
     (let w1 = seg ! (i - 3); w2 = seg ! (i - 2); w3 = seg ! (i - 1); w4 = seg ! i;
          w5 = seg ! (i + 1); w6 = seg ! (i + 2);
          c1 = ctypes ! (i - 3); c2 = ctypes ! (i - 2); c3 = ctypes ! (i - 1); c4 = ctypes ! i;
          c5 = ctypes ! (i + 1); c6 = ctypes ! (i + 2)
      in BIAS
       + weight UP1 p1 + weight UP2 p2 + weight UP3 p3
       + weight BP1 (p1 @ p2) + weight BP2 (p2 @ p3)
       + weight UW1 w1 + weight UW2 w2 + weight UW3 w3 + weight UW4 w4 + weight UW5 w5 + weight UW6 w6
       + weight BW1 (w2 @ w3) + weight BW2 (w3 @ w4) + weight BW3 (w4 @ w5)
       + weight TW1 (w1 @ w2 @ w3) + weight TW2 (w2 @ w3 @ w4) + weight TW3 (w3 @ w4 @ w5)
       + weight TW4 (w4 @ w5 @ w6)
       + weight UC1 c1 + weight UC2 c2 + weight UC3 c3 + weight UC4 c4 + weight UC5 c5 + weight UC6 c6
       + weight BC1 (c2 @ c3) + weight BC2 (c3 @ c4) + weight BC3 (c4 @ c5)
       + weight TC1 (c1 @ c2 @ c3) + weight TC2 (c2 @ c3 @ c4) + weight TC3 (c3 @ c4 @ c5)
       + weight TC4 (c4 @ c5 @ c6)
       + weight UQ1 (p1 @ c1) + weight UQ2 (p2 @ c2) + weight UQ3 (p3 @ c3)
       + weight BQ1 (p2 @ c2 @ c3) + weight BQ2 (p2 @ c3 @ c4) + weight BQ3 (p3 @ c2 @ c3)
       + weight BQ4 (p3 @ c3 @ c4)
       + weight TQ1 (p2 @ c1 @ c2 @ c3) + weight TQ2 (p2 @ c2 @ c3 @ c4)
       + weight TQ3 (p3 @ c1 @ c2 @ c3) + weight TQ4 (p3 @ c2 @ c3 @ c4))"

text \<open>The loop from index \<open>i\<close>, with \<open>n\<close> rounds left; the last \<open>word\<close> is pushed behind the loop.\<close>

primrec segment_loop :: "nat \<Rightarrow> jstring list \<Rightarrow> jstring list \<Rightarrow> nat \<Rightarrow> jstring \<Rightarrow> jstring \<Rightarrow> jstring
    \<Rightarrow> jstring \<Rightarrow> jstring list \<Rightarrow> jstring list" where
  "segment_loop 0 seg ctypes i p1 p2 p3 word result = result @ [word]"
| "segment_loop (Suc n) seg ctypes i p1 p2 p3 word result =
     (if 0 < score seg ctypes i p1 p2 p3
      then segment_loop n seg ctypes (i + 1) p2 p3 (js ''B'') (seg ! i) (result @ [word])
      else segment_loop n seg ctypes (i + 1) p2 p3 (js ''O'') (word @ seg ! i) result)"

definition segment :: "jstring \<Rightarrow> jstring list" where
  "segment input =
     (if input = [] then []
      else
        let o' = map (\<lambda>c. [c]) input;
            seg = [js ''B3'', js ''B2'', js ''B1''] @ o' @ [js ''E1'', js ''E2'', js ''E3''];
            ctypes = [js ''O'', js ''O'', js ''O''] @ map ctype o' @ [js ''O'', js ''O'', js ''O'']
        in segment_loop (length seg - 3 - 4) seg ctypes 4 (js ''U'') (js ''U'') (js ''U'') (seg ! 3) [])"

section \<open>The pieces of the text\<close>

lemma segment_loop_pieces:
  assumes "i + n \<le> length seg" "word \<noteq> []" "[] \<notin> set result"
    and "\<And>k. i \<le> k \<Longrightarrow> k < i + n \<Longrightarrow> seg ! k \<noteq> []"
  shows "concat (segment_loop n seg ctypes i p1 p2 p3 word result) =
      concat result @ word @ concat (take n (drop i seg)) \<and>
    [] \<notin> set (segment_loop n seg ctypes i p1 p2 p3 word result)"
  using assms
proof (induction n arbitrary: i p1 p2 p3 word result)
  case (Suc n)
  have "take (Suc n) (drop i seg) = seg ! i # take n (drop (Suc i) seg)"
    using Suc.prems(1) by (metis Cons_nth_drop_Suc add_Suc_right less_add_Suc1 less_le_trans take_Suc_Cons)
  moreover have "seg ! i \<noteq> []" using Suc.prems(4) [of i] by simp
  ultimately show ?case
    using Suc.IH [of "i + 1" "seg ! i" "result @ [word]" p2 p3 "js ''B''"]
      Suc.IH [of "i + 1" "word @ seg ! i" result p2 p3 "js ''O''"] Suc.prems by simp
qed simp

text \<open>
  C19: Segmentation cuts and never changes the text: the segments of a text are non-empty and put
  together they are the text; only the empty text has none.
\<close>

theorem segment_pieces:
  "concat (segment input) = input \<and> [] \<notin> set (segment input) \<and> (segment input = [] \<longleftrightarrow> input = [])"
proof (cases input)
  case Nil
  then show ?thesis by (simp add: segment_def)
next
  case (Cons c cs)
  let ?seg = "[js ''B3'', js ''B2'', js ''B1''] @ map (\<lambda>c. [c]) input @ [js ''E1'', js ''E2'', js ''E3'']"
  let ?ct = "[js ''O'', js ''O'', js ''O''] @ map ctype (map (\<lambda>c. [c]) input) @ [js ''O'', js ''O'', js ''O'']"
  let ?r = "segment_loop (length cs) ?seg ?ct 4 (js ''U'') (js ''U'') (js ''U'') [c] []"
  have eq: "segment input = ?r"
    unfolding segment_def Let_def using Cons by (simp add: numeral_3_eq_3)
  have nth: "?seg ! k = [cs ! (k - 4)]" if "4 \<le> k" "k < 4 + length cs" for k
  proof -
    have j: "k = 4 + (k - 4)" "k - 4 < length cs" using that by auto
    have "?seg ! (4 + (k - 4)) = [cs ! (k - 4)]"
      using Cons j(2) by (simp add: nth_append eval_nat_numeral)
    with j(1) show ?thesis by metis
  qed
  have drop: "take (length cs) (drop 4 ?seg) = map (\<lambda>c. [c]) cs"
    using Cons by (simp add: eval_nat_numeral)
  have "concat ?r = concat [] @ [c] @ concat (take (length cs) (drop 4 ?seg)) \<and> [] \<notin> set ?r"
    using Cons nth by (intro segment_loop_pieces) auto
  then have "concat ?r = input \<and> [] \<notin> set ?r" unfolding drop using Cons by simp
  moreover from this have "?r \<noteq> []" using Cons by force
  ultimately show ?thesis unfolding eq using Cons by simp
qed

end
