(* ===== verification/Js_Values.thy ===== *)
theory Js_Values
  imports Js_Objects
begin

text \<open>
  Values of the language as the collection library of \<open>wordcut.js\<close> (module 25) sees them:
  numbers with \<open>NaN\<close>, the infinities and the negative zero, references with an identity, property
  reads, strict equality, truth values, and calls of functions that change a state and may throw.

  A value is a snapshot: an array or an object carries its identity and its contents. Object graphs
  without cycles are such values; what a callback does to the collection that is being iterated is
  outside of the model. The finite numbers are the integers, small enough for exact arithmetic.
\<close>

section \<open>Values\<close>

datatype number = NaN | PosInf | NegInf | NegZero | Num int

text \<open>
  \<open>Object i c own inherited\<close>: the identity, the function that its prototype names as
  \<open>constructor\<close> (none for an object without prototype), its own enumerable properties in the order
  of their creation, and the enumerable properties of its prototypes. \<open>Function i n\<close> is the function
  \<open>i\<close> with \<open>n\<close> parameters.
\<close>

datatype jsval =
    Undefined
  | Null
  | Boolean bool
  | Number number
  | String jstring
  | Array nat "jsval list"
  | Arguments nat "jsval list"
  | Object nat "nat option" "(jstring \<times> jsval) list" "(jstring \<times> jsval) list"
  | Function nat nat
  | RegExp nat jstring
  | Date nat number

abbreviation int_val :: "int \<Rightarrow> jsval" where
  "int_val i \<equiv> Number (Num i)"

abbreviation index_val :: "nat \<Rightarrow> jsval" where
  "index_val i \<equiv> int_val (int i)"

text \<open>\<open>x == null\<close>, \<open>typeof\<close>, and the truth value of a value.\<close>

definition is_nil :: "jsval \<Rightarrow> bool" where
  "is_nil v \<longleftrightarrow> v = Undefined \<or> v = Null"

fun truthy :: "jsval \<Rightarrow> bool" where
  "truthy Undefined = False"
| "truthy Null = False"
| "truthy (Boolean b) = b"
| "truthy (Number x) = (x \<noteq> NaN \<and> x \<noteq> NegZero \<and> x \<noteq> Num 0)"
| "truthy (String s) = (s \<noteq> [])"
| "truthy _ = True"

fun typeof :: "jsval \<Rightarrow> string" where
  "typeof Undefined = ''undefined''"
| "typeof (Boolean _) = ''boolean''"
| "typeof (Number _) = ''number''"
| "typeof (String _) = ''string''"
| "typeof (Function _ _) = ''function''"
| "typeof _ = ''object''"

text \<open>\<open>Object.prototype.toString\<close>, without the brackets.\<close>

fun class_name :: "jsval \<Rightarrow> string" where
  "class_name Undefined = ''Undefined''"
| "class_name Null = ''Null''"
| "class_name (Boolean _) = ''Boolean''"
| "class_name (Number _) = ''Number''"
| "class_name (String _) = ''String''"
| "class_name (Array _ _) = ''Array''"
| "class_name (Arguments _ _) = ''Arguments''"
| "class_name (Object _ _ _ _) = ''Object''"
| "class_name (Function _ _) = ''Function''"
| "class_name (RegExp _ _) = ''RegExp''"
| "class_name (Date _ _) = ''Date''"

section \<open>Comparisons\<close>

definition num_eq :: "number \<Rightarrow> number \<Rightarrow> bool" where
  "num_eq x y \<longleftrightarrow> x \<noteq> NaN \<and> (if x = NegZero then Num 0 else x) = (if y = NegZero then Num 0 else y)"

text \<open>\<open>a === b\<close>: primitive values by value, references by identity.\<close>

fun strict_eq :: "jsval \<Rightarrow> jsval \<Rightarrow> bool" where
  "strict_eq Undefined b = (b = Undefined)"
| "strict_eq Null b = (b = Null)"
| "strict_eq (Boolean x) b = (b = Boolean x)"
| "strict_eq (Number x) b = (case b of Number y \<Rightarrow> num_eq x y | _ \<Rightarrow> False)"
| "strict_eq (String s) b = (b = String s)"
| "strict_eq (Array i _) b = (case b of Array j _ \<Rightarrow> i = j | _ \<Rightarrow> False)"
| "strict_eq (Arguments i _) b = (case b of Arguments j _ \<Rightarrow> i = j | _ \<Rightarrow> False)"
| "strict_eq (Object i _ _ _) b = (case b of Object j _ _ _ \<Rightarrow> i = j | _ \<Rightarrow> False)"
| "strict_eq (Function i _) b = (case b of Function j _ \<Rightarrow> i = j | _ \<Rightarrow> False)"
| "strict_eq (RegExp i _) b = (case b of RegExp j _ \<Rightarrow> i = j | _ \<Rightarrow> False)"
| "strict_eq (Date i _) b = (case b of Date j _ \<Rightarrow> i = j | _ \<Rightarrow> False)"

fun num_less :: "number \<Rightarrow> number \<Rightarrow> bool" where
  "num_less NaN _ = False"
| "num_less _ NaN = False"
| "num_less PosInf _ = False"
| "num_less NegInf y = (y \<noteq> NegInf)"
| "num_less _ PosInf = True"
| "num_less _ NegInf = False"
| "num_less NegZero NegZero = False"
| "num_less NegZero (Num j) = (0 < j)"
| "num_less (Num i) NegZero = (i < 0)"
| "num_less (Num i) (Num j) = (i < j)"

lemma num_eq_sym: "num_eq x y \<Longrightarrow> num_eq y x"
  by (auto simp: num_eq_def split: if_splits)

lemma num_eq_trans: "num_eq x y \<Longrightarrow> num_eq y z \<Longrightarrow> num_eq x z"
  by (auto simp: num_eq_def)

lemma strict_eq_sym: "strict_eq a b \<Longrightarrow> strict_eq b a"
  by (cases a) (auto dest: num_eq_sym split: jsval.splits)

lemma strict_eq_trans: "strict_eq a b \<Longrightarrow> strict_eq b c \<Longrightarrow> strict_eq a c"
  by (cases a) (auto dest: num_eq_trans split: jsval.splits)

lemma strict_eq_refl: "strict_eq v v \<longleftrightarrow> v \<noteq> Number NaN"
  by (cases v) (auto simp: num_eq_def)

text \<open>\<open>NaN\<close> is the value that differs from itself.\<close>

definition is_nan :: "jsval \<Rightarrow> bool" where
  "is_nan v \<longleftrightarrow> \<not> strict_eq v v"

lemma is_nan_iff [simp]: "is_nan v \<longleftrightarrow> v = Number NaN"
  by (simp add: is_nan_def strict_eq_refl)

lemma num_less_irrefl [simp]: "\<not> num_less x x"
  by (cases x) auto

lemma num_less_trans: "num_less x y \<Longrightarrow> num_less y z \<Longrightarrow> num_less x z"
  by (cases x; cases y; cases z) auto

lemma num_less_total: "x \<noteq> NaN \<Longrightarrow> y \<noteq> NaN \<Longrightarrow> num_less x y \<or> num_eq x y \<or> num_less y x"
  by (cases x; cases y) (auto simp: num_eq_def)

section \<open>Programs\<close>

text \<open>
  A call of a function reads and changes a state and returns a value or throws one; \<open>Engine e\<close> is
  an error that the language raises.
\<close>

datatype thrown = Throw jsval | Engine js_error

type_synonym ('s, 'a) prog = "'s \<Rightarrow> (thrown + 'a) \<times> 's"

definition yields :: "'a \<Rightarrow> ('s, 'a) prog" where
  "yields x s = (Inr x, s)"

definition raises :: "thrown \<Rightarrow> ('s, 'a) prog" where
  "raises e s = (Inl e, s)"

definition and_do :: "('s, 'a) prog \<Rightarrow> ('a \<Rightarrow> ('s, 'b) prog) \<Rightarrow> ('s, 'b) prog" where
  "and_do m f s = (case m s of (Inl e, s') \<Rightarrow> (Inl e, s') | (Inr x, s') \<Rightarrow> f x s')"

lemma and_do_yields [simp]: "and_do (yields x) f = f x"
  by (simp add: and_do_def yields_def fun_eq_iff)

lemma and_do_raises [simp]: "and_do (raises e) f = raises e"
  by (simp add: and_do_def raises_def fun_eq_iff)

lemma yields_and_do [simp]: "and_do m yields = m"
  by (auto simp: and_do_def yields_def fun_eq_iff split: prod.splits sum.splits)

lemma and_do_assoc: "and_do (and_do m f) g = and_do m (\<lambda>x. and_do (f x) g)"
  by (auto simp: and_do_def fun_eq_iff split: prod.splits sum.splits)

lemma and_do_cong [fundef_cong]:
  "m = m' \<Longrightarrow> (\<And>x. f x = f' x) \<Longrightarrow> and_do m f = and_do m' f'"
  by (simp add: ext [of f f'])

lemma yields_inject [simp]: "yields x = yields y \<longleftrightarrow> x = y"
  by (auto simp: yields_def fun_eq_iff)

text \<open>The calls of a loop, in order; the first exception ends it.\<close>

fun run_each :: "('a \<Rightarrow> ('s, 'b) prog) \<Rightarrow> 'a list \<Rightarrow> ('s, unit) prog" where
  "run_each f [] = yields ()"
| "run_each f (x # xs) = and_do (f x) (\<lambda>_. run_each f xs)"

fun run_map :: "('a \<Rightarrow> ('s, 'b) prog) \<Rightarrow> 'a list \<Rightarrow> ('s, 'b list) prog" where
  "run_map f [] = yields []"
| "run_map f (x # xs) = and_do (f x) (\<lambda>y. and_do (run_map f xs) (\<lambda>ys. yields (y # ys)))"

fun run_fold :: "('a \<Rightarrow> 'b \<Rightarrow> ('s, 'b) prog) \<Rightarrow> 'a list \<Rightarrow> 'b \<Rightarrow> ('s, 'b) prog" where
  "run_fold f [] acc = yields acc"
| "run_fold f (x # xs) acc = and_do (f x acc) (run_fold f xs)"

lemma run_fold_Nil [simp]: "run_fold f [] = yields"
  by (rule ext) simp

lemma run_map_yields: "(\<And>x. x \<in> set xs \<Longrightarrow> f x = yields (g x)) \<Longrightarrow> run_map f xs = yields (map g xs)"
  by (induction xs) auto

lemma run_fold_yields:
  "(\<And>x acc. x \<in> set xs \<Longrightarrow> f x acc = yields (g x acc)) \<Longrightarrow> run_fold f xs acc = yields (fold g xs acc)"
  by (induction xs arbitrary: acc) auto

lemma run_fold_append: "run_fold f (xs @ ys) acc = and_do (run_fold f xs acc) (run_fold f ys)"
proof (induction xs arbitrary: acc)
  case (Cons x xs)
  have "run_fold f (xs @ ys) = (\<lambda>acc. and_do (run_fold f xs acc) (run_fold f ys))"
    by (rule ext) (rule Cons.IH)
  then show ?case by (simp add: and_do_assoc)
qed simp

text \<open>
  What the library needs of its surroundings: a call of the function \<open>i\<close> with a \<open>this\<close> value and
  arguments; the conversion of strings and objects to numbers, and of objects to strings (which run
  methods of the objects); and the generator of random numbers, which returns a number of
  \<open>2 ^ 53\<close>-ths.
\<close>

record 's world =
  call :: "nat \<Rightarrow> jsval \<Rightarrow> jsval list \<Rightarrow> ('s, jsval) prog"
  number_of :: "jsval \<Rightarrow> number"
  text_of :: "jsval \<Rightarrow> jstring"
  math_random :: "('s, nat) prog"

text \<open>A call of a value: a type error when it is no function.\<close>

definition apply_val :: "'s world \<Rightarrow> jsval \<Rightarrow> jsval \<Rightarrow> jsval list \<Rightarrow> ('s, jsval) prog" where
  "apply_val w f this args = (case f of Function i _ \<Rightarrow> call w i this args | _ \<Rightarrow> raises (Engine TypeError))"

section \<open>Conversions and order\<close>

fun to_number :: "'s world \<Rightarrow> jsval \<Rightarrow> number" where
  "to_number w Undefined = NaN"
| "to_number w Null = Num 0"
| "to_number w (Boolean b) = Num (if b then 1 else 0)"
| "to_number w (Number x) = x"
| "to_number w (Date _ x) = x"
| "to_number w v = number_of w v"

fun string_of_number :: "number \<Rightarrow> jstring" where
  "string_of_number NaN = js ''NaN''"
| "string_of_number PosInf = js ''Infinity''"
| "string_of_number NegInf = js ''-Infinity''"
| "string_of_number NegZero = js ''0''"
| "string_of_number (Num i) = string_of_int i"

fun to_text :: "'s world \<Rightarrow> jsval \<Rightarrow> jstring" where
  "to_text w Undefined = js ''undefined''"
| "to_text w Null = js ''null''"
| "to_text w (Boolean b) = js (if b then ''true'' else ''false'')"
| "to_text w (Number x) = string_of_number x"
| "to_text w (String s) = s"
| "to_text w (RegExp _ s) = s"
| "to_text w v = text_of w v"

text \<open>\<open>a < b\<close>.\<close>

definition less_val :: "'s world \<Rightarrow> jsval \<Rightarrow> jsval \<Rightarrow> bool" where
  "less_val w a b =
     (case (a, b) of
        (String s, String t) \<Rightarrow> s < t
      | _ \<Rightarrow> num_less (to_number w a) (to_number w b))"

lemma less_val_irrefl [simp]: "\<not> less_val w v v"
  by (cases v) (auto simp: less_val_def)

section \<open>Properties\<close>

text \<open>
  The value of a property, on a value that is not \<open>undefined\<close> or \<open>null\<close>. The methods that a value
  inherits from a built-in prototype are not properties of the model, apart from \<open>constructor\<close>.
\<close>

definition prop_of :: "(jstring \<times> jsval) list \<Rightarrow> jstring \<Rightarrow> jsval" where
  "prop_of ps k = (case map_of ps k of None \<Rightarrow> Undefined | Some v \<Rightarrow> v)"

definition nth_val :: "jsval list \<Rightarrow> nat \<Rightarrow> jsval" where
  "nth_val xs i = (if i < length xs then xs ! i else Undefined)"

definition list_prop :: "jsval list \<Rightarrow> jstring \<Rightarrow> jsval" where
  "list_prop xs k =
     (if k = js ''length'' then index_val (length xs)
      else if is_array_index k then nth_val xs (nat (int_of_string k)) else Undefined)"

fun get :: "jsval \<Rightarrow> jstring \<Rightarrow> jsval" where
  "get (String s) k = list_prop (map (\<lambda>c. String [c]) s) k"
| "get (Array _ xs) k = list_prop xs k"
| "get (Arguments _ xs) k = list_prop xs k"
| "get (Object _ c own inherited) k =
     (case map_of own k of
        Some v \<Rightarrow> v
      | None \<Rightarrow>
          (case map_of inherited k of
             Some v \<Rightarrow> v
           | None \<Rightarrow>
               (case c of Some i \<Rightarrow> if k = js ''constructor'' then Function i 0 else Undefined | None \<Rightarrow> Undefined)))"
| "get (Function _ n) k = (if k = js ''length'' then index_val n else Undefined)"
| "get _ k = Undefined"

text \<open>\<open>obj[i]\<close> for an index.\<close>

fun get_index :: "jsval \<Rightarrow> nat \<Rightarrow> jsval" where
  "get_index (String s) i = (if i < length s then String [s ! i] else Undefined)"
| "get_index (Array _ xs) i = nth_val xs i"
| "get_index (Arguments _ xs) i = nth_val xs i"
| "get_index v i = get v (string_of_int (int i))"

lemma is_array_index_int: "int i < 2 ^ 32 - 1 \<Longrightarrow> is_array_index (string_of_int (int i))"
proof -
  assume i: "int i < 2 ^ 32 - 1"
  have 1: "list_all is_digit (string_of_int (int i))"
    using digit_unit_digit digits_less by (auto simp: string_of_int_def list_all_iff)
  have 2: "hd (string_of_int (int i)) = 48 \<Longrightarrow> length (string_of_int (int i)) = 1"
  proof (cases "i = 0")
    case False
    assume z: "hd (string_of_int (int i)) = 48"
    have d: "hd (digits i) \<noteq> 0" using False by (simp add: digits_hd)
    have "hd (string_of_int (int i)) = digit_unit (hd (digits i))"
      by (simp add: string_of_int_def hd_map)
    with z have "unat (digit_unit (hd (digits i)) - 48) = 0" by simp
    moreover have "hd (digits i) < 10" by (rule digits_less [OF hd_in_set]) simp
    ultimately show ?thesis using d digit_unit_digit by metis
  qed (simp add: string_of_int_def)
  show ?thesis
    using 1 2 i int_of_string_of_int [of "int i"]
    by (auto simp: is_array_index_def string_of_int_def)
qed

lemma length_not_int: "string_of_int i \<noteq> js ''length''"
proof
  assume "string_of_int i = js ''length''"
  then have "(108 :: unit16) \<in> set (string_of_int i)" by (simp add: js_def)
  from string_of_int_units [OF this] show False by (simp add: is_digit_def)
qed

lemma get_index_eq:
  "int i < 2 ^ 32 - 1 \<Longrightarrow> get v (string_of_int (int i)) = get_index v i"
  using is_array_index_int [of i] int_of_string_of_int [of "int i"] length_not_int [of "int i"]
  by (cases v) (auto simp: list_prop_def nth_val_def)

text \<open>\<open>v[k]\<close>: a type error on \<open>undefined\<close> and \<open>null\<close>.\<close>

definition read_prop :: "jsval \<Rightarrow> jstring \<Rightarrow> ('s, jsval) prog" where
  "read_prop v k = (if is_nil v then raises (Engine TypeError) else yields (get v k))"

text \<open>
  \<open>obj[k] = v\<close> on the own properties: an existing key keeps its place. Keys are other than
  \<open>__proto__\<close>, which would set the prototype of the object.
\<close>

fun put :: "'k \<Rightarrow> 'v \<Rightarrow> ('k \<times> 'v) list \<Rightarrow> ('k \<times> 'v) list" where
  "put k v [] = [(k, v)]"
| "put k v (p # ps) = (if fst p = k then (k, v) # ps else p # put k v ps)"

lemma map_of_put [simp]: "map_of (put k v ps) = (map_of ps)(k \<mapsto> v)"
  by (induction ps) auto

lemma keys_put: "map fst (put k v ps) = (if k \<in> fst ` set ps then map fst ps else map fst ps @ [k])"
  by (induction ps) auto

lemma distinct_put [simp]: "distinct (map fst (put k v ps)) = distinct (map fst ps)"
  by (simp add: keys_put)

lemma set_put_subset: "set (put k v ps) \<subseteq> insert (k, v) (set ps)"
  by (induction ps) auto

end
