(* ===== verification/Underscore_Base.thy ===== *)
theory Underscore_Base
  imports Js_Values
begin

text \<open>
  The collection library of \<open>wordcut.js\<close> (module 25), first part: the helpers behind every function
  of the library (callbacks, iteratees, property getters, the test for array-like values) and the
  functions on objects that these helpers call (\<open>keys\<close>, \<open>has\<close>, \<open>extendOwn\<close>, \<open>isMatch\<close>,
  \<open>matcher\<close>).

  A new array or object that a function returns is the list of its elements or of its properties;
  an array that the caller passes keeps its identity.
\<close>

type_synonym 's fn = "jsval \<Rightarrow> jsval list \<Rightarrow> ('s, jsval) prog"

text \<open>The argument at a position, and the arguments that a function with \<open>n\<close> parameters hands on.\<close>

definition arg :: "jsval list \<Rightarrow> nat \<Rightarrow> jsval" where
  "arg args i = nth_val args i"

definition first_args :: "nat \<Rightarrow> jsval list \<Rightarrow> jsval list" where
  "first_args n args = map (arg args) [0..<n]"

section \<open>Kinds of values\<close>

definition isObject :: "jsval \<Rightarrow> bool" where
  "isObject obj \<longleftrightarrow> typeof obj = ''function'' \<or> typeof obj = ''object'' \<and> truthy obj"

definition isArray :: "jsval \<Rightarrow> bool" where
  "isArray obj \<longleftrightarrow> (case obj of Array _ _ \<Rightarrow> True | _ \<Rightarrow> False)"

text \<open>\<open>isArguments\<close>, \<open>isFunction\<close>, \<open>isString\<close>, \<open>isNumber\<close>, \<open>isDate\<close>, \<open>isRegExp\<close>, \<open>isError\<close>.\<close>

definition is_class :: "string \<Rightarrow> jsval \<Rightarrow> bool" where
  "is_class name obj \<longleftrightarrow> class_name obj = name"

abbreviation isArguments :: "jsval \<Rightarrow> bool" where
  "isArguments \<equiv> is_class ''Arguments''"

abbreviation isString :: "jsval \<Rightarrow> bool" where
  "isString \<equiv> is_class ''String''"

abbreviation isNumber :: "jsval \<Rightarrow> bool" where
  "isNumber \<equiv> is_class ''Number''"

definition isFunction :: "jsval \<Rightarrow> bool" where
  "isFunction obj \<longleftrightarrow> typeof obj = ''function''"

definition isNaN :: "jsval \<Rightarrow> bool" where
  "isNaN obj \<longleftrightarrow> isNumber obj \<and> \<not> strict_eq obj obj"

definition isBoolean :: "jsval \<Rightarrow> bool" where
  "isBoolean obj \<longleftrightarrow>
     strict_eq obj (Boolean True) \<or> strict_eq obj (Boolean False) \<or> class_name obj = ''Boolean''"

definition isNull :: "jsval \<Rightarrow> bool" where
  "isNull obj \<longleftrightarrow> strict_eq obj Null"

definition isUndefined :: "jsval \<Rightarrow> bool" where
  "isUndefined obj \<longleftrightarrow> strict_eq obj Undefined"

lemma isNaN_iff [simp]: "isNaN v \<longleftrightarrow> v = Number NaN"
  by (auto simp: isNaN_def is_class_def strict_eq_refl)

lemma isBoolean_iff [simp]: "isBoolean v \<longleftrightarrow> (\<exists>b. v = Boolean b)"
  by (cases v) (auto simp: isBoolean_def)

section \<open>Properties\<close>

definition property :: "'s world \<Rightarrow> jsval \<Rightarrow> jsval \<Rightarrow> jsval" where
  "property w key obj = (if is_nil obj then Undefined else get obj (to_text w key))"

definition getLength :: "jsval \<Rightarrow> jsval" where
  "getLength obj = (if is_nil obj then Undefined else get obj (js ''length''))"

text \<open>
  The length of a string, of an array or of an arguments object is below \<open>2 ^ 53\<close> by the language;
  the test decides on the other values.
\<close>

definition isArrayLike :: "jsval \<Rightarrow> bool" where
  "isArrayLike collection \<longleftrightarrow>
     (case collection of
        String _ \<Rightarrow> True
      | Array _ _ \<Rightarrow> True
      | Arguments _ _ \<Rightarrow> True
      | _ \<Rightarrow> (case getLength collection of
              Number NegZero \<Rightarrow> True
            | Number (Num n) \<Rightarrow> 0 \<le> n \<and> n \<le> 2 ^ 53 - 1
            | _ \<Rightarrow> False))"

text \<open>The bound of a loop \<open>for (i = 0, length = obj.length; i < length; i++)\<close>, and what it reads.\<close>

definition length_of :: "jsval \<Rightarrow> nat" where
  "length_of obj = (case getLength obj of Number (Num n) \<Rightarrow> nat n | _ \<Rightarrow> 0)"

definition elems :: "jsval \<Rightarrow> jsval list" where
  "elems obj = map (get_index obj) [0..<length_of obj]"

lemma length_of_Array [simp]: "length_of (Array i xs) = length xs" "length_of (Arguments i xs) = length xs"
  by (simp_all add: length_of_def getLength_def is_nil_def list_prop_def)

lemma elems_Array [simp]: "elems (Array i xs) = xs" "elems (Arguments i xs) = xs"
  by (auto simp: elems_def nth_val_def intro: nth_equalityI)

lemma length_elems [simp]: "length (elems obj) = length_of obj"
  by (simp add: elems_def)

lemma elems_nil [simp]: "is_nil obj \<Longrightarrow> elems obj = []"
  by (auto simp: elems_def length_of_def getLength_def)

text \<open>Own enumerable keys, all enumerable keys, and the two tests for a key.\<close>

fun own_keys :: "jsval \<Rightarrow> jstring list" where
  "own_keys (Array _ xs) = map (\<lambda>i. string_of_int (int i)) [0..<length xs]"
| "own_keys (Arguments _ xs) = map (\<lambda>i. string_of_int (int i)) [0..<length xs]"
| "own_keys (Object _ _ own _) = object_keys (map fst own)"
| "own_keys _ = []"

definition keys :: "jsval \<Rightarrow> jstring list" where
  "keys obj = (if \<not> isObject obj then [] else own_keys obj)"

fun inherited_keys :: "jsval \<Rightarrow> jstring list" where
  "inherited_keys (Object _ _ own inherited) =
     filter (\<lambda>k. k \<notin> fst ` set own) (object_keys (map fst inherited))"
| "inherited_keys _ = []"

definition allKeys :: "jsval \<Rightarrow> jstring list" where
  "allKeys obj = (if \<not> isObject obj then [] else own_keys obj @ inherited_keys obj)"

fun has_own :: "jsval \<Rightarrow> jstring \<Rightarrow> bool" where
  "has_own (String s) key \<longleftrightarrow> key = js ''length'' \<or> is_array_index key \<and> nat (int_of_string key) < length s"
| "has_own (Array _ xs) key \<longleftrightarrow> key = js ''length'' \<or> is_array_index key \<and> nat (int_of_string key) < length xs"
| "has_own (Arguments _ xs) key \<longleftrightarrow> key = js ''length'' \<or> is_array_index key \<and> nat (int_of_string key) < length xs"
| "has_own (Object _ _ own _) key \<longleftrightarrow> key \<in> fst ` set own"
| "has_own (Function _ _) key \<longleftrightarrow> key = js ''length''"
| "has_own _ key \<longleftrightarrow> False"

definition has :: "jsval \<Rightarrow> jstring \<Rightarrow> bool" where
  "has obj key \<longleftrightarrow> \<not> is_nil obj \<and> has_own obj key"

text \<open>\<open>key in obj\<close>.\<close>

definition has_key :: "jsval \<Rightarrow> jstring \<Rightarrow> bool" where
  "has_key obj key \<longleftrightarrow> has_own obj key \<or>
     (case obj of
        Object _ c _ inherited \<Rightarrow> key \<in> fst ` set inherited \<or> c \<noteq> None \<and> key = js ''constructor''
      | _ \<Rightarrow> key = js ''constructor'')"

definition values_us :: "jsval \<Rightarrow> jsval list" where
  "values_us obj = map (get obj) (keys obj)"

lemma keys_Object [simp]: "keys (Object i c own inherited) = object_keys (map fst own)"
  by (simp add: keys_def isObject_def)

lemma keys_nil [simp]: "is_nil obj \<Longrightarrow> keys obj = []"
  by (auto simp: keys_def is_nil_def)

lemma get_own: "map_of own k = Some v \<Longrightarrow> get (Object i c own inherited) k = v"
  by simp

section \<open>Assigning properties\<close>

text \<open>
  \<open>obj[key] = v\<close>: an array grows to reach the index; other keys of arrays, and properties of
  functions and primitive values, are not part of the model.
\<close>

fun set_prop :: "jsval \<Rightarrow> jstring \<Rightarrow> jsval \<Rightarrow> jsval" where
  "set_prop (Object i c own inherited) key v = Object i c (put key v own) inherited"
| "set_prop (Array i xs) key v =
     (if is_array_index key then
        (let n = nat (int_of_string key) in Array i ((xs @ replicate (Suc n - length xs) Undefined)[n := v]))
      else Array i xs)"
| "set_prop obj key v = obj"

definition assign_prop :: "bool \<Rightarrow> jsval \<Rightarrow> jstring \<Rightarrow> jsval \<Rightarrow> jsval" where
  "assign_prop undefinedOnly source key obj =
     (if \<not> undefinedOnly \<or> strict_eq (get obj key) Undefined then set_prop obj key (get source key) else obj)"

definition createAssigner :: "(jsval \<Rightarrow> jstring list) \<Rightarrow> bool \<Rightarrow> jsval \<Rightarrow> jsval list \<Rightarrow> jsval" where
  "createAssigner keysFunc undefinedOnly obj sources =
     (if sources = [] \<or> is_nil obj then obj
      else fold (\<lambda>source. fold (assign_prop undefinedOnly source) (keysFunc source)) sources obj)"

definition extend_us :: "jsval \<Rightarrow> jsval list \<Rightarrow> jsval" where
  "extend_us = createAssigner allKeys False"

definition extendOwn :: "jsval \<Rightarrow> jsval list \<Rightarrow> jsval" where
  "extendOwn = createAssigner keys False"

definition defaults :: "jsval \<Rightarrow> jsval list \<Rightarrow> jsval" where
  "defaults = createAssigner allKeys True"

text \<open>\<open>{}\<close>; the identity of a new object that is not returned plays no part.\<close>

definition empty_object :: jsval where
  "empty_object = Object 0 (Some 0) [] []"

definition isMatch_us :: "jsval \<Rightarrow> jsval \<Rightarrow> bool" where
  "isMatch_us object attrs \<longleftrightarrow>
     (if is_nil object then keys attrs = []
      else list_all (\<lambda>key. strict_eq (get attrs key) (get object key) \<and> has_key object key) (keys attrs))"

definition matcher :: "jsval \<Rightarrow> jsval \<Rightarrow> bool" where
  "matcher attrs obj = isMatch_us obj (extendOwn empty_object [attrs])"

section \<open>Callbacks\<close>

definition optimizeCb :: "'s fn \<Rightarrow> jsval \<Rightarrow> jsval \<Rightarrow> 's fn" where
  "optimizeCb func context argCount this args =
     (if context = Undefined then func this args
      else case (if is_nil argCount then int_val 3 else argCount) of
        Number (Num n) \<Rightarrow>
          if n = 1 then func context (first_args 1 args)
          else if n = 2 then func context (first_args 2 args)
          else if n = 3 then func context (first_args 3 args)
          else if n = 4 then func context (first_args 4 args)
          else func context args
      | _ \<Rightarrow> func context args)"

definition identity_us :: "'s fn" where
  "identity_us this args = yields (arg args 0)"

definition cb :: "'s world \<Rightarrow> jsval \<Rightarrow> jsval \<Rightarrow> jsval \<Rightarrow> 's fn" where
  "cb w value context argCount =
     (if is_nil value then identity_us
      else if isFunction value then optimizeCb (apply_val w value) context argCount
      else if isObject value then (\<lambda>this args. yields (Boolean (matcher value (arg args 0))))
      else (\<lambda>this args. yields (property w value (arg args 0))))"

definition iteratee :: "'s world \<Rightarrow> jsval \<Rightarrow> jsval \<Rightarrow> 's fn" where
  "iteratee w value context = cb w value context (Number PosInf)"

definition negate :: "'s fn \<Rightarrow> 's fn" where
  "negate predicate this args = and_do (predicate this args) (\<lambda>r. yields (Boolean (\<not> truthy r)))"

lemma arg_simps [simp]: "arg (x # xs) 0 = x" "arg (x # xs) (Suc i) = arg xs i" "arg [] i = Undefined"
  by (simp_all add: arg_def nth_val_def)

lemma first_args_3 [simp]: "first_args 3 [a, b, c] = [a, b, c]"
  by (simp add: first_args_def upt_rec)

lemma first_args_1 [simp]: "first_args (Suc 0) [a] = [a]"
  by (simp add: first_args_def upt_rec)

lemma first_args_4 [simp]: "first_args 4 [a, b, c, d] = [a, b, c, d]"
  by (simp add: first_args_def upt_rec numeral_eq_Suc)

text \<open>A callback with the usual three arguments sees the context as its \<open>this\<close>.\<close>

lemma optimizeCb_3:
  "optimizeCb func context Undefined Undefined [v, k, obj] = func context [v, k, obj]"
  by (simp add: optimizeCb_def is_nil_def)

lemma cb_Function:
  "cb w (Function i n) context Undefined Undefined [v, k, obj] = call w i context [v, k, obj]"
  by (simp add: cb_def is_nil_def isFunction_def optimizeCb_3 apply_val_def)

section \<open>Objects built by assignment\<close>

lemma fold_set_prop:
  "fold (assign_prop False source) ks (Object i c own inherited) =
     Object i c (fold (\<lambda>k. put k (get source k)) ks own) inherited"
  by (induction ks arbitrary: own) (simp_all add: assign_prop_def)

lemma map_of_fold_put: "map_of (fold (\<lambda>k. put k (f k)) ks ps) k = (if k \<in> set ks then Some (f k) else map_of ps k)"
  by (induction ks arbitrary: ps) auto

lemma get_extendOwn_empty:
  "get (extendOwn empty_object [source]) k =
     (if k \<in> set (keys source) then get source k
      else if k = js ''constructor'' then Function 0 0 else Undefined)"
  by (simp add: extendOwn_def createAssigner_def empty_object_def is_nil_def fold_set_prop map_of_fold_put)

end
