(* ===== verification/Underscore_Collections.thy ===== *)
theory Underscore_Collections
  imports Underscore_Base
begin

text \<open>
  The collection library of \<open>wordcut.js\<close> (module 25), the collection functions: the loops over
  arrays, array-like values and objects, searches, aggregation, extremes, sorting and grouping.

  A callback is a function that the surroundings run; it may change the state and may throw. The
  lemmas on callbacks that do neither give the reference list function of each operation.
\<close>

section \<open>What a loop visits\<close>

text \<open>
  The key of a position: the index of an array-like value, otherwise the own key at that position.
  \<open>entries\<close> lists each value with its key, in the order of the loops.
\<close>

definition loop_keys :: "jsval \<Rightarrow> jsval list" where
  "loop_keys obj = (if isArrayLike obj then map index_val [0..<length_of obj] else map String (keys obj))"

definition value_at :: "jsval \<Rightarrow> jsval \<Rightarrow> jsval" where
  "value_at obj key =
     (case key of Number (Num i) \<Rightarrow> get_index obj (nat i) | String k \<Rightarrow> get obj k | _ \<Rightarrow> Undefined)"

definition entries :: "jsval \<Rightarrow> (jsval \<times> jsval) list" where
  "entries obj = map (\<lambda>key. (value_at obj key, key)) (loop_keys obj)"

text \<open>The callback of a loop at an entry.\<close>

abbreviation visit :: "'s fn \<Rightarrow> jsval \<Rightarrow> jsval \<times> jsval \<Rightarrow> ('s, jsval) prog" where
  "visit f obj e \<equiv> f Undefined [fst e, snd e, obj]"

definition each :: "'s world \<Rightarrow> jsval \<Rightarrow> jsval \<Rightarrow> jsval \<Rightarrow> ('s, jsval) prog" where
  "each w obj iter context =
     (let f = optimizeCb (apply_val w iter) context Undefined
      in and_do (run_each (visit f obj) (entries obj)) (\<lambda>_. yields obj))"

definition map_us :: "'s world \<Rightarrow> jsval \<Rightarrow> jsval \<Rightarrow> jsval \<Rightarrow> ('s, jsval list) prog" where
  "map_us w obj iter context = (let f = cb w iter context Undefined in run_map (visit f obj) (entries obj))"

section \<open>Reducing\<close>

text \<open>
  The inner loop from a position: upwards (\<open>dir > 0\<close>) or downwards, until the position leaves the
  collection.
\<close>

function reduce_loop ::
  "bool \<Rightarrow> (jsval \<Rightarrow> jsval \<Rightarrow> ('s, jsval) prog) \<Rightarrow> jsval list \<Rightarrow> int \<Rightarrow> jsval \<Rightarrow> ('s, jsval) prog"
where
  "reduce_loop up step ks index memo =
     (if 0 \<le> index \<and> index < int (length ks)
      then and_do (step memo (ks ! nat index)) (reduce_loop up step ks (if up then index + 1 else index - 1))
      else yields memo)"
  by auto

termination
  by (relation "measure (\<lambda>(up, step, ks, index, memo). if up then nat (int (length ks) - index) else nat (index + 1))")
     auto

declare reduce_loop.simps [simp del]

text \<open>
  Without an initial value the first element is the memo: \<open>obj[keys ? keys[index] : index]\<close>, with
  \<open>keys[index]\<close> undefined when there is no key.
\<close>

definition first_memo :: "jsval \<Rightarrow> int \<Rightarrow> ('s, jsval) prog" where
  "first_memo obj index =
     read_prop obj
       (if isArrayLike obj then string_of_int index
        else case at (keys obj) index of None \<Rightarrow> js ''undefined'' | Some k \<Rightarrow> k)"

definition createReduce ::
  "bool \<Rightarrow> 's world \<Rightarrow> jsval \<Rightarrow> jsval \<Rightarrow> jsval option \<Rightarrow> jsval \<Rightarrow> ('s, jsval) prog"
where
  "createReduce up w obj iter memo context =
     (let f = optimizeCb (apply_val w iter) context (int_val 4);
          ks = loop_keys obj;
          index = (if up then 0 else int (length ks) - 1);
          step = (\<lambda>acc key. f Undefined [acc, value_at obj key, key, obj])
      in case memo of
           Some m \<Rightarrow> reduce_loop up step ks index m
         | None \<Rightarrow> and_do (first_memo obj index) (reduce_loop up step ks (if up then index + 1 else index - 1)))"

definition reduce :: "'s world \<Rightarrow> jsval \<Rightarrow> jsval \<Rightarrow> jsval option \<Rightarrow> jsval \<Rightarrow> ('s, jsval) prog" where
  "reduce = createReduce True"

definition reduceRight :: "'s world \<Rightarrow> jsval \<Rightarrow> jsval \<Rightarrow> jsval option \<Rightarrow> jsval \<Rightarrow> ('s, jsval) prog" where
  "reduceRight = createReduce False"

section \<open>Searching\<close>

text \<open>The first position, in the order of the list of positions, that passes a test.\<close>

fun search :: "('a \<Rightarrow> ('s, jsval) prog) \<Rightarrow> 'a list \<Rightarrow> ('s, 'a option) prog" where
  "search test [] = yields None"
| "search test (x # xs) = and_do (test x) (\<lambda>r. if truthy r then yields (Some x) else search test xs)"

definition createPredicateIndexFinder ::
  "bool \<Rightarrow> 's world \<Rightarrow> jsval \<Rightarrow> jsval \<Rightarrow> jsval \<Rightarrow> ('s, int) prog"
where
  "createPredicateIndexFinder up w array predicate context =
     (let p = cb w predicate context Undefined; is = [0..<length_of array]
      in and_do (search (\<lambda>i. p Undefined [get_index array i, index_val i, array]) (if up then is else rev is))
           (\<lambda>found. yields (case found of Some i \<Rightarrow> int i | None \<Rightarrow> -1)))"

definition findIndex :: "'s world \<Rightarrow> jsval \<Rightarrow> jsval \<Rightarrow> jsval \<Rightarrow> ('s, int) prog" where
  "findIndex = createPredicateIndexFinder True"

definition findLastIndex :: "'s world \<Rightarrow> jsval \<Rightarrow> jsval \<Rightarrow> jsval \<Rightarrow> ('s, int) prog" where
  "findLastIndex = createPredicateIndexFinder False"

definition findKey :: "'s world \<Rightarrow> jsval \<Rightarrow> jsval \<Rightarrow> jsval \<Rightarrow> ('s, jstring option) prog" where
  "findKey w obj predicate context =
     (let p = cb w predicate context Undefined
      in search (\<lambda>key. p Undefined [get obj key, String key, obj]) (keys obj))"

definition find_us :: "'s world \<Rightarrow> jsval \<Rightarrow> jsval \<Rightarrow> jsval \<Rightarrow> ('s, jsval) prog" where
  "find_us w obj predicate context =
     (if isArrayLike obj then
        and_do (findIndex w obj predicate context)
          (\<lambda>key. yields (if key \<noteq> -1 then get_index obj (nat key) else Undefined))
      else
        and_do (findKey w obj predicate context)
          (\<lambda>key. yields (case key of Some k \<Rightarrow> get obj k | None \<Rightarrow> Undefined)))"

section \<open>Selecting\<close>

text \<open>\<open>filter\<close> with a predicate that \<open>cb\<close> has already converted.\<close>

definition filter_with :: "'s fn \<Rightarrow> jsval \<Rightarrow> ('s, jsval list) prog" where
  "filter_with p obj =
     run_fold (\<lambda>e results. and_do (visit p obj e)
       (\<lambda>r. yields (if truthy r then results @ [fst e] else results))) (entries obj) []"

definition filter_us :: "'s world \<Rightarrow> jsval \<Rightarrow> jsval \<Rightarrow> jsval \<Rightarrow> ('s, jsval list) prog" where
  "filter_us w obj predicate context = filter_with (cb w predicate context Undefined) obj"

definition reject :: "'s world \<Rightarrow> jsval \<Rightarrow> jsval \<Rightarrow> jsval \<Rightarrow> ('s, jsval list) prog" where
  "reject w obj predicate context =
     filter_with (optimizeCb (negate (cb w predicate Undefined Undefined)) context Undefined) obj"

definition every :: "'s world \<Rightarrow> jsval \<Rightarrow> jsval \<Rightarrow> jsval \<Rightarrow> ('s, bool) prog" where
  "every w obj predicate context =
     and_do (search (\<lambda>e. negate (cb w predicate context Undefined) Undefined [fst e, snd e, obj]) (entries obj))
       (\<lambda>failing. yields (failing = None))"

definition some :: "'s world \<Rightarrow> jsval \<Rightarrow> jsval \<Rightarrow> jsval \<Rightarrow> ('s, bool) prog" where
  "some w obj predicate context =
     and_do (search (visit (cb w predicate context Undefined) obj) (entries obj))
       (\<lambda>passing. yields (passing \<noteq> None))"

definition partition_us :: "'s world \<Rightarrow> jsval \<Rightarrow> jsval \<Rightarrow> jsval \<Rightarrow> ('s, jsval list \<times> jsval list) prog" where
  "partition_us w obj predicate context =
     (let p = cb w predicate context Undefined
      in run_fold (\<lambda>e (pass, fail). and_do (visit p obj e)
           (\<lambda>r. yields (if truthy r then (pass @ [fst e], fail) else (pass, fail @ [fst e])))) (entries obj) ([], []))"

section \<open>Invoking and plucking\<close>

definition invoke :: "'s world \<Rightarrow> jsval \<Rightarrow> jsval \<Rightarrow> jsval list \<Rightarrow> ('s, jsval list) prog" where
  "invoke w obj method args =
     run_map (\<lambda>e. and_do (if isFunction method then yields method else read_prop (fst e) (to_text w method))
       (\<lambda>func. if is_nil func then yields func else apply_val w func (fst e) args)) (entries obj)"

definition pluck :: "'s world \<Rightarrow> jsval \<Rightarrow> jsval \<Rightarrow> jsval list" where
  "pluck w obj key = map (\<lambda>e. property w key (fst e)) (entries obj)"

definition where_us :: "jsval \<Rightarrow> jsval \<Rightarrow> jsval list" where
  "where_us obj attrs = filter (matcher attrs) (map fst (entries obj))"

definition findWhere :: "jsval \<Rightarrow> jsval \<Rightarrow> jsval" where
  "findWhere obj attrs = (case find (matcher attrs) (map fst (entries obj)) of Some v \<Rightarrow> v | None \<Rightarrow> Undefined)"

section \<open>Extremes\<close>

text \<open>
  \<open>max\<close> and \<open>min\<close> are the same code with the infinities and the comparison turned round:
  \<open>better a b\<close> is \<open>a > b\<close> for \<open>max\<close> and \<open>a < b\<close> for \<open>min\<close>.
\<close>

definition extreme_by :: "(jsval \<Rightarrow> jsval \<Rightarrow> bool) \<Rightarrow> jsval \<Rightarrow> 's fn \<Rightarrow> jsval \<Rightarrow> ('s, jsval) prog" where
  "extreme_by better bound f obj =
     and_do (run_fold (\<lambda>e (result, lastComputed). and_do (visit f obj e)
         (\<lambda>computed. yields
            (if better computed lastComputed \<or> strict_eq computed bound \<and> strict_eq result bound
             then (fst e, computed) else (result, lastComputed)))) (entries obj) (bound, bound))
       (\<lambda>(result, _). yields result)"

definition extreme ::
  "(jsval \<Rightarrow> jsval \<Rightarrow> bool) \<Rightarrow> jsval \<Rightarrow> 's world \<Rightarrow> jsval \<Rightarrow> jsval \<Rightarrow> jsval \<Rightarrow> ('s, jsval) prog"
where
  "extreme better bound w obj iter context =
     (if is_nil iter \<and> \<not> is_nil obj then
        yields (fold (\<lambda>v best. if better v best then v else best)
          (if isArrayLike obj then elems obj else values_us obj) bound)
      else extreme_by better bound (cb w iter context Undefined) obj)"

definition max_us :: "'s world \<Rightarrow> jsval \<Rightarrow> jsval \<Rightarrow> jsval \<Rightarrow> ('s, jsval) prog" where
  "max_us w = extreme (\<lambda>a b. less_val w b a) (Number NegInf) w"

definition min_us :: "'s world \<Rightarrow> jsval \<Rightarrow> jsval \<Rightarrow> jsval \<Rightarrow> ('s, jsval) prog" where
  "min_us w = extreme (less_val w) (Number PosInf) w"

section \<open>Sorting\<close>

record criterion =
  c_value :: jsval
  c_index :: nat
  c_criteria :: jsval

definition compare_criteria :: "'s world \<Rightarrow> criterion \<Rightarrow> criterion \<Rightarrow> int" where
  "compare_criteria w left right =
     (let a = c_criteria left; b = c_criteria right; by_index = int (c_index left) - int (c_index right)
      in if \<not> strict_eq a b then
           (if less_val w b a \<or> strict_eq a Undefined then 1
            else if less_val w a b \<or> strict_eq b Undefined then -1 else by_index)
         else by_index)"

text \<open>\<open>sort_fn\<close> is \<open>Array.prototype.sort\<close> of the engine, whose order of equal elements is its own.\<close>

type_synonym criteria_sort = "(criterion \<Rightarrow> criterion \<Rightarrow> int) \<Rightarrow> criterion list \<Rightarrow> criterion list"

definition sortBy ::
  "criteria_sort \<Rightarrow> 's world \<Rightarrow> jsval \<Rightarrow> jsval \<Rightarrow> jsval \<Rightarrow> ('s, jsval list) prog"
where
  "sortBy sort_fn w obj iter context =
     (let f = cb w iter context Undefined
      in and_do (run_map (\<lambda>(n, e). and_do (visit f obj e)
             (\<lambda>c. yields \<lparr>c_value = fst e, c_index = n, c_criteria = c\<rparr>)) (enumerate 0 (entries obj)))
           (\<lambda>cs. yields (map c_value (sort_fn (compare_criteria w) cs))))"

section \<open>Grouping\<close>

definition group_us ::
  "('r list \<Rightarrow> jsval \<Rightarrow> jstring \<Rightarrow> 'r list) \<Rightarrow> 's world \<Rightarrow> jsval \<Rightarrow> jsval \<Rightarrow> jsval \<Rightarrow> ('s, 'r list) prog"
where
  "group_us behavior w obj iter context =
     (let f = cb w iter context Undefined
      in run_fold (\<lambda>e result. and_do (visit f obj e)
           (\<lambda>key. yields (behavior result (fst e) (to_text w key)))) (entries obj) [])"

definition groupBy :: "'s world \<Rightarrow> jsval \<Rightarrow> jsval \<Rightarrow> jsval \<Rightarrow> ('s, (jstring \<times> jsval list) list) prog" where
  "groupBy = group_us (\<lambda>result v key.
     case map_of result key of Some vs \<Rightarrow> put key (vs @ [v]) result | None \<Rightarrow> put key [v] result)"

definition indexBy :: "'s world \<Rightarrow> jsval \<Rightarrow> jsval \<Rightarrow> jsval \<Rightarrow> ('s, (jstring \<times> jsval) list) prog" where
  "indexBy = group_us (\<lambda>result v key. put key v result)"

definition countBy :: "'s world \<Rightarrow> jsval \<Rightarrow> jsval \<Rightarrow> jsval \<Rightarrow> ('s, (jstring \<times> nat) list) prog" where
  "countBy = group_us (\<lambda>result v key.
     case map_of result key of Some n \<Rightarrow> put key (Suc n) result | None \<Rightarrow> put key 1 result)"

section \<open>Sizes and copies\<close>

definition toArray :: "jsval \<Rightarrow> jsval list" where
  "toArray obj =
     (if \<not> truthy obj then []
      else if isArray obj then elems obj
      else if isArrayLike obj then map fst (entries obj)
      else values_us obj)"

definition size_us :: "jsval \<Rightarrow> nat" where
  "size_us obj = (if is_nil obj then 0 else if isArrayLike obj then length_of obj else length (keys obj))"

section \<open>Shuffling\<close>

text \<open>
  \<open>Math.floor(Math.random() * n)\<close>, where the random number is a number of \<open>2 ^ 53\<close>-ths.
\<close>

definition random_us :: "'s world \<Rightarrow> int \<Rightarrow> int \<Rightarrow> ('s, int) prog" where
  "random_us w lo hi = and_do (math_random w) (\<lambda>k. yields (lo + (int k * (hi - lo + 1)) div 2 ^ 53))"

definition shuffle_step :: "'s world \<Rightarrow> jsval list \<Rightarrow> nat \<Rightarrow> jsval list \<Rightarrow> ('s, jsval list) prog" where
  "shuffle_step w xs index shuffled =
     and_do (random_us w 0 (int index))
       (\<lambda>r. let rand = nat r;
              moved = (if rand \<noteq> index then shuffled[index := nth_val shuffled rand] else shuffled)
          in yields (moved[rand := xs ! index]))"

definition shuffle :: "'s world \<Rightarrow> jsval \<Rightarrow> ('s, jsval list) prog" where
  "shuffle w obj =
     (let xs = (if isArrayLike obj then elems obj else values_us obj)
      in run_fold (shuffle_step w xs) [0..<length xs] (replicate (length xs) Undefined))"

text \<open>\<open>n\<close> is absent (or the guard is set) when \<open>sample\<close> returns one element.\<close>

definition sample_one :: "'s world \<Rightarrow> jsval \<Rightarrow> ('s, jsval) prog" where
  "sample_one w obj =
     (let xs = (if isArrayLike obj then elems obj else values_us obj)
      in and_do (random_us w 0 (int (length xs) - 1))
           (\<lambda>r. yields (if r < 0 then Undefined else nth_val xs (nat r))))"

definition sample :: "'s world \<Rightarrow> jsval \<Rightarrow> int \<Rightarrow> ('s, jsval list) prog" where
  "sample w obj n = and_do (shuffle w obj) (\<lambda>xs. yields (take (nat (max 0 n)) xs))"

section \<open>The entries of a collection\<close>

lemma isArrayLike_Array [simp]: "isArrayLike (Array i xs)" "isArrayLike (Arguments i xs)" "isArrayLike (String s)"
  by (simp_all add: isArrayLike_def)

lemma entries_Array: "entries (Array i xs) = map (\<lambda>n. (xs ! n, index_val n)) [0..<length xs]"
  by (auto simp: entries_def loop_keys_def value_at_def nth_val_def)

lemma map_fst_entries: "map fst (entries obj) = (if isArrayLike obj then elems obj else values_us obj)"
  by (auto simp: entries_def loop_keys_def value_at_def elems_def values_us_def)

lemma map_fst_entries_Array [simp]: "map fst (entries (Array i xs)) = xs"
  by (simp add: map_fst_entries)

lemma loop_keys_entries: "loop_keys obj = map snd (entries obj)"
  by (auto simp: entries_def comp_def)

lemma entries_value: "e \<in> set (entries obj) \<Longrightarrow> value_at obj (snd e) = fst e"
  by (auto simp: entries_def)

lemma length_entries: "length (entries obj) = length (loop_keys obj)"
  by (simp add: entries_def)

text \<open>Callbacks that neither change the state nor throw.\<close>

definition pure_callback :: "'s world \<Rightarrow> jsval \<Rightarrow> jsval \<Rightarrow> (jsval \<Rightarrow> jsval \<Rightarrow> jsval) \<Rightarrow> bool" where
  "pure_callback w iter context g \<longleftrightarrow>
     (\<forall>v k obj. cb w iter context Undefined Undefined [v, k, obj] = yields (g v k))"

lemma pure_callbackD: "pure_callback w iter context g \<Longrightarrow> cb w iter context Undefined Undefined [v, k, obj] = yields (g v k)"
  by (simp add: pure_callback_def)

lemma pure_callback_call: "(\<And>v k obj. call w i context [v, k, obj] = yields (g v k)) \<Longrightarrow> pure_callback w (Function i n) context g"
  by (simp add: pure_callback_def cb_Function)

lemma pure_callback_identity: "pure_callback w Undefined context (\<lambda>v k. v)"
  by (simp add: pure_callback_def cb_def is_nil_def identity_us_def)

text \<open>Surroundings in which every function returns the remainder of its first argument by \<open>3\<close>.\<close>

definition bucket :: "jsval \<Rightarrow> int" where
  "bucket v = (case v of Number (Num n) \<Rightarrow> n mod 3 | _ \<Rightarrow> 0)"

definition bucket_world :: "'s world" where
  "bucket_world = \<lparr>call = \<lambda>i this args. yields (int_val (bucket (arg args 0))),
     number_of = \<lambda>v. NaN, text_of = \<lambda>v. [], math_random = yields 0\<rparr>"

abbreviation unit_world :: "unit world" where
  "unit_world \<equiv> bucket_world"

definition example_array :: jsval where
  "example_array = Array 0 [int_val 5, int_val 1, int_val 3, int_val 4]"

lemma example_callback: "pure_callback bucket_world (Function 0 1) Undefined (\<lambda>v k. int_val (bucket v))"
  by (rule pure_callback_call) (simp add: bucket_world_def)

lemma example_entries:
  "entries example_array = [(int_val 5, index_val 0), (int_val 1, index_val 1), (int_val 3, index_val 2), (int_val 4, index_val 3)]"
  by (simp add: example_array_def entries_Array upt_rec)

section \<open>Loops as list functions\<close>

lemma map_pure:
  "pure_callback w iter context g \<Longrightarrow>
     map_us w obj iter context = yields (map (\<lambda>e. g (fst e) (snd e)) (entries obj))"
  by (simp add: map_us_def run_map_yields [where g = "\<lambda>e. g (fst e) (snd e)"] pure_callbackD)

lemma run_search_yields:
  "(\<And>x. x \<in> set xs \<Longrightarrow> test x = yields (g x)) \<Longrightarrow> search test xs = yields (find (\<lambda>x. truthy (g x)) xs)"
  by (induction xs) auto

lemma filter_with_pure:
  assumes "\<And>e. e \<in> set (entries obj) \<Longrightarrow> visit f obj e = yields (g e)"
  shows "filter_with f obj = yields (map fst (filter (\<lambda>e. truthy (g e)) (entries obj)))"
proof -
  have "fold (\<lambda>e results. if truthy (g e) then results @ [fst e] else results) es acc =
      acc @ map fst (filter (\<lambda>e. truthy (g e)) es)" for es acc
    by (induction es arbitrary: acc) auto
  moreover have "filter_with f obj =
      yields (fold (\<lambda>e results. if truthy (g e) then results @ [fst e] else results) (entries obj) [])"
    unfolding filter_with_def by (rule run_fold_yields) (simp add: assms)
  ultimately show ?thesis by simp
qed

lemma filter_pure:
  "pure_callback w p context g \<Longrightarrow>
     filter_us w obj p context = yields (map fst (filter (\<lambda>e. truthy (g (fst e) (snd e))) (entries obj)))"
  unfolding filter_us_def by (rule filter_with_pure) (simp add: pure_callbackD)

text \<open>The callback of \<open>reject\<close> sees the same \<open>this\<close> as the callback of \<open>filter\<close>.\<close>

lemma reject_callback:
  "optimizeCb (negate (cb w p Undefined Undefined)) context Undefined Undefined [v, k, obj] =
     negate (cb w p context Undefined) Undefined [v, k, obj]"
  by (auto simp: optimizeCb_3 negate_def cb_def identity_us_def optimizeCb_def is_nil_def fun_eq_iff)

lemma reject_pure:
  assumes "pure_callback w p context g"
  shows "reject w obj p context = yields (map fst (filter (\<lambda>e. \<not> truthy (g (fst e) (snd e))) (entries obj)))"
proof -
  have "reject w obj p context =
      yields (map fst (filter (\<lambda>e. truthy (Boolean (\<not> truthy (g (fst e) (snd e))))) (entries obj)))"
    unfolding reject_def
    by (rule filter_with_pure) (simp add: reject_callback negate_def pure_callbackD [OF assms])
  then show ?thesis by simp
qed

lemma partition_pure:
  assumes "pure_callback w p context g"
  shows "partition_us w obj p context =
     yields (map fst (filter (\<lambda>e. truthy (g (fst e) (snd e))) (entries obj)),
             map fst (filter (\<lambda>e. \<not> truthy (g (fst e) (snd e))) (entries obj)))"
proof -
  define add where "add e = (\<lambda>(pass, fail).
      if truthy (g (fst e) (snd e)) then (pass @ [fst e], fail) else (pass, fail @ [fst e]))" for e
  have "fold add es (as, bs) =
      (as @ map fst (filter (\<lambda>e. truthy (g (fst e) (snd e))) es),
       bs @ map fst (filter (\<lambda>e. \<not> truthy (g (fst e) (snd e))) es))" for es as bs
    by (induction es arbitrary: as bs) (auto simp: add_def)
  moreover have "partition_us w obj p context = yields (fold add (entries obj) ([], []))"
    unfolding partition_us_def Let_def
    by (rule run_fold_yields) (auto simp: add_def pure_callbackD [OF assms] split: prod.splits)
  ultimately show ?thesis by simp
qed

lemma find_None_list_all: "find P xs = None \<longleftrightarrow> list_all (\<lambda>x. \<not> P x) xs"
  by (induction xs) auto

lemma some_pure:
  "pure_callback w p context g \<Longrightarrow>
     some w obj p context = yields (list_ex (\<lambda>e. truthy (g (fst e) (snd e))) (entries obj))"
  by (simp add: some_def run_search_yields [where g = "\<lambda>e. g (fst e) (snd e)"] pure_callbackD
      find_None_list_all list_ex_iff list_all_iff del: split_paired_Ex split_paired_All not_None_eq)

lemma every_pure:
  "pure_callback w p context g \<Longrightarrow>
     every w obj p context = yields (list_all (\<lambda>e. truthy (g (fst e) (snd e))) (entries obj))"
  by (simp add: every_def negate_def run_search_yields [where g = "\<lambda>e. Boolean (\<not> truthy (g (fst e) (snd e)))"]
      pure_callbackD find_None_list_all)

lemma find_map: "find P (map h xs) = map_option h (find (\<lambda>x. P (h x)) xs)"
  by (induction xs) auto

lemma find_hd_filter: "find P xs = (case filter P xs of [] \<Rightarrow> None | x # _ \<Rightarrow> Some x)"
  by (induction xs) auto

lemma find_pure:
  assumes "pure_callback w p context g"
  shows "find_us w obj p context =
     yields (case filter (\<lambda>e. truthy (g (fst e) (snd e))) (entries obj) of [] \<Rightarrow> Undefined | e # _ \<Rightarrow> fst e)"
proof -
  let ?P = "\<lambda>e. truthy (g (fst e) (snd e))"
  have entries: "find ?P (entries obj) =
      map_option (\<lambda>key. (value_at obj key, key)) (find (\<lambda>key. truthy (g (value_at obj key) key)) (loop_keys obj))"
    by (simp add: entries_def find_map)
  show ?thesis
  proof (cases "isArrayLike obj")
    case True
    have "search (\<lambda>i. cb w p context Undefined Undefined [get_index obj i, index_val i, obj]) [0..<length_of obj] =
        yields (find (\<lambda>i. truthy (g (get_index obj i) (index_val i))) [0..<length_of obj])"
      by (rule run_search_yields) (simp add: pure_callbackD [OF assms])
    with True entries show ?thesis
      by (auto simp: find_us_def findIndex_def createPredicateIndexFinder_def loop_keys_def find_map value_at_def
          find_hd_filter [of ?P] split: option.splits list.splits)
  next
    case False
    have "search (\<lambda>k. cb w p context Undefined Undefined [get obj k, String k, obj]) (keys obj) =
        yields (find (\<lambda>k. truthy (g (get obj k) (String k))) (keys obj))"
      by (rule run_search_yields) (simp add: pure_callbackD [OF assms])
    with False entries show ?thesis
      by (auto simp: find_us_def findKey_def loop_keys_def find_map value_at_def
          find_hd_filter [of ?P] split: option.splits list.splits)
  qed
qed

lemma toArray_entries: "toArray obj = map fst (entries obj)"
proof (cases "truthy obj")
  case True
  then show ?thesis by (cases obj) (auto simp: toArray_def isArray_def map_fst_entries)
next
  case False
  then have "\<not> isArrayLike obj \<or> obj = String []" "\<not> isObject obj"
    by (cases obj; auto simp: isArrayLike_def isObject_def getLength_def is_nil_def)+
  with False show ?thesis
    by (auto simp: toArray_def map_fst_entries values_us_def keys_def elems_def length_of_def getLength_def
        is_nil_def list_prop_def)
qed

lemma mset_filter_split:
  "mset (map f (filter P xs)) + mset (map f (filter (\<lambda>x. \<not> P x) xs)) = mset (map f xs)"
  by (induction xs) auto

lemmas selection_pure = filter_pure reject_pure partition_pure find_pure every_pure some_pure

text \<open>
  For a pure predicate, \<open>partition\<close> returns what \<open>filter\<close> and \<open>reject\<close> return, \<open>find\<close> the first
  element that \<open>filter\<close> keeps, \<open>every\<close> holds when \<open>reject\<close> keeps nothing and \<open>some\<close> when \<open>filter\<close>
  keeps something; together the two lists have the elements of the collection.
\<close>

theorem selection_agrees:
  assumes "pure_callback w p context g"
  shows "\<exists>kept dropped.
    filter_us w obj p context = yields kept \<and>
    reject w obj p context = yields dropped \<and>
    partition_us w obj p context = yields (kept, dropped) \<and>
    find_us w obj p context = yields (case kept of [] \<Rightarrow> Undefined | v # _ \<Rightarrow> v) \<and>
    every w obj p context = yields (dropped = []) \<and>
    some w obj p context = yields (kept \<noteq> []) \<and>
    mset kept + mset dropped = mset (toArray obj)"
proof -
  let ?P = "\<lambda>e. truthy (g (fst e) (snd e))"
  have "list_all ?P es \<longleftrightarrow> filter (\<lambda>e. \<not> ?P e) es = []" "list_ex ?P es \<longleftrightarrow> filter ?P es \<noteq> []" for es
    by (induction es) auto
  moreover have "(case map fst es of [] \<Rightarrow> Undefined | v # _ \<Rightarrow> v) = (case es of [] \<Rightarrow> Undefined | e # _ \<Rightarrow> fst e)"
    for es :: "(jsval \<times> jsval) list"
    by (cases es) auto
  ultimately show ?thesis
    using selection_pure [OF assms, of obj] mset_filter_split [of fst ?P "entries obj"]
    by (intro exI [of _ "map fst (filter ?P (entries obj))"]
        exI [of _ "map fst (filter (\<lambda>e. \<not> ?P e) (entries obj))"]) (simp add: toArray_entries)
qed

lemma selection_agrees_witness:
  "\<exists>kept dropped.
    filter_us unit_world example_array (Function 0 1) Undefined = yields kept \<and>
    reject unit_world example_array (Function 0 1) Undefined = yields dropped \<and>
    partition_us unit_world example_array (Function 0 1) Undefined = yields (kept, dropped) \<and>
    find_us unit_world example_array (Function 0 1) Undefined = yields (case kept of [] \<Rightarrow> Undefined | v # _ \<Rightarrow> v) \<and>
    every unit_world example_array (Function 0 1) Undefined = yields (dropped = []) \<and>
    some unit_world example_array (Function 0 1) Undefined = yields (kept \<noteq> []) \<and>
    mset kept + mset dropped = mset (toArray example_array)"
  by (rule selection_agrees [OF example_callback])

section \<open>Reducing as a fold\<close>

lemma reduce_loop_up:
  "reduce_loop True step ks (int i) memo = run_fold (\<lambda>k memo. step memo k) (drop i ks) memo"
proof (induction "length ks - i" arbitrary: i memo)
  case (Suc n)
  then have "i < length ks" "drop i ks = ks ! i # drop (Suc i) ks" by (simp_all add: Cons_nth_drop_Suc)
  moreover have "reduce_loop True step ks (int (Suc i)) = run_fold (\<lambda>k memo. step memo k) (drop (Suc i) ks)"
    using Suc.hyps(1) [of "Suc i"] Suc.hyps(2) by (intro ext) simp
  ultimately show ?case
    by (subst reduce_loop.simps) (simp add: add.commute)
qed (simp add: reduce_loop.simps)

lemma reduce_loop_down:
  "i \<le> length ks \<Longrightarrow>
     reduce_loop False step ks (int i - 1) memo = run_fold (\<lambda>k memo. step memo k) (rev (take i ks)) memo"
proof (induction i arbitrary: memo)
  case (Suc i)
  then have "take (Suc i) ks = take i ks @ [ks ! i]" by (simp add: take_Suc_conv_app_nth)
  moreover have "reduce_loop False step ks (int i - 1) = run_fold (\<lambda>k memo. step memo k) (rev (take i ks))"
    by (rule ext) (use Suc in simp)
  ultimately show ?case using Suc.prems by (subst reduce_loop.simps) simp
qed (simp add: reduce_loop.simps)

lemma run_fold_keys:
  assumes "set es \<subseteq> set (entries obj)"
  shows "run_fold (\<lambda>k acc. f (value_at obj k) k acc) (map snd es) m = run_fold (\<lambda>e acc. f (fst e) (snd e) acc) es m"
  using assms
proof (induction es arbitrary: m)
  case (Cons e es)
  then show ?case by (auto intro!: and_do_cong dest: entries_value)
qed simp

lemma createReduce_memo:
  "createReduce up w obj iter (Some m) context =
     run_fold (\<lambda>e acc. optimizeCb (apply_val w iter) context (int_val 4) Undefined [acc, fst e, snd e, obj])
       (if up then entries obj else rev (entries obj)) m"
proof -
  let ?step = "\<lambda>acc key. optimizeCb (apply_val w iter) context (int_val 4) Undefined [acc, value_at obj key, key, obj]"
  have "run_fold (\<lambda>k memo. ?step memo k) (map snd es) m =
      run_fold (\<lambda>e acc. optimizeCb (apply_val w iter) context (int_val 4) Undefined [acc, fst e, snd e, obj]) es m"
    if "set es \<subseteq> set (entries obj)" for es
    using run_fold_keys [OF that, of "\<lambda>v k acc. optimizeCb (apply_val w iter) context (int_val 4) Undefined [acc, v, k, obj]"]
    by simp
  then show ?thesis
    using reduce_loop_up [of ?step "loop_keys obj" 0 m] reduce_loop_down [of "length (loop_keys obj)" "loop_keys obj" ?step m]
    by (simp add: createReduce_def Let_def loop_keys_entries rev_map)
qed

lemma first_memo_entry:
  assumes "entries obj = e # es"
  shows "first_memo obj 0 = yields (fst e)"
proof (cases "isArrayLike obj")
  case True
  then have "fst e = get_index obj 0" "\<not> is_nil obj"
    using assms by (auto simp: entries_def loop_keys_def value_at_def upt_eq_Cons_conv isArrayLike_def is_nil_def
        getLength_def split: if_splits)
  with True show ?thesis using get_index_eq [of 0 obj] by (simp add: first_memo_def read_prop_def)
next
  case False
  then obtain k ks where ks: "keys obj = k # ks" "fst e = get obj k"
    using assms by (auto simp: entries_def loop_keys_def value_at_def split: if_splits)
  then have "\<not> is_nil obj" using keys_nil by fastforce
  with False ks show ?thesis by (simp add: first_memo_def read_prop_def at_def)
qed

text \<open>
  With an initial value, \<open>reduce\<close> calls the iteratee on the entries in order and \<open>reduceRight\<close> in
  the reverse order, each call on the result of the one before, until one throws.
\<close>

theorem reduce_folds:
  "reduce w obj iter (Some m) context =
     run_fold (\<lambda>e acc. optimizeCb (apply_val w iter) context (int_val 4) Undefined [acc, fst e, snd e, obj])
       (entries obj) m \<and>
   reduceRight w obj iter (Some m) context =
     run_fold (\<lambda>e acc. optimizeCb (apply_val w iter) context (int_val 4) Undefined [acc, fst e, snd e, obj])
       (rev (entries obj)) m"
  by (simp add: reduce_def reduceRight_def createReduce_memo)

text \<open>Without an initial value, \<open>reduce\<close> starts from the first element of a collection that has one.\<close>

lemma reduce_without_memo:
  "entries obj = e # es \<Longrightarrow> reduce w obj iter None context =
     run_fold (\<lambda>e acc. optimizeCb (apply_val w iter) context (int_val 4) Undefined [acc, fst e, snd e, obj])
       es (fst e)"
proof -
  let ?step = "\<lambda>acc key. optimizeCb (apply_val w iter) context (int_val 4) Undefined [acc, value_at obj key, key, obj]"
  assume e: "entries obj = e # es"
  have "reduce w obj iter None context = reduce_loop True ?step (map snd (e # es)) 1 (fst e)"
    by (simp add: reduce_def createReduce_def first_memo_entry [OF e] loop_keys_entries e)
  also have "\<dots> = run_fold (\<lambda>k memo. ?step memo k) (map snd es) (fst e)"
    using reduce_loop_up [of ?step "map snd (e # es)" 1] by simp
  also have "\<dots> = run_fold (\<lambda>e acc. optimizeCb (apply_val w iter) context (int_val 4) Undefined [acc, fst e, snd e, obj])
       es (fst e)"
    using run_fold_keys [of es obj "\<lambda>v k acc. optimizeCb (apply_val w iter) context (int_val 4) Undefined [acc, v, k, obj]"] e
    by auto
  finally show "reduce w obj iter None context = \<dots>" .
qed

text \<open>
  On \<open>undefined\<close> and \<open>null\<close>, \<open>reduce\<close> and \<open>reduceRight\<close> return an initial value unchanged, and
  raise a type error when there is none, without a call of the iteratee.
\<close>

theorem reduce_nothing:
  assumes "is_nil obj"
  shows "createReduce up w obj iter (Some m) context = yields m \<and>
    createReduce up w obj iter None context = raises (Engine TypeError)"
proof -
  have "\<not> isArrayLike obj" using assms by (auto simp: is_nil_def isArrayLike_def getLength_def)
  with assms show ?thesis
    by (simp add: createReduce_def first_memo_def read_prop_def loop_keys_def reduce_loop.simps [of _ _ "[]"])
qed

lemma reduce_nothing_witness:
  "createReduce True unit_world Null (Function 0 1) (Some (int_val 2)) Undefined = yields (int_val 2) \<and>
    createReduce True unit_world Null (Function 0 1) None Undefined = raises (Engine TypeError)"
  by (rule reduce_nothing) (simp add: is_nil_def)

section \<open>Sorting is stable\<close>

text \<open>Criteria that the comparison of the language orders like the keys of a linear order.\<close>

definition ordered_by :: "'s world \<Rightarrow> ('k::linorder \<Rightarrow> jsval) \<Rightarrow> bool" where
  "ordered_by w enc \<longleftrightarrow>
     (\<forall>a b. (less_val w (enc a) (enc b) \<longleftrightarrow> a < b) \<and> (strict_eq (enc a) (enc b) \<longleftrightarrow> a = b) \<and> enc a \<noteq> Undefined)"

lemma ordered_by_int: "ordered_by w int_val"
  by (auto simp: ordered_by_def less_val_def num_eq_def)

lemma ordered_by_String: "ordered_by w String"
  by (auto simp: ordered_by_def less_val_def)

text \<open>A criterion that may be \<open>undefined\<close>, and the order in which the comparison puts such criteria.\<close>

definition criterion_val :: "('k \<Rightarrow> jsval) \<Rightarrow> 'k option \<Rightarrow> jsval" where
  "criterion_val enc c = (case c of None \<Rightarrow> Undefined | Some k \<Rightarrow> enc k)"

fun before :: "'k::linorder option \<Rightarrow> 'k option \<Rightarrow> bool" where
  "before (Some a) (Some b) = (a < b)"
| "before (Some a) None = True"
| "before None _ = False"

lemma before_trans: "before x y \<Longrightarrow> before y z \<Longrightarrow> before x z"
  by (cases x; cases y; cases z) auto

lemma before_flip: "before a b \<or> a = b \<and> i < j \<longleftrightarrow> \<not> (before b a \<or> b = a \<and> j \<le> (i :: nat))"
  by (cases a; cases b) auto

lemma before_chain:
  "before a b \<or> a = b \<and> i \<le> j \<Longrightarrow> before b c \<or> b = c \<and> j \<le> k \<Longrightarrow> before a c \<or> a = c \<and> i \<le> (k :: nat)"
  using before_trans [of a b c] by auto

lemma before_cases: "before x y \<and> \<not> before y x \<and> x \<noteq> y \<or> before y x \<and> \<not> before x y \<and> x \<noteq> y \<or> x = y \<and> \<not> before x y"
  by (cases x; cases y) auto

lemma less_val_Undefined [simp]: "\<not> less_val w Undefined v"
  by (cases v) (simp_all add: less_val_def)

lemma compare_criteria_eq:
  assumes "ordered_by w enc" "c_criteria x = criterion_val enc a" "c_criteria y = criterion_val enc b"
  shows "compare_criteria w x y =
    (if before b a then 1 else if before a b then -1 else int (c_index x) - int (c_index y))"
proof -
  have enc: "less_val w (enc k) (enc l) \<longleftrightarrow> k < l" "strict_eq (enc k) (enc l) \<longleftrightarrow> k = l" "enc k \<noteq> Undefined" for k l
    using assms(1) by (auto simp: ordered_by_def)
  have undef: "strict_eq v Undefined \<longleftrightarrow> v = Undefined" "strict_eq Undefined v \<longleftrightarrow> v = Undefined" for v
    by (cases v; simp)+
  show ?thesis
    using assms(2,3) enc
    by (cases a; cases b) (auto simp: compare_criteria_def Let_def criterion_val_def undef)
qed

text \<open>
  The record of an entry: the position breaks the ties, so the comparison is consistent and no two
  records are equal for it.
\<close>

definition criterion_of ::
  "('k \<Rightarrow> jsval) \<Rightarrow> (jsval \<times> jsval \<Rightarrow> 'k option) \<Rightarrow> nat \<times> jsval \<times> jsval \<Rightarrow> criterion"
where
  "criterion_of enc crit p =
     \<lparr>c_value = fst (snd p), c_index = fst p, c_criteria = criterion_val enc (crit (snd p))\<rparr>"

lemma compare_records:
  assumes "ordered_by w enc"
  shows "compare_criteria w (criterion_of enc crit p) (criterion_of enc crit q) \<le> 0 \<longleftrightarrow>
      before (crit (snd p)) (crit (snd q)) \<or> crit (snd p) = crit (snd q) \<and> fst p \<le> fst q" (is ?le)
    and "compare_criteria w (criterion_of enc crit p) (criterion_of enc crit q) = 0 \<longleftrightarrow>
      crit (snd p) = crit (snd q) \<and> fst p = fst q" (is ?eq)
    and "compare_criteria w (criterion_of enc crit p) (criterion_of enc crit q) < 0 \<longleftrightarrow>
      before (crit (snd p)) (crit (snd q)) \<or> crit (snd p) = crit (snd q) \<and> fst p < fst q" (is ?less)
proof -
  let ?a = "crit (snd p)" and ?b = "crit (snd q)"
  have eq: "compare_criteria w (criterion_of enc crit p) (criterion_of enc crit q) =
      (if before ?b ?a then 1 else if before ?a ?b then -1 else int (fst p) - int (fst q))"
    by (subst compare_criteria_eq [OF assms, where a = ?a and b = ?b]) (simp_all add: criterion_of_def)
  show ?le ?eq ?less unfolding eq using before_cases [of ?a ?b] by auto
qed

lemma compare_consistent:
  assumes "ordered_by w enc"
  shows "consistent_on (criterion_of enc crit ` P) (compare_criteria w)"
proof -
  note cmp = compare_records [OF assms]
  let ?cmp = "\<lambda>p q. compare_criteria w (criterion_of enc crit p) (criterion_of enc crit q)"
  have "?cmp p p = 0" for p by (simp add: cmp(2))
  moreover have "?cmp p q < 0 \<longleftrightarrow> 0 < ?cmp q p" for p q
  proof -
    have "0 < ?cmp q p \<longleftrightarrow> \<not> ?cmp q p \<le> 0" by auto
    then show ?thesis unfolding cmp(1,3) before_flip by (rule sym)
  qed
  moreover have "?cmp p r \<le> 0" if "?cmp p q \<le> 0" "?cmp q r \<le> 0" for p q r
    using that unfolding cmp(1) by (rule before_chain)
  ultimately show ?thesis unfolding consistent_on_def by auto
qed

subsection \<open>The reference\<close>

text \<open>The stable sort of the library, seen on entries with their positions.\<close>

lemma sort_key_positions:
  fixes key :: "'a \<Rightarrow> 'k::linorder"
  assumes "sorted_wrt (\<lambda>x y. idx x \<le> (idx y :: nat)) xs"
  shows "sorted_wrt (\<lambda>x y. key x < key y \<or> key x = key y \<and> idx x \<le> idx y) (sort_key key xs)"
  using assms
proof (induction xs)
  case (Cons x xs)
  have "sorted_wrt (\<lambda>x y. key x < key y \<or> key x = key y \<and> idx x \<le> idx y) (insort_key key x ys)"
    if "sorted_wrt (\<lambda>x y. key x < key y \<or> key x = key y \<and> idx x \<le> idx y) ys" "\<forall>y \<in> set ys. idx x \<le> idx y" for ys
    using that
  proof (induction ys)
    case (Cons y ys)
    then show ?case by (fastforce simp: set_insort_key)
  qed simp
  with Cons show ?case by simp
qed simp

lemma map_insort_key: "map f (insort_key (\<lambda>x. key (f x)) x ys) = insort_key key (f x) (map f ys)"
  by (induction ys) auto

lemma map_sort_key: "map f (sort_key (\<lambda>x. key (f x)) xs) = sort_key key (map f xs)"
  by (induction xs) (simp_all add: map_insort_key)

text \<open>
  The stable sort by criteria: first the entries that have one, in its order, then those whose
  criterion is \<open>undefined\<close>; entries of equal criteria keep their order.
\<close>

definition stable_sort :: "('a \<Rightarrow> 'k::linorder option) \<Rightarrow> 'a list \<Rightarrow> 'a list" where
  "stable_sort crit xs =
     sort_key (\<lambda>x. the (crit x)) (filter (\<lambda>x. crit x \<noteq> None) xs) @ filter (\<lambda>x. crit x = None) xs"

lemma map_stable_sort: "map f (stable_sort (\<lambda>x. crit (f x)) xs) = stable_sort crit (map f xs)"
  using map_sort_key [of f "\<lambda>x. the (crit x)" "filter (\<lambda>x. crit (f x) \<noteq> None) xs"]
  by (simp add: stable_sort_def filter_map comp_def)

lemma mset_stable_sort: "mset (stable_sort crit xs) = mset xs"
proof -
  have "mset (filter (\<lambda>x. crit x \<noteq> None) xs) + mset (filter (\<lambda>x. crit x = None) xs) = mset xs"
    by (induction xs) auto
  then show ?thesis by (simp add: stable_sort_def)
qed

lemma stable_sort_positions:
  assumes "sorted_wrt (\<lambda>x y. idx x \<le> (idx y :: nat)) xs"
  shows "sorted_wrt (\<lambda>x y. before (crit x) (crit y) \<or> crit x = crit y \<and> idx x \<le> idx y) (stable_sort crit xs)"
proof -
  let ?R = "\<lambda>x y. before (crit x) (crit y) \<or> crit x = crit y \<and> idx x \<le> idx y"
  let ?S = "\<lambda>x y. the (crit x) < the (crit y) \<or> the (crit x) = the (crit y) \<and> idx x \<le> idx y"
  have "sorted_wrt ?S (sort_key (\<lambda>x. the (crit x)) (filter (\<lambda>x. crit x \<noteq> None) xs))"
    by (rule sort_key_positions) (rule sorted_wrt_filter [OF assms])
  then have "sorted_wrt ?R (sort_key (\<lambda>x. the (crit x)) (filter (\<lambda>x. crit x \<noteq> None) xs))"
    by (rule sorted_wrt_mono_rel [rotated]) auto
  moreover have "sorted_wrt ?R (filter (\<lambda>x. crit x = None) xs)"
    by (rule sorted_wrt_mono_rel [OF _ sorted_wrt_filter [OF assms]]) auto
  ultimately show ?thesis by (auto simp: stable_sort_def sorted_wrt_append)
qed

text \<open>
  C29: \<open>sortBy\<close> is the stable sort of the values by their criteria, whatever order the sort of the
  engine leaves equal elements in: the values come in the order of the criteria, those whose
  criterion is \<open>undefined\<close> last, and values of equal criteria keep the order of the collection. The
  criteria are integers, strings or other values that the language compares as a linear order.
\<close>

theorem sortBy_stable:
  assumes "engine_sort sort_fn" "ordered_by w enc"
    and "pure_callback w iter context (\<lambda>v k. criterion_val enc (crit v k))"
  shows "sortBy sort_fn w obj iter context =
    yields (map fst (stable_sort (\<lambda>e. crit (fst e) (snd e)) (entries obj)))"
proof -
  let ?crit = "\<lambda>e. crit (fst e) (snd e)" and ?es = "enumerate 0 (entries obj)"
  let ?mk = "criterion_of enc ?crit"
  let ?sorted = "stable_sort (\<lambda>p. ?crit (snd p)) ?es"
  have "sortBy sort_fn w obj iter context = yields (map c_value (sort_fn (compare_criteria w) (map ?mk ?es)))"
    unfolding sortBy_def Let_def
    by (subst run_map_yields [where g = ?mk]) (auto simp: criterion_of_def pure_callbackD [OF assms(3)])
  also have "sort_fn (compare_criteria w) (map ?mk ?es) = map ?mk ?sorted"
  proof (rule engine_sort_eq [OF assms(1)])
    show "consistent_on (set (map ?mk ?es)) (compare_criteria w)"
      using compare_consistent [OF assms(2)] by simp
    show "mset (map ?mk ?sorted) = mset (map ?mk ?es)" by (simp add: mset_stable_sort)
    have "sorted_wrt (\<lambda>p q. fst p \<le> fst q) ?es"
      by (auto simp: sorted_wrt_iff_nth_less nth_enumerate_eq)
    from stable_sort_positions [OF this, of "\<lambda>p. ?crit (snd p)"]
    show "sorted_wrt (\<lambda>a b. compare_criteria w a b \<le> 0) (map ?mk ?sorted)"
      by (simp add: sorted_wrt_map compare_records [OF assms(2)])
    show "a = b" if ab: "a \<in> set (map ?mk ?es)" "b \<in> set (map ?mk ?es)" "compare_criteria w a b = 0" for a b
    proof -
      from ab(1,2) obtain p q where p: "p \<in> set ?es" "q \<in> set ?es" "a = ?mk p" "b = ?mk q" by auto
      with ab(3) have "fst p = fst q" by (simp add: compare_records [OF assms(2)])
      with p show ?thesis by (auto simp: set_zip enumerate_eq_zip)
    qed
  qed
  also have "map c_value (map ?mk ?sorted) = map fst (map snd ?sorted)"
    by (simp add: criterion_of_def)
  also have "map snd ?sorted = stable_sort ?crit (entries obj)"
    using map_stable_sort [of snd ?crit ?es] by simp
  finally show ?thesis .
qed

text \<open>An engine whose sort turns equal elements round, and a criterion that is \<open>undefined\<close> for one value.\<close>

definition example_criterion :: "jsval \<Rightarrow> int option" where
  "example_criterion v = (if v = int_val 5 then None else Some (bucket v))"

definition criterion_world :: "unit world" where
  "criterion_world = \<lparr>call = \<lambda>i this args. yields (criterion_val int_val (example_criterion (arg args 0))),
     number_of = \<lambda>v. NaN, text_of = \<lambda>v. [], math_random = yields 0\<rparr>"

lemma sortBy_stable_witness:
  "sortBy turning_sort criterion_world example_array (Function 0 1) Undefined =
     yields [int_val 3, int_val 1, int_val 4, int_val 5]"
proof -
  have "pure_callback criterion_world (Function 0 1) Undefined (\<lambda>v k. criterion_val int_val (example_criterion v))"
    by (rule pure_callback_call) (simp add: criterion_world_def)
  from sortBy_stable [OF engine_sort_turning ordered_by_int this, of example_array]
  show ?thesis by (simp add: example_entries example_criterion_def bucket_def stable_sort_def)
qed

section \<open>Groups\<close>

text \<open>
  The reference: the values grouped by their keys, the keys in the order of their first
  appearance, the values of a key in the order of the collection.
\<close>

definition group_keys :: "('e \<Rightarrow> jstring) \<Rightarrow> 'e list \<Rightarrow> jstring list" where
  "group_keys key es = fold add_key (map key es) []"

definition group_of :: "('e \<times> 'b \<Rightarrow> jstring) \<Rightarrow> ('e \<times> 'b) list \<Rightarrow> jstring \<Rightarrow> 'e list" where
  "group_of key es k = map fst (filter (\<lambda>e. key e = k) es)"

lemma set_group_keys [simp]: "set (group_keys key es) = key ` set es"
proof -
  have "set (fold add_key ks acc) = set ks \<union> set acc" for ks acc
    by (induction ks arbitrary: acc) auto
  then show ?thesis by (simp add: group_keys_def)
qed

lemma distinct_group_keys [simp]: "distinct (group_keys key es)"
proof -
  have "distinct acc \<Longrightarrow> distinct (fold add_key ks acc)" for ks acc
    by (induction ks arbitrary: acc) auto
  then show ?thesis by (simp add: group_keys_def)
qed

lemma group_of_snoc: "group_of key (es @ [e]) k = group_of key es k @ (if key e = k then [fst e] else [])"
  by (simp add: group_of_def)

lemma group_of_fresh: "k \<notin> key ` set es \<Longrightarrow> group_of key es k = []"
  by (auto simp: group_of_def filter_empty_conv)

lemma group_keys_snoc: "group_keys key (es @ [e]) = add_key (key e) (group_keys key es)"
  by (simp add: group_keys_def)

lemma put_map_keys:
  "distinct ks \<Longrightarrow> put k v (map (\<lambda>k. (k, F k)) ks) = map (\<lambda>k'. (k', (F(k := v)) k')) (add_key k ks)"
  by (induction ks) (auto simp: add_key_def)

lemma map_of_map_keys: "map_of (map (\<lambda>k. (k, F k)) ks) k = (if k \<in> set ks then Some (F k) else None)"
  by (induction ks) auto

text \<open>
  A grouping whose behavior is to put a value computed from what the key has so far.
\<close>

lemma group_fold:
  assumes behavior: "\<And>result v k. behavior result v k = put k (extend_by (map_of result k) v) result"
    and summary: "\<And>es e. F (es @ [e]) = (F es)(key e := extend_by (if key e \<in> key ` set es then Some (F es (key e)) else None) (fst e))"
  shows "fold (\<lambda>e result. behavior result (fst e) (key e)) es [] = map (\<lambda>k. (k, F es k)) (group_keys key es)"
proof (induction es rule: rev_induct)
  case (snoc e es)
  let ?r = "map (\<lambda>k. (k, F es k)) (group_keys key es)"
  have "fold (\<lambda>e result. behavior result (fst e) (key e)) (es @ [e]) [] = behavior ?r (fst e) (key e)"
    by (simp add: snoc.IH)
  also have "\<dots> = put (key e) (extend_by (if key e \<in> key ` set es then Some (F es (key e)) else None) (fst e)) ?r"
    by (simp only: behavior map_of_map_keys set_group_keys)
  also have "\<dots> = map (\<lambda>k. (k, F (es @ [e]) k)) (group_keys key (es @ [e]))"
    by (simp only: summary put_map_keys [OF distinct_group_keys] group_keys_snoc)
  finally show ?case .
qed (simp add: group_keys_def)

lemma group_pure:
  assumes "pure_callback w iter context g"
  shows "group_us behavior w obj iter context =
    yields (fold (\<lambda>e result. behavior result (fst e) (to_text w (g (fst e) (snd e)))) (entries obj) [])"
  unfolding group_us_def Let_def by (rule run_fold_yields) (simp add: pure_callbackD [OF assms])

text \<open>
  For a pure iteratee, \<open>groupBy\<close> lists for every key the values that have it, in order; \<open>countBy\<close>
  has the lengths of these lists and \<open>indexBy\<close> their last elements.
\<close>

theorem grouping_agrees:
  fixes w :: "'s world" and obj :: jsval
  assumes "pure_callback w iter context g"
  defines "key \<equiv> \<lambda>e. to_text w (g (fst e) (snd e))"
  defines "groups \<equiv> map (\<lambda>k. (k, group_of key (entries obj) k)) (group_keys key (entries obj))"
  shows "groupBy w obj iter context = yields groups \<and>
    countBy w obj iter context = yields (map (apsnd length) groups) \<and>
    indexBy w obj iter context = yields (map (apsnd last) groups)"
proof (intro conjI)
  have run: "group_us behavior w obj iter context =
      yields (fold (\<lambda>e result. behavior result (fst e) (key e)) (entries obj) [])"
    for behavior :: "'r list \<Rightarrow> jsval \<Rightarrow> jstring \<Rightarrow> 'r list"
    by (simp add: group_pure [OF assms(1)] key_def)
  show "groupBy w obj iter context = yields groups"
    unfolding groupBy_def run groups_def
    by (rule arg_cong [of _ _ yields], rule group_fold [where F = "group_of key" and
          extend_by = "\<lambda>old v. case old of Some vs \<Rightarrow> vs @ [v] | None \<Rightarrow> [v]"])
      (auto simp: group_of_snoc group_of_fresh split: option.splits)
  have "countBy w obj iter context = yields (map (\<lambda>k. (k, length (group_of key (entries obj) k))) (group_keys key (entries obj)))"
    unfolding countBy_def run
    by (rule arg_cong [of _ _ yields], rule group_fold [where F = "\<lambda>es k. length (group_of key es k)" and
          extend_by = "\<lambda>old v. case old of Some n \<Rightarrow> Suc n | None \<Rightarrow> 1"])
      (auto simp: group_of_snoc group_of_fresh split: option.splits)
  then show "countBy w obj iter context = yields (map (apsnd length) groups)"
    by (simp add: groups_def comp_def)
  have "indexBy w obj iter context = yields (map (\<lambda>k. (k, last (group_of key (entries obj) k))) (group_keys key (entries obj)))"
    unfolding indexBy_def run
    by (rule arg_cong [of _ _ yields], rule group_fold [where F = "\<lambda>es k. last (group_of key es k)" and extend_by = "\<lambda>old v. v"])
      (auto simp: group_of_snoc)
  then show "indexBy w obj iter context = yields (map (apsnd last) groups)"
    by (simp add: groups_def comp_def)
qed

lemma grouping_agrees_witness:
  "\<exists>groups. groupBy unit_world example_array (Function 0 1) Undefined = yields groups \<and>
    countBy unit_world example_array (Function 0 1) Undefined = yields (map (apsnd length) groups) \<and>
    indexBy unit_world example_array (Function 0 1) Undefined = yields (map (apsnd last) groups)"
  using grouping_agrees [OF example_callback, of example_array] by blast

section \<open>Extremes\<close>

text \<open>
  The comparison of an extreme ranks the integers, above (or below) the value that it starts from.
\<close>

definition ranks :: "(jsval \<Rightarrow> jsval \<Rightarrow> bool) \<Rightarrow> jsval \<Rightarrow> (int \<Rightarrow> int) \<Rightarrow> bool" where
  "ranks better bound rank \<longleftrightarrow>
     (\<forall>a b. better (int_val a) (int_val b) \<longleftrightarrow> rank b < rank a) \<and>
     (\<forall>a. better (int_val a) bound \<and> \<not> strict_eq (int_val a) bound)"

lemma ranks_max: "ranks (\<lambda>a b. less_val w b a) (Number NegInf) (\<lambda>n. n)"
  and ranks_min: "ranks (less_val w) (Number PosInf) uminus"
  by (auto simp: ranks_def less_val_def num_eq_def)

lemma extreme_fold:
  assumes "ranks better bound rank"
  shows "\<exists>e \<in> set (e0 # es).
    fold (\<lambda>e (result, last). if better (int_val (c e)) last \<or> strict_eq (int_val (c e)) bound \<and> strict_eq result bound
        then (fst e, int_val (c e)) else (result, last)) es (fst e0, int_val (c e0)) = (fst e, int_val (c e)) \<and>
    (\<forall>x \<in> set (e0 # es). rank (c x) \<le> rank (c e))"
proof (induction es arbitrary: e0)
  case (Cons x es)
  let ?step = "\<lambda>e (result, last). if better (int_val (c e)) last \<or> strict_eq (int_val (c e)) bound \<and> strict_eq result bound
      then (fst e, int_val (c e)) else (result, last)"
  define e1 where "e1 = (if rank (c e0) < rank (c x) then x else e0)"
  have more: "fold ?step (x # es) (fst e0, int_val (c e0)) = fold ?step es (fst e1, int_val (c e1))"
    using assms by (simp add: ranks_def e1_def)
  obtain e where "e \<in> set (e1 # es)" "fold ?step es (fst e1, int_val (c e1)) = (fst e, int_val (c e))"
      "\<forall>y \<in> set (e1 # es). rank (c y) \<le> rank (c e)"
    using Cons [of e1] by blast
  then show ?case
    unfolding more by (intro bexI [of _ e]) (auto simp: e1_def split: if_splits)
qed simp

lemma extreme_by_pure:
  assumes "ranks better bound rank" "entries obj \<noteq> []"
    and "\<And>e. e \<in> set (entries obj) \<Longrightarrow> visit f obj e = yields (int_val (c e))"
  shows "\<exists>e \<in> set (entries obj). extreme_by better bound f obj = yields (fst e) \<and>
    (\<forall>x \<in> set (entries obj). rank (c x) \<le> rank (c e))"
proof -
  let ?step = "\<lambda>e (result, last). if better (int_val (c e)) last \<or> strict_eq (int_val (c e)) bound \<and> strict_eq result bound
      then (fst e, int_val (c e)) else (result, last)"
  have "extreme_by better bound f obj =
      and_do (yields (fold ?step (entries obj) (bound, bound))) (\<lambda>(result, _). yields result)"
    unfolding extreme_by_def
    by (subst run_fold_yields [where g = ?step]) (auto simp: assms(3) split: prod.splits)
  moreover obtain e0 es where es: "entries obj = e0 # es" using assms(2) by (cases "entries obj") auto
  then have "fold ?step (entries obj) (bound, bound) = fold ?step es (fst e0, int_val (c e0))"
    using assms(1) by (simp add: ranks_def)
  moreover obtain e where "e \<in> set (e0 # es)" "fold ?step es (fst e0, int_val (c e0)) = (fst e, int_val (c e))"
      "\<forall>x \<in> set (e0 # es). rank (c x) \<le> rank (c e)"
    using extreme_fold [OF assms(1), of e0 es c] by blast
  ultimately show ?thesis
    unfolding es by (intro bexI [of _ e]) simp_all
qed

lemma extreme_pure:
  assumes "ranks better bound rank" "\<not> is_nil iter"
    and "pure_callback w iter context (\<lambda>v k. int_val (crit v k))" "entries obj \<noteq> []"
  shows "\<exists>e \<in> set (entries obj). extreme better bound w obj iter context = yields (fst e) \<and>
    (\<forall>x \<in> set (entries obj). rank (crit (fst x) (snd x)) \<le> rank (crit (fst e) (snd e)))"
  using extreme_by_pure [OF assms(1,4), of "cb w iter context Undefined" "\<lambda>e. crit (fst e) (snd e)"]
    assms(2) by (simp add: extreme_def pure_callbackD [OF assms(3)])

text \<open>
  With integer criteria, \<open>max\<close> and \<open>min\<close> return an element of greatest and of least criterion.
\<close>

theorem max_min_extreme:
  assumes "\<not> is_nil iter" "pure_callback w iter context (\<lambda>v k. int_val (crit v k))" "entries obj \<noteq> []"
  shows "(\<exists>e \<in> set (entries obj). max_us w obj iter context = yields (fst e) \<and>
      (\<forall>x \<in> set (entries obj). crit (fst x) (snd x) \<le> crit (fst e) (snd e))) \<and>
    (\<exists>e \<in> set (entries obj). min_us w obj iter context = yields (fst e) \<and>
      (\<forall>x \<in> set (entries obj). crit (fst e) (snd e) \<le> crit (fst x) (snd x)))"
  using extreme_pure [OF ranks_max [of w] assms] extreme_pure [OF ranks_min [of w] assms]
  by (auto simp: max_us_def min_us_def)

section \<open>Shuffling\<close>

text \<open>\<open>certain m P\<close>: the program \<open>m\<close> never throws, and every result of it satisfies \<open>P\<close>.\<close>

definition certain :: "('s, 'a) prog \<Rightarrow> ('a \<Rightarrow> bool) \<Rightarrow> bool" where
  "certain m P \<longleftrightarrow> (\<forall>s. \<exists>x s'. m s = (Inr x, s') \<and> P x)"

lemma certain_yields: "P x \<Longrightarrow> certain (yields x) P"
  by (simp add: certain_def yields_def)

lemma certain_and_do: "certain m R \<Longrightarrow> (\<And>x. R x \<Longrightarrow> certain (f x) P) \<Longrightarrow> certain (and_do m f) P"
proof (unfold certain_def, rule allI)
  fix s
  assume m: "\<forall>s. \<exists>x s'. m s = (Inr x, s') \<and> R x" and f: "\<And>x. R x \<Longrightarrow> \<forall>s. \<exists>y s'. f x s = (Inr y, s') \<and> P y"
  obtain x s' where "m s = (Inr x, s')" "R x" using m by blast
  with f [of x] show "\<exists>y s'. and_do m f s = (Inr y, s') \<and> P y" by (simp add: and_do_def)
qed

lemma certain_weaken: "certain m P \<Longrightarrow> (\<And>x. P x \<Longrightarrow> Q x) \<Longrightarrow> certain m Q"
  unfolding certain_def by blast

lemma certain_fold_upt:
  assumes "\<And>i acc. i < n \<Longrightarrow> I i acc \<Longrightarrow> certain (f i acc) (I (Suc i))" "I 0 acc"
  shows "certain (run_fold f [0..<n] acc) (I n)"
  using assms
proof (induction n)
  case (Suc n)
  then show ?case by (auto simp: run_fold_append intro!: certain_and_do [of _ "I n"])
qed (simp add: certain_yields)

text \<open>A generator of random numbers in the unit interval.\<close>

definition unit_random :: "'s world \<Rightarrow> bool" where
  "unit_random w \<longleftrightarrow> certain (math_random w) (\<lambda>k. k < 2 ^ 53)"

lemma random_range:
  assumes "unit_random w" "lo \<le> hi"
  shows "certain (random_us w lo hi) (\<lambda>r. lo \<le> r \<and> r \<le> hi)"
proof -
  have "lo \<le> lo + int k * (hi - lo + 1) div 2 ^ 53 \<and> lo + int k * (hi - lo + 1) div 2 ^ 53 \<le> hi"
    if "k < 2 ^ 53" for k :: nat
  proof -
    have "int k * (hi - lo + 1) < 2 ^ 53 * (hi - lo + 1)"
      using that assms(2) by (intro mult_strict_right_mono) auto
    then have "int k * (hi - lo + 1) div 2 ^ 53 \<le> (- 1 + (hi - lo + 1) * 2 ^ 53) div 2 ^ 53"
      by (intro zdiv_mono1) (simp_all add: mult.commute)
    also have "\<dots> = (hi - lo + 1) + (- 1) div 2 ^ 53" by (rule div_mult_self1) simp
    finally have "int k * (hi - lo + 1) div 2 ^ 53 \<le> hi - lo" by simp
    moreover have "0 \<le> int k * (hi - lo + 1) div 2 ^ 53" using assms(2) by (simp add: pos_imp_zdiv_nonneg_iff)
    ultimately show ?thesis by simp
  qed
  then show ?thesis
    unfolding random_us_def
    by (intro certain_and_do [OF assms(1) [unfolded unit_random_def]] certain_yields)
qed

lemma mset_take_Suc: "i < length ys \<Longrightarrow> mset (take (Suc i) ys) = add_mset (ys ! i) (mset (take i ys))"
  by (simp add: take_Suc_conv_app_nth)

lemma shuffle_swap:
  assumes "i < length ys" "r \<le> i"
  shows "mset (take (Suc i) ((if r \<noteq> i then ys[i := nth_val ys r] else ys)[r := x])) = add_mset x (mset (take i ys))"
proof (cases "r = i")
  case True
  with assms(1) show ?thesis by (simp add: mset_take_Suc)
next
  case False
  then have "r < i" using assms(2) by simp
  have "mset (take (Suc i) (ys[i := nth_val ys r, r := x])) = add_mset (ys ! r) (mset ((take i ys)[r := x]))"
    using \<open>r < i\<close> assms(1) by (subst mset_take_Suc) (simp_all add: take_update_swap nth_val_def list_update_beyond)
  also have "mset ((take i ys)[r := x]) = add_mset x (mset (take i ys) - {#ys ! r#})"
    using \<open>r < i\<close> assms(1) by (simp add: mset_update)
  also have "add_mset (ys ! r) (add_mset x (mset (take i ys) - {#ys ! r#})) = add_mset x (mset (take i ys))"
  proof -
    have "ys ! r \<in> set (take i ys)"
      using \<open>r < i\<close> assms(1) by (auto simp: in_set_conv_nth intro!: exI [of _ r])
    then show ?thesis by (simp add: add_mset_commute)
  qed
  finally show ?thesis using False by simp
qed

text \<open>
  Whatever random numbers are drawn, \<open>shuffle\<close> returns a permutation of the values.
\<close>

theorem shuffle_permutes:
  assumes "unit_random w"
  shows "certain (shuffle w obj) (\<lambda>ys. mset ys = mset (toArray obj))"
proof -
  let ?xs = "toArray obj"
  define I where "I i acc \<longleftrightarrow> length acc = length ?xs \<and> mset (take i acc) = mset (take i ?xs)" for i and acc :: "jsval list"
  have step: "certain (shuffle_step w ?xs i acc) (I (Suc i))" if i: "i < length ?xs" and acc: "I i acc" for i acc
    unfolding shuffle_step_def Let_def
  proof (rule certain_and_do [OF random_range [OF assms]])
    fix r
    assume r: "0 \<le> r \<and> r \<le> int i"
    then have "nat r \<le> i" by linarith
    with i acc shuffle_swap [of i acc "nat r" "?xs ! i"]
    show "certain (yields ((if nat r \<noteq> i then acc[i := nth_val acc (nat r)] else acc)[nat r := ?xs ! i])) (I (Suc i))"
      by (intro certain_yields) (simp add: I_def mset_take_Suc)
  qed simp
  have "shuffle w obj = run_fold (shuffle_step w ?xs) [0..<length ?xs] (replicate (length ?xs) Undefined)"
    by (simp add: shuffle_def Let_def toArray_entries map_fst_entries)
  moreover have "certain \<dots> (I (length ?xs))"
    by (rule certain_fold_upt) (simp_all add: step, simp add: I_def)
  ultimately have "certain (shuffle w obj) (I (length ?xs))" by simp
  then show ?thesis by (rule certain_weaken) (metis I_def order_refl take_all)
qed

end
