(* ===== verification/Underscore_Arrays.thy ===== *)
theory Underscore_Arrays
  imports Underscore_Collections
begin

text \<open>
  The collection library of \<open>wordcut.js\<close> (module 25), the array functions: ends of arrays,
  flattening, search by value and by order, sets as arrays without duplicates, parallel lists, and
  ranges.

  An array argument is the list of its elements (\<open>elems\<close>); \<open>undefined\<close> and \<open>null\<close>, for which the
  loops do not run, are the empty list.
\<close>

section \<open>Ends of arrays\<close>

text \<open>\<open>slice.call(xs, from, to)\<close>, where a negative position counts from the end.\<close>

definition slice_pos :: "'a list \<Rightarrow> int \<Rightarrow> nat" where
  "slice_pos xs i = (if i < 0 then nat (i + int (length xs)) else nat (min i (int (length xs))))"

definition slice_between :: "'a list \<Rightarrow> int \<Rightarrow> int \<Rightarrow> 'a list" where
  "slice_between xs a b = slice xs (slice_pos xs a) (slice_pos xs b)"

text \<open>
  The count \<open>n\<close> of these functions is absent (\<open>None\<close>) also when the guard is set. \<open>initial\<close> and
  \<open>rest\<close> return arrays; \<open>first\<close> and \<open>last\<close> one element without a count, and an array with one.
\<close>

definition initial :: "'a list \<Rightarrow> int option \<Rightarrow> 'a list" where
  "initial xs n = slice_between xs 0 (max 0 (int (length xs) - (case n of None \<Rightarrow> 1 | Some n \<Rightarrow> n)))"

definition first_one :: "jsval list \<Rightarrow> jsval" where
  "first_one xs = nth_val xs 0"

definition first_us :: "'a list \<Rightarrow> int \<Rightarrow> 'a list" where
  "first_us xs n = initial xs (Some (int (length xs) - n))"

definition rest :: "'a list \<Rightarrow> int option \<Rightarrow> 'a list" where
  "rest xs n = slice_between xs (case n of None \<Rightarrow> 1 | Some n \<Rightarrow> n) (int (length xs))"

definition last_one :: "jsval list \<Rightarrow> jsval" where
  "last_one xs = (if xs = [] then Undefined else nth_val xs (length xs - 1))"

definition last_us :: "'a list \<Rightarrow> int \<Rightarrow> 'a list" where
  "last_us xs n = rest xs (Some (max 0 (int (length xs) - n)))"

definition compact :: "jsval list \<Rightarrow> jsval list" where
  "compact xs = filter truthy xs"

section \<open>Flattening\<close>

text \<open>The elements of a value that \<open>flatten\<close> opens: an array or an arguments object.\<close>

fun nested :: "jsval \<Rightarrow> jsval list option" where
  "nested (Array _ xs) = Some xs"
| "nested (Arguments _ xs) = Some xs"
| "nested _ = None"

lemma size_nested [termination_simp]: "nested v = Some xs \<Longrightarrow> size_list size xs < size v"
  by (cases v) auto

function flatten :: "bool \<Rightarrow> bool \<Rightarrow> jsval list \<Rightarrow> jsval list" where
  "flatten shallow strict [] = []"
| "flatten shallow strict (v # vs) =
     (case nested v of
        Some xs \<Rightarrow> (if \<not> shallow then flatten shallow strict xs else xs)
      | None \<Rightarrow> (if \<not> strict then [v] else [])) @ flatten shallow strict vs"
  by pat_completeness auto

termination
  by (relation "measure (\<lambda>(shallow, strict, vs). size_list size vs)") (auto dest: size_nested)

definition flatten_us :: "jsval list \<Rightarrow> bool \<Rightarrow> jsval list" where
  "flatten_us xs shallow = flatten shallow False xs"

section \<open>Search by order and by value\<close>

text \<open>\<open>sortedIndex\<close>: the binary search, with a callback that sees one argument.\<close>

function sortedIndex_loop ::
  "'s world \<Rightarrow> (jsval \<Rightarrow> ('s, jsval) prog) \<Rightarrow> jsval list \<Rightarrow> jsval \<Rightarrow> nat \<Rightarrow> nat \<Rightarrow> ('s, nat) prog"
where
  "sortedIndex_loop w f xs value low high =
     (if low < high then
        (let mid = (low + high) div 2
         in and_do (f (nth_val xs mid))
              (\<lambda>c. if less_val w c value then sortedIndex_loop w f xs value (mid + 1) high
                    else sortedIndex_loop w f xs value low mid))
      else yields low)"
  by auto

termination
  by (relation "measure (\<lambda>(w, f, xs, value, low, high). high - low)") auto

declare sortedIndex_loop.simps [simp del]

definition sortedIndex :: "'s world \<Rightarrow> jsval list \<Rightarrow> jsval \<Rightarrow> jsval \<Rightarrow> jsval \<Rightarrow> ('s, nat) prog" where
  "sortedIndex w xs obj iter context =
     (let f = (\<lambda>v. cb w iter context (int_val 1) Undefined [v])
      in and_do (f obj) (\<lambda>value. sortedIndex_loop w f xs value 0 (length xs)))"

text \<open>The last argument of \<open>indexOf\<close>: absent, a position, or a true value for a sorted array.\<close>

datatype start = Anywhere | From int | Is_sorted

text \<open>The range of positions of the search, from a first position (included) to a last (excluded).\<close>

definition index_range :: "bool \<Rightarrow> 'a list \<Rightarrow> start \<Rightarrow> int \<times> int" where
  "index_range up xs idx =
     (let len = int (length xs)
      in case idx of
           From n \<Rightarrow>
             (if up then (if n \<ge> 0 then n else max (n + len) 0, len)
              else (0, if n \<ge> 0 then min (n + 1) len else n + len + 1))
         | _ \<Rightarrow> (0, len))"

definition positions :: "bool \<Rightarrow> int \<times> int \<Rightarrow> nat list" where
  "positions up r = (let is = [nat (fst r)..<nat (snd r)] in if up then is else rev is)"

text \<open>
  An item that differs from itself is looked up by \<open>isNaN\<close>, in a slice of the array.
\<close>

definition index_by_value :: "bool \<Rightarrow> jsval list \<Rightarrow> jsval \<Rightarrow> start \<Rightarrow> int" where
  "index_by_value up xs item idx =
     (let r = index_range up xs idx
      in if is_nan item then
           (case find (\<lambda>k. isNaN (slice_between xs (fst r) (snd r) ! k))
               (positions up (0, int (length (slice_between xs (fst r) (snd r))))) of
              Some k \<Rightarrow> int k + fst r | None \<Rightarrow> -1)
         else
           (case find (\<lambda>k. strict_eq (nth_val xs k) item) (positions up r) of Some k \<Rightarrow> int k | None \<Rightarrow> -1))"

definition indexOf_us :: "'s world \<Rightarrow> jsval list \<Rightarrow> jsval \<Rightarrow> start \<Rightarrow> ('s, int) prog" where
  "indexOf_us w xs item idx =
     (if idx = Is_sorted \<and> xs \<noteq> [] then
        and_do (sortedIndex w xs item Undefined Undefined)
          (\<lambda>k. yields (if strict_eq (nth_val xs k) item then int k else -1))
      else yields (index_by_value True xs item idx))"

definition lastIndexOf :: "jsval list \<Rightarrow> jsval \<Rightarrow> start \<Rightarrow> int" where
  "lastIndexOf xs item idx = index_by_value False xs item idx"

text \<open>\<open>contains\<close>: the position counts only when it is a number (\<open>Some\<close>) and the guard is not set.\<close>

definition contains_in :: "jsval list \<Rightarrow> jsval \<Rightarrow> int \<Rightarrow> bool" where
  "contains_in xs item fromIndex \<longleftrightarrow> index_by_value True xs item (From fromIndex) \<ge> 0"

definition contains :: "jsval \<Rightarrow> jsval \<Rightarrow> int option \<Rightarrow> bool \<Rightarrow> bool" where
  "contains obj item fromIndex guard =
     contains_in (if \<not> isArrayLike obj then values_us obj else elems obj) item
       (case fromIndex of Some n \<Rightarrow> if guard then 0 else n | None \<Rightarrow> 0)"

abbreviation contains_list :: "jsval list \<Rightarrow> jsval \<Rightarrow> bool" where
  "contains_list xs item \<equiv> contains_in xs item 0"

section \<open>Arrays as sets\<close>

text \<open>
  \<open>uniq\<close>: \<open>seen\<close> is the last computed value of a sorted array (no value of the array before the
  first element), otherwise the list of the computed values.
\<close>

definition uniq_sorted_step ::
  "(jsval \<Rightarrow> nat \<Rightarrow> ('s, jsval) prog) \<Rightarrow> nat \<times> jsval \<Rightarrow> jsval list \<times> jsval option \<Rightarrow> ('s, jsval list \<times> jsval option) prog"
where
  "uniq_sorted_step f ne rs =
     and_do (f (snd ne) (fst ne)) (\<lambda>computed. yields
       (if fst ne = 0 \<or> (case snd rs of None \<Rightarrow> True | Some s \<Rightarrow> \<not> strict_eq s computed)
        then fst rs @ [snd ne] else fst rs, Some computed))"

definition uniq_by_step ::
  "(jsval \<Rightarrow> nat \<Rightarrow> ('s, jsval) prog) \<Rightarrow> nat \<times> jsval \<Rightarrow> jsval list \<times> jsval list \<Rightarrow> ('s, jsval list \<times> jsval list) prog"
where
  "uniq_by_step f ne rs =
     and_do (f (snd ne) (fst ne)) (\<lambda>computed. yields
       (if \<not> contains_list (snd rs) computed then (fst rs @ [snd ne], snd rs @ [computed]) else rs))"

definition uniq_list :: "jsval list \<Rightarrow> jsval list" where
  "uniq_list xs = fold (\<lambda>v result. if \<not> contains_list result v then result @ [v] else result) xs []"

text \<open>The optional arguments: \<open>isSorted\<close> may be left out before the iteratee.\<close>

definition uniq :: "'s world \<Rightarrow> jsval \<Rightarrow> jsval \<Rightarrow> jsval \<Rightarrow> jsval \<Rightarrow> ('s, jsval list) prog" where
  "uniq w array isSorted iter context =
     (let sorted = (isSorted = Boolean True);
          it = (if isBoolean isSorted then iter else isSorted);
          ctx = (if isBoolean isSorted then context else iter);
          f = (\<lambda>v i. if is_nil it then yields v else cb w it ctx Undefined Undefined [v, index_val i, array])
      in if sorted then
           and_do (run_fold (uniq_sorted_step f) (enumerate 0 (elems array)) ([], None)) (\<lambda>rs. yields (fst rs))
         else if \<not> is_nil it then
           and_do (run_fold (uniq_by_step f) (enumerate 0 (elems array)) ([], [])) (\<lambda>rs. yields (fst rs))
         else yields (uniq_list (elems array)))"

definition union_us :: "jsval list \<Rightarrow> jsval list" where
  "union_us arrays = uniq_list (flatten True True arrays)"

definition intersection :: "jsval list \<Rightarrow> jsval list \<Rightarrow> jsval list" where
  "intersection xs others =
     fold (\<lambda>item result.
       if contains_list result item then result
       else if list_all (\<lambda>other. contains other item None False) others then result @ [item] else result) xs []"

definition difference :: "jsval list \<Rightarrow> jsval list \<Rightarrow> jsval list" where
  "difference xs arrays = (let rest = flatten True True arrays in filter (\<lambda>v. \<not> contains_list rest v) xs)"

definition without_us :: "jsval list \<Rightarrow> jsval list \<Rightarrow> jsval list" where
  "without_us xs items = difference xs [Array 0 items]"

section \<open>Parallel lists\<close>

text \<open>
  \<open>unzip\<close>: the longest array gives the number of rows; row \<open>i\<close> plucks the elements \<open>i\<close>. A length
  that is no number counts as no length.
\<close>

definition unzip_length :: "'s world \<Rightarrow> jsval \<Rightarrow> ('s, nat) prog" where
  "unzip_length w array =
     (if truthy array then
        and_do (extreme_by (\<lambda>a b. less_val w b a) (Number NegInf) (\<lambda>this args. yields (getLength (arg args 0))) array)
          (\<lambda>longest. and_do (read_prop longest (js ''length''))
             (\<lambda>n. yields (case n of Number (Num n) \<Rightarrow> nat n | _ \<Rightarrow> 0)))
      else yields 0)"

definition unzip :: "'s world \<Rightarrow> jsval \<Rightarrow> ('s, jsval list list) prog" where
  "unzip w array =
     and_do (unzip_length w array) (\<lambda>n. yields (map (\<lambda>index. pluck w array (index_val index)) [0..<n]))"

definition zip_us :: "'s world \<Rightarrow> jsval list \<Rightarrow> ('s, jsval list list) prog" where
  "zip_us w arrays = unzip w (Arguments 0 arrays)"

text \<open>\<open>object\<close>: from parallel lists, or from a list of pairs, whose items must not be nil.\<close>

definition object_from_lists :: "'s world \<Rightarrow> jsval list \<Rightarrow> jsval \<Rightarrow> (jstring \<times> jsval) list" where
  "object_from_lists w xs vals =
     fold (\<lambda>(i, k). put (to_text w k) (get_index vals i)) (enumerate 0 xs) []"

definition object_from_pairs :: "'s world \<Rightarrow> jsval list \<Rightarrow> ('s, (jstring \<times> jsval) list) prog" where
  "object_from_pairs w xs =
     run_fold (\<lambda>p result. if is_nil p then raises (Engine TypeError)
       else yields (put (to_text w (get_index p 0)) (get_index p 1) result)) xs []"

definition object_us :: "'s world \<Rightarrow> jsval list \<Rightarrow> jsval \<Rightarrow> ('s, (jstring \<times> jsval) list) prog" where
  "object_us w xs vals = (if truthy vals then yields (object_from_lists w xs vals) else object_from_pairs w xs)"

section \<open>Ranges\<close>

text \<open>\<open>Math.ceil((stop - start) / step)\<close> for integers.\<close>

definition ceil_div :: "int \<Rightarrow> int \<Rightarrow> int" where
  "ceil_div a b = - ((- a) div b)"

fun range_fill :: "nat \<Rightarrow> int \<Rightarrow> int \<Rightarrow> int list" where
  "range_fill 0 start step = []"
| "range_fill (Suc n) start step = start # range_fill n (start + step) step"

definition range_us :: "int \<Rightarrow> int option \<Rightarrow> int \<Rightarrow> int list" where
  "range_us start stop step =
     (let start' = (case stop of None \<Rightarrow> 0 | Some _ \<Rightarrow> start);
          stop' = (case stop of None \<Rightarrow> start | Some n \<Rightarrow> n);
          step' = (if step = 0 then 1 else step)
      in range_fill (nat (max (ceil_div (stop' - start') step') 0)) start' step')"

section \<open>Membership\<close>

text \<open>What \<open>contains\<close> takes as the same value: \<open>===\<close>, and \<open>NaN\<close> is the same as itself.\<close>

definition same :: "jsval \<Rightarrow> jsval \<Rightarrow> bool" where
  "same a b \<longleftrightarrow> strict_eq a b \<or> is_nan a \<and> is_nan b"

lemma same_refl [simp]: "same v v"
  by (simp add: same_def strict_eq_refl)

lemma strict_eq_NaN [simp]: "\<not> strict_eq v (Number NaN)"
  by (cases v) (auto simp: num_eq_def)

lemma same_sym: "same a b \<Longrightarrow> same b a"
  by (auto simp: same_def strict_eq_sym)

lemma same_trans: "same a b \<Longrightarrow> same b c \<Longrightarrow> same a c"
  unfolding same_def using strict_eq_trans by (auto simp: num_eq_def split: jsval.splits)

lemma slice_between_all [simp]: "slice_between xs 0 (int (length xs)) = xs"
  by (simp add: slice_between_def slice_pos_def slice_def)

lemma find_upt: "find P [0..<n] \<noteq> None \<longleftrightarrow> (\<exists>k < n. P k)"
  by (auto simp: find_None_list_all list_all_iff simp del: not_None_eq)

lemma contains_list_iff: "contains_list xs item \<longleftrightarrow> (\<exists>x \<in> set xs. same x item)"
proof -
  have "contains_list xs item \<longleftrightarrow> find (\<lambda>k. same (xs ! k) item) [0..<length xs] \<noteq> None"
  proof (cases "is_nan item")
    case True
    then have "find (\<lambda>k. same (xs ! k) item) [0..<length xs] = find (\<lambda>k. isNaN (xs ! k)) [0..<length xs]"
      by (intro find_cong) (auto simp: same_def num_eq_def split: jsval.splits)
    with True show ?thesis
      by (simp add: contains_in_def index_by_value_def index_range_def positions_def Let_def split: option.splits)
  next
    case False
    then have "find (\<lambda>k. same (xs ! k) item) [0..<length xs] = find (\<lambda>k. strict_eq (nth_val xs k) item) [0..<length xs]"
      by (intro find_cong) (auto simp: same_def nth_val_def)
    with False show ?thesis
      by (simp add: contains_in_def index_by_value_def index_range_def positions_def Let_def split: option.splits)
  qed
  then have "contains_list xs item \<longleftrightarrow> (\<exists>k < length xs. same (xs ! k) item)" by (simp only: find_upt)
  then show ?thesis using nth_mem by (force simp: in_set_conv_nth)
qed

lemma contains_list_simps [simp]:
  "\<not> contains_list [] v"
  "contains_list (x # xs) v \<longleftrightarrow> same x v \<or> contains_list xs v"
  "contains_list (xs @ ys) v \<longleftrightarrow> contains_list xs v \<or> contains_list ys v"
  by (simp_all add: contains_list_iff bex_Un)

lemma contains_same: "same x v \<Longrightarrow> contains_list zs x = contains_list zs v"
  unfolding contains_list_iff using same_trans same_sym by blast

lemma contains_concat: "contains_list (concat xss) v \<longleftrightarrow> (\<exists>xs \<in> set xss. contains_list xs v)"
  by (induction xss) auto

lemma contains_filter:
  "(\<And>x. same x v \<Longrightarrow> P x = P v) \<Longrightarrow> contains_list (filter P xs) v \<longleftrightarrow> contains_list xs v \<and> P v"
  unfolding contains_list_iff set_filter by blast

lemma contains_Array [simp]: "contains (Array i xs) item None guard = contains_list xs item"
  by (simp add: contains_def)

section \<open>Sets\<close>

lemma uniq_list_snoc:
  "uniq_list (xs @ [v]) = (if contains_list (uniq_list xs) v then uniq_list xs else uniq_list xs @ [v])"
  by (simp add: uniq_list_def)

lemma contains_uniq_list: "contains_list (uniq_list xs) v \<longleftrightarrow> contains_list xs v"
proof (induction xs rule: rev_induct)
  case (snoc x xs)
  then show ?case using contains_same [of x v "uniq_list xs"] by (auto simp: uniq_list_snoc)
qed (simp add: uniq_list_def)

text \<open>
  \<open>uniq\<close> keeps elements of the array in their order, the first of each value: no two of its results
  are the same, and every element of the array is the same as one of them.
\<close>

theorem uniq_first_values:
  "sorted_wrt (\<lambda>a b. \<not> same a b) (uniq_list xs) \<and> subseq (uniq_list xs) xs \<and>
   (\<forall>v. contains_list (uniq_list xs) v = contains_list xs v)"
proof (intro conjI allI)
  show "sorted_wrt (\<lambda>a b. \<not> same a b) (uniq_list xs)"
  proof (induction xs rule: rev_induct)
    case (snoc x xs)
    then show ?case by (simp add: uniq_list_snoc sorted_wrt_append contains_list_iff)
  qed (simp add: uniq_list_def)
  show "subseq (uniq_list xs) xs"
  proof (induction xs rule: rev_induct)
    case (snoc x xs)
    then show ?case by (simp add: uniq_list_snoc subseq_rev_drop_many)
  qed (simp add: uniq_list_def)
qed (rule contains_uniq_list)

lemma flatten_one_level: "flatten True True (map (Array i) xss) = concat xss"
  by (induction xss) auto

lemma contains_intersection:
  "contains_list (intersection xs (map (Array i) yss)) v \<longleftrightarrow> contains_list xs v \<and> (\<forall>ys \<in> set yss. contains_list ys v)"
proof (induction xs rule: rev_induct)
  case (snoc x xs)
  let ?r = "intersection xs (map (Array i) yss)"
  have "intersection (xs @ [x]) (map (Array i) yss) =
      (if contains_list ?r x then ?r else if \<forall>ys \<in> set yss. contains_list ys x then ?r @ [x] else ?r)"
    by (simp add: intersection_def list_all_iff)
  with snoc show ?case using contains_same [of x v] by auto
qed (simp add: intersection_def)

text \<open>
  \<open>union\<close>, \<open>intersection\<close> and \<open>difference\<close> contain what the set operations give.
\<close>

theorem set_operations:
  "(contains_list (union_us (map (Array i) xss)) v \<longleftrightarrow> (\<exists>xs \<in> set xss. contains_list xs v)) \<and>
   (contains_list (intersection xs (map (Array i) xss)) v \<longleftrightarrow>
      contains_list xs v \<and> (\<forall>ys \<in> set xss. contains_list ys v)) \<and>
   (contains_list (difference xs (map (Array i) xss)) v \<longleftrightarrow>
      contains_list xs v \<and> (\<forall>ys \<in> set xss. \<not> contains_list ys v))"
proof (intro conjI)
  show "contains_list (union_us (map (Array i) xss)) v \<longleftrightarrow> (\<exists>xs \<in> set xss. contains_list xs v)"
    by (simp add: union_us_def flatten_one_level contains_uniq_list contains_concat)
  show "contains_list (difference xs (map (Array i) xss)) v \<longleftrightarrow>
      contains_list xs v \<and> (\<forall>ys \<in> set xss. \<not> contains_list ys v)"
    unfolding difference_def flatten_one_level Let_def
    using contains_same by (subst contains_filter) (auto simp: contains_concat)
qed (rule contains_intersection)

lemma set_operations_witness:
  "(contains_list (union_us (map (Array 0) [[int_val 1], [int_val 2, int_val 1]])) (int_val 2) \<longleftrightarrow>
      (\<exists>xs \<in> set [[int_val 1], [int_val 2, int_val 1]]. contains_list xs (int_val 2))) \<and>
   (contains_list (intersection [int_val 2] (map (Array 0) [[int_val 1], [int_val 2, int_val 1]])) (int_val 2) \<longleftrightarrow>
      contains_list [int_val 2] (int_val 2) \<and> (\<forall>ys \<in> set [[int_val 1], [int_val 2, int_val 1]]. contains_list ys (int_val 2))) \<and>
   (contains_list (difference [int_val 2] (map (Array 0) [[int_val 1], [int_val 2, int_val 1]])) (int_val 2) \<longleftrightarrow>
      contains_list [int_val 2] (int_val 2) \<and> (\<forall>ys \<in> set [[int_val 1], [int_val 2, int_val 1]]. \<not> contains_list ys (int_val 2)))"
  by (rule set_operations)

section \<open>The binary search\<close>

text \<open>The callback of \<open>sortedIndex\<close> sees one argument.\<close>

definition pure_callback1 :: "'s world \<Rightarrow> jsval \<Rightarrow> jsval \<Rightarrow> (jsval \<Rightarrow> jsval) \<Rightarrow> bool" where
  "pure_callback1 w iter context g \<longleftrightarrow> (\<forall>v. cb w iter context (int_val 1) Undefined [v] = yields (g v))"

lemma pure_callback1_identity: "pure_callback1 w Undefined context (\<lambda>v. v)"
  by (simp add: pure_callback1_def cb_def is_nil_def identity_us_def)

lemma sortedIndex_loop_correct:
  assumes "ordered_by w enc" "\<And>v. v \<in> set xs \<Longrightarrow> f v = yields (enc (crit v))"
    and "sorted (map crit xs)" "low \<le> high" "high \<le> length xs"
    and "\<And>i. i < low \<Longrightarrow> crit (xs ! i) < c" "\<And>i. high \<le> i \<Longrightarrow> i < length xs \<Longrightarrow> c \<le> crit (xs ! i)"
  shows "\<exists>k \<le> length xs. sortedIndex_loop w f xs (enc c) low high = yields k \<and>
    (\<forall>i < k. crit (xs ! i) < c) \<and> (\<forall>i. k \<le> i \<longrightarrow> i < length xs \<longrightarrow> c \<le> crit (xs ! i))"
  using assms(4-7)
proof (induction "high - low" arbitrary: low high rule: less_induct)
  case less
  show ?case
  proof (cases "low < high")
    case False
    with less.prems show ?thesis
      by (intro exI [of _ low]) (auto simp: sortedIndex_loop.simps)
  next
    case True
    define mid where "mid = (low + high) div 2"
    have mid: "low \<le> mid" "mid < high" "mid < length xs" using True less.prems(2) by (auto simp: mid_def)
    have mono: "crit (xs ! i) \<le> crit (xs ! j)" if "i \<le> j" "j < length xs" for i j
      using assms(3) that by (simp add: sorted_iff_nth_mono)
    have less_iff: "less_val w (enc (crit (xs ! mid))) (enc c) \<longleftrightarrow> crit (xs ! mid) < c"
      using assms(1) by (simp add: ordered_by_def)
    have step: "sortedIndex_loop w f xs (enc c) low high =
        (if crit (xs ! mid) < c then sortedIndex_loop w f xs (enc c) (mid + 1) high
         else sortedIndex_loop w f xs (enc c) low mid)"
      using True mid less_iff by (subst sortedIndex_loop.simps) (simp add: mid_def [symmetric] nth_val_def assms(2))
    show ?thesis
    proof (cases "crit (xs ! mid) < c")
      case below: True
      have "crit (xs ! i) < c" if "i < mid + 1" for i
        using mono [of i mid] mid(3) below that by simp
      with less.hyps [of high "mid + 1"] less.prems mid step below show ?thesis by auto
    next
      case above: False
      have "c \<le> crit (xs ! i)" if "mid \<le> i" "i < length xs" for i
        using mono [OF that] above by simp
      with less.hyps [of mid low] less.prems mid step above show ?thesis by auto
    qed
  qed
qed

text \<open>
  In an array sorted by the criteria, \<open>sortedIndex\<close> returns the least position at which the object
  can be inserted: what stands before it is smaller, what stands from there on is not.
\<close>

theorem sortedIndex_least:
  assumes "ordered_by w enc" "pure_callback1 w iter context (\<lambda>v. enc (crit v))" "sorted (map crit xs)"
  shows "\<exists>k \<le> length xs. sortedIndex w xs obj iter context = yields k \<and>
    (\<forall>i < k. crit (xs ! i) < crit obj) \<and> (\<forall>i. k \<le> i \<longrightarrow> i < length xs \<longrightarrow> crit obj \<le> crit (xs ! i))"
proof -
  have pure: "cb w iter context (int_val 1) Undefined [v] = yields (enc (crit v))" for v
    using assms(2) by (simp add: pure_callback1_def)
  show ?thesis
    using sortedIndex_loop_correct [OF assms(1) pure assms(3), of 0 "length xs" "crit obj"]
    by (simp add: sortedIndex_def pure)
qed

lemma sortedIndex_least_witness:
  "sortedIndex unit_world [int_val 3, int_val 1, int_val 2] (int_val 4) (Function 0 1) Undefined = yields 1"
proof -
  let ?xs = "[int_val 3, int_val 1, int_val 2]"
  have "pure_callback1 unit_world (Function 0 1) Undefined (\<lambda>v. int_val (bucket v))"
    by (simp add: pure_callback1_def cb_def is_nil_def isFunction_def optimizeCb_def apply_val_def bucket_world_def)
  moreover have "sorted (map bucket ?xs)" by (simp add: bucket_def)
  ultimately obtain k where k: "sortedIndex unit_world ?xs (int_val 4) (Function 0 1) Undefined = yields k"
      "\<forall>i < k. bucket (?xs ! i) < bucket (int_val 4)" "\<forall>i. k \<le> i \<longrightarrow> i < length ?xs \<longrightarrow> bucket (int_val 4) \<le> bucket (?xs ! i)"
    using sortedIndex_least [OF ordered_by_int, of unit_world "Function 0 1" Undefined bucket ?xs "int_val 4"] by blast
  have "\<not> 1 < k" using k(2) by (auto simp: bucket_def dest: spec [of _ 1])
  moreover have "k \<noteq> 0" using k(3) by (auto simp: bucket_def dest: spec [of _ 0])
  ultimately have "k = 1" by linarith
  with k(1) show ?thesis by simp
qed

lemma find_upt_Some:
  "k < n \<Longrightarrow> P k \<Longrightarrow> (\<And>i. i < k \<Longrightarrow> \<not> P i) \<Longrightarrow> find P [0..<n] = Some k"
  by (auto simp: find_Some_iff intro!: exI [of _ k])

text \<open>
  For a sorted array of comparable values, the binary search of \<open>indexOf\<close> gives the same position as
  its linear search.
\<close>

theorem indexOf_sorted:
  assumes "ordered_by w enc" "sorted ks"
  shows "indexOf_us w (map enc ks) (enc c) Is_sorted = indexOf_us w (map enc ks) (enc c) Anywhere"
proof (cases "ks = []")
  case False
  let ?P = "\<lambda>i. strict_eq (nth_val (map enc ks) i) (enc c)"
  have eq: "strict_eq (enc a) (enc b) \<longleftrightarrow> a = b" for a b using assms(1) by (simp add: ordered_by_def)
  then have inj: "inv enc (enc a) = a" for a by (metis inv_f_f injI)
  have P: "?P i \<longleftrightarrow> ks ! i = c" if "i < length ks" for i using that eq by (simp add: nth_val_def)
  have pre: "v \<in> set (map enc ks) \<Longrightarrow> yields v = yields (enc (inv enc v))" for v by (auto simp: inj)
  have search: "\<exists>k \<le> length ks. sortedIndex_loop w yields (map enc ks) (enc c) 0 (length ks) = yields k \<and>
      (\<forall>i < k. ks ! i < c) \<and> (\<forall>i. k \<le> i \<longrightarrow> i < length ks \<longrightarrow> c \<le> ks ! i)"
    using sortedIndex_loop_correct [where f = yields and xs = "map enc ks", OF assms(1) pre, where low = 0 and high = "length ks" and c = c] assms(2)
    by (auto simp: inj comp_def cong: conj_cong)
  obtain k where k: "k \<le> length ks" "sortedIndex_loop w yields (map enc ks) (enc c) 0 (length ks) = yields k"
      "\<And>i. i < k \<Longrightarrow> ks ! i < c" "\<And>i. k \<le> i \<Longrightarrow> i < length ks \<Longrightarrow> c \<le> ks ! i"
    using search by blast
  have "enc c \<noteq> Number NaN" using eq [of c c] by auto
  have linear: "indexOf_us w (map enc ks) (enc c) Anywhere =
      yields (case find ?P [0..<length ks] of Some k \<Rightarrow> int k | None \<Rightarrow> -1)"
    using \<open>enc c \<noteq> Number NaN\<close> by (simp add: indexOf_us_def index_by_value_def index_range_def positions_def Let_def)
  have binary: "indexOf_us w (map enc ks) (enc c) Is_sorted = yields (if ?P k then int k else -1)"
    using False k(2) by (simp add: indexOf_us_def sortedIndex_def cb_def is_nil_def identity_us_def)
  show ?thesis
  proof (cases "k < length ks \<and> ks ! k = c")
    case True
    then have "find ?P [0..<length ks] = Some k"
      using k(3) P by (intro find_upt_Some) fastforce+
    with True P show ?thesis by (simp add: linear binary)
  next
    case False
    have "ks ! i \<noteq> c" if "i < length ks" for i
    proof (cases "i < k")
      case False
      then have "ks ! k \<le> ks ! i" "c \<le> ks ! k" using that assms(2) k(4) by (simp_all add: sorted_iff_nth_mono)
      with \<open>\<not> (k < length ks \<and> ks ! k = c)\<close> False that show ?thesis by auto
    qed (use k(3) in force)
    then have "find ?P [0..<length ks] = None" using P by (simp add: find_None_iff)
    moreover have "\<not> ?P k" using False P eq assms(1) by (cases "k < length ks") (auto simp: nth_val_def ordered_by_def)
    ultimately show ?thesis by (simp add: linear binary)
  qed
qed (simp add: indexOf_us_def index_by_value_def index_range_def positions_def)

section \<open>Flat arrays\<close>

lemma flatten_append: "flatten shallow strict (xs @ ys) = flatten shallow strict xs @ flatten shallow strict ys"
  by (induction xs) auto

lemma flatten_deep_flat: "v \<in> set (flatten False strict xs) \<Longrightarrow> nested v = None"
  by (induction False strict xs rule: flatten.induct) (auto split: option.splits if_splits)

lemma flatten_flat: "(\<And>v. v \<in> set xs \<Longrightarrow> nested v = None) \<Longrightarrow> flatten shallow False xs = xs"
  by (induction xs) auto

text \<open>
  The deep \<open>flatten\<close> leaves no array in its result, and what has no array in it stays as it is: it is
  idempotent. The shallow one joins one level.
\<close>

theorem flatten_levels:
  "(\<forall>v \<in> set (flatten_us xs False). nested v = None) \<and>
   flatten_us (flatten_us xs False) False = flatten_us xs False \<and>
   flatten_us (map (Array i) xss) True = concat xss"
proof (intro conjI)
  show "flatten_us (map (Array i) xss) True = concat xss"
    unfolding flatten_us_def by (induction xss) auto
qed (auto simp: flatten_us_def flatten_deep_flat intro: flatten_flat)

section \<open>Rows and columns\<close>

lemma unzip_arrays:
  fixes w :: "'s world"
  assumes "map fst (entries obj) = map (Array i) xss" "truthy obj" "xss \<noteq> []"
    and "\<And>xs. xs \<in> set xss \<Longrightarrow> length xs \<le> 2 ^ 32 - 1"
  shows "unzip w obj = yields (map (\<lambda>k. map (\<lambda>xs. nth_val xs k) xss) [0..<Max (length ` set xss)])"
proof -
  let ?f = "(\<lambda>this args. yields (getLength (arg args 0))) :: 's fn"
  have ex: "\<exists>xs. fst e = Array i xs \<and> xs \<in> set xss" if "e \<in> set (entries obj)" for e
  proof -
    have "fst e \<in> set (map fst (entries obj))" using that by simp
    then show ?thesis unfolding assms(1) by auto
  qed
  have visit: "visit ?f obj e = yields (int_val (int (length_of (fst e))))" if "e \<in> set (entries obj)" for e
    using ex [OF that] by (auto simp: getLength_def is_nil_def list_prop_def)
  have "entries obj \<noteq> []" using assms(1,3) by auto
  from extreme_by_pure [OF ranks_max [of w] this, where f = ?f, OF visit]
  obtain e where e: "e \<in> set (entries obj)"
      "extreme_by (\<lambda>a b. less_val w b a) (Number NegInf) ?f obj = yields (fst e)"
      "\<forall>x \<in> set (entries obj). int (length_of (fst x)) \<le> int (length_of (fst e))"
    by blast
  obtain xs where xs: "fst e = Array i xs" "xs \<in> set xss" using ex [OF e(1)] by blast
  have "length ys \<le> length xs" if "ys \<in> set xss" for ys
  proof -
    have "Array i ys \<in> fst ` set (entries obj)" using that assms(1) by (metis image_eqI list.set_map)
    then obtain x where "x \<in> set (entries obj)" "fst x = Array i ys" by auto
    with e(3) have "length_of (Array i ys) \<le> length_of (fst e)" by fastforce
    then show ?thesis by (simp add: xs(1))
  qed
  with xs(2) have max: "Max (length ` set xss) = length xs" by (intro Max_eqI) auto
  then have "unzip_length w obj = yields (Max (length ` set xss))"
    using assms(2) by (simp add: unzip_length_def e(2) xs(1) read_prop_def is_nil_def list_prop_def)
  moreover have "pluck w obj (index_val k) = map (\<lambda>xs. nth_val xs k) xss" if "k < Max (length ` set xss)" for k
  proof -
    have "int k < 2 ^ 32 - 1" using that max assms(4) [OF xs(2)] by simp
    then have "property w (index_val k) (Array i ys) = nth_val ys k" for ys
      using get_index_eq [of k "Array i ys"] by (simp add: property_def is_nil_def)
    moreover have "pluck w obj (index_val k) = map (property w (index_val k)) (map fst (entries obj))"
      by (simp add: pluck_def)
    ultimately show ?thesis by (simp add: assms(1))
  qed
  ultimately show ?thesis by (simp add: unzip_def)
qed

text \<open>
  Zipping lists of one length and unzipping the rows gives the lists back. The lengths of arrays are
  below \<open>2 ^ 32\<close> in the language.
\<close>

theorem unzip_zip:
  assumes "xss \<noteq> []" "0 < n" "\<And>xs. xs \<in> set xss \<Longrightarrow> length xs = n" "n \<le> 2 ^ 32 - 1" "length xss \<le> 2 ^ 32 - 1"
  shows "\<exists>rows. zip_us w (map (Array i) xss) = yields rows \<and>
    length rows = n \<and> unzip w (Array j (map (Array i) rows)) = yields xss"
proof (intro exI conjI)
  let ?rows = "map (\<lambda>k. map (\<lambda>xs. nth_val xs k) xss) [0..<n]"
  have "length ` set xss = (\<lambda>_. n) ` set xss" using assms(3) by (intro image_cong) simp_all
  moreover have "length ` set ?rows = (\<lambda>_. length xss) ` {0..<n}" by (simp add: image_image)
  ultimately have lengths: "length ` set xss = {n}" "length ` set ?rows = {length xss}"
    using assms(1,2) by (simp_all add: image_constant_conv)
  show "zip_us w (map (Array i) xss) = yields ?rows"
    unfolding zip_us_def using assms
    by (subst unzip_arrays [where xss = xss and i = i]) (auto simp: lengths map_fst_entries)
  show "length ?rows = n" by simp
  have "map (\<lambda>k. map (\<lambda>xs. nth_val xs k) ?rows) [0..<length xss] = xss"
    by (rule nth_equalityI) (auto simp: nth_val_def assms(3) intro: nth_equalityI)
  then show "unzip w (Array j (map (Array i) ?rows)) = yields xss"
    using assms lengths(2)
    by (subst unzip_arrays [where xss = ?rows and i = i]) (auto simp del: map_map)
qed

section \<open>Elements of ranges\<close>

lemma range_fill_nth: "range_fill n start step = map (\<lambda>k. start + int k * step) [0..<n]"
proof (induction n arbitrary: start)
  case (Suc n)
  have "map (\<lambda>k. start + int k * step) [0..<Suc n] = start # map (\<lambda>k. start + int (Suc k) * step) [0..<n]"
    by (simp only: upt_conv_Cons map_Suc_upt [symmetric]) (simp add: comp_def)
  with Suc [of "start + step"] show ?case by (simp add: algebra_simps)
qed simp

lemma less_ceil_div_pos:
  assumes "0 < b"
  shows "k < ceil_div a b \<longleftrightarrow> k * b < a"
proof -
  define q r where "q = (- a) div b" and "r = (- a) mod b"
  have "q * b + r = - a" unfolding q_def r_def by (rule div_mult_mod_eq)
  then have a: "a = - (q * b) - r" "0 \<le> r" "r < b"
    using assms by (simp_all add: r_def)
  have "k < - q \<longleftrightarrow> k * b < a"
  proof
    assume "k < - q"
    then have "k * b \<le> (- q - 1) * b" using assms by (intro mult_right_mono) auto
    then show "k * b < a" using a by (simp add: algebra_simps)
  next
    assume less: "k * b < a"
    show "k < - q"
    proof (rule ccontr)
      assume "\<not> k < - q"
      then have "- q * b \<le> k * b" using assms by (intro mult_right_mono) auto
      with less a show False by simp
    qed
  qed
  then show ?thesis by (simp add: ceil_div_def q_def)
qed

lemma less_ceil_div_neg: "b < 0 \<Longrightarrow> k < ceil_div a b \<longleftrightarrow> a < k * b"
  using less_ceil_div_pos [of "- b" k "- a"] by (simp add: ceil_div_def div_minus_right)

text \<open>
  \<open>range\<close> lists the terms of the progression in order, up to and without the stop: an element is
  \<open>start + k * step\<close> with \<open>k\<close> its position, and a term is an element exactly when it stands before
  the stop.
\<close>

theorem range_progression:
  assumes "step \<noteq> 0" "xs = range_us start (Some stop) step"
  shows "(\<forall>k < length xs. xs ! k = start + int k * step) \<and>
    (\<forall>k. k < length xs \<longleftrightarrow> (if 0 < step then start + int k * step < stop else stop < start + int k * step))"
proof -
  let ?n = "nat (max (ceil_div (stop - start) step) 0)"
  have xs: "xs = map (\<lambda>k. start + int k * step) [0..<?n]"
    using assms by (simp add: range_us_def range_fill_nth)
  have "k < ?n \<longleftrightarrow> int k < ceil_div (stop - start) step" for k by auto
  moreover have "int k < ceil_div (stop - start) step \<longleftrightarrow>
      (if 0 < step then start + int k * step < stop else stop < start + int k * step)" for k
    using assms(1) less_ceil_div_pos [of step "int k" "stop - start"] less_ceil_div_neg [of step "int k" "stop - start"]
    by auto
  ultimately show ?thesis by (simp add: xs)
qed

end
