(* ===== verification/Underscore_Objects.thy ===== *)
theory Underscore_Objects
  imports Underscore_Arrays
begin

text \<open>
  The collection library of \<open>wordcut.js\<close> (module 25), the object functions: properties as lists,
  copies and selections of properties, and deep comparison.
\<close>

section \<open>Properties as lists\<close>

definition mapObject :: "'s world \<Rightarrow> jsval \<Rightarrow> jsval \<Rightarrow> jsval \<Rightarrow> ('s, (jstring \<times> jsval) list) prog" where
  "mapObject w obj iter context =
     (let f = cb w iter context Undefined
      in run_fold (\<lambda>key results. and_do (f Undefined [get obj key, String key, obj]) (\<lambda>v. yields (put key v results)))
           (keys obj) [])"

definition pairs :: "jsval \<Rightarrow> (jstring \<times> jsval) list" where
  "pairs obj = map (\<lambda>key. (key, get obj key)) (keys obj)"

definition invert :: "'s world \<Rightarrow> jsval \<Rightarrow> (jstring \<times> jstring) list" where
  "invert w obj = fold (\<lambda>key. put (to_text w (get obj key)) key) (keys obj) []"

definition functions_us :: "jsval \<Rightarrow> jstring list" where
  "functions_us obj = sort (filter (\<lambda>key. isFunction (get obj key)) (allKeys obj))"

section \<open>Selecting properties\<close>

text \<open>The loop of \<open>pick\<close> over keys, with a test of a value under its key.\<close>

definition pick_loop ::
  "(jsval \<Rightarrow> jstring \<Rightarrow> ('s, bool) prog) \<Rightarrow> jsval \<Rightarrow> jstring list \<Rightarrow> ('s, (jstring \<times> jsval) list) prog"
where
  "pick_loop test obj ks =
     run_fold (\<lambda>key result. and_do (test (get obj key) key)
       (\<lambda>b. yields (if b then put key (get obj key) result else result))) ks []"

definition pick_by :: "'s fn \<Rightarrow> jsval \<Rightarrow> jsval \<Rightarrow> ('s, (jstring \<times> jsval) list) prog" where
  "pick_by f obj context =
     (if is_nil obj then yields []
      else pick_loop (\<lambda>v key. and_do (optimizeCb f context Undefined Undefined [v, String key, obj]) (\<lambda>r. yields (truthy r)))
             obj (allKeys obj))"

text \<open>The arguments after the object: a function and its context, or keys and lists of keys.\<close>

definition pick :: "'s world \<Rightarrow> jsval \<Rightarrow> jsval list \<Rightarrow> ('s, (jstring \<times> jsval) list) prog" where
  "pick w obj args =
     (if is_nil obj then yields []
      else if isFunction (arg args 0) then pick_by (apply_val w (arg args 0)) obj (arg args 1)
      else pick_loop (\<lambda>v key. yields (has_key obj key)) obj (map (to_text w) (flatten False False args)))"

definition omit :: "'s world \<Rightarrow> jsval \<Rightarrow> jsval list \<Rightarrow> ('s, (jstring \<times> jsval) list) prog" where
  "omit w obj args =
     (if isFunction (arg args 0) then pick_by (negate (apply_val w (arg args 0))) obj (arg args 1)
      else
        (let ks = map (\<lambda>k. String (to_text w k)) (flatten False False args)
         in pick_by (\<lambda>this a. yields (Boolean (\<not> contains_list ks (arg a 1)))) obj (arg args 1)))"

section \<open>Copies\<close>

text \<open>\<open>fresh\<close> is the identity of the new object.\<close>

definition baseCreate :: "nat \<Rightarrow> jsval \<Rightarrow> jsval" where
  "baseCreate fresh prototype =
     (if \<not> isObject prototype then Object fresh (Some 0) [] []
      else Object fresh (case get prototype (js ''constructor'') of Function i _ \<Rightarrow> Some i | _ \<Rightarrow> None) []
             (map (\<lambda>key. (key, get prototype key)) (allKeys prototype)))"

definition create :: "nat \<Rightarrow> jsval \<Rightarrow> jsval \<Rightarrow> jsval" where
  "create fresh prototype props =
     (if truthy props then extendOwn (baseCreate fresh prototype) [props] else baseCreate fresh prototype)"

definition clone :: "nat \<Rightarrow> jsval \<Rightarrow> jsval" where
  "clone fresh obj =
     (if \<not> isObject obj then obj
      else if isArray obj then Array fresh (elems obj)
      else extend_us (Object fresh (Some 0) [] []) [obj])"

definition tap :: "'s fn \<Rightarrow> jsval \<Rightarrow> ('s, jsval) prog" where
  "tap interceptor obj = and_do (interceptor Undefined [obj]) (\<lambda>_. yields obj)"

definition isEmpty :: "jsval \<Rightarrow> bool" where
  "isEmpty obj \<longleftrightarrow>
     (if is_nil obj then True
      else if isArrayLike obj \<and> (isArray obj \<or> isString obj \<or> isArguments obj) then length_of obj = 0
      else keys obj = [])"

definition isElement :: "jsval \<Rightarrow> bool" where
  "isElement obj \<longleftrightarrow> truthy obj \<and> strict_eq (get obj (js ''nodeType'')) (int_val 1)"

section \<open>Deep comparison\<close>

text \<open>\<open>1 / x === 1 / y\<close> when \<open>x\<close> is a zero.\<close>

definition same_zero :: "jsval \<Rightarrow> jsval \<Rightarrow> bool" where
  "same_zero a b \<longleftrightarrow> a = b"

definition is_zero :: "jsval \<Rightarrow> bool" where
  "is_zero v \<longleftrightarrow> v = Number (Num 0) \<or> v = Number NegZero"

text \<open>
  \<open>f instanceof f\<close> holds of the function \<open>0\<close>, the constructor \<open>Object\<close>. (It also holds of
  \<open>Function\<close>, and of these two functions of other frames: the values of the model have none of
  them as a constructor.)
\<close>

definition own_instance :: "jsval \<Rightarrow> bool" where
  "own_instance v \<longleftrightarrow> (case v of Function i _ \<Rightarrow> i = 0 | _ \<Rightarrow> False)"

definition constructors_differ :: "jsval \<Rightarrow> jsval \<Rightarrow> bool" where
  "constructors_differ a b \<longleftrightarrow>
     (let aCtor = get a (js ''constructor''); bCtor = get b (js ''constructor'')
      in \<not> strict_eq aCtor bCtor \<and>
         \<not> (isFunction aCtor \<and> own_instance aCtor \<and> isFunction bCtor \<and> own_instance bCtor) \<and>
         has_key a (js ''constructor'') \<and> has_key b (js ''constructor''))"

text \<open>The values that are compared as a whole: what the first part of \<open>eq\<close> decides.\<close>

definition eq_whole :: "jsval \<Rightarrow> jsval \<Rightarrow> bool option" where
  "eq_whole a b =
     (if strict_eq a b then Some (\<not> is_zero a \<or> same_zero a b)
      else if is_nil a \<or> is_nil b then Some False
      else if class_name a \<noteq> class_name b then Some False
      else case (a, b) of
        (RegExp _ s, RegExp _ t) \<Rightarrow> Some (s = t)
      | (String s, String t) \<Rightarrow> Some (s = t)
      | (Number x, Number y) \<Rightarrow>
          Some (if x = NaN then y = NaN else if is_zero a then same_zero a b else num_eq x y)
      | (Date _ x, Date _ y) \<Rightarrow> Some (num_eq x y)
      | (Boolean x, Boolean y) \<Rightarrow> Some (x = y)
      | _ \<Rightarrow>
          if \<not> isArray a \<and> (typeof a \<noteq> ''object'' \<or> typeof b \<noteq> ''object'' \<or> constructors_differ a b)
          then Some False else None)"

text \<open>The search in the stacks of traversed objects, from the top.\<close>

definition stacked :: "jsval \<Rightarrow> jsval \<Rightarrow> (jsval \<times> jsval) list \<Rightarrow> bool option" where
  "stacked a b stack = map_option (\<lambda>p. strict_eq (snd p) b) (find (\<lambda>p. strict_eq (fst p) a) (rev stack))"

lemma size_prop [termination_simp]: "(k, v) \<in> set own \<Longrightarrow> size v < size (Object i c own inherited)"
  by (induction own) auto

lemma size_elem [termination_simp]: "v \<in> set xs \<Longrightarrow> size v < size (Array i xs)" "v \<in> set xs \<Longrightarrow> size v < size (Arguments i xs)"
  by (induction xs) auto

lemma size_zip: "(v :: jsval, u) \<in> set (zip xs ys) \<Longrightarrow> size v < Suc (size_list size xs)"
  using size_elem(1) [of v xs] by (auto dest: set_zip_leftD)

lemma size_get: "key \<in> set (keys a) \<Longrightarrow> \<not> isArray a \<Longrightarrow> size (get a key) < size a"
proof (cases a)
  case (Object i c own inherited)
  assume "key \<in> set (keys a)"
  then obtain v where "map_of own key = Some v" using Object by (cases "map_of own key") (auto simp: map_of_eq_None_iff)
  then show ?thesis using size_prop [OF map_of_SomeD] Object by auto
next
  case (Arguments i xs)
  assume "key \<in> set (keys a)"
  then obtain n where "n < length xs" "key = string_of_int (int n)"
    using Arguments by (auto simp: keys_def isObject_def)
  then show ?thesis
    using Arguments length_not_int size_elem(2) int_of_string_of_int [of "int n"] by (auto simp: list_prop_def nth_val_def)
qed (auto simp: keys_def isObject_def isArray_def)

text \<open>
  \<open>eq\<close>: the stacks hold the pairs of objects on the way to \<open>a\<close> and \<open>b\<close>. Members are compared from
  the last to the first; a comparison that fails ends the whole.
\<close>

function eq :: "jsval \<Rightarrow> jsval \<Rightarrow> (jsval \<times> jsval) list \<Rightarrow> bool" where
  "eq a b stack =
     (case eq_whole a b of
        Some r \<Rightarrow> r
      | None \<Rightarrow>
          (case stacked a b stack of
             Some r \<Rightarrow> r
           | None \<Rightarrow>
               if isArray a then
                 length_of a = length_of b \<and>
                 list_all (\<lambda>p. eq (fst p) (snd p) (stack @ [(a, b)])) (rev (zip (elems a) (elems b)))
               else
                 length (keys b) = length (keys a) \<and>
                 list_all (\<lambda>key. has b key \<and> eq (get a key) (get b key) (stack @ [(a, b)])) (rev (keys a))))"
  by auto

termination
proof (relation "measure (\<lambda>(a, b, stack). size a)")
qed (auto simp: isArray_def size_get size_zip split: jsval.splits)

declare eq.simps [simp del]

definition isEqual :: "jsval \<Rightarrow> jsval \<Rightarrow> bool" where
  "isEqual a b = eq a b []"

section \<open>What deep comparison decides\<close>

text \<open>
  The shape of a value: its contents without the identities of arrays and objects and without the
  order of the properties. Functions are compared by identity, and so are invalid dates.
\<close>

datatype form = Leaf jsval | Items "form list" | Props "nat option" "jstring \<Rightarrow> form option"

function shape :: "jsval \<Rightarrow> form" where
  "shape v =
     (case v of
        Array _ xs \<Rightarrow> Items (map shape xs)
      | Object _ c own _ \<Rightarrow> Props c (map_of (map (\<lambda>p. (fst p, shape (snd p))) own))
      | RegExp _ s \<Rightarrow> Leaf (RegExp 0 s)
      | Date i x \<Rightarrow> Leaf (if x = NaN then Date i x else Date 0 (if x = NegZero then Num 0 else x))
      | _ \<Rightarrow> Leaf v)"
  by auto

termination
proof (relation "measure size")
  fix v i c own inherited p
  assume "v = Object i c own inherited" "p \<in> set own"
  then show "(snd p, v) \<in> measure size" using size_prop [of "fst p" "snd p" own] by simp
qed (auto dest: size_elem(1))

declare shape.simps [simp del]

lemma map_of_map_snd: "map_of (map (\<lambda>p. (fst p, f (snd p))) ps) = map_option f \<circ> map_of ps"
  by (induction ps) auto

lemma shape_simps [simp]:
  "shape (Array i xs) = Items (map shape xs)"
  "shape (Object i c own inherited) = Props c (map_option shape \<circ> map_of own)"
  "shape (RegExp i s) = Leaf (RegExp 0 s)"
  "shape (Date i x) = Leaf (if x = NaN then Date i x else Date 0 (if x = NegZero then Num 0 else x))"
  "shape Undefined = Leaf Undefined" "shape Null = Leaf Null" "shape (Boolean b) = Leaf (Boolean b)"
  "shape (Number m) = Leaf (Number m)" "shape (String t) = Leaf (String t)"
  "shape (Arguments i xs) = Leaf (Arguments i xs)" "shape (Function i n) = Leaf (Function i n)"
  by (subst shape.simps, simp add: map_of_map_snd)+

text \<open>
  Plain values: no arguments objects, and objects with a constructor, distinct keys and no property
  named \<open>constructor\<close>.
\<close>

function plain :: "jsval \<Rightarrow> bool" where
  "plain v =
     (case v of
        Array _ xs \<Rightarrow> list_all plain xs
      | Object _ c own inherited \<Rightarrow>
          c \<noteq> None \<and> js ''constructor'' \<notin> fst ` set (own @ inherited) \<and> distinct (map fst own) \<and>
          list_all (\<lambda>p. plain (snd p)) own
      | Arguments _ _ \<Rightarrow> False
      | _ \<Rightarrow> True)"
  by auto

termination
proof (relation "measure size")
  fix v i c own inherited p
  assume "v = Object i c own inherited" "p \<in> set own"
  then show "(snd p, v) \<in> measure size" using size_prop [of "fst p" "snd p" own] by simp
qed (auto dest: size_elem(1))

lemma plain_Array: "plain (Array i xs) \<longleftrightarrow> (\<forall>x \<in> set xs. plain x)"
  by (subst plain.simps) (simp add: list_all_iff)

lemma plain_Object:
  "plain (Object i c own inherited) \<longleftrightarrow> c \<noteq> None \<and> js ''constructor'' \<notin> fst ` set (own @ inherited) \<and>
     distinct (map fst own) \<and> (\<forall>p \<in> set own. plain (snd p))"
  by (subst plain.simps) (simp add: list_all_iff)

lemma plain_Arguments: "\<not> plain (Arguments i xs)"
  by (subst plain.simps) simp

declare plain.simps [simp del]

lemmas plain_cases = plain_Array plain_Object plain_Arguments

text \<open>
  A set of values that has the values in its members, and in which references of one identity have
  the same contents.
\<close>

definition coherent :: "jsval set \<Rightarrow> bool" where
  "coherent S \<longleftrightarrow>
     (\<forall>x \<in> S. \<forall>y \<in> S. strict_eq x y \<longrightarrow> x = y \<or> is_zero x \<and> is_zero y) \<and>
     (\<forall>i xs. Array i xs \<in> S \<longrightarrow> set xs \<subseteq> S) \<and>
     (\<forall>i c own inherited. Object i c own inherited \<in> S \<longrightarrow> snd ` set own \<subseteq> S)"

lemma coherent_same: "coherent S \<Longrightarrow> x \<in> S \<Longrightarrow> y \<in> S \<Longrightarrow> strict_eq x y \<Longrightarrow> \<not> is_zero x \<Longrightarrow> x = y"
  unfolding coherent_def by blast

lemma coherent_item: "coherent S \<Longrightarrow> Array i xs \<in> S \<Longrightarrow> x \<in> set xs \<Longrightarrow> x \<in> S"
  unfolding coherent_def by blast

lemma coherent_prop: "coherent S \<Longrightarrow> Object i c own inherited \<in> S \<Longrightarrow> (k, x) \<in> set own \<Longrightarrow> x \<in> S"
  unfolding coherent_def by force

text \<open>The first part of \<open>eq\<close>.\<close>

lemma strict_eq_zero: "strict_eq a b \<Longrightarrow> is_zero a \<longleftrightarrow> is_zero b"
  by (cases a) (auto simp: is_zero_def num_eq_def split: jsval.splits if_splits)

lemma eq_whole_strict:
  assumes "coherent S" "a \<in> S" "b \<in> S" "strict_eq a b"
  shows "eq_whole a b = Some (shape a = shape b)"
proof (cases "is_zero a")
  case True
  with strict_eq_zero [OF assms(4)] have "is_zero b" by simp
  with True show ?thesis using assms(4) by (auto simp: eq_whole_def is_zero_def same_zero_def)
next
  case False
  with coherent_same [OF assms] show ?thesis using assms(4) by (simp add: eq_whole_def)
qed

lemma get_constructor:
  assumes "plain (Object i c own inherited)"
  shows "get (Object i c own inherited) (js ''constructor'') = Function (the c) 0"
    "has_key (Object i c own inherited) (js ''constructor'')"
proof -
  from assms have "map_of own (js ''constructor'') = None" "map_of inherited (js ''constructor'') = None" "c \<noteq> None"
    by (auto simp: plain_Object map_of_eq_None_iff)
  then show "get (Object i c own inherited) (js ''constructor'') = Function (the c) 0"
    "has_key (Object i c own inherited) (js ''constructor'')"
    by (auto simp: has_key_def)
qed

lemma constructors_differ_plain:
  assumes "plain (Object i c own inherited)" "plain (Object j d own' inherited')"
  shows "constructors_differ (Object i c own inherited) (Object j d own' inherited') \<longleftrightarrow> c \<noteq> d"
proof -
  have "c \<noteq> None" "d \<noteq> None" using assms by (auto simp: plain_Object)
  then show ?thesis
    unfolding constructors_differ_def get_constructor [OF assms(1)] get_constructor [OF assms(2)]
    by (auto simp: isFunction_def own_instance_def get_constructor [OF assms(1)] get_constructor [OF assms(2)]
        simp del: get.simps)
qed

text \<open>What the first part leaves to the second: two arrays, or two objects of one constructor.\<close>

lemma eq_whole_cases:
  assumes "\<not> strict_eq a b" "plain a" "plain b"
  shows "case eq_whole a b of
      Some r \<Rightarrow> r \<longleftrightarrow> shape a = shape b
    | None \<Rightarrow> (\<exists>i xs j ys. a = Array i xs \<and> b = Array j ys) \<or>
        (\<exists>i c own inh j own' inh'. a = Object i c own inh \<and> b = Object j c own' inh')"
proof (cases "(\<exists>i c own inh. a = Object i c own inh) \<and> (\<exists>j d own inh. b = Object j d own inh)")
  case True
  then obtain i c own inh j d own' inh' where "a = Object i c own inh" "b = Object j d own' inh'" by blast
  with assms constructors_differ_plain [of i c own inh j d own' inh'] show ?thesis
    by (simp add: eq_whole_def is_nil_def isArray_def)
next
  case False
  then show ?thesis
    using assms
    by (cases a; cases b)
      (auto simp: eq_whole_def is_nil_def num_eq_def isArray_def is_zero_def same_zero_def plain_Arguments)
qed

lemma stacked_None:
  assumes "coherent S" "a \<in> S" "\<not> is_zero a" "\<And>p. p \<in> set stack \<Longrightarrow> fst p \<in> S \<and> size a < size (fst p)"
  shows "stacked a b stack = None"
proof -
  have "\<not> strict_eq (fst p) a" if "p \<in> set stack" for p
  proof
    assume eq: "strict_eq (fst p) a"
    then have "\<not> is_zero (fst p)" using assms(3) strict_eq_zero by blast
    with coherent_same [OF assms(1) _ assms(2) eq] assms(4) [OF that] show False by auto
  qed
  then show ?thesis by (auto simp: stacked_def find_None_iff)
qed

lemma has_Object: "has (Object i c own inherited) k \<longleftrightarrow> k \<in> fst ` set own"
  by (simp add: has_def is_nil_def)

lemma map_eq_zip:
  "map f xs = map f ys \<longleftrightarrow> length xs = length ys \<and> (\<forall>p \<in> set (zip xs ys). f (fst p) = f (snd p))"
proof (induction xs arbitrary: ys)
  case (Cons x xs)
  then show ?case by (cases ys) auto
qed auto

lemma shape_props:
  fixes own own' :: "(jstring \<times> jsval) list"
  assumes "distinct (map fst own)" "distinct (map fst own')"
  shows "map_option shape \<circ> map_of own = map_option shape \<circ> map_of own' \<longleftrightarrow>
    length own = length own' \<and>
    (\<forall>k \<in> fst ` set own. k \<in> fst ` set own' \<and> map_option shape (map_of own k) = map_option shape (map_of own' k))"
    (is "?maps \<longleftrightarrow> _ \<and> ?all")
proof -
  have card: "card (fst ` set ps) = length ps" if "distinct (map fst ps)" for ps :: "(jstring \<times> jsval) list"
    using distinct_card [OF that] by simp
  have "length own = length own' \<and> ?all" if eq: ?maps
  proof -
    have eq: "map_option shape (map_of own k) = map_option shape (map_of own' k)" for k
      using fun_cong [OF eq, of k] by simp
    then have "map_of own k = None \<longleftrightarrow> map_of own' k = None" for k by (metis option.map_disc_iff)
    then have "fst ` set own = fst ` set own'" by (auto simp: map_of_eq_None_iff)
    with eq card [OF assms(1)] card [OF assms(2)] show ?thesis by auto
  qed
  moreover have ?maps if len: "length own = length own'" and all: ?all
  proof
    have "fst ` set own \<subseteq> fst ` set own'" using all by blast
    then have keys: "fst ` set own = fst ` set own'"
      using len card [OF assms(1)] card [OF assms(2)] by (intro card_subset_eq) simp_all
    fix k
    show "(map_option shape \<circ> map_of own) k = (map_option shape \<circ> map_of own') k"
    proof (cases "k \<in> fst ` set own")
      case False
      then have "map_of own k = None" "map_of own' k = None"
        unfolding map_of_eq_None_iff using keys by simp_all
      then show ?thesis by simp
    qed (use bspec [OF all, of k] in simp)
  qed
  ultimately show ?thesis by blast
qed

lemma eq_shape:
  assumes "coherent S"
  shows "a \<in> S \<Longrightarrow> b \<in> S \<Longrightarrow> plain a \<Longrightarrow> plain b \<Longrightarrow>
    (\<And>p. p \<in> set stack \<Longrightarrow> fst p \<in> S \<and> size a < size (fst p)) \<Longrightarrow> eq a b stack \<longleftrightarrow> shape a = shape b"
proof (induction a b stack rule: eq.induct)
  case (1 a b stack)
  show ?case
  proof (cases "strict_eq a b")
    case True
    with eq_whole_strict [OF assms 1(3,4)] show ?thesis by (subst eq.simps) simp
  next
    case False
    note whole = eq_whole_cases [OF False 1(5,6)]
    show ?thesis
    proof (cases "eq_whole a b")
      case (Some r)
      with whole show ?thesis by (subst eq.simps) simp
    next
      case None
      have not_zero: "\<not> is_zero a" using whole None by (auto simp: is_zero_def)
      have unstacked: "stacked a b stack = None" by (rule stacked_None [OF assms 1(3) not_zero 1(7)])
      have deeper: "fst p \<in> S \<and> size x < size (fst p)" if "p \<in> set (stack @ [(a, b)])" "size x < size a" for p and x :: jsval
        using that 1(3) 1(7) [of p] by (cases "p = (a, b)") auto
      from whole None consider (array) i xs j ys where "a = Array i xs" "b = Array j ys"
        | (object) i c own inh j own' inh' where "a = Object i c own inh" "b = Object j c own' inh'"
        by auto
      then show ?thesis
      proof cases
        case array
        have member: "eq x y (stack @ [(a, b)]) \<longleftrightarrow> shape x = shape y" if "(x, y) \<in> set (zip xs ys)" for x y
        proof -
          have "x \<in> set xs" "y \<in> set ys" using that by (auto dest: set_zip_leftD set_zip_rightD)
          then show ?thesis
            using 1(1) [OF None unstacked, of "(x, y)"] that array 1(3-6) coherent_item [OF assms] deeper size_elem(1) [of x xs i]
            by (auto simp: isArray_def plain_Array)
        qed
        have "eq a b stack \<longleftrightarrow> length xs = length ys \<and> (\<forall>p \<in> set (zip xs ys). shape (fst p) = shape (snd p))"
          using member array None unstacked
          by (subst eq.simps) (auto simp: isArray_def list_all_iff)
        also have "\<dots> \<longleftrightarrow> map shape xs = map shape ys"
          by (simp add: map_eq_zip)
        finally show ?thesis by (simp add: array)
      next
        case object
        then have dist: "distinct (map fst own)" "distinct (map fst own')" using 1(5,6) by (auto simp: plain_Object)
        have member: "eq (get a k) (get b k) (stack @ [(a, b)]) \<longleftrightarrow> map_option shape (map_of own k) = map_option shape (map_of own' k)"
          if "k \<in> fst ` set own" "k \<in> fst ` set own'" for k
        proof -
          from that obtain x y where xy: "map_of own k = Some x" "map_of own' k = Some y"
            by (metis map_of_eq_None_iff not_None_eq)
          then have sets: "(k, x) \<in> set own" "(k, y) \<in> set own'" by (auto dest: map_of_SomeD)
          then have "x \<in> S" "y \<in> S" "plain x" "plain y" "size x < size a"
            using object 1(3-6) coherent_prop [OF assms] size_prop [OF sets(1), of i c inh] by (auto simp: plain_Object)
          moreover have "get a k = x" "get b k = y" "k \<in> set (rev (keys a))"
            using object xy that by auto
          ultimately show ?thesis
            using 1(2) [OF None unstacked, of k] object xy deeper by (auto simp: isArray_def)
        qed
        have "eq a b stack \<longleftrightarrow> length own = length own' \<and>
            (\<forall>k \<in> fst ` set own. k \<in> fst ` set own' \<and> eq (get a k) (get b k) (stack @ [(a, b)]))"
          using None unstacked
          by (subst eq.simps) (auto simp: object isArray_def list_all_iff has_Object simp del: get.simps)
        also have "\<dots> \<longleftrightarrow> length own = length own' \<and>
            (\<forall>k \<in> fst ` set own. k \<in> fst ` set own' \<and> map_option shape (map_of own k) = map_option shape (map_of own' k))"
          using member by (simp only: cong: conj_cong ball_cong)
        also have "\<dots> \<longleftrightarrow> map_option shape \<circ> map_of own = map_option shape \<circ> map_of own'"
          by (rule shape_props [OF dist, symmetric])
        finally show ?thesis by (simp add: object)
      qed
    qed
  qed
qed

text \<open>
  C26: On plain values without cycles, \<open>isEqual\<close> decides equality of shapes; the stacks of traversed
  objects play no part. It is then an equivalence.
\<close>

theorem isEqual_shape:
  assumes "coherent S" "a \<in> S" "b \<in> S" "plain a" "plain b"
  shows "isEqual a b \<longleftrightarrow> shape a = shape b"
  unfolding isEqual_def by (rule eq_shape [OF assms]) simp

text \<open>
  An object without constructor equals objects of different constructors that do not equal each
  other: in general \<open>isEqual\<close> is not transitive.
\<close>

theorem isEqual_not_transitive:
  "\<exists>a n b. isEqual a n \<and> isEqual n b \<and> \<not> isEqual a b"
proof (intro exI conjI)
  let ?obj = "\<lambda>i c. Object i c [(js ''x'', int_val 1)] []"
  show "isEqual (?obj 1 (Some 1)) (?obj 2 None)" by code_simp
  show "isEqual (?obj 2 None) (?obj 3 (Some 2))" by code_simp
  show "\<not> isEqual (?obj 1 (Some 1)) (?obj 3 (Some 2))" by code_simp
qed

section \<open>Properties in and out of lists\<close>

lemma put_fresh: "k \<notin> fst ` set ps \<Longrightarrow> put k v ps = ps @ [(k, v)]"
  by (induction ps) auto

lemma fold_put_distinct:
  "distinct ks \<Longrightarrow> set ks \<inter> fst ` set ps = {} \<Longrightarrow> fold (\<lambda>k. put k (f k)) ks ps = ps @ map (\<lambda>k. (k, f k)) ks"
  by (induction ks arbitrary: ps) (auto simp: put_fresh)

lemma object_from_pairs_list:
  "object_from_pairs w (map (\<lambda>k. Array i [String k, f k]) ks) = yields (fold (\<lambda>k. put k (f k)) ks [])"
proof -
  have "run_fold (\<lambda>p result. if is_nil p then raises (Engine TypeError)
      else yields (put (to_text w (get_index p 0)) (get_index p 1) result)) (map (\<lambda>k. Array i [String k, f k]) ks) ps =
      yields (fold (\<lambda>k. put k (f k)) ks ps)" for ps
    by (induction ks arbitrary: ps) (simp_all add: is_nil_def nth_val_def)
  then show ?thesis by (simp add: object_from_pairs_def)
qed

lemma object_from_lists_list:
  "object_from_lists w (map String ks) (Array i (map f ks)) = fold (\<lambda>k. put k (f k)) ks []"
proof -
  have "fold (\<lambda>(i, k). put (to_text w k) (get_index (Array j (map f (ls @ ks))) i)) (enumerate (length ls) (map String ks)) ps =
      fold (\<lambda>k. put k (f k)) ks ps" for ls ps j
  proof (induction ks arbitrary: ls ps)
    case (Cons k ks)
    from Cons [of "ls @ [k]" "put k (f k) ps"] show ?case by (simp add: nth_val_def nth_append)
  qed simp
  from this [where ls = "[]"] show ?thesis by (simp add: object_from_lists_def)
qed

text \<open>
  \<open>object\<close> gives an object back from its \<open>pairs\<close>, and from its \<open>keys\<close> and \<open>values\<close>.
\<close>

theorem object_pairs_roundtrip:
  assumes "obj = Object i c own inherited" "distinct (map fst own)"
  shows "object_us w (map (\<lambda>(k, v). Array j [String k, v]) (pairs obj)) Undefined = yields (pairs obj) \<and>
    object_us w (map String (keys obj)) (Array j (values_us obj)) = yields (pairs obj) \<and>
    map_of (pairs obj) = map_of own"
proof (intro conjI)
  have dist: "distinct (keys obj)" using assms by simp
  then have put: "fold (\<lambda>k. put k (get obj k)) (keys obj) [] = pairs obj"
    by (simp add: fold_put_distinct pairs_def)
  show "object_us w (map (\<lambda>(k, v). Array j [String k, v]) (pairs obj)) Undefined = yields (pairs obj)"
    using object_from_pairs_list [of w j "get obj" "keys obj"] by (simp add: object_us_def put) (simp add: pairs_def comp_def)
  show "object_us w (map String (keys obj)) (Array j (values_us obj)) = yields (pairs obj)"
    by (simp add: object_us_def values_us_def object_from_lists_list put)
  show "map_of (pairs obj) = map_of own"
  proof
    fix k
    have "map_of (pairs obj) k = (if k \<in> set (keys obj) then Some (get obj k) else None)"
      by (simp add: pairs_def map_of_map_keys)
    also have "\<dots> = map_of own k"
    proof (cases "map_of own k")
      case None
      then have "k \<notin> fst ` set own" by (simp add: map_of_eq_None_iff)
      with None assms show ?thesis by simp
    qed (use assms in \<open>auto dest: map_of_SomeD intro: rev_image_eqI\<close>)
    finally show "map_of (pairs obj) k = map_of own k" .
  qed
qed

section \<open>Assigned properties\<close>

lemma strict_eq_Undefined [simp]: "strict_eq v Undefined \<longleftrightarrow> v = Undefined"
  by (cases v) auto

definition is_plain_object :: "jsval \<Rightarrow> bool" where
  "is_plain_object v \<longleftrightarrow> (\<exists>i c own inherited. v = Object i c own inherited)"

lemma assign_prop_object:
  assumes "is_plain_object obj"
  shows "is_plain_object (assign_prop u source key obj)"
    "get (assign_prop u source key obj) k =
      (if k = key \<and> (u \<longrightarrow> get obj k = Undefined) then get source k else get obj k)"
  using assms by (auto simp: is_plain_object_def assign_prop_def)

lemma assign_loop:
  "is_plain_object obj \<Longrightarrow>
     is_plain_object (fold (assign_prop u source) ks obj) \<and>
     get (fold (assign_prop u source) ks obj) k =
       (if k \<in> set ks \<and> (u \<longrightarrow> get obj k = Undefined) then get source k else get obj k)"
proof (induction ks arbitrary: obj)
  case (Cons key ks)
  then show ?case using assign_prop_object [OF Cons.prems, of u source key] by auto
qed simp

lemma createAssigner_Nil: "createAssigner keysFunc u obj [] = obj"
  by (simp add: createAssigner_def)

lemma createAssigner_object:
  "is_plain_object obj \<Longrightarrow> createAssigner keysFunc u obj sources =
     fold (\<lambda>source. fold (assign_prop u source) (keysFunc source)) sources obj"
  by (auto simp: createAssigner_def is_plain_object_def is_nil_def)

lemma createAssigner_get:
  "is_plain_object obj \<Longrightarrow> get (createAssigner keysFunc u obj sources) k =
     fold (\<lambda>source v. if k \<in> set (keysFunc source) \<and> (u \<longrightarrow> v = Undefined) then get source k else v)
       sources (get obj k)"
proof -
  assume "is_plain_object obj"
  then have "get (fold (\<lambda>source. fold (assign_prop u source) (keysFunc source)) sources obj) k =
      fold (\<lambda>source v. if k \<in> set (keysFunc source) \<and> (u \<longrightarrow> v = Undefined) then get source k else v) sources (get obj k)"
    by (induction sources arbitrary: obj) (simp_all add: assign_loop)
  with \<open>is_plain_object obj\<close> show ?thesis by (simp add: createAssigner_object)
qed

lemma fold_keep_last:
  "fold (\<lambda>x v. if P x then f x else v) xs v = (case find P (rev xs) of Some x \<Rightarrow> f x | None \<Rightarrow> v)"
proof (induction xs rule: rev_induct)
  case (snoc x xs)
  then show ?case by simp
qed simp

lemma fold_keep_first:
  "fold (\<lambda>x v. if P x \<and> v = u then f x else v) xs v =
     (case find (\<lambda>y. y \<noteq> u) (v # map f (filter P xs)) of Some y \<Rightarrow> y | None \<Rightarrow> u)"
proof (induction xs arbitrary: v)
  case (Cons x xs)
  then show ?case by (cases "v = u") auto
qed simp

text \<open>
  A property of an object after \<open>extend\<close> comes from the last source that has it; after \<open>defaults\<close>
  it is the first value that is defined, of the object and of the sources in order.
\<close>

theorem assigners:
  assumes "obj = Object i c own inherited"
  shows "get (extend_us obj sources) k =
      (case find (\<lambda>source. k \<in> set (allKeys source)) (rev sources) of Some source \<Rightarrow> get source k | None \<Rightarrow> get obj k) \<and>
    get (defaults obj sources) k =
      (case find (\<lambda>v. v \<noteq> Undefined)
         (get obj k # map (\<lambda>source. get source k) (filter (\<lambda>source. k \<in> set (allKeys source)) sources)) of
         Some v \<Rightarrow> v | None \<Rightarrow> Undefined)"
proof -
  have "is_plain_object obj" using assms by (auto simp: is_plain_object_def)
  then show ?thesis
    unfolding extend_us_def defaults_def
    by (simp only: createAssigner_get simp_thms fold_keep_last fold_keep_first)
qed

text \<open>
  A clone has the properties of the object, inherited ones included, as its own, under a new
  identity; the clone of an array has the same elements.
\<close>

theorem clone_copies:
  assumes "obj = Object i c own inherited"
  shows "(\<exists>own'. clone fresh obj = Object fresh (Some 0) own' [] \<and>
      map_of own' = (\<lambda>k. if k \<in> set (allKeys obj) then Some (get obj k) else None)) \<and>
    clone fresh (Array j xs) = Array fresh xs"
proof -
  have "clone fresh obj = Object fresh (Some 0) (fold (\<lambda>k. put k (get obj k)) (allKeys obj) []) []"
    using assms by (simp add: clone_def isObject_def isArray_def extend_us_def createAssigner_def is_nil_def fold_set_prop)
  moreover have "map_of (fold (\<lambda>k. put k (get obj k)) (allKeys obj) []) =
      (\<lambda>k. if k \<in> set (allKeys obj) then Some (get obj k) else None)"
    by (rule ext) (simp add: map_of_fold_put)
  ultimately show ?thesis by (simp add: clone_def isObject_def isArray_def)
qed

section \<open>Selected properties\<close>

lemma pick_loop_pure:
  "pick_loop (\<lambda>v k. yields (test v k)) obj ks =
     yields (fold (\<lambda>k. put k (get obj k)) (filter (\<lambda>k. test (get obj k) k) ks) [])"
proof -
  have "run_fold (\<lambda>k result. yields (if test (get obj k) k then put k (get obj k) result else result)) ks ps =
      yields (fold (\<lambda>k. put k (get obj k)) (filter (\<lambda>k. test (get obj k) k) ks) ps)" for ps
    by (induction ks arbitrary: ps) auto
  then show ?thesis by (simp add: pick_loop_def)
qed

lemma flatten_names: "flatten False False (map String ks) = map String ks"
  by (rule flatten_flat) auto

lemma contains_names: "contains_list (map String ks) (String k) \<longleftrightarrow> k \<in> set ks"
  by (auto simp: contains_list_iff same_def)

lemma map_of_picked: "map_of (fold (\<lambda>k. put k (get obj k)) ks []) = (\<lambda>k. if k \<in> set ks then Some (get obj k) else None)"
  by (rule ext) (simp add: map_of_fold_put)

lemma pick_names:
  assumes "\<not> is_nil obj"
  shows "pick w obj (map String names) = yields (fold (\<lambda>k. put k (get obj k)) (filter (has_key obj) names) [])"
    and "omit w obj (map String names) =
      yields (fold (\<lambda>k. put k (get obj k)) (filter (\<lambda>k. k \<notin> set names) (allKeys obj)) [])"
proof -
  have fn: "\<not> isFunction (arg (map String names) 0)" by (cases names) (simp_all add: isFunction_def)
  have callback: "optimizeCb (\<lambda>this a. yields (Boolean (\<not> contains_list (map String names) (arg a 1)))) ctx Undefined Undefined
      [v, String k, obj] = yields (Boolean (k \<notin> set names))" for ctx v k
    by (simp add: optimizeCb_def is_nil_def contains_names)
  show "pick w obj (map String names) = yields (fold (\<lambda>k. put k (get obj k)) (filter (has_key obj) names) [])"
    using assms fn by (simp add: pick_def flatten_names comp_def pick_loop_pure)
  show "omit w obj (map String names) =
      yields (fold (\<lambda>k. put k (get obj k)) (filter (\<lambda>k. k \<notin> set names) (allKeys obj)) [])"
    using assms fn pick_loop_pure [of "\<lambda>_ k. k \<notin> set names" obj "allKeys obj"]
    by (simp add: omit_def pick_by_def flatten_names comp_def callback [simplified])
qed

text \<open>A predicate that returns for every property of the object, with any receiver.\<close>

definition tests_properties :: "'s world \<Rightarrow> nat \<Rightarrow> jsval \<Rightarrow> (jsval \<Rightarrow> jstring \<Rightarrow> bool) \<Rightarrow> bool" where
  "tests_properties w f obj p \<longleftrightarrow>
     (\<forall>this v k. \<exists>r. call w f this [v, String k, obj] = yields r \<and> truthy r = p v k)"

lemma pick_tested:
  assumes "\<not> is_nil obj" "tests_properties w f obj p"
  shows "pick w obj [Function f n, context] =
      yields (fold (\<lambda>k. put k (get obj k)) (filter (\<lambda>k. p (get obj k) k) (allKeys obj)) [])"
    and "omit w obj [Function f n, context] =
      yields (fold (\<lambda>k. put k (get obj k)) (filter (\<lambda>k. \<not> p (get obj k) k) (allKeys obj)) [])"
proof -
  have fn: "isFunction (arg [Function f n, context] 0)" by (simp add: isFunction_def)
  have call: "and_do (apply_val w (Function f n) this [v, String k, obj]) (\<lambda>r. yields (truthy r)) = yields (p v k)"
    "and_do (negate (apply_val w (Function f n)) this [v, String k, obj]) (\<lambda>r. yields (truthy r)) = yields (\<not> p v k)"
    for this v k
    using assms(2) [unfolded tests_properties_def, rule_format, of this v k]
    by (auto simp: apply_val_def negate_def)
  have cb: "optimizeCb g ctx Undefined Undefined [v, String k, obj] = g (if ctx = Undefined then Undefined else ctx) [v, String k, obj]"
    for g :: "'a fn" and ctx v k
    by (simp add: optimizeCb_def is_nil_def)
  show "pick w obj [Function f n, context] =
      yields (fold (\<lambda>k. put k (get obj k)) (filter (\<lambda>k. p (get obj k) k) (allKeys obj)) [])"
    using assms(1) fn by (simp add: pick_def pick_by_def cb call pick_loop_pure del: arg_simps) (simp add: cb call pick_loop_pure)
  show "omit w obj [Function f n, context] =
      yields (fold (\<lambda>k. put k (get obj k)) (filter (\<lambda>k. \<not> p (get obj k) k) (allKeys obj)) [])"
    using assms(1) fn pick_loop_pure [of "\<lambda>v k. \<not> p v k" obj "allKeys obj"]
    by (simp add: omit_def pick_by_def cb call del: arg_simps) (simp add: cb call)
qed

text \<open>
  C31: By names, \<open>pick\<close> takes exactly the named properties that the object has, and \<open>omit\<close> exactly
  the enumerable ones, inherited ones included, that are not named; with a predicate, \<open>pick\<close> takes
  exactly the enumerable properties for which it returns a true value, and \<open>omit\<close> exactly the
  others; each under its name, with its value. (A property named \<open>__proto__\<close>, which an assignment
  does not create, is left out.)
\<close>

theorem pick_omit_properties:
  assumes "obj = Object i c own inherited" "tests_properties w f obj p"
    and "js ''__proto__'' \<notin> set (allKeys obj) \<union> set names"
  shows "\<exists>picked omitted tested others.
    pick w obj (map String names) = yields picked \<and> omit w obj (map String names) = yields omitted \<and>
    pick w obj [Function f n, context] = yields tested \<and> omit w obj [Function f n, context] = yields others \<and>
    map_of picked = (\<lambda>k. if k \<in> set names \<and> has_key obj k then Some (get obj k) else None) \<and>
    map_of omitted = (\<lambda>k. if k \<in> set (allKeys obj) \<and> k \<notin> set names then Some (get obj k) else None) \<and>
    map_of tested = (\<lambda>k. if k \<in> set (allKeys obj) \<and> p (get obj k) k then Some (get obj k) else None) \<and>
    map_of others = (\<lambda>k. if k \<in> set (allKeys obj) \<and> \<not> p (get obj k) k then Some (get obj k) else None)"
proof -
  have nil: "\<not> is_nil obj" using assms(1) by (simp add: is_nil_def)
  show ?thesis
    unfolding pick_names [OF nil] pick_tested [OF nil assms(2)]
    by (intro exI conjI) (rule refl, rule refl, rule refl, rule refl, simp_all add: map_of_picked)
qed

text \<open>An object with an own and an inherited property, of which the predicate takes the greater than \<open>1\<close>.\<close>

abbreviation picking_world :: "unit world" where
  "picking_world \<equiv>
     \<lparr>call = \<lambda>i this args. yields (Boolean (less_val unit_world (int_val 1) (arg args 0))),
      number_of = \<lambda>v. NaN, text_of = \<lambda>v. [], math_random = yields 0\<rparr>"

abbreviation picked_object :: jsval where
  "picked_object \<equiv> Object 2 (Some 0) [(js ''a'', int_val 1), (js ''b'', int_val 2)] [(js ''c'', int_val 3)]"

lemma pick_omit_properties_witness:
  "\<exists>picked omitted tested others.
    pick picking_world picked_object [String (js ''a'')] = yields picked \<and>
    omit picking_world picked_object [String (js ''a'')] = yields omitted \<and>
    pick picking_world picked_object [Function 7 3, Undefined] = yields tested \<and>
    omit picking_world picked_object [Function 7 3, Undefined] = yields others \<and>
    map_of picked (js ''a'') = Some (int_val 1) \<and> map_of picked (js ''b'') = None \<and>
    map_of omitted (js ''a'') = None \<and> map_of omitted (js ''c'') = Some (int_val 3) \<and>
    map_of tested (js ''b'') = Some (int_val 2) \<and> map_of tested (js ''a'') = None \<and>
    map_of others (js ''a'') = Some (int_val 1) \<and> map_of others (js ''b'') = None"
proof -
  have keys: "set (allKeys picked_object) = {js ''a'', js ''b'', js ''c''}" by code_simp
  have vals: "get picked_object (js ''a'') = int_val 1" "get picked_object (js ''b'') = int_val 2"
    "get picked_object (js ''c'') = int_val 3" "has_key picked_object (js ''a'')"
    by (simp_all add: js_def has_key_def)
  have test: "tests_properties picking_world 7 picked_object (\<lambda>v k. less_val unit_world (int_val 1) v)"
    by (auto simp: tests_properties_def)
  have less: "less_val unit_world (int_val 1) (int_val 2)" "\<not> less_val unit_world (int_val 1) (int_val 1)"
    by (simp_all add: less_val_def)
  have names: "js ''a'' \<noteq> js ''b''" "js ''a'' \<noteq> js ''c''" "js ''b'' \<noteq> js ''a''" "js ''c'' \<noteq> js ''a''"
    by (simp_all add: js_def)
  have "js ''__proto__'' \<notin> set (allKeys picked_object) \<union> set [js ''a'']"
    unfolding keys by (simp add: js_def)
  from pick_omit_properties [OF refl test this, of 3 Undefined] obtain pk om te ot where
    r: "pick picking_world picked_object (map String [js ''a'']) = yields pk"
      "omit picking_world picked_object (map String [js ''a'']) = yields om"
      "pick picking_world picked_object [Function 7 3, Undefined] = yields te"
      "omit picking_world picked_object [Function 7 3, Undefined] = yields ot" and
    m: "map_of pk = (\<lambda>k. if k \<in> set [js ''a''] \<and> has_key picked_object k then Some (get picked_object k) else None)"
      "map_of om = (\<lambda>k. if k \<in> set (allKeys picked_object) \<and> k \<notin> set [js ''a''] then Some (get picked_object k) else None)"
      "map_of te = (\<lambda>k. if k \<in> set (allKeys picked_object) \<and> less_val unit_world (int_val 1) (get picked_object k)
        then Some (get picked_object k) else None)"
      "map_of ot = (\<lambda>k. if k \<in> set (allKeys picked_object) \<and> \<not> less_val unit_world (int_val 1) (get picked_object k)
        then Some (get picked_object k) else None)" by blast
  show ?thesis
    by (intro exI conjI, rule r(1) [unfolded list.map], rule r(2) [unfolded list.map], rule r(3), rule r(4))
      (simp_all add: m keys vals less names del: get.simps)
qed

text \<open>An array that holds an object, and a copy of it under other identities.\<close>

definition example_value :: "nat \<Rightarrow> jsval" where
  "example_value i = Array i [int_val 7, Object (i + 1) (Some 0) [(js ''x'', String (js ''a''))] []]"

lemma isEqual_shape_witness: "isEqual (example_value 1) (example_value 5)"
proof -
  let ?obj = "\<lambda>i. Object i (Some 0) [(js ''x'', String (js ''a''))] []"
  define S where "S = {example_value 1, example_value 5, ?obj 2, ?obj 6, int_val 7, String (js ''a'')}"
  have "coherent S" by (auto simp: S_def coherent_def example_value_def)
  moreover have "plain (?obj i)" for i
    by (auto simp: plain_Object js_def plain.simps [of "String _"])
  then have "plain (example_value i)" for i
    by (auto simp: example_value_def plain_Array plain.simps [of "Number _"])
  ultimately show ?thesis
    by (subst isEqual_shape [of S]) (simp_all add: S_def, simp add: example_value_def)
qed

end
