(* ===== verification/Underscore_Functions.thy ===== *)
theory Underscore_Functions
  imports Underscore_Objects
begin

text \<open>
  The collection library of \<open>wordcut.js\<close> (module 25), the function wrappers: filling in arguments,
  remembering results, limiting how often and when a function runs, and composing functions.

  A wrapper with a state of its own is a program on the state of the surroundings paired with that
  state. The wrapped function does not call its own wrapper; calls with \<open>new\<close> are not modelled.
\<close>

section \<open>Arguments\<close>

text \<open>An argument of \<open>partial\<close>: a value, or the library object as a placeholder.\<close>

datatype bound_arg = Placeholder | Bound jsval

fun partial_args :: "bound_arg list \<Rightarrow> jsval list \<Rightarrow> jsval list" where
  "partial_args [] args = args"
| "partial_args (Bound v # bs) args = v # partial_args bs args"
| "partial_args (Placeholder # bs) args = arg args 0 # partial_args bs (tl args)"

definition partial_us :: "'s fn \<Rightarrow> bound_arg list \<Rightarrow> 's fn" where
  "partial_us func bs this args = func this (partial_args bs args)"

definition bind :: "'s fn \<Rightarrow> jsval \<Rightarrow> jsval list \<Rightarrow> 's fn" where
  "bind func context bound this args = func context (bound @ args)"

definition wrap :: "jsval \<Rightarrow> 's fn \<Rightarrow> 's fn" where
  "wrap func wrapper = partial_us wrapper [Bound func]"

text \<open>
  \<open>compose\<close>: the last function gets the arguments, every other one the result of the function after
  it. A call of the composition of no functions is a type error.
\<close>

fun compose_down :: "'s fn list \<Rightarrow> jsval \<Rightarrow> jsval \<Rightarrow> ('s, jsval) prog" where
  "compose_down [] this result = yields result"
| "compose_down (f # fs) this result = and_do (f this [result]) (compose_down fs this)"

definition compose :: "'s fn list \<Rightarrow> 's fn" where
  "compose fs this args =
     (case rev fs of
        [] \<Rightarrow> raises (Engine TypeError)
      | f # gs \<Rightarrow> and_do (f this args) (compose_down gs this))"

section \<open>Wrappers with a state\<close>

text \<open>A program of the surroundings, beside the state of a wrapper.\<close>

definition inner :: "('s, 'a) prog \<Rightarrow> ('s \<times> 'c, 'a) prog" where
  "inner m = (\<lambda>(s, c). case m s of (r, s') \<Rightarrow> (r, (s', c)))"

definition own_state :: "('s \<times> 'c, 'c) prog" where
  "own_state = (\<lambda>(s, c). (Inr c, (s, c)))"

definition set_state :: "'c \<Rightarrow> ('s \<times> 'c, unit) prog" where
  "set_state c' = (\<lambda>(s, c). (Inr (), (s, c')))"

text \<open>
  \<open>memoize\<close>: the cache maps the address of a call, the string of what the hasher returns or of the
  first argument, to a result.
\<close>

type_synonym cache = "(jstring \<times> jsval) list"

definition memoize :: "'s world \<Rightarrow> 's fn \<Rightarrow> 's fn option \<Rightarrow> ('s \<times> cache) fn" where
  "memoize w func hasher this args =
     and_do (case hasher of Some h \<Rightarrow> inner (h this args) | None \<Rightarrow> yields (arg args 0)) (\<lambda>k.
       let address = to_text w k
       in and_do own_state (\<lambda>cache.
            case map_of cache address of
              Some v \<Rightarrow> yields v
            | None \<Rightarrow> and_do (inner (func this args)) (\<lambda>v.
                        and_do (set_state (put address v cache)) (\<lambda>_. yields v))))"

text \<open>\<open>after\<close> and \<open>before\<close> count down the calls that are left; \<open>before\<close> keeps the last result.\<close>

definition after :: "'s fn \<Rightarrow> ('s \<times> int) fn" where
  "after func this args =
     and_do own_state (\<lambda>times.
       and_do (set_state (times - 1)) (\<lambda>_.
         if times - 1 < 1 then inner (func this args) else yields Undefined))"

record before_state =
  b_times :: int
  b_memo :: jsval
  b_func :: bool

definition before_start :: "int \<Rightarrow> before_state" where
  "before_start n = \<lparr>b_times = n, b_memo = Undefined, b_func = True\<rparr>"

definition before :: "'s fn \<Rightarrow> ('s \<times> before_state) fn" where
  "before func this args =
     and_do own_state (\<lambda>st. let times = b_times st - 1 in
       and_do (set_state (st\<lparr>b_times := times\<rparr>)) (\<lambda>_.
         and_do (if times > 0
                 then (if b_func st then inner (func this args) else raises (Engine TypeError))
                 else yields (b_memo st)) (\<lambda>memo.
           and_do (set_state \<lparr>b_times = times, b_memo = memo, b_func = b_func st \<and> \<not> times \<le> 1\<rparr>) (\<lambda>_.
             yields memo))))"

definition once_us_start :: before_state where
  "once_us_start = before_start 2"

section \<open>Calls of a wrapper\<close>

text \<open>A function that logs its calls and returns a value of its arguments.\<close>

definition logging :: "(jsval list \<Rightarrow> jsval) \<Rightarrow> (jsval list list) fn" where
  "logging F this args = (\<lambda>log. (Inr (F args), log @ [args]))"

fun results :: "'s fn \<Rightarrow> jsval \<Rightarrow> jsval list list \<Rightarrow> ('s, jsval list) prog" where
  "results f this [] = yields []"
| "results f this (args # calls) = and_do (f this args) (\<lambda>v. and_do (results f this calls) (\<lambda>vs. yields (v # vs)))"

lemma state_simps:
  "and_do own_state f (s, c) = f c (s, c)"
  "and_do (set_state c') g (s, c) = g () (s, c')"
  "and_do (inner (logging F this args)) h (log, c) = h (F args) (log @ [args], c)"
  "inner (logging F this args) (log, c) = (Inr (F args), (log @ [args], c))"
  by (simp_all add: and_do_def own_state_def set_state_def inner_def logging_def)

lemma results_Cons:
  "f this args s = (Inr v, s') \<Longrightarrow> results f this calls s' = (Inr vs, s'') \<Longrightarrow>
     results f this (args # calls) s = (Inr (v # vs), s'')"
  by (simp add: and_do_def yields_def)

lemma after_results:
  "\<exists>c. results (after (logging F)) this calls (log, n) =
     (Inr (replicate (min (nat (n - 1)) (length calls)) Undefined @ map F (drop (nat (n - 1)) calls)),
      (log @ drop (nat (n - 1)) calls, c))"
proof (induction calls arbitrary: log n)
  case (Cons args calls)
  show ?case
  proof (cases "n \<le> 1")
    case True
    then have "after (logging F) this args (log, n) = (Inr (F args), (log @ [args], n - 1))"
      by (simp add: after_def state_simps)
    moreover obtain c where "results (after (logging F)) this calls (log @ [args], n - 1) =
        (Inr (map F calls), ((log @ [args]) @ calls, c))"
      using Cons [of "log @ [args]" "n - 1"] True by auto
    ultimately show ?thesis using True by (auto dest: results_Cons simp del: results.simps)
  next
    case False
    then have "after (logging F) this args (log, n) = (Inr Undefined, (log, n - 1))"
      by (simp add: after_def state_simps yields_def)
    moreover obtain c where "results (after (logging F)) this calls (log, n - 1) =
        (Inr (replicate (min (nat (n - 1 - 1)) (length calls)) Undefined @ map F (drop (nat (n - 1 - 1)) calls)),
         (log @ drop (nat (n - 1 - 1)) calls, c))"
      using Cons [of log "n - 1"] by blast
    moreover have "nat (n - 1) = Suc (nat (n - 1 - 1))" using False by simp
    ultimately show ?thesis by (auto dest: results_Cons simp del: results.simps)
  qed
qed (simp add: yields_def)

lemma before_results:
  assumes "b_times st > 1 \<Longrightarrow> b_func st"
  shows "\<exists>c. results (before (logging F)) this calls (log, st) =
     (Inr (map F (take (nat (b_times st - 1)) calls) @
           replicate (length calls - nat (b_times st - 1)) (last (b_memo st # map F (take (nat (b_times st - 1)) calls)))),
      (log @ take (nat (b_times st - 1)) calls, c))"
  using assms
proof (induction calls arbitrary: log st)
  case (Cons args calls)
  show ?case
  proof (cases "b_times st > 1")
    case True
    define st' where "st' = \<lparr>b_times = b_times st - 1, b_memo = F args, b_func = b_func st \<and> \<not> b_times st - 1 \<le> 1\<rparr>"
    have "before (logging F) this args (log, st) = (Inr (F args), (log @ [args], st'))"
      using True Cons.prems by (simp add: before_def state_simps Let_def st'_def yields_def)
    moreover obtain c where "results (before (logging F)) this calls (log @ [args], st') =
        (Inr (map F (take (nat (b_times st' - 1)) calls) @
              replicate (length calls - nat (b_times st' - 1)) (last (b_memo st' # map F (take (nat (b_times st' - 1)) calls)))),
         ((log @ [args]) @ take (nat (b_times st' - 1)) calls, c))"
      using Cons.IH [of st' "log @ [args]"] Cons.prems by (auto simp: st'_def)
    moreover have "nat (b_times st - 1) = Suc (nat (b_times st' - 1))" "b_memo st' = F args"
      using True by (simp_all add: st'_def)
    ultimately show ?thesis by (auto dest: results_Cons simp del: results.simps)
  next
    case False
    define st' where "st' = \<lparr>b_times = b_times st - 1, b_memo = b_memo st, b_func = b_func st \<and> \<not> b_times st - 1 \<le> 1\<rparr>"
    have "before (logging F) this args (log, st) = (Inr (b_memo st), (log, st'))"
      using False by (simp add: before_def state_simps Let_def st'_def yields_def)
    moreover obtain c where "results (before (logging F)) this calls (log, st') =
        (Inr (replicate (length calls) (b_memo st)), (log, c))"
      using Cons.IH [of st' log] False by (auto simp: st'_def)
    ultimately show ?thesis using False by (auto dest: results_Cons simp del: results.simps)
  qed
qed (simp add: yields_def)

text \<open>
  Of a sequence of calls, \<open>after n\<close> runs the function on those from the \<open>n\<close>-th on, and \<open>before n\<close> on
  those before the \<open>n\<close>-th, whose last result the others return; the log has the calls that ran.
\<close>

theorem call_counts:
  "(\<exists>c. results (after (logging F)) this calls (log, n) =
     (Inr (replicate (min (nat (n - 1)) (length calls)) Undefined @ map F (drop (nat (n - 1)) calls)),
      (log @ drop (nat (n - 1)) calls, c))) \<and>
   (\<exists>c. results (before (logging F)) this calls (log, before_start n) =
     (Inr (map F (take (nat (n - 1)) calls) @
           replicate (length calls - nat (n - 1)) (last (Undefined # map F (take (nat (n - 1)) calls)))),
      (log @ take (nat (n - 1)) calls, c)))"
  using after_results before_results [of "before_start n"] by (simp add: before_start_def)

lemma inner_yields: "inner (yields x) = yields x"
  by (auto simp: inner_def yields_def fun_eq_iff)

text \<open>What the hasher (without one: the first argument) makes of the arguments of a call.\<close>

definition hashes :: "'s fn option \<Rightarrow> jsval \<Rightarrow> (jsval list \<Rightarrow> jsval) \<Rightarrow> bool" where
  "hashes hasher this H \<longleftrightarrow>
     (case hasher of Some h \<Rightarrow> (\<forall>args. h this args = yields (H args)) | None \<Rightarrow> (\<forall>args. H args = arg args 0))"

lemma memoize_call:
  assumes "hashes hasher this H"
  shows "memoize w (logging F) hasher this args (log, cache) =
    (case map_of cache (to_text w (H args)) of
       Some v \<Rightarrow> (Inr v, (log, cache))
     | None \<Rightarrow> (Inr (F args), (log @ [args], put (to_text w (H args)) (F args) cache)))"
proof -
  have "(case hasher of Some h \<Rightarrow> inner (h this args) | None \<Rightarrow> yields (arg args 0)) =
      (yields (H args) :: (jsval list list \<times> cache, jsval) prog)"
    using assms by (auto simp: hashes_def inner_yields split: option.splits)
  then show ?thesis
    unfolding memoize_def by (simp only: and_do_yields) (auto simp: state_simps Let_def yields_def split: option.splits)
qed

lemma memoize_results:
  assumes "hashes hasher this H" "K = (\<lambda>args. to_text w (H args))"
  shows "\<exists>fresh cache'. results (memoize w (logging F) hasher) this calls (log, cache) =
      (Inr (map (\<lambda>args. case map_of cache (K args) of Some v \<Rightarrow> v | None \<Rightarrow> F (hd (filter (\<lambda>c. K c = K args) calls))) calls),
       (log @ fresh, cache')) \<and>
    distinct (map K fresh) \<and> K ` set fresh = K ` set calls - dom (map_of cache) \<and> subseq fresh calls"
proof (induction calls arbitrary: log cache)
  case (Cons args calls)
  note call = memoize_call [OF assms(1), of w F args log cache]
  show ?case
  proof (cases "map_of cache (K args)")
    case (Some v)
    obtain fresh cache' where IH: "results (memoize w (logging F) hasher) this calls (log, cache) =
        (Inr (map (\<lambda>a. case map_of cache (K a) of Some v \<Rightarrow> v | None \<Rightarrow> F (hd (filter (\<lambda>c. K c = K a) calls))) calls),
         (log @ fresh, cache'))" "distinct (map K fresh)"
        "K ` set fresh = K ` set calls - dom (map_of cache)" "subseq fresh calls"
      using Cons.IH [of log cache] by blast
    have "map (\<lambda>a. case map_of cache (K a) of Some v \<Rightarrow> v | None \<Rightarrow> F (hd (filter (\<lambda>c. K c = K a) (args # calls)))) calls =
        map (\<lambda>a. case map_of cache (K a) of Some v \<Rightarrow> v | None \<Rightarrow> F (hd (filter (\<lambda>c. K c = K a) calls))) calls"
      using Some by (intro map_cong) (auto split: option.splits)
    moreover have "memoize w (logging F) hasher this args (log, cache) = (Inr v, (log, cache))"
      using call Some by (simp add: assms(2))
    ultimately show ?thesis
      using results_Cons [OF _ IH(1)] IH(2-4) Some
      by (intro exI [of _ fresh] exI [of _ cache']) (auto simp del: results.simps)
  next
    case None
    let ?cache = "put (K args) (F args) cache"
    obtain fresh cache' where IH: "results (memoize w (logging F) hasher) this calls (log @ [args], ?cache) =
        (Inr (map (\<lambda>a. case map_of ?cache (K a) of Some v \<Rightarrow> v | None \<Rightarrow> F (hd (filter (\<lambda>c. K c = K a) calls))) calls),
         ((log @ [args]) @ fresh, cache'))" "distinct (map K fresh)"
        "K ` set fresh = K ` set calls - dom (map_of ?cache)" "subseq fresh calls"
      using Cons.IH [of "log @ [args]" ?cache] by blast
    have "map (\<lambda>a. case map_of cache (K a) of Some v \<Rightarrow> v | None \<Rightarrow> F (hd (filter (\<lambda>c. K c = K a) (args # calls)))) calls =
        map (\<lambda>a. case map_of ?cache (K a) of Some v \<Rightarrow> v | None \<Rightarrow> F (hd (filter (\<lambda>c. K c = K a) calls))) calls"
      using None by (intro map_cong) (auto split: option.splits)
    moreover have "memoize w (logging F) hasher this args (log, cache) = (Inr (F args), (log @ [args], ?cache))"
      using call None by (simp add: assms(2))
    ultimately show ?thesis
      using results_Cons [OF _ IH(1)] IH(2-4) None
      by (intro exI [of _ "args # fresh"] exI [of _ cache']) (auto simp del: results.simps)
  qed
qed (simp add: yields_def)

text \<open>
  Of a sequence of calls of a memoized function, exactly the first of each address runs the
  function; every call returns the result of the first call of its address.
\<close>

theorem memoize_once:
  assumes "hashes hasher this H"
  shows "\<exists>fresh cache. results (memoize w (logging F) hasher) this calls (log, []) =
      (Inr (map (\<lambda>args. F (hd (filter (\<lambda>c. to_text w (H c) = to_text w (H args)) calls))) calls), (log @ fresh, cache)) \<and>
    distinct (map (\<lambda>c. to_text w (H c)) fresh) \<and>
    (\<lambda>c. to_text w (H c)) ` set fresh = (\<lambda>c. to_text w (H c)) ` set calls \<and> subseq fresh calls"
  using memoize_results [OF assms refl, of w F calls log "[]"] by simp

abbreviation log_world :: "jsval list list world" where
  "log_world \<equiv> bucket_world"

lemma memoize_once_witness:
  "\<exists>fresh cache. results (memoize log_world (logging (\<lambda>args. arg args 1)) None) Undefined
        [[int_val 1, int_val 5], [int_val 1, int_val 6], [int_val 2, int_val 7]] ([], []) =
      (Inr (map (\<lambda>args. arg (hd (filter (\<lambda>c. to_text log_world (arg c 0) = to_text log_world (arg args 0))
           [[int_val 1, int_val 5], [int_val 1, int_val 6], [int_val 2, int_val 7]])) 1)
         [[int_val 1, int_val 5], [int_val 1, int_val 6], [int_val 2, int_val 7]]), ([] @ fresh, cache)) \<and>
    distinct (map (\<lambda>c. to_text log_world (arg c 0)) fresh) \<and>
    (\<lambda>c. to_text log_world (arg c 0)) ` set fresh =
      (\<lambda>c. to_text log_world (arg c 0)) ` set [[int_val 1, int_val 5], [int_val 1, int_val 6], [int_val 2, int_val 7]] \<and>
    subseq fresh [[int_val 1, int_val 5], [int_val 1, int_val 6], [int_val 2, int_val 7]]"
  by (rule memoize_once) (simp add: hashes_def)

section \<open>Throttling\<close>

text \<open>
  The state of a throttled function: the time at which its timer is due, the time of the last run
  that counts (\<open>previous\<close>), and the arguments of a call that waits. Times are those of \<open>_.now()\<close>,
  after the epoch. What a call returns (the result of the last run) is not modelled.
\<close>

record throttle =
  t_timeout :: "int option"
  t_previous :: int
  t_args :: "jsval list option"

record throttle_options =
  leading :: bool
  trailing :: bool

definition throttle_start :: throttle where
  "throttle_start = \<lparr>t_timeout = None, t_previous = 0, t_args = None\<rparr>"

text \<open>A step returns the new state, and the arguments with which the function runs, if it does.\<close>

definition throttle_later :: "throttle_options \<Rightarrow> int \<Rightarrow> throttle \<Rightarrow> throttle \<times> jsval list option" where
  "throttle_later options now st =
     (\<lparr>t_timeout = None, t_previous = (if \<not> leading options then 0 else now), t_args = None\<rparr>, t_args st)"

definition throttle_call ::
  "int \<Rightarrow> throttle_options \<Rightarrow> int \<Rightarrow> jsval list \<Rightarrow> throttle \<Rightarrow> throttle \<times> jsval list option"
where
  "throttle_call wait options now args st =
     (let previous = (if t_previous st = 0 \<and> \<not> leading options then now else t_previous st);
          remaining = wait - (now - previous)
      in if remaining \<le> 0 \<or> wait < remaining then
           (\<lparr>t_timeout = None, t_previous = now, t_args = None\<rparr>, Some args)
         else if t_timeout st = None \<and> trailing options then
           (\<lparr>t_timeout = Some (now + remaining), t_previous = previous, t_args = Some args\<rparr>, None)
         else (\<lparr>t_timeout = t_timeout st, t_previous = previous, t_args = Some args\<rparr>, None))"

text \<open>
  The runs of a throttled function: calls and the expiry of its timer, at times that do not go
  back; a timer does not expire before it is due. \<open>runs\<close> has the times and arguments of the runs of
  the function, and \<open>asked\<close> those of the calls, the latest first.
\<close>

record schedule =
  s_state :: throttle
  s_clock :: int
  s_asked :: "(int \<times> jsval list) list"
  s_runs :: "(int \<times> jsval list) list"

definition record_run :: "int \<Rightarrow> throttle \<times> jsval list option \<Rightarrow> schedule \<Rightarrow> schedule" where
  "record_run now r sch =
     sch\<lparr>s_state := fst r, s_clock := now,
         s_runs := (case snd r of Some args \<Rightarrow> (now, args) # s_runs sch | None \<Rightarrow> s_runs sch)\<rparr>"

inductive throttled :: "int \<Rightarrow> throttle_options \<Rightarrow> schedule \<Rightarrow> bool" for wait options where
  start: "0 < now \<Longrightarrow> throttled wait options \<lparr>s_state = throttle_start, s_clock = now, s_asked = [], s_runs = []\<rparr>"
| called: "throttled wait options sch \<Longrightarrow> s_clock sch \<le> now \<Longrightarrow>
    throttled wait options
      (record_run now (throttle_call wait options now args (s_state sch)) (sch\<lparr>s_asked := (now, args) # s_asked sch\<rparr>))"
| expired: "throttled wait options sch \<Longrightarrow> s_clock sch \<le> now \<Longrightarrow> t_timeout (s_state sch) = Some due \<Longrightarrow> due \<le> now \<Longrightarrow>
    throttled wait options (record_run now (throttle_later options now (s_state sch)) sch)"

text \<open>Two runs in a row are at least \<open>wait\<close> apart.\<close>

fun apart :: "int \<Rightarrow> (int \<times> 'a) list \<Rightarrow> bool" where
  "apart wait (x # y # xs) \<longleftrightarrow> fst y + wait \<le> fst x \<and> apart wait (y # xs)"
| "apart wait xs \<longleftrightarrow> True"

text \<open>
  The invariant: \<open>previous\<close>, when it is set, is not before the last run and not after the clock, and
  the timer is due \<open>wait\<close> after it.
\<close>

definition throttle_inv :: "int \<Rightarrow> throttle_options \<Rightarrow> schedule \<Rightarrow> bool" where
  "throttle_inv wait options sch \<longleftrightarrow>
     (let st = s_state sch in
      0 < s_clock sch \<and> apart wait (s_runs sch) \<and> 0 \<le> t_previous st \<and> t_previous st \<le> s_clock sch \<and>
      (\<forall>r \<in> set (s_runs sch). fst r \<le> s_clock sch) \<and>
      (t_previous st \<noteq> 0 \<or> leading options \<longrightarrow> (\<forall>r \<in> set (s_runs sch). fst r \<le> t_previous st)) \<and>
      (\<forall>due. t_timeout st = Some due \<longrightarrow> due = t_previous st + wait \<and> (t_previous st \<noteq> 0 \<or> leading options)) \<and>
      (trailing options \<longrightarrow> (t_args st = None \<longleftrightarrow> t_timeout st = None)) \<and>
      (case s_asked sch of
         [] \<Rightarrow> t_args st = None \<and> s_runs sch = []
       | (_, args) # _ \<Rightarrow> t_args st = Some args \<or> t_args st = None \<and> s_runs sch \<noteq> [] \<and> snd (hd (s_runs sch)) = args))"

lemma throttle_inv_start:
  "0 < now \<Longrightarrow> throttle_inv wait options \<lparr>s_state = throttle_start, s_clock = now, s_asked = [], s_runs = []\<rparr>"
  by (simp add: throttle_inv_def throttle_start_def)

lemma throttle_inv_called:
  assumes "throttle_inv wait options sch" "s_clock sch \<le> now"
  shows "throttle_inv wait options
    (record_run now (throttle_call wait options now args (s_state sch)) (sch\<lparr>s_asked := (now, args) # s_asked sch\<rparr>))"
  using assms unfolding throttle_inv_def record_run_def throttle_call_def Let_def
  by (cases "s_runs sch") (auto split: list.splits)

lemma throttle_inv_expired:
  assumes "throttle_inv wait options sch" "s_clock sch \<le> now" "t_timeout (s_state sch) = Some due" "due \<le> now"
  shows "throttle_inv wait options (record_run now (throttle_later options now (s_state sch)) sch)"
  using assms unfolding throttle_inv_def record_run_def throttle_later_def Let_def
  by (cases "s_runs sch") (auto split: list.splits option.splits)

lemma throttled_inv: "throttled wait options sch \<Longrightarrow> throttle_inv wait options sch"
  by (induction rule: throttled.induct) (auto intro: throttle_inv_start throttle_inv_called throttle_inv_expired)

text \<open>
  C27: Whatever the calls, two runs of a throttled function are at least \<open>wait\<close> apart. With trailing runs
  no last call is lost: the latest run has the arguments of the latest call, or a timer is due within
  \<open>wait\<close> and runs the function with them.
\<close>

theorem throttle_guarantee:
  assumes "throttled wait options sch"
  shows "apart wait (s_runs sch) \<and>
    (\<forall>t args calls. trailing options \<and> s_asked sch = (t, args) # calls \<longrightarrow>
       (t_timeout (s_state sch) = None \<and> s_runs sch \<noteq> [] \<and> snd (hd (s_runs sch)) = args) \<or>
       (\<exists>due \<le> s_clock sch + wait. t_timeout (s_state sch) = Some due \<and>
          (\<forall>now. snd (throttle_later options now (s_state sch)) = Some args)))"
  using throttled_inv [OF assms] by (auto simp: throttle_inv_def Let_def throttle_later_def)

text \<open>Two calls within the wait: the first runs at once, the second waits for the timer.\<close>

lemma throttle_guarantee_witness:
  "\<exists>sch. throttled 100 \<lparr>leading = True, trailing = True\<rparr> sch \<and>
     s_asked sch = [(1010, [int_val 2]), (1000, [int_val 1])] \<and> apart 100 (s_runs sch) \<and> s_runs sch = [(1000, [int_val 1])] \<and>
     t_timeout (s_state sch) = Some 1100"
proof -
  let ?o = "\<lparr>leading = True, trailing = True\<rparr>"
  let ?s0 = "\<lparr>s_state = throttle_start, s_clock = 1000, s_asked = [], s_runs = []\<rparr>"
  let ?s1 = "record_run 1000 (throttle_call 100 ?o 1000 [int_val 1] (s_state ?s0)) (?s0\<lparr>s_asked := [(1000, [int_val 1])]\<rparr>)"
  let ?s2 = "record_run 1010 (throttle_call 100 ?o 1010 [int_val 2] (s_state ?s1)) (?s1\<lparr>s_asked := (1010, [int_val 2]) # s_asked ?s1\<rparr>)"
  have "throttled 100 ?o ?s0" by (rule throttled.start) simp
  then have "throttled 100 ?o ?s1" using throttled.called [of 100 ?o ?s0 1000 "[int_val 1]"] by simp
  then have run: "throttled 100 ?o ?s2"
    by (rule throttled.called) (simp add: record_run_def)
  moreover have "apart 100 (s_runs ?s2)" using throttle_guarantee [OF run] by blast
  ultimately show ?thesis
    by (intro exI [of _ ?s2]) (simp add: record_run_def throttle_call_def throttle_start_def)
qed

section \<open>Debouncing\<close>

text \<open>
  The state of a debounced function: its timer, the time of the latest call and its arguments. In a
  step of the timer, \<open>later\<close>, the function runs only without \<open>immediate\<close>.
\<close>

record debounce =
  d_timeout :: "int option"
  d_timestamp :: int
  d_args :: "jsval list option"

definition debounce_start :: debounce where
  "debounce_start = \<lparr>d_timeout = None, d_timestamp = 0, d_args = None\<rparr>"

definition debounce_later :: "int \<Rightarrow> bool \<Rightarrow> int \<Rightarrow> debounce \<Rightarrow> debounce \<times> jsval list option" where
  "debounce_later wait immediate now st =
     (let last = now - d_timestamp st
      in if last < wait \<and> 0 \<le> last then (st\<lparr>d_timeout := Some (now + (wait - last))\<rparr>, None)
         else if \<not> immediate then (st\<lparr>d_timeout := None, d_args := None\<rparr>, d_args st)
         else (st\<lparr>d_timeout := None\<rparr>, None))"

definition debounce_call :: "int \<Rightarrow> bool \<Rightarrow> int \<Rightarrow> jsval list \<Rightarrow> debounce \<Rightarrow> debounce \<times> jsval list option" where
  "debounce_call wait immediate now args st =
     (let callNow = immediate \<and> d_timeout st = None;
          timeout = (if d_timeout st = None then Some (now + wait) else d_timeout st)
      in (\<lparr>d_timeout = timeout, d_timestamp = now, d_args = (if callNow then None else Some args)\<rparr>,
          if callNow then Some args else None))"

record quiet_schedule =
  q_state :: debounce
  q_clock :: int
  q_asked :: "(int \<times> jsval list) list"
  q_runs :: "(int \<times> (int \<times> jsval list)) list"

text \<open>
  Calls and expiries of the timer; a run is logged with its time and the call before it (its time and
  arguments).
\<close>

definition quiet_step :: "int \<Rightarrow> debounce \<times> jsval list option \<Rightarrow> quiet_schedule \<Rightarrow> quiet_schedule" where
  "quiet_step now r sch =
     sch\<lparr>q_state := fst r, q_clock := now,
         q_runs := (case snd r of Some args \<Rightarrow> (now, (d_timestamp (fst r), args)) # q_runs sch | None \<Rightarrow> q_runs sch)\<rparr>"

inductive debounced :: "int \<Rightarrow> bool \<Rightarrow> quiet_schedule \<Rightarrow> bool" for wait immediate where
  start: "0 \<le> now \<Longrightarrow> debounced wait immediate \<lparr>q_state = debounce_start, q_clock = now, q_asked = [], q_runs = []\<rparr>"
| called: "debounced wait immediate sch \<Longrightarrow> q_clock sch \<le> now \<Longrightarrow>
    debounced wait immediate
      (quiet_step now (debounce_call wait immediate now args (q_state sch)) (sch\<lparr>q_asked := (now, args) # q_asked sch\<rparr>))"
| expired: "debounced wait immediate sch \<Longrightarrow> q_clock sch \<le> now \<Longrightarrow> d_timeout (q_state sch) = Some due \<Longrightarrow> due \<le> now \<Longrightarrow>
    debounced wait immediate (quiet_step now (debounce_later wait immediate now (q_state sch)) sch)"

text \<open>What holds of the runs, and what holds of the state of the wrapper.\<close>

definition quiet_runs :: "int \<Rightarrow> quiet_schedule \<Rightarrow> bool" where
  "quiet_runs wait sch \<longleftrightarrow>
     (\<forall>r \<in> set (q_runs sch). fst (snd r) + wait \<le> fst r \<and> fst r \<le> q_clock sch \<and> snd r \<in> set (q_asked sch) \<and>
        (\<forall>a \<in> set (q_asked sch). fst a \<le> fst (snd r) \<or> fst r \<le> fst a))"

definition quiet_state :: "int \<Rightarrow> quiet_schedule \<Rightarrow> bool" where
  "quiet_state wait sch \<longleftrightarrow>
     (let st = q_state sch in
      (\<forall>a \<in> set (q_asked sch). fst a \<le> d_timestamp st) \<and>
      (q_asked sch \<noteq> [] \<longrightarrow> d_timestamp st \<le> q_clock sch) \<and>
      (case d_args st of
         None \<Rightarrow> d_timeout st = None \<and> (q_asked sch \<noteq> [] \<longrightarrow> q_runs sch \<noteq> [] \<and> snd (hd (q_runs sch)) = hd (q_asked sch))
       | Some args \<Rightarrow> q_asked sch \<noteq> [] \<and> hd (q_asked sch) = (d_timestamp st, args) \<and>
           (\<exists>due \<le> d_timestamp st + wait. d_timeout st = Some due)))"

lemma debounce_called:
  assumes "quiet_runs wait sch" "quiet_state wait sch" "q_clock sch \<le> now"
    and "sch' = quiet_step now (debounce_call wait False now args (q_state sch)) (sch\<lparr>q_asked := (now, args) # q_asked sch\<rparr>)"
  shows "quiet_runs wait sch' \<and> quiet_state wait sch'"
proof -
  let ?due = "case d_timeout (q_state sch) of None \<Rightarrow> now + wait | Some due \<Rightarrow> due"
  have sch': "sch' = sch\<lparr>q_state := \<lparr>d_timeout = Some ?due, d_timestamp = now, d_args = Some args\<rparr>, q_clock := now,
      q_asked := (now, args) # q_asked sch\<rparr>"
    by (cases "d_timeout (q_state sch)") (simp_all add: assms(4) quiet_step_def debounce_call_def Let_def)
  have "quiet_runs wait sch'"
    using assms(1,3) by (fastforce simp: sch' quiet_runs_def)
  moreover have "fst a \<le> now" if "a \<in> set (q_asked sch)" for a
    using that assms(2,3) by (fastforce simp: quiet_state_def Let_def)
  moreover have "?due \<le> now + wait"
    using assms(2,3) by (auto simp: quiet_state_def Let_def split: option.splits)
  ultimately show ?thesis by (simp add: sch' quiet_state_def)
qed

lemma debounce_expired:
  assumes "quiet_runs wait sch" "quiet_state wait sch" "q_clock sch \<le> now" "d_timeout (q_state sch) = Some due"
    and "sch' = quiet_step now (debounce_later wait False now (q_state sch)) sch"
  shows "quiet_runs wait sch' \<and> quiet_state wait sch'"
proof -
  let ?st = "q_state sch"
  from assms(2,4) obtain args where args: "d_args ?st = Some args" "q_asked sch \<noteq> []" "hd (q_asked sch) = (d_timestamp ?st, args)"
    by (auto simp: quiet_state_def Let_def split: option.splits)
  have stamp: "d_timestamp ?st \<le> now" "\<And>a. a \<in> set (q_asked sch) \<Longrightarrow> fst a \<le> d_timestamp ?st"
    using assms(2,3) args(2) by (auto simp: quiet_state_def Let_def)
  have asked: "(d_timestamp ?st, args) \<in> set (q_asked sch)" using args(2,3) by (metis list.set_sel(1))
  show ?thesis
  proof (cases "now - d_timestamp ?st < wait")
    case True
    then have sch': "sch' = sch\<lparr>q_state := ?st\<lparr>d_timeout := Some (d_timestamp ?st + wait)\<rparr>, q_clock := now\<rparr>"
      using stamp by (simp add: assms(5) quiet_step_def debounce_later_def Let_def)
    show ?thesis using assms(1,3) args stamp by (fastforce simp: sch' quiet_runs_def quiet_state_def)
  next
    case False
    then have sch': "sch' = sch\<lparr>q_state := ?st\<lparr>d_timeout := None, d_args := None\<rparr>, q_clock := now,
        q_runs := (now, (d_timestamp ?st, args)) # q_runs sch\<rparr>"
      by (simp add: assms(5) quiet_step_def debounce_later_def Let_def args(1))
    have "quiet_runs wait sch'"
      using assms(1,3) False stamp asked by (fastforce simp: sch' quiet_runs_def)
    moreover have "quiet_state wait sch'" using stamp args by (simp add: sch' quiet_state_def)
    ultimately show ?thesis ..
  qed
qed

lemma debounced_inv: "debounced wait False sch \<Longrightarrow> quiet_runs wait sch \<and> quiet_state wait sch"
proof (induction rule: debounced.induct)
  case (start now)
  then show ?case by (simp add: quiet_runs_def quiet_state_def debounce_start_def)
next
  case (called sch now args)
  then show ?case using debounce_called [OF _ _ _ refl] by blast
next
  case (expired sch now due)
  then show ?case using debounce_expired [OF _ _ _ _ refl] by blast
qed

text \<open>
  C28: A debounced function (without \<open>immediate\<close>) runs with the arguments of a call that was followed by
  no other for \<open>wait\<close>, up to the run; and the latest call has run or has a timer.
\<close>

theorem debounce_guarantee:
  assumes "debounced wait False sch"
  shows "(\<forall>(t, call) \<in> set (q_runs sch). fst call + wait \<le> t \<and> call \<in> set (q_asked sch) \<and>
      (\<forall>other \<in> set (q_asked sch). fst other \<le> fst call \<or> t \<le> fst other)) \<and>
    (q_asked sch \<noteq> [] \<longrightarrow>
      (q_runs sch \<noteq> [] \<and> snd (hd (q_runs sch)) = hd (q_asked sch)) \<or>
      (\<exists>due \<le> fst (hd (q_asked sch)) + wait. d_timeout (q_state sch) = Some due))"
proof -
  from debounced_inv [OF assms] have "quiet_runs wait sch" "quiet_state wait sch" by auto
  then show ?thesis by (force simp: quiet_runs_def quiet_state_def Let_def split: option.splits)
qed

text \<open>Two calls within the wait, then the timer twice: one run, with the second call.\<close>

lemma debounce_guarantee_witness:
  "\<exists>sch. debounced 100 False sch \<and> q_runs sch = [(1130, (1020, [int_val 2]))] \<and>
     (\<forall>other \<in> set (q_asked sch). fst other \<le> 1020 \<or> 1130 \<le> fst other)"
proof -
  let ?s0 = "\<lparr>q_state = debounce_start, q_clock = 1000, q_asked = [], q_runs = []\<rparr>"
  let ?s1 = "quiet_step 1000 (debounce_call 100 False 1000 [int_val 1] (q_state ?s0)) (?s0\<lparr>q_asked := [(1000, [int_val 1])]\<rparr>)"
  let ?s2 = "quiet_step 1020 (debounce_call 100 False 1020 [int_val 2] (q_state ?s1)) (?s1\<lparr>q_asked := (1020, [int_val 2]) # q_asked ?s1\<rparr>)"
  let ?s3 = "quiet_step 1101 (debounce_later 100 False 1101 (q_state ?s2)) ?s2"
  let ?s4 = "quiet_step 1130 (debounce_later 100 False 1130 (q_state ?s3)) ?s3"
  note defs = quiet_step_def debounce_call_def debounce_later_def debounce_start_def Let_def
  have "debounced 100 False ?s0" by (rule debounced.start) simp
  then have "debounced 100 False ?s1" using debounced.called [of 100 False ?s0 1000 "[int_val 1]"] by simp
  then have "debounced 100 False ?s2" by (rule debounced.called) (simp add: defs)
  then have "debounced 100 False ?s3" by (rule debounced.expired [where due = 1100]) (simp_all add: defs)
  then have run: "debounced 100 False ?s4" by (rule debounced.expired [where due = 1120]) (simp_all add: defs)
  have runs: "q_runs ?s4 = [(1130, (1020, [int_val 2]))]" by (simp add: defs)
  have "\<forall>other \<in> set (q_asked ?s4). fst other \<le> 1020 \<or> 1130 \<le> fst other"
    using debounce_guarantee [OF run] unfolding runs by simp
  with run runs show ?thesis by blast
qed

end
