(* ===== verification/Underscore_Utilities.thy ===== *)
theory Underscore_Utilities
  imports Underscore_Functions
begin

text \<open>
  The collection library of \<open>wordcut.js\<close> (module 25), the utilities: repeated calls, entities of HTML,
  results of properties, unique names, templates, and the wrapper objects of chained calls.
\<close>

section \<open>Small functions\<close>

definition constant_us :: "jsval \<Rightarrow> 's fn" where
  "constant_us v this args = yields v"

definition propertyOf :: "'s world \<Rightarrow> jsval \<Rightarrow> jsval \<Rightarrow> jsval" where
  "propertyOf w obj key = (if is_nil obj then Undefined else get obj (to_text w key))"

definition times_us :: "'s world \<Rightarrow> int \<Rightarrow> jsval \<Rightarrow> jsval \<Rightarrow> ('s, jsval list) prog" where
  "times_us w n iter context =
     run_map (\<lambda>i. optimizeCb (apply_val w iter) context (int_val 1) Undefined [index_val i]) [0..<nat (max 0 n)]"

definition result_us :: "'s world \<Rightarrow> jsval \<Rightarrow> jsval \<Rightarrow> jsval \<Rightarrow> ('s, jsval) prog" where
  "result_us w obj key fallback =
     (let found = (if is_nil obj then Undefined else get obj (to_text w key));
          v = (if strict_eq found Undefined then fallback else found)
      in if isFunction v then apply_val w v obj [] else yields v)"

text \<open>The counter of \<open>uniqueId\<close> is the state; an empty prefix is no prefix.\<close>

definition uniqueId :: "jstring \<Rightarrow> (nat, jstring) prog" where
  "uniqueId name_prefix = (\<lambda>idCounter.
     let i = Suc idCounter; s = string_of_int (int i)
     in (Inr (if name_prefix \<noteq> [] then name_prefix @ s else s), i))"

section \<open>Entities\<close>

definition escapeMap :: "(jstring \<times> jstring) list" where
  "escapeMap =
     [(js ''&'', js ''&amp;''), (js ''<'', js ''&lt;''), (js ''>'', js ''&gt;''),
      (js [CHR 0x22], js ''&quot;''), (js [CHR 0x27], js ''&#x27;''), (js [CHR 0x60], js ''&#x60;'')]"

text \<open>\<open>_.invert(escapeMap)\<close>.\<close>

definition unescapeMap :: "(jstring \<times> jstring) list" where
  "unescapeMap = fold (\<lambda>p. put (snd p) (fst p)) escapeMap []"

text \<open>
  \<open>string.replace(/(?:k1|k2|...)/g, ...)\<close>: at each position the first key that stands there is
  replaced by its value.
\<close>

function createEscaper :: "(jstring \<times> jstring) list \<Rightarrow> jstring \<Rightarrow> jstring" where
  "createEscaper m s =
     (case find (\<lambda>p. fst p \<noteq> [] \<and> prefix (fst p) s) m of
        Some p \<Rightarrow> snd p @ createEscaper m (drop (length (fst p)) s)
      | None \<Rightarrow> (case s of [] \<Rightarrow> [] | c # cs \<Rightarrow> c # createEscaper m cs))"
  by auto

termination
  by (relation "measure (\<lambda>(m, s). length s)")
    (auto simp: find_Some_iff prefix_def)

declare createEscaper.simps [simp del]

definition escape_us :: "'s world \<Rightarrow> jsval \<Rightarrow> jstring" where
  "escape_us w v = createEscaper escapeMap (if is_nil v then [] else to_text w v)"

definition unescape_us :: "'s world \<Rightarrow> jsval \<Rightarrow> jstring" where
  "unescape_us w v = createEscaper unescapeMap (if is_nil v then [] else to_text w v)"

section \<open>Templates\<close>

text \<open>The tags of a template with the default delimiters.\<close>

datatype tag = Escape jstring | Interpolate jstring | Evaluate jstring

text \<open>\<open>opener([\s\S]+?)%>\<close> at the beginning of a text: the code of the tag and the text after it.\<close>

definition tag_close :: jstring where
  "tag_close = js ''%>''"

fun lazy_code :: "jstring \<Rightarrow> jstring \<Rightarrow> (jstring \<times> jstring) option" where
  "lazy_code code [] = None"
| "lazy_code code (c # s) =
     (if code \<noteq> [] \<and> prefix tag_close (c # s) then Some (code, drop 2 (c # s)) else lazy_code (code @ [c]) s)"

definition match_tag :: "jstring \<Rightarrow> jstring \<Rightarrow> (jstring \<times> jstring) option" where
  "match_tag opener s = (if prefix opener s then lazy_code [] (drop (length opener) s) else None)"

definition next_tag :: "jstring \<Rightarrow> (tag \<times> jstring) option" where
  "next_tag s =
     (case match_tag (js ''<%-'') s of
        Some (code, r) \<Rightarrow> Some (Escape code, r)
      | None \<Rightarrow>
          (case match_tag (js ''<%='') s of
             Some (code, r) \<Rightarrow> Some (Interpolate code, r)
           | None \<Rightarrow>
               (case match_tag (js ''<%'') s of
                  Some (code, r) \<Rightarrow> Some (Evaluate code, r)
                | None \<Rightarrow> None)))"

lemma lazy_code_text: "lazy_code code s = Some (code', r) \<Longrightarrow> code @ s = code' @ tag_close @ r \<and> code' \<noteq> []"
proof (induction code s rule: lazy_code.induct)
  case (2 code c s)
  show ?case
  proof (cases "code \<noteq> [] \<and> prefix tag_close (c # s)")
    case True
    then have "code' = code" "r = drop 2 (c # s)" using 2(2) by simp_all
    moreover from True obtain t where t: "c # s = tag_close @ t" by (auto simp: prefix_def)
    moreover have "drop 2 (tag_close @ t) = t" by (simp add: tag_close_def js_def)
    ultimately show ?thesis using True by simp
  next
    case False
    with 2 show ?thesis by auto
  qed
qed simp

lemma match_tag_text: "match_tag opener s = Some (code, r) \<Longrightarrow> s = opener @ code @ tag_close @ r \<and> code \<noteq> []"
  by (auto simp: match_tag_def prefix_def dest: lazy_code_text split: if_splits)

text \<open>The text of a tag.\<close>

fun tag_text :: "tag \<Rightarrow> jstring" where
  "tag_text (Escape code) = js ''<%-'' @ code @ tag_close"
| "tag_text (Interpolate code) = js ''<%='' @ code @ tag_close"
| "tag_text (Evaluate code) = js ''<%'' @ code @ tag_close"

lemma next_tag_text: "next_tag s = Some (t, r) \<Longrightarrow> s = tag_text t @ r"
  by (auto simp: next_tag_def dest: match_tag_text split: option.splits)

lemma next_tag_shorter: "next_tag s = Some (t, r) \<Longrightarrow> length r < length s"
  by (drule next_tag_text) (cases t; simp add: tag_close_def js_def)

text \<open>
  The matches of the template: the literal text before each tag, and the literal text at the end
  (where the empty alternative of the matcher matches).
\<close>

function template_parts :: "jstring \<Rightarrow> jstring \<Rightarrow> (jstring \<times> tag) list \<times> jstring" where
  "template_parts lit s =
     (case next_tag s of
        Some (t, r) \<Rightarrow> (let (ps, e) = template_parts [] r in ((lit, t) # ps, e))
      | None \<Rightarrow> (case s of [] \<Rightarrow> ([], lit) | c # cs \<Rightarrow> template_parts (lit @ [c]) cs))"
  by auto

termination
  by (relation "measure (\<lambda>(lit, s). length s)") (auto dest: next_tag_shorter)

declare template_parts.simps [simp del]

text \<open>Characters of a string literal.\<close>

definition escapes :: "(unit16 \<times> jstring) list" where
  "escapes =
     [(39, [39]), (92, [92]), (13, js ''r''), (10, js ''n''), (0x2028, js ''u2028''), (0x2029, js ''u2029'')]"

definition escapeChar :: "unit16 \<Rightarrow> jstring" where
  "escapeChar c = (case map_of escapes c of Some s \<Rightarrow> 92 # s | None \<Rightarrow> [c])"

definition escape_literal :: "jstring \<Rightarrow> jstring" where
  "escape_literal s = concat (map escapeChar s)"

text \<open>A text of the program with line ends written as \<open>~\<close> and quotes as \<open>`\<close>.\<close>

definition code_text :: "string \<Rightarrow> jstring" where
  "code_text s = map (\<lambda>c. if c = CHR ''~'' then 10 else if c = CHR 0x60 then 39 else of_char c) s"

fun tag_source :: "tag \<Rightarrow> jstring" where
  "tag_source (Escape code) = code_text ''`+~((__t=('' @ code @ code_text ''))==null?``:_.escape(__t))+~`''"
| "tag_source (Interpolate code) = code_text ''`+~((__t=('' @ code @ code_text ''))==null?``:__t)+~`''"
| "tag_source (Evaluate code) = code_text ''`;~'' @ code @ code_text ''~__p+=`''"

text \<open>
  The body of the function that a template compiles to, with the setting \<open>variable\<close> (none: the data
  are the scope of the code). The function itself is made by \<open>new Function\<close>.
\<close>

definition template_body :: "jstring \<Rightarrow> jstring option \<Rightarrow> jstring" where
  "template_body text variable =
     (let (ps, e) = template_parts [] text;
          source = code_text ''__p+=`'' @ concat (map (\<lambda>(lit, t). escape_literal lit @ tag_source t) ps) @
            escape_literal e @ code_text ''`;~'';
          scoped = (case variable of
                      None \<Rightarrow> code_text ''with(obj||{}){~'' @ source @ code_text ''}~''
                    | Some _ \<Rightarrow> source)
      in code_text ''var __t,__p=``,__j=Array.prototype.join,print=function(){__p+=__j.call(arguments,``);};~'' @
         scoped @ code_text ''return __p;~'')"

definition template_source :: "jstring \<Rightarrow> jstring option \<Rightarrow> jstring" where
  "template_source text variable =
     code_text ''function('' @ (case variable of None \<Rightarrow> js ''obj'' | Some v \<Rightarrow> v) @ code_text ''){~'' @
     template_body text variable @ code_text ''}''"

section \<open>Wrapper objects\<close>

record wrapped =
  w_wrapped :: jsval
  w_chain :: bool

definition chain :: "jsval \<Rightarrow> wrapped" where
  "chain obj = \<lparr>w_wrapped = obj, w_chain = True\<rparr>"

text \<open>
  A function of the library as a method of a wrapper, with the library object as its \<open>this\<close>: the
  result is wrapped again in a chain.
\<close>

definition mixin_method :: "jsval \<Rightarrow> 's fn \<Rightarrow> wrapped \<Rightarrow> jsval list \<Rightarrow> ('s, wrapped + jsval) prog" where
  "mixin_method library func self args =
     and_do (func library (w_wrapped self # args))
       (\<lambda>obj. yields (if w_chain self then Inl (chain obj) else Inr obj))"

definition value_of :: "wrapped \<Rightarrow> jsval" where
  "value_of self = w_wrapped self"

section \<open>Escaping and back\<close>

definition entity :: "unit16 \<Rightarrow> jstring" where
  "entity c = (case map_of escapeMap [c] of Some t \<Rightarrow> t | None \<Rightarrow> [c])"

lemma createEscaper_escape: "createEscaper escapeMap s = concat (map entity s)"
proof (induction s)
  case (Cons c s)
  have "createEscaper escapeMap (c # s) = entity c @ createEscaper escapeMap s"
    by (subst createEscaper.simps) (simp add: escapeMap_def entity_def js_def)
  with Cons show ?case by simp
qed (simp add: createEscaper.simps escapeMap_def js_def)

lemma unescapeMap_eq:
  "unescapeMap =
     [(js ''&amp;'', js ''&''), (js ''&lt;'', js ''<''), (js ''&gt;'', js ''>''),
      (js ''&quot;'', js [CHR 0x22]), (js ''&#x27;'', js [CHR 0x27]), (js ''&#x60;'', js [CHR 0x60])]"
  by code_simp

lemma unescape_entity: "createEscaper unescapeMap (entity c @ s) = c # createEscaper unescapeMap s"
proof (cases "c \<in> {38, 60, 62, 34, 39, 96}")
  case True
  then show ?thesis
    by (elim insertE emptyE) (subst createEscaper.simps; simp add: unescapeMap_eq entity_def escapeMap_def js_def)+
next
  case False
  then show ?thesis
    by (subst createEscaper.simps) (simp add: unescapeMap_eq entity_def escapeMap_def js_def)
qed

lemma unescape_escaped: "createEscaper unescapeMap (concat (map entity s)) = s"
proof (induction s)
  case (Cons c s)
  then show ?case using unescape_entity [of c "concat (map entity s)"] by simp
qed (simp add: createEscaper.simps unescapeMap_eq js_def)

lemma entity_safe: "x \<in> set (entity c) \<Longrightarrow> x \<notin> {60, 62, 34, 39, 96}"
  by (auto simp: entity_def escapeMap_def js_def split: if_splits)

text \<open>
  C30: Escaped text has none of the characters \<open>< > " ' `\<close> in it, and \<open>unescape\<close> gives the text back.
\<close>

theorem escape_roundtrip:
  "set (escape_us w v) \<inter> {60, 62, 34, 39, 96} = {} \<and>
   unescape_us w (String (escape_us w v)) = (if is_nil v then [] else to_text w v)"
  using entity_safe by (auto simp: escape_us_def unescape_us_def createEscaper_escape unescape_escaped is_nil_def)

section \<open>Templates lose nothing\<close>

text \<open>
  What the language reads from the text of a string literal: nothing when a quote or a line end
  stands in it unescaped.
\<close>

fun read_literal :: "jstring \<Rightarrow> jstring option" where
  "read_literal [] = Some []"
| "read_literal (c # s) =
     (if c \<noteq> 92 then (if c \<in> {39, 10, 13, 0x2028, 0x2029} then None else map_option ((#) c) (read_literal s))
      else if prefix (js ''u2028'') s then map_option ((#) 0x2028) (read_literal (drop 5 s))
      else if prefix (js ''u2029'') s then map_option ((#) 0x2029) (read_literal (drop 5 s))
      else case s of
        [] \<Rightarrow> None
      | d # s' \<Rightarrow> map_option ((#) (if d = 114 then 13 else if d = 110 then 10 else d)) (read_literal s'))"

lemma read_escaped_char: "read_literal (escapeChar c @ s) = map_option ((#) c) (read_literal s)"
  by (simp add: escapeChar_def escapes_def js_def)

lemma read_escaped: "read_literal (escape_literal s) = Some s"
  by (induction s) (simp_all add: escape_literal_def read_escaped_char)

lemma template_parts_text:
  "template_parts lit s = (ps, e) \<Longrightarrow> concat (map (\<lambda>(l, t). l @ tag_text t) ps) @ e = lit @ s"
proof (induction lit s arbitrary: ps e rule: template_parts.induct)
  case (1 lit s)
  show ?case
  proof (cases "next_tag s")
    case None
    show ?thesis
    proof (cases s)
      case Nil
      with None 1(3) show ?thesis by (simp add: template_parts.simps [of _ "[]"])
    next
      case (Cons a list)
      with None 1(3) have "template_parts (lit @ [a]) list = (ps, e)"
        by (simp add: template_parts.simps [of _ "a # list"])
      with 1(1) [OF None Cons] Cons show ?thesis by simp
    qed
  next
    case (Some tr)
    obtain t r where tr: "tr = (t, r)" by (cases tr)
    obtain ps' e' where parts: "template_parts [] r = (ps', e')" by (cases "template_parts [] r")
    have "ps = (lit, t) # ps'" "e = e'"
      using 1(3) Some tr parts by (simp_all add: template_parts.simps [of _ s])
    with 1(2) [OF Some [unfolded tr] refl parts] next_tag_text [OF Some [unfolded tr]] show ?thesis by simp
  qed
qed

text \<open>
  The literals and tags of a template make up its text, and each literal, escaped, is a string
  literal of the language whose value is the text of the template.
\<close>

theorem template_lossless:
  assumes "template_parts [] text = (ps, e)"
  shows "concat (map (\<lambda>(lit, t). lit @ tag_text t) ps) @ e = text \<and>
    (\<forall>lit \<in> set (map fst ps @ [e]). read_literal (escape_literal lit) = Some lit)"
  using template_parts_text [OF assms] by (simp add: read_escaped)

section \<open>Unique names\<close>

lemma uniqueId_calls:
  "run_map uniqueId ps c =
     (Inr (map (\<lambda>(i, p). p @ string_of_int (int (Suc i))) (enumerate c ps)), c + length ps)"
proof (induction ps arbitrary: c)
  case (Cons p ps)
  then show ?case by (simp add: and_do_def yields_def uniqueId_def Let_def)
qed (simp add: yields_def)

text \<open>Names of one prefix are different.\<close>

theorem uniqueId_distinct:
  assumes "run_map uniqueId ps c = (Inr ids, c')" "i < j" "j < length ps" "ps ! i = ps ! j"
  shows "ids ! i \<noteq> ids ! j"
proof
  assume same: "ids ! i = ids ! j"
  have "ids = map (\<lambda>(i, p). p @ string_of_int (int (Suc i))) (enumerate c ps)"
    using assms(1) by (simp add: uniqueId_calls)
  with same assms(2-4) have "string_of_int (int (Suc (c + i))) = string_of_int (int (Suc (c + j)))"
    by (simp add: nth_enumerate_eq)
  then have "int (Suc (c + i)) = int (Suc (c + j))" by (metis int_of_string_of_int)
  with assms(2) show False by simp
qed

text \<open>Names of different prefixes can be equal: the twelfth name, and the second with the prefix \<open>1\<close>.\<close>

theorem uniqueId_collides:
  "\<exists>c. fst (uniqueId [] 11) = fst (uniqueId (js ''1'') c) \<and> c \<noteq> 11"
  by (rule exI [of _ 1]) code_simp

end
