(* ===== verification/Underscore_Wrappers.thy ===== *)
theory Underscore_Wrappers
  imports Underscore_Utilities
begin

text \<open>
  The collection library of \<open>wordcut.js\<close> (module 25), the rest: functions that are put off
  (\<open>delay\<close>, \<open>defer\<close>), methods that are bound to their object (\<open>bindAll\<close>), and the methods of arrays
  on wrapper objects.
\<close>

section \<open>Functions that are put off\<close>

text \<open>
  The timers of the host, in the order in which they were set: the time at which one is due, its
  handle, the function and its arguments. A timer that is due fires; of several the earliest, and
  of those of one time the one that was set first.
\<close>

record timers_us =
  u_clock :: int
  u_next :: nat
  u_pending :: "(int \<times> nat \<times> jsval \<times> jsval list) list"

definition wait_time :: "'s world \<Rightarrow> jsval \<Rightarrow> int" where
  "wait_time w v = (case to_number w v of Num n \<Rightarrow> max 0 n | _ \<Rightarrow> 0)"

definition delay :: "'s world \<Rightarrow> timers_us fn" where
  "delay w this args st =
     (Inr (index_val (u_next st)),
      st\<lparr>u_next := u_next st + 1,
         u_pending := u_pending st @ [(u_clock st + wait_time w (arg args 1), u_next st, arg args 0, drop 2 args)]\<rparr>)"

definition defer_us :: "'s world \<Rightarrow> timers_us fn" where
  "defer_us w = partial_us (delay w) [Placeholder, Bound (int_val 1)]"

fun earliest :: "(int \<times> 'a) list \<Rightarrow> (int \<times> 'a) option" where
  "earliest [] = None"
| "earliest (t # ts) = (case earliest ts of Some t' \<Rightarrow> if fst t' < fst t then Some t' else Some t | None \<Rightarrow> Some t)"

text \<open>The function and the arguments of the timer that fires, if one is due.\<close>

definition fire_us :: "timers_us \<Rightarrow> (jsval \<times> jsval list) option \<times> timers_us" where
  "fire_us st =
     (case earliest (u_pending st) of
        None \<Rightarrow> (None, st)
      | Some t \<Rightarrow>
          if fst t \<le> u_clock st
          then (Some (snd (snd t)), st\<lparr>u_pending := remove1 t (u_pending st)\<rparr>)
          else (None, st))"

text \<open>A run: the clock goes on, a function is put off, a timer fires.\<close>

datatype defer_event = Clock nat | Defer jsval "jsval list" | Fire_timer

definition defer_step ::
  "'s world \<Rightarrow> defer_event \<Rightarrow> timers_us \<times> (jsval \<times> jsval list) list \<Rightarrow> timers_us \<times> (jsval \<times> jsval list) list"
where
  "defer_step w ev x =
     (case ev of
        Clock d \<Rightarrow> ((fst x)\<lparr>u_clock := u_clock (fst x) + int d\<rparr>, snd x)
      | Defer f args \<Rightarrow> (snd (defer_us w Undefined (f # args) (fst x)), snd x)
      | Fire_timer \<Rightarrow>
          (case fire_us (fst x) of (None, st) \<Rightarrow> (st, snd x) | (Some run, st) \<Rightarrow> (st, snd x @ [run])))"

definition deferred :: "defer_event list \<Rightarrow> (jsval \<times> jsval list) list" where
  "deferred evs = concat (map (\<lambda>ev. case ev of Defer f args \<Rightarrow> [(f, args)] | _ \<Rightarrow> []) evs)"

lemma defer_call:
  "defer_us w this (f # args) st =
     (Inr (index_val (u_next st)),
      st\<lparr>u_next := u_next st + 1, u_pending := u_pending st @ [(u_clock st + 1, u_next st, f, args)]\<rparr>)"
  by (simp add: defer_us_def partial_us_def delay_def arg_def wait_time_def nth_val_def)

lemma earliest_sorted: "sorted (map fst ts) \<Longrightarrow> earliest ts = (case ts of [] \<Rightarrow> None | t # _ \<Rightarrow> Some t)"
  by (induction ts) (auto split: list.splits)

text \<open>Functions that are put off run once each, in the order of the calls, and none before its time.\<close>

theorem deferred_in_order:
  assumes "fold (defer_step w) evs (\<lparr>u_clock = c, u_next = k, u_pending = []\<rparr>, []) = (st, runs)"
  shows "deferred evs = runs @ map (\<lambda>t. snd (snd t)) (u_pending st) \<and>
    (u_pending st = [] \<or> fst (hd (u_pending st)) \<le> u_clock st + 1)"
proof -
  define inv where "inv evs x \<longleftrightarrow> sorted (map fst (u_pending (fst x))) \<and>
      (\<forall>t \<in> set (u_pending (fst x)). fst t \<le> u_clock (fst x) + 1) \<and>
      deferred evs = snd x @ map (\<lambda>t. snd (snd t)) (u_pending (fst x))"
    for evs and x :: "timers_us \<times> (jsval \<times> jsval list) list"
  have step: "inv (evs @ [ev]) (defer_step w ev x)" if "inv evs x" for evs ev x
  proof (cases ev)
    case (Clock d)
    with that show ?thesis by (fastforce simp: inv_def defer_step_def deferred_def)
  next
    case (Defer f args)
    with that show ?thesis by (auto simp: inv_def defer_step_def deferred_def defer_call sorted_append)
  next
    case Fire_timer
    show ?thesis
    proof (cases "u_pending (fst x)")
      case Nil
      with that Fire_timer show ?thesis by (simp add: inv_def defer_step_def deferred_def fire_us_def)
    next
      case (Cons t ts)
      then have "earliest (u_pending (fst x)) = Some t" using that by (simp add: inv_def earliest_sorted del: earliest.simps)
      with that Fire_timer Cons show ?thesis
        by (simp add: inv_def defer_step_def deferred_def fire_us_def)
    qed
  qed
  have "inv evs (fold (defer_step w) evs (\<lparr>u_clock = c, u_next = k, u_pending = []\<rparr>, []))"
  proof (induction evs rule: rev_induct)
    case (snoc ev evs)
    then show ?case using step by simp
  qed (simp add: inv_def deferred_def)
  with assms show ?thesis by (cases "u_pending st") (auto simp: inv_def)
qed

section \<open>Methods bound to their object\<close>

text \<open>
  The methods of an object: functions, or other values. Binding a value that is no function is a type
  error; what has been bound before stays bound.
\<close>

type_synonym 's methods = "(jstring \<times> 's fn option) list"

definition method_of :: "'s methods \<Rightarrow> jstring \<Rightarrow> 's fn option" where
  "method_of ms k = (case map_of ms k of Some m \<Rightarrow> m | None \<Rightarrow> None)"

fun bind_each :: "jsval \<Rightarrow> jstring list \<Rightarrow> 's methods \<Rightarrow> (thrown + unit) \<times> 's methods" where
  "bind_each obj [] ms = (Inr (), ms)"
| "bind_each obj (k # ks) ms =
     (case method_of ms k of
        None \<Rightarrow> (Inl (Engine TypeError), ms)
      | Some f \<Rightarrow> bind_each obj ks (put k (Some (bind f obj [])) ms))"

definition bindAll :: "jsval \<Rightarrow> jstring list \<Rightarrow> 's methods \<Rightarrow> (thrown + unit) \<times> 's methods" where
  "bindAll obj ks ms =
     (if ks = [] then (Inl (Engine (ErrorObj ''bindAll must be passed function names'')), ms)
      else bind_each obj ks ms)"

lemma method_of_put: "method_of (put k m ms) k' = (if k' = k then m else method_of ms k')"
  by (simp add: method_of_def)

lemma bind_twice: "bind (bind f obj []) obj' [] = bind f obj []"
  by (simp add: bind_def fun_eq_iff)

lemma bind_each_methods:
  assumes "bind_each obj ks ms = (Inr (), ms')"
  shows "method_of ms' k = (if k \<in> set ks then map_option (\<lambda>f. bind f obj []) (method_of ms k) else method_of ms k)"
  using assms
proof (induction ks arbitrary: ms)
  case (Cons k' ks)
  then obtain f where f: "method_of ms k' = Some f"
    and rest: "bind_each obj ks (put k' (Some (bind f obj [])) ms) = (Inr (), ms')"
    by (auto split: option.splits)
  from Cons.IH [OF rest] f show ?case by (auto simp: method_of_put bind_twice)
qed simp

text \<open>
  After \<open>bindAll\<close> has returned, each named method runs with the object as \<open>this\<close>, however it is
  called; every other method is as before.
\<close>

theorem bindAll_methods:
  assumes "bindAll obj ks ms = (Inr (), ms')"
  shows "(\<forall>k \<in> set ks. \<exists>f. method_of ms k = Some f \<and> method_of ms' k = Some (\<lambda>this args. f obj args)) \<and>
    (\<forall>k. k \<notin> set ks \<longrightarrow> method_of ms' k = method_of ms k)"
proof -
  have each: "bind_each obj ks ms = (Inr (), ms')" using assms by (simp add: bindAll_def split: if_splits)
  have named: "method_of ms k \<noteq> None" if "k \<in> set ks" for k
    using that each
  proof (induction ks arbitrary: ms)
    case (Cons k' ks)
    then obtain f where f: "method_of ms k' = Some f"
      and rest: "bind_each obj ks (put k' (Some (bind f obj [])) ms) = (Inr (), ms')"
      by (auto split: option.splits)
    show ?case
    proof (cases "k = k'")
      case False
      with Cons.prems have "k \<in> set ks" by simp
      from Cons.IH [OF this rest] False show ?thesis by (simp add: method_of_put)
    qed (simp add: f)
  qed simp
  have bound: "bind f obj [] = (\<lambda>this args. f obj args)" for f :: "'a fn" by (simp add: bind_def fun_eq_iff)
  show ?thesis
  proof (intro conjI ballI allI impI)
    fix k
    assume k: "k \<in> set ks"
    then obtain f where "method_of ms k = Some f" using named by blast
    with k show "\<exists>f. method_of ms k = Some f \<and> method_of ms' k = Some (\<lambda>this args. f obj args)"
      using bind_each_methods [OF each, of k] by (simp add: bound)
  qed (simp add: bind_each_methods [OF each])
qed

section \<open>Methods of arrays on wrapper objects\<close>

text \<open>
  The methods of the language that change an array. A comparator of \<open>sort\<close> is a function without
  effects, with the order that it computes as a parameter; without one, elements are compared as
  texts; \<open>undefined\<close> comes last.
\<close>

datatype mutator = Pop | Push | Reverse | Shift | Sort | Splice | Unshift

text \<open>An index from the end when it is negative, and a count of elements, both cut off at what there is.\<close>

fun relative_index :: "nat \<Rightarrow> number \<Rightarrow> nat" where
  "relative_index n PosInf = n"
| "relative_index n (Num i) = (if i < 0 then nat (int n + i) else min (nat i) n)"
| "relative_index n _ = 0"

fun count_of :: "nat \<Rightarrow> number \<Rightarrow> nat" where
  "count_of n PosInf = n"
| "count_of n (Num i) = min (nat i) n"
| "count_of n _ = 0"

definition splice_at :: "'s world \<Rightarrow> jsval list \<Rightarrow> jsval list \<Rightarrow> jsval list" where
  "splice_at w args xs =
     (let n = length xs;
          start = (if args = [] then 0 else relative_index n (to_number w (arg args 0)));
          count = (if args = [] then 0
                   else if length args = 1 then n - start
                   else count_of (n - start) (to_number w (arg args 1)))
      in take start xs @ drop 2 args @ drop (start + count) xs)"

definition text_order :: "'s world \<Rightarrow> jsval \<Rightarrow> jsval \<Rightarrow> int" where
  "text_order w a b = (let s = to_text w a; t = to_text w b in if s < t then -1 else if s = t then 0 else 1)"

definition sort_array :: "(jsval \<Rightarrow> jsval \<Rightarrow> int) \<Rightarrow> jsval list \<Rightarrow> jsval list" where
  "sort_array cmp xs = sort_with cmp (filter (\<lambda>v. v \<noteq> Undefined) xs) @ filter (\<lambda>v. v = Undefined) xs"

definition mutate ::
  "'s world \<Rightarrow> (jsval \<Rightarrow> jsval \<Rightarrow> jsval \<Rightarrow> int) \<Rightarrow> mutator \<Rightarrow> jsval list \<Rightarrow> jsval list \<Rightarrow> thrown + jsval list"
where
  "mutate w order name args xs =
     (case name of
        Pop \<Rightarrow> Inr (butlast xs)
      | Push \<Rightarrow> Inr (xs @ args)
      | Reverse \<Rightarrow> Inr (rev xs)
      | Shift \<Rightarrow> Inr (tl xs)
      | Sort \<Rightarrow>
          (case arg args 0 of
             Undefined \<Rightarrow> Inr (sort_array (text_order w) xs)
           | Function i n \<Rightarrow> Inr (sort_array (order (Function i n)) xs)
           | _ \<Rightarrow> Inl (Engine TypeError))
      | Splice \<Rightarrow> Inr (splice_at w args xs)
      | Unshift \<Rightarrow> Inr (args @ xs))"

text \<open>
  The method of a wrapper changes the array that it wraps, and returns the array, in a chain a new
  wrapper. The wrapper is returned beside the result, as it has the changed array.
\<close>

definition mutator_method ::
  "'s world \<Rightarrow> (jsval \<Rightarrow> jsval \<Rightarrow> jsval \<Rightarrow> int) \<Rightarrow> mutator \<Rightarrow> wrapped \<Rightarrow> jsval list \<Rightarrow> thrown + (wrapped + jsval) \<times> wrapped"
where
  "mutator_method w order name self args =
     (case w_wrapped self of
        Array i xs \<Rightarrow>
          (case mutate w order name args xs of
             Inl e \<Rightarrow> Inl e
           | Inr xs' \<Rightarrow>
               Inr (if w_chain self then Inl (chain (Array i xs')) else Inr (Array i xs'), self\<lparr>w_wrapped := Array i xs'\<rparr>))
      | _ \<Rightarrow> Inl (Engine TypeError))"

text \<open>The methods that read an array; \<open>new\<close> is the identity of the array that they return.\<close>

datatype accessor = Concat | Join | Slice

definition access :: "'s world \<Rightarrow> nat \<Rightarrow> accessor \<Rightarrow> jsval list \<Rightarrow> jsval list \<Rightarrow> jsval" where
  "access w new name args xs =
     (case name of
        Concat \<Rightarrow> Array new (xs @ concat (map (\<lambda>v. case v of Array _ ys \<Rightarrow> ys | _ \<Rightarrow> [v]) args))
      | Join \<Rightarrow>
          String (join (if arg args 0 = Undefined then js '','' else to_text w (arg args 0))
            (map (\<lambda>v. if is_nil v then [] else to_text w v) xs))
      | Slice \<Rightarrow>
          (let n = length xs; start = relative_index n (to_number w (arg args 0));
               end_at = (if arg args 1 = Undefined then n else relative_index n (to_number w (arg args 1)))
           in Array new (drop start (take end_at xs))))"

definition accessor_method ::
  "'s world \<Rightarrow> nat \<Rightarrow> accessor \<Rightarrow> wrapped \<Rightarrow> jsval list \<Rightarrow> thrown + (wrapped + jsval)"
where
  "accessor_method w new name self args =
     (case w_wrapped self of
        Array i xs \<Rightarrow>
          (let obj = access w new name args xs in Inr (if w_chain self then Inl (chain obj) else Inr obj))
      | _ \<Rightarrow> Inl (Engine TypeError))"

definition wrapped_text :: "'s world \<Rightarrow> wrapped \<Rightarrow> jstring" where
  "wrapped_text w self = to_text w (w_wrapped self)"

text \<open>The methods at the ends of an array are cases of \<open>splice\<close>.\<close>

theorem ends_are_splices:
  "mutate w order Push args xs = mutate w order Splice ([index_val (length xs), int_val 0] @ args) xs"
  "mutate w order Unshift args xs = mutate w order Splice ([int_val 0, int_val 0] @ args) xs"
  "mutate w order Shift args xs = mutate w order Splice [int_val 0, int_val 1] xs"
  "mutate w order Pop args xs = mutate w order Splice [int_val (-1), int_val 1] xs"
proof -
  show "mutate w order Push args xs = mutate w order Splice ([index_val (length xs), int_val 0] @ args) xs"
    by (simp add: mutate_def splice_at_def arg_def nth_val_def)
  show "mutate w order Unshift args xs = mutate w order Splice ([int_val 0, int_val 0] @ args) xs"
    by (simp add: mutate_def splice_at_def arg_def nth_val_def)
  show "mutate w order Shift args xs = mutate w order Splice [int_val 0, int_val 1] xs"
    by (cases xs) (simp_all add: mutate_def splice_at_def arg_def nth_val_def)
  show "mutate w order Pop args xs = mutate w order Splice [int_val (-1), int_val 1] xs"
    by (cases xs rule: rev_cases) (simp_all add: mutate_def splice_at_def arg_def nth_val_def)
qed

text \<open>A chain of methods changes the array as the methods do one after the other.\<close>

fun mutate_all ::
  "'s world \<Rightarrow> (jsval \<Rightarrow> jsval \<Rightarrow> jsval \<Rightarrow> int) \<Rightarrow> (mutator \<times> jsval list) list \<Rightarrow> jsval list \<Rightarrow> thrown + jsval list"
where
  "mutate_all w order [] xs = Inr xs"
| "mutate_all w order (c # cs) xs =
     (case mutate w order (fst c) (snd c) xs of Inl e \<Rightarrow> Inl e | Inr xs' \<Rightarrow> mutate_all w order cs xs')"

fun chained_calls ::
  "'s world \<Rightarrow> (jsval \<Rightarrow> jsval \<Rightarrow> jsval \<Rightarrow> int) \<Rightarrow> (mutator \<times> jsval list) list \<Rightarrow> wrapped \<Rightarrow> thrown + wrapped"
where
  "chained_calls w order [] self = Inr self"
| "chained_calls w order (c # cs) self =
     (case mutator_method w order (fst c) self (snd c) of
        Inl e \<Rightarrow> Inl e
      | Inr (Inl self', _) \<Rightarrow> chained_calls w order cs self'
      | Inr (Inr v, _) \<Rightarrow> Inl (Engine TypeError))"

theorem chained_mutators:
  "chained_calls w order cs (chain (Array i xs)) = map_sum id (\<lambda>xs'. chain (Array i xs')) (mutate_all w order cs xs)"
proof (induction cs arbitrary: xs)
  case (Cons c cs)
  then show ?case
    by (cases "mutate w order (fst c) (snd c) xs") (simp_all add: mutator_method_def chain_def)
qed simp

end
