(* ===== verification/Js_Json.thy ===== *)
theory Js_Json
  imports Underscore_Base
begin

text \<open>
  What the modules \<open>util\<close> and \<open>assert\<close> of \<open>wordcut.js\<close> need of the language beyond the values of
  \<open>Js_Values\<close>: \<open>JSON.stringify\<close>, the loose comparison \<open>==\<close>, and the texts that the engine has for
  functions, dates and errors.
\<close>

section \<open>The surroundings\<close>

text \<open>
  The name of a function and the object \<open>f.prototype\<close>; \<open>Date.prototype.toString\<close>, \<open>toUTCString\<close> and
  \<open>toISOString\<close>; whether a value is an error object, and \<open>Error.prototype.toString\<close>; the own
  property names, the hidden ones included, and the values of hidden properties; the primitive value
  of an object; the function \<open>util.inspect\<close> and the objects that it makes; and the flags and \<open>lastIndex\<close> of a regular expression and the result of its \<open>test\<close>;
  \<open>v instanceof f\<close>; the objects of the errors that the engine raises; whether the engine has
  \<open>Error.captureStackTrace\<close>, and the text of the stack otherwise.
\<close>

record regexp =
  re_source :: jstring
  re_global :: bool
  re_multiline :: bool
  re_ignoreCase :: bool
  re_lastIndex :: jsval

record 's host = "'s world" +
  fn_name :: "nat \<Rightarrow> jstring"
  prototype_of :: "nat \<Rightarrow> jsval"
  date_text :: "number \<Rightarrow> jstring"
  utc_text :: "number \<Rightarrow> jstring"
  iso_text :: "number \<Rightarrow> jstring"
  is_error :: "jsval \<Rightarrow> bool"
  error_text :: "jsval \<Rightarrow> jstring"
  own_names :: "jsval \<Rightarrow> jstring list"
  hidden_value :: "jsval \<Rightarrow> jstring \<Rightarrow> jsval"
  primitive_of :: "jsval \<Rightarrow> jsval"
  util_inspect :: nat
  stylize_fn :: "bool \<Rightarrow> nat"
  ctx_id :: nat
  seen_id :: nat
  regexp_of :: "nat \<Rightarrow> regexp"
  re_test :: "nat \<Rightarrow> jsval \<Rightarrow> ('s, bool) prog"
  instance_of :: "jsval \<Rightarrow> nat \<Rightarrow> bool"
  engine_value :: "js_error \<Rightarrow> jsval"
  captures_stack :: bool
  new_stack :: jstring

text \<open>Surroundings without callbacks, for concrete runs.\<close>

abbreviation unit_host :: "unit host" where
  "unit_host \<equiv>
     \<lparr>call = \<lambda>i this args. yields Undefined, number_of = \<lambda>v. NaN, text_of = \<lambda>v. js ''[object]'', math_random = yields 0,
      fn_name = \<lambda>i. js ''f'', prototype_of = \<lambda>i. Undefined, date_text = \<lambda>x. js ''date'', utc_text = \<lambda>x. js ''date'',
      iso_text = \<lambda>x. js ''date'', is_error = \<lambda>v. False, error_text = \<lambda>v. [], own_names = own_keys,
      hidden_value = \<lambda>v k. Undefined, primitive_of = \<lambda>v. String (js ''[object]''), util_inspect = 0,
      stylize_fn = \<lambda>b. 1, ctx_id = 0, seen_id = 0,
      regexp_of = \<lambda>i. \<lparr>re_source = [], re_global = False, re_multiline = False, re_ignoreCase = False,
        re_lastIndex = int_val 0\<rparr>,
      re_test = \<lambda>i v. yields False, instance_of = \<lambda>v f. False, engine_value = \<lambda>e. Object 0 (Some 0) [] [],
      captures_stack = True, new_stack = []\<rparr>"

section \<open>Loose comparison\<close>

fun is_reference :: "jsval \<Rightarrow> bool" where
  "is_reference Undefined = False"
| "is_reference Null = False"
| "is_reference (Boolean _) = False"
| "is_reference (Number _) = False"
| "is_reference (String _) = False"
| "is_reference _ = True"

text \<open>\<open>a == b\<close> of two primitive values, and of any two values.\<close>

definition loose_primitive :: "('s, 'x) world_scheme \<Rightarrow> jsval \<Rightarrow> jsval \<Rightarrow> bool" where
  "loose_primitive w a b =
     (if is_nil a \<or> is_nil b then is_nil a \<and> is_nil b
      else case (a, b) of
        (String s, String t) \<Rightarrow> s = t
      | _ \<Rightarrow> num_eq (to_number (world.truncate w) a) (to_number (world.truncate w) b))"

definition loose_eq :: "'s host \<Rightarrow> jsval \<Rightarrow> jsval \<Rightarrow> bool" where
  "loose_eq w a b =
     (if is_reference a \<and> is_reference b then strict_eq a b
      else if is_nil a \<or> is_nil b then is_nil a \<and> is_nil b
      else loose_primitive w (if is_reference a then primitive_of w a else a)
             (if is_reference b then primitive_of w b else b))"

lemma num_eq_refl [simp]: "num_eq x x \<longleftrightarrow> x \<noteq> NaN"
  by (simp add: num_eq_def)

lemma loose_primitive_sym: "loose_primitive w a b \<longleftrightarrow> loose_primitive w b a"
proof -
  have "num_eq x y \<longleftrightarrow> num_eq y x" for x y using num_eq_sym by blast
  then show ?thesis by (cases a; cases b) (simp_all add: loose_primitive_def is_nil_def eq_commute)
qed

lemma loose_eq_sym: "loose_eq w a b \<longleftrightarrow> loose_eq w b a"
proof -
  have "strict_eq x y \<longleftrightarrow> strict_eq y x" for x y using strict_eq_sym by blast
  then show ?thesis by (auto simp: loose_eq_def loose_primitive_sym [of w b] loose_primitive_sym [of w "primitive_of w b"])
qed

text \<open>Identical values are loosely equal.\<close>

lemma strict_reference: "strict_eq a b \<Longrightarrow> is_reference a \<longleftrightarrow> is_reference b"
  by (cases a; cases b) simp_all

lemma strict_loose:
  assumes "strict_eq a b"
  shows "loose_eq w a b"
proof (cases "is_reference a")
  case True
  with assms strict_reference [OF assms] show ?thesis by (simp add: loose_eq_def)
next
  case False
  with assms show ?thesis
    by (cases a; cases b) (auto simp: loose_eq_def loose_primitive_def is_nil_def)
qed

section \<open>Strings as JSON\<close>

abbreviation quote :: unit16 where
  "quote \<equiv> 34"

abbreviation apostrophe :: unit16 where
  "apostrophe \<equiv> 39"

abbreviation backslash :: unit16 where
  "backslash \<equiv> 92"

definition hex_digit :: "unit16 \<Rightarrow> unit16" where
  "hex_digit d = (if d < 10 then 48 + d else 87 + d)"

definition unit_escape :: "unit16 \<Rightarrow> jstring" where
  "unit_escape c =
     [backslash, 117, hex_digit (c div 4096), hex_digit (c div 256 mod 16), hex_digit (c div 16 mod 16), hex_digit (c mod 16)]"

definition short_escapes :: "(unit16 \<times> unit16) list" where
  "short_escapes = [(quote, quote), (backslash, backslash), (8, 98), (12, 102), (10, 110), (13, 114), (9, 116)]"

definition json_unit :: "unit16 \<Rightarrow> jstring" where
  "json_unit c =
     (case map_of short_escapes c of
        Some e \<Rightarrow> [backslash, e]
      | None \<Rightarrow> if c < 32 then unit_escape c else [c])"

definition high_surrogate :: "unit16 \<Rightarrow> bool" where
  "high_surrogate c \<longleftrightarrow> 0xD800 \<le> c \<and> c \<le> 0xDBFF"

definition low_surrogate :: "unit16 \<Rightarrow> bool" where
  "low_surrogate c \<longleftrightarrow> 0xDC00 \<le> c \<and> c \<le> 0xDFFF"

text \<open>A surrogate that is not part of a pair is escaped.\<close>

fun json_units :: "jstring \<Rightarrow> jstring" where
  "json_units [] = []"
| "json_units [c] = (if high_surrogate c \<or> low_surrogate c then unit_escape c else json_unit c)"
| "json_units (c # d # s) =
     (if high_surrogate c \<and> low_surrogate d then c # d # json_units s
      else (if high_surrogate c \<or> low_surrogate c then unit_escape c else json_unit c) @ json_units (d # s))"

definition json_quote :: "jstring \<Rightarrow> jstring" where
  "json_quote s = [quote] @ json_units s @ [quote]"

section \<open>JSON.stringify\<close>

text \<open>
  \<open>value.toJSON(key)\<close> of an object that has this method; a date has it from its prototype. The first
  argument of \<open>json_prop\<close> bounds the calls on the stack: the engine raises a range error beyond it.
\<close>

definition to_json :: "'s host \<Rightarrow> jstring \<Rightarrow> jsval \<Rightarrow> ('s, jsval) prog" where
  "to_json w key v =
     (case v of
        Date _ x \<Rightarrow> yields (case x of Num _ \<Rightarrow> String (iso_text w x) | NegZero \<Rightarrow> String (iso_text w x) | _ \<Rightarrow> Null)
      | Object i c own inherited \<Rightarrow>
          (case get v (js ''toJSON'') of Function f _ \<Rightarrow> call w f v [String key] | _ \<Rightarrow> yields v)
      | _ \<Rightarrow> yields v)"

definition json_number :: "number \<Rightarrow> jstring" where
  "json_number x = (case x of Num _ \<Rightarrow> string_of_number x | NegZero \<Rightarrow> string_of_number x | _ \<Rightarrow> js ''null'')"

definition json_members :: "(jstring \<times> jstring option) list \<Rightarrow> jstring list" where
  "json_members ps = concat (map (\<lambda>p. case snd p of None \<Rightarrow> [] | Some t \<Rightarrow> [json_quote (fst p) @ js '':'' @ t]) ps)"

fun json_prop ::
  "'s host \<Rightarrow> (jstring \<Rightarrow> jsval \<Rightarrow> jsval) \<Rightarrow> nat \<Rightarrow> jsval list \<Rightarrow> jstring \<Rightarrow> jsval \<Rightarrow> ('s, jstring option) prog"
where
  "json_prop w rep 0 stack key v = raises (Engine RangeError)"
| "json_prop w rep (Suc n) stack key v =
     and_do (to_json w key v) (\<lambda>u.
       let v = rep key u in
       case v of
         Null \<Rightarrow> yields (Some (js ''null''))
       | Boolean b \<Rightarrow> yields (Some (js (if b then ''true'' else ''false'')))
       | String s \<Rightarrow> yields (Some (json_quote s))
       | Number x \<Rightarrow> yields (Some (json_number x))
       | Undefined \<Rightarrow> yields None
       | Function _ _ \<Rightarrow> yields None
       | Array _ xs \<Rightarrow>
           if list_ex (strict_eq v) stack then raises (Engine TypeError)
           else and_do (run_map (\<lambda>i. json_prop w rep n (v # stack) (string_of_int (int i)) (xs ! i)) [0..<length xs])
             (\<lambda>ts. yields (Some (js ''['' @ join (js '','') (map (\<lambda>t. case t of None \<Rightarrow> js ''null'' | Some t \<Rightarrow> t) ts) @ js '']'')))
       | _ \<Rightarrow>
           if list_ex (strict_eq v) stack then raises (Engine TypeError)
           else and_do (run_map (\<lambda>k. and_do (json_prop w rep n (v # stack) k (get v k)) (\<lambda>t. yields (k, t))) (own_keys v))
             (\<lambda>ps. yields (Some (js ''{'' @ join (js '','') (json_members ps) @ js ''}''))))"

declare json_prop.simps [simp del]

definition stringify :: "'s host \<Rightarrow> (jstring \<Rightarrow> jsval \<Rightarrow> jsval) \<Rightarrow> nat \<Rightarrow> jsval \<Rightarrow> ('s, jstring option) prog" where
  "stringify w rep n v = json_prop w rep n [] [] v"

lemma word_below_16:
  fixes d :: unit16
  assumes "d < 16"
  shows "d \<in> {0, 1, 2, 3, 4, 5, 6, 7, 8, 9, 10, 11, 12, 13, 14, 15}"
proof -
  have "unat d < 16" using assms by (simp add: word_less_nat_alt)
  moreover have "d = of_nat (unat d)" by simp
  ultimately obtain k :: nat where k: "d = of_nat k" "k < 16" by blast
  then have "k \<in> {0, 1, 2, 3, 4, 5, 6, 7, 8, 9, 10, 11, 12, 13, 14, 15}" by simp presburger
  then show ?thesis unfolding k(1) by auto
qed

lemma hex_digit_range:
  "d < 16 \<Longrightarrow> hex_digit d \<noteq> quote \<and> hex_digit d \<noteq> apostrophe \<and> hex_digit d \<noteq> backslash \<and> 48 \<le> hex_digit d"
  by (drule word_below_16) (auto simp: hex_digit_def)

end
