(* ===== verification/Util_Inspect.thy ===== *)
theory Util_Inspect
  imports Js_Json
begin

text \<open>
  The module \<open>util\<close> of \<open>wordcut.js\<close> (module 28), first part: the tests of kinds, and \<open>inspect\<close>, which
  shows a value as text, with the test for buffers (module 27).

  The objects of the model have data properties only, so the branches of \<open>formatProperty\<close> for getters
  and setters have no counterpart, and no value is a symbol. The functions named \<open>inspect\<close> that a
  value brings are run by the surroundings; they see the options as the object \<open>ctx_value\<close>, and do not
  change it. The recursion is bounded by a number of frames; beyond it the engine raises a
  range error.
\<close>

section \<open>Kinds of values\<close>

definition isArray_ut :: "jsval \<Rightarrow> bool" where
  "isArray_ut ar \<longleftrightarrow> (case ar of Array _ _ \<Rightarrow> True | _ \<Rightarrow> False)"

definition isBoolean_ut :: "jsval \<Rightarrow> bool" where
  "isBoolean_ut v \<longleftrightarrow> typeof v = ''boolean''"

definition isNull_ut :: "jsval \<Rightarrow> bool" where
  "isNull_ut v \<longleftrightarrow> strict_eq v Null"

definition isNullOrUndefined_ut :: "jsval \<Rightarrow> bool" where
  "isNullOrUndefined_ut v \<longleftrightarrow> is_nil v"

definition isNumber_ut :: "jsval \<Rightarrow> bool" where
  "isNumber_ut v \<longleftrightarrow> typeof v = ''number''"

definition isString_ut :: "jsval \<Rightarrow> bool" where
  "isString_ut v \<longleftrightarrow> typeof v = ''string''"

definition isUndefined_ut :: "jsval \<Rightarrow> bool" where
  "isUndefined_ut v \<longleftrightarrow> strict_eq v Undefined"

definition isObject_ut :: "jsval \<Rightarrow> bool" where
  "isObject_ut v \<longleftrightarrow> typeof v = ''object'' \<and> \<not> strict_eq v Null"

definition isRegExp_ut :: "jsval \<Rightarrow> bool" where
  "isRegExp_ut re \<longleftrightarrow> isObject_ut re \<and> class_name re = ''RegExp''"

definition isDate_ut :: "jsval \<Rightarrow> bool" where
  "isDate_ut d \<longleftrightarrow> isObject_ut d \<and> class_name d = ''Date''"

definition isError_ut :: "'s host \<Rightarrow> jsval \<Rightarrow> bool" where
  "isError_ut w e \<longleftrightarrow> isObject_ut e \<and> is_error w e"

definition isFunction_ut :: "jsval \<Rightarrow> bool" where
  "isFunction_ut v \<longleftrightarrow> typeof v = ''function''"

definition isPrimitive_ut :: "jsval \<Rightarrow> bool" where
  "isPrimitive_ut v \<longleftrightarrow> strict_eq v Null \<or>
     typeof v \<in> {''boolean'', ''number'', ''string'', ''symbol'', ''undefined''}"

definition isBuffer :: "jsval \<Rightarrow> bool" where
  "isBuffer v \<longleftrightarrow> truthy v \<and> typeof v = ''object'' \<and>
     typeof (get v (js ''copy'')) = ''function'' \<and>
     typeof (get v (js ''fill'')) = ''function'' \<and>
     typeof (get v (js ''readUInt8'')) = ''function''"

lemma util_kinds [simp]:
  "isNull_ut v \<longleftrightarrow> v = Null" "isUndefined_ut v \<longleftrightarrow> v = Undefined"
  "isString_ut v \<longleftrightarrow> (\<exists>s. v = String s)" "isNumber_ut v \<longleftrightarrow> (\<exists>x. v = Number x)"
  "isBoolean_ut v \<longleftrightarrow> (\<exists>b. v = Boolean b)" "isFunction_ut v \<longleftrightarrow> (\<exists>i n. v = Function i n)"
  "isPrimitive_ut v \<longleftrightarrow> \<not> is_reference v" "isNullOrUndefined_ut v \<longleftrightarrow> v = Undefined \<or> v = Null"
  "isArray_ut v \<longleftrightarrow> (\<exists>i xs. v = Array i xs)"
  by (cases v; auto simp: isNull_ut_def isUndefined_ut_def isString_ut_def isNumber_ut_def isBoolean_ut_def
    isFunction_ut_def isPrimitive_ut_def isNullOrUndefined_ut_def isArray_ut_def is_nil_def)+

section \<open>Colours\<close>

definition inspect_colors :: "(string \<times> int \<times> int) list" where
  "inspect_colors =
     [(''bold'', 1, 22), (''italic'', 3, 23), (''underline'', 4, 24), (''inverse'', 7, 27), (''white'', 37, 39),
      (''grey'', 90, 39), (''black'', 30, 39), (''blue'', 34, 39), (''cyan'', 36, 39), (''green'', 32, 39),
      (''magenta'', 35, 39), (''red'', 31, 39), (''yellow'', 33, 39)]"

definition inspect_styles :: "(string \<times> string) list" where
  "inspect_styles =
     [(''special'', ''cyan''), (''number'', ''yellow''), (''boolean'', ''yellow''), (''undefined'', ''grey''),
      (''null'', ''bold''), (''string'', ''green''), (''date'', ''magenta''), (''regexp'', ''red'')]"

abbreviation esc_unit :: unit16 where
  "esc_unit \<equiv> 27"

definition color_code :: "int \<Rightarrow> jstring" where
  "color_code i = [esc_unit] @ js ''['' @ string_of_int i @ js ''m''"

definition stylizeWithColor :: "jstring \<Rightarrow> string \<Rightarrow> jstring" where
  "stylizeWithColor str styleType =
     (case map_of inspect_styles styleType of
        None \<Rightarrow> str
      | Some style \<Rightarrow>
          (case map_of inspect_colors style of
             None \<Rightarrow> str
           | Some (on, off) \<Rightarrow> color_code on @ str @ color_code off))"

definition stylizeNoColor :: "jstring \<Rightarrow> string \<Rightarrow> jstring" where
  "stylizeNoColor str styleType = str"

text \<open>The options; \<open>stylize\<close> is chosen by \<open>colors\<close>. The list \<open>seen\<close> is an argument of the functions.\<close>

record ctx =
  showHidden :: jsval
  depth :: jsval
  colors :: jsval
  customInspect :: jsval

definition stylize :: "ctx \<Rightarrow> jstring \<Rightarrow> string \<Rightarrow> jstring" where
  "stylize ctx = (if truthy (colors ctx) then stylizeWithColor else stylizeNoColor)"

text \<open>The options as the value that a function named \<open>inspect\<close> of a value receives.\<close>

definition ctx_value :: "'s host \<Rightarrow> ctx \<Rightarrow> jsval list \<Rightarrow> jsval" where
  "ctx_value w ctx seen =
     Object (ctx_id w) (Some 0)
       [(js ''seen'', Array (seen_id w) seen), (js ''stylize'', Function (stylize_fn w (truthy (colors ctx))) 2),
        (js ''showHidden'', showHidden ctx), (js ''depth'', depth ctx), (js ''colors'', colors ctx),
        (js ''customInspect'', customInspect ctx)] []"

section \<open>Values as text\<close>

text \<open>\<open>s.replace(/ab/g, r)\<close> for two units.\<close>

fun replace_pair :: "'a \<Rightarrow> 'a \<Rightarrow> 'a list \<Rightarrow> 'a list \<Rightarrow> 'a list" where
  "replace_pair a b r (x # y # s) = (if x = a \<and> y = b then r @ replace_pair a b r s else x # replace_pair a b r (y # s))"
| "replace_pair a b r s = s"

text \<open>\<open>s.replace(/'/g, "\'")\<close>, and \<open>s.replace(/^"|"$/g, r)\<close>.\<close>

definition escape_apostrophes :: "jstring \<Rightarrow> jstring" where
  "escape_apostrophes s = concat (map (\<lambda>c. if c = apostrophe then [backslash, apostrophe] else [c]) s)"

definition replace_ends :: "jstring \<Rightarrow> jstring \<Rightarrow> jstring" where
  "replace_ends r s =
     (let front = (s \<noteq> [] \<and> hd s = quote); t = (if front then tl s else s);
          back = (t \<noteq> [] \<and> last t = quote)
      in (if front then r else []) @ (if back then butlast t @ r else t))"

definition formatPrimitive :: "ctx \<Rightarrow> jsval \<Rightarrow> jstring option" where
  "formatPrimitive ctx value =
     (case value of
        Undefined \<Rightarrow> Some (stylize ctx (js ''undefined'') ''undefined'')
      | String s \<Rightarrow>
          Some (stylize ctx
            ([apostrophe] @ replace_pair backslash quote [quote] (escape_apostrophes (replace_ends [] (json_quote s))) @ [apostrophe])
            ''string'')
      | Number x \<Rightarrow> Some (stylize ctx (string_of_number x) ''number'')
      | Boolean b \<Rightarrow> Some (stylize ctx (js (if b then ''true'' else ''false'')) ''boolean'')
      | Null \<Rightarrow> Some (stylize ctx (js ''null'') ''null'')
      | _ \<Rightarrow> None)"

definition formatError :: "'s host \<Rightarrow> jsval \<Rightarrow> jstring" where
  "formatError w value = js ''['' @ error_text w value @ js '']''"

text \<open>The names that \<open>arrayToHash\<close> makes own properties of the hash; \<open>__proto__\<close> is none.\<close>

definition arrayToHash :: "jstring list \<Rightarrow> jstring list" where
  "arrayToHash names = filter (\<lambda>k. k \<noteq> js ''__proto__'') names"

text \<open>The length of a text without the colour codes, \<open>/\u001b\[\d\d?m/g\<close>.\<close>

function strip_codes :: "jstring \<Rightarrow> jstring" where
  "strip_codes s =
     (case s of
        [] \<Rightarrow> []
      | c # t \<Rightarrow>
          if c = esc_unit \<and> prefix (js ''['') t \<and> length t > 2 \<and> is_digit (t ! 1) \<and> t ! 2 = 109 then strip_codes (drop 3 t)
          else if c = esc_unit \<and> prefix (js ''['') t \<and> length t > 3 \<and> is_digit (t ! 1) \<and> is_digit (t ! 2) \<and> t ! 3 = 109
          then strip_codes (drop 4 t)
          else c # strip_codes t)"
  by auto

termination
  by (relation "measure length") auto

declare strip_codes.simps [simp del]

definition reduceToSingleString :: "jstring list \<Rightarrow> jstring \<Rightarrow> jstring \<times> jstring \<Rightarrow> jstring" where
  "reduceToSingleString out base braces =
     (let len = sum_list (map (\<lambda>cur. length (strip_codes cur) + 1) out) in
      if len > 60
      then fst braces @ (if base = [] then [] else base @ [10, 32]) @ js '' '' @ join ([44, 10] @ js ''  '') out @ js '' '' @ snd braces
      else fst braces @ base @ js '' '' @ join (js '', '') out @ js '' '' @ snd braces)"

text \<open>The lines of a member that has more than one, indented.\<close>

definition indent_lines :: "bool \<Rightarrow> jstring \<Rightarrow> jstring" where
  "indent_lines array str =
     (if 10 \<in> set str then
        (if array then drop 2 (join [10] (map (\<lambda>line. js ''  '' @ line) (split1 10 str)))
         else [10] @ join [10] (map (\<lambda>line. js ''   '' @ line) (split1 10 str)))
      else str)"

definition all_digits :: "jstring \<Rightarrow> bool" where
  "all_digits s \<longleftrightarrow> s \<noteq> [] \<and> list_all is_digit s"

definition letter_unit :: "unit16 \<Rightarrow> bool" where
  "letter_unit c \<longleftrightarrow> 97 \<le> c \<and> c \<le> 122 \<or> 65 \<le> c \<and> c \<le> 90 \<or> c = 95"

text \<open>\<open>/^"([a-zA-Z_][a-zA-Z_0-9]*)"$/\<close>\<close>

definition quoted_identifier :: "jstring \<Rightarrow> bool" where
  "quoted_identifier s \<longleftrightarrow> 3 \<le> length s \<and> hd s = quote \<and> last s = quote \<and> letter_unit (s ! 1) \<and>
     list_all (\<lambda>c. letter_unit c \<or> is_digit c) (butlast (tl s))"

definition property_name :: "ctx \<Rightarrow> jstring \<Rightarrow> jstring" where
  "property_name ctx key =
     (let name = json_quote key in
      if quoted_identifier name then stylize ctx (butlast (tl name)) ''name''
      else stylize ctx (replace_ends [apostrophe] (replace_pair backslash quote [quote] (escape_apostrophes name))) ''string'')"

text \<open>The value of an own property, a hidden one included.\<close>

definition own_value :: "'s host \<Rightarrow> jsval \<Rightarrow> jstring \<Rightarrow> jsval" where
  "own_value w value key = (if key \<in> set (own_keys value) then get value key else hidden_value w value key)"

text \<open>\<open>recurseTimes - 1\<close>\<close>

definition minus_one :: "'s host \<Rightarrow> jsval \<Rightarrow> jsval" where
  "minus_one w rt =
     Number (case to_number (world.truncate w) rt of Num d \<Rightarrow> Num (d - 1) | NegZero \<Rightarrow> Num (-1) | x \<Rightarrow> x)"

text \<open>\<open>formatProperty\<close>, \<open>formatArray\<close> and \<open>formatValue\<close>; \<open>fv\<close> is \<open>formatValue\<close> one frame deeper.\<close>

type_synonym 's format_fn = "jsval \<Rightarrow> jsval \<Rightarrow> ('s, jstring) prog"

definition formatProperty ::
  "'s host \<Rightarrow> ctx \<Rightarrow> 's format_fn \<Rightarrow> jsval list \<Rightarrow> jsval \<Rightarrow> jsval \<Rightarrow> jstring list \<Rightarrow> jstring \<Rightarrow> bool \<Rightarrow> ('s, jstring) prog"
where
  "formatProperty w ctx fv seen value recurseTimes visibleKeys key array =
     (let v = own_value w value key in
      and_do
        (if \<not> list_ex (\<lambda>u. strict_eq u v) seen
         then and_do (fv v (if isNull_ut recurseTimes then Null else minus_one w recurseTimes))
                (\<lambda>str. yields (indent_lines array str))
         else yields (stylize ctx (js ''[Circular]'') ''special''))
        (\<lambda>str. yields
          (if key \<in> set visibleKeys then
             (if array \<and> all_digits key then str else property_name ctx key @ js '': '' @ str)
           else js ''['' @ key @ js '']: '' @ str)))"

definition formatArray ::
  "'s host \<Rightarrow> ctx \<Rightarrow> 's format_fn \<Rightarrow> jsval list \<Rightarrow> jsval \<Rightarrow> jsval \<Rightarrow> jstring list \<Rightarrow> jstring list \<Rightarrow> ('s, jstring list) prog"
where
  "formatArray w ctx fv seen value recurseTimes visibleKeys names =
     (let prop = (\<lambda>key. formatProperty w ctx fv seen value recurseTimes visibleKeys key True) in
      and_do
        (run_map (\<lambda>i. if has_own value (string_of_int (int i)) then prop (string_of_int (int i)) else yields [])
          [0..<length_of value])
        (\<lambda>elements. and_do (run_map prop (filter (\<lambda>key. \<not> all_digits key) names)) (\<lambda>others. yields (elements @ others))))"

definition function_text :: "'s host \<Rightarrow> jsval \<Rightarrow> jstring" where
  "function_text w value =
     (let name = (case value of Function i _ \<Rightarrow> fn_name w i | _ \<Rightarrow> [])
      in js ''[Function'' @ (if name \<noteq> [] then js '': '' @ name else []) @ js '']'')"

definition class_text :: "'s host \<Rightarrow> jsval \<Rightarrow> jstring" where
  "class_text w value =
     (if isError_ut w value then js '' '' @ formatError w value
      else if isDate_ut value then js '' '' @ (case value of Date _ x \<Rightarrow> utc_text w x | _ \<Rightarrow> [])
      else if isRegExp_ut value then js '' '' @ (case value of RegExp _ s \<Rightarrow> s | _ \<Rightarrow> [])
      else if isFunction_ut value then js '' '' @ function_text w value
      else [])"

text \<open>A value without properties that is shown by a text of its own.\<close>

definition shortcut :: "'s host \<Rightarrow> ctx \<Rightarrow> jsval \<Rightarrow> jstring option" where
  "shortcut w ctx value =
     (if isFunction_ut value then Some (stylize ctx (function_text w value) ''special'')
      else if isRegExp_ut value then Some (stylize ctx (case value of RegExp _ s \<Rightarrow> s | _ \<Rightarrow> []) ''regexp'')
      else if isDate_ut value then Some (stylize ctx (case value of Date _ x \<Rightarrow> date_text w x | _ \<Rightarrow> []) ''date'')
      else if isError_ut w value then Some (formatError w value)
      else None)"

definition formatObject :: "'s host \<Rightarrow> ctx \<Rightarrow> 's format_fn \<Rightarrow> jsval list \<Rightarrow> jsval \<Rightarrow> jsval \<Rightarrow> ('s, jstring) prog" where
  "formatObject w ctx fv seen value recurseTimes =
     (let visibleKeys = arrayToHash (own_keys value);
          names = (if truthy (showHidden ctx) then own_names w value else own_keys value);
          array = isArray_ut value;
          braces = (if array then (js ''['', js '']'') else (js ''{'', js ''}''));
          base = class_text w value
      in
      if isError_ut w value \<and> (js ''message'' \<in> set names \<or> js ''description'' \<in> set names) then yields (formatError w value)
      else if names = [] \<and> shortcut w ctx value \<noteq> None then yields (the (shortcut w ctx value))
      else if names = [] \<and> (\<not> array \<or> length_of value = 0) then yields (fst braces @ base @ snd braces)
      else if less_val (world.truncate w) recurseTimes (int_val 0) then
        yields (if isRegExp_ut value then stylize ctx (case value of RegExp _ s \<Rightarrow> s | _ \<Rightarrow> []) ''regexp''
                else stylize ctx (js ''[Object]'') ''special'')
      else
        and_do
          (if array then formatArray w ctx fv (seen @ [value]) value recurseTimes visibleKeys names
           else run_map (\<lambda>key. formatProperty w ctx fv (seen @ [value]) value recurseTimes visibleKeys key array) names)
          (\<lambda>out. yields (reduceToSingleString out base braces)))"

text \<open>A function named \<open>inspect\<close> that the value brings; prototype objects are left out.\<close>

definition is_prototype :: "'s host \<Rightarrow> jsval \<Rightarrow> bool" where
  "is_prototype w value \<longleftrightarrow>
     (let c = get value (js ''constructor'')
      in truthy c \<and> strict_eq (case c of Function i _ \<Rightarrow> prototype_of w i | _ \<Rightarrow> get c (js ''prototype'')) value)"

definition own_inspect :: "'s host \<Rightarrow> ctx \<Rightarrow> jsval \<Rightarrow> bool" where
  "own_inspect w ctx value \<longleftrightarrow> truthy (customInspect ctx) \<and> truthy value \<and>
     isFunction_ut (get value (js ''inspect'')) \<and>
     \<not> strict_eq (get value (js ''inspect'')) (Function (util_inspect w) 2) \<and> \<not> is_prototype w value"

fun formatValue :: "'s host \<Rightarrow> ctx \<Rightarrow> nat \<Rightarrow> jsval list \<Rightarrow> jsval \<Rightarrow> jsval \<Rightarrow> ('s, jstring) prog" where
  "formatValue w ctx 0 seen value recurseTimes = raises (Engine RangeError)"
| "formatValue w ctx (Suc n) seen value recurseTimes =
     (if own_inspect w ctx value then
        and_do (apply_val (world.truncate w) (get value (js ''inspect'')) value [recurseTimes, ctx_value w ctx seen])
          (\<lambda>ret. case ret of String s \<Rightarrow> yields s | _ \<Rightarrow> formatValue w ctx n seen ret recurseTimes)
      else case formatPrimitive ctx value of
        Some primitive \<Rightarrow> yields primitive
      | None \<Rightarrow> formatObject w ctx (\<lambda>v rt. formatValue w ctx n (seen @ [value]) v rt) seen value recurseTimes)"

section \<open>The entry\<close>

text \<open>\<open>util._extend\<close>: the last key first.\<close>

definition extend_ut :: "jsval \<Rightarrow> jsval \<Rightarrow> jsval" where
  "extend_ut origin add =
     (if \<not> truthy add \<or> \<not> isObject_ut add then origin
      else fold (\<lambda>key obj. set_prop obj key (get add key)) (rev (own_keys add)) origin)"

text \<open>
  The arguments are the value, the options or \<open>showHidden\<close>, and in the older form \<open>depth\<close> and
  \<open>colors\<close>. The options have no properties \<open>seen\<close> and \<open>stylize\<close>.
\<close>

definition inspect_options :: "jsval list \<Rightarrow> jsval" where
  "inspect_options args =
     (let opts = arg args 1;
          ctx = Object 0 (Some 0)
            ((if 3 \<le> length args then [(js ''depth'', arg args 2)] else []) @
             (if 4 \<le> length args then [(js ''colors'', arg args 3)] else [])) []
      in if isBoolean_ut opts then set_prop ctx (js ''showHidden'') opts
         else if truthy opts then extend_ut ctx opts else ctx)"

definition default_option :: "jsval \<Rightarrow> string \<Rightarrow> jsval \<Rightarrow> jsval" where
  "default_option options name d =
     (if isUndefined_ut (get options (js name)) then d else get options (js name))"

definition inspect_ctx :: "jsval \<Rightarrow> ctx" where
  "inspect_ctx options =
     \<lparr>showHidden = default_option options ''showHidden'' (Boolean False),
      depth = default_option options ''depth'' (int_val 2),
      colors = default_option options ''colors'' (Boolean False),
      customInspect = default_option options ''customInspect'' (Boolean True)\<rparr>"

definition inspect :: "'s host \<Rightarrow> nat \<Rightarrow> jsval list \<Rightarrow> ('s, jstring) prog" where
  "inspect w n args =
     (let ctx = inspect_ctx (inspect_options args) in formatValue w ctx n [] (arg args 0) (depth ctx))"

section \<open>Strings can be read back\<close>

text \<open>The units of a string literal in apostrophes, as the language reads them.\<close>

definition hex_nat :: "unit16 \<Rightarrow> nat" where
  "hex_nat h = (if h < 58 then unat h - 48 else unat h - 87)"

definition simple_escapes :: "(unit16 \<times> unit16) list" where
  "simple_escapes = [(98, 8), (102, 12), (110, 10), (114, 13), (116, 9)]"

function read_units :: "jstring \<Rightarrow> jstring option" where
  "read_units s =
     (case s of
        [] \<Rightarrow> Some []
      | c # t \<Rightarrow>
          if c = backslash then
            (case t of
               [] \<Rightarrow> None
             | e # u \<Rightarrow>
                 if e = 117 then
                   (if length u < 4 then None
                    else map_option (Cons (of_nat (((hex_nat (u ! 0) * 16 + hex_nat (u ! 1)) * 16 + hex_nat (u ! 2)) * 16 + hex_nat (u ! 3))))
                      (read_units (drop 4 u)))
                 else map_option (Cons (case map_of simple_escapes e of None \<Rightarrow> e | Some x \<Rightarrow> x)) (read_units u))
          else if c = apostrophe \<or> c = 10 \<or> c = 13 then None
          else map_option (Cons c) (read_units t))"
  by auto

termination
  by (relation "measure length") auto

declare read_units.simps [simp del]

lemma hex_nat_digit: "d < 16 \<Longrightarrow> hex_nat (hex_digit d) = unat d"
  by (drule word_below_16) (auto simp: hex_nat_def hex_digit_def)

lemma read_units_Nil [simp]: "read_units [] = Some []"
  by (simp add: read_units.simps)

lemma read_plain:
  "c \<noteq> backslash \<Longrightarrow> c \<noteq> apostrophe \<Longrightarrow> c \<noteq> 10 \<Longrightarrow> c \<noteq> 13 \<Longrightarrow> read_units (c # t) = map_option (Cons c) (read_units t)"
  by (simp add: read_units.simps [of "c # t"])

lemma read_escape:
  "e \<noteq> 117 \<Longrightarrow> read_units (backslash # e # u) =
     map_option (Cons (case map_of simple_escapes e of None \<Rightarrow> e | Some x \<Rightarrow> x)) (read_units u)"
  by (simp add: read_units.simps [of "backslash # e # u"])

lemma hex_units:
  fixes c :: unit16
  shows "unat (c div 4096) < 16" "c div 4096 < 16" "c div 256 mod 16 < 16" "c div 16 mod 16 < 16" "c mod 16 < 16"
    "((unat (c div 4096) * 16 + unat (c div 256 mod 16)) * 16 + unat (c div 16 mod 16)) * 16 + unat (c mod 16) = unat c"
proof -
  have "unat c < 65536" using unsigned_less [of c] by simp
  then show "unat (c div 4096) < 16" by (simp add: unat_div)
  then show "c div 4096 < 16" by (simp add: word_less_nat_alt)
  show "c div 256 mod 16 < 16" "c div 16 mod 16 < 16" "c mod 16 < 16"
    by (simp_all add: word_less_nat_alt unat_mod)
  have "((n div 4096 * 16 + n div 256 mod 16) * 16 + n div 16 mod 16) * 16 + n mod 16 = n" for n :: nat
    using div_mult_mod_eq [of "n div 256" 16] div_mult_mod_eq [of "n div 16" 16] div_mult_mod_eq [of n 16]
    by (simp add: div_mult2_eq [symmetric])
  from this [of "unat c"]
  show "((unat (c div 4096) * 16 + unat (c div 256 mod 16)) * 16 + unat (c div 16 mod 16)) * 16 + unat (c mod 16) = unat c"
    by (simp add: unat_div unat_mod)
qed

lemma read_unit_escape: "read_units (unit_escape c @ t) = map_option (Cons c) (read_units t)"
  using hex_units [of c]
  by (subst read_units.simps) (simp add: unit_escape_def hex_nat_digit numeral_eq_Suc)

lemma replace_pair_other: "x \<noteq> a \<Longrightarrow> replace_pair a b r (x # s) = x # replace_pair a b r s"
  by (cases s) auto

lemma replace_pair_skip: "s = [] \<or> hd s \<noteq> b \<Longrightarrow> replace_pair a b r (a # s) = a # replace_pair a b r s"
  by (cases s) auto

lemma escape_apostrophes_simps [simp]:
  "escape_apostrophes [] = []" "escape_apostrophes (s @ t) = escape_apostrophes s @ escape_apostrophes t"
  "escape_apostrophes (c # s) = (if c = apostrophe then [backslash, apostrophe] else [c]) @ escape_apostrophes s"
  by (simp_all add: escape_apostrophes_def)

lemma escape_unit_escape: "escape_apostrophes (unit_escape c) = unit_escape c"
  using hex_digit_range [OF hex_units(2), of c] hex_digit_range [OF hex_units(3), of c]
    hex_digit_range [OF hex_units(4), of c] hex_digit_range [OF hex_units(5), of c]
  by (simp add: unit_escape_def)

text \<open>What a unit of a string becomes in JSON, and between the apostrophes.\<close>

definition json_piece :: "unit16 \<Rightarrow> jstring" where
  "json_piece c = (if high_surrogate c \<or> low_surrogate c then unit_escape c else json_unit c)"

definition shown_unit :: "unit16 \<Rightarrow> jstring" where
  "shown_unit c = (if c = quote then [quote] else if c = apostrophe then [backslash, apostrophe] else json_piece c)"

lemma surrogates_plain:
  "high_surrogate c \<or> low_surrogate c \<Longrightarrow>
     c \<noteq> quote \<and> c \<noteq> apostrophe \<and> c \<noteq> backslash \<and> c \<noteq> 10 \<and> c \<noteq> 13 \<and> c \<noteq> esc_unit"
  by (auto simp: high_surrogate_def low_surrogate_def)

lemma json_piece_cases:
  obtains (escape) "json_piece c = unit_escape c" "c \<noteq> quote" "c \<noteq> apostrophe" "c \<noteq> backslash"
  | (short) e where "json_piece c = [backslash, e]" "(c, e) \<in> set short_escapes" "c \<noteq> apostrophe"
  | (plain) "json_piece c = [c]" "c \<noteq> quote" "c \<noteq> backslash" "32 \<le> c"
proof (cases "high_surrogate c \<or> low_surrogate c")
  case True
  with surrogates_plain [OF True] escape show ?thesis by (simp add: json_piece_def)
next
  case False
  show ?thesis
  proof (cases "map_of short_escapes c")
    case None
    then have "c \<noteq> quote" "c \<noteq> backslash" by (auto simp: short_escapes_def split: if_splits)
    moreover have "c < 32 \<Longrightarrow> c \<noteq> apostrophe" by auto
    ultimately show ?thesis using None False escape plain
      by (cases "c < 32") (auto simp: json_piece_def json_unit_def not_less)
  next
    case (Some e)
    then have "c \<noteq> apostrophe" by (auto simp: short_escapes_def split: if_splits)
    with Some False short [OF _ map_of_SomeD [OF Some]] show ?thesis by (simp add: json_piece_def json_unit_def)
  qed
qed

lemma replace_unit_escape:
  "s = [] \<or> hd s \<noteq> quote \<Longrightarrow> replace_pair backslash quote r (unit_escape c @ s) = unit_escape c @ replace_pair backslash quote r s"
  using hex_digit_range [OF hex_units(2), of c] hex_digit_range [OF hex_units(3), of c]
    hex_digit_range [OF hex_units(4), of c] hex_digit_range [OF hex_units(5), of c]
  by (simp add: unit_escape_def replace_pair_other)

lemma replace_piece:
  assumes "s = [] \<or> hd s \<noteq> quote"
  shows "replace_pair backslash quote [quote] (escape_apostrophes (json_piece c) @ s) =
    shown_unit c @ replace_pair backslash quote [quote] s"
proof (cases rule: json_piece_cases [of c])
  case escape
  then show ?thesis using replace_unit_escape [OF assms, of "[quote]" c]
    by (simp add: shown_unit_def escape_unit_escape)
next
  case (short e)
  then show ?thesis using replace_pair_skip [OF assms, of backslash "[quote]"]
    by (auto simp: shown_unit_def short_escapes_def replace_pair_other)
next
  case plain
  then show ?thesis by (auto simp: shown_unit_def replace_pair_other)
qed

lemma read_shown_unit: "read_units (shown_unit c @ t) = map_option (Cons c) (read_units t)"
proof (cases rule: json_piece_cases [of c])
  case escape
  then show ?thesis by (simp add: shown_unit_def read_unit_escape)
next
  case (short e)
  then show ?thesis
    by (auto simp: shown_unit_def short_escapes_def simple_escapes_def read_escape read_plain)
next
  case plain
  then have "c \<noteq> 10" "c \<noteq> 13" by auto
  with plain show ?thesis by (auto simp: shown_unit_def simple_escapes_def read_escape read_plain)
qed

lemma json_units_simps:
  "json_units [c] = json_piece c"
  "json_units (c # d # s) = (if high_surrogate c \<and> low_surrogate d then c # d # json_units s else json_piece c @ json_units (d # s))"
  by (simp_all add: json_piece_def)

declare json_units.simps(2,3) [simp del]

lemma hd_escaped: "escape_apostrophes (json_units s) = [] \<or> hd (escape_apostrophes (json_units s)) \<noteq> quote"
proof -
  have piece: "json_piece c \<noteq> [] \<and> hd (escape_apostrophes (json_piece c) @ t) \<noteq> quote \<and> escape_apostrophes (json_piece c) \<noteq> []"
    for c t
    by (cases rule: json_piece_cases [of c]) (auto simp: unit_escape_def)
  note first = piece [THEN conjunct2, THEN conjunct1]
  show ?thesis
  proof (induction s rule: json_units.induct)
    case (2 c)
    then show ?case using first [of c "[]"] by (simp add: json_units_simps)
  next
    case (3 c d s)
    then show ?case using first [of c] surrogates_plain [of c] by (simp add: json_units_simps)
  qed simp
qed

text \<open>The text between the apostrophes is read as the string that is shown.\<close>

lemma read_shown:
  "read_units (replace_pair backslash quote [quote] (escape_apostrophes (json_units s)) @ t) = map_option ((@) s) (read_units t)"
proof (induction s rule: json_units.induct)
  case 1
  then show ?case by (simp add: option.map_ident)
next
  case (2 c)
  have "replace_pair backslash quote [quote] (escape_apostrophes (json_piece c)) = shown_unit c"
    using replace_piece [of "[]" c] by simp
  then show ?case by (simp add: json_units_simps read_shown_unit)
next
  case (3 c d s)
  show ?case
  proof (cases "high_surrogate c \<and> low_surrogate d")
    case True
    with surrogates_plain [of c] surrogates_plain [of d] 3(1) show ?thesis
      by (simp add: json_units_simps replace_pair_other read_plain option.map_comp comp_def)
  next
    case False
    then have "json_units (c # d # s) = json_piece c @ json_units (d # s)"
      unfolding json_units_simps(2) by (rule if_not_P)
    with replace_piece [OF hd_escaped [of "d # s"], of c] 3(2) [OF False] show ?thesis
      by (simp add: read_shown_unit option.map_comp comp_def)
  qed
qed

lemma replace_ends_quote [simp]: "replace_ends r (json_quote s) = r @ json_units s @ r"
  by (simp add: replace_ends_def json_quote_def)

text \<open>
  C22: The text that \<open>inspect\<close> gives for a string is a string literal of the language: between the
  apostrophes every unit is written so that reading the literal gives the string back.
\<close>

theorem inspect_string_roundtrip:
  "\<exists>body. formatPrimitive \<lparr>showHidden = h, depth = d, colors = Boolean False, customInspect = i\<rparr> (String s) =
     Some ([apostrophe] @ body @ [apostrophe]) \<and> read_units body = Some s"
  using read_shown [of s "[]"]
  by (simp add: formatPrimitive_def stylize_def stylizeNoColor_def)

text \<open>
  A key that ends with a backslash is shown with the closing apostrophe escaped: the replacement of
  the escaped quotes takes the last backslash together with the closing quote.
\<close>

lemma backslash_key_shown:
  "property_name \<lparr>showHidden = h, depth = d, colors = Boolean False, customInspect = i\<rparr> [backslash] =
     [apostrophe, backslash, apostrophe] \<and> read_units [backslash] = None"
proof
  have "json_quote [backslash] = [quote, backslash, backslash, quote]"
    by (simp add: json_quote_def json_units_simps json_piece_def json_unit_def short_escapes_def
        high_surrogate_def low_surrogate_def)
  then show "property_name \<lparr>showHidden = h, depth = d, colors = Boolean False, customInspect = i\<rparr> [backslash] =
      [apostrophe, backslash, apostrophe]"
    by (simp add: property_name_def Let_def quoted_identifier_def letter_unit_def stylize_def stylizeNoColor_def replace_ends_def)
qed (simp add: read_units.simps)

end
