(* ===== verification/Util_Layout.thy ===== *)
theory Util_Layout
  imports Util_Inspect
begin

text \<open>
  What \<open>inspect\<close> of the module \<open>util\<close> (module 28 of \<open>wordcut.js\<close>) guarantees: with colours it shows
  the same text in the same layout, with the colour codes added; and with a number as depth it
  returns, whatever the value contains.
\<close>

section \<open>Texts with colour codes\<close>

definition color_numbers :: "int list" where
  "color_numbers = concat (map (\<lambda>p. [fst (snd p), snd (snd p)]) inspect_colors)"

text \<open>\<open>styled t u\<close>: the text \<open>t\<close> is \<open>u\<close> with colour codes added; \<open>u\<close> has no escape character.\<close>

inductive styled :: "jstring \<Rightarrow> jstring \<Rightarrow> bool" where
  styled_Nil [intro!]: "styled [] []"
| styled_unit: "styled t u \<Longrightarrow> c \<noteq> esc_unit \<Longrightarrow> styled (c # t) (c # u)"
| styled_code: "styled t u \<Longrightarrow> i \<in> set color_numbers \<Longrightarrow> styled (color_code i @ t) u"

lemma color_numbers_eq: "set color_numbers = {1, 22, 3, 23, 4, 24, 7, 27, 37, 39, 90, 30, 34, 36, 32, 35, 31, 33}"
  by code_simp

lemma color_code_units: "i \<in> set color_numbers \<Longrightarrow> 10 \<notin> set (color_code i)"
  unfolding color_numbers_eq by (elim insertE emptyE; simp; code_simp)

lemma strip_color_code: "i \<in> set color_numbers \<Longrightarrow> strip_codes (color_code i @ t) = strip_codes t"
proof -
  have 1: "strip_codes (esc_unit # 91 # a # 109 # t) = strip_codes t" if "is_digit a" for a t
    using that by (simp add: strip_codes.simps [of "esc_unit # 91 # a # 109 # t"] js_def)
  have 2: "strip_codes (esc_unit # 91 # a # b # 109 # t) = strip_codes t" if "is_digit a" "is_digit b" for a b t
  proof -
    have "b \<noteq> 109" using that(2) by (auto simp: is_digit_def)
    with that show ?thesis
      by (simp add: strip_codes.simps [of "esc_unit # 91 # a # b # 109 # t"] js_def numeral_eq_Suc)
  qed
  have 3: "string_of_int i = [a] \<Longrightarrow> is_digit a \<Longrightarrow> strip_codes (color_code i @ t) = strip_codes t"
    "string_of_int i = [a, b] \<Longrightarrow> is_digit a \<Longrightarrow> is_digit b \<Longrightarrow> strip_codes (color_code i @ t) = strip_codes t" for i a b
    using 1 2 by (simp_all add: color_code_def js_def)
  have "\<exists>a b. (string_of_int i = [a] \<or> string_of_int i = [a, b]) \<and> is_digit a \<and> is_digit b" if "i \<in> set color_numbers" for i
  proof -
    have "list_all (\<lambda>i. length (string_of_int i) \<in> {1, 2} \<and> list_all is_digit (string_of_int i)) color_numbers"
      by code_simp
    with that have "length (string_of_int i) \<in> {1, 2}" "list_all is_digit (string_of_int i)"
      by (auto simp: list_all_iff)
    then show ?thesis by (auto simp: length_Suc_conv numeral_2_eq_2)
  qed
  then show "i \<in> set color_numbers \<Longrightarrow> strip_codes (color_code i @ t) = strip_codes t" using 3 by blast
qed

lemma styled_strip: "styled t u \<Longrightarrow> strip_codes t = u"
proof (induction rule: styled.induct)
  case (styled_unit t u c)
  then show ?case by (simp add: strip_codes.simps [of "c # t"])
qed (simp_all add: strip_color_code strip_codes.simps [of "[]"])

lemma styled_plain: "esc_unit \<notin> set u \<Longrightarrow> styled u u"
  by (induction u) (auto intro: styled.intros)

lemma styled_append: "styled t u \<Longrightarrow> styled t' u' \<Longrightarrow> styled (t @ t') (u @ u')"
  by (induction rule: styled.induct) (auto intro: styled.intros)

lemma styled_no_escape: "styled t u \<Longrightarrow> esc_unit \<notin> set u"
  by (induction rule: styled.induct) auto

lemma styled_newline: "styled t u \<Longrightarrow> 10 \<in> set t \<longleftrightarrow> 10 \<in> set u"
  by (induction rule: styled.induct) (auto dest: color_code_units)

lemma styled_strip_same: "styled t u \<Longrightarrow> length (strip_codes t) = length (strip_codes u)"
  using styled_strip styled_strip [OF styled_plain [OF styled_no_escape]] by simp

lemma styled_js: "list_all (\<lambda>c. of_char c \<noteq> esc_unit) s \<Longrightarrow> styled (js s) (js s)"
  by (rule styled_plain) (auto simp: js_def list_all_iff)

lemma styled_color:
  assumes "styled t u"
  shows "styled (stylizeWithColor t ty) u"
proof -
  have "on \<in> set color_numbers \<and> off \<in> set color_numbers" if "map_of inspect_colors style = Some (on, off)" for style on off
    using map_of_SomeD [OF that] by (force simp: color_numbers_def)
  moreover have "styled (color_code on @ t @ color_code off) u" if "on \<in> set color_numbers" "off \<in> set color_numbers" for on off
    using styled_append [OF assms styled_code [OF styled_Nil that(2)]] styled_code [OF _ that(1)] by simp
  ultimately show ?thesis
    using assms by (auto simp: stylizeWithColor_def split: option.splits)
qed

lemma styled_stylize:
  "esc_unit \<notin> set u \<Longrightarrow>
     styled (stylize (ctx\<lparr>colors := Boolean True\<rparr>) u ty) (stylize (ctx\<lparr>colors := Boolean False\<rparr>) u ty)"
  by (simp add: stylize_def stylizeNoColor_def styled_color styled_plain)

lemma styled_join:
  "list_all2 styled ts us \<Longrightarrow> styled d d \<Longrightarrow> styled (join d ts) (join d us)"
  by (induction rule: list_all2_induct) (auto simp: join_Cons intro: styled_append)

lemma split1_prefix: "d \<notin> set p \<Longrightarrow> split1 d (p @ t) = (p @ hd (split1 d t)) # tl (split1 d t)"
  by (induction p) (auto simp: split1_not_Nil split: list.splits)

lemma styled_lines: "styled t u \<Longrightarrow> list_all2 styled (split1 10 t) (split1 10 u)"
proof (induction rule: styled.induct)
  case (styled_unit t u c)
  then have ne: "split1 10 t = hd (split1 10 t) # tl (split1 10 t)" "split1 10 u = hd (split1 10 u) # tl (split1 10 u)"
    by simp_all
  with styled_unit have hds: "styled (hd (split1 10 t)) (hd (split1 10 u))" "list_all2 styled (tl (split1 10 t)) (tl (split1 10 u))"
    by (metis list_all2_Cons)+
  show ?case
  proof (cases "c = 10")
    case True
    with styled_unit show ?thesis by (auto simp: styled_plain)
  next
    case False
    then have "split1 10 (c # x) = (c # hd (split1 10 x)) # tl (split1 10 x)" for x
      using split1_prefix [of 10 "[c]" x] by simp
    with hds styled.styled_unit styled_unit(2) show ?thesis by simp
  qed
next
  case (styled_code t u i)
  then have "split1 10 (color_code i @ t) = (color_code i @ hd (split1 10 t)) # tl (split1 10 t)"
    using color_code_units by (intro split1_prefix)
  moreover have "split1 10 u = hd (split1 10 u) # tl (split1 10 u)" "split1 10 t = hd (split1 10 t) # tl (split1 10 t)" by simp_all
  ultimately show ?case
    using styled_code.IH styled.styled_code [OF _ styled_code.hyps(2)] by (metis list_all2_Cons)
qed (simp add: styled_Nil)

lemma styled_indent:
  assumes "styled t u"
  shows "styled (indent_lines array t) (indent_lines array u)"
proof (cases "10 \<in> set t")
  case True
  with styled_newline [OF assms] have u: "10 \<in> set u" by simp
  have lines: "list_all2 styled (map (\<lambda>line. js p @ line) (split1 10 t)) (map (\<lambda>line. js p @ line) (split1 10 u))"
    if "styled (js p) (js p)" for p
    using styled_lines [OF assms] styled_append [OF that] by (simp add: list_all2_map1 list_all2_map2 list.rel_mono_strong)
  have sp: "styled (js ''  '') (js ''  '')" "styled (js ''   '') (js ''   '')" "styled [10] [10]"
    by (auto intro!: styled_plain simp: js_def)
  have drop2: "drop 2 (join [10] (map (\<lambda>line. js ''  '' @ line) (split1 10 x))) =
      join [10] (hd (split1 10 x) # map (\<lambda>line. js ''  '' @ line) (tl (split1 10 x)))" for x
    by (cases "split1 10 x") (simp_all add: join_Cons js_def)
  have "list_all2 styled (hd (split1 10 t) # map (\<lambda>line. js ''  '' @ line) (tl (split1 10 t)))
      (hd (split1 10 u) # map (\<lambda>line. js ''  '' @ line) (tl (split1 10 u)))"
    using styled_lines [OF assms] styled_append [OF sp(1)]
    by (cases "split1 10 t"; cases "split1 10 u") (auto simp: list_all2_map1 list_all2_map2 intro: list.rel_mono_strong)
  from styled_join [OF this sp(3)] styled_join [OF lines [OF sp(2)] sp(3)]
  show ?thesis using True u styled_append [OF sp(3)] by (simp only: indent_lines_def drop2 if_True split: if_split) simp
next
  case False
  with styled_newline [OF assms] assms show ?thesis by (simp add: indent_lines_def)
qed

lemma styled_single:
  assumes "list_all2 styled ts us" "esc_unit \<notin> set base" "esc_unit \<notin> set (fst braces)" "esc_unit \<notin> set (snd braces)"
  shows "styled (reduceToSingleString ts base braces) (reduceToSingleString us base braces)"
proof -
  have "map (\<lambda>cur. length (strip_codes cur) + 1) ts = map (\<lambda>cur. length (strip_codes cur) + 1) us"
    using assms(1) by (induction rule: list_all2_induct) (auto dest: styled_strip_same)
  moreover have "styled (join d ts) (join d us)" if "styled d d" for d
    by (rule styled_join [OF assms(1) that])
  moreover have "styled (js '' '') (js '' '')" "styled (js '', '') (js '', '')" "styled ([44, 10] @ js ''  '') ([44, 10] @ js ''  '')"
    by (auto intro!: styled_plain simp: js_def)
  ultimately show ?thesis
    using assms(2-4) by (auto simp only: reduceToSingleString_def Let_def split: if_split intro!: styled_append styled_plain)
      (auto simp: js_def)
qed

section \<open>Runs that agree\<close>

text \<open>Two programs that do the same to the state and throw the same, with related results.\<close>

definition runs_agree :: "('a \<Rightarrow> 'b \<Rightarrow> bool) \<Rightarrow> ('s, 'a) prog \<Rightarrow> ('s, 'b) prog \<Rightarrow> bool" where
  "runs_agree R m m' \<longleftrightarrow> (\<forall>s. snd (m s) = snd (m' s) \<and> rel_sum (=) R (fst (m s)) (fst (m' s)))"

lemma agree_yields [intro]: "R x y \<Longrightarrow> runs_agree R (yields x) (yields y)"
  by (simp add: runs_agree_def yields_def)

lemma agree_raises [intro]: "runs_agree R (raises e) (raises e)"
  by (simp add: runs_agree_def raises_def)

lemma agree_and_do:
  assumes "runs_agree R m m'" "\<And>x y. R x y \<Longrightarrow> runs_agree Q (f x) (g y)"
  shows "runs_agree Q (and_do m f) (and_do m' g)"
  unfolding runs_agree_def
proof
  fix s
  have ms: "snd (m s) = snd (m' s)" "rel_sum (=) R (fst (m s)) (fst (m' s))"
    using assms(1) by (auto simp: runs_agree_def)
  show "snd (and_do m f s) = snd (and_do m' g s) \<and> rel_sum (=) Q (fst (and_do m f s)) (fst (and_do m' g s))"
  proof (cases "m s")
    case (Pair r s1)
    with ms obtain r' where r': "m' s = (r', s1)" "rel_sum (=) R r r'" by (cases "m' s") auto
    with Pair assms(2) show ?thesis
      by (cases r; cases r') (auto simp: and_do_def runs_agree_def)
  qed
qed

lemma agree_mono:
  assumes "\<And>x y. R x y \<Longrightarrow> Q x y" "runs_agree R m m'"
  shows "runs_agree Q m m'"
  unfolding runs_agree_def
proof
  fix s
  have "rel_sum (=) R (fst (m s)) (fst (m' s))" "snd (m s) = snd (m' s)" using assms(2) by (auto simp: runs_agree_def)
  then show "snd (m s) = snd (m' s) \<and> rel_sum (=) Q (fst (m s)) (fst (m' s))"
    using assms(1) by (auto elim: sum.rel_mono_strong)
qed

lemma agree_if:
  "(P \<Longrightarrow> runs_agree R a b) \<Longrightarrow> (\<not> P \<Longrightarrow> runs_agree R c d) \<Longrightarrow>
     runs_agree R (if P then a else c) (if P then b else d)"
  by simp

lemma agree_run_map:
  "(\<And>x. x \<in> set xs \<Longrightarrow> runs_agree R (f x) (g x)) \<Longrightarrow> runs_agree (list_all2 R) (run_map f xs) (run_map g xs)"
proof (induction xs)
  case (Cons x xs)
  show ?case
    unfolding run_map.simps
    by (rule agree_and_do [of R], use Cons in simp, rule agree_and_do [of "list_all2 R"], use Cons in simp, auto)
qed auto

lemma agree_function:
  assumes "runs_agree (\<lambda>t u. h t = u) m m'"
  shows "and_do m (\<lambda>t. yields (h t)) = m'"
proof
  fix s
  have "snd (m s) = snd (m' s)" "rel_sum (=) (\<lambda>t u. h t = u) (fst (m s)) (fst (m' s))"
    using assms by (auto simp: runs_agree_def)
  then show "and_do m (\<lambda>t. yields (h t)) s = m' s"
    by (cases "m s"; cases "m' s"; cases "fst (m s)"; cases "fst (m' s)") (auto simp: and_do_def yields_def)
qed

section \<open>Colours\<close>

text \<open>
  A set of values closed under own properties, whose hidden names and texts (of functions, regular
  expressions, dates and errors) have no escape character: these are shown as they are, and an
  escape character of their own would be taken for a colour code. Strings and the names of the
  other properties, which are quoted, may have any characters.
\<close>

definition own_texts :: "'s host \<Rightarrow> jsval \<Rightarrow> jstring list" where
  "own_texts w v =
     (case v of
        RegExp _ t \<Rightarrow> [t]
      | Date _ x \<Rightarrow> [date_text w x, utc_text w x]
      | Function i _ \<Rightarrow> [fn_name w i]
      | _ \<Rightarrow> []) @ error_text w v # filter (\<lambda>k. k \<notin> set (own_keys v)) (own_names w v)"

definition inspectable :: "'s host \<Rightarrow> jsval set \<Rightarrow> bool" where
  "inspectable w S \<longleftrightarrow>
     (\<forall>v \<in> S. (\<forall>k \<in> set (own_keys v) \<union> set (own_names w v). own_value w v k \<in> S) \<and>
       (\<forall>t \<in> set (own_texts w v). esc_unit \<notin> set t))"

lemma json_piece_no_escape: "esc_unit \<notin> set (json_piece c)"
proof (cases rule: json_piece_cases [of c])
  case escape
  have "48 \<le> hex_digit d \<Longrightarrow> hex_digit d \<noteq> esc_unit" for d by auto
  with escape hex_digit_range [OF hex_units(2), of c] hex_digit_range [OF hex_units(3), of c]
    hex_digit_range [OF hex_units(4), of c] hex_digit_range [OF hex_units(5), of c]
  show ?thesis by (auto simp: unit_escape_def)
qed (auto simp: short_escapes_def)

lemma json_units_no_escape: "esc_unit \<notin> set (json_units s)"
proof (induction s rule: json_units.induct)
  case (3 c d s)
  then show ?case
    using surrogates_plain [of c] surrogates_plain [of d] json_piece_no_escape [of c]
    by (auto simp: json_units_simps)
qed (use json_piece_no_escape in \<open>simp_all add: json_units_simps\<close>)

lemma set_replace_pair: "set (replace_pair a b r s) \<subseteq> set r \<union> set s"
  by (induction a b r s rule: replace_pair.induct) auto

lemma set_escape_apostrophes: "set (escape_apostrophes s) \<subseteq> insert backslash (set s)"
  by (auto simp: escape_apostrophes_def split: if_splits)

lemma set_replace_ends: "set (replace_ends r s) \<subseteq> set r \<union> set s"
  unfolding replace_ends_def Let_def by (auto dest: in_set_butlastD list.set_sel(2) split: if_splits)

lemma quoted_no_escape:
  assumes "esc_unit \<notin> set s"
  shows "esc_unit \<notin> set (replace_pair backslash quote [quote] (escape_apostrophes s))"
proof -
  have "set (replace_pair backslash quote [quote] (escape_apostrophes s)) \<subseteq> insert quote (insert backslash (set s))"
    using set_replace_pair [of backslash quote "[quote]" "escape_apostrophes s"] set_escape_apostrophes [of s] by auto
  then show ?thesis using assms by auto
qed

lemma property_name_styled:
  "styled (property_name (ctx\<lparr>colors := Boolean True\<rparr>) key) (property_name (ctx\<lparr>colors := Boolean False\<rparr>) key)"
proof -
  have q: "esc_unit \<notin> set (json_quote key)" using json_units_no_escape by (simp add: json_quote_def)
  then have "esc_unit \<notin> set (butlast (tl (json_quote key)))"
    by (auto dest!: in_set_butlastD simp: json_quote_def)
  moreover have "esc_unit \<notin> set (replace_ends [apostrophe] (replace_pair backslash quote [quote] (escape_apostrophes (json_quote key))))"
    using quoted_no_escape [OF q] set_replace_ends by fastforce
  ultimately show ?thesis by (auto simp: property_name_def Let_def intro: styled_stylize)
qed

lemma digits_no_escape: "esc_unit \<notin> set (string_of_int i)"
  using string_of_int_units by (fastforce simp: is_digit_def)

lemma formatPrimitive_styled:
  "rel_option styled (formatPrimitive (ctx\<lparr>colors := Boolean True\<rparr>) v) (formatPrimitive (ctx\<lparr>colors := Boolean False\<rparr>) v)"
proof -
  have "esc_unit \<notin> set (string_of_number x)" for x by (cases x) (simp_all add: digits_no_escape, simp_all add: js_def)
  moreover have "esc_unit \<notin> set (replace_pair backslash quote [quote] (escape_apostrophes (json_units s)))" for s
    by (rule quoted_no_escape [OF json_units_no_escape])
  ultimately show ?thesis
    by (cases v) (auto simp: formatPrimitive_def simp del: of_char_eq_iff intro!: styled_stylize, auto simp: js_def)
qed

abbreviation colored :: "ctx \<Rightarrow> ctx" where
  "colored ctx \<equiv> ctx\<lparr>colors := Boolean True\<rparr>"

abbreviation uncolored :: "ctx \<Rightarrow> ctx" where
  "uncolored ctx \<equiv> ctx\<lparr>colors := Boolean False\<rparr>"

definition members_agree :: "jsval set \<Rightarrow> 's format_fn \<Rightarrow> 's format_fn \<Rightarrow> bool" where
  "members_agree S fv fv' \<longleftrightarrow> (\<forall>v \<in> S. \<forall>rt. runs_agree styled (fv v rt) (fv' v rt))"

lemma inspectableD:
  assumes "inspectable w S" "v \<in> S"
  shows "k \<in> set (own_keys v) \<union> set (own_names w v) \<Longrightarrow> own_value w v k \<in> S"
    "t \<in> set (own_texts w v) \<Longrightarrow> esc_unit \<notin> set t"
  using assms unfolding inspectable_def by blast+

lemma formatProperty_agree:
  assumes S: "inspectable w S" "value \<in> S" and key: "key \<in> set (own_keys value) \<union> set (own_names w value)"
    and fv: "members_agree S fv fv'"
  shows "runs_agree styled
    (formatProperty w (colored ctx) fv seen value rt (arrayToHash (own_keys value)) key array)
    (formatProperty w (uncolored ctx) fv' seen value rt (arrayToHash (own_keys value)) key array)"
proof -
  have "own_value w value key \<in> S" using inspectableD(1) [OF S key] .
  with fv have agree: "runs_agree styled (fv (own_value w value key) d) (fv' (own_value w value key) d)" for d
    by (simp add: members_agree_def)
  have circular: "styled (stylize (colored ctx) (js ''[Circular]'') ''special'') (stylize (uncolored ctx) (js ''[Circular]'') ''special'')"
    by (rule styled_stylize) (simp add: js_def)
  have plain_key: "styled (js ''['' @ key @ js '']: '') (js ''['' @ key @ js '']: '')" if "key \<notin> set (arrayToHash (own_keys value))"
  proof (rule styled_plain)
    have "esc_unit \<notin> set key"
    proof (cases "key \<in> set (own_keys value)")
      case True
      with that have "key = js ''__proto__''" by (simp add: arrayToHash_def)
      then show ?thesis by (simp add: js_def)
    next
      case False
      with key inspectableD(2) [OF S, of key] show ?thesis by (simp add: own_texts_def)
    qed
    then show "esc_unit \<notin> set (js ''['' @ key @ js '']: '')" by (simp add: js_def)
  qed
  have colon: "styled (js '': '') (js '': '')" by (rule styled_plain) (simp add: js_def)
  show ?thesis
    unfolding formatProperty_def Let_def
    using styled_append [OF plain_key] styled_append [OF property_name_styled styled_append [OF colon]]
    by (intro agree_and_do [of styled]) (auto intro!: agree_and_do [of styled] agree styled_indent circular)
qed

lemma element_keys:
  "v = Array j xs \<Longrightarrow> i < length_of v \<Longrightarrow> string_of_int (int i) \<in> set (own_keys v)"
  by auto

lemma formatArray_agree:
  assumes S: "inspectable w S" "value \<in> S" "value = Array j xs" and fv: "members_agree S fv fv'"
    and names: "set names \<subseteq> set (own_keys value) \<union> set (own_names w value)"
  shows "runs_agree (list_all2 styled)
    (formatArray w (colored ctx) fv seen value rt (arrayToHash (own_keys value)) names)
    (formatArray w (uncolored ctx) fv' seen value rt (arrayToHash (own_keys value)) names)"
proof -
  note member = formatProperty_agree [OF S(1,2) _ fv]
  show ?thesis
    unfolding formatArray_def Let_def
  proof (rule agree_and_do [of "list_all2 styled"])
    show "runs_agree (list_all2 styled)
      (run_map (\<lambda>i. if has_own value (string_of_int (int i)) then formatProperty w (colored ctx) fv seen value rt
          (arrayToHash (own_keys value)) (string_of_int (int i)) True else yields []) [0..<length_of value])
      (run_map (\<lambda>i. if has_own value (string_of_int (int i)) then formatProperty w (uncolored ctx) fv' seen value rt
          (arrayToHash (own_keys value)) (string_of_int (int i)) True else yields []) [0..<length_of value])"
      by (rule agree_run_map) (use element_keys [OF S(3)] in \<open>auto intro!: member styled_Nil\<close>)
  next
    fix ts us
    assume "list_all2 styled ts us"
    then show "runs_agree (list_all2 styled)
      (and_do (run_map (\<lambda>key. formatProperty w (colored ctx) fv seen value rt (arrayToHash (own_keys value)) key True)
        (filter (\<lambda>key. \<not> all_digits key) names)) (\<lambda>others. yields (ts @ others)))
      (and_do (run_map (\<lambda>key. formatProperty w (uncolored ctx) fv' seen value rt (arrayToHash (own_keys value)) key True)
        (filter (\<lambda>key. \<not> all_digits key) names)) (\<lambda>others. yields (us @ others)))"
      by (intro agree_and_do [of "list_all2 styled"] agree_run_map)
        (use names in \<open>auto intro!: member list_all2_appendI\<close>)
  qed
qed

lemma own_text_styled:
  assumes S: "inspectable w S" "value \<in> S"
  shows "esc_unit \<notin> set (class_text w value)"
    "rel_option styled (shortcut w (colored ctx) value) (shortcut w (uncolored ctx) value)"
    "esc_unit \<notin> set (formatError w value)"
    "esc_unit \<notin> set (case value of RegExp _ s \<Rightarrow> s | _ \<Rightarrow> [])"
proof -
  note texts = inspectableD(2) [OF S]
  have re: "esc_unit \<notin> set (case value of RegExp _ s \<Rightarrow> s | _ \<Rightarrow> [])"
    using texts by (cases "value") (auto simp: own_texts_def)
  have dates: "esc_unit \<notin> set (case value of Date _ x \<Rightarrow> date_text w x | _ \<Rightarrow> [])"
    "esc_unit \<notin> set (case value of Date _ x \<Rightarrow> utc_text w x | _ \<Rightarrow> [])"
    using texts by (cases "value"; auto simp: own_texts_def)+
  have "esc_unit \<notin> set (case value of Function i _ \<Rightarrow> fn_name w i | _ \<Rightarrow> [])"
    using texts by (cases "value") (auto simp: own_texts_def)
  then have fn: "esc_unit \<notin> set (function_text w value)" by (simp add: function_text_def Let_def js_def)
  have err: "esc_unit \<notin> set (formatError w value)"
    using texts [of "error_text w value"] by (simp add: own_texts_def formatError_def js_def)
  show "esc_unit \<notin> set (class_text w value)"
    using re dates fn err by (simp add: class_text_def) (simp add: js_def)
  show "rel_option styled (shortcut w (colored ctx) value) (shortcut w (uncolored ctx) value)"
    using styled_stylize [OF fn, of ctx "''special''"] styled_stylize [OF re, of ctx "''regexp''"]
      styled_stylize [OF dates(1), of ctx "''date''"] styled_plain [OF err]
    by (simp add: shortcut_def del: util_kinds)
  show "esc_unit \<notin> set (formatError w value)" by (rule err)
  show "esc_unit \<notin> set (case value of RegExp _ s \<Rightarrow> s | _ \<Rightarrow> [])" by (rule re)
qed

lemma formatObject_agree:
  assumes S: "inspectable w S" "value \<in> S" and fv: "members_agree S fv fv'"
  shows "runs_agree styled (formatObject w (colored ctx) fv seen value rt) (formatObject w (uncolored ctx) fv' seen value rt)"
proof -
  define names where "names = (if truthy (showHidden ctx) then own_names w value else own_keys value)"
  have names: "set names \<subseteq> set (own_keys value) \<union> set (own_names w value)" by (simp add: names_def)
  have hidden: "showHidden (colored ctx) = showHidden ctx" "showHidden (uncolored ctx) = showHidden ctx" by simp_all
  let ?braces = "if isArray_ut value then (js ''['', js '']'') else (js ''{'', js ''}'')"
  have braces: "esc_unit \<notin> set (fst ?braces)" "esc_unit \<notin> set (snd ?braces)" by (simp_all add: js_def)
  note tx = own_text_styled [OF S]
  have short: "shortcut w (colored ctx) value \<noteq> None \<longleftrightarrow> shortcut w (uncolored ctx) value \<noteq> None"
    "shortcut w (uncolored ctx) value \<noteq> None \<Longrightarrow> styled (the (shortcut w (colored ctx) value)) (the (shortcut w (uncolored ctx) value))"
    using tx(2) [of ctx] by (auto simp: rel_option_iff split: option.splits)
  have obj: "styled (stylize (colored ctx) (js ''[Object]'') ''special'') (stylize (uncolored ctx) (js ''[Object]'') ''special'')"
    by (rule styled_stylize) (simp add: js_def)
  have members: "runs_agree (list_all2 styled)
    (if isArray_ut value then formatArray w (colored ctx) fv (seen @ [value]) value rt (arrayToHash (own_keys value)) names
     else run_map (\<lambda>key. formatProperty w (colored ctx) fv (seen @ [value]) value rt (arrayToHash (own_keys value)) key (isArray_ut value)) names)
    (if isArray_ut value then formatArray w (uncolored ctx) fv' (seen @ [value]) value rt (arrayToHash (own_keys value)) names
     else run_map (\<lambda>key. formatProperty w (uncolored ctx) fv' (seen @ [value]) value rt (arrayToHash (own_keys value)) key (isArray_ut value)) names)"
  proof (cases "isArray_ut value")
    case True
    then obtain j xs where "value = Array j xs" by auto
    with formatArray_agree [OF S this fv names] show ?thesis by simp
  next
    case False
    have "runs_agree (list_all2 styled)
      (run_map (\<lambda>key. formatProperty w (colored ctx) fv (seen @ [value]) value rt (arrayToHash (own_keys value)) key (isArray_ut value)) names)
      (run_map (\<lambda>key. formatProperty w (uncolored ctx) fv' (seen @ [value]) value rt (arrayToHash (own_keys value)) key (isArray_ut value)) names)"
      by (rule agree_run_map, rule formatProperty_agree [OF S _ fv]) (use names in blast)
    then show ?thesis unfolding if_not_P [OF False] .
  qed
  have plain_texts: "styled (formatError w value) (formatError w value)"
    "styled (fst ?braces @ class_text w value @ snd ?braces) (fst ?braces @ class_text w value @ snd ?braces)"
    by (rule styled_plain, rule tx(3)) (rule styled_plain, use tx(1) braces in simp)
  show ?thesis
    unfolding formatObject_def Let_def hidden names_def [symmetric] short(1)
    by (intro agree_if agree_yields plain_texts agree_and_do [OF members] styled_single tx(1) braces)
      (use short(2) styled_stylize [OF tx(4), of ctx "''regexp''"] obj in simp_all)
qed

text \<open>
  A function named \<open>inspect\<close> of a value, called with the options, may do as it likes with colours:
  what is asked of it is that it has the same effects and errors with and without them, and gives
  texts that differ in colour codes only, or one and the same other value to be shown.
\<close>

inductive shown_alike :: "jsval set \<Rightarrow> jsval \<Rightarrow> jsval \<Rightarrow> bool" for S where
  alike_texts: "styled t u \<Longrightarrow> shown_alike S (String t) (String u)"
| alike_value: "v \<in> S \<Longrightarrow> (\<And>s. v \<noteq> String s) \<Longrightarrow> shown_alike S v v"

definition colors_honestly :: "'s host \<Rightarrow> ctx \<Rightarrow> jsval set \<Rightarrow> jsval \<Rightarrow> bool" where
  "colors_honestly w ctx S v \<longleftrightarrow> (\<forall>rt seen. runs_agree (shown_alike S)
     (apply_val (world.truncate w) (get v (js ''inspect'')) v [rt, ctx_value w (colored ctx) seen])
     (apply_val (world.truncate w) (get v (js ''inspect'')) v [rt, ctx_value w (uncolored ctx) seen]))"

lemma own_inspect_colors:
  "own_inspect w (colored ctx) v = own_inspect w ctx v" "own_inspect w (uncolored ctx) v = own_inspect w ctx v"
  by (simp_all add: own_inspect_def)

lemma shown_alike_rest:
  assumes "shown_alike S r r'" "\<And>v. v \<in> S \<Longrightarrow> runs_agree styled (f v) (g v)"
  shows "runs_agree styled (case r of String s \<Rightarrow> yields s | _ \<Rightarrow> f r) (case r' of String s \<Rightarrow> yields s | _ \<Rightarrow> g r')"
  using assms(1)
proof cases
  case (alike_value)
  with assms(2) show ?thesis by (cases r) auto
qed auto

lemma formatValue_agree:
  assumes S: "inspectable w S" and custom: "\<forall>v \<in> S. own_inspect w ctx v \<longrightarrow> colors_honestly w ctx S v"
  shows "v \<in> S \<Longrightarrow> runs_agree styled (formatValue w (colored ctx) n seen v rt) (formatValue w (uncolored ctx) n seen v rt)"
proof (induction n arbitrary: seen v rt)
  case (Suc n)
  have called: "runs_agree styled (formatValue w (colored ctx) (Suc n) seen v rt) (formatValue w (uncolored ctx) (Suc n) seen v rt)"
    if "own_inspect w ctx v"
  proof -
    have "runs_agree (shown_alike S)
        (apply_val (world.truncate w) (get v (js ''inspect'')) v [rt, ctx_value w (colored ctx) seen])
        (apply_val (world.truncate w) (get v (js ''inspect'')) v [rt, ctx_value w (uncolored ctx) seen])"
      using custom Suc.prems that unfolding colors_honestly_def by blast
    then show ?thesis
      unfolding formatValue.simps own_inspect_colors if_P [OF that]
      by (rule agree_and_do) (erule shown_alike_rest, rule Suc.IH)
  qed
  have "members_agree S (formatValue w (colored ctx) n (seen @ [v])) (formatValue w (uncolored ctx) n (seen @ [v]))"
    unfolding members_agree_def using Suc.IH by blast
  from formatObject_agree [OF S Suc.prems this, of ctx seen rt] formatPrimitive_styled [of ctx v]
  show ?case
    using called by (cases "own_inspect w ctx v") (auto simp: own_inspect_colors rel_option_iff split: option.splits)
qed auto

text \<open>
  C21: Colours change nothing but the colour codes: the coloured text without its codes is the plain
  text, and effects and errors are the same. Functions named \<open>inspect\<close> that the values bring are
  called, with the default options too, and are asked to keep to this themselves; hidden names and
  the texts of functions, regular expressions, dates and errors are asked to have no escape
  character of their own. Values without functions named \<open>inspect\<close> need nothing else.
\<close>

theorem inspect_colors_only:
  assumes "inspectable w S" "v \<in> S" "\<forall>v \<in> S. own_inspect w ctx v \<longrightarrow> colors_honestly w ctx S v"
  shows "and_do (formatValue w (ctx\<lparr>colors := Boolean True\<rparr>) n seen v rt) (\<lambda>t. yields (strip_codes t)) =
    formatValue w (ctx\<lparr>colors := Boolean False\<rparr>) n seen v rt"
proof (rule agree_function)
  have "strip_codes t = u" if "styled t u" for t u by (rule styled_strip [OF that])
  from agree_mono [OF this formatValue_agree [OF assms(1,3,2)]]
  show "runs_agree (\<lambda>t u. strip_codes t = u) (formatValue w (colored ctx) n seen v rt) (formatValue w (uncolored ctx) n seen v rt)" .
qed

section \<open>Depth\<close>

text \<open>
  With a number as depth, and no functions named \<open>inspect\<close> that are called, the text comes back
  without an error, whatever the value contains: the frames needed are two more than the depth.
\<close>

definition returns :: "('s, 'a) prog \<Rightarrow> bool" where
  "returns m \<longleftrightarrow> (\<exists>x. m = yields x)"

lemma returns_yields [simp]: "returns (yields x)"
  by (auto simp: returns_def)

lemma returns_if: "(P \<Longrightarrow> returns m) \<Longrightarrow> (\<not> P \<Longrightarrow> returns m') \<Longrightarrow> returns (if P then m else m')"
  by simp

lemma returns_and_do: "returns m \<Longrightarrow> (\<And>x. returns (f x)) \<Longrightarrow> returns (and_do m f)"
  by (auto simp: returns_def)

lemma returns_run_map: "(\<And>x. returns (f x)) \<Longrightarrow> returns (run_map f xs)"
  by (induction xs) (auto intro!: returns_and_do)

lemmas returns_intros = returns_yields returns_if returns_and_do returns_run_map

lemma formatProperty_returns:
  assumes "\<And>v. returns (fv v (int_val (d - 1)))"
  shows "returns (formatProperty w ctx fv seen value (int_val d) visible key array)"
  unfolding formatProperty_def Let_def using assms by (auto intro!: returns_intros simp: minus_one_def)

lemma formatObject_returns:
  assumes "0 \<le> d \<Longrightarrow> \<forall>v. returns (fv v (int_val (d - 1)))"
  shows "returns (formatObject w ctx fv seen value (int_val d))"
proof (cases "d < 0")
  case True
  then show ?thesis by (simp add: formatObject_def Let_def less_val_def)
next
  case False
  with assms have "returns (formatProperty w ctx fv seen value (int_val d) visible key array)"
    for seen visible key array by (intro formatProperty_returns) simp
  then show ?thesis
    unfolding formatObject_def formatArray_def Let_def by (intro returns_intros)
qed

theorem inspect_returns:
  assumes "\<not> truthy (customInspect ctx)" "nat (d + 1) < n"
  shows "\<exists>t. formatValue w ctx n seen v (int_val d) = yields t"
proof -
  from assms(2) have "returns (formatValue w ctx n seen v (int_val d))"
  proof (induction n arbitrary: seen v d)
    case (Suc n)
    have "\<not> own_inspect w ctx v" using assms(1) by (simp add: own_inspect_def)
    moreover have "returns (formatObject w ctx (formatValue w ctx n (seen @ [v])) seen v (int_val d))"
      by (rule formatObject_returns) (use Suc in auto)
    ultimately show ?case by (auto split: option.splits)
  qed simp
  then show ?thesis by (simp add: returns_def)
qed

abbreviation example_ctx :: ctx where
  "example_ctx \<equiv> \<lparr>showHidden = Boolean False, depth = int_val 2, colors = Boolean False, customInspect = Boolean False\<rparr>"

text \<open>
  A world that counts the calls of one function, \<open>inspect\<close> of the value \<open>example_thing\<close>, which gives
  a green text where the options ask for colours, and the same text without codes otherwise.
\<close>

definition example_green :: "jsval \<Rightarrow> jstring" where
  "example_green options =
     (if truthy (get options (js ''colors'')) then color_code 32 @ js ''ok'' @ color_code 39 else js ''ok'')"

definition counting_host :: "nat host" where
  "counting_host =
     \<lparr>call = \<lambda>i this args s. (Inr (String (example_green (arg args 1))), Suc s), number_of = \<lambda>v. NaN,
      text_of = \<lambda>v. js ''[object]'', math_random = yields 0,
      fn_name = \<lambda>i. js ''f'', prototype_of = \<lambda>i. Undefined, date_text = \<lambda>x. js ''date'', utc_text = \<lambda>x. js ''date'',
      iso_text = \<lambda>x. js ''date'', is_error = \<lambda>v. False, error_text = \<lambda>v. [], own_names = own_keys,
      hidden_value = \<lambda>v k. Undefined, primitive_of = \<lambda>v. String (js ''[object]''), util_inspect = 0,
      stylize_fn = \<lambda>b. 1, ctx_id = 0, seen_id = 0,
      regexp_of = \<lambda>i. \<lparr>re_source = [], re_global = False, re_multiline = False, re_ignoreCase = False,
        re_lastIndex = int_val 0\<rparr>,
      re_test = \<lambda>i v. yields False, instance_of = \<lambda>v f. False, engine_value = \<lambda>e. Object 0 (Some 0) [] [],
      captures_stack = True, new_stack = []\<rparr>"

abbreviation example_thing :: jsval where
  "example_thing \<equiv> Object 3 (Some 0) [(js ''inspect'', Function 7 0)] []"

abbreviation example_things :: jsval where
  "example_things \<equiv> Array 1 [example_thing, String [esc_unit]]"

abbreviation default_ctx :: ctx where
  "default_ctx \<equiv> inspect_ctx Undefined"

lemma example_honest: "colors_honestly counting_host ctx S example_thing"
proof -
  have "styled (color_code 32 @ js ''ok'' @ color_code 39) (js ''ok'')"
    using styled_color [OF styled_js [of "''ok''"], of "''string''"]
    by (simp add: stylizeWithColor_def inspect_styles_def inspect_colors_def)
  moreover have "styled (js ''ok'') (js ''ok'')" by (rule styled_js) simp
  moreover have "get (ctx_value counting_host c seen) (js ''colors'') = colors c" for c seen
    by (simp add: ctx_value_def js_def)
  moreover have "apply_val (world.truncate counting_host) (get example_thing (js ''inspect'')) example_thing [rt, o'] =
      (\<lambda>s. (Inr (String (example_green o')), Suc s))" for rt o'
    by (simp add: apply_val_def counting_host_def world.truncate_def arg_def nth_val_def)
  ultimately show ?thesis
    by (simp add: colors_honestly_def runs_agree_def example_green_def alike_texts)
qed

theorem inspect_colors_only_witness:
  "own_inspect counting_host default_ctx example_thing \<and>
   and_do (formatValue counting_host (default_ctx\<lparr>colors := Boolean True\<rparr>) 4 [] example_things (int_val 2))
     (\<lambda>t. yields (strip_codes t)) =
   formatValue counting_host (default_ctx\<lparr>colors := Boolean False\<rparr>) 4 [] example_things (int_val 2)"
proof -
  let ?S = "{example_things, example_thing, Function 7 0, String [esc_unit]}"
  have "inspectable counting_host ?S"
    by (simp add: inspectable_def own_texts_def own_value_def counting_host_def upt_rec string_of_int_units digits_no_escape)
      (code_simp)
  moreover have "\<not> own_inspect counting_host default_ctx v" if "v \<in> ?S" "v \<noteq> example_thing" for v
    using that by (auto simp: own_inspect_def) (code_simp)+
  moreover have "own_inspect counting_host default_ctx example_thing"
    by (simp add: own_inspect_def is_prototype_def counting_host_def inspect_ctx_def default_option_def)
  ultimately show ?thesis
    using example_honest by (intro conjI inspect_colors_only [of counting_host ?S]) auto
qed

theorem inspect_returns_witness:
  "\<exists>t. formatValue unit_host example_ctx 4 [] (Array 1 [Array 2 [Array 3 [Array 4 []]]]) (int_val 2) = yields t"
  using inspect_returns [of example_ctx 2 4 unit_host "[]" "Array 1 [Array 2 [Array 3 [Array 4 []]]]"] by simp

end
