(* ===== verification/Util_Format.thy ===== *)
theory Util_Format
  imports Util_Inspect
begin

text \<open>
  The module \<open>util\<close> of \<open>wordcut.js\<close> (module 28), second part: \<open>format\<close>, \<open>deprecate\<close>, \<open>debuglog\<close> and
  \<open>log\<close>. The lines that go to the console are part of the state.
\<close>

section \<open>format\<close>

abbreviation percent :: unit16 where
  "percent \<equiv> 37"

definition catch_with :: "('s, 'a) prog \<Rightarrow> (thrown \<Rightarrow> ('s, 'a) prog) \<Rightarrow> ('s, 'a) prog" where
  "catch_with m h s = (case m s of (Inl e, s') \<Rightarrow> h e s' | (Inr x, s') \<Rightarrow> (Inr x, s'))"

lemma catch_with_simps [simp]: "catch_with (yields x) h = yields x" "catch_with (raises e) h = h e"
  by (simp_all add: catch_with_def yields_def raises_def fun_eq_iff)

text \<open>The units \<open>s\<close>, \<open>d\<close>, \<open>j\<close> and the percent sign after a percent sign.\<close>

definition is_directive :: "unit16 \<Rightarrow> bool" where
  "is_directive d \<longleftrightarrow> d = 115 \<or> d = 100 \<or> d = 106 \<or> d = percent"

text \<open>The replacement of one directive, with the position of the next argument.\<close>

definition format_directive :: "'s host \<Rightarrow> nat \<Rightarrow> jsval list \<Rightarrow> nat \<Rightarrow> unit16 \<Rightarrow> ('s, jstring \<times> nat) prog" where
  "format_directive w n args i d =
     (if d = percent then yields ([percent], i)
      else if i \<ge> length args then yields ([percent, d], i)
      else if d = 115 then yields (to_text (world.truncate w) (args ! i), i + 1)
      else if d = 100 then yields (string_of_number (to_number (world.truncate w) (args ! i)), i + 1)
      else catch_with
        (and_do (stringify w (\<lambda>key v. v) n (args ! i))
          (\<lambda>t. yields (case t of None \<Rightarrow> js ''undefined'' | Some t \<Rightarrow> t, i + 1)))
        (\<lambda>e. yields (js ''[Circular]'', i + 1)))"

fun format_scan :: "'s host \<Rightarrow> nat \<Rightarrow> jsval list \<Rightarrow> nat \<Rightarrow> jstring \<Rightarrow> ('s, jstring \<times> nat) prog" where
  "format_scan w n args i (c # d # s) =
     (if c = percent \<and> is_directive d then
        and_do (format_directive w n args i d)
          (\<lambda>p. and_do (format_scan w n args (snd p) s) (\<lambda>q. yields (fst p @ fst q, snd q)))
      else and_do (format_scan w n args i (d # s)) (\<lambda>q. yields (c # fst q, snd q)))"
| "format_scan w n args i s = yields (s, i)"

text \<open>An argument that no directive takes.\<close>

definition format_rest :: "'s host \<Rightarrow> nat \<Rightarrow> jsval \<Rightarrow> ('s, jstring) prog" where
  "format_rest w n x =
     (if isNull_ut x \<or> \<not> isObject_ut x then yields (js '' '' @ to_text (world.truncate w) x)
      else and_do (inspect w n [x]) (\<lambda>t. yields (js '' '' @ t)))"

definition format :: "'s host \<Rightarrow> nat \<Rightarrow> jsval list \<Rightarrow> ('s, jstring) prog" where
  "format w n args =
     (case arg args 0 of
        String f \<Rightarrow>
          and_do (format_scan w n args 1 f)
            (\<lambda>p. and_do (run_map (format_rest w n) (drop (snd p) args)) (\<lambda>ts. yields (fst p @ concat ts)))
      | _ \<Rightarrow> and_do (run_map (\<lambda>v. inspect w n [v]) args) (\<lambda>ts. yields (join (js '' '') ts)))"

text \<open>
  The reference: the pieces of the text around \<open>%s\<close> alternate with the arguments. A directive
  without an argument stays, an argument without a directive is appended after a space.
\<close>

fun substituted :: "jstring list \<Rightarrow> jstring list \<Rightarrow> jstring" where
  "substituted (p # q # ps) [] = p @ js ''%s'' @ substituted (q # ps) []"
| "substituted (p # q # ps) (s # ss) = p @ s @ substituted (q # ps) ss"
| "substituted ps ss = concat ps @ concat (map (\<lambda>s. js '' '' @ s) ss)"

lemma format_scan_plain:
  "percent \<notin> set p \<Longrightarrow> format_scan w n args i (p @ s) = and_do (format_scan w n args i s) (\<lambda>q. yields (p @ fst q, snd q))"
proof (induction p)
  case (Cons c p)
  have "format_scan w n args i (c # t) = and_do (format_scan w n args i t) (\<lambda>q. yields (c # fst q, snd q))" for t
    using Cons.prems by (cases t) auto
  with Cons show ?case by (simp add: and_do_assoc)
qed simp

lemma format_scan_end: "percent \<notin> set p \<Longrightarrow> format_scan w n args i p = yields (p, i)"
  using format_scan_plain [of p w n args i "[]"] by simp

lemma format_rest_strings:
  "run_map (format_rest w n) (map String ss) = yields (map (\<lambda>s. js '' '' @ s) ss)"
  by (induction ss) (simp_all add: format_rest_def isObject_ut_def)

lemma js_s: "js ''%s'' = [percent, 115]"
  by (simp add: js_def)

lemma format_scan_pieces:
  assumes "args = String f # map String ss"
  shows "ps \<noteq> [] \<Longrightarrow> \<forall>p \<in> set ps. percent \<notin> set p \<Longrightarrow> 1 \<le> i \<Longrightarrow>
    \<exists>t j. format_scan w n args i (join (js ''%s'') ps) = yields (t, j) \<and>
      t @ concat (map (\<lambda>s. js '' '' @ s) (drop (j - 1) ss)) = substituted ps (drop (i - 1) ss) \<and> 1 \<le> j"
proof (induction ps arbitrary: i)
  case (Cons p ps)
  show ?case
  proof (cases ps)
    case Nil
    with Cons.prems show ?thesis by (simp add: format_scan_end)
  next
    case (Cons q qs)
    note ps = Cons
    have plain: "percent \<notin> set p" and rest: "\<forall>p \<in> set ps. percent \<notin> set p" using Cons.prems(2) by simp_all
    have scan: "format_scan w n args i (join (js ''%s'') (p # ps)) =
        and_do (and_do (format_directive w n args i 115)
          (\<lambda>r. and_do (format_scan w n args (snd r) (join (js ''%s'') ps)) (\<lambda>q. yields (fst r @ fst q, snd q))))
          (\<lambda>q. yields (p @ fst q, snd q))"
      using format_scan_plain [OF plain, of w n args i "js ''%s'' @ join (js ''%s'') ps"] ps
      by (simp add: js_s is_directive_def)
    show ?thesis
    proof (cases "i - 1 < length ss")
      case True
      then have d: "format_directive w n args i 115 = yields (ss ! (i - 1), i + 1)"
        using assms Cons.prems(3) by (simp add: format_directive_def nth_Cons')
      from Cons.IH [OF _ rest, of "i + 1"] ps obtain t j where tj:
        "format_scan w n args (i + 1) (join (js ''%s'') ps) = yields (t, j)"
        "t @ concat (map (\<lambda>s. js '' '' @ s) (drop (j - 1) ss)) = substituted ps (drop i ss)" "1 \<le> j" by auto
      have "drop (i - 1) ss = ss ! (i - 1) # drop i ss"
        using Cons_nth_drop_Suc [OF True] Cons.prems(3) by simp
      with tj scan d ps show ?thesis by simp
    next
      case False
      then have d: "format_directive w n args i 115 = yields (js ''%s'', i)"
        using assms Cons.prems(3) by (simp add: format_directive_def js_s)
      from Cons.IH [OF _ rest Cons.prems(3)] ps obtain t j where
        "format_scan w n args i (join (js ''%s'') ps) = yields (t, j)"
        "t @ concat (map (\<lambda>s. js '' '' @ s) (drop (j - 1) ss)) = substituted ps (drop (i - 1) ss)" "1 \<le> j" by auto
      with scan d ps False show ?thesis by simp
    qed
  qed
qed simp

lemma format_pieces:
  assumes "ps \<noteq> []" "\<forall>p \<in> set ps. percent \<notin> set p"
  shows "format w n (String (join (js ''%s'') ps) # map String ss) = yields (substituted ps ss)"
proof -
  let ?args = "String (join (js ''%s'') ps) # map String ss"
  from format_scan_pieces [OF refl assms, of 1 w n "join (js ''%s'') ps" ss] obtain t j where tj:
    "format_scan w n ?args 1 (join (js ''%s'') ps) = yields (t, j)"
    "t @ concat (map (\<lambda>s. js '' '' @ s) (drop (j - 1) ss)) = substituted ps ss" "1 \<le> j" by auto
  have "drop j ?args = map String (drop (j - 1) ss)" using tj(3) by (simp add: drop_Cons' drop_map)
  with tj show ?thesis by (simp add: format_def format_rest_strings)
qed

text \<open>
  \<open>format\<close> with strings for \<open>%s\<close>: the arguments take the places of the directives in order; the
  directives that are left stay, and the arguments that are left are appended.
\<close>

theorem format_substitutes:
  assumes "ps \<noteq> []" "\<forall>p \<in> set ps. percent \<notin> set p"
  shows "format w n (String (join (js ''%s'') ps) # map String ss) = yields (substituted ps ss)"
  by (rule format_pieces [OF assms])

theorem format_substitutes_witness:
  "format unit_host 3 (String (join (js ''%s'') [js ''a '', js '' b '', js '' c'']) # map String [js ''x'']) =
     yields (js ''a x b %s c'')"
  using format_substitutes [of "[js ''a '', js '' b '', js '' c'']" unit_host 3 "[js ''x'']"]
  by (simp add: js_def)

text \<open>A text with every percent sign doubled is shown as it was.\<close>

lemma format_doubled:
  "format w n [String (concat (map (\<lambda>c. if c = percent then [percent, percent] else [c]) s))] = yields s"
proof -
  let ?d = "\<lambda>s. concat (map (\<lambda>c. if c = percent then [percent, percent] else [c]) s)"
  have "format_scan w n args 1 (?d s) = yields (s, 1)" for args
  proof (induction s)
    case (Cons c s)
    show ?case
    proof (cases "c = percent")
      case True
      with Cons show ?thesis by (simp add: is_directive_def format_directive_def)
    next
      case False
      with Cons format_scan_plain [of "[c]" w n args 1 "?d s"] show ?thesis by simp
    qed
  qed simp
  then show ?thesis by (simp add: format_def)
qed

section \<open>deprecate\<close>

text \<open>
  What \<open>deprecate\<close> reads of the process: whether \<open>global.process\<close> is defined, and the three flags;
  and the error object that it makes of a message.
\<close>

record process_flags =
  process_defined :: bool
  noDeprecation :: bool
  throwDeprecation :: bool
  traceDeprecation :: bool
  new_error :: "jstring \<Rightarrow> jsval"

datatype console_line = Trace jstring | Error_line jstring | Log_line jstring

text \<open>
  The function that \<open>deprecate\<close> returns: one that asks again at each call, the function itself, or
  the function \<open>deprecated\<close>. Its state is the flag \<open>warned\<close>, the console and the state of the others.
\<close>

datatype deprecation = Ask_again | Unchanged | Deprecated

definition deprecate :: "process_flags \<Rightarrow> deprecation" where
  "deprecate p = (if \<not> process_defined p then Ask_again else if noDeprecation p then Unchanged else Deprecated)"

type_synonym 's warned_state = "bool \<times> console_line list \<times> 's"

definition with_state :: "('s, 'a) prog \<Rightarrow> ('s warned_state, 'a) prog" where
  "with_state m st = (let (warned, out, s) = st; (r, s') = m s in (r, warned, out, s'))"

definition deprecated :: "process_flags \<Rightarrow> jstring \<Rightarrow> 's fn \<Rightarrow> 's warned_state fn" where
  "deprecated p msg fn this args st =
     (let (warned, out, s) = st in
      if warned then with_state (fn this args) st
      else if throwDeprecation p then (Inl (Throw (new_error p msg)), st)
      else with_state (fn this args) (True, out @ [if traceDeprecation p then Trace msg else Error_line msg], s))"

text \<open>
  A call of the function that \<open>deprecate\<close> has returned; the first argument bounds the frames. The
  function that asks again makes a new wrapper each time, which has not warned yet.
\<close>

fun call_deprecated :: "nat \<Rightarrow> process_flags \<Rightarrow> jstring \<Rightarrow> 's fn \<Rightarrow> deprecation \<Rightarrow> 's warned_state fn" where
  "call_deprecated 0 p msg fn d this args = raises (Engine RangeError)"
| "call_deprecated (Suc n) p msg fn Unchanged this args = with_state (fn this args)"
| "call_deprecated (Suc n) p msg fn Deprecated this args = deprecated p msg fn this args"
| "call_deprecated (Suc n) p msg fn Ask_again this args =
     (\<lambda>(warned, out, s).
        (case call_deprecated n p msg fn (deprecate p) this args (False, out, s) of
           (r, _, out', s') \<Rightarrow> (r, warned, out', s')))"

text \<open>The results of calls one after another; a caller may catch what they throw.\<close>

fun call_each :: "('a \<Rightarrow> 's \<Rightarrow> 'r \<times> 's) \<Rightarrow> 'a list \<Rightarrow> 's \<Rightarrow> 'r list \<times> 's" where
  "call_each f [] s = ([], s)"
| "call_each f (x # xs) s = (let (r, s) = f x s; (rs, s) = call_each f xs s in (r # rs, s))"

lemma call_each_warned:
  "call_each (\<lambda>(this, args). deprecated p msg fn this args) xs (True, out, s) =
     (let (rs, s') = call_each (\<lambda>(this, args). fn this args) xs s in (rs, True, out, s'))"
  by (induction xs arbitrary: s) (auto simp: deprecated_def with_state_def split: prod.splits)

text \<open>
  A deprecated function does what the function does, at every call, and warns at the first call
  only. With \<open>throwDeprecation\<close> every call throws, and the function is never run.
\<close>

theorem deprecate_once:
  "call_each (\<lambda>(this, args). deprecated p msg fn this args) xs (False, out, s) =
     (if throwDeprecation p then (map (\<lambda>_. Inl (Throw (new_error p msg))) xs, False, out, s)
      else
        let (rs, s') = call_each (\<lambda>(this, args). fn this args) xs s
        in (rs, xs \<noteq> [], out @ (if xs = [] then [] else [if traceDeprecation p then Trace msg else Error_line msg]), s'))"
proof (cases "throwDeprecation p")
  case True
  then have "call_each (\<lambda>(this, args). deprecated p msg fn this args) xs (False, out, s) =
      (map (\<lambda>_. Inl (Throw (new_error p msg))) xs, False, out, s)"
    by (induction xs) (auto simp: deprecated_def)
  with True show ?thesis by simp
next
  case False
  show ?thesis
  proof (cases xs)
    case (Cons x ys)
    obtain this args where x: "x = (this, args)" by (cases x)
    obtain r s1 where r: "fn this args s = (r, s1)" by (cases "fn this args s")
    have "deprecated p msg fn this args (False, out, s) =
        (r, True, out @ [if traceDeprecation p then Trace msg else Error_line msg], s1)"
      using False r by (simp add: deprecated_def with_state_def)
    with Cons x r False show ?thesis by (simp add: call_each_warned split: prod.splits)
  qed (simp add: False)
qed

text \<open>
  Where \<open>global.process\<close> is not defined, as in a browser, the function that \<open>deprecate\<close> returns calls
  itself without end: the function that is deprecated is never reached.
\<close>

theorem deprecate_without_process:
  "fst (call_deprecated n (p\<lparr>process_defined := False\<rparr>) msg fn Ask_again this args st) = Inl (Engine RangeError)"
proof (induction n arbitrary: st)
  case (Suc n)
  obtain warned out s where "st = (warned, out, s)" by (cases st)
  with Suc [of "(False, out, s)"] show ?case by (auto simp: deprecate_def split: prod.splits)
qed (simp add: raises_def)

section \<open>debuglog\<close>

text \<open>
  The names of sections are words of ASCII letters, digits and underscores. \<open>debugs\<close> has the
  sections that were asked for, with the switch of each; \<open>debugEnviron\<close> is read at the first use.
\<close>

definition upper_unit :: "unit16 \<Rightarrow> unit16" where
  "upper_unit c = (if 97 \<le> c \<and> c \<le> 122 then c - 32 else c)"

definition word_unit :: "unit16 \<Rightarrow> bool" where
  "word_unit c \<longleftrightarrow> letter_unit c \<or> is_digit c"

definition at_word_boundary :: "jstring \<Rightarrow> nat \<Rightarrow> bool" where
  "at_word_boundary s i \<longleftrightarrow>
     (0 < i \<and> i \<le> length s \<and> word_unit (s ! (i - 1))) \<noteq> (i < length s \<and> word_unit (s ! i))"

text \<open>\<open>new RegExp('\b' + set + '\b', 'i').test(s)\<close>\<close>

definition has_word :: "jstring \<Rightarrow> jstring \<Rightarrow> bool" where
  "has_word set_name s \<longleftrightarrow>
     list_ex (\<lambda>i. map upper_unit (take (length set_name) (drop i s)) = map upper_unit set_name \<and>
       at_word_boundary s i \<and> at_word_boundary s (i + length set_name)) [0..<Suc (length s - length set_name)]"

record debug_state =
  debugs :: "(jstring \<times> bool) list"
  debugEnviron :: "jstring option"

definition no_debugs :: debug_state where
  "no_debugs = \<lparr>debugs = [], debugEnviron = None\<rparr>"

text \<open>The function that is returned, as the name of its section and its switch.\<close>

definition debuglog :: "jstring option \<Rightarrow> jstring \<Rightarrow> debug_state \<Rightarrow> (jstring \<times> bool) \<times> debug_state" where
  "debuglog node_debug set_name st =
     (let env = (case debugEnviron st of Some e \<Rightarrow> e | None \<Rightarrow> (case node_debug of Some e \<Rightarrow> e | None \<Rightarrow> []));
          st = st\<lparr>debugEnviron := Some env\<rparr>;
          name = map upper_unit set_name
      in case map_of (debugs st) name of
           Some switch \<Rightarrow> ((name, switch), st)
         | None \<Rightarrow>
             let switch = has_word name env
             in ((name, switch), st\<lparr>debugs := debugs st @ [(name, switch)]\<rparr>))"

text \<open>A call of that function, with the number of the process; the line is formatted by the console.\<close>

definition debug_call :: "'s host \<Rightarrow> nat \<Rightarrow> int \<Rightarrow> jstring \<times> bool \<Rightarrow> jsval list \<Rightarrow> ('s, console_line list) prog" where
  "debug_call w n pid f args =
     (if \<not> snd f then yields []
      else and_do (format w n args)
        (\<lambda>msg. and_do (format w n [String (js ''%s %d: %s''), String (fst f), int_val pid, String msg])
          (\<lambda>line. yields [Error_line line])))"

definition debug_inv :: "debug_state \<Rightarrow> bool" where
  "debug_inv st \<longleftrightarrow> (debugs st \<noteq> [] \<longrightarrow> debugEnviron st \<noteq> None) \<and>
     (\<forall>(name, switch) \<in> set (debugs st). switch = has_word name (the (debugEnviron st)))"

lemma debuglog_inv: "debug_inv st \<Longrightarrow> debug_inv (snd (debuglog e name st))"
  by (cases "debugs st = []")
    (auto simp: debug_inv_def debuglog_def Let_def split: option.splits)

lemma debuglog_result:
  assumes "debug_inv st"
  shows "fst (debuglog e name st) = (map upper_unit name, has_word (map upper_unit name) (the (debugEnviron (snd (debuglog e name st)))))"
proof (cases "map_of (debugs st) (map upper_unit name)")
  case None
  then show ?thesis by (simp add: debuglog_def Let_def)
next
  case (Some switch)
  from map_of_SomeD [OF this] assms show ?thesis
    by (auto simp: debug_inv_def debuglog_def Let_def Some split: option.splits)
qed

section \<open>log\<close>

record date_parts =
  day_of :: int
  month_of :: nat
  hours_of :: int
  minutes_of :: int
  seconds_of :: int

definition pad_ut :: "int \<Rightarrow> jstring" where
  "pad_ut n = (if n < 10 then js ''0'' @ string_of_int n else string_of_int n)"

definition months :: "string list" where
  "months = [''Jan'', ''Feb'', ''Mar'', ''Apr'', ''May'', ''Jun'', ''Jul'', ''Aug'', ''Sep'', ''Oct'', ''Nov'', ''Dec'']"

definition timestamp :: "date_parts \<Rightarrow> jstring" where
  "timestamp d =
     join (js '' '')
       [string_of_int (day_of d), js (months ! month_of d),
        join (js '':'') [pad_ut (hours_of d), pad_ut (minutes_of d), pad_ut (seconds_of d)]]"

definition log_ut :: "'s host \<Rightarrow> nat \<Rightarrow> date_parts \<Rightarrow> jsval list \<Rightarrow> ('s, console_line) prog" where
  "log_ut w n d args =
     and_do (format w n args)
       (\<lambda>msg. and_do (format w n [String (js ''%s - %s''), String (timestamp d), String msg]) (\<lambda>line. yields (Log_line line)))"

text \<open>The time in a line of the log has a fixed width, and the line is the time and the message.\<close>

lemma length_pad: "0 \<le> n \<Longrightarrow> n < 100 \<Longrightarrow> length (pad_ut n) = 2"
proof -
  assume n: "0 \<le> n" "n < 100"
  then obtain k where k: "n = int k" "k < 100" by (metis nat_eq_iff2 nat_less_eq_zless of_nat_numeral zero_le_numeral)
  have "list_all (\<lambda>k. length (pad_ut (int k)) = 2) [0..<100]" by code_simp
  then have "\<forall>k < 100. length (pad_ut (int k)) = 2" by (simp add: list_all_iff)
  with k show ?thesis by simp
qed

theorem log_line:
  assumes "format w n args = yields msg"
  shows "log_ut w n d args = yields (Log_line (timestamp d @ js '' - '' @ msg))"
proof -
  have "format w n (String (join (js ''%s'') [[], js '' - '', []]) # map String [timestamp d, msg]) =
      yields (substituted [[], js '' - '', []] [timestamp d, msg])"
    by (rule format_pieces) (auto simp: js_def)
  then show ?thesis by (simp add: log_ut_def assms js_def)
qed

end
