(* ===== verification/Assertions.thy ===== *)
theory Assertions
  imports Util_Inspect Underscore_Objects
begin

text \<open>
  The module \<open>assert\<close> of \<open>wordcut.js\<close> (module 9): the error of a failed assertion with its message,
  the comparisons, and the assertions on exceptions.

  An assertion returns \<open>undefined\<close> or throws. Values are snapshots without cycles; \<open>_deepEqual\<close> has no
  test for cycles. The numbers \<open>n\<close> bound the frames of \<open>JSON.stringify\<close>.
\<close>

section \<open>The error of an assertion\<close>

definition isFinite_number :: "number \<Rightarrow> bool" where
  "isFinite_number x \<longleftrightarrow> (case x of Num _ \<Rightarrow> True | NegZero \<Rightarrow> True | _ \<Rightarrow> False)"

definition replacer :: "'s host \<Rightarrow> jstring \<Rightarrow> jsval \<Rightarrow> jsval" where
  "replacer w key value =
     (case value of
        Undefined \<Rightarrow> String (js ''undefined'')
      | Number x \<Rightarrow> if \<not> isFinite_number x then String (string_of_number x) else value
      | Function _ _ \<Rightarrow> String (to_text (world.truncate w) value)
      | RegExp _ _ \<Rightarrow> String (to_text (world.truncate w) value)
      | _ \<Rightarrow> value)"

definition truncate_text :: "jstring option \<Rightarrow> nat \<Rightarrow> jstring option" where
  "truncate_text s n = map_option (\<lambda>s. if length s < n then s else take n s) s"

text \<open>\<open>getMessage\<close>: what is not a string appears as \<open>undefined\<close>.\<close>

definition option_text :: "jstring option \<Rightarrow> jstring" where
  "option_text s = (case s of None \<Rightarrow> js ''undefined'' | Some s \<Rightarrow> s)"

definition getMessage :: "'s host \<Rightarrow> nat \<Rightarrow> jsval \<Rightarrow> jsval \<Rightarrow> jsval \<Rightarrow> ('s, jstring) prog" where
  "getMessage w n actual expected operator =
     and_do (stringify w (replacer w) n actual)
       (\<lambda>a. and_do (stringify w (replacer w) n expected)
         (\<lambda>e. yields (option_text (truncate_text a 128) @ js '' '' @ to_text (world.truncate w) operator @ js '' '' @
                      option_text (truncate_text e 128))))"

text \<open>The frames up to the function that the stack is to start from are cut off.\<close>

definition strip_frames :: "jstring \<Rightarrow> jstring \<Rightarrow> jstring" where
  "strip_frames out start_name =
     (let idx = indexOf out ([10] @ start_name) 0 in
      if idx \<ge> 0 then substring out (indexOf out [10] (idx + 1) + 1) (int (length out)) else out)"

text \<open>The stack is an own property only where the engine cannot capture it.\<close>

definition assertion_stack :: "'s host \<Rightarrow> jstring \<Rightarrow> (jstring \<times> jsval) list" where
  "assertion_stack w start_name =
     (if captures_stack w \<or> new_stack w = [] then [] else [(js ''stack'', String (strip_frames (new_stack w) start_name))])"

text \<open>The constructor of \<open>AssertionError\<close> is the function 1.\<close>

definition AssertionError ::
  "'s host \<Rightarrow> nat \<Rightarrow> jsval \<Rightarrow> jsval \<Rightarrow> jsval \<Rightarrow> jsval \<Rightarrow> jstring \<Rightarrow> ('s, jsval) prog" where
  "AssertionError w n actual expected message operator start_name =
     and_do (if truthy message then yields message
             else and_do (getMessage w n actual expected operator) (\<lambda>t. yields (String t)))
       (\<lambda>text. yields (Object 0 (Some 1)
         ([(js ''name'', String (js ''AssertionError'')), (js ''actual'', actual), (js ''expected'', expected),
           (js ''operator'', operator), (js ''message'', text),
           (js ''generatedMessage'', Boolean (\<not> truthy message))] @ assertion_stack w start_name) []))"

definition fail_with ::
  "'s host \<Rightarrow> nat \<Rightarrow> jsval \<Rightarrow> jsval \<Rightarrow> jsval \<Rightarrow> jsval \<Rightarrow> jstring \<Rightarrow> ('s, jsval) prog" where
  "fail_with w n actual expected message operator start_name =
     and_do (AssertionError w n actual expected message operator start_name) (\<lambda>e. raises (Throw e))"

section \<open>Comparisons\<close>

abbreviation op_val :: "string \<Rightarrow> jsval" where
  "op_val s \<equiv> String (js s)"

definition ok :: "'s host \<Rightarrow> nat \<Rightarrow> jsval \<Rightarrow> jsval \<Rightarrow> ('s, jsval) prog" where
  "ok w n value message =
     (if \<not> truthy value then fail_with w n value (Boolean True) message (op_val ''=='') (js ''ok'') else yields Undefined)"

definition equal_as :: "'s host \<Rightarrow> nat \<Rightarrow> jsval \<Rightarrow> jsval \<Rightarrow> jsval \<Rightarrow> ('s, jsval) prog" where
  "equal_as w n actual expected message =
     (if \<not> loose_eq w actual expected then fail_with w n actual expected message (op_val ''=='') (js ''equal'')
      else yields Undefined)"

definition notEqual :: "'s host \<Rightarrow> nat \<Rightarrow> jsval \<Rightarrow> jsval \<Rightarrow> jsval \<Rightarrow> ('s, jsval) prog" where
  "notEqual w n actual expected message =
     (if loose_eq w actual expected then fail_with w n actual expected message (op_val ''!='') (js ''notEqual'')
      else yields Undefined)"

definition strictEqual :: "'s host \<Rightarrow> nat \<Rightarrow> jsval \<Rightarrow> jsval \<Rightarrow> jsval \<Rightarrow> ('s, jsval) prog" where
  "strictEqual w n actual expected message =
     (if \<not> strict_eq actual expected then fail_with w n actual expected message (op_val ''==='') (js ''strictEqual'')
      else yields Undefined)"

definition notStrictEqual :: "'s host \<Rightarrow> nat \<Rightarrow> jsval \<Rightarrow> jsval \<Rightarrow> jsval \<Rightarrow> ('s, jsval) prog" where
  "notStrictEqual w n actual expected message =
     (if strict_eq actual expected then fail_with w n actual expected message (op_val ''!=='') (js ''notStrictEqual'')
      else yields Undefined)"

section \<open>Deep comparison\<close>

definition isArguments_as :: "jsval \<Rightarrow> bool" where
  "isArguments_as v \<longleftrightarrow> class_name v = ''Arguments''"

text \<open>The property \<open>prototype\<close> of a value.\<close>

definition prototype_val :: "'s host \<Rightarrow> jsval \<Rightarrow> jsval" where
  "prototype_val w v = (case v of Function i _ \<Rightarrow> prototype_of w i | _ \<Rightarrow> get v (js ''prototype''))"

definition same_prototype :: "'s host \<Rightarrow> jsval \<Rightarrow> jsval \<Rightarrow> bool" where
  "same_prototype w a b \<longleftrightarrow> strict_eq (prototype_val w a) (prototype_val w b)"

text \<open>The loop over the bytes of two buffers.\<close>

definition buffer_length :: "'s host \<Rightarrow> jsval \<Rightarrow> nat" where
  "buffer_length w v = (case to_number (world.truncate w) (get v (js ''length'')) of Num n \<Rightarrow> nat n | _ \<Rightarrow> 0)"

definition same_bytes :: "'s host \<Rightarrow> jsval \<Rightarrow> jsval \<Rightarrow> bool" where
  "same_bytes w a b \<longleftrightarrow> loose_eq w (get a (js ''length'')) (get b (js ''length'')) \<and>
     list_all (\<lambda>i. strict_eq (get_index a i) (get_index b i)) [0..<buffer_length w a]"

definition same_regexp :: "'s host \<Rightarrow> jsval \<Rightarrow> jsval \<Rightarrow> bool" where
  "same_regexp w a b \<longleftrightarrow>
     (case (a, b) of
        (RegExp i _, RegExp j _) \<Rightarrow>
          re_source (regexp_of w i) = re_source (regexp_of w j) \<and> re_global (regexp_of w i) = re_global (regexp_of w j) \<and>
          re_multiline (regexp_of w i) = re_multiline (regexp_of w j) \<and>
          strict_eq (re_lastIndex (regexp_of w i)) (re_lastIndex (regexp_of w j)) \<and>
          re_ignoreCase (regexp_of w i) = re_ignoreCase (regexp_of w j)
      | _ \<Rightarrow> False)"

text \<open>What \<open>_deepEqual\<close> decides before it compares objects by their properties.\<close>

definition deep_whole :: "'s host \<Rightarrow> jsval \<Rightarrow> jsval \<Rightarrow> bool option" where
  "deep_whole w actual expected =
     (if strict_eq actual expected then Some True
      else if isBuffer actual \<and> isBuffer expected then Some (same_bytes w actual expected)
      else if isDate_ut actual \<and> isDate_ut expected then
        Some (case (actual, expected) of (Date _ x, Date _ y) \<Rightarrow> num_eq x y | _ \<Rightarrow> False)
      else if isRegExp_ut actual \<and> isRegExp_ut expected then Some (same_regexp w actual expected)
      else if \<not> isObject_ut actual \<and> \<not> isObject_ut expected then Some (loose_eq w actual expected)
      else None)"

text \<open>
  The first part of \<open>objEquiv\<close>, up to the arguments objects, and its tests of the keys. The arrays
  made of two arguments objects are new, and different.
\<close>

definition equiv_whole :: "'s host \<Rightarrow> jsval \<Rightarrow> jsval \<Rightarrow> bool option" where
  "equiv_whole w a b =
     (if isNullOrUndefined_ut a \<or> isNullOrUndefined_ut b then Some False
      else if \<not> same_prototype w a b then Some False
      else if isPrimitive_ut a \<or> isPrimitive_ut b then Some (strict_eq a b)
      else if isArguments_as a \<noteq> isArguments_as b then Some False
      else None)"

definition same_keys :: "jsval \<Rightarrow> jsval \<Rightarrow> bool" where
  "same_keys a b \<longleftrightarrow> length (own_keys a) = length (own_keys b) \<and>
     list_all (\<lambda>p. fst p = snd p) (rev (zip (sort (own_keys a)) (sort (own_keys b))))"

lemma size_own_key:
  assumes "key \<in> set (own_keys a)"
  shows "size (get a key) < size a"
proof (cases "isArray a")
  case True
  then obtain i xs where a: "a = Array i xs" by (auto simp: isArray_def split: jsval.splits)
  with assms obtain n where n: "n < length xs" "key = string_of_int (int n)" by auto
  have "size (nth_val xs k) < size (Array i xs)" for k
    using size_elem(1) [of "xs ! k" xs i] by (auto simp: nth_val_def)
  then show ?thesis using a n length_not_int [of "int n"] by (auto simp: list_prop_def)
next
  case False
  from assms have "isObject a" by (cases a) (auto simp: isObject_def)
  with False assms show ?thesis by (intro size_get) (auto simp: keys_def)
qed

function deepEqual_values :: "'s host \<Rightarrow> jsval \<Rightarrow> jsval \<Rightarrow> bool"
  and objEquiv :: "'s host \<Rightarrow> jsval \<Rightarrow> jsval \<Rightarrow> bool"
where
  "deepEqual_values w actual expected =
     (case deep_whole w actual expected of Some r \<Rightarrow> r | None \<Rightarrow> objEquiv w actual expected)"
| "objEquiv w a b =
     (case equiv_whole w a b of
        Some r \<Rightarrow> r
      | None \<Rightarrow>
          if isArguments_as a then deepEqual_values w (Array 0 (elems a)) (Array 1 (elems b))
          else same_keys a b \<and>
            list_all (\<lambda>key. deepEqual_values w (get a key) (get b key)) (rev (sort (own_keys a))))"
  by pat_completeness auto

termination
proof (relation "measure (\<lambda>x. case x of Inl (w, a, b) \<Rightarrow> 4 * size a + (if isArguments_as a then 3 else 1) + 1
    | Inr (w, a, b) \<Rightarrow> 4 * size a + (if isArguments_as a then 3 else 1))")
  fix w :: "'s host" and a b :: jsval
  assume "isArguments_as a"
  then obtain i xs where "a = Arguments i xs" by (cases a) (auto simp: isArguments_as_def)
  then show "(Inl (w, Array 0 (elems a), Array 1 (elems b)), Inr (w, a, b)) \<in>
    measure (\<lambda>x. case x of Inl (w, a, b) \<Rightarrow> 4 * size a + (if isArguments_as a then 3 else 1) + 1
      | Inr (w, a, b) \<Rightarrow> 4 * size a + (if isArguments_as a then 3 else 1))"
    by (simp add: isArguments_as_def)
next
  fix w :: "'s host" and a b :: jsval and key
  assume "key \<in> set (rev (sort (own_keys a)))"
  then have "size (get a key) < size a" by (simp add: size_own_key)
  then show "(Inl (w, get a key, get b key), Inr (w, a, b)) \<in>
    measure (\<lambda>x. case x of Inl (w, a, b) \<Rightarrow> 4 * size a + (if isArguments_as a then 3 else 1) + 1
      | Inr (w, a, b) \<Rightarrow> 4 * size a + (if isArguments_as a then 3 else 1))"
    by simp
qed auto

declare deepEqual_values.simps [simp del] objEquiv.simps [simp del]

definition deepEqual :: "'s host \<Rightarrow> nat \<Rightarrow> jsval \<Rightarrow> jsval \<Rightarrow> jsval \<Rightarrow> ('s, jsval) prog" where
  "deepEqual w n actual expected message =
     (if \<not> deepEqual_values w actual expected
      then fail_with w n actual expected message (op_val ''deepEqual'') (js ''deepEqual'')
      else yields Undefined)"

definition notDeepEqual :: "'s host \<Rightarrow> nat \<Rightarrow> jsval \<Rightarrow> jsval \<Rightarrow> jsval \<Rightarrow> ('s, jsval) prog" where
  "notDeepEqual w n actual expected message =
     (if deepEqual_values w actual expected
      then fail_with w n actual expected message (op_val ''notDeepEqual'') (js ''notDeepEqual'')
      else yields Undefined)"

section \<open>Exceptions\<close>

text \<open>\<open>actual instanceof expected\<close>: a type error when \<open>expected\<close> is no function.\<close>

definition instance_test :: "'s host \<Rightarrow> jsval \<Rightarrow> jsval \<Rightarrow> ('s, bool) prog" where
  "instance_test w v f = (case f of Function i _ \<Rightarrow> yields (instance_of w v i) | _ \<Rightarrow> raises (Engine TypeError))"

definition expectedException :: "'s host \<Rightarrow> jsval \<Rightarrow> jsval \<Rightarrow> ('s, bool) prog" where
  "expectedException w actual expected =
     (if \<not> truthy actual \<or> \<not> truthy expected then yields False
      else case expected of
        RegExp i _ \<Rightarrow> re_test w i actual
      | _ \<Rightarrow>
          and_do (instance_test w actual expected)
            (\<lambda>b. if b then yields True
              else and_do (apply_val (world.truncate w) expected empty_object [actual]) (\<lambda>r. yields (strict_eq r (Boolean True)))))"

text \<open>The value that a \<open>catch\<close> clause sees.\<close>

definition caught :: "'s host \<Rightarrow> thrown \<Rightarrow> jsval" where
  "caught w e = (case e of Throw v \<Rightarrow> v | Engine err \<Rightarrow> engine_value w err)"

definition run_block :: "'s host \<Rightarrow> ('s, jsval) prog \<Rightarrow> ('s, jsval) prog" where
  "run_block w block s = (case block s of (Inl e, s') \<Rightarrow> (Inr (caught w e), s') | (Inr _, s') \<Rightarrow> (Inr Undefined, s'))"

definition throws_message :: "'s host \<Rightarrow> jsval \<Rightarrow> jsval \<Rightarrow> jstring" where
  "throws_message w expected message =
     (let name = (case expected of Function i _ \<Rightarrow> String (fn_name w i) | _ \<Rightarrow> get expected (js ''name''))
      in (if truthy expected \<and> truthy name then js '' ('' @ to_text (world.truncate w) name @ js '').'' else js ''.'') @
         (if truthy message then js '' '' @ to_text (world.truncate w) message else js ''.''))"

definition throws_with ::
  "'s host \<Rightarrow> nat \<Rightarrow> bool \<Rightarrow> ('s, jsval) prog \<Rightarrow> jsval \<Rightarrow> jsval \<Rightarrow> ('s, jsval) prog" where
  "throws_with w n shouldThrow block expected message =
     (let message = (if isString_ut expected then expected else message);
          expected = (if isString_ut expected then Null else expected)
      in
      and_do (run_block w block) (\<lambda>actual.
        let text = throws_message w expected message in
        and_do
          (if shouldThrow \<and> \<not> truthy actual
           then fail_with w n actual expected (String (js ''Missing expected exception'' @ text)) Undefined (js ''fail'')
           else yields Undefined)
          (\<lambda>_. and_do
            (if \<not> shouldThrow then expectedException w actual expected else yields False)
            (\<lambda>unwanted. and_do
              (if unwanted
               then fail_with w n actual expected (String (js ''Got unwanted exception'' @ text)) Undefined (js ''fail'')
               else yields Undefined)
              (\<lambda>_. and_do
                (if shouldThrow \<and> truthy actual \<and> truthy expected
                 then and_do (expectedException w actual expected) (\<lambda>b. yields (\<not> b))
                 else yields False)
                (\<lambda>wrong. if wrong \<or> \<not> shouldThrow \<and> truthy actual then raises (Throw actual) else yields Undefined))))))"

definition throws :: "'s host \<Rightarrow> nat \<Rightarrow> ('s, jsval) prog \<Rightarrow> jsval \<Rightarrow> jsval \<Rightarrow> ('s, jsval) prog" where
  "throws w n block error message = throws_with w n True block error message"

definition doesNotThrow :: "'s host \<Rightarrow> nat \<Rightarrow> ('s, jsval) prog \<Rightarrow> jsval \<Rightarrow> jsval \<Rightarrow> ('s, jsval) prog" where
  "doesNotThrow w n block error message = throws_with w n False block error message"

definition ifError :: "jsval \<Rightarrow> ('s, jsval) prog" where
  "ifError err = (if truthy err then raises (Throw err) else yields Undefined)"

section \<open>What assertions decide\<close>

text \<open>A failed assertion throws, whether or not the message can be made.\<close>

definition passes :: "('s, jsval) prog \<Rightarrow> 's \<Rightarrow> bool" where
  "passes m s \<longleftrightarrow> fst (m s) = Inr Undefined"

lemma passes_yields [simp]: "passes (yields Undefined) s"
  by (simp add: passes_def yields_def)

lemma passes_raises [simp]: "\<not> passes (raises e) s"
  by (simp add: passes_def raises_def)

lemma fail_with_throws: "\<exists>e s'. fail_with w n actual expected message operator start s = (Inl e, s')"
  by (cases "AssertionError w n actual expected message operator start s"; cases "fst (AssertionError w n actual expected message operator start s)")
    (auto simp: fail_with_def and_do_def raises_def)

lemma fail_with_no_result [simp]: "fst (fail_with w n actual expected message operator start s) \<noteq> Inr x"
  using fail_with_throws [of w n actual expected message operator start s] by auto

lemma passes_fail [simp]: "\<not> passes (fail_with w n actual expected message operator start) s"
  using fail_with_throws [of w n actual expected message operator start s] by (auto simp: passes_def)

lemma passes_and_do:
  "passes (and_do m f) s \<longleftrightarrow> (\<exists>x s'. m s = (Inr x, s') \<and> passes (f x) s')"
proof (cases "m s")
  case (Pair r s1)
  then show ?thesis by (cases r) (simp_all add: passes_def and_do_def)
qed

lemma passes_if: "passes (if P then m else m') s \<longleftrightarrow> (if P then passes m s else passes m' s)"
  by simp

lemma assertion_passes:
  "passes (ok w n v message) s \<longleftrightarrow> truthy v"
  "passes (equal_as w n a b message) s \<longleftrightarrow> loose_eq w a b"
  "passes (notEqual w n a b message) s \<longleftrightarrow> \<not> loose_eq w a b"
  "passes (strictEqual w n a b message) s \<longleftrightarrow> strict_eq a b"
  "passes (notStrictEqual w n a b message) s \<longleftrightarrow> \<not> strict_eq a b"
  "passes (deepEqual w n a b message) s \<longleftrightarrow> deepEqual_values w a b"
  "passes (notDeepEqual w n a b message) s \<longleftrightarrow> \<not> deepEqual_values w a b"
  "passes (ifError v) s \<longleftrightarrow> \<not> truthy v"
  by (simp_all add: ok_def equal_as_def notEqual_def strictEqual_def notStrictEqual_def deepEqual_def
      notDeepEqual_def ifError_def passes_if)

lemma loose_eq_true: "loose_eq w (Boolean True) (Boolean b) \<longleftrightarrow> b"
  by (cases b) (simp_all add: loose_eq_def loose_primitive_def is_nil_def num_eq_def)

text \<open>The assertions come in pairs: of each pair exactly one passes.
  \<open>ok\<close> is \<open>equal\<close> to \<open>true\<close> of the truth value, and the opposite of \<open>ifError\<close>.\<close>

theorem assertion_pairs:
  fixes w :: "'s host"
  shows "passes (equal_as w n actual expected message) s \<noteq> passes (notEqual w n actual expected message) s \<and>
   passes (strictEqual w n actual expected message) s \<noteq> passes (notStrictEqual w n actual expected message) s \<and>
   passes (deepEqual w n actual expected message) s \<noteq> passes (notDeepEqual w n actual expected message) s \<and>
   passes (ok w n actual message) s = passes (equal_as w n (Boolean True) (Boolean (truthy actual)) message) s \<and>
   passes (ok w n actual message) s \<noteq> passes (ifError actual :: ('s, jsval) prog) s"
  by (simp add: assertion_passes loose_eq_true)

text \<open>What the block has thrown, as the assertions see it.\<close>

lemma run_block_cases:
  "run_block w block s =
     (case fst (block s) of Inl e \<Rightarrow> (Inr (caught w e), snd (block s)) | Inr _ \<Rightarrow> (Inr Undefined, snd (block s)))"
  by (cases "block s") (auto simp: run_block_def split: sum.splits)

definition thrown_value :: "'s host \<Rightarrow> ('s, jsval) prog \<Rightarrow> 's \<Rightarrow> jsval" where
  "thrown_value w block s = (case fst (block s) of Inl e \<Rightarrow> caught w e | Inr _ \<Rightarrow> Undefined)"

lemma run_block_value: "run_block w block s = (Inr (thrown_value w block s), snd (block s))"
  by (simp add: run_block_cases thrown_value_def split: sum.splits)

lemma throws_with_run:
  "throws_with w n should block expected message s =
     (let message = (if isString_ut expected then expected else message);
          expected = (if isString_ut expected then Null else expected);
          actual = thrown_value w block s; text = throws_message w expected message;
          missing = fail_with w n actual expected (String (js ''Missing expected exception'' @ text)) Undefined (js ''fail'');
          unwanted = fail_with w n actual expected (String (js ''Got unwanted exception'' @ text)) Undefined (js ''fail'')
      in (if should then
            (if \<not> truthy actual then missing
             else if truthy expected then
               and_do (expectedException w actual expected) (\<lambda>b. if \<not> b then raises (Throw actual) else yields Undefined)
             else yields Undefined)
          else
            and_do (expectedException w actual expected)
              (\<lambda>b. if b then unwanted else if truthy actual then raises (Throw actual) else yields Undefined))
         (snd (block s)))"
proof -
  have fails: "and_do (fail_with w n a e m p t) f = fail_with w n a e m p t" for a e m p t f
    by (simp add: fail_with_def and_do_assoc)
  have if_do: "and_do (if P then m else m') f = (if P then and_do m f else and_do m' f)" for P m m' and f :: "jsval \<Rightarrow> ('a, jsval) prog"
    by simp
  have if_do_bool: "and_do (if P then m else m') f = (if P then and_do m f else and_do m' f)" for P m m' and f :: "bool \<Rightarrow> ('a, jsval) prog"
    by simp
  show ?thesis
    unfolding throws_with_def Let_def
    by (simp add: and_do_def [of "run_block w block"] run_block_value if_do if_do_bool fails and_do_assoc
        if_distrib [of "\<lambda>b. and_do b f" for f] cong: if_cong)
qed

text \<open>
  C25: \<open>throws\<close> and \<open>doesNotThrow\<close> without an expected error: a block that returns, or that throws a value
  that is not true, counts as one that does not throw; of the two assertions exactly one passes.
\<close>

theorem throws_decides:
  assumes "\<not> truthy error \<or> isString_ut error"
  shows "(passes (throws w n block error message) s \<longleftrightarrow> truthy (thrown_value w block s)) \<and>
    (passes (doesNotThrow w n block error message) s \<longleftrightarrow> \<not> truthy (thrown_value w block s)) \<and>
    (truthy (thrown_value w block s) \<longrightarrow>
       fst (doesNotThrow w n block error message s) = Inl (Throw (thrown_value w block s)))"
proof -
  let ?e = "if isString_ut error then Null else error"
  have "\<not> truthy ?e" using assms by auto
  then show ?thesis
    by (auto simp: throws_def doesNotThrow_def throws_with_run Let_def expectedException_def passes_def raises_def yields_def
        simp del: util_kinds)
qed

theorem throws_decides_witness:
  "\<not> passes (throws unit_host 3 (yields Null) Undefined Undefined) () \<and>
   passes (doesNotThrow unit_host 3 (raises (Throw (int_val 0))) Undefined Undefined) ()"
  using throws_decides [of Undefined unit_host 3 "yields Null" Undefined "()"]
    throws_decides [of Undefined unit_host 3 "raises (Throw (int_val 0))" Undefined "()"]
  by (simp add: thrown_value_def yields_def raises_def caught_def)

section \<open>Two deep comparisons\<close>

text \<open>
  Values that \<open>_deepEqual\<close> treats as the collection library does: no \<open>NaN\<close>, no regular expressions
  and buffers, and no property \<open>prototype\<close> but that of functions.
\<close>

definition ordinary :: "'s host \<Rightarrow> jsval \<Rightarrow> bool" where
  "ordinary w v \<longleftrightarrow> v \<noteq> Number NaN \<and> \<not> isBuffer v \<and>
     (case v of RegExp _ _ \<Rightarrow> False | Function _ _ \<Rightarrow> True | _ \<Rightarrow> prototype_val w v = Undefined)"

lemma deepEqual_leaf:
  assumes "shape a = shape b" "ordinary w a" "\<not> isArray a" "\<not> (\<exists>i c own inh. a = Object i c own inh)" "plain a" "plain b"
  shows "deepEqual_values w a b"
proof (cases "strict_eq a b")
  case True
  then show ?thesis by (simp add: deepEqual_values.simps [of w a b] deep_whole_def)
next
  case False
  with assms have "\<exists>i x j y. a = Date i x \<and> b = Date j y \<and> num_eq x y"
    by (cases a; cases b)
      (auto simp: ordinary_def isArray_def num_eq_def plain_Arguments split: if_splits)
  with False show ?thesis
    by (auto simp: deepEqual_values.simps [of w a b] deep_whole_def isBuffer_def isDate_ut_def isObject_ut_def)
qed

lemma deepEqual_members:
  assumes "\<not> strict_eq a b" "ordinary w a" "ordinary w b"
    and "(\<exists>i xs j ys. a = Array i xs \<and> b = Array j ys) \<or> (\<exists>i c own inh j d own' inh'. a = Object i c own inh \<and> b = Object j d own' inh')"
  shows "deepEqual_values w a b \<longleftrightarrow> same_keys a b \<and> (\<forall>key \<in> set (own_keys a). deepEqual_values w (get a key) (get b key))"
proof -
  have "deep_whole w a b = None"
    using assms by (auto simp: deep_whole_def ordinary_def isDate_ut_def isRegExp_ut_def isObject_ut_def)
  moreover have "prototype_val w a = Undefined" "prototype_val w b = Undefined"
    using assms(2-4) unfolding ordinary_def by auto
  then have "equiv_whole w a b = None"
    using assms(4) by (auto simp: equiv_whole_def same_prototype_def isArguments_as_def)
  moreover have "\<not> isArguments_as a" using assms(4) by (auto simp: isArguments_as_def)
  ultimately show ?thesis
    by (simp add: deepEqual_values.simps [of w a b] objEquiv.simps [of w a b] list_all_iff)
qed

lemma same_keys_sorted: "sort (own_keys a) = sort (own_keys b) \<Longrightarrow> same_keys a b"
  unfolding same_keys_def list_all_iff by (metis fst_conv in_set_zip length_sort set_rev snd_conv)

lemma deepEqual_shape:
  assumes S: "coherent S" "\<And>v. v \<in> S \<Longrightarrow> ordinary w v"
  shows "a \<in> S \<Longrightarrow> b \<in> S \<Longrightarrow> plain a \<Longrightarrow> plain b \<Longrightarrow> shape a = shape b \<Longrightarrow> deepEqual_values w a b"
proof (induction "size a" arbitrary: a b rule: less_induct)
  case less
  show ?case
  proof (cases "strict_eq a b")
    case True
    then show ?thesis by (simp add: deepEqual_values.simps [of w a b] deep_whole_def)
  next
    case False
    consider (array) i xs where "a = Array i xs" | (object) i c own inh where "a = Object i c own inh"
      | (leaf) "\<not> isArray a" "\<not> (\<exists>i c own inh. a = Object i c own inh)"
      by (cases a) (auto simp: isArray_def)
    then show ?thesis
    proof cases
      case array
      with less.prems(4,5) obtain j ys where b: "b = Array j ys" "map shape xs = map shape ys"
        by (cases b) (auto simp: plain_Arguments split: if_splits)
      then have len: "length xs = length ys" by (metis length_map)
      have "deepEqual_values w (get a key) (get b key)" if key: "key \<in> set (own_keys a)" for key
      proof -
        from key array obtain n where n: "n < length xs" "key = string_of_int (int n)" by auto
        have elem: "get (Array k zs) key = (if is_array_index key then nth_val zs n else Undefined)" for k zs
          using n(2) length_not_int int_of_string_of_int [of "int n"] by (simp add: list_prop_def)
        show ?thesis
        proof (cases "is_array_index key")
          case True
          have in_S: "xs ! n \<in> S" "ys ! n \<in> S"
            using coherent_item [OF S(1)] less.prems(1,2) array b(1) n(1) len by auto
          moreover have "plain (xs ! n)" "plain (ys ! n)"
            using less.prems(3,4) array b(1) n(1) len by (auto simp: plain_Array)
          moreover have "shape (xs ! n) = shape (ys ! n)" using b(2) n(1) len by (metis nth_map)
          moreover have "size (xs ! n) < size a" using size_elem(1) [of "xs ! n" xs i] n(1) array by simp
          ultimately have "deepEqual_values w (xs ! n) (ys ! n)" using less.hyps by blast
          then show ?thesis using True n(1) len array b(1) elem by (simp add: nth_val_def del: get.simps)
        next
          case False
          then show ?thesis
            using array b(1) elem by (simp add: deepEqual_values.simps [of w Undefined] deep_whole_def del: get.simps)
        qed
      qed
      moreover have "same_keys a b" using array b(1) len by (intro same_keys_sorted) simp
      ultimately show ?thesis
        using deepEqual_members [OF False S(2) S(2)] less.prems(1,2) array b(1) by blast
    next
      case object
      with less.prems(4,5) obtain j own' inh' where b: "b = Object j c own' inh'"
        and maps: "map_option shape \<circ> map_of own = map_option shape \<circ> map_of own'"
        by (cases b) (auto simp: plain_Arguments split: if_splits)
      have dist: "distinct (map fst own)" "distinct (map fst own')"
        using less.prems(3,4) object b by (auto simp: plain_Object)
      have maps': "map_option shape (map_of own k) = map_option shape (map_of own' k)" for k
        using fun_cong [OF maps, of k] by simp
      then have "map_of own k = None \<longleftrightarrow> map_of own' k = None" for k by (metis option.map_disc_iff)
      then have keys: "fst ` set own = fst ` set own'" by (auto simp: map_of_eq_None_iff)
      have "sort (own_keys a) = sort (own_keys b)"
        by (rule sorted_distinct_set_unique) (use object b dist keys in simp_all)
      then have "same_keys a b" by (rule same_keys_sorted)
      moreover have "deepEqual_values w (get a key) (get b key)" if key: "key \<in> set (own_keys a)" for key
      proof -
        from key object have "key \<in> fst ` set own" by simp
        with keys obtain x y where xy: "map_of own key = Some x" "map_of own' key = Some y"
          by (metis map_of_eq_None_iff not_None_eq)
        then have mem: "(key, x) \<in> set own" "(key, y) \<in> set own'" by (auto dest: map_of_SomeD)
        have "x \<in> S" "y \<in> S" using coherent_prop [OF S(1)] less.prems(1,2) object b mem by blast+
        moreover have "plain x" "plain y" using less.prems(3,4) object b mem by (auto simp: plain_Object)
        moreover have "shape x = shape y" using maps' [of key] xy by simp
        moreover have "size x < size a" using size_prop [OF mem(1)] object by simp
        ultimately have "deepEqual_values w x y" using less.hyps by blast
        then show ?thesis using xy object b by simp
      qed
      ultimately show ?thesis
        using deepEqual_members [OF False S(2) S(2)] less.prems(1,2) object b by blast
    next
      case leaf
      then show ?thesis using deepEqual_leaf [OF less.prems(5) S(2) leaf] less.prems by blast
    qed
  qed
qed



text \<open>An array and an object with the same keys are deeply equal for \<open>assert\<close>, and so are \<open>1\<close> and \<open>'1'\<close>.\<close>

lemma deepEqual_coarser:
  "deepEqual_values (unit_host\<lparr>number_of := \<lambda>v. Num 1\<rparr>) (Array 1 [int_val 1]) (Object 2 (Some 0) [(js ''0'', String (js ''1''))] []) \<and>
   \<not> isEqual (Array 1 [int_val 1]) (Object 2 (Some 0) [(js ''0'', String (js ''1''))] [])"
  by code_simp

section \<open>The message\<close>

text \<open>A generated message has at most 128 units of each of the two values.\<close>

theorem message_bound:
  assumes "fst (getMessage w n actual expected (String operator) s) = Inr text"
  shows "length text \<le> length operator + 258"
proof -
  have "length (option_text (truncate_text a 128)) \<le> 128" for a
    by (cases a) (simp_all add: truncate_text_def option_text_def js_def)
  from this add_mono [OF this this] show ?thesis using assms
    by (fastforce simp: getMessage_def and_do_def yields_def js_def split: prod.splits sum.splits)
qed

end
