(* ===== verification/Inflight.thy ===== *)
theory Inflight
  imports Js_Values
begin

text \<open>
  The module \<open>inflight\<close> of \<open>wordcut.js\<close> (module 18): requests that are made again while the first one
  of their key is under way share its answer.

  A callback makes further requests, in order, and may then throw: \<open>script\<close> says which. The state has
  the waiting callbacks of each key, the functions that \<open>makeres\<close> has made, the calls that wait for
  the next tick, and a record of what was requested and of what was called. The callbacks are the
  wrapped ones; the function that \<open>makeres\<close> makes is guarded by \<open>once\<close>.
\<close>

section \<open>Requests and answers\<close>

record 'c flights =
  reqs :: "jstring \<Rightarrow> 'c list option"
  res_functions :: "jstring list"
  res_called :: "nat list"
  pending_ticks :: "(jstring \<times> jsval list) list"
  requested :: "(jstring \<times> 'c) list"
  answered :: "(jstring \<times> 'c) list"

type_synonym 'c script = "'c \<Rightarrow> jsval list \<Rightarrow> (jstring \<times> 'c) list \<times> jsval option"

definition no_flights :: "'c flights" where
  "no_flights = \<lparr>reqs = \<lambda>k. None, res_functions = [], res_called = [], pending_ticks = [], requested = [], answered = []\<rparr>"

text \<open>\<open>makeres\<close>: the number of a new function for the key.\<close>

definition makeres :: "jstring \<Rightarrow> 'c flights \<Rightarrow> nat \<times> 'c flights" where
  "makeres key st = (length (res_functions st), st\<lparr>res_functions := res_functions st @ [key]\<rparr>)"

text \<open>
  The request itself. The callbacks that a pass calls later may request again and may throw; they
  do not call a function made by \<open>makeres\<close> themselves, which in the program answers requests only
  from a later event.
\<close>

definition inflight :: "jstring \<Rightarrow> 'c \<Rightarrow> 'c flights \<Rightarrow> nat option \<times> 'c flights" where
  "inflight key cb st =
     (let st = st\<lparr>requested := requested st @ [(key, cb)]\<rparr> in
      case reqs st key of
        Some cbs \<Rightarrow> (None, st\<lparr>reqs := (reqs st)(key \<mapsto> cbs @ [cb])\<rparr>)
      | None \<Rightarrow> (case makeres key (st\<lparr>reqs := (reqs st)(key \<mapsto> [cb])\<rparr>) of (f, st) \<Rightarrow> (Some f, st)))"

definition request :: "jstring \<times> 'c \<Rightarrow> 'c flights \<Rightarrow> 'c flights" where
  "request r st = snd (inflight (fst r) (snd r) st)"

text \<open>The call of a callback, and the loop over the callbacks that wait when the answer comes.\<close>

definition run_callback :: "'c script \<Rightarrow> jstring \<Rightarrow> jsval list \<Rightarrow> 'c \<Rightarrow> ('c flights, unit) prog" where
  "run_callback script key args cb st =
     (let st = fold request (fst (script cb args)) (st\<lparr>answered := answered st @ [(key, cb)]\<rparr>)
      in case snd (script cb args) of None \<Rightarrow> (Inr (), st) | Some e \<Rightarrow> (Inl (Throw e), st))"

definition waiting :: "'c flights \<Rightarrow> jstring \<Rightarrow> 'c list" where
  "waiting st key = (case reqs st key of None \<Rightarrow> [] | Some cbs \<Rightarrow> cbs)"

definition answer_pass :: "'c script \<Rightarrow> jstring \<Rightarrow> jsval list \<Rightarrow> nat list \<Rightarrow> ('c flights, unit) prog" where
  "answer_pass script key args = run_each (\<lambda>i st. run_callback script key args (waiting st key ! i) st)"

text \<open>The \<open>finally\<close> clause: callbacks that were added during the pass are called at the next tick.\<close>

definition settle :: "jstring \<Rightarrow> jsval list \<Rightarrow> nat \<Rightarrow> 'c flights \<Rightarrow> 'c flights" where
  "settle key args len st =
     (if length (waiting st key) > len
      then st\<lparr>reqs := (reqs st)(key \<mapsto> drop len (waiting st key)), pending_ticks := pending_ticks st @ [(key, args)]\<rparr>
      else st\<lparr>reqs := (reqs st)(key := None)\<rparr>)"

definition RES :: "'c script \<Rightarrow> jstring \<Rightarrow> jsval list \<Rightarrow> ('c flights, unit) prog" where
  "RES script key args st =
     (case reqs st key of
        None \<Rightarrow> (Inl (Engine TypeError), st)
      | Some cbs \<Rightarrow>
          (case answer_pass script key args [0..<length cbs] st of
             (r, st) \<Rightarrow> (r, settle key args (length cbs) st)))"

definition call_res :: "'c script \<Rightarrow> nat \<Rightarrow> jsval list \<Rightarrow> ('c flights, unit) prog" where
  "call_res script f args st =
     (if f \<in> set (res_called st) \<or> f \<ge> length (res_functions st) then (Inr (), st)
      else RES script (res_functions st ! f) args (st\<lparr>res_called := res_called st @ [f]\<rparr>))"

text \<open>The client makes a request, the answer comes, or the first waiting tick runs.\<close>

datatype 'c flight_event = Request jstring 'c | Answer nat "jsval list" | Tick

definition flight_step :: "'c script \<Rightarrow> 'c flight_event \<Rightarrow> 'c flights \<Rightarrow> 'c flights" where
  "flight_step script ev st =
     (case ev of
        Request key cb \<Rightarrow> request (key, cb) st
      | Answer f args \<Rightarrow> snd (call_res script f args st)
      | Tick \<Rightarrow>
          (case pending_ticks st of
             [] \<Rightarrow> st
           | (key, args) # ts \<Rightarrow> snd (RES script key args (st\<lparr>pending_ticks := ts\<rparr>))))"

section \<open>One request of a key is under way\<close>

text \<open>The functions of a key that were not called, and its calls that wait for the next tick.\<close>

definition open_functions :: "'c flights \<Rightarrow> jstring \<Rightarrow> nat list" where
  "open_functions st key =
     filter (\<lambda>f. res_functions st ! f = key \<and> f \<notin> set (res_called st)) [0..<length (res_functions st)]"

definition under_way :: "'c flights \<Rightarrow> jstring \<Rightarrow> nat" where
  "under_way st key = length (open_functions st key) + length (filter (\<lambda>t. fst t = key) (pending_ticks st))"

text \<open>The keys in \<open>K\<close> are being answered.\<close>

definition single_flight :: "jstring set \<Rightarrow> 'c flights \<Rightarrow> bool" where
  "single_flight K st \<longleftrightarrow> (\<forall>f \<in> set (res_called st). f < length (res_functions st)) \<and>
     (\<forall>key. (key \<in> K \<longrightarrow> reqs st key \<noteq> None) \<and>
       under_way st key = (if reqs st key = None \<or> key \<in> K then 0 else 1))"

definition of_key :: "jstring \<Rightarrow> (jstring \<times> 'c) list \<Rightarrow> 'c list" where
  "of_key key ps = map snd (filter (\<lambda>p. fst p = key) ps)"

text \<open>The callbacks of a key are called in order; \<open>skip\<close> of those that wait were called in this pass.\<close>

definition in_turn :: "(jstring \<Rightarrow> nat) \<Rightarrow> 'c flights \<Rightarrow> bool" where
  "in_turn skip st \<longleftrightarrow> (\<forall>key. of_key key (requested st) = of_key key (answered st) @ drop (skip key) (waiting st key) \<and>
     skip key \<le> length (waiting st key))"

lemma of_key_append [simp]: "of_key key (xs @ ys) = of_key key xs @ of_key key ys"
  by (simp add: of_key_def)

lemma of_key_single [simp]: "of_key key [(k, c)] = (if k = key then [c] else [])"
  by (simp add: of_key_def)

lemma open_functions_new:
  assumes "\<forall>f \<in> set (res_called st). f < length (res_functions st)"
  shows "open_functions (st\<lparr>res_functions := res_functions st @ [k]\<rparr>) key =
    open_functions st key @ (if k = key then [length (res_functions st)] else [])"
proof -
  have "filter (\<lambda>f. (res_functions st @ [k]) ! f = key \<and> f \<notin> set (res_called st)) [0..<length (res_functions st)] =
      open_functions st key"
    unfolding open_functions_def by (rule filter_cong) (auto simp: nth_append)
  with assms show ?thesis by (auto simp: open_functions_def)
qed

lemma request_single: "single_flight K st \<Longrightarrow> single_flight K (request r st)"
proof -
  assume S: "single_flight K st"
  then have called: "\<forall>f \<in> set (res_called st). f < length (res_functions st)" by (simp add: single_flight_def)
  show ?thesis
  proof (cases "reqs st (fst r)")
    case None
    have "open_functions (request r st) key = open_functions st key @ (if fst r = key then [length (res_functions st)] else [])" for key
      using open_functions_new [OF called, of "fst r" key] None
      by (simp add: request_def inflight_def makeres_def Let_def open_functions_def)
    moreover have "pending_ticks (request r st) = pending_ticks st" "reqs (request r st) = (reqs st)(fst r \<mapsto> [snd r])"
      "res_called (request r st) = res_called st" "res_functions (request r st) = res_functions st @ [fst r]"
      using None by (simp_all add: request_def inflight_def makeres_def Let_def)
    moreover have "fst r \<notin> K" using S None by (auto simp: single_flight_def)
    moreover have "(key \<in> K \<longrightarrow> reqs st key \<noteq> None) \<and> under_way st key = (if reqs st key = None \<or> key \<in> K then 0 else 1)" for key
      using S by (simp add: single_flight_def)
    ultimately have "(key \<in> K \<longrightarrow> reqs (request r st) key \<noteq> None) \<and>
        under_way (request r st) key = (if reqs (request r st) key = None \<or> key \<in> K then 0 else 1)" for key
      using None by (cases "key = fst r") (simp_all add: under_way_def)
    moreover have "\<forall>f \<in> set (res_called (request r st)). f < length (res_functions (request r st))"
      using called None by (auto simp: request_def inflight_def makeres_def Let_def)
    ultimately show ?thesis by (simp add: single_flight_def)
  next
    case (Some cbs)
    then show ?thesis using S
      by (auto simp: request_def inflight_def Let_def single_flight_def under_way_def open_functions_def)
  qed
qed

lemma request_waiting:
  "waiting (request r st) key = waiting st key @ (if key = fst r then [snd r] else [])"
  "answered (request r st) = answered st" "requested (request r st) = requested st @ [r]"
  by (cases "reqs st (fst r)"; auto simp: request_def inflight_def makeres_def Let_def waiting_def)+

lemma request_in_turn: "in_turn skip st \<Longrightarrow> in_turn skip (request r st)"
  unfolding in_turn_def
proof (rule allI)
  fix key
  assume "\<forall>key. of_key key (requested st) = of_key key (answered st) @ drop (skip key) (waiting st key) \<and>
     skip key \<le> length (waiting st key)"
  then have "of_key key (requested st) = of_key key (answered st) @ drop (skip key) (waiting st key)"
    "skip key \<le> length (waiting st key)" by blast+
  then show "of_key key (requested (request r st)) = of_key key (answered (request r st)) @ drop (skip key) (waiting (request r st) key) \<and>
     skip key \<le> length (waiting (request r st) key)"
    by (cases r) (simp add: request_waiting)
qed

lemma requests_inv:
  "single_flight K st \<Longrightarrow> single_flight K (fold request rs st)"
  "in_turn skip st \<Longrightarrow> in_turn skip (fold request rs st)"
  by (induction rs arbitrary: st) (auto intro: request_single request_in_turn)

lemma requests_waiting: "waiting (fold request rs st) key = waiting st key @ of_key key rs"
  by (induction rs arbitrary: st) (simp_all add: request_waiting of_key_def)

lemma single_flight_answered [simp]:
  "single_flight K (st\<lparr>answered := a\<rparr>) = single_flight K st" "waiting (st\<lparr>answered := a\<rparr>) = waiting st"
  by (simp_all add: single_flight_def under_way_def open_functions_def waiting_def fun_eq_iff)

lemma run_callback_state:
  "snd (run_callback script key args cb st) = fold request (fst (script cb args)) (st\<lparr>answered := answered st @ [(key, cb)]\<rparr>)"
  by (auto simp: run_callback_def Let_def split: option.splits)

text \<open>A pass over the waiting callbacks of a key.\<close>

lemma pass_single:
  "single_flight K st \<Longrightarrow> single_flight K (snd (answer_pass script key args is st)) \<and>
    (\<exists>ws. waiting (snd (answer_pass script key args is st)) key = waiting st key @ ws)"
proof (induction "is" arbitrary: st)
  case (Cons i "is")
  let ?st = "snd (run_callback script key args (waiting st key ! i) st)"
  have S: "single_flight K ?st" using Cons.prems by (simp add: run_callback_state requests_inv(1))
  obtain ws where ws: "waiting ?st key = waiting st key @ ws"
    by (simp add: run_callback_state requests_waiting)
  have "snd (answer_pass script key args (i # is) st) = ?st \<or>
      snd (answer_pass script key args (i # is) st) = snd (answer_pass script key args is ?st)"
    by (cases "run_callback script key args (waiting st key ! i) st"; cases "fst (run_callback script key args (waiting st key ! i) st)")
      (auto simp: answer_pass_def and_do_def)
  with S ws Cons.IH [OF S] show ?case by (metis append_assoc)
qed (simp add: answer_pass_def yields_def)

lemma pass_in_turn:
  assumes "\<And>cb args. snd (script cb args) = None"
  shows "in_turn ((\<lambda>_. 0)(key := i)) st \<Longrightarrow> i \<le> j \<Longrightarrow> j \<le> length (waiting st key) \<Longrightarrow>
    in_turn ((\<lambda>_. 0)(key := j)) (snd (answer_pass script key args [i..<j] st)) \<and> fst (answer_pass script key args [i..<j] st) = Inr ()"
proof (induction "j - i" arbitrary: i st)
  case 0
  then show ?case by (simp add: answer_pass_def yields_def)
next
  case (Suc d)
  then have ij: "i < j" by simp
  then have upt: "[i..<j] = i # [Suc i..<j]" by (simp add: upt_conv_Cons)
  let ?cb = "waiting st key ! i"
  let ?st = "snd (run_callback script key args ?cb st)"
  have "drop i (waiting st key) = ?cb # drop (Suc i) (waiting st key)"
    using ij Suc.prems(3) by (simp add: Cons_nth_drop_Suc)
  then have "in_turn ((\<lambda>_. 0)(key := Suc i)) (st\<lparr>answered := answered st @ [(key, ?cb)]\<rparr>)"
    using Suc.prems(1) ij Suc.prems(3) by (auto simp: in_turn_def)
  then have T: "in_turn ((\<lambda>_. 0)(key := Suc i)) ?st" unfolding run_callback_state by (rule requests_inv(2))
  have len: "j \<le> length (waiting ?st key)"
    using Suc.prems(3) by (simp add: run_callback_state requests_waiting)
  obtain st1 where st1: "run_callback script key args ?cb st = (Inr (), st1)"
    using assms by (simp add: run_callback_def Let_def)
  then have "answer_pass script key args [i..<j] st = answer_pass script key args [Suc i..<j] ?st"
    by (simp add: upt answer_pass_def and_do_def)
  with Suc.hyps(1) [of "Suc i" ?st] Suc.hyps(2) T ij len show ?case by simp
qed

lemma under_way_settle:
  assumes "single_flight {key} st" "len \<le> length (waiting st key)"
  shows "single_flight {} (settle key args len st)"
proof -
  have key: "(k = key \<longrightarrow> reqs st k \<noteq> None) \<and> under_way st k = (if reqs st k = None \<or> k = key then 0 else 1)" for k
    using assms(1) by (simp add: single_flight_def)
  have "under_way (settle key args len st) k = (if reqs (settle key args len st) k = None then 0 else 1)" for k
    using key [of k] by (cases "k = key") (auto simp: settle_def under_way_def open_functions_def)
  then show ?thesis using assms(1) by (auto simp: single_flight_def settle_def)
qed

lemma RES_single:
  assumes "single_flight {key} st"
  shows "single_flight {} (snd (RES script key args st))"
proof -
  obtain cbs where cbs: "reqs st key = Some cbs" using assms by (auto simp: single_flight_def)
  let ?st = "snd (answer_pass script key args [0..<length cbs] st)"
  have "snd (RES script key args st) = settle key args (length cbs) ?st"
    using cbs by (simp add: RES_def split: prod.splits)
  moreover have "single_flight {key} ?st" "length cbs \<le> length (waiting ?st key)"
    using pass_single [OF assms, of script key args "[0..<length cbs]"] cbs by (auto simp: waiting_def)
  ultimately show ?thesis by (simp add: under_way_settle)
qed

lemma filter_remove: "distinct xs \<Longrightarrow> x \<in> set xs \<Longrightarrow> P x \<Longrightarrow>
  length (filter (\<lambda>y. P y \<and> y \<noteq> x) xs) = length (filter P xs) - 1"
proof -
  assume a: "distinct xs" "x \<in> set xs" "P x"
  have "{y \<in> set xs. P y} - {x} = set (filter (\<lambda>y. P y \<and> y \<noteq> x) xs)" by auto
  then have "length (filter (\<lambda>y. P y \<and> y \<noteq> x) xs) = card ({y \<in> set xs. P y} - {x})"
    using distinct_card [of "filter (\<lambda>y. P y \<and> y \<noteq> x) xs"] a(1) by simp
  also have "\<dots> = card {y \<in> set xs. P y} - 1" using a by simp
  finally show ?thesis using distinct_card [of "filter P xs"] a(1) by simp
qed

lemma mark_single:
  assumes "single_flight {} st" "f < length (res_functions st)" "f \<notin> set (res_called st)"
  shows "single_flight {res_functions st ! f} (st\<lparr>res_called := res_called st @ [f]\<rparr>)"
proof -
  let ?key = "res_functions st ! f"
  let ?st = "st\<lparr>res_called := res_called st @ [f]\<rparr>"
  have st: "under_way st k = (if reqs st k = None then 0 else 1)" for k using assms(1) by (simp add: single_flight_def)
  have f: "f \<in> set (open_functions st ?key)" using assms(2,3) by (simp add: open_functions_def)
  then have pos: "0 < length (open_functions st ?key)" by (cases "open_functions st ?key") auto
  have opens: "open_functions ?st k = filter (\<lambda>g. g \<noteq> f) (open_functions st k)" for k
    unfolding open_functions_def filter_filter by (rule filter_cong) auto
  have "length (open_functions ?st ?key) = length (open_functions st ?key) - 1"
    unfolding opens using filter_remove [of "open_functions st ?key" f "\<lambda>_. True"] f
    by (simp add: open_functions_def)
  moreover have "f \<notin> set (open_functions st k)" if "k \<noteq> ?key" for k using that by (auto simp: open_functions_def)
  then have "open_functions ?st k = open_functions st k" if "k \<noteq> ?key" for k
    unfolding opens using that by (auto simp: filter_id_conv)
  moreover have r: "reqs st ?key \<noteq> None"
    using st [of ?key] pos unfolding under_way_def by (auto split: if_splits)
  then have sum: "length (open_functions st ?key) + length (filter (\<lambda>t. fst t = ?key) (pending_ticks st)) = 1"
    using st [of ?key] unfolding under_way_def by simp
  have "length (open_functions st ?key) = 1" using sum pos by linarith
  moreover have "length (filter (\<lambda>t. fst t = ?key) (pending_ticks st)) = 0" using sum pos by linarith
  moreover note r
  ultimately have "(k \<in> {?key} \<longrightarrow> reqs st k \<noteq> None) \<and> under_way ?st k = (if reqs st k = None \<or> k \<in> {?key} then 0 else 1)" for k
    using st [of k] by (cases "k = ?key") (auto simp: under_way_def)
  then show ?thesis using assms(1,2) by (simp add: single_flight_def)
qed

lemma tick_single:
  assumes "single_flight {} st" "pending_ticks st = (key, args) # ts"
  shows "single_flight {key} (st\<lparr>pending_ticks := ts\<rparr>)"
proof -
  have st: "under_way st k = (if reqs st k = None then 0 else 1)" for k using assms(1) by (simp add: single_flight_def)
  have "(k \<in> {key} \<longrightarrow> reqs st k \<noteq> None) \<and>
      under_way (st\<lparr>pending_ticks := ts\<rparr>) k = (if reqs st k = None \<or> k \<in> {key} then 0 else 1)" for k
    using st [of k] assms(2) by (cases "k = key") (auto simp: under_way_def open_functions_def split: if_splits)
  then show ?thesis using assms(1) by (simp add: single_flight_def)
qed

lemma flight_step_single: "single_flight {} st \<Longrightarrow> single_flight {} (flight_step script ev st)"
proof (cases ev)
  case (Request key cb)
  then show "single_flight {} st \<Longrightarrow> ?thesis" by (simp add: flight_step_def request_single)
next
  case (Answer f args)
  assume "single_flight {} st"
  with Answer mark_single [of st f] RES_single show ?thesis
    by (auto simp: flight_step_def call_res_def)
next
  case Tick
  assume "single_flight {} st"
  with Tick tick_single [of st] RES_single show ?thesis
    by (auto simp: flight_step_def split: list.splits)
qed

lemma flights_single: "single_flight {} st \<Longrightarrow> single_flight {} (fold (flight_step script) evs st)"
  by (induction evs arbitrary: st) (simp_all add: flight_step_single)

lemma no_flights_single: "single_flight {} no_flights"
  by (simp add: single_flight_def no_flights_def under_way_def open_functions_def)

text \<open>
  C23: At every moment, whatever the callbacks request and throw: a key with waiting callbacks has
  exactly one request under way, that is one function that was not called yet or one call at a later
  tick, and a key without waiting callbacks has none. A request gets a function to call exactly
  when no request of its key is under way.
\<close>

theorem inflight_single:
  "let st = fold (flight_step script) evs no_flights
   in under_way st key = (if reqs st key = None then 0 else 1) \<and>
      (fst (inflight key cb st) \<noteq> None \<longleftrightarrow> under_way st key = 0)"
proof -
  let ?st = "fold (flight_step script) evs no_flights"
  have "single_flight {} ?st" by (rule flights_single [OF no_flights_single])
  then have "under_way ?st key = (if reqs ?st key = None then 0 else 1)" by (simp add: single_flight_def)
  then show ?thesis by (simp add: inflight_def makeres_def Let_def split: option.splits)
qed

lemma RES_in_turn:
  assumes "\<And>cb args. snd (script cb args) = None" "in_turn (\<lambda>_. 0) st"
  shows "in_turn (\<lambda>_. 0) (snd (RES script key args st))"
proof (cases "reqs st key")
  case None
  with assms(2) show ?thesis by (simp add: RES_def)
next
  case (Some cbs)
  let ?st = "snd (answer_pass script key args [0..<length cbs] st)"
  have "in_turn ((\<lambda>_. 0)(key := 0)) st" using assms(2) by (simp add: fun_upd_idem)
  from pass_in_turn [OF assms(1) this, where j = "length cbs" and args = args] Some
  have T: "in_turn ((\<lambda>_. 0)(key := length cbs)) ?st" by (simp add: waiting_def)
  have "waiting (settle key args (length cbs) ?st) k = drop (((\<lambda>_. 0)(key := length cbs)) k) (waiting ?st k)" for k
    using T by (auto simp: settle_def waiting_def in_turn_def split: option.splits)
  moreover have "requested (settle key args (length cbs) ?st) = requested ?st" "answered (settle key args (length cbs) ?st) = answered ?st"
    by (simp_all add: settle_def)
  ultimately have "in_turn (\<lambda>_. 0) (settle key args (length cbs) ?st)" using T by (simp add: in_turn_def)
  moreover have "snd (RES script key args st) = settle key args (length cbs) ?st"
    using Some by (simp add: RES_def split: prod.splits)
  ultimately show ?thesis by simp
qed

lemma in_turn_ghost [simp]:
  "in_turn skip (st\<lparr>res_called := c\<rparr>) = in_turn skip st" "in_turn skip (st\<lparr>pending_ticks := t\<rparr>) = in_turn skip st"
  by (simp_all add: in_turn_def waiting_def)

lemma flight_step_in_turn:
  assumes "\<And>cb args. snd (script cb args) = None" "in_turn (\<lambda>_. 0) st"
  shows "in_turn (\<lambda>_. 0) (flight_step script ev st)"
  using assms(2) request_in_turn [OF assms(2)]
  by (auto simp: flight_step_def call_res_def RES_in_turn [OF assms(1)] split: flight_event.splits list.splits)

text \<open>
  When callbacks do not throw, the callbacks of each key are called in the order of the requests,
  each once, and none is lost: those that were not called are waiting.
\<close>

theorem inflight_in_order:
  assumes "\<And>cb args. snd (script cb args) = None"
  shows "let st = fold (flight_step script) evs no_flights
    in of_key key (requested st) = of_key key (answered st) @ waiting st key"
proof -
  let ?st = "fold (flight_step script) evs no_flights"
  have "in_turn (\<lambda>_. 0) st \<Longrightarrow> in_turn (\<lambda>_. 0) (fold (flight_step script) evs st)" for st
    by (induction evs arbitrary: st) (simp_all add: flight_step_in_turn [OF assms])
  moreover have "in_turn (\<lambda>_. 0) (no_flights :: 'a flights)" by (simp add: in_turn_def no_flights_def waiting_def of_key_def)
  ultimately have "in_turn (\<lambda>_. 0) ?st" by blast
  then show ?thesis by (simp add: in_turn_def Let_def)
qed

theorem inflight_in_order_witness:
  "let st = fold (flight_step (\<lambda>cb args. (if cb = 1 then [([], 3)] else [], None)))
     [Request [] (1 :: nat), Request [] 2, Answer 0 []] no_flights
   in of_key [] (requested st) = of_key [] (answered st) @ waiting st [] \<and> waiting st [] = [3]"
proof -
  let ?script = "\<lambda>(cb :: nat) (args :: jsval list). (if cb = 1 then [([] :: jstring, 3 :: nat)] else [], None :: jsval option)"
  let ?evs = "[Request [] (1 :: nat), Request [] 2, Answer 0 []]"
  have "waiting (fold (flight_step ?script) ?evs no_flights) [] = [3]" by code_simp
  with inflight_in_order [of ?script ?evs "[]"] show ?thesis by (simp add: Let_def)
qed

text \<open>The callbacks after one that throws are not called, and not kept either.\<close>

lemma inflight_lost:
  "let script = (\<lambda>cb args. ([], if cb = 1 then Some Null else None));
       st = fold (flight_step script) [Request [] (1 :: nat), Request [] 2, Answer 0 []] no_flights
   in answered st = [([], 1)] \<and> waiting st [] = []"
  by code_simp

end
