(* ===== verification/Function_Objects.thy ===== *)
theory Function_Objects
  imports Underscore_Base
begin

text \<open>
  Two small modules of \<open>wordcut.js\<close> on functions as objects: \<open>wrappy\<close> (module 29), which makes
  wrappers that keep the properties of the functions they wrap, and \<open>inherits\<close> (modules 19 and 26),
  which sets up the prototypes of a constructor.
\<close>

section \<open>wrappy\<close>

text \<open>
  The own properties of functions, the functions that wrappers wrap, and the number of the next
  function; \<open>outside\<close> is the state of the rest. The behaviour of a function that is no wrapper is a
  parameter.
\<close>

record 's functions_state =
  fn_props :: "nat \<Rightarrow> (jstring \<times> jsval) list"
  wrapped :: "nat \<Rightarrow> nat option"
  next_function :: nat
  outside :: 's

definition props_of :: "'s functions_state \<Rightarrow> jsval \<Rightarrow> (jstring \<times> jsval) list" where
  "props_of st v =
     (case v of
        Function i _ \<Rightarrow> map (\<lambda>k. (k, prop_of (fn_props st i) k)) (object_keys (map fst (fn_props st i)))
      | _ \<Rightarrow> map (\<lambda>k. (k, get v k)) (own_keys v))"

definition copy_props :: "(jstring \<times> jsval) list \<Rightarrow> nat \<Rightarrow> 's functions_state \<Rightarrow> 's functions_state" where
  "copy_props ps i st =
     st\<lparr>fn_props := (fn_props st)(i := fold (\<lambda>p. put (fst p) (snd p)) ps (fn_props st i))\<rparr>"

text \<open>What the function \<open>wrapper\<close> does with the result of the function it wraps.\<close>

definition decorate :: "jsval list \<Rightarrow> jsval \<Rightarrow> ('s functions_state, jsval) prog" where
  "decorate args ret st =
     (let callback = (if args = [] then Undefined else last args) in
      case ret of
        Function i _ \<Rightarrow>
          if strict_eq ret callback then (Inr ret, st)
          else if is_nil callback then (Inl (Engine TypeError), st)
          else (Inr ret, copy_props (props_of st callback) i st)
      | _ \<Rightarrow> (Inr ret, st))"

text \<open>A call of a function; the number bounds the frames of nested wrappers.\<close>

fun call_fn ::
  "(nat \<Rightarrow> 's functions_state fn) \<Rightarrow> nat \<Rightarrow> nat \<Rightarrow> 's functions_state fn"
where
  "call_fn base 0 i this args st = (Inl (Engine RangeError), st)"
| "call_fn base (Suc n) i this args st =
     (case wrapped st i of
        None \<Rightarrow> base i this args st
      | Some f \<Rightarrow> and_do (call_fn base n f this args) (decorate args) st)"

definition wrapper_of :: "jsval \<Rightarrow> ('s functions_state, jsval) prog" where
  "wrapper_of func st =
     (case func of
        Function f _ \<Rightarrow>
          let i = next_function st
          in (Inr (Function i 0),
              copy_props (props_of st func) i
                (st\<lparr>fn_props := (fn_props st)(i := []), wrapped := (wrapped st)(i \<mapsto> f), next_function := i + 1\<rparr>))
      | _ \<Rightarrow> (Inl (Engine TypeError), st))"

definition wrappy :: "(nat \<Rightarrow> 's functions_state fn) \<Rightarrow> nat \<Rightarrow> jsval \<Rightarrow> jsval \<Rightarrow> ('s functions_state, jsval) prog" where
  "wrappy base n func callback =
     (if truthy func \<and> truthy callback
      then and_do (wrapper_of func)
        (\<lambda>w. case w of Function i _ \<Rightarrow> call_fn base n i Undefined [callback] | _ \<Rightarrow> raises (Engine TypeError))
      else wrapper_of func)"

text \<open>The properties that a copy has.\<close>

lemma map_of_fold_put_pairs:
  "map_of (fold (\<lambda>p. put (fst p) (snd p)) ps qs) k = (case map_of (rev ps) k of Some v \<Rightarrow> Some v | None \<Rightarrow> map_of qs k)"
  by (induction ps arbitrary: qs) (auto simp: map_add_def split: option.splits)

lemma map_of_props: "map_of (rev (props_of st (Function f n))) = map_of (fn_props st f)"
proof
  fix k
  let ?ps = "fn_props st f"
  have "map_of (rev (props_of st (Function f n))) k =
      (if k \<in> fst ` set ?ps then Some (prop_of ?ps k) else None)"
    by (simp add: props_of_def rev_map map_of_map_restrict restrict_map_def)
  also have "\<dots> = map_of ?ps k"
    using map_of_eq_None_iff [of ?ps k] by (auto simp: prop_of_def split: option.splits)
  finally show "map_of (rev (props_of st (Function f n))) k = map_of ?ps k" .
qed

lemma wrapper_props:
  assumes "wrapper_of (Function f n) st = (r, st')"
  shows "r = Inr (Function (next_function st) 0) \<and> wrapped st' (next_function st) = Some f \<and>
    map_of (fn_props st' (next_function st)) = map_of (fn_props st f) \<and>
    (\<forall>i. i \<noteq> next_function st \<longrightarrow> fn_props st' i = fn_props st i \<and> wrapped st' i = wrapped st i)"
proof -
  have "map_of (fold (\<lambda>p. put (fst p) (snd p)) (props_of st (Function f n)) []) = map_of (fn_props st f)"
    by (rule ext) (simp add: map_of_fold_put_pairs map_of_props split: option.splits)
  with assms show ?thesis by (auto simp: wrapper_of_def copy_props_def Let_def)
qed

text \<open>
  A wrapper is called with the arguments and the result of the function it wraps. When the result
  is a function other than the callback, it has got the own properties of the callback.
\<close>

theorem wrapper_keeps_properties:
  assumes "wrapped st i = Some f" "call_fn base n f this (args @ [Function c m]) st = (Inr (Function j l), st1)"
  shows "\<exists>st2. call_fn base (Suc n) i this (args @ [Function c m]) st = (Inr (Function j l), st2) \<and>
    map_of (fn_props st2 j) = (if j = c then map_of (fn_props st1 j) else map_of (fn_props st1 j) ++ map_of (fn_props st1 c)) \<and>
    (\<forall>k. k \<noteq> j \<longrightarrow> fn_props st2 k = fn_props st1 k)"
proof (cases "j = c")
  case True
  with assms show ?thesis by (simp add: and_do_def decorate_def)
next
  case False
  let ?st = "copy_props (props_of st1 (Function c m)) j st1"
  have "map_of (fn_props ?st j) = map_of (fn_props st1 j) ++ map_of (fn_props st1 c)"
    by (rule ext) (simp add: copy_props_def map_of_fold_put_pairs map_of_props map_add_def split: option.splits)
  with False assms(1,2) show ?thesis
    by (intro exI [of _ ?st]) (simp add: and_do_def decorate_def is_nil_def copy_props_def)
qed

section \<open>inherits\<close>

text \<open>
  Constructors and prototype objects: \<open>super_\<close> and \<open>prototype\<close> of a function, the prototype of an
  object, and the property \<open>constructor\<close> with the mark whether it is enumerable.
\<close>

record classes =
  super_of :: "nat \<Rightarrow> nat option"
  prototype_obj :: "nat \<Rightarrow> nat"
  parent_obj :: "nat \<Rightarrow> nat option"
  constructor_prop :: "nat \<Rightarrow> (nat \<times> bool) option"
  next_object :: nat

text \<open>An object whose prototype is \<open>parent\<close>, and \<open>new ctor()\<close>.\<close>

definition object_create :: "nat \<Rightarrow> (nat \<times> bool) option \<Rightarrow> classes \<Rightarrow> nat \<times> classes" where
  "object_create parent ctor st =
     (let x = next_object st
      in (x, st\<lparr>parent_obj := (parent_obj st)(x \<mapsto> parent), constructor_prop := (constructor_prop st)(x := ctor),
           next_object := x + 1\<rparr>))"

definition new_object :: "nat \<Rightarrow> classes \<Rightarrow> nat \<times> classes" where
  "new_object ctor st = object_create (prototype_obj st ctor) None st"

text \<open>With \<open>Object.create\<close>, and in the older way, where the property \<open>constructor\<close> is enumerable.\<close>

definition inherits :: "bool \<Rightarrow> nat \<Rightarrow> nat \<Rightarrow> classes \<Rightarrow> classes" where
  "inherits has_create ctor superCtor st =
     (let st = st\<lparr>super_of := (super_of st)(ctor \<mapsto> superCtor)\<rparr>;
          (x, st) = object_create (prototype_obj st superCtor) (Some (ctor, \<not> has_create)) st
      in st\<lparr>prototype_obj := (prototype_obj st)(ctor := x)\<rparr>)"

text \<open>The prototypes of an object, from the nearest on; a prototype is older than the object.\<close>

function proto_chain :: "classes \<Rightarrow> nat \<Rightarrow> nat list" where
  "proto_chain st x = (case parent_obj st x of Some y \<Rightarrow> if y < x then y # proto_chain st y else [] | None \<Rightarrow> [])"
  by auto

termination
  by (relation "measure snd") auto

declare proto_chain.simps [simp del]

definition is_instance :: "classes \<Rightarrow> nat \<Rightarrow> nat \<Rightarrow> bool" where
  "is_instance st x f \<longleftrightarrow> prototype_obj st f \<in> set (proto_chain st x)"

definition well_founded_classes :: "classes \<Rightarrow> bool" where
  "well_founded_classes st \<longleftrightarrow> (\<forall>x y. parent_obj st x = Some y \<longrightarrow> y < x \<and> x < next_object st) \<and>
     (\<forall>f. prototype_obj st f < next_object st)"

lemma inherits_well_founded: "well_founded_classes st \<Longrightarrow> well_founded_classes (inherits has_create ctor superCtor st)"
  by (fastforce simp: well_founded_classes_def inherits_def object_create_def Let_def less_Suc_eq)

lemma new_object_well_founded: "well_founded_classes st \<Longrightarrow> well_founded_classes (snd (new_object ctor st))"
  by (fastforce simp: well_founded_classes_def new_object_def object_create_def Let_def less_Suc_eq)

lemma proto_chain_cong:
  "(\<And>y. y \<le> x \<Longrightarrow> parent_obj st' y = parent_obj st y) \<Longrightarrow> proto_chain st' x = proto_chain st x"
proof (induction x rule: less_induct)
  case (less x)
  show ?case
    by (subst (1 2) proto_chain.simps) (use less in \<open>auto split: option.splits\<close>)
qed

lemma proto_chain_less: "y \<in> set (proto_chain st x) \<Longrightarrow> y < x"
proof (induction x rule: less_induct)
  case (less x)
  then show ?case by (subst (asm) (2) proto_chain.simps) (force split: option.splits if_splits)
qed

text \<open>
  After \<open>inherits(ctor, superCtor)\<close> a new object of \<open>ctor\<close> is an instance of \<open>ctor\<close>, and apart from
  that of exactly the functions of which a new object of \<open>superCtor\<close> was an instance before.
\<close>

theorem inherits_instances:
  fixes st :: classes
  assumes "well_founded_classes st" "st1 = inherits has_create ctor superCtor st"
    "new_object ctor st1 = (x, st2)" "new_object superCtor st = (y, st3)"
  shows "is_instance st2 x f \<longleftrightarrow> f = ctor \<or> is_instance st3 y f"
proof -
  let ?n = "next_object st"
  let ?p = "prototype_obj st superCtor"
  have p: "?p < ?n" using assms(1) by (simp add: well_founded_classes_def)
  have st1: "prototype_obj st1 = (prototype_obj st)(ctor := ?n)" "parent_obj st1 = (parent_obj st)(?n \<mapsto> ?p)" "next_object st1 = Suc ?n"
    using assms(2) by (simp_all add: inherits_def object_create_def Let_def)
  have st2: "x = Suc ?n" "prototype_obj st2 = prototype_obj st1" "parent_obj st2 = (parent_obj st1)(Suc ?n \<mapsto> ?n)"
    using assms(3) st1 by (auto simp: new_object_def object_create_def Let_def)
  have st3: "y = ?n" "prototype_obj st3 = prototype_obj st" "parent_obj st3 = (parent_obj st)(?n \<mapsto> ?p)"
    using assms(4) by (auto simp: new_object_def object_create_def Let_def)
  have chain: "proto_chain st2 ?p = proto_chain st ?p" "proto_chain st3 ?p = proto_chain st ?p"
    by (rule proto_chain_cong, use p st1 st2 st3 in auto)+
  have x: "proto_chain st2 x = ?n # ?p # proto_chain st ?p"
    using st1 st2 p chain by (simp add: proto_chain.simps [of st2 "Suc ?n"] proto_chain.simps [of st2 ?n])
  have y: "proto_chain st3 y = ?p # proto_chain st ?p"
    using st3 p chain by (simp add: proto_chain.simps [of st3 ?n])
  have less: "prototype_obj st f < ?n" using assms(1) by (simp add: well_founded_classes_def)
  show ?thesis
  proof (cases "f = ctor")
    case True
    then show ?thesis using x st1 st2 by (simp add: is_instance_def)
  next
    case False
    then show ?thesis using x y st1 st2 st3 less by (auto simp: is_instance_def)
  qed
qed

end
