(* ===== verification/Go_Prelude.thy ===== *)
theory Go_Prelude
  imports Decimal
begin

text \<open>
  Shared vocabulary of the daemon's components (the Go sources): byte strings, error returns, and
  programs that act on a shared state one atomic action at a time. A program can be run on its
  own (\<open>run_prog\<close>) or interleaved with others (theory \<open>Go_Pool\<close>), which is how goroutines run.
\<close>

section \<open>Strings and errors\<close>

text \<open>
  A Go string is a sequence of bytes, an \<open>error\<close> is its message; a function that returns a value
  and an error returns a sum. Numbers that count or measure (retries, milliseconds, counters)
  are \<open>int\<close>: they stay far from the ends of Go's 64-bit \<open>int\<close>.
\<close>

type_synonym go_error = string

text \<open>\<open>strings.ToLower\<close> and \<open>strings.ToUpper\<close> on ASCII strings, as configuration keywords are.\<close>

definition ToLower :: "string \<Rightarrow> string" where
  "ToLower s = map (\<lambda>c. if 65 \<le> (of_char c :: nat) \<and> (of_char c :: nat) \<le> 90
     then char_of ((of_char c :: nat) + 32) else c) s"

definition ToUpper :: "string \<Rightarrow> string" where
  "ToUpper s = map (\<lambda>c. if 97 \<le> (of_char c :: nat) \<and> (of_char c :: nat) \<le> 122
     then char_of ((of_char c :: nat) - 32) else c) s"

text \<open>Decimal notation, as \<open>%d\<close> prints it.\<close>

definition itoa :: "int \<Rightarrow> string" where
  "itoa i = (if i < 0 then [CHR ''-''] else []) @ map (\<lambda>d. ''0123456789'' ! d) (digits (nat \<bar>i\<bar>))"

section \<open>Floating point\<close>

text \<open>
  A finite double \<open>m * 2 ^ e\<close>. The sources use doubles only to scale a back-off time:
  \<open>int(float64(b) * f)\<close> is the exact product rounded to 53 significant bits (ties to even) and
  truncated towards zero. Infinities, not-a-number values and results outside the 64-bit range
  are not modelled.
\<close>

datatype float64 = Float64 (mantissa: int) (exponent: int)

function bit_length :: "int \<Rightarrow> nat" where
  "bit_length n = (if n \<le> 0 then 0 else Suc (bit_length (n div 2)))"
  by auto

termination
  by (relation "measure nat") auto

declare bit_length.simps [simp del]

definition round53 :: "int \<Rightarrow> int \<times> nat" where
  "round53 p =
     (let a = \<bar>p\<bar>; k = bit_length a - 53; q = a div 2 ^ k; rest = a mod 2 ^ k;
          q' = (if 2 * rest > 2 ^ k \<or> (2 * rest = 2 ^ k \<and> odd q) then q + 1 else q)
      in (sgn p * q', k))"

definition trunc64 :: "int \<Rightarrow> int \<Rightarrow> int" where
  "trunc64 m e = (if e \<ge> 0 then m * 2 ^ nat e else sgn m * (\<bar>m\<bar> div 2 ^ nat (- e)))"

definition scale64 :: "int \<Rightarrow> float64 \<Rightarrow> int" where
  "scale64 b f =
     (case round53 b of (b', j) \<Rightarrow> (case round53 (b' * mantissa f) of (m, k) \<Rightarrow>
        trunc64 m (exponent f + int j + int k)))"

section \<open>Programs over a shared state\<close>

text \<open>
  A program returns a value, or performs one atomic action on the state and goes on. The action
  is a call that reaches shared state: a request to a vault, a statement on the database.
\<close>

datatype (dead 's, 'a) prog =
    Return 'a
  | Act "'s \<Rightarrow> ('s, 'a) prog \<times> 's"

lemma prog_induct [case_names Return Act]:
  assumes "\<And>a. P (Return a)" "\<And>f. (\<And>s. P (fst (f s))) \<Longrightarrow> P (Act f)"
  shows "P p"
proof (induction p)
  case (Act f)
  show ?case
  proof (rule assms(2))
    fix s
    show "P (fst (f s))" by (rule Act [of "f s"]) (simp_all add: prod_set_defs)
  qed
qed (rule assms(1))

primrec bind_prog :: "('s, 'a) prog \<Rightarrow> ('a \<Rightarrow> ('s, 'b) prog) \<Rightarrow> ('s, 'b) prog" where
  "bind_prog (Return a) g = g a"
| "bind_prog (Act f) g = Act (\<lambda>s. map_prod (\<lambda>p. bind_prog p g) id (f s))"

primrec run_prog :: "('s, 'a) prog \<Rightarrow> 's \<Rightarrow> 'a \<times> 's" where
  "run_prog (Return a) = (\<lambda>s. (a, s))"
| "run_prog (Act f) = (\<lambda>s. case map_prod run_prog id (f s) of (r, s') \<Rightarrow> r s')"

text \<open>A single atomic action with its result.\<close>

definition act :: "('s \<Rightarrow> 'a \<times> 's) \<Rightarrow> ('s, 'a) prog" where
  "act f = Act (\<lambda>s. map_prod Return id (f s))"

lemma run_act [simp]: "run_prog (act f) s = f s"
  by (cases "f s") (simp add: act_def)

lemma run_Act: "run_prog (Act f) s = run_prog (fst (f s)) (snd (f s))"
  by (cases "f s") simp

lemma bind_Act: "bind_prog (Act f) g = Act (\<lambda>s. (bind_prog (fst (f s)) g, snd (f s)))"
  by (simp add: map_prod_def case_prod_unfold)

lemma run_bind [simp]:
  "run_prog (bind_prog p g) s = (case run_prog p s of (a, s') \<Rightarrow> run_prog (g a) s')"
proof (induction p arbitrary: s rule: prog_induct)
  case (Act f)
  then show ?case by (simp only: bind_Act run_Act fst_conv snd_conv)
qed simp

lemma bind_assoc: "bind_prog (bind_prog p g) h = bind_prog p (\<lambda>a. bind_prog (g a) h)"
proof (induction p rule: prog_induct)
  case (Act f)
  then show ?case by (simp only: bind_Act fst_conv snd_conv)
qed simp

end
