(* ===== verification/Go_Pool.thy ===== *)
theory Go_Pool
  imports Go_Prelude "HOL-Library.Multiset"
begin

text \<open>
  The worker pool of \<open>sync/engine.go\<close>: one goroutine per task, a semaphore channel of capacity
  \<open>workerCount\<close>, a wait group, and a channel of results with room for all of them. A goroutine
  waits for the semaphore, runs its task, sends its result and releases the semaphore. The model
  is a step relation on the goroutines and the shared state: a step is one atomic action of any
  goroutine that can move, so that the runs are all interleavings. A token of the semaphore is a
  goroutine that runs; sending the result, releasing the token and the \<open>Done\<close> of the wait group are
  one step, as nothing waits between them (the channel of results has room). Waiting for the group,
  closing the results and counting them come when all goroutines are done: they are the end of
  \<open>run_pool\<close>, not steps.

  Shown: never more than \<open>workerCount\<close> tasks are in flight, there is no deadlock, every run ends,
  and a rely-guarantee rule that proves a postcondition of each task under every interleaving.
\<close>

section \<open>The pool\<close>

datatype (dead 's, 'a) goroutine =
    Waiting "('s, 'a) prog"
  | Running "('s, 'a) prog"
  | Done 'a

type_synonym ('s, 'a) pool = "('s, 'a) goroutine list \<times> 's"

fun running :: "('s, 'a) goroutine \<Rightarrow> bool" where
  "running (Running p) = True"
| "running g = False"

fun finished :: "('s, 'a) goroutine \<Rightarrow> bool" where
  "finished (Done a) = True"
| "finished g = False"

text \<open>The number of tokens in the semaphore channel.\<close>

definition in_flight :: "('s, 'a) goroutine list \<Rightarrow> nat" where
  "in_flight gs = length (filter running gs)"

definition spawn :: "('s, 'a) prog list \<Rightarrow> ('s, 'a) goroutine list" where
  "spawn tasks = map Waiting tasks"

inductive pool_step :: "nat \<Rightarrow> ('s, 'a) pool \<Rightarrow> ('s, 'a) pool \<Rightarrow> bool" for workers where
  acquire: "i < length gs \<Longrightarrow> gs ! i = Waiting p \<Longrightarrow> in_flight gs < workers \<Longrightarrow>
     pool_step workers (gs, s) (gs[i := Running p], s)"
| action: "i < length gs \<Longrightarrow> gs ! i = Running (Act f) \<Longrightarrow>
     pool_step workers (gs, s) (gs[i := Running (fst (f s))], snd (f s))"
| release: "i < length gs \<Longrightarrow> gs ! i = Running (Return a) \<Longrightarrow>
     pool_step workers (gs, s) (gs[i := Done a], s)"

inductive_cases pool_stepE: "pool_step workers (gs, s) c"

abbreviation pool_run :: "nat \<Rightarrow> ('s, 'a) pool \<Rightarrow> ('s, 'a) pool \<Rightarrow> bool" where
  "pool_run workers \<equiv> (pool_step workers)\<^sup>*\<^sup>*"

text \<open>The wait group's counter is zero when every goroutine is done; the results are then collected.\<close>

definition all_done :: "('s, 'a) goroutine list \<Rightarrow> bool" where
  "all_done gs = list_all finished gs"

fun outcome :: "('s, 'a) goroutine \<Rightarrow> 'a option" where
  "outcome (Done a) = Some a"
| "outcome g = None"

definition outcomes :: "('s, 'a) goroutine list \<Rightarrow> 'a list" where
  "outcomes gs = map (the \<circ> outcome) (filter finished gs)"

text \<open>A scheduler: the goroutine \<open>i\<close> moves, when it can; used to run a pool on concrete inputs.\<close>

definition step_at :: "nat \<Rightarrow> nat \<Rightarrow> ('s, 'a) pool \<Rightarrow> ('s, 'a) pool option" where
  "step_at workers i c = (case c of (gs, s) \<Rightarrow>
     if i < length gs then
       (case gs ! i of
          Waiting p \<Rightarrow> if in_flight gs < workers then Some (gs[i := Running p], s) else None
        | Running p \<Rightarrow>
            (case p of
               Return a \<Rightarrow> Some (gs[i := Done a], s)
             | Act f \<Rightarrow> Some (gs[i := Running (fst (f s))], snd (f s)))
        | Done a \<Rightarrow> None)
     else None)"

fun schedule :: "nat \<Rightarrow> nat list \<Rightarrow> ('s, 'a) pool \<Rightarrow> ('s, 'a) pool" where
  "schedule workers [] c = c"
| "schedule workers (i # is) c = schedule workers is (case step_at workers i c of None \<Rightarrow> c | Some c' \<Rightarrow> c')"

lemma step_at_sound: "step_at workers i c = Some c' \<Longrightarrow> pool_step workers c c'"
  by (auto simp: step_at_def split: prod.splits if_splits goroutine.splits prog.splits
      intro: pool_step.intros)

lemma step_at_complete: "pool_step workers c c' \<Longrightarrow> \<exists>i. step_at workers i c = Some c'"
proof (induction rule: pool_step.induct)
  case (acquire i gs p s)
  then have "step_at workers i (gs, s) = Some (gs[i := Running p], s)" by (simp add: step_at_def)
  then show ?case ..
next
  case (action i gs f s)
  then have "step_at workers i (gs, s) = Some (gs[i := Running (fst (f s))], snd (f s))"
    by (simp add: step_at_def)
  then show ?case ..
next
  case (release i gs a s)
  then have "step_at workers i (gs, s) = Some (gs[i := Done a], s)" by (simp add: step_at_def)
  then show ?case ..
qed

lemma schedule_run: "pool_run workers c (schedule workers is c)"
proof (induction "is" arbitrary: c)
  case (Cons i "is")
  then show ?case
    by (auto split: option.splits dest!: step_at_sound intro: converse_rtranclp_into_rtranclp)
qed simp

section \<open>The semaphore bounds the tasks in flight\<close>

lemma in_flight_update:
  assumes "i < length gs"
  shows "in_flight (gs[i := g]) + (if running (gs ! i) then 1 else 0) =
    in_flight gs + (if running g then 1 else 0)"
  using assms unfolding in_flight_def
proof (induction gs arbitrary: i)
  case (Cons h hs)
  then show ?case by (cases i) auto
qed simp

lemma in_flight_spawn [simp]: "in_flight (spawn tasks) = 0"
  by (auto simp: in_flight_def spawn_def filter_empty_conv)

lemma length_spawn [simp]: "length (spawn tasks) = length tasks"
  by (simp add: spawn_def)

lemma pool_step_bound:
  assumes "pool_step workers c c'" "in_flight (fst c) \<le> workers"
  shows "in_flight (fst c') \<le> workers \<and> length (fst c') = length (fst c)"
  using assms
proof (induction rule: pool_step.induct)
  case (acquire i gs p s)
  then show ?case using in_flight_update [of i gs "Running p"] by simp
next
  case (action i gs f s)
  then show ?case using in_flight_update [of i gs "Running (fst (f s))"] by simp
next
  case (release i gs a s)
  then show ?case using in_flight_update [of i gs "Done a"] by simp
qed

lemma pool_run_bound:
  assumes "pool_run workers c c'" "in_flight (fst c) \<le> workers"
  shows "in_flight (fst c') \<le> workers \<and> length (fst c') = length (fst c)"
  using assms by (induction rule: rtranclp_induct) (use pool_step_bound in force)+

section \<open>No deadlock\<close>

lemma pool_progress:
  assumes "0 < workers" "\<not> all_done gs"
  shows "\<exists>c'. pool_step workers (gs, s) c'"
proof (cases "\<exists>i < length gs. running (gs ! i)")
  case True
  then obtain i where "i < length gs" "running (gs ! i)" by blast
  then obtain p where i: "i < length gs" "gs ! i = Running p" by (cases "gs ! i") simp_all
  show ?thesis
  proof (cases p)
    case (Return a)
    show ?thesis by (rule exI, rule pool_step.release [OF i [unfolded Return]])
  next
    case (Act f)
    show ?thesis by (rule exI, rule pool_step.action [OF i [unfolded Act]])
  qed
next
  case False
  then have none: "in_flight gs = 0" by (auto simp: in_flight_def filter_empty_conv in_set_conv_nth)
  from assms(2) obtain i where i: "i < length gs" "\<not> finished (gs ! i)"
    by (auto simp: all_done_def list_all_length)
  with False obtain p where "gs ! i = Waiting p" by (cases "gs ! i") auto
  with i none assms(1) show ?thesis using pool_step.acquire [of i gs p workers s] by auto
qed

section \<open>Every run ends\<close>

text \<open>A goroutine only moves down: from waiting to running, along its program, to done.\<close>

inductive_set below :: "(('s, 'a) goroutine \<times> ('s, 'a) goroutine) set" where
  "(Running p, Waiting p) \<in> below"
| "(Running (fst (f s)), Running (Act f)) \<in> below"
| "(Done a, Running (Return a)) \<in> below"

inductive_cases below_Waiting: "(g, Waiting p) \<in> below"
inductive_cases below_Running: "(g, Running p) \<in> below"
inductive_cases below_Done: "(g, Done a) \<in> below"

lemma acc_Done: "Done a \<in> Wellfounded.acc below"
  by (rule accI, erule below_Done)

lemma acc_Running: "Running p \<in> Wellfounded.acc below"
proof (induction p rule: prog_induct)
  case (Return a)
  show ?case by (rule accI, erule below_Running) (simp_all add: acc_Done)
next
  case (Act f)
  show ?case
  proof (rule accI, erule below_Running)
    fix y g s
    assume "y = Running (fst (g s))" "Act f = Act g"
    then show "y \<in> Wellfounded.acc below" using Act [of s] by simp
  qed simp_all
qed

lemma wf_below: "wf below"
proof (rule acc_wfI, rule allI)
  fix g :: "('a, 'b) goroutine"
  show "g \<in> Wellfounded.acc below"
  proof (cases g)
    case (Waiting p)
    show ?thesis
      unfolding Waiting by (rule accI, erule below_Waiting) (simp add: acc_Running)
  next
    case (Running p)
    then show ?thesis by (simp add: acc_Running)
  next
    case (Done a)
    then show ?thesis by (simp add: acc_Done)
  qed
qed

lemma mset_update_mult1:
  assumes "i < length gs" "(g, gs ! i) \<in> below"
  shows "(mset (gs[i := g]), mset gs) \<in> mult1 below"
proof -
  let ?M = "mset gs - {#gs ! i#}"
  have "mset (gs[i := g]) = add_mset g ?M" using assms(1) by (rule mset_update)
  moreover have "mset gs = add_mset (gs ! i) ?M" using assms(1) by simp
  ultimately have "\<exists>a M0 K. mset gs = add_mset a M0 \<and> mset (gs[i := g]) = M0 + K \<and>
      (\<forall>b. b \<in># K \<longrightarrow> (b, a) \<in> below)"
    using assms(2) by (intro exI [of _ "gs ! i"] exI [of _ ?M] exI [of _ "{#g#}"]) auto
  then show ?thesis by (simp add: mult1_def)
qed

lemma pool_step_decreases:
  "pool_step workers c c' \<Longrightarrow> (mset (fst c'), mset (fst c)) \<in> mult1 below"
  by (induction rule: pool_step.induct) (auto intro!: mset_update_mult1 below.intros)

lemma pool_terminates_lemma: "wfP (\<lambda>c' c. pool_step workers c c')"
proof -
  have "wf (inv_image (mult1 below) (\<lambda>c. mset (fst c)))"
    by (intro wf_inv_image wf_mult1 wf_below)
  then have "wf {(c', c). pool_step workers c c'}"
    by (rule wf_subset) (auto dest: pool_step_decreases)
  then show ?thesis by (simp add: wfp_def)
qed

lemma pool_completes:
  assumes "0 < workers"
  shows "\<exists>gs' s'. pool_run workers c (gs', s') \<and> all_done gs'"
proof (induction c rule: wfp_induct_rule [OF pool_terminates_lemma [of workers]])
  case (1 c)
  show ?case
  proof (cases "all_done (fst c)")
    case True
    then show ?thesis by (cases c) auto
  next
    case False
    with pool_progress [OF assms, of "fst c" "snd c"] obtain c' where "pool_step workers c c'" by auto
    with 1 [of c'] show ?thesis by (meson converse_rtranclp_into_rtranclp)
  qed
qed

lemma outcomes_all_done: "all_done gs \<Longrightarrow> length (outcomes gs) = length gs"
  by (induction gs) (auto simp: all_done_def outcomes_def)

section \<open>One task after the other\<close>

text \<open>Among the runs of a pool is the one that takes the tasks in their order.\<close>

fun run_seq :: "('s, 'a) prog list \<Rightarrow> 's \<Rightarrow> 'a list \<times> 's" where
  "run_seq [] s = ([], s)"
| "run_seq (p # ps) s =
     (case run_prog p s of (a, s1) \<Rightarrow> case run_seq ps s1 of (as, s2) \<Rightarrow> (a # as, s2))"

lemma run_alone:
  "i < length gs \<Longrightarrow> pool_run workers (gs[i := Running p], s)
     (gs[i := Done (fst (run_prog p s))], snd (run_prog p s))"
proof (induction p arbitrary: s rule: prog_induct)
  case (Return a)
  then show ?case
    using pool_step.release [of i "gs[i := Running (Return a)]" a workers s] by (intro r_into_rtranclp) simp
next
  case (Act f)
  have "pool_step workers (gs[i := Running (Act f)], s) (gs[i := Running (fst (f s))], snd (f s))"
    using Act.prems pool_step.action [of i "gs[i := Running (Act f)]" f workers s] by simp
  moreover have "pool_run workers (gs[i := Running (fst (f s))], snd (f s))
      (gs[i := Done (fst (run_prog (Act f) s))], snd (run_prog (Act f) s))"
    unfolding run_Act by (rule Act.IH [OF Act.prems])
  ultimately show ?case by (rule converse_rtranclp_into_rtranclp)
qed

lemma all_done_Done [simp]: "all_done (map Done as)" "outcomes (map Done as) = as"
  by (auto simp: all_done_def list_all_iff outcomes_def comp_def filter_map)

lemma in_flight_Done: "in_flight (map Done as @ gs) = in_flight gs"
  by (induction as) (simp_all add: in_flight_def)

lemma pool_run_seq:
  assumes "0 < workers"
  shows "pool_run workers (map Done as @ spawn tasks, s)
    (map Done (as @ fst (run_seq tasks s)), snd (run_seq tasks s))"
proof (induction tasks arbitrary: as s)
  case Nil
  show ?case by (simp add: spawn_def)
next
  case (Cons p ps)
  let ?gs = "map Done as @ Waiting p # spawn ps" and ?i = "length as"
  obtain a s1 where run: "run_prog p s = (a, s1)" by (rule prod.exhaust)
  obtain bs s2 where seq: "run_seq ps s1 = (bs, s2)" by (rule prod.exhaust)
  have upd: "?gs[?i := g] = map Done as @ g # spawn ps" for g
    by (simp add: list_update_append)
  have "in_flight ?gs < workers"
  proof -
    have "in_flight (Waiting p # spawn ps) = in_flight (spawn ps)" by (simp add: in_flight_def)
    then show ?thesis using assms by (simp add: in_flight_Done)
  qed
  then have "pool_step workers (?gs, s) (?gs[?i := Running p], s)"
    by (intro pool_step.acquire) (simp_all add: nth_append)
  moreover have "pool_run workers (?gs[?i := Running p], s) (?gs[?i := Done a], s1)"
    using run_alone [of ?i ?gs workers p s] by (simp add: run)
  moreover have "pool_run workers (?gs[?i := Done a], s1) (map Done (as @ a # bs), s2)"
    using Cons.IH [of "as @ [a]" s1] unfolding upd by (simp add: seq)
  ultimately have "pool_run workers (?gs, s) (map Done (as @ a # bs), s2)"
    by (meson converse_rtranclp_into_rtranclp rtranclp_trans)
  then show ?case by (simp add: spawn_def run seq)
qed

section \<open>Rely and guarantee\<close>

text \<open>
  \<open>rg R G Q p s\<close>: started in \<open>s\<close>, with the others changing the state only along \<open>R\<close> between its
  actions, \<open>p\<close> changes the state only along \<open>G\<close>, and when it returns a value, \<open>Q\<close> holds of it and
  keeps holding. Programs are finite trees, so this also bounds what a task can do.
\<close>

primrec rg :: "('s \<Rightarrow> 's \<Rightarrow> bool) \<Rightarrow> ('s \<Rightarrow> 's \<Rightarrow> bool) \<Rightarrow> ('a \<Rightarrow> 's \<Rightarrow> bool) \<Rightarrow>
    ('s, 'a) prog \<Rightarrow> 's \<Rightarrow> bool" where
  "rg R G Q (Return a) = (\<lambda>s. \<forall>s'. R s s' \<longrightarrow> Q a s')"
| "rg R G Q (Act f) =
     (\<lambda>s. \<forall>s'. R s s' \<longrightarrow> (case map_prod (rg R G Q) id (f s') of (k, s'') \<Rightarrow> G s' s'' \<and> k s''))"

lemma rg_Act:
  "rg R G Q (Act f) s \<longleftrightarrow>
     (\<forall>s'. R s s' \<longrightarrow> G s' (snd (f s')) \<and> rg R G Q (fst (f s')) (snd (f s')))"
  by (simp add: map_prod_def case_prod_unfold)

lemmas rg_simps = rg.simps(1) rg_Act

lemma rg_stable:
  assumes "rg R G Q p s" "R s s'" "transp R"
  shows "rg R G Q p s'"
proof (cases p)
  case (Return a)
  with assms show ?thesis by (auto dest: transpD)
next
  case (Act f)
  have "R s t" if "R s' t" for t using that assms(2,3) by (blast dest: transpD)
  with assms(1) show ?thesis unfolding Act rg_Act by blast
qed

lemma rg_bind:
  assumes "rg R G (\<lambda>a s. rg R G Q (g a) s) p s" "reflp R"
  shows "rg R G Q (bind_prog p g) s"
  using assms(1)
proof (induction p arbitrary: s rule: prog_induct)
  case (Return a)
  then show ?case using assms(2) by (auto dest: reflpD)
next
  case (Act f)
  show ?case
    unfolding bind_Act rg_Act fst_conv snd_conv
    using Act.prems Act.IH by (auto simp: rg_Act simp del: rg.simps(2))
qed

lemma rg_conseq:
  assumes "rg R G Q p s" "\<And>a s. Q a s \<Longrightarrow> Q' a s"
  shows "rg R G Q' p s"
  using assms(1)
proof (induction p arbitrary: s rule: prog_induct)
  case (Act f)
  then show ?case by (auto simp: rg_Act simp del: rg.simps(2))
qed (auto intro: assms(2))

lemma rg_act:
  assumes "\<And>s'. R s s' \<Longrightarrow> G s' (snd (f s'))"
    and "\<And>s' s''. R s s' \<Longrightarrow> R (snd (f s')) s'' \<Longrightarrow> Q (fst (f s')) s''"
  shows "rg R G Q (act f) s"
  using assms by (auto simp: act_def rg_Act simp del: rg.simps(2))

text \<open>A task alone: the rely that allows nothing.\<close>

lemma rg_run:
  assumes "rg (=) G Q p s"
  shows "Q (fst (run_prog p s)) (snd (run_prog p s))"
  using assms
proof (induction p arbitrary: s rule: prog_induct)
  case (Act f)
  then show ?case unfolding run_Act rg_Act by auto
qed simp

subsection \<open>Triples over what a task can see\<close>

text \<open>
  A task depends on a part \<open>look s\<close> of the state, which nobody else changes while it runs.
  \<open>triple look G A p B\<close>: from a state whose visible part satisfies \<open>A\<close>, the program keeps the
  guarantee, and its result and the visible part at the end satisfy \<open>B\<close>.
\<close>

definition unchanged :: "('s \<Rightarrow> 'v) \<Rightarrow> 's \<Rightarrow> 's \<Rightarrow> bool" where
  "unchanged look s s' \<longleftrightarrow> look s' = look s"

lemma unchanged_refl: "reflp (unchanged look)" and unchanged_trans: "transp (unchanged look)"
  by (auto simp: unchanged_def reflp_def transp_def)

definition triple :: "('s \<Rightarrow> 'v) \<Rightarrow> ('s \<Rightarrow> 's \<Rightarrow> bool) \<Rightarrow> ('v \<Rightarrow> bool) \<Rightarrow> ('s, 'a) prog \<Rightarrow>
    ('a \<Rightarrow> 'v \<Rightarrow> bool) \<Rightarrow> bool" where
  "triple look G A p B \<longleftrightarrow> (\<forall>s. A (look s) \<longrightarrow> rg (unchanged look) G (\<lambda>a s. B a (look s)) p s)"

lemma triple_return: "(\<And>v. A v \<Longrightarrow> B a v) \<Longrightarrow> triple look G A (Return a) B"
  by (auto simp: triple_def unchanged_def)

lemma triple_bind:
  assumes "triple look G A p B" "\<And>a. triple look G (B a) (g a) C"
  shows "triple look G A (bind_prog p g) C"
  unfolding triple_def
proof (intro allI impI rg_bind [OF _ unchanged_refl])
  fix s assume "A (look s)"
  with assms(1) have "rg (unchanged look) G (\<lambda>a s. B a (look s)) p s" by (simp add: triple_def)
  then show "rg (unchanged look) G (\<lambda>a. rg (unchanged look) G (\<lambda>a s. C a (look s)) (g a)) p s"
    by (rule rg_conseq) (use assms(2) in \<open>simp add: triple_def\<close>)
qed

lemma triple_act:
  assumes "\<And>s. A (look s) \<Longrightarrow> G s (snd (f s)) \<and> B (fst (f s)) (look (snd (f s)))"
  shows "triple look G A (act f) B"
  unfolding triple_def by (intro allI impI rg_act) (use assms in \<open>auto simp: unchanged_def\<close>)

lemma triple_conseq:
  assumes "triple look G A p B" "\<And>v. A' v \<Longrightarrow> A v" "\<And>a v. B a v \<Longrightarrow> B' a v"
  shows "triple look G A' p B'"
  using assms unfolding triple_def by (blast intro: rg_conseq)

lemma triple_pure:
  assumes "P \<Longrightarrow> triple look G A p B"
  shows "triple look G (\<lambda>v. P \<and> A v) p B"
  using assms by (auto simp: triple_def)

lemma triple_exists:
  assumes "\<And>x. triple look G (A x) p B"
  shows "triple look G (\<lambda>v. \<exists>x. A x v) p B"
  using assms by (auto simp: triple_def)

subsection \<open>All tasks of a pool\<close>

text \<open>What is left of a goroutine satisfies its rely, guarantee and postcondition.\<close>

fun rg_go :: "('s \<Rightarrow> 's \<Rightarrow> bool) \<Rightarrow> ('s \<Rightarrow> 's \<Rightarrow> bool) \<Rightarrow> ('a \<Rightarrow> 's \<Rightarrow> bool) \<Rightarrow>
    ('s, 'a) goroutine \<Rightarrow> 's \<Rightarrow> bool" where
  "rg_go R G Q (Waiting p) s = rg R G Q p s"
| "rg_go R G Q (Running p) s = rg R G Q p s"
| "rg_go R G Q (Done a) s = (\<forall>s'. R s s' \<longrightarrow> Q a s')"

lemma rg_go_stable:
  assumes "rg_go R G Q g s" "R s s'" "transp R"
  shows "rg_go R G Q g s'"
  using assms by (cases g) (auto intro: rg_stable dest: transpD)

definition compatible :: "nat \<Rightarrow> (nat \<Rightarrow> 's \<Rightarrow> 's \<Rightarrow> bool) \<Rightarrow> (nat \<Rightarrow> 's \<Rightarrow> 's \<Rightarrow> bool) \<Rightarrow> bool" where
  "compatible n R G \<longleftrightarrow> (\<forall>i < n. reflp (R i) \<and> transp (R i)) \<and>
     (\<forall>i < n. \<forall>j < n. i \<noteq> j \<longrightarrow> (\<forall>s s'. G i s s' \<longrightarrow> R j s s'))"

lemma pool_step_rg:
  assumes "pool_step workers c c'" "compatible (length (fst c)) R G"
    and "\<forall>i < length (fst c). rg_go (R i) (G i) (Q i) (fst c ! i) (snd c)"
  shows "(\<forall>i < length (fst c'). rg_go (R i) (G i) (Q i) (fst c' ! i) (snd c')) \<and>
    (snd c' = snd c \<or> (\<exists>i < length (fst c). G i (snd c) (snd c')))"
  using assms
proof (induction rule: pool_step.induct)
  case (acquire i gs p s)
  then have "rg_go (R i) (G i) (Q i) (Waiting p) s" by force
  with acquire show ?case by (auto simp: nth_list_update)
next
  case (release i gs a s)
  then have "rg_go (R i) (G i) (Q i) (Running (Return a)) s" by force
  with release show ?case by (auto simp: nth_list_update)
next
  case (action i gs f s)
  then have "rg_go (R i) (G i) (Q i) (Running (Act f)) s" by force
  moreover have "R i s s" using action by (auto simp: compatible_def dest: reflpD)
  ultimately have step: "G i s (snd (f s))" "rg (R i) (G i) (Q i) (fst (f s)) (snd (f s))"
    by (auto simp: rg_Act simp del: rg.simps(2))
  have "\<exists>i < length gs. G i s (snd (f s))" using step(1) action.hyps(1) by blast
  moreover have "\<forall>j < length (fst (gs[i := Running (fst (f s))], snd (f s))).
    rg_go (R j) (G j) (Q j) (fst (gs[i := Running (fst (f s))], snd (f s)) ! j)
      (snd (gs[i := Running (fst (f s))], snd (f s)))"
  proof (intro allI impI)
    fix j assume j: "j < length (fst (gs[i := Running (fst (f s))], snd (f s)))"
    show "rg_go (R j) (G j) (Q j) (fst (gs[i := Running (fst (f s))], snd (f s)) ! j)
        (snd (gs[i := Running (fst (f s))], snd (f s)))"
    proof (cases "j = i")
      case True
      with step action.hyps(1) show ?thesis by simp
    next
      case False
      with j step(1) action have "R j s (snd (f s))" "transp (R j)"
        by (auto simp: compatible_def)
      with False j action.prems(2) show ?thesis by (auto intro: rg_go_stable)
    qed
  qed
  ultimately show ?case by simp
qed

lemma pool_run_rg:
  assumes "pool_run workers c c'" "compatible (length (fst c)) R G"
    and "\<forall>i < length (fst c). rg_go (R i) (G i) (Q i) (fst c ! i) (snd c)"
    and "reflp T" "transp T" "\<And>i s s'. i < length (fst c) \<Longrightarrow> G i s s' \<Longrightarrow> T s s'"
  shows "length (fst c') = length (fst c) \<and>
    (\<forall>i < length (fst c'). rg_go (R i) (G i) (Q i) (fst c' ! i) (snd c')) \<and> T (snd c) (snd c')"
  using assms(1)
proof (induction rule: rtranclp_induct)
  case base
  show ?case using assms(3,4) by (simp add: reflpD)
next
  case (step y z)
  have len: "length (fst z) = length (fst y)"
    using step.hyps(2) by (induction rule: pool_step.induct) simp_all
  have "(\<forall>i < length (fst z). rg_go (R i) (G i) (Q i) (fst z ! i) (snd z)) \<and>
      (snd z = snd y \<or> (\<exists>i < length (fst y). G i (snd y) (snd z)))"
    by (rule pool_step_rg [OF step.hyps(2)]) (use step.IH assms(2) in simp_all)
  moreover from this have "T (snd y) (snd z)" using assms(4,6) step.IH by (auto dest: reflpD)
  ultimately show ?case using step.IH len assms(5) by (auto dest: transpD)
qed

text \<open>
  The rule: at the end, every task's postcondition holds of its result, and the state has changed
  only along what the guarantees allow.
\<close>

lemma pool_rely_guarantee:
  assumes "pool_run workers (spawn tasks, s) (gs, s')" "all_done gs"
    and "compatible (length tasks) R G"
    and "\<And>i. i < length tasks \<Longrightarrow> rg (R i) (G i) (Q i) (tasks ! i) s"
    and "reflp T" "transp T" "\<And>i s s'. i < length tasks \<Longrightarrow> G i s s' \<Longrightarrow> T s s'"
  shows "length (outcomes gs) = length tasks \<and>
    (\<forall>i < length tasks. Q i (outcomes gs ! i) s') \<and> T s s'"
proof -
  have "length gs = length tasks \<and> (\<forall>i < length gs. rg_go (R i) (G i) (Q i) (gs ! i) s') \<and> T s s'"
    using pool_run_rg [OF assms(1), of R G Q T] assms(3-) by (simp add: spawn_def)
  then have len: "length gs = length tasks" and T: "T s s'"
    and go: "\<And>i. i < length tasks \<Longrightarrow> rg_go (R i) (G i) (Q i) (gs ! i) s'" by simp_all
  have out: "outcomes gs = map (the \<circ> outcome) gs"
    using assms(2) by (simp add: outcomes_def all_done_def list_all_iff)
  have "Q i (outcomes gs ! i) s'" if i: "i < length tasks" for i
  proof -
    from assms(2) i len have "finished (gs ! i)" by (simp add: all_done_def list_all_length)
    then obtain a where a: "gs ! i = Done a" by (cases "gs ! i") simp_all
    have "R i s' s'" using assms(3) i by (auto simp: compatible_def dest: reflpD)
    with go [OF i] a have "Q i a s'" by auto
    with a i len show ?thesis by (simp add: out)
  qed
  then show ?thesis by (simp add: out len T)
qed

text \<open>What every action of every task keeps, the pool keeps.\<close>

primrec guarantees :: "('s \<Rightarrow> 's \<Rightarrow> bool) \<Rightarrow> ('s, 'a) prog \<Rightarrow> bool" where
  "guarantees G (Return a) = True"
| "guarantees G (Act f) = (\<forall>s. case map_prod (guarantees G) id (f s) of (k, s') \<Rightarrow> G s s' \<and> k)"

lemma guarantees_Act:
  "guarantees G (Act f) \<longleftrightarrow> (\<forall>s. G s (snd (f s)) \<and> guarantees G (fst (f s)))"
  by (simp add: map_prod_def case_prod_unfold)

lemma guarantees_act [intro]: "(\<And>s. G s (snd (f s))) \<Longrightarrow> guarantees G (act f)"
  by (simp add: act_def guarantees_Act del: guarantees.simps(2))

lemma guarantees_bind [intro]:
  assumes "guarantees G p" "\<And>a. guarantees G (g a)"
  shows "guarantees G (bind_prog p g)"
  using assms(1)
proof (induction p rule: prog_induct)
  case (Act f)
  then show ?case unfolding bind_Act guarantees_Act by simp
qed (simp add: assms(2))

lemma guarantees_run:
  assumes "guarantees G p" "reflp G" "transp G"
  shows "G s (snd (run_prog p s))"
  using assms(1)
proof (induction p arbitrary: s rule: prog_induct)
  case (Return a)
  then show ?case using assms(2) by (simp add: reflpD)
next
  case (Act f)
  then have "G s (snd (f s))" "G (snd (f s)) (snd (run_prog (fst (f s)) (snd (f s))))"
    by (simp_all add: guarantees_Act del: guarantees.simps(2))
  with assms(3) show ?case unfolding run_Act by (blast dest: transpD)
qed

fun program :: "('s, 'a) goroutine \<Rightarrow> ('s, 'a) prog" where
  "program (Waiting p) = p"
| "program (Running p) = p"
| "program (Done a) = Return a"

lemma pool_step_guarantees:
  assumes "pool_step workers c c'" "\<forall>g \<in> set (fst c). guarantees G (program g)" "reflp G"
  shows "(\<forall>g \<in> set (fst c'). guarantees G (program g)) \<and> G (snd c) (snd c')"
  using assms
proof (induction rule: pool_step.induct)
  case (acquire i gs p s)
  then have "guarantees G (program (Waiting p))" by (metis fst_conv nth_mem)
  with acquire show ?case by (auto dest: reflpD set_update_subset_insert [THEN subsetD])
next
  case (action i gs f s)
  then have "guarantees G (program (Running (Act f)))" by (metis fst_conv nth_mem)
  then have "G s (snd (f s))" "guarantees G (fst (f s))"
    by (simp_all add: guarantees_Act del: guarantees.simps(2))
  with action show ?case by (auto dest: set_update_subset_insert [THEN subsetD])
next
  case (release i gs a s)
  then show ?case by (auto dest: reflpD set_update_subset_insert [THEN subsetD])
qed

lemma pool_run_guarantees:
  assumes "pool_run workers (spawn tasks, s) (gs, s')" "list_all (guarantees G) tasks" "reflp G" "transp G"
  shows "G s s'"
proof -
  have "(\<forall>g \<in> set (fst c'). guarantees G (program g)) \<and> G (snd c) (snd c')"
    if "pool_run workers c c'" "\<forall>g \<in> set (fst c). guarantees G (program g)" for c c' :: "('a, 'b) pool"
    using that
  proof (induction rule: rtranclp_induct)
    case base
    then show ?case using assms(3) by (simp add: reflpD)
  next
    case (step y z)
    then show ?case using pool_step_guarantees [of workers y z G] assms(3,4) by (blast dest: transpD)
  qed
  from this [OF assms(1)] assms(2) show ?thesis by (auto simp: spawn_def list_all_iff)
qed

section \<open>Properties\<close>

text \<open>
  C37: The semaphore works: however the goroutines are interleaved, never more than
  \<open>workerCount\<close> tasks are in flight, and the pool never loses a goroutine.
\<close>

theorem pool_bounded:
  assumes "pool_run workers (spawn tasks, s) (gs, s')"
  shows "in_flight gs \<le> workers \<and> length gs = length tasks"
  using pool_run_bound [OF assms] by simp

lemma pool_bounded_witness:
  "in_flight [Running (Return True), Waiting (Return False :: (unit, bool) prog)] \<le> 1"
proof -
  have "pool_run 1 (spawn [Return True, Return False], ())
      ([Running (Return True), Waiting (Return False)], ())"
    using schedule_run [of 1 "(spawn [Return True, Return False], ())" "[0, 1]"]
    by (simp add: step_at_def spawn_def in_flight_def)
  from pool_bounded [OF this] show ?thesis by (rule conjunct1)
qed

text \<open>
  C36: The pool always finishes: no run of it is infinite, and as long as a goroutine is not done
  (with at least one worker) some goroutine can move, so that the wait group is released, with
  exactly one result per task.
\<close>

theorem pool_finishes:
  assumes "0 < workers"
  shows "wfP (\<lambda>c' c :: ('s, 'a) pool. pool_step workers c c') \<and>
    (\<forall>gs s. all_done gs \<or> (\<exists>c' :: ('s, 'a) pool. pool_step workers (gs, s) c')) \<and>
    (\<forall>tasks s. \<exists>gs' s'. pool_run workers (spawn tasks :: ('s, 'a) goroutine list, s) (gs', s') \<and> all_done gs' \<and>
      length (outcomes gs') = length tasks)"
proof (intro conjI allI)
  show "wfP (\<lambda>c' c :: ('s, 'a) pool. pool_step workers c c')" by (rule pool_terminates_lemma)
  show "all_done gs \<or> (\<exists>c' :: ('s, 'a) pool. pool_step workers (gs, s) c')" for gs s
  proof (cases "all_done gs")
    case True
    then show ?thesis by (rule disjI1)
  next
    case False
    show ?thesis by (rule disjI2 [OF pool_progress [OF assms False]])
  qed
  fix tasks :: "('s, 'a) prog list" and s
  obtain gs' s' where run: "pool_run workers (spawn tasks, s) (gs', s')" "all_done gs'"
    using pool_completes [OF assms, of "(spawn tasks, s)"] by (elim exE conjE)
  have "length gs' = length tasks" using pool_run_bound [OF run(1)] by simp
  with outcomes_all_done [OF run(2)] have "length (outcomes gs') = length tasks" by simp
  with run show "\<exists>gs' s'. pool_run workers (spawn tasks, s) (gs', s') \<and> all_done gs' \<and>
      length (outcomes gs') = length tasks" by (intro exI conjI)
qed

lemma pool_finishes_witness:
  "\<exists>gs' s'. pool_run 2 (spawn [Return True, act (\<lambda>n. (n < 3, Suc n))], 0 :: nat) (gs', s') \<and> all_done gs'"
proof -
  have "0 < (2 :: nat)" by simp
  from pool_finishes [OF this, THEN conjunct2, THEN conjunct2, rule_format,
      of "[Return True, act (\<lambda>n. (n < 3, Suc n))]" "0 :: nat"]
  obtain gs' s' where "pool_run 2 (spawn [Return True, act (\<lambda>n. (n < 3, Suc n))], 0 :: nat) (gs', s')"
    "all_done gs'" by (elim exE conjE)
  then show ?thesis by (intro exI conjI)
qed

end
