(* ===== verification/Go_Store.thy ===== *)
theory Go_Store
  imports Go_Pool
begin

text \<open>
  The persistence of sync objects and sync runs (\<open>storage/store.go\<close>, on SQLite): each method is a
  program whose atomic actions are its SQL statements and its readings of the clock, so that
  goroutines interleave between the UPDATE and the INSERT of an upsert. Shown: an upsert stores
  what it is given and touches no other key, and a lookup after it finds it; and for any number of
  concurrent upserts, one that succeeds leaves a row of its key as the last upsert of the key has
  written it, and one fails only with a statement or with the race of another upsert of its key.

  The SQL engine is the state of two tables; it can fail at any statement (\<open>db_error\<close>, by
  statement number), and an INSERT that repeats a key fails: the schema declares the columns unique,
  so that the rows stay unique whatever the code does. The number of affected rows is that of the
  matched ones, as SQLite counts them. The clock (\<open>clock\<close>,
  nanoseconds) is read in the same way. Both are parameters in the state that no code changes.
\<close>

section \<open>Tables\<close>

record SyncObject =
  so_ID :: int
  so_SyncID :: string
  so_SourceVaultID :: string
  so_TargetVaultID :: string
  so_SecretName :: string
  so_ExternalID :: string
  so_SourceChecksum :: string
  so_TargetChecksum :: string
  so_LastSyncTime :: int
  so_LastSyncStatus :: string
  so_LastSyncError :: string
  so_SyncCount :: int
  so_FailureCount :: int
  so_DirectionLast :: string

record sync_row = SyncObject +
  so_updated_at :: int

record SyncRun =
  run_ID :: int
  run_SyncID :: string
  run_Status :: string
  run_TotalSynced :: int
  run_TotalFailed :: int
  run_DurationMs :: int
  run_ErrorMessage :: string
  run_CreatedAt :: int

record db =
  sync_objects :: "sync_row list"
  next_object_id :: int
  syncs_run :: "SyncRun list"
  next_run_id :: int
  db_error :: "nat \<Rightarrow> go_error option"
  clock :: "nat \<Rightarrow> int"
  tick :: nat

text \<open>The columns of \<open>UNIQUE(sync_id, source_vault_id, target_vault_id, secret_name)\<close>.\<close>

type_synonym key = "string \<times> string \<times> string \<times> string"

definition key_of :: "'a SyncObject_scheme \<Rightarrow> key" where
  "key_of r = (so_SyncID r, so_SourceVaultID r, so_TargetVaultID r, so_SecretName r)"

section \<open>Statements and the clock\<close>

definition db_exec :: "('a db_scheme \<Rightarrow> (go_error + 'r) \<times> 'a db_scheme) \<Rightarrow> ('a db_scheme, go_error + 'r) prog" where
  "db_exec stmt = act (\<lambda>s. let s' = s\<lparr>tick := Suc (tick s)\<rparr> in
     case db_error s (tick s) of Some e \<Rightarrow> (Inl e, s') | None \<Rightarrow> stmt s')"

definition time_now :: "('a db_scheme, int) prog" where
  "time_now = act (\<lambda>s. (clock s (tick s), s\<lparr>tick := Suc (tick s)\<rparr>))"

definition Unix :: "int \<Rightarrow> int" where
  "Unix t = t div 1000000000"

section \<open>The methods\<close>

definition set_columns :: "SyncObject \<Rightarrow> int \<Rightarrow> sync_row \<Rightarrow> sync_row" where
  "set_columns obj now r =
     r\<lparr>so_ExternalID := so_ExternalID obj, so_SourceChecksum := so_SourceChecksum obj,
       so_TargetChecksum := so_TargetChecksum obj, so_LastSyncTime := so_LastSyncTime obj,
       so_LastSyncStatus := so_LastSyncStatus obj, so_LastSyncError := so_LastSyncError obj,
       so_SyncCount := so_SyncCount obj, so_FailureCount := so_FailureCount obj,
       so_DirectionLast := so_DirectionLast obj, so_updated_at := now\<rparr>"

definition update_object :: "SyncObject \<Rightarrow> int \<Rightarrow> 'a db_scheme \<Rightarrow> (go_error + nat) \<times> 'a db_scheme" where
  "update_object obj now s =
     (Inr (length (filter (\<lambda>r. key_of r = key_of obj) (sync_objects s))),
      s\<lparr>sync_objects := map (\<lambda>r. if key_of r = key_of obj then set_columns obj now r else r) (sync_objects s)\<rparr>)"

definition insert_object :: "SyncObject \<Rightarrow> int \<Rightarrow> 'a db_scheme \<Rightarrow> (go_error + nat) \<times> 'a db_scheme" where
  "insert_object obj now s =
     (if list_ex (\<lambda>r. key_of r = key_of obj) (sync_objects s)
      then (Inl ''UNIQUE constraint failed'', s)
      else (Inr 1, s\<lparr>sync_objects := sync_objects s @
              [SyncObject.extend (obj\<lparr>so_ID := next_object_id s\<rparr>) (sync_row.fields now)],
            next_object_id := next_object_id s + 1\<rparr>))"

definition UpsertSyncObject :: "SyncObject \<Rightarrow> ('a db_scheme, go_error option) prog" where
  "UpsertSyncObject obj =
     bind_prog time_now (\<lambda>t.
     bind_prog (db_exec (update_object obj (Unix t))) (\<lambda>res.
       case res of
         Inl err \<Rightarrow> Return (Some err)
       | Inr n \<Rightarrow>
           if n = 0 then
             bind_prog (db_exec (insert_object obj (Unix t))) (\<lambda>res2.
               case res2 of Inl err \<Rightarrow> Return (Some err) | Inr m \<Rightarrow> Return None)
           else Return None))"

definition find_object :: "key \<Rightarrow> 'a db_scheme \<Rightarrow> SyncObject option" where
  "find_object k s = map_option SyncObject.truncate (find (\<lambda>r. key_of r = k) (sync_objects s))"

definition GetSyncObject ::
  "string \<Rightarrow> string \<Rightarrow> string \<Rightarrow> string \<Rightarrow> ('a db_scheme, go_error + SyncObject option) prog" where
  "GetSyncObject syncID sourceVaultID targetVaultID secretName =
     db_exec (\<lambda>s. (Inr (find_object (syncID, sourceVaultID, targetVaultID, secretName) s), s))"

text \<open>Rows with the same \<open>updated_at\<close> come in the order of their insertion (SQL leaves it open).\<close>

definition GetSyncObjectsBySync :: "string \<Rightarrow> ('a db_scheme, go_error + SyncObject list) prog" where
  "GetSyncObjectsBySync syncID =
     db_exec (\<lambda>s. (Inr (map SyncObject.truncate (sort_key (\<lambda>r. - so_updated_at r)
       (filter (\<lambda>r. so_SyncID r = syncID) (sync_objects s)))), s))"

definition RecordSyncRun ::
  "string \<Rightarrow> string \<Rightarrow> int \<Rightarrow> int \<Rightarrow> int \<Rightarrow> string \<Rightarrow> ('a db_scheme, go_error option) prog" where
  "RecordSyncRun syncID status totalSynced totalFailed durationMs errorMsg =
     bind_prog (db_exec (\<lambda>s. (Inr (), s\<lparr>syncs_run := syncs_run s @
         [\<lparr>run_ID = next_run_id s, run_SyncID = syncID, run_Status = status, run_TotalSynced = totalSynced,
           run_TotalFailed = totalFailed, run_DurationMs = durationMs, run_ErrorMessage = errorMsg,
           run_CreatedAt = Unix (clock s (tick s))\<rparr>],
         next_run_id := next_run_id s + 1\<rparr>)))
       (\<lambda>res. case res of Inl err \<Rightarrow> Return (Some err) | Inr _ \<Rightarrow> Return None)"

definition GetSyncRuns :: "string \<Rightarrow> int \<Rightarrow> ('a db_scheme, go_error + SyncRun list) prog" where
  "GetSyncRuns syncID limit =
     (let limit = (if limit \<le> 0 then 100 else limit) in
      db_exec (\<lambda>s. (Inr (take (nat limit) (sort_key (\<lambda>r. - run_CreatedAt r)
        (filter (\<lambda>r. run_SyncID r = syncID) (syncs_run s)))), s)))"

section \<open>Keys stay unique\<close>

definition store_wf :: "'a db_scheme \<Rightarrow> bool" where
  "store_wf s \<longleftrightarrow> distinct (map key_of (sync_objects s)) \<and> distinct (map so_ID (sync_objects s)) \<and>
     (\<forall>r \<in> set (sync_objects s). so_ID r < next_object_id s)"

text \<open>What every action of the store keeps: well-formedness, and the parameters of the model.\<close>

definition store_step :: "'a db_scheme \<Rightarrow> 'a db_scheme \<Rightarrow> bool" where
  "store_step s s' \<longleftrightarrow> (store_wf s \<longrightarrow> store_wf s') \<and> db_error s' = db_error s \<and> clock s' = clock s"

lemma store_step_refl: "reflp store_step" and store_step_trans: "transp store_step"
  by (auto simp: store_step_def reflp_def transp_def)

lemma key_of_set_columns [simp]: "key_of (set_columns obj now r) = key_of r" "so_ID (set_columns obj now r) = so_ID r"
  by (simp_all add: key_of_def set_columns_def)

lemma key_of_row [simp]:
  "key_of (SyncObject.extend obj ext) = key_of obj" "key_of (SyncObject.truncate r) = key_of r"
  "key_of (obj\<lparr>so_ID := i\<rparr>) = key_of obj"
  by (simp_all add: key_of_def SyncObject.defs)

lemma truncate_extend [simp]: "SyncObject.truncate (SyncObject.extend obj ext) = obj"
  by (simp add: SyncObject.defs)

lemma so_ID_row [simp]: "so_ID (SyncObject.extend obj ext) = so_ID obj"
  by (simp add: SyncObject.defs)

lemma map_if_same [simp]:
  "map key_of (map (\<lambda>r. if P r then set_columns obj now r else r) rs) = map key_of rs"
  "map so_ID (map (\<lambda>r. if P r then set_columns obj now r else r) rs) = map so_ID rs"
  by (simp_all add: comp_def if_distrib cong: if_cong)

lemma store_wf_tick [simp]: "store_wf (s\<lparr>tick := n\<rparr>) = store_wf s"
  by (simp add: store_wf_def)

lemma update_object_wf: "store_wf s \<Longrightarrow> store_wf (snd (update_object obj now s))"
  by (auto simp: store_wf_def update_object_def comp_def if_distrib cong: if_cong)

lemma insert_object_wf: "store_wf s \<Longrightarrow> store_wf (snd (insert_object obj now s))"
  by (auto simp: store_wf_def insert_object_def list_ex_iff)

lemma db_exec_guarantees:
  assumes "\<And>s. store_step s (snd (stmt s))"
  shows "guarantees store_step (db_exec stmt)"
proof -
  have "store_step s (s\<lparr>tick := Suc (tick s)\<rparr>)" for s :: "'a db_scheme"
    by (simp add: store_step_def)
  moreover from this assms have "store_step s (snd (stmt (s\<lparr>tick := Suc (tick s)\<rparr>)))" for s
    by (metis store_step_trans transpD)
  ultimately show ?thesis
    unfolding db_exec_def by (intro guarantees_act) (simp add: Let_def split: option.splits)
qed

lemma time_now_guarantees: "guarantees store_step time_now"
  unfolding time_now_def by (intro guarantees_act) (simp add: store_step_def)

lemma statement_params [simp]:
  "db_error (snd (update_object obj now s)) = db_error s" "clock (snd (update_object obj now s)) = clock s"
  "db_error (snd (insert_object obj now s)) = db_error s" "clock (snd (insert_object obj now s)) = clock s"
  by (simp_all add: update_object_def insert_object_def)

lemma store_step_statements:
  "store_step s (snd (update_object obj now s))" "store_step s (snd (insert_object obj now s))"
  "store_step s (snd (x, s))"
  by (simp_all add: store_step_def update_object_wf insert_object_wf)

lemma UpsertSyncObject_guarantees: "guarantees store_step (UpsertSyncObject obj)"
  unfolding UpsertSyncObject_def
  by (intro guarantees_bind time_now_guarantees db_exec_guarantees store_step_statements)
    (auto intro!: guarantees_bind db_exec_guarantees store_step_statements split: sum.splits)

lemma GetSyncObject_guarantees: "guarantees store_step (GetSyncObject a b c d)"
  unfolding GetSyncObject_def by (intro db_exec_guarantees store_step_statements)

lemma RecordSyncRun_guarantees: "guarantees store_step (RecordSyncRun a b c d e f)"
  unfolding RecordSyncRun_def
  by (intro guarantees_bind db_exec_guarantees) (auto simp: store_step_def store_wf_def split: sum.splits)

section \<open>What lookups find\<close>

lemma find_map_same:
  "(\<And>r. P (f r) = P r) \<Longrightarrow> find P (map f rs) = map_option f (find P rs)"
  by (induction rs) auto

lemma find_Some_prop: "find P rs = Some r \<Longrightarrow> P r"
  by (induction rs) (auto split: if_splits)

lemma truncate_set_columns:
  "key_of r = key_of obj \<Longrightarrow> SyncObject.truncate (set_columns obj now r) = obj\<lparr>so_ID := so_ID r\<rparr>"
  by (simp add: key_of_def set_columns_def SyncObject.defs)

lemma so_ID_truncate: "so_ID (SyncObject.truncate r) = so_ID r"
  by (simp add: SyncObject.defs)

lemma find_update:
  "find_object k (snd (update_object obj now s)) =
     (if k = key_of obj then map_option (\<lambda>old. obj\<lparr>so_ID := so_ID old\<rparr>) (find_object k s)
      else find_object k s)"
proof -
  let ?f = "\<lambda>r. if key_of r = key_of obj then set_columns obj now r else r"
  have "find (\<lambda>r. key_of r = k) (map ?f (sync_objects s)) =
      map_option ?f (find (\<lambda>r. key_of r = k) (sync_objects s))"
    by (rule find_map_same) simp
  then show ?thesis
    by (cases "find (\<lambda>r. key_of r = k) (sync_objects s)")
      (auto simp: find_object_def update_object_def truncate_set_columns so_ID_truncate dest: find_Some_prop)
qed

lemma update_count:
  "fst (update_object obj now s) = Inr n \<Longrightarrow> n = 0 \<longleftrightarrow> find_object (key_of obj) s = None"
  by (auto simp: update_object_def find_object_def find_None_iff filter_empty_conv)

lemma find_append: "find P (xs @ ys) = (case find P xs of None \<Rightarrow> find P ys | Some x \<Rightarrow> Some x)"
  by (induction xs) auto

lemma find_insert:
  "find_object (key_of obj) s = None \<Longrightarrow>
   find_object k (snd (insert_object obj now s)) =
     (if k = key_of obj then Some (obj\<lparr>so_ID := next_object_id s\<rparr>) else find_object k s) \<and>
   fst (insert_object obj now s) = Inr 1"
proof -
  assume "find_object (key_of obj) s = None"
  then have none: "find (\<lambda>r. key_of r = key_of obj) (sync_objects s) = None"
    by (simp add: find_object_def)
  then have "\<not> list_ex (\<lambda>r. key_of r = key_of obj) (sync_objects s)"
    by (simp add: find_None_iff list_ex_iff)
  with none show ?thesis
    by (auto simp: find_object_def insert_object_def find_append split: option.splits)
qed

lemma find_insert_other:
  "k \<noteq> key_of obj \<Longrightarrow> find_object k (snd (insert_object obj now s)) = find_object k s"
  by (auto simp: find_object_def insert_object_def find_append split: option.splits)

lemma find_object_tick [simp]: "find_object k (s\<lparr>tick := n\<rparr>) = find_object k s"
  by (simp add: find_object_def)

text \<open>A database without failures.\<close>

definition db_ok :: "'a db_scheme \<Rightarrow> bool" where
  "db_ok s \<longleftrightarrow> (\<forall>n. db_error s n = None)"

lemma db_ok_tick [simp]: "db_ok (s\<lparr>tick := n\<rparr>) = db_ok s"
  by (simp add: db_ok_def)

lemma run_db_exec: "db_ok s \<Longrightarrow> run_prog (db_exec stmt) s = stmt (s\<lparr>tick := Suc (tick s)\<rparr>)"
  by (simp add: db_exec_def db_ok_def)

lemma run_Upsert:
  assumes "db_ok s" "run_prog (UpsertSyncObject obj) s = (r, s')"
  shows "r = None \<and> (\<exists>i. find_object (key_of obj) s' = Some (obj\<lparr>so_ID := i\<rparr>)) \<and>
    (\<forall>k. k \<noteq> key_of obj \<longrightarrow> find_object k s' = find_object k s)"
proof -
  define s1 where "s1 = s\<lparr>tick := Suc (tick s), tick := Suc (Suc (tick s))\<rparr>"
  define now where "now = Unix (clock s (tick s))"
  define n s2 where "n = length (filter (\<lambda>r. key_of r = key_of obj) (sync_objects s1))"
    and "s2 = snd (update_object obj now s1)"
  have upd: "update_object obj now s1 = (Inr n, s2)"
    by (simp add: update_object_def n_def s2_def)
  have ok: "db_ok s2" using assms(1) by (simp add: s2_def s1_def db_ok_def)
  have find: "find_object k s1 = find_object k s" for k by (simp add: s1_def find_object_def)
  have zero: "n = 0 \<longleftrightarrow> find_object (key_of obj) s = None"
    using update_count [of obj now s1 n] upd by (simp add: find)
  have "run_prog (UpsertSyncObject obj) s =
      (if n = 0 then run_prog (bind_prog (db_exec (insert_object obj now)) (\<lambda>res2.
         case res2 of Inl err \<Rightarrow> Return (Some err) | Inr m \<Rightarrow> Return None)) s2 else (None, s2))"
    using assms(1) upd by (simp add: UpsertSyncObject_def time_now_def run_db_exec s1_def now_def)
  moreover have "find_object k s2 = (if k = key_of obj then map_option (\<lambda>old. obj\<lparr>so_ID := so_ID old\<rparr>) (find_object k s)
      else find_object k s)" for k
    by (simp add: s2_def find_update find)
  moreover have "n = 0 \<Longrightarrow> fst (insert_object obj now (s2\<lparr>tick := Suc (tick s2)\<rparr>)) = Inr 1 \<and>
      find_object k (snd (insert_object obj now (s2\<lparr>tick := Suc (tick s2)\<rparr>))) =
      (if k = key_of obj then Some (obj\<lparr>so_ID := next_object_id s2\<rparr>) else find_object k s)" for k
    using find_insert [of obj "s2\<lparr>tick := Suc (tick s2)\<rparr>" k now] calculation(2) zero by simp
  ultimately show ?thesis
    using assms(2) ok zero
    by (cases "find_object (key_of obj) s"; cases "insert_object obj now (s2\<lparr>tick := Suc (tick s2)\<rparr>)")
      (auto simp: run_db_exec split: if_splits)
qed

section \<open>Properties\<close>

text \<open>The constraint of the schema: no interleaving of upserts makes two rows share a key or identifier.\<close>

lemma upserts_keep_keys_unique:
  assumes "store_wf s" "pool_run workers (spawn (map UpsertSyncObject objs), s) (gs, s')"
  shows "store_wf s'"
proof -
  have "list_all (guarantees store_step) (map UpsertSyncObject objs)"
    by (simp add: list_all_iff UpsertSyncObject_guarantees)
  from pool_run_guarantees [OF assms(2) this store_step_refl store_step_trans] assms(1)
  show ?thesis by (simp add: store_step_def)
qed

subsection \<open>Concurrent upserts\<close>

text \<open>The row of the key \<open>k\<close> is as one of the upserts \<open>O\<close> has written it, whatever its identifier.\<close>

definition written :: "SyncObject set \<Rightarrow> key \<Rightarrow> 'a db_scheme \<Rightarrow> bool" where
  "written objs k s \<longleftrightarrow> (\<exists>obj \<in> objs. key_of obj = k \<and> (\<exists>i. find_object k s = Some (obj\<lparr>so_ID := i\<rparr>)))"

text \<open>What a set of upserts may do to the store, between two actions of another task.\<close>

definition upserted :: "SyncObject set \<Rightarrow> 'a db_scheme \<Rightarrow> 'a db_scheme \<Rightarrow> bool" where
  "upserted objs s s' \<longleftrightarrow> db_error s' = db_error s \<and>
     (\<forall>k. find_object k s' = find_object k s \<or> written objs k s')"

lemma written_same: "find_object k s' = find_object k s \<Longrightarrow> written objs k s' = written objs k s"
  by (simp add: written_def)

lemma upserted_refl: "reflp (upserted objs)"
  by (simp add: upserted_def reflp_def)

lemma upserted_trans: "transp (upserted objs)"
  unfolding upserted_def transp_def by (metis written_same)

lemma upserted_mono: "upserted A s s' \<Longrightarrow> A \<subseteq> B \<Longrightarrow> upserted B s s'"
  unfolding upserted_def written_def by blast

lemma upserted_written: "upserted A s s' \<Longrightarrow> written B k s \<Longrightarrow> A \<subseteq> B \<Longrightarrow> written B k s'"
  unfolding upserted_def by (metis written_same written_def subsetD)

lemma upserted_find: "upserted A s s' \<Longrightarrow> find_object k s = None \<Longrightarrow> find_object k s' = None \<or> written A k s'"
  unfolding upserted_def by metis

lemma upserted_tick [simp]: "upserted objs s (s\<lparr>tick := n\<rparr>)"
  by (simp add: upserted_def)

lemma update_upserted: "upserted {obj} s (snd (update_object obj now s))"
proof -
  have "find_object k (snd (update_object obj now s)) = find_object k s \<or>
      written {obj} k (snd (update_object obj now s))" for k
    by (cases "find_object k s") (auto simp: written_def find_update)
  then show ?thesis by (simp add: upserted_def)
qed

lemma insert_cases:
  obtains (exists) "find_object (key_of obj) s \<noteq> None" "insert_object obj now s = (Inl ''UNIQUE constraint failed'', s)"
  | (new) "find_object (key_of obj) s = None" "fst (insert_object obj now s) = Inr 1"
    "written {obj} (key_of obj) (snd (insert_object obj now s))" "upserted {obj} s (snd (insert_object obj now s))"
proof (cases "find_object (key_of obj) s")
  case None
  note ins = find_insert [OF this, of _ now]
  have "find_object k (snd (insert_object obj now s)) = find_object k s \<or>
      written {obj} k (snd (insert_object obj now s))" for k
    using ins [of k] by (auto simp: written_def)
  then have "upserted {obj} s (snd (insert_object obj now s))" by (simp add: upserted_def)
  with None ins [of "key_of obj"] new show ?thesis by (auto simp: written_def)
next
  case (Some r)
  then have "list_ex (\<lambda>r. key_of r = key_of obj) (sync_objects s)"
    by (auto simp: find_object_def find_Some_iff list_ex_iff)
  with Some exists show ?thesis by (simp add: insert_object_def)
qed

text \<open>A statement under interference: it fails with the error of its number, or has its effect.\<close>

lemma rg_db_exec:
  assumes R: "\<And>t t'. R t t' \<Longrightarrow> db_error t' = db_error t"
    and G: "\<And>t n. G t (t\<lparr>tick := n\<rparr>)" "\<And>t n. R s t \<Longrightarrow> G t (snd (stmt (t\<lparr>tick := n\<rparr>)))"
    and err: "\<And>t e. (\<exists>n. db_error t n = Some e) \<Longrightarrow> Q (Inl e) t"
    and fin: "\<And>t n t'. R s t \<Longrightarrow> R (snd (stmt (t\<lparr>tick := n\<rparr>))) t' \<Longrightarrow> Q (fst (stmt (t\<lparr>tick := n\<rparr>))) t'"
  shows "rg R G Q (db_exec stmt) s"
  unfolding db_exec_def
proof (rule rg_act)
  fix t assume t: "R s t"
  show "G t (snd (let s' = t\<lparr>tick := Suc (tick t)\<rparr> in case db_error t (tick t) of Some e \<Rightarrow> (Inl e, s') | None \<Rightarrow> stmt s'))"
    using G(1) G(2) [OF t] by (simp add: Let_def split: option.split)
  fix t' assume t': "R (snd (let s' = t\<lparr>tick := Suc (tick t)\<rparr> in
      case db_error t (tick t) of Some e \<Rightarrow> (Inl e, s') | None \<Rightarrow> stmt s')) t'"
  show "Q (fst (let s' = t\<lparr>tick := Suc (tick t)\<rparr> in case db_error t (tick t) of Some e \<Rightarrow> (Inl e, s') | None \<Rightarrow> stmt s')) t'"
  proof (cases "db_error t (tick t)")
    case None
    with t' fin [OF t] show ?thesis by (simp add: Let_def)
  next
    case (Some e)
    with t' R have "db_error t' = db_error t" by (fastforce simp: Let_def)
    with Some have "\<exists>n. db_error t' n = Some e" by auto
    with Some err show ?thesis by (simp add: Let_def)
  qed
qed

text \<open>One upsert among others, and what it returns.\<close>

definition upsert_outcome :: "SyncObject set \<Rightarrow> SyncObject \<Rightarrow> go_error option \<Rightarrow> 'a db_scheme \<Rightarrow> bool" where
  "upsert_outcome others obj r s \<longleftrightarrow>
     (case r of
        None \<Rightarrow> written (insert obj others) (key_of obj) s
      | Some e \<Rightarrow> (\<exists>n. db_error s n = Some e) \<or>
          e = ''UNIQUE constraint failed'' \<and> (\<exists>other \<in> others. key_of other = key_of obj))"

lemma outcome_stable: "upserted others s s' \<Longrightarrow> upsert_outcome others obj r s \<Longrightarrow> upsert_outcome others obj r s'"
  using upserted_written [of others s s' "insert obj others" "key_of obj"]
  by (auto simp: upsert_outcome_def upserted_def split: option.splits)

lemma UpsertSyncObject_rg:
  "rg (upserted others) (upserted {obj}) (upsert_outcome others obj) (UpsertSyncObject obj) (s :: 'a db_scheme)"
proof -
  let ?R = "upserted others" and ?k = "key_of obj"
  have ins: "rg ?R (upserted {obj}) (upsert_outcome others obj)
      (bind_prog (db_exec (insert_object obj now)) (\<lambda>res2. case res2 of Inl err \<Rightarrow> Return (Some err) | Inr m \<Rightarrow> Return None)) t"
    if t: "find_object ?k t = None \<or> written others ?k t" for now and t :: "'a db_scheme"
  proof (rule rg_bind [OF rg_db_exec upserted_refl])
    show "\<And>t t'. ?R t t' \<Longrightarrow> db_error t' = db_error t" by (simp add: upserted_def)
    show "upserted {obj} u (u\<lparr>tick := n\<rparr>)" for u :: "'a db_scheme" and n by simp
    have tick: "upserted {obj} u v" if "upserted {obj} (u\<lparr>tick := n\<rparr>) v" for u v :: "'a db_scheme" and n
      using that transpD [OF upserted_trans upserted_tick] by blast
    show "upserted {obj} u (snd (insert_object obj now (u\<lparr>tick := n\<rparr>)))" for u :: "'a db_scheme" and n
    proof (cases rule: insert_cases [of obj "u\<lparr>tick := n\<rparr>" now])
      case new
      from new(4) show ?thesis by (rule tick)
    qed simp
    show "rg ?R (upserted {obj}) (upsert_outcome others obj)
        (case Inl e of Inl err \<Rightarrow> Return (Some err) | Inr (m :: nat) \<Rightarrow> Return None) u"
      if "\<exists>n. db_error u n = Some e" for u :: "'a db_scheme" and e
      using that by (auto simp: upsert_outcome_def upserted_def)
    fix u u' :: "'a db_scheme" and n assume u: "?R t u" and u': "?R (snd (insert_object obj now (u\<lparr>tick := n\<rparr>))) u'"
    have here: "upsert_outcome others obj (case fst (insert_object obj now (u\<lparr>tick := n\<rparr>)) of Inl err \<Rightarrow> Some err | Inr m \<Rightarrow> None)
        (snd (insert_object obj now (u\<lparr>tick := n\<rparr>)))"
    proof (cases rule: insert_cases [of obj "u\<lparr>tick := n\<rparr>" now])
      case exists
      have "written others ?k u"
        using upserted_find [OF u, of ?k] upserted_written [OF u, of others ?k] t exists(1) by auto
      then have "\<exists>other \<in> others. key_of other = ?k" by (auto simp: written_def)
      with exists show ?thesis by (simp add: upsert_outcome_def)
    next
      case new
      then show ?thesis by (auto simp: upsert_outcome_def written_def)
    qed
    have "upsert_outcome others obj (case fst (insert_object obj now (u\<lparr>tick := n\<rparr>)) of Inl err \<Rightarrow> Some err | Inr m \<Rightarrow> None) v"
      if "?R u' v" for v
      using outcome_stable [OF transpD [OF upserted_trans u' that] here] .
    then show "rg ?R (upserted {obj}) (upsert_outcome others obj)
        (case fst (insert_object obj now (u\<lparr>tick := n\<rparr>)) of Inl err \<Rightarrow> Return (Some err) | Inr m \<Rightarrow> Return None) u'"
      by (auto split: sum.split)
  qed
  have upd: "rg ?R (upserted {obj}) (upsert_outcome others obj)
      (bind_prog (db_exec (update_object obj now)) (\<lambda>res. case res of Inl err \<Rightarrow> Return (Some err) | Inr n \<Rightarrow>
         if n = 0 then bind_prog (db_exec (insert_object obj now)) (\<lambda>res2. case res2 of Inl err \<Rightarrow> Return (Some err) | Inr m \<Rightarrow> Return None)
         else Return None)) t" for now and t :: "'a db_scheme"
  proof (rule rg_bind [OF rg_db_exec upserted_refl])
    show "\<And>t t'. ?R t t' \<Longrightarrow> db_error t' = db_error t" by (simp add: upserted_def)
    show "upserted {obj} u (u\<lparr>tick := n\<rparr>)" for u :: "'a db_scheme" and n by simp
    show "upserted {obj} u (snd (update_object obj now (u\<lparr>tick := n\<rparr>)))" for u n
      by (rule transpD [OF upserted_trans upserted_tick update_upserted])
    show "rg ?R (upserted {obj}) (upsert_outcome others obj)
        (case Inl e of Inl err \<Rightarrow> Return (Some err) | Inr n \<Rightarrow>
         if n = 0 then bind_prog (db_exec (insert_object obj now)) (\<lambda>res2. case res2 of Inl err \<Rightarrow> Return (Some err) | Inr m \<Rightarrow> Return None)
         else Return None) u"
      if "\<exists>n. db_error u n = Some e" for u :: "'a db_scheme" and e
      using that by (auto simp: upsert_outcome_def upserted_def)
    fix u u' :: "'a db_scheme" and n assume u': "?R (snd (update_object obj now (u\<lparr>tick := n\<rparr>))) u'"
    define m v where "m = length (filter (\<lambda>r. key_of r = key_of obj) (sync_objects u))"
      and "v = snd (update_object obj now (u\<lparr>tick := n\<rparr>))"
    have m: "fst (update_object obj now (u\<lparr>tick := n\<rparr>)) = Inr m" by (simp add: update_object_def m_def)
    have zero: "m = 0 \<longleftrightarrow> find_object ?k u = None" using update_count [OF m] by simp
    have find: "find_object ?k v = map_option (\<lambda>old. obj\<lparr>so_ID := so_ID old\<rparr>) (find_object ?k u)"
      by (simp add: v_def find_update)
    have u'': "?R v u'" using u' by (simp add: v_def)
    have some: "upsert_outcome others obj None x" if "m \<noteq> 0" "?R u' x" for x
    proof -
      have "written (insert obj others) ?k v" using that(1) zero find by (auto simp: written_def)
      then have "upsert_outcome others obj None v" by (simp add: upsert_outcome_def)
      then show ?thesis by (rule outcome_stable [OF transpD [OF upserted_trans u'' that(2)]])
    qed
    have none: "find_object ?k u' = None \<or> written others ?k u'" if "m = 0"
      using upserted_find [OF u'', of ?k] that zero find by simp
    show "rg ?R (upserted {obj}) (upsert_outcome others obj)
        (case fst (update_object obj now (u\<lparr>tick := n\<rparr>)) of Inl err \<Rightarrow> Return (Some err) | Inr n \<Rightarrow>
         if n = 0 then bind_prog (db_exec (insert_object obj now)) (\<lambda>res2. case res2 of Inl err \<Rightarrow> Return (Some err) | Inr m \<Rightarrow> Return None)
         else Return None) u'"
      unfolding m using ins [of u' now] none some by auto
  qed
  show ?thesis
    unfolding UpsertSyncObject_def
    by (rule rg_bind [OF _ upserted_refl], unfold time_now_def, rule rg_act, simp, unfold fst_conv, rule upd)
qed

text \<open>
  C38: Any number of upserts run by any number of workers, in any interleaving of their UPDATEs and
  INSERTs and with any failing statements. When all have returned, the row of each key is the one
  from before or as one of the upserts of this key has written it, so that other keys are
  untouched; an upsert that has returned no error leaves a row of its key that it or another
  upsert of the same key has written; and one that has returned an error had a failing statement,
  or lost the race against another upsert of the same key between its UPDATE and its INSERT.
\<close>

theorem concurrent_upserts:
  assumes "pool_run workers (spawn (map UpsertSyncObject objs), s) (gs, s')" "all_done gs"
  shows "length (outcomes gs) = length objs \<and>
    (\<forall>k. find_object k s' = find_object k s \<or> written (set objs) k s') \<and>
    (\<forall>i < length objs. case outcomes gs ! i of
        None \<Rightarrow> written (set objs) (key_of (objs ! i)) s'
      | Some e \<Rightarrow> (\<exists>n. db_error s n = Some e) \<or> e = ''UNIQUE constraint failed'' \<and>
          (\<exists>j < length objs. j \<noteq> i \<and> key_of (objs ! j) = key_of (objs ! i)))"
proof -
  define others where "others = (\<lambda>i. {objs ! j | j. j < length objs \<and> j \<noteq> i})"
  have comp: "compatible (length (map UpsertSyncObject objs)) (\<lambda>i. upserted (others i)) (\<lambda>i. upserted {objs ! i})"
    unfolding compatible_def
    by (auto simp: upserted_refl upserted_trans others_def intro: upserted_mono)
  have "upserted {objs ! i} t t' \<Longrightarrow> upserted (set objs) t t'" if "i < length objs" for i and t t' :: "'a db_scheme"
    using that by (auto intro: upserted_mono)
  with pool_rely_guarantee [OF assms comp, where T = "upserted (set objs)" and Q = "\<lambda>i. upsert_outcome (others i) (objs ! i)"]
  have run: "length (outcomes gs) = length objs" "upserted (set objs) s s'"
    and each: "\<And>i. i < length objs \<Longrightarrow> upsert_outcome (others i) (objs ! i) (outcomes gs ! i) s'"
    by (simp_all add: UpsertSyncObject_rg upserted_refl upserted_trans)
  have same: "insert (objs ! i) (others i) = set objs" if "i < length objs" for i
    using that by (auto simp: others_def in_set_conv_nth)
  have "db_error s' = db_error s" using run(2) by (simp add: upserted_def)
  then have "case outcomes gs ! i of
        None \<Rightarrow> written (set objs) (key_of (objs ! i)) s'
      | Some e \<Rightarrow> (\<exists>n. db_error s n = Some e) \<or> e = ''UNIQUE constraint failed'' \<and>
          (\<exists>j < length objs. j \<noteq> i \<and> key_of (objs ! j) = key_of (objs ! i))" if "i < length objs" for i
    using each [OF that] same [OF that] by (auto simp: upsert_outcome_def others_def split: option.splits)
  with run show ?thesis by (simp add: upserted_def)
qed

text \<open>
  An upsert on a working database succeeds, a lookup of its key then returns the stored object
  (with the identifier the database gave it), and the lookups of all other keys are unchanged.
\<close>

theorem upsert_lookup:
  assumes "db_ok s" "run_prog (UpsertSyncObject obj) s = (r, s')"
  shows "r = None \<and>
    (\<exists>i s''. run_prog (GetSyncObject (so_SyncID obj) (so_SourceVaultID obj) (so_TargetVaultID obj)
        (so_SecretName obj)) s' = (Inr (Some (obj\<lparr>so_ID := i\<rparr>)), s'')) \<and>
    (\<forall>k. k \<noteq> key_of obj \<longrightarrow> find_object k s' = find_object k s)"
proof -
  have "db_error s' = db_error s"
    using guarantees_run [OF UpsertSyncObject_guarantees store_step_refl store_step_trans, of s obj] assms(2)
    by (simp add: store_step_def)
  with assms(1) have "db_ok s'" by (simp add: db_ok_def)
  with run_Upsert [OF assms] show ?thesis
    by (auto simp: GetSyncObject_def run_db_exec key_of_def)
qed

definition empty_db :: db where
  "empty_db = \<lparr>sync_objects = [], next_object_id = 1, syncs_run = [], next_run_id = 1,
     db_error = (\<lambda>_. None), clock = (\<lambda>n. 1000000000 * int n), tick = 0\<rparr>"

definition example_object :: SyncObject where
  "example_object = \<lparr>so_ID = 0, so_SyncID = ''s'', so_SourceVaultID = ''a'', so_TargetVaultID = ''b'',
     so_SecretName = ''x'', so_ExternalID = '''', so_SourceChecksum = ''c'', so_TargetChecksum = ''c'',
     so_LastSyncTime = 7, so_LastSyncStatus = ''success'', so_LastSyncError = '''', so_SyncCount = 0,
     so_FailureCount = 0, so_DirectionLast = ''source_to_target''\<rparr>"

text \<open>Two upserts of one key race: both UPDATEs come before the INSERTs, and the second INSERT fails.\<close>

definition racing_objects :: "SyncObject list" where
  "racing_objects = [example_object, example_object\<lparr>so_SourceChecksum := ''d''\<rparr>]"

definition racing_end :: "(db, go_error option) pool" where
  "racing_end = schedule 2 [0, 1, 0, 1, 0, 1, 0, 1, 0, 1] (spawn (map UpsertSyncObject racing_objects), empty_db)"

lemma racing_outcomes:
  "all_done (fst racing_end)" "outcomes (fst racing_end) = [None, Some ''UNIQUE constraint failed'']"
  by (simp_all add: racing_end_def racing_objects_def numeral_eq_Suc schedule.simps step_at_def spawn_def
      UpsertSyncObject_def time_now_def db_exec_def act_def in_flight_def empty_db_def update_object_def
      insert_object_def example_object_def key_of_def all_done_def outcomes_def Let_def SyncObject.defs sync_row.defs)

lemma concurrent_upserts_witness:
  "written (set racing_objects) (key_of example_object) (snd racing_end)"
proof -
  have "pool_run 2 (spawn (map UpsertSyncObject racing_objects), empty_db) (fst racing_end, snd racing_end)"
    unfolding racing_end_def prod.collapse by (rule schedule_run)
  from concurrent_upserts [OF this racing_outcomes(1)] racing_outcomes(2)
  show ?thesis by (auto simp: racing_objects_def)
qed

lemma upsert_lookup_witness: "fst (run_prog (UpsertSyncObject example_object) empty_db) = None"
  using upsert_lookup [of empty_db example_object "fst (run_prog (UpsertSyncObject example_object) empty_db)"
      "snd (run_prog (UpsertSyncObject example_object) empty_db)"]
  by (simp only: prod.collapse) (simp add: db_ok_def empty_db_def)

end
