(* ===== verification/Go_Config.thy ===== *)
theory Go_Config
  imports Go_Prelude
begin

text \<open>
  The configuration of the daemon (\<open>config/types.go\<close>, \<open>config/defaults.go\<close>,
  \<open>config/validate.go\<close>): the structures as records, the defaults that loading fills in, and the
  validation with its error messages. Shown: validation accepts exactly the configurations of a
  declarative description, and the defaults are filled in once and for all.

  A Go map is an association list without order (\<open>None\<close> for a nil map); a pointer that may be nil
  is an option.
\<close>

section \<open>Structures\<close>

record OAuthConfig =
  oc_TokenEndpoint :: string
  oc_ClientID :: string
  oc_ClientSecret :: string
  oc_Scope :: string
  oc_ExtraParams :: "(string \<times> string) list"

record AuthConfig =
  ac_Method :: string
  ac_Headers :: "(string \<times> string) list option"
  ac_OAuth :: "OAuthConfig option"

record ResponseParserConfig =
  rp_ListPath :: string
  rp_NameField :: string
  rp_ValuePath :: string

record OperationConfig =
  op_Method :: string
  op_Endpoint :: string
  op_StatusCodes :: "int list"
  op_ResponseParser :: "ResponseParserConfig option"

record ToolOutputConfig =
  to_Format :: string
  to_Path :: string
  to_NameField :: string

record ToolOperationConfig =
  tc_Command :: string
  tc_Args :: "string list"
  tc_Output :: ToolOutputConfig
  tc_SuccessExitCodes :: "int list"

record ExternalToolConfig =
  et_Env :: "(string \<times> string) list"
  et_EnvPassthrough :: "string list"
  et_Operations :: "(string \<times> ToolOperationConfig option) list option"

record FieldNamesConfig =
  fn_NameField :: string
  fn_ValueField :: string

record VaultConfig =
  vc_ID :: string
  vc_Name :: string
  vc_Type :: string
  vc_Endpoint :: string
  vc_Method :: string
  vc_Auth :: "AuthConfig option"
  vc_FieldNames :: FieldNamesConfig
  vc_Headers :: "(string \<times> string) list option"
  vc_OperationsOverride :: "(string \<times> OperationConfig option) list"
  vc_Timeout :: int
  vc_SkipSSLVerify :: bool
  vc_ToolConfig :: string
  vc_ResolvedTool :: "ExternalToolConfig option"
  vc_LegacyAuthMethod :: string
  vc_LegacyAuthHeaders :: "(string \<times> string) list"

record FilterConfig =
  fc_Patterns :: "string list"
  fc_Exclude :: "string list"

record Transform =
  tr_Field :: string
  tr_Type :: string
  tr_Value :: string

record RetryPolicy =
  MaxRetries :: int
  InitialBackoff :: int
  MaxBackoff :: int
  Multiplier :: float64

record SyncConfig =
  sc_ID :: string
  sc_Source :: string
  sc_Targets :: "string list"
  sc_SyncType :: string
  sc_Schedule :: string
  sc_Filter :: FilterConfig
  sc_Transforms :: "Transform list"
  sc_RetryPolicy :: RetryPolicy
  sc_ConcurrentWorkers :: int
  sc_Enabled :: "bool option"

record ServerConfig =
  sv_Port :: int
  sv_Address :: string
  sv_MetricsPort :: int
  sv_MetricsAddress :: string

record LoggingConfig =
  lc_Level :: string
  lc_Format :: string

record Config =
  Vaults :: "VaultConfig list"
  Syncs :: "SyncConfig list"
  Server :: ServerConfig
  Logging :: LoggingConfig

definition IsEnabled :: "SyncConfig \<Rightarrow> bool" where
  "IsEnabled s = (case sc_Enabled s of None \<Rightarrow> True | Some b \<Rightarrow> b)"

definition GetVaultType :: "VaultConfig \<Rightarrow> string" where
  "GetVaultType vc = (if vc_Type vc \<noteq> [] then vc_Type vc else ''generic'')"

text \<open>The update of \<open>Auth.Headers\<close> that two of the functions below share.\<close>

definition make_headers :: "AuthConfig option \<Rightarrow> AuthConfig option" where
  "make_headers auth = map_option (\<lambda>a. if ac_Headers a = None then a\<lparr>ac_Headers := Some []\<rparr> else a) auth"

definition PopulateDefaults :: "VaultConfig \<Rightarrow> VaultConfig" where
  "PopulateDefaults vc =
     vc\<lparr>vc_Auth := make_headers (vc_Auth vc),
        vc_Headers := (if vc_Headers vc = None then Some [] else vc_Headers vc),
        vc_Type := (if vc_Type vc = [] then ''generic'' else vc_Type vc)\<rparr>"

section \<open>Defaults\<close>

definition default_server :: "ServerConfig \<Rightarrow> ServerConfig" where
  "default_server s =
     s\<lparr>sv_Port := (if sv_Port s = 0 then 8080 else sv_Port s),
       sv_Address := (if sv_Address s = [] then ''0.0.0.0'' else sv_Address s),
       sv_MetricsPort := (if sv_MetricsPort s = 0 then 9090 else sv_MetricsPort s),
       sv_MetricsAddress := (if sv_MetricsAddress s = [] then ''0.0.0.0'' else sv_MetricsAddress s)\<rparr>"

definition applyServerDefaults :: "Config \<Rightarrow> Config" where
  "applyServerDefaults cfg = cfg\<lparr>Server := default_server (Server cfg)\<rparr>"

definition default_logging :: "LoggingConfig \<Rightarrow> LoggingConfig" where
  "default_logging g =
     g\<lparr>lc_Level := (if lc_Level g = [] then ''info'' else lc_Level g),
       lc_Format := (if lc_Format g = [] then ''json'' else lc_Format g)\<rparr>"

definition applyLoggingDefaults :: "Config \<Rightarrow> Config" where
  "applyLoggingDefaults cfg = cfg\<lparr>Logging := default_logging (Logging cfg)\<rparr>"

definition default_retry :: "RetryPolicy \<Rightarrow> RetryPolicy" where
  "default_retry p =
     p\<lparr>MaxRetries := (if MaxRetries p = 0 then 3 else MaxRetries p),
       InitialBackoff := (if InitialBackoff p = 0 then 1000 else InitialBackoff p),
       MaxBackoff := (if MaxBackoff p = 0 then 60000 else MaxBackoff p),
       Multiplier := (if mantissa (Multiplier p) = 0 then Float64 2 0 else Multiplier p)\<rparr>"

definition default_sync :: "SyncConfig \<Rightarrow> SyncConfig" where
  "default_sync s =
     s\<lparr>sc_RetryPolicy := default_retry (sc_RetryPolicy s),
       sc_SyncType := (if sc_SyncType s = [] then ''unidirectional'' else sc_SyncType s)\<rparr>"

definition applySyncDefaults :: "Config \<Rightarrow> Config" where
  "applySyncDefaults cfg = cfg\<lparr>Syncs := map default_sync (Syncs cfg)\<rparr>"

definition default_vault :: "VaultConfig \<Rightarrow> VaultConfig" where
  "default_vault v =
     v\<lparr>vc_Method := (if vc_Method v = [] then ''PUT'' else vc_Method v),
       vc_Timeout := (if vc_Timeout v = 0 then 30 else vc_Timeout v),
       vc_Auth := make_headers (vc_Auth v)\<rparr>"

definition applyVaultDefaults :: "Config \<Rightarrow> Config" where
  "applyVaultDefaults cfg = cfg\<lparr>Vaults := map default_vault (Vaults cfg)\<rparr>"

definition applyConfigDefaults :: "Config \<Rightarrow> Config" where
  "applyConfigDefaults cfg =
     applyVaultDefaults (applySyncDefaults (applyLoggingDefaults (applyServerDefaults cfg)))"

section \<open>Validation\<close>

definition validateToolVault :: "VaultConfig \<Rightarrow> go_error option" where
  "validateToolVault v =
     (if vc_ToolConfig v = [] then
        Some (''vault '' @ vc_ID v @ '': 'tool_config' is required for type 'tool'' @ [CHR 0x27])
      else case vc_ResolvedTool v of
        None \<Rightarrow> Some (''vault '' @ vc_ID v @ '': tool config file '' @ [CHR 0x27] @ vc_ToolConfig v @
          [CHR 0x27] @ '' was not loaded'')
      | Some tool \<Rightarrow> (case et_Operations tool of
          None \<Rightarrow> Some (''vault '' @ vc_ID v @ '': tool config must define an 'operations.list' entry'')
        | Some ops \<Rightarrow> (case map_of ops ''list'' of
            Some (Some list_op) \<Rightarrow>
              (if tc_Command list_op = [] then
                 Some (''vault '' @ vc_ID v @ '': tool config 'operations.list.command' must not be empty'')
               else case map_of ops ''get'' of
                 Some (Some get_op) \<Rightarrow>
                   (if tc_Command get_op = [] then
                      Some (''vault '' @ vc_ID v @ '': tool config 'operations.get.command' must not be empty'')
                    else None)
               | _ \<Rightarrow> Some (''vault '' @ vc_ID v @ '': tool config must define an 'operations.get' entry''))
          | _ \<Rightarrow> Some (''vault '' @ vc_ID v @ '': tool config must define an 'operations.list' entry''))))"

definition auth_methods :: "string list" where
  "auth_methods = [''bearer'', ''basic'', ''oauth2'', ''api_key'', ''custom'']"

definition validateHTTPVault :: "VaultConfig \<Rightarrow> go_error option" where
  "validateHTTPVault v =
     (if vc_Endpoint v = [] then Some (''vault '' @ vc_ID v @ '' must have an endpoint'')
      else if fn_NameField (vc_FieldNames v) = [] \<or> fn_ValueField (vc_FieldNames v) = [] then
        Some (''vault '' @ vc_ID v @ '' must define field_names.name_field and field_names.value_field'')
      else case vc_Auth v of
        None \<Rightarrow> Some (''vault '' @ vc_ID v @ '': 'auth' configuration is required'')
      | Some auth \<Rightarrow>
          if ac_Method auth = [] then Some (''vault '' @ vc_ID v @ '': 'auth.method' is required'')
          else if ToLower (ac_Method auth) \<notin> set auth_methods then
            Some (''vault '' @ vc_ID v @ '': invalid auth method '' @ [CHR 0x27] @ ac_Method auth @ [CHR 0x27] @
              '', must be one of: bearer, basic, oauth2, api_key, custom'')
          else if ToUpper (vc_Method v) \<noteq> ''PUT'' \<and> ToUpper (vc_Method v) \<noteq> ''POST'' then
            Some (''vault '' @ vc_ID v @ '' has invalid method '' @ vc_Method v @ '', must be PUT or POST'')
          else None)"

definition validateSingleVault :: "VaultConfig \<Rightarrow> go_error option" where
  "validateSingleVault v =
     (if vc_LegacyAuthMethod v \<noteq> [] \<or> length (vc_LegacyAuthHeaders v) > 0 then
        Some (''vault '' @ vc_ID v @ '': legacy 'auth_method' and 'auth_headers' fields are no longer supported. Please migrate to the new 'auth' structure. See README.md for examples'')
      else if ToLower (vc_Type v) = ''tool'' then validateToolVault v
      else validateHTTPVault v)"

text \<open>The loop over the vaults, with the identifiers seen so far.\<close>

fun validateVaults :: "VaultConfig list \<Rightarrow> string list \<Rightarrow> go_error + string list" where
  "validateVaults [] vaultIDs = Inr vaultIDs"
| "validateVaults (v # vs) vaultIDs =
     (if vc_ID v = [] then Inl ''vault must have an ID''
      else if vc_ID v \<in> set vaultIDs then Inl (''duplicate vault ID: '' @ vc_ID v)
      else case validateSingleVault v of
        Some err \<Rightarrow> Inl err
      | None \<Rightarrow> validateVaults vs (vc_ID v # vaultIDs))"

fun unknown_target :: "string list \<Rightarrow> string list \<Rightarrow> string option" where
  "unknown_target vaultIDs [] = None"
| "unknown_target vaultIDs (t # ts) = (if t \<notin> set vaultIDs then Some t else unknown_target vaultIDs ts)"

definition validateSync :: "SyncConfig \<Rightarrow> string list \<Rightarrow> go_error option" where
  "validateSync s vaultIDs =
     (if sc_ID s = [] then Some ''sync must have an ID''
      else if sc_Source s = [] then Some (''sync '' @ sc_ID s @ '' must have a source'')
      else if sc_Targets s = [] then Some (''sync '' @ sc_ID s @ '' must have at least one target'')
      else if sc_Source s \<notin> set vaultIDs then
        Some (''sync '' @ sc_ID s @ '' references unknown source vault '' @ sc_Source s)
      else case unknown_target vaultIDs (sc_Targets s) of
        Some t \<Rightarrow> Some (''sync '' @ sc_ID s @ '' references unknown target vault '' @ t)
      | None \<Rightarrow>
          if sc_SyncType s = ''bidirectional'' \<and> length (sc_Targets s) \<noteq> 1 then
            Some (''sync '' @ sc_ID s @ '': bidirectional sync only allowed for 1:1 (has '' @
              itoa (int (length (sc_Targets s))) @ '' targets)'')
          else if sc_SyncType s \<noteq> ''unidirectional'' \<and> sc_SyncType s \<noteq> ''bidirectional'' then
            Some (''sync '' @ sc_ID s @ '': invalid sync_type '' @ sc_SyncType s @
              '', must be unidirectional or bidirectional'')
          else None)"

fun validateSyncs :: "SyncConfig list \<Rightarrow> string list \<Rightarrow> go_error option" where
  "validateSyncs [] vaultIDs = None"
| "validateSyncs (s # ss) vaultIDs =
     (case validateSync s vaultIDs of Some err \<Rightarrow> Some err | None \<Rightarrow> validateSyncs ss vaultIDs)"

definition Validate :: "Config \<Rightarrow> go_error option" where
  "Validate c =
     (if length (Vaults c) = 0 then Some ''no vaults configured''
      else case validateVaults (Vaults c) [] of
        Inl err \<Rightarrow> Some err
      | Inr vaultIDs \<Rightarrow> validateSyncs (Syncs c) vaultIDs)"

section \<open>What validation means\<close>

text \<open>A vault and a sync in order, as the documentation describes them.\<close>

definition tool_command :: "ExternalToolConfig \<Rightarrow> string \<Rightarrow> bool" where
  "tool_command tool name = (\<exists>ops opn. et_Operations tool = Some ops \<and> map_of ops name = Some (Some opn) \<and>
     tc_Command opn \<noteq> [])"

definition valid_vault :: "VaultConfig \<Rightarrow> bool" where
  "valid_vault v \<longleftrightarrow>
     vc_ID v \<noteq> [] \<and> vc_LegacyAuthMethod v = [] \<and> vc_LegacyAuthHeaders v = [] \<and>
     (if ToLower (vc_Type v) = ''tool''
      then vc_ToolConfig v \<noteq> [] \<and>
        (\<exists>tool. vc_ResolvedTool v = Some tool \<and> tool_command tool ''list'' \<and> tool_command tool ''get'')
      else vc_Endpoint v \<noteq> [] \<and> fn_NameField (vc_FieldNames v) \<noteq> [] \<and> fn_ValueField (vc_FieldNames v) \<noteq> [] \<and>
        (\<exists>auth. vc_Auth v = Some auth \<and> ToLower (ac_Method auth) \<in> set auth_methods) \<and>
        ToUpper (vc_Method v) \<in> {''PUT'', ''POST''})"

definition valid_sync :: "string set \<Rightarrow> SyncConfig \<Rightarrow> bool" where
  "valid_sync ids s \<longleftrightarrow>
     sc_ID s \<noteq> [] \<and> sc_Source s \<in> ids \<and> sc_Targets s \<noteq> [] \<and> set (sc_Targets s) \<subseteq> ids \<and>
     (sc_SyncType s = ''unidirectional'' \<or> sc_SyncType s = ''bidirectional'' \<and> length (sc_Targets s) = 1)"

definition valid_config :: "Config \<Rightarrow> bool" where
  "valid_config c \<longleftrightarrow>
     Vaults c \<noteq> [] \<and> distinct (map vc_ID (Vaults c)) \<and> list_all valid_vault (Vaults c) \<and>
     list_all (valid_sync (vc_ID ` set (Vaults c))) (Syncs c)"

lemma validateToolVault_None:
  "validateToolVault v = None \<longleftrightarrow> vc_ToolConfig v \<noteq> [] \<and>
     (\<exists>tool. vc_ResolvedTool v = Some tool \<and> tool_command tool ''list'' \<and> tool_command tool ''get'')"
  by (auto simp: validateToolVault_def tool_command_def split: option.splits if_splits)

lemma ToLower_Nil [simp]: "ToLower [] = []"
  by (simp add: ToLower_def)

lemma validateHTTPVault_None:
  "validateHTTPVault v = None \<longleftrightarrow> vc_Endpoint v \<noteq> [] \<and> fn_NameField (vc_FieldNames v) \<noteq> [] \<and>
     fn_ValueField (vc_FieldNames v) \<noteq> [] \<and>
     (\<exists>auth. vc_Auth v = Some auth \<and> ToLower (ac_Method auth) \<in> set auth_methods) \<and>
     ToUpper (vc_Method v) \<in> {''PUT'', ''POST''}"
  by (cases "vc_Auth v") (auto simp: validateHTTPVault_def auth_methods_def)

lemma validateSingleVault_None:
  "vc_ID v \<noteq> [] \<Longrightarrow> validateSingleVault v = None \<longleftrightarrow> valid_vault v"
  unfolding validateSingleVault_def valid_vault_def
    validateToolVault_None [symmetric] validateHTTPVault_None [symmetric] by auto

lemma validateVaults_Inr:
  "validateVaults vs ids = Inr ids' \<longleftrightarrow>
     list_all valid_vault vs \<and> distinct (map vc_ID vs) \<and> set (map vc_ID vs) \<inter> set ids = {} \<and>
     ids' = rev (map vc_ID vs) @ ids"
proof (induction vs arbitrary: ids)
  case (Cons v vs)
  show ?case
  proof (cases "vc_ID v = []")
    case True
    then show ?thesis by (simp add: valid_vault_def)
  next
    case False
    then show ?thesis
      using validateSingleVault_None [OF False] Cons.IH [of "vc_ID v # ids"]
      by (auto split: option.splits)
  qed
qed auto

lemma unknown_target_None: "unknown_target ids ts = None \<longleftrightarrow> set ts \<subseteq> set ids"
  by (induction ts) auto

lemma validateSync_None:
  "[] \<notin> set ids \<Longrightarrow> validateSync s ids = None \<longleftrightarrow> valid_sync (set ids) s"
  unfolding validateSync_def valid_sync_def unknown_target_None [symmetric]
  by (auto split: option.splits)

lemma validateSyncs_None:
  "[] \<notin> set ids \<Longrightarrow> validateSyncs ss ids = None \<longleftrightarrow> list_all (valid_sync (set ids)) ss"
  by (induction ss) (simp_all add: validateSync_None [symmetric] split: option.splits)

lemma Validate_None: "Validate c = None \<longleftrightarrow> valid_config c"
proof (cases "validateVaults (Vaults c) []")
  case (Inl err)
  then have "\<not> (list_all valid_vault (Vaults c) \<and> distinct (map vc_ID (Vaults c)))"
    using validateVaults_Inr [of "Vaults c" "[]" "rev (map vc_ID (Vaults c))"] by auto
  then show ?thesis by (auto simp: Validate_def valid_config_def Inl)
next
  case (Inr ids)
  then have ok: "list_all valid_vault (Vaults c)" "distinct (map vc_ID (Vaults c))"
    and ids: "set ids = vc_ID ` set (Vaults c)"
    using validateVaults_Inr [of "Vaults c" "[]" ids] by auto
  from ok(1) have "[] \<notin> set ids"
    by (auto simp: ids list_all_iff valid_vault_def)
  with ok ids Inr show ?thesis by (auto simp: Validate_def valid_config_def validateSyncs_None)
qed

section \<open>Stability of the defaults\<close>

lemma make_headers_twice: "make_headers (make_headers auth) = make_headers auth"
  by (cases auth) (simp_all add: make_headers_def)

lemma default_server_twice: "default_server (default_server s) = default_server s"
  by (simp add: default_server_def)

lemma default_logging_twice: "default_logging (default_logging g) = default_logging g"
  by (simp add: default_logging_def)

lemma default_retry_twice: "default_retry (default_retry p) = default_retry p"
  by (simp add: default_retry_def)

lemma default_sync_twice: "default_sync (default_sync s) = default_sync s"
  by (simp add: default_sync_def default_retry_twice)

lemma default_vault_twice: "default_vault (default_vault v) = default_vault v"
  by (simp add: default_vault_def make_headers_twice)

lemma default_sync_set:
  "sc_SyncType (default_sync s) \<noteq> []" "MaxRetries (sc_RetryPolicy (default_sync s)) \<noteq> 0"
  "InitialBackoff (sc_RetryPolicy (default_sync s)) \<noteq> 0" "MaxBackoff (sc_RetryPolicy (default_sync s)) \<noteq> 0"
  "mantissa (Multiplier (sc_RetryPolicy (default_sync s))) \<noteq> 0"
  by (simp_all add: default_sync_def default_retry_def)

lemma default_vault_set: "vc_Method (default_vault v) \<noteq> []" "vc_Timeout (default_vault v) \<noteq> 0"
  by (simp_all add: default_vault_def)

lemma applyConfigDefaults_parts:
  "applyConfigDefaults cfg =
     cfg\<lparr>Vaults := map default_vault (Vaults cfg), Syncs := map default_sync (Syncs cfg),
        Server := default_server (Server cfg), Logging := default_logging (Logging cfg)\<rparr>"
  by (simp add: applyConfigDefaults_def applyServerDefaults_def applyLoggingDefaults_def
      applySyncDefaults_def applyVaultDefaults_def)

section \<open>Properties\<close>

text \<open>
  \<open>Validate\<close> returns no error exactly for the configurations that are in order: at least one
  vault, distinct non-empty vault identifiers, every vault complete for its type, every sync with
  an identifier, a known source, at least one target, known targets only and a valid type, a
  bidirectional one with exactly one target.
\<close>

theorem Validate_iff_valid: "Validate c = None \<longleftrightarrow> valid_config c"
  by (rule Validate_None)

text \<open>
  The defaults are stable (filling them in twice is filling them in once), no sync is left
  without a type or with an unset retry policy, and no vault without a method or a timeout.
\<close>

theorem applyConfigDefaults_stable:
  "applyConfigDefaults (applyConfigDefaults cfg) = applyConfigDefaults cfg \<and>
   list_all (\<lambda>s. sc_SyncType s \<noteq> [] \<and> MaxRetries (sc_RetryPolicy s) \<noteq> 0 \<and> InitialBackoff (sc_RetryPolicy s) \<noteq> 0 \<and>
     MaxBackoff (sc_RetryPolicy s) \<noteq> 0 \<and> mantissa (Multiplier (sc_RetryPolicy s)) \<noteq> 0)
     (Syncs (applyConfigDefaults cfg)) \<and>
   list_all (\<lambda>v. vc_Method v \<noteq> [] \<and> vc_Timeout v \<noteq> 0) (Vaults (applyConfigDefaults cfg))"
  by (simp add: applyConfigDefaults_parts default_server_twice default_logging_twice default_sync_twice
      default_vault_twice default_sync_set default_vault_set list_all_iff)

end
