(* ===== verification/Go_Filter.thy ===== *)
theory Go_Filter
  imports Go_Config "HOL-Library.Sublist"
begin

text \<open>
  Which secrets a sync covers and what value it writes (\<open>filterSecrets\<close>, \<open>matchPattern\<close> and
  \<open>applyTransforms\<close> of \<open>sync/engine.go\<close>, with the Base64 coding of Go's standard library that the
  transforms use). Shown: a pattern match is a glob match, and the only one for patterns with a
  single star at an end; the filter is the documented one; decoding inverts encoding.
\<close>

section \<open>Patterns\<close>

abbreviation star :: char where
  "star \<equiv> CHR ''*''"

definition matchPattern :: "string \<Rightarrow> string \<Rightarrow> bool" where
  "matchPattern pattern name =
     (if pattern = [star] then True
      else if pattern = name then True
      else if length pattern > 0 \<and> pattern ! 0 = star \<and> length name \<ge> length pattern - 1 then
        drop (length name - (length pattern - 1)) name = drop 1 pattern
      else if length pattern > 0 \<and> pattern ! (length pattern - 1) = star then
        (if length name < length pattern - 1 then False
         else take (length pattern - 1) name = take (length pattern - 1) pattern)
      else False)"

text \<open>The loop over patterns that breaks at the first match.\<close>

fun any_match :: "string list \<Rightarrow> string \<Rightarrow> bool" where
  "any_match [] secret = False"
| "any_match (p # ps) secret = (if matchPattern p secret then True else any_match ps secret)"

fun filter_loop :: "string list \<Rightarrow> FilterConfig \<Rightarrow> string list \<Rightarrow> string list" where
  "filter_loop [] f filtered = filtered"
| "filter_loop (secret # secrets) f filtered =
     (if any_match (fc_Exclude f) secret then filter_loop secrets f filtered
      else if length (fc_Patterns f) > 0 \<and> \<not> any_match (fc_Patterns f) secret then
        filter_loop secrets f filtered
      else filter_loop secrets f (filtered @ [secret]))"

definition filterSecrets :: "string list \<Rightarrow> FilterConfig \<Rightarrow> string list" where
  "filterSecrets secrets f =
     (if length (fc_Patterns f) = 0 \<and> length (fc_Exclude f) = 0 then secrets else filter_loop secrets f [])"

text \<open>Glob matching: a star matches any string, every other character itself.\<close>

fun glob :: "string \<Rightarrow> string \<Rightarrow> bool" where
  "glob [] name = (name = [])"
| "glob (p # ps) name =
     (if p = star then list_ex (\<lambda>k. glob ps (drop k name)) [0..<Suc (length name)]
      else name \<noteq> [] \<and> hd name = p \<and> glob ps (tl name))"

lemma glob_star: "glob (star # ps) name \<longleftrightarrow> (\<exists>u v. name = u @ v \<and> glob ps v)"
proof
  assume "glob (star # ps) name"
  then have "\<exists>k \<in> set [0..<Suc (length name)]. glob ps (drop k name)"
    by (simp only: glob.simps(2) if_True simp_thms list_ex_iff)
  then obtain k where "glob ps (drop k name)" by blast
  then show "\<exists>u v. name = u @ v \<and> glob ps v" by (metis append_take_drop_id)
next
  assume "\<exists>u v. name = u @ v \<and> glob ps v"
  then obtain u v where "name = u @ v" "glob ps v" by blast
  then show "glob (star # ps) name" by (auto simp: list_ex_iff intro!: bexI [of _ "length u"])
qed

lemma glob_same: "glob name name"
proof (induction name)
  case (Cons c cs)
  show ?case
  proof (cases "c = star")
    case True
    have "c # cs = [c] @ cs" by simp
    with Cons True show ?thesis using glob_star [of cs "c # cs"] by blast
  qed (use Cons in simp)
qed simp

lemma glob_prefix: "glob p u \<Longrightarrow> glob (p @ [star]) (u @ v)"
proof (induction p arbitrary: u)
  case Nil
  then show ?case using glob_star [of "[]" v] by auto
next
  case (Cons c cs)
  show ?case
  proof (cases "c = star")
    case True
    with Cons.prems obtain a b where u: "u = a @ b" "glob cs b" using glob_star by blast
    from Cons.IH [OF u(2)] u(1) True show ?thesis
      using glob_star [of "cs @ [star]" "u @ v"] by auto
  next
    case False
    with Cons.prems obtain us where "u = c # us" "glob cs us" by (cases u) auto
    with Cons.IH [of us] False show ?thesis by simp
  qed
qed

lemma glob_plain: "star \<notin> set q \<Longrightarrow> glob q name \<longleftrightarrow> q = name"
proof (induction q arbitrary: name)
  case (Cons c cs)
  then show ?case by (cases name) auto
qed auto

lemma glob_plain_prefix: "star \<notin> set q \<Longrightarrow> glob (q @ [star]) name \<longleftrightarrow> prefix q name"
proof (induction q arbitrary: name)
  case Nil
  then show ?case using glob_star [of "[]" name] by auto
next
  case (Cons c cs)
  then show ?case by (cases name) auto
qed

lemma glob_plain_suffix: "star \<notin> set q \<Longrightarrow> glob (star # q) name \<longleftrightarrow> suffix q name"
  by (metis glob_star glob_plain suffix_def)

lemma matchPattern_cases:
  "matchPattern p name \<Longrightarrow> p = [star] \<or> p = name \<or> (\<exists>q. p = star # q \<and> suffix q name) \<or>
     (\<exists>q. p = q @ [star] \<and> prefix q name)"
proof -
  assume m: "matchPattern p name"
  consider "p = [star]" | "p = name" | "p \<noteq> []" "p ! 0 = star" "drop (length name - (length p - 1)) name = drop 1 p"
    | "p \<noteq> []" "p ! (length p - 1) = star" "take (length p - 1) name = take (length p - 1) p"
    using m by (auto simp: matchPattern_def split: if_splits)
  then show ?thesis
  proof cases
    case 3
    then have "p = star # drop 1 p" by (cases p) auto
    moreover have "suffix (drop 1 p) name" using 3(3) suffix_drop by metis
    ultimately show ?thesis by blast
  next
    case 4
    then have "p = take (length p - 1) p @ [star]"
      by (metis append_butlast_last_id butlast_conv_take last_conv_nth)
    moreover have "prefix (take (length p - 1) p) name" using 4(3) take_is_prefix by metis
    ultimately show ?thesis by blast
  qed simp_all
qed

lemma matchPattern_glob: "matchPattern p name \<Longrightarrow> glob p name"
proof (drule matchPattern_cases, elim disjE exE conjE)
  fix q assume "p = star # q" "suffix q name"
  then show ?thesis using glob_star [of q name] glob_same [of q] by (auto simp: suffix_def)
next
  fix q assume "p = q @ [star]" "prefix q name"
  then show ?thesis using glob_prefix [of q q] glob_same [of q] by (auto simp: prefix_def)
next
  assume "p = [star]"
  then show ?thesis using glob_star [of "[]" name] by auto
qed (simp add: glob_same)

lemma matchPattern_suffix: "suffix q name \<Longrightarrow> matchPattern (star # q) name"
  by (auto simp: matchPattern_def suffix_def)

lemma matchPattern_prefix: "prefix q name \<Longrightarrow> star \<notin> set q \<Longrightarrow> matchPattern (q @ [star]) name"
  by (cases q) (auto simp: matchPattern_def prefix_def nth_append)

lemma matchPattern_same: "matchPattern name name"
  by (simp add: matchPattern_def)

section \<open>The filter\<close>

lemma any_match_iff: "any_match ps secret \<longleftrightarrow> (\<exists>p \<in> set ps. matchPattern p secret)"
  by (induction ps) auto

definition covered :: "FilterConfig \<Rightarrow> string \<Rightarrow> bool" where
  "covered f secret \<longleftrightarrow> \<not> (\<exists>p \<in> set (fc_Exclude f). matchPattern p secret) \<and>
     (fc_Patterns f = [] \<or> (\<exists>p \<in> set (fc_Patterns f). matchPattern p secret))"

lemma filter_loop_filter: "filter_loop secrets f acc = acc @ filter (covered f) secrets"
  by (induction secrets arbitrary: acc) (auto simp: any_match_iff covered_def)

lemma filterSecrets_filter: "filterSecrets secrets f = filter (covered f) secrets"
  by (auto simp: filterSecrets_def filter_loop_filter covered_def)

section \<open>Base64\<close>

definition alphabet :: string where
  "alphabet = ''ABCDEFGHIJKLMNOPQRSTUVWXYZabcdefghijklmnopqrstuvwxyz0123456789+/''"

abbreviation pad :: char where
  "pad \<equiv> CHR ''=''"

definition byte_of :: "char \<Rightarrow> nat" where
  "byte_of c = of_char c"

definition char_at :: "nat \<Rightarrow> char" where
  "char_at d = alphabet ! d"

fun EncodeToString :: "string \<Rightarrow> string" where
  "EncodeToString [] = []"
| "EncodeToString [a] = [char_at (byte_of a div 4), char_at (byte_of a mod 4 * 16), pad, pad]"
| "EncodeToString [a, b] =
     [char_at (byte_of a div 4), char_at (byte_of a mod 4 * 16 + byte_of b div 16),
      char_at (byte_of b mod 16 * 4), pad]"
| "EncodeToString (a # b # c # cs) =
     char_at (byte_of a div 4) # char_at (byte_of a mod 4 * 16 + byte_of b div 16) #
     char_at (byte_of b mod 16 * 4 + byte_of c div 64) # char_at (byte_of c mod 64) # EncodeToString cs"

fun index_of :: "char \<Rightarrow> string \<Rightarrow> nat option" where
  "index_of c [] = None"
| "index_of c (x # xs) = (if c = x then Some 0 else map_option Suc (index_of c xs))"

definition decode_digit :: "char \<Rightarrow> nat option" where
  "decode_digit c = index_of c alphabet"

definition newline :: "char \<Rightarrow> bool" where
  "newline c \<longleftrightarrow> c = CHR 0x0A \<or> c = CHR 0x0D"

text \<open>The bytes of two, three or four digits.\<close>

fun quantum :: "nat list \<Rightarrow> string" where
  "quantum [d0, d1, d2, d3] =
     [char_of (d0 * 4 + d1 div 16), char_of (d1 mod 16 * 16 + d2 div 4), char_of (d2 mod 4 * 64 + d3)]"
| "quantum [d0, d1, d2] = [char_of (d0 * 4 + d1 div 16), char_of (d1 mod 16 * 16 + d2 div 4)]"
| "quantum [d0, d1] = [char_of (d0 * 4 + d1 div 16)]"
| "quantum ds = []"

fun skip_newlines :: "nat \<Rightarrow> string \<Rightarrow> nat \<times> string" where
  "skip_newlines si [] = (si, [])"
| "skip_newlines si (c # cs) = (if newline c then skip_newlines (Suc si) cs else (si, c # cs))"

text \<open>
  The decoder: \<open>si\<close> is the position in the input, \<open>buf\<close> the digits of the current quantum; the left
  value is the position of the corrupt input.
\<close>

definition end_of_input :: "nat \<Rightarrow> nat list \<Rightarrow> string \<Rightarrow> nat + string" where
  "end_of_input si buf cs = (case skip_newlines si cs of (si', rest) \<Rightarrow>
     if rest \<noteq> [] then Inl si' else Inr (quantum buf))"

fun decode_from :: "nat \<Rightarrow> nat list \<Rightarrow> string \<Rightarrow> nat + string" where
  "decode_from si buf [] = (if buf = [] then Inr [] else Inl (si - length buf))"
| "decode_from si buf (c # cs) =
     (case decode_digit c of
        Some d \<Rightarrow>
          (if length buf = 3 then map_sum id (\<lambda>out. quantum (buf @ [d]) @ out) (decode_from (Suc si) [] cs)
           else decode_from (Suc si) (buf @ [d]) cs)
      | None \<Rightarrow>
          if newline c then decode_from (Suc si) buf cs
          else if c \<noteq> pad then Inl si
          else if length buf < 2 then Inl si
          else if length buf = 2 then
            (case skip_newlines (Suc si) cs of (si', rest) \<Rightarrow>
               (case rest of
                  [] \<Rightarrow> Inl si'
                | c' # cs' \<Rightarrow> if c' \<noteq> pad then Inl (si' - 1) else end_of_input (Suc si') buf cs'))
          else end_of_input (Suc si) buf cs)"

definition DecodeString :: "string \<Rightarrow> go_error + string" where
  "DecodeString s = map_sum (\<lambda>i. ''illegal base64 data at input byte '' @ itoa (int i)) id (decode_from 0 [] s)"

section \<open>Transforms\<close>

fun applyTransforms :: "string \<Rightarrow> Transform list \<Rightarrow> go_error + string" where
  "applyTransforms v [] = Inr v"
| "applyTransforms v (t # ts) =
     (if tr_Field t \<noteq> ''value'' then applyTransforms v ts
      else if tr_Type t = ''base64_encode'' then applyTransforms (EncodeToString v) ts
      else if tr_Type t = ''base64_decode'' then
        (case DecodeString v of
           Inl err \<Rightarrow> Inl (''base64_decode transform failed: '' @ err)
         | Inr decoded \<Rightarrow> applyTransforms decoded ts)
      else Inl (''unsupported transform type: '' @ tr_Type t))"

subsection \<open>Decoding inverts encoding\<close>

lemma decode_digit_char_at:
  assumes "d < 64"
  shows "decode_digit (char_at d) = Some d"
proof -
  have "list_all (\<lambda>d. decode_digit (char_at d) = Some d) [0..<64]" by code_simp
  with assms show ?thesis by (simp add: list_all_iff)
qed

lemma byte_of_less: "byte_of c < 256"
  by (simp add: byte_of_def)

lemma char_of_byte_of: "char_of (byte_of c) = c"
  by (simp add: byte_of_def)

lemma digits_of_bytes:
  fixes x y z :: nat
  assumes "x < 256" "y < 256" "z < 256"
  shows "x div 4 < 64" "x mod 4 * 16 + y div 16 < 64" "y mod 16 * 4 + z div 64 < 64" "z mod 64 < 64"
    "x mod 4 * 16 < 64" "y mod 16 * 4 < 64"
proof -
  have parts: "x mod 4 < 4" "y div 16 < 16" "y mod 16 < 16" "z div 64 < 4"
    using assms by (simp_all add: less_mult_imp_div_less)
  show "x div 4 < 64" using assms(1) by (simp add: less_mult_imp_div_less)
  show "x mod 4 * 16 + y div 16 < 64" "y mod 16 * 4 + z div 64 < 64" "z mod 64 < 64"
    "x mod 4 * 16 < 64" "y mod 16 * 4 < 64"
    using parts by simp_all
qed

lemma bytes_of_digits:
  fixes x y z :: nat
  assumes "y < 256" "z < 256"
  shows "x div 4 * 4 + (x mod 4 * 16 + y div 16) div 16 = x"
    "(x mod 4 * 16 + y div 16) mod 16 * 16 + (y mod 16 * 4 + z div 64) div 4 = y"
    "(y mod 16 * 4 + z div 64) mod 4 * 64 + z mod 64 = z"
    "x div 4 * 4 + x mod 4 * 16 div 16 = x"
    "(x mod 4 * 16 + y div 16) mod 16 * 16 + y mod 16 * 4 div 4 = y"
proof -
  have small: "y div 16 < 16" "z div 64 < 4"
    using assms by (simp_all add: less_mult_imp_div_less)
  then have "(x mod 4 * 16 + y div 16) div 16 = x mod 4" "(x mod 4 * 16 + y div 16) mod 16 = y div 16"
    "(y mod 16 * 4 + z div 64) div 4 = y mod 16" "(y mod 16 * 4 + z div 64) mod 4 = z div 64"
    by simp_all
  then show "x div 4 * 4 + (x mod 4 * 16 + y div 16) div 16 = x"
    "(x mod 4 * 16 + y div 16) mod 16 * 16 + (y mod 16 * 4 + z div 64) div 4 = y"
    "(y mod 16 * 4 + z div 64) mod 4 * 64 + z mod 64 = z"
    "x div 4 * 4 + x mod 4 * 16 div 16 = x"
    "(x mod 4 * 16 + y div 16) mod 16 * 16 + y mod 16 * 4 div 4 = y"
    by simp_all
qed

text \<open>The arithmetic of a quantum, in one fact.\<close>

lemma quantum_arith:
  "byte_of a div 4 < 64 \<and> byte_of a mod 4 * 16 + byte_of b div 16 < 64 \<and>
   byte_of b mod 16 * 4 + byte_of c div 64 < 64 \<and> byte_of c mod 64 < 64 \<and>
   byte_of a mod 4 * 16 < 64 \<and> byte_of b mod 16 * 4 < 64 \<and>
   byte_of a div 4 * 4 + (byte_of a mod 4 * 16 + byte_of b div 16) div 16 = byte_of a \<and>
   (byte_of a mod 4 * 16 + byte_of b div 16) mod 16 * 16 + (byte_of b mod 16 * 4 + byte_of c div 64) div 4 = byte_of b \<and>
   (byte_of b mod 16 * 4 + byte_of c div 64) mod 4 * 64 + byte_of c mod 64 = byte_of c \<and>
   byte_of a div 4 * 4 + byte_of a mod 4 * 16 div 16 = byte_of a \<and>
   (byte_of a mod 4 * 16 + byte_of b div 16) mod 16 * 16 + byte_of b mod 16 * 4 div 4 = byte_of b"
  by (intro conjI; rule digits_of_bytes bytes_of_digits; rule byte_of_less)

lemma decode_pad: "decode_digit pad = None" "\<not> newline pad"
  by code_simp+

lemma decode_encode: "decode_from si [] (EncodeToString s) = Inr s"
proof (induction s arbitrary: si rule: EncodeToString.induct)
  case (2 a)
  note quantum_arith [of a a a]
  then show ?case
    by (simp add: decode_digit_char_at decode_pad end_of_input_def char_of_byte_of)
next
  case (3 a b)
  note quantum_arith [of a b b]
  then show ?case
    by (simp add: decode_digit_char_at decode_pad end_of_input_def char_of_byte_of)
next
  case (4 a b c cs)
  note quantum_arith [of a b c]
  with 4 show ?case
    by (simp add: decode_digit_char_at char_of_byte_of)
qed simp

lemma Decode_Encode: "DecodeString (EncodeToString s) = Inr s"
  by (simp add: DecodeString_def decode_encode)

lemma applyTransforms_append:
  "applyTransforms v (ts @ us) =
     (case applyTransforms v ts of Inl err \<Rightarrow> Inl err | Inr w \<Rightarrow> applyTransforms w us)"
  by (induction v ts rule: applyTransforms.induct) (auto split: sum.splits)

section \<open>Properties\<close>

text \<open>
  On patterns whose only star is at one end (or that have none), \<open>matchPattern\<close> is glob matching:
  equality without a star, the suffix test for a leading one, the prefix test for a trailing one.
\<close>

theorem matchPattern_one_star:
  assumes "star \<notin> set q"
  shows "matchPattern q name = (q = name) \<and> matchPattern (star # q) name = suffix q name \<and>
    matchPattern (q @ [star]) name = prefix q name \<and>
    list_all (\<lambda>p. matchPattern p name = glob p name) [q, star # q, q @ [star]]"
proof -
  have "matchPattern q name = (q = name)"
    by (metis matchPattern_glob glob_plain [OF assms] matchPattern_same)
  moreover have "matchPattern (star # q) name = suffix q name"
    by (metis matchPattern_glob glob_plain_suffix [OF assms] matchPattern_suffix)
  moreover have "matchPattern (q @ [star]) name = prefix q name"
    by (metis matchPattern_glob glob_plain_prefix [OF assms] matchPattern_prefix [OF _ assms])
  ultimately show ?thesis
    using glob_plain [OF assms] glob_plain_suffix [OF assms] glob_plain_prefix [OF assms]
    by (simp del: glob.simps)
qed

lemma matchPattern_one_star_witness: "matchPattern ''db/*'' ''db/password'' \<and> \<not> matchPattern ''*/db'' ''db/password''"
  using matchPattern_one_star [of "''db/''" "''db/password''"] matchPattern_one_star [of "''/db''" "''db/password''"]
  by (auto simp: suffix_def)

text \<open>
  \<open>matchPattern\<close> never covers a secret that the pattern, read as a glob (a star matches any
  string), does not cover, whatever the pattern.
\<close>

theorem matchPattern_sound:
  assumes "matchPattern pattern name"
  shows "glob pattern name"
  by (rule matchPattern_glob [OF assms])

lemma matchPattern_sound_witness: "glob ''*-key'' ''api-key''"
  by (rule matchPattern_sound) (simp add: matchPattern_def)

text \<open>
  \<open>filterSecrets\<close> keeps, in order and with their repetitions, exactly the secrets that no exclude
  pattern matches and that some pattern matches (any secret when no patterns are given).
\<close>

theorem filterSecrets_exact: "filterSecrets secrets f = filter (covered f) secrets"
  by (rule filterSecrets_filter)

text \<open>Decoding an encoded value gives the value back, for every string of bytes.\<close>

theorem base64_roundtrip: "DecodeString (EncodeToString s) = Inr s"
  by (rule Decode_Encode)

text \<open>
  A list of transforms is applied from left to right: applying two lists after each other is
  applying their concatenation, the first error ends it, and \<open>base64_decode\<close> undoes
  \<open>base64_encode\<close>, whatever transforms of other fields stand around and between them.
\<close>

theorem applyTransforms_compose:
  assumes "tr_Field enc = ''value''" "tr_Type enc = ''base64_encode''"
    and "tr_Field dec = ''value''" "tr_Type dec = ''base64_decode''"
    and "\<forall>t \<in> set skip. tr_Field t \<noteq> ''value''"
  shows "applyTransforms v (ts @ skip @ [enc] @ skip @ [dec] @ skip @ us) = applyTransforms v (ts @ us)"
proof -
  have skip: "applyTransforms v (skip @ us) = applyTransforms v us" for v us
    using assms(5) by (induction skip) auto
  have "applyTransforms v (skip @ [enc] @ skip @ [dec] @ skip @ us) = applyTransforms v us" for v
    using assms(1-4) by (simp add: skip Decode_Encode)
  then show ?thesis by (simp only: applyTransforms_append [of v ts] cong: sum.case_cong)
qed

lemma applyTransforms_compose_witness:
  "applyTransforms ''secret'' [\<lparr>tr_Field = ''value'', tr_Type = ''base64_encode'', tr_Value = ''''\<rparr>,
     \<lparr>tr_Field = ''value'', tr_Type = ''base64_decode'', tr_Value = ''''\<rparr>] = Inr ''secret''"
  using applyTransforms_compose [of "\<lparr>tr_Field = ''value'', tr_Type = ''base64_encode'', tr_Value = ''''\<rparr>"
      "\<lparr>tr_Field = ''value'', tr_Type = ''base64_decode'', tr_Value = ''''\<rparr>" "[]" "''secret''" "[]" "[]"]
  by simp

end
