(* ===== verification/Go_Engine.thy ===== *)
theory Go_Engine
  imports Go_Store Go_Filter
begin

text \<open>
  The sync engine (\<open>sync/engine.go\<close>): the retry loop, the synchronisation of one secret in one or
  both directions, and whole runs by the worker pool. A task is a program whose actions are the
  requests to the vaults, the SQL statements, the readings of the clock and the sleeps.

  The vaults are behind the \<open>Backend\<close> interface (\<open>vault/backend.go\<close>): records of functions on
  the state \<open>'w\<close> of the outside world. SHA-256 is a parameter of the engine. Logging is left out.
  What the vaults do is the contract of the interface, \<open>vault_world\<close> in \<open>Go_Sync\<close>; the clients of
  \<open>vault/\<close> meet it where they store values as they are: a JSON value may be encoded anew, a new
  item of one kind of vault is posted under a further entry of the same name, and the output of a
  tool is trimmed.
\<close>

section \<open>State\<close>

record Secret =
  s_Name :: string
  s_Value :: string

record 'w Backend =
  ListSecrets :: "'w \<Rightarrow> (go_error + string list) \<times> 'w"
  GetSecret :: "string \<Rightarrow> 'w \<Rightarrow> (go_error + Secret) \<times> 'w"
  SetSecret :: "string \<Rightarrow> string \<Rightarrow> 'w \<Rightarrow> go_error option \<times> 'w"
  TestConnection :: "'w \<Rightarrow> go_error option \<times> 'w"

record 'w Engine =
  e_backends :: "string \<Rightarrow> 'w Backend option"
  e_sha256 :: "string \<Rightarrow> string"

record 'w sys = db +
  vaults :: 'w
  sleeps :: "int list"

definition request :: "('w \<Rightarrow> 'a \<times> 'w) \<Rightarrow> ('w sys, 'a) prog" where
  "request f = act (\<lambda>s. case f (vaults s) of (a, w) \<Rightarrow> (a, s\<lparr>vaults := w\<rparr>))"

definition Sleep :: "int \<Rightarrow> ('w sys, unit) prog" where
  "Sleep ms = act (\<lambda>s. ((), s\<lparr>sleeps := sleeps s @ [ms]\<rparr>))"

section \<open>Creating the engine\<close>

text \<open>
  One backend per vault whose factory succeeds; a failing connection test is only logged. The
  factory and the connection test act on the outside world.
\<close>

fun newEngineWithBackendFactory ::
  "(VaultConfig \<Rightarrow> 'w \<Rightarrow> (go_error + 'w Backend) \<times> 'w) \<Rightarrow> VaultConfig list \<Rightarrow>
   (string \<Rightarrow> 'w Backend option) \<Rightarrow> 'w \<Rightarrow> (string \<Rightarrow> 'w Backend option) \<times> 'w" where
  "newEngineWithBackendFactory factory [] bs w = (bs, w)"
| "newEngineWithBackendFactory factory (v # vs) bs w =
     (case factory v w of
        (Inl err, w1) \<Rightarrow> newEngineWithBackendFactory factory vs bs w1
      | (Inr b, w1) \<Rightarrow> newEngineWithBackendFactory factory vs (bs(vc_ID v \<mapsto> b)) (snd (TestConnection b w1)))"

text \<open>\<open>vault.NewBackend\<close>: the kind of backend that is made for a vault type.\<close>

datatype backend_kind = ToolBackend | GenericBackend

definition NewBackend_kind :: "VaultConfig \<Rightarrow> go_error + backend_kind" where
  "NewBackend_kind cfg =
     (let cfg = PopulateDefaults cfg in
      if GetVaultType cfg = ''tool'' then
        (case vc_ResolvedTool cfg of
           None \<Rightarrow> Inl (''vault '' @ vc_ID cfg @
             '': tool config not resolved; ensure type is 'tool' and tool_config is set'')
         | Some tool \<Rightarrow> Inr ToolBackend)
      else Inr GenericBackend)"

section \<open>Hashing and retrying\<close>

definition hex_digits :: "string \<Rightarrow> string" where
  "hex_digits s = concat (map (\<lambda>c. [''0123456789abcdef'' ! (byte_of c div 16), ''0123456789abcdef'' ! (byte_of c mod 16)]) s)"

definition hashString :: "'w Engine \<Rightarrow> string \<Rightarrow> string" where
  "hashString e s = hex_digits (e_sha256 e s)"

definition next_backoff :: "RetryPolicy \<Rightarrow> int \<Rightarrow> int" where
  "next_backoff policy backoff =
     (let b = scale64 backoff (Multiplier policy) in if b > MaxBackoff policy then MaxBackoff policy else b)"

text \<open>The loop, by the number of retries that are left.\<close>

fun retry_loop :: "RetryPolicy \<Rightarrow> ('w sys, go_error option) prog \<Rightarrow> nat \<Rightarrow> int \<Rightarrow> ('w sys, go_error option) prog" where
  "retry_loop policy fn 0 backoff =
     bind_prog fn (\<lambda>err. case err of None \<Rightarrow> Return None
       | Some lastErr \<Rightarrow> Return (Some (''max retries exceeded: '' @ lastErr)))"
| "retry_loop policy fn (Suc retries) backoff =
     bind_prog fn (\<lambda>err. case err of None \<Rightarrow> Return None
       | Some lastErr \<Rightarrow> bind_prog (Sleep backoff) (\<lambda>_. retry_loop policy fn retries (next_backoff policy backoff)))"

definition withRetry :: "RetryPolicy \<Rightarrow> ('w sys, go_error option) prog \<Rightarrow> ('w sys, go_error option) prog" where
  "withRetry policy fn =
     (if MaxRetries policy < 0 then Return (Some ''max retries exceeded: %!w(<nil>)'')
      else retry_loop policy fn (nat (MaxRetries policy)) (InitialBackoff policy))"

definition effectiveRetryPolicy :: "RetryPolicy \<Rightarrow> RetryPolicy" where
  "effectiveRetryPolicy p =
     (if MaxRetries p > 0 \<or> InitialBackoff p > 0 then p
      else \<lparr>MaxRetries = 3, InitialBackoff = 1000, MaxBackoff = 60000, Multiplier = Float64 2 0\<rparr>)"

section \<open>One secret\<close>

text \<open>The composite literal of the sync object that every branch records.\<close>

definition sync_object ::
  "SyncConfig \<Rightarrow> string \<Rightarrow> string \<Rightarrow> string \<Rightarrow> string \<Rightarrow> int \<Rightarrow> string \<Rightarrow> string \<Rightarrow> string \<Rightarrow> SyncObject" where
  "sync_object syncCfg targetID secretName sourceChecksum targetChecksum time status err direction =
     \<lparr>so_ID = 0, so_SyncID = sc_ID syncCfg, so_SourceVaultID = sc_Source syncCfg, so_TargetVaultID = targetID,
      so_SecretName = secretName, so_ExternalID = [], so_SourceChecksum = sourceChecksum,
      so_TargetChecksum = targetChecksum, so_LastSyncTime = time, so_LastSyncStatus = status,
      so_LastSyncError = err, so_SyncCount = 0, so_FailureCount = 0, so_DirectionLast = direction\<rparr>"

text \<open>Reading the clock and upserting; the error of the upsert is dropped, \<open>result\<close> is returned.\<close>

definition record_object :: "(int \<Rightarrow> SyncObject) \<Rightarrow> go_error option \<Rightarrow> ('w sys, go_error option) prog" where
  "record_object obj result =
     bind_prog time_now (\<lambda>t. bind_prog (UpsertSyncObject (obj (Unix t))) (\<lambda>_. Return result))"

definition syncSecretUnidirectional ::
  "'w Engine \<Rightarrow> SyncConfig \<Rightarrow> string \<Rightarrow> string \<Rightarrow> 'w Backend \<Rightarrow> ('w sys, go_error option) prog" where
  "syncSecretUnidirectional e syncCfg targetID secretName sourceBackend =
     (case e_backends e targetID of
        None \<Rightarrow> Return (Some (''target vault backend not found: '' @ targetID))
      | Some targetBackend \<Rightarrow>
          bind_prog (request (GetSecret sourceBackend secretName)) (\<lambda>got.
          case got of
            Inl err \<Rightarrow> Return (Some (''failed to get secret from source: '' @ err))
          | Inr secret \<Rightarrow>
              (case applyTransforms (s_Value secret) (sc_Transforms syncCfg) of
                 Inl err \<Rightarrow> Return (Some (''failed to apply transforms: '' @ err))
               | Inr value \<Rightarrow>
                   bind_prog (withRetry (effectiveRetryPolicy (sc_RetryPolicy syncCfg))
                     (request (SetSecret targetBackend secretName value))) (\<lambda>res.
                   let sourceChecksum = hashString e (s_Value secret) in
                   case res of
                     Some err \<Rightarrow> record_object (\<lambda>now. sync_object syncCfg targetID secretName
                       sourceChecksum [] now ''failed'' err ''source_to_target'') (Some err)
                   | None \<Rightarrow> record_object (\<lambda>now. sync_object syncCfg targetID secretName
                       sourceChecksum sourceChecksum now ''success'' [] ''source_to_target'') None))))"

text \<open>The direction that is chosen when the two vaults differ.\<close>

definition conflict_direction :: "SyncObject option \<Rightarrow> string" where
  "conflict_direction existingObj =
     (case existingObj of
        None \<Rightarrow> ''source_to_target''
      | Some obj \<Rightarrow> if so_DirectionLast obj = ''target_to_source'' then ''source_to_target'' else ''target_to_source'')"

text \<open>The write that resolves a difference, and what is recorded of it.\<close>

definition resolve_conflict ::
  "'w Engine \<Rightarrow> SyncConfig \<Rightarrow> string \<Rightarrow> string \<Rightarrow> 'w Backend \<Rightarrow> 'w Backend \<Rightarrow> string \<Rightarrow> string \<Rightarrow>
   SyncObject option \<Rightarrow> ('w sys, go_error option) prog" where
  "resolve_conflict e syncCfg targetID secretName sourceBackend targetBackend sourceValue targetValue existingObj =
     (let sourceChecksum = hashString e sourceValue;
          targetChecksum = hashString e targetValue;
          direction = conflict_direction existingObj;
          retryPolicy = effectiveRetryPolicy (sc_RetryPolicy syncCfg) in
      if direction = ''source_to_target'' then
        bind_prog (withRetry retryPolicy (request (SetSecret targetBackend secretName sourceValue))) (\<lambda>res.
        case res of
          Some err \<Rightarrow> record_object (\<lambda>now. sync_object syncCfg targetID secretName
            sourceChecksum targetChecksum now ''failed'' err ''source_to_target'') (Some err)
        | None \<Rightarrow> record_object (\<lambda>now. sync_object syncCfg targetID secretName
            sourceChecksum sourceChecksum now ''success'' [] direction) None)
      else
        bind_prog (withRetry retryPolicy (request (SetSecret sourceBackend secretName targetValue))) (\<lambda>res.
        case res of
          Some err \<Rightarrow> record_object (\<lambda>now. sync_object syncCfg targetID secretName
            sourceChecksum targetChecksum now ''failed'' err ''target_to_source'') (Some err)
        | None \<Rightarrow> record_object (\<lambda>now. sync_object syncCfg targetID secretName
            targetChecksum targetChecksum now ''success'' [] direction) None))"

text \<open>The comparison of the two values, once both are read.\<close>

definition compare_secrets ::
  "'w Engine \<Rightarrow> SyncConfig \<Rightarrow> string \<Rightarrow> string \<Rightarrow> 'w Backend \<Rightarrow> 'w Backend \<Rightarrow> string \<Rightarrow> string \<Rightarrow>
   ('w sys, go_error option) prog" where
  "compare_secrets e syncCfg targetID secretName sourceBackend targetBackend sourceValue targetValue =
     (let sourceChecksum = hashString e sourceValue;
          targetChecksum = hashString e targetValue in
      if sourceChecksum = targetChecksum then
        record_object (\<lambda>now. sync_object syncCfg targetID secretName
          sourceChecksum targetChecksum now ''in_sync'' [] ''none'') None
      else
        bind_prog (GetSyncObject (sc_ID syncCfg) (sc_Source syncCfg) targetID secretName) (\<lambda>found.
        case found of
          Inl err \<Rightarrow> Return (Some (''failed to get sync object: '' @ err))
        | Inr existingObj \<Rightarrow>
            resolve_conflict e syncCfg targetID secretName sourceBackend targetBackend sourceValue targetValue
              existingObj))"

definition syncSecretBidirectional ::
  "'w Engine \<Rightarrow> SyncConfig \<Rightarrow> string \<Rightarrow> string \<Rightarrow> 'w Backend \<Rightarrow> 'w Backend \<Rightarrow> ('w sys, go_error option) prog" where
  "syncSecretBidirectional e syncCfg targetID secretName sourceBackend targetBackend =
     bind_prog (request (GetSecret sourceBackend secretName)) (\<lambda>got.
     case got of
       Inl err \<Rightarrow> Return (Some (''failed to get secret from source: '' @ err))
     | Inr sourceSecret \<Rightarrow>
         bind_prog (request (GetSecret targetBackend secretName)) (\<lambda>got2.
         case got2 of
           Inl err \<Rightarrow> syncSecretUnidirectional e syncCfg targetID secretName sourceBackend
         | Inr targetSecret \<Rightarrow>
             compare_secrets e syncCfg targetID secretName sourceBackend targetBackend
               (s_Value sourceSecret) (s_Value targetSecret)))"

section \<open>Whole runs\<close>

record SyncResult =
  Success :: int
  Failure :: int

text \<open>The loop over the results channel.\<close>

fun collect :: "bool list \<Rightarrow> SyncResult \<Rightarrow> SyncResult" where
  "collect [] r = r"
| "collect (ok # oks) r =
     collect oks (if ok then r\<lparr>Success := Success r + 1\<rparr> else r\<lparr>Failure := Failure r + 1\<rparr>)"

text \<open>
  The body of a goroutine sends whether the task returned no error; \<open>sched\<close> chooses which
  goroutine moves, \<open>None\<close> says that the choices end before the wait group is released.
\<close>

definition goroutine_body :: "('w sys, go_error option) prog \<Rightarrow> ('w sys, bool) prog" where
  "goroutine_body task = bind_prog task (\<lambda>err. Return (err = None))"

definition run_pool :: "nat \<Rightarrow> nat list \<Rightarrow> ('w sys, bool) prog list \<Rightarrow> 'w sys \<Rightarrow> (SyncResult \<times> 'w sys) option" where
  "run_pool workerCount sched tasks s =
     (case schedule workerCount sched (spawn tasks, s) of (gs, s') \<Rightarrow>
        if all_done gs then Some (collect (outcomes gs) \<lparr>Success = 0, Failure = 0\<rparr>, s') else None)"

definition unidirectional_tasks ::
  "'w Engine \<Rightarrow> SyncConfig \<Rightarrow> 'w Backend \<Rightarrow> string list \<Rightarrow> ('w sys, bool) prog list" where
  "unidirectional_tasks e syncCfg sourceBackend filteredSecrets =
     concat (map (\<lambda>secretName. map (\<lambda>targetID.
       goroutine_body (syncSecretUnidirectional e syncCfg targetID secretName sourceBackend)) (sc_Targets syncCfg))
       filteredSecrets)"

definition executeSyncUnidirectionalConcurrent ::
  "'w Engine \<Rightarrow> SyncConfig \<Rightarrow> 'w Backend \<Rightarrow> nat \<Rightarrow> nat list \<Rightarrow> 'w sys \<Rightarrow> (SyncResult \<times> 'w sys) option" where
  "executeSyncUnidirectionalConcurrent e syncCfg sourceBackend workerCount sched s =
     (case run_prog (request (ListSecrets sourceBackend)) s of
        (Inl err, s1) \<Rightarrow> Some (\<lparr>Success = 0, Failure = 0\<rparr>, s1)
      | (Inr secrets, s1) \<Rightarrow>
          run_pool workerCount sched
            (unidirectional_tasks e syncCfg sourceBackend (filterSecrets secrets (sc_Filter syncCfg))) s1)"

definition bidirectional_tasks ::
  "'w Engine \<Rightarrow> SyncConfig \<Rightarrow> string \<Rightarrow> 'w Backend \<Rightarrow> 'w Backend \<Rightarrow> string list \<Rightarrow> ('w sys, bool) prog list" where
  "bidirectional_tasks e syncCfg targetID sourceBackend targetBackend filteredSecrets =
     map (\<lambda>secretName. goroutine_body
       (syncSecretBidirectional e syncCfg targetID secretName sourceBackend targetBackend)) filteredSecrets"

definition executeSyncBidirectionalConcurrent ::
  "'w Engine \<Rightarrow> SyncConfig \<Rightarrow> string \<Rightarrow> 'w Backend \<Rightarrow> 'w Backend \<Rightarrow> nat \<Rightarrow> nat list \<Rightarrow> 'w sys \<Rightarrow>
   (SyncResult \<times> 'w sys) option" where
  "executeSyncBidirectionalConcurrent e syncCfg targetID sourceBackend targetBackend workerCount sched s =
     (case run_prog (request (ListSecrets sourceBackend)) s of
        (Inl err, s1) \<Rightarrow> Some (\<lparr>Success = 0, Failure = 0\<rparr>, s1)
      | (Inr secrets, s1) \<Rightarrow>
          run_pool workerCount sched
            (bidirectional_tasks e syncCfg targetID sourceBackend targetBackend
               (filterSecrets secrets (sc_Filter syncCfg))) s1)"

text \<open>How \<open>ExecuteSync\<close> ends: no error, an error, or the panic of an index out of range.\<close>

datatype outcome = Completed | Failed go_error | Panicked go_error

definition Milliseconds :: "int \<Rightarrow> int" where
  "Milliseconds d = d div 1000000"

definition run_status :: "SyncResult \<Rightarrow> string" where
  "run_status r = (if Success r = 0 then ''failed'' else if Failure r > 0 then ''partial'' else ''success'')"

definition finish_run :: "SyncConfig \<Rightarrow> int \<Rightarrow> SyncResult \<Rightarrow> 'w sys \<Rightarrow> outcome \<times> 'w sys" where
  "finish_run syncCfg startTime r s =
     run_prog (bind_prog time_now (\<lambda>t.
       bind_prog (RecordSyncRun (sc_ID syncCfg) (run_status r) (Success r) (Failure r) (Milliseconds (t - startTime)) [])
         (\<lambda>_. Return Completed))) s"

definition worker_count :: "SyncConfig \<Rightarrow> nat" where
  "worker_count syncCfg = nat (if sc_ConcurrentWorkers syncCfg \<le> 0 then 1 else sc_ConcurrentWorkers syncCfg)"

definition ExecuteSync :: "'w Engine \<Rightarrow> SyncConfig \<Rightarrow> nat list \<Rightarrow> 'w sys \<Rightarrow> (outcome \<times> 'w sys) option" where
  "ExecuteSync e syncCfg sched s =
     (case run_prog time_now s of (startTime, s1) \<Rightarrow>
      case e_backends e (sc_Source syncCfg) of
        None \<Rightarrow> Some (Failed (''source vault backend not found: '' @ sc_Source syncCfg), s1)
      | Some sourceBackend \<Rightarrow>
          (case run_prog (request (ListSecrets sourceBackend)) s1 of
             (Inl err, s2) \<Rightarrow>
               Some (run_prog (bind_prog time_now (\<lambda>t.
                 bind_prog (RecordSyncRun (sc_ID syncCfg) ''failed'' 0 0 (Milliseconds (t - startTime))
                   (''failed to list secrets from source: '' @ err)) (\<lambda>_. Return (Failed err)))) s2)
           | (Inr secrets, s2) \<Rightarrow>
               if sc_SyncType syncCfg = ''unidirectional'' then
                 map_option (\<lambda>(r, s3). finish_run syncCfg startTime r s3)
                   (executeSyncUnidirectionalConcurrent e syncCfg sourceBackend (worker_count syncCfg) sched s2)
               else if sc_SyncType syncCfg = ''bidirectional'' then
                 (case sc_Targets syncCfg of
                    [] \<Rightarrow> Some (Panicked ''index out of range [0] with length 0'', s2)
                  | targetID # _ \<Rightarrow>
                      (case e_backends e targetID of
                         None \<Rightarrow> Some (Failed (''target vault backend not found: '' @ targetID), s2)
                       | Some targetBackend \<Rightarrow>
                           map_option (\<lambda>(r, s3). finish_run syncCfg startTime r s3)
                             (executeSyncBidirectionalConcurrent e syncCfg targetID sourceBackend targetBackend
                               (worker_count syncCfg) sched s2)))
               else Some (finish_run syncCfg startTime \<lparr>Success = 0, Failure = 0\<rparr> s2)))"

section \<open>The retry loop\<close>

text \<open>The sleeps between attempts: the initial back-off, then scaled and capped.\<close>

fun backoffs :: "RetryPolicy \<Rightarrow> int \<Rightarrow> nat \<Rightarrow> int list" where
  "backoffs policy b 0 = []"
| "backoffs policy b (Suc n) = b # backoffs policy (next_backoff policy b) n"

lemma length_backoffs [simp]: "length (backoffs policy b n) = n"
  by (induction n arbitrary: b) auto

lemma backoffs_nth: "k < n \<Longrightarrow> backoffs policy b n ! k = (next_backoff policy ^^ k) b"
proof (induction n arbitrary: b k)
  case (Suc n)
  then show ?case by (cases k) (simp_all add: funpow_swap1)
qed simp

lemma next_backoff_capped: "next_backoff policy b \<le> MaxBackoff policy"
  by (simp add: next_backoff_def Let_def)

lemma backoffs_capped:
  "b \<le> MaxBackoff policy \<Longrightarrow> x \<in> set (backoffs policy b n) \<Longrightarrow> x \<le> MaxBackoff policy"
proof (induction n arbitrary: b)
  case (Suc n)
  then show ?case using next_backoff_capped [of policy b] by auto
qed simp

lemma backoffs_tail_capped: "x \<in> set (tl (backoffs policy b n)) \<Longrightarrow> x \<le> MaxBackoff policy"
  by (cases n) (auto intro: backoffs_capped next_backoff_capped)

text \<open>The state before the attempt with number \<open>n\<close>, when the attempts before it have failed.\<close>

fun attempts :: "('w sys, go_error option) prog \<Rightarrow> int list \<Rightarrow> 'w sys \<Rightarrow> nat \<Rightarrow> 'w sys" where
  "attempts fn bs s 0 = s"
| "attempts fn bs s (Suc n) =
     attempts fn (tl bs) (snd (run_prog (Sleep (hd bs)) (snd (run_prog fn s)))) n"

lemma retry_loop_attempts:
  assumes "run_prog (retry_loop policy fn m b) s = (r, s')" "bs = backoffs policy b m"
  shows "\<exists>n \<le> m. (\<forall>k < n. fst (run_prog fn (attempts fn bs s k)) \<noteq> None) \<and>
    s' = snd (run_prog fn (attempts fn bs s n)) \<and>
    (case fst (run_prog fn (attempts fn bs s n)) of
       None \<Rightarrow> r = None
     | Some err \<Rightarrow> n = m \<and> r = Some (''max retries exceeded: '' @ err))"
  using assms
proof (induction m arbitrary: b s bs)
  case 0
  then show ?case by (auto split: prod.splits option.splits)
next
  case (Suc m)
  show ?case
  proof (cases "fst (run_prog fn s)")
    case None
    with Suc.prems(1) show ?thesis by (intro exI [of _ 0]) (auto split: prod.splits)
  next
    case (Some err)
    let ?s = "snd (run_prog (Sleep b) (snd (run_prog fn s)))"
    from Some Suc.prems(1) have "run_prog (retry_loop policy fn m (next_backoff policy b)) ?s = (r, s')"
      by (auto split: prod.splits simp: Sleep_def)
    from Suc.IH [OF this refl] obtain n where n: "n \<le> m"
      "\<forall>k < n. fst (run_prog fn (attempts fn (backoffs policy (next_backoff policy b) m) ?s k)) \<noteq> None"
      "s' = snd (run_prog fn (attempts fn (backoffs policy (next_backoff policy b) m) ?s n))"
      "case fst (run_prog fn (attempts fn (backoffs policy (next_backoff policy b) m) ?s n)) of
         None \<Rightarrow> r = None | Some err \<Rightarrow> n = m \<and> r = Some (''max retries exceeded: '' @ err)"
      by blast
    have step: "attempts fn bs s (Suc k) = attempts fn (backoffs policy (next_backoff policy b) m) ?s k" for k
      by (simp add: Suc.prems(2))
    have "\<forall>k < Suc n. fst (run_prog fn (attempts fn bs s k)) \<noteq> None"
      using n(2) Some step by (auto simp: less_Suc_eq_0_disj simp del: attempts.simps(2))
    moreover have "case fst (run_prog fn (attempts fn bs s (Suc n))) of
         None \<Rightarrow> r = None | Some err \<Rightarrow> Suc n = Suc m \<and> r = Some (''max retries exceeded: '' @ err)"
      using n(4) unfolding step by (simp split: option.splits)
    ultimately show ?thesis using n(1,3) step by (intro exI [of _ "Suc n"]) simp
  qed
qed

lemma sleeps_request [simp]: "sleeps (snd (run_prog (request f) s)) = sleeps s"
  by (simp add: request_def split: prod.splits)

lemma sleeps_attempts:
  "n \<le> length bs \<Longrightarrow> sleeps (attempts (request f) bs s n) = sleeps s @ take n bs"
proof (induction n arbitrary: bs s)
  case (Suc n)
  then obtain c cs where bs: "bs = c # cs" by (cases bs) auto
  have "sleeps (attempts (request f) cs (snd (run_prog (Sleep c) (snd (run_prog (request f) s)))) n) =
      sleeps (snd (run_prog (Sleep c) (snd (run_prog (request f) s)))) @ take n cs"
    using Suc bs by (intro Suc.IH) simp
  then show ?case using bs by (simp add: Sleep_def)
qed simp

text \<open>The state of the vaults in front of the call with number \<open>n\<close> of the request \<open>f\<close>.\<close>

fun after_calls :: "('w \<Rightarrow> 'a \<times> 'w) \<Rightarrow> nat \<Rightarrow> 'w \<Rightarrow> 'w" where
  "after_calls f 0 w = w"
| "after_calls f (Suc n) w = after_calls f n (snd (f w))"

lemma run_request: "run_prog (request f) s = (fst (f (vaults s)), s\<lparr>vaults := snd (f (vaults s))\<rparr>)"
  by (simp add: request_def split: prod.splits)

lemma vaults_attempts: "vaults (attempts (request f) bs s n) = after_calls f n (vaults s)"
  by (induction n arbitrary: bs s) (simp_all add: run_request Sleep_def)

text \<open>
  C40: A request under \<open>withRetry\<close> is sent again after each failure, at most \<open>MaxRetries\<close> times more,
  until it succeeds; the result is that of the last attempt. Between two attempts the engine sleeps
  for the backoff. The first sleep is \<open>InitialBackoff\<close>, even where that exceeds \<open>MaxBackoff\<close>; each later
  one is the one before it, scaled by the multiplier and capped at \<open>MaxBackoff\<close>.
\<close>

theorem withRetry_attempts:
  assumes "run_prog (withRetry policy (request f)) s = (r, s')" "0 \<le> MaxRetries policy"
  shows "\<exists>n \<le> nat (MaxRetries policy). let bs = backoffs policy (InitialBackoff policy) (nat (MaxRetries policy)) in
    (\<forall>k < n. fst (f (after_calls f k (vaults s))) \<noteq> None) \<and>
    (case fst (f (after_calls f n (vaults s))) of
       None \<Rightarrow> r = None
     | Some err \<Rightarrow> n = nat (MaxRetries policy) \<and> r = Some (''max retries exceeded: '' @ err)) \<and>
    vaults s' = after_calls f (Suc n) (vaults s) \<and>
    sleeps s' = sleeps s @ take n bs \<and>
    (\<forall>k < nat (MaxRetries policy). bs ! k = (next_backoff policy ^^ k) (InitialBackoff policy)) \<and>
    (\<forall>x \<in> set (tl bs). x \<le> MaxBackoff policy)"
proof -
  let ?bs = "backoffs policy (InitialBackoff policy) (nat (MaxRetries policy))"
  have "run_prog (retry_loop policy (request f) (nat (MaxRetries policy)) (InitialBackoff policy)) s = (r, s')"
    using assms by (simp add: withRetry_def)
  from retry_loop_attempts [OF this refl] obtain n where n: "n \<le> nat (MaxRetries policy)"
    "\<forall>k < n. fst (f (after_calls f k (vaults s))) \<noteq> None"
    "s' = snd (run_prog (request f) (attempts (request f) ?bs s n))"
    "case fst (f (after_calls f n (vaults s))) of None \<Rightarrow> r = None
     | Some err \<Rightarrow> n = nat (MaxRetries policy) \<and> r = Some (''max retries exceeded: '' @ err)"
    by (auto simp: run_request vaults_attempts)
  have last: "snd (f (after_calls f m w)) = after_calls f (Suc m) w" for m w
    by (induction m arbitrary: w) simp_all
  have "vaults s' = after_calls f (Suc n) (vaults s)" "sleeps s' = sleeps s @ take n ?bs"
    using n(1) last [of n "vaults s"] unfolding n(3)
    by (simp_all add: run_request vaults_attempts sleeps_attempts)
  with n(1,2,4) backoffs_tail_capped backoffs_nth show ?thesis unfolding Let_def by blast
qed

theorem withRetry_attempts_witness:
  "\<exists>s'. run_prog (withRetry
       \<lparr>MaxRetries = 3, InitialBackoff = 2000, MaxBackoff = 1000, Multiplier = Float64 2 0\<rparr>
       (request (\<lambda>w. (if w < 2 then Some ''busy'' else None, w + 1))))
       \<lparr>sync_objects = [], next_object_id = 1, syncs_run = [], next_run_id = 1, db_error = (\<lambda>_. None),
         clock = (\<lambda>_. 0), tick = 0, vaults = 0 :: nat, sleeps = []\<rparr> = (None, s') \<and> vaults s' = 3 \<and> sleeps s' = [2000, 1000]"
proof -
  let ?policy = "\<lparr>MaxRetries = 3, InitialBackoff = 2000, MaxBackoff = 1000, Multiplier = Float64 2 0\<rparr>"
  let ?f = "\<lambda>w. (if w < 2 then Some ''busy'' else None, w + 1 :: nat)"
  let ?s = "\<lparr>sync_objects = [], next_object_id = 1, syncs_run = [], next_run_id = 1, db_error = (\<lambda>_. None),
    clock = (\<lambda>_. 0), tick = 0, vaults = 0 :: nat, sleeps = []\<rparr>"
  have calls: "after_calls (\<lambda>w. (if w < 2 then Some ''busy'' else None, Suc w)) n w = w + n" for n w
    by (induction n arbitrary: w) simp_all
  have bs: "backoffs ?policy 2000 3 = [2000, 1000, 1000]"
    by code_simp
  obtain r s' where run: "run_prog (withRetry ?policy (request ?f)) ?s = (r, s')" by (cases "run_prog (withRetry ?policy (request ?f)) ?s")
  from withRetry_attempts [OF this] obtain n where n: "n \<le> 3" "\<forall>k < n. k < 2" "if n < 2 then n = 3 else r = None"
    "vaults s' = Suc n" "sleeps s' = take n [2000, 1000, 1000]"
    by (auto simp: calls Let_def bs split: if_splits)
  have "n \<noteq> 3" using spec [OF n(2), of 2] by simp
  with n(1,3) have "n = 2" by (simp split: if_splits)
  with n run show ?thesis by simp
qed

end
