(* ===== verification/Go_Sync.thy ===== *)
theory Go_Sync
  imports Go_Engine
begin

text \<open>
  What a run of the engine does to the vaults and to the table of sync objects, for every
  interleaving of its goroutines. The vault services are behind the interface \<open>vault_world\<close>: what
  each request may do to the contents of the vaults. The interface is interpreted on the vault of
  the engine's tests (\<open>mockBackend\<close> in \<open>sync/engine_test.go\<close>).
\<close>

section \<open>The interface of the vaults\<close>

text \<open>
  \<open>contents w b n\<close> is the value of the secret \<open>n\<close> in the vault \<open>b\<close>. Reading changes nothing and
  returns what is there; listing returns the names; a write that succeeds stores the value, one
  that fails may or may not have stored it, and no write touches another secret. (So nobody else
  writes to the vaults meanwhile, and different vault identifiers are different vaults.)
\<close>

locale vault_world =
  fixes backends :: "string \<Rightarrow> 'w Backend option"
    and contents :: "'w \<Rightarrow> string \<Rightarrow> string \<Rightarrow> string option"
  assumes get_contents: "backends b = Some be \<Longrightarrow> contents (snd (GetSecret be n w)) = contents w"
    and get_value: "backends b = Some be \<Longrightarrow> fst (GetSecret be n w) = Inr sec \<Longrightarrow> contents w b n = Some (s_Value sec)"
    and list_contents: "backends b = Some be \<Longrightarrow> contents (snd (ListSecrets be w)) = contents w"
    and list_names: "backends b = Some be \<Longrightarrow> fst (ListSecrets be w) = Inr ns \<Longrightarrow>
      set ns = dom (contents w b) \<and> distinct ns"
    and set_value: "backends b = Some be \<Longrightarrow> fst (SetSecret be n v w) = None \<Longrightarrow>
      contents (snd (SetSecret be n v w)) b n = Some v"
    and set_failed: "backends b = Some be \<Longrightarrow> contents (snd (SetSecret be n v w)) b n = contents w b n \<or>
      contents (snd (SetSecret be n v w)) b n = Some v"
    and set_others: "backends b = Some be \<Longrightarrow> (b', n') \<noteq> (b, n) \<Longrightarrow>
      contents (snd (SetSecret be n v w)) b' n' = contents w b' n'"

section \<open>What a task sees and may change\<close>

text \<open>
  A task for the secret \<open>n\<close> from the vault \<open>a\<close> to the vault \<open>b\<close> sees that secret in the two vaults,
  the sync object with its key, and the failure oracle of the database.
\<close>

type_synonym view = "string option \<times> string option \<times> SyncObject option \<times> (nat \<Rightarrow> go_error option)"

definition look ::
  "('w \<Rightarrow> string \<Rightarrow> string \<Rightarrow> string option) \<Rightarrow> string \<Rightarrow> string \<Rightarrow> string \<Rightarrow> string \<Rightarrow> 'w sys \<Rightarrow> view" where
  "look contents sid a b n s =
     (contents (vaults s) a n, contents (vaults s) b n, find_object (sid, a, b, n) s, db_error s)"

text \<open>It changes the given places of the vaults and the sync object with the given key only.\<close>

definition only ::
  "('w \<Rightarrow> string \<Rightarrow> string \<Rightarrow> string option) \<Rightarrow> (string \<times> string) set \<Rightarrow> key \<Rightarrow> 'w sys \<Rightarrow> 'w sys \<Rightarrow> bool" where
  "only contents P k s s' \<longleftrightarrow>
     (\<forall>b n. (b, n) \<notin> P \<longrightarrow> contents (vaults s') b n = contents (vaults s) b n) \<and>
     (\<forall>k'. k' \<noteq> k \<longrightarrow> find_object k' s' = find_object k' s) \<and> db_error s' = db_error s"

lemma only_unchanged:
  assumes "only contents P (sid, a', b', n') s s'" "(a, n) \<notin> P" "(b, n) \<notin> P" "(b, n) \<noteq> (b', n')"
  shows "unchanged (look contents sid a b n) s s'"
  using assms by (auto simp: only_def unchanged_def look_def)

lemma only_refl: "reflp (only contents P k)" and only_trans: "transp (only contents P k)"
  by (auto simp: only_def reflp_def transp_def)

lemma only_conseq: "only contents P k s s' \<Longrightarrow> P \<subseteq> P' \<Longrightarrow> only contents P' k s s'"
  by (auto simp: only_def)

section \<open>The actions\<close>

abbreviation no_failures :: "nat \<Rightarrow> go_error option" where
  "no_failures \<equiv> (\<lambda>_. None)"

lemma look_sys [simp]:
  "look contents sid a b n (s\<lparr>tick := t\<rparr>) = look contents sid a b n s"
  "look contents sid a b n (s\<lparr>sleeps := l\<rparr>) = look contents sid a b n s"
  by (simp_all add: look_def find_object_def)

lemma only_sys [simp]: "only contents P k s (s\<lparr>tick := t\<rparr>)" "only contents P k s (s\<lparr>sleeps := l\<rparr>)"
  by (simp_all add: only_def find_object_def)

lemma triple_time_now: "triple (look contents sid a b n) (only contents P k) A time_now (\<lambda>_. A)"
  unfolding time_now_def by (rule triple_act) simp

lemma triple_Sleep: "triple (look contents sid a b n) (only contents P k) A (Sleep ms) (\<lambda>_. A)"
  unfolding Sleep_def by (rule triple_act) simp

lemma statements_keep_vaults [simp]:
  "vaults (snd (update_object obj now s)) = vaults s" "vaults (snd (insert_object obj now s)) = vaults s"
  by (simp_all add: update_object_def insert_object_def)

text \<open>
  An upsert of the task's own key: without database failures the sync object is stored; the vaults
  are as before in any case.
\<close>

lemma triple_upsert:
  assumes k: "key_of obj = (sid, a, b, n)"
  shows "triple (look contents sid a b n) (only contents P (sid, a, b, n)) (\<lambda>(x, y, old, d). A x y \<and> D d)
    (UpsertSyncObject obj)
    (\<lambda>_ (x, y, new, d). A x y \<and> D d \<and> (d = no_failures \<longrightarrow> (\<exists>i. new = Some (obj\<lparr>so_ID := i\<rparr>))))"
    (is "triple ?look ?G ?A _ ?B")
proof -
  let ?M = "\<lambda>res (x, y, new, d). A x y \<and> D d \<and> (d = no_failures \<longrightarrow>
    (case res of Inl err \<Rightarrow> False | Inr m \<Rightarrow>
       if m = 0 then new = None else (\<exists>i. new = Some (obj\<lparr>so_ID := i\<rparr>))))"
  have upd: "triple ?look ?G ?A (db_exec (update_object obj now)) ?M" for now
    unfolding db_exec_def
  proof (rule triple_act)
    fix s :: "'a sys" assume A: "?A (?look s)"
    let ?s = "s\<lparr>tick := Suc (tick s)\<rparr>"
    obtain m where m: "fst (update_object obj now ?s) = Inr m" by (simp add: update_object_def)
    have find: "find_object k (snd (update_object obj now ?s)) = (if k = key_of obj
        then map_option (\<lambda>old. obj\<lparr>so_ID := so_ID old\<rparr>) (find_object k s) else find_object k s)" for k
      using find_update [of k obj now ?s] by simp
    have zero: "m = 0 \<longleftrightarrow> find_object (key_of obj) s = None" using update_count [OF m] by simp
    show "?G s (snd (let s' = ?s in case db_error s (tick s) of Some e \<Rightarrow> (Inl e, s') | None \<Rightarrow> update_object obj now s')) \<and>
      ?M (fst (let s' = ?s in case db_error s (tick s) of Some e \<Rightarrow> (Inl e, s') | None \<Rightarrow> update_object obj now s'))
        (?look (snd (let s' = ?s in case db_error s (tick s) of Some e \<Rightarrow> (Inl e, s') | None \<Rightarrow> update_object obj now s')))"
    proof (cases "db_error s (tick s)")
      case None
      have "?G s (snd (update_object obj now ?s))" by (simp add: only_def find k)
      moreover have "?M (Inr m) (?look (snd (update_object obj now ?s)))"
        using A zero by (cases "find_object (key_of obj) s") (auto simp: look_def find k)
      ultimately show ?thesis using None m by (simp add: Let_def)
    next
      case (Some e)
      then have "db_error s \<noteq> no_failures" by (metis option.discI)
      with Some A show ?thesis by (auto simp: Let_def look_def)
    qed
  qed
  have ins: "triple ?look ?G (?M (Inr 0)) (db_exec (insert_object obj now)) (\<lambda>_. ?B None)" for now
    unfolding db_exec_def
  proof (rule triple_act)
    fix s :: "'a sys" assume A: "?M (Inr 0) (?look s)"
    let ?s = "s\<lparr>tick := Suc (tick s)\<rparr>"
    show "?G s (snd (let s' = ?s in case db_error s (tick s) of Some e \<Rightarrow> (Inl e, s') | None \<Rightarrow> insert_object obj now s')) \<and>
      ?B None (?look (snd (let s' = ?s in case db_error s (tick s) of Some e \<Rightarrow> (Inl e, s') | None \<Rightarrow> insert_object obj now s')))"
    proof (cases "db_error s (tick s)")
      case None
      have "?G s (snd (insert_object obj now ?s))"
        using find_insert_other [of _ obj now ?s] by (simp add: only_def k)
      moreover have "?B None (?look (snd (insert_object obj now ?s)))"
        using A find_insert [of obj ?s "key_of obj" now] by (auto simp: look_def k)
      ultimately show ?thesis using None by (simp add: Let_def)
    next
      case (Some e)
      then have "db_error s \<noteq> no_failures" by (metis option.discI)
      with Some A show ?thesis by (auto simp: Let_def look_def)
    qed
  qed
  show ?thesis
    unfolding UpsertSyncObject_def
  proof (rule triple_bind [OF triple_time_now], rule triple_bind [OF upd])
    fix t and res :: "go_error + nat"
    show "triple ?look ?G (?M res) (case res of Inl err \<Rightarrow> Return (Some err) | Inr n \<Rightarrow>
        if n = 0 then bind_prog (db_exec (insert_object obj (Unix t)))
          (\<lambda>res2. case res2 of Inl err \<Rightarrow> Return (Some err) | Inr m \<Rightarrow> Return None) else Return None) ?B"
    proof (cases res)
      case (Inl err)
      then show ?thesis by (auto intro!: triple_return)
    next
      case (Inr m)
      show ?thesis
      proof (cases "m = 0")
        case True
        have "triple ?look ?G (?M (Inr 0)) (bind_prog (db_exec (insert_object obj (Unix t)))
          (\<lambda>res2. case res2 of Inl err \<Rightarrow> Return (Some err) | Inr m \<Rightarrow> Return None)) ?B"
          by (rule triple_bind [OF ins]) (auto intro!: triple_return split: sum.splits)
        with Inr True show ?thesis by simp
      next
        case False
        with Inr show ?thesis by (auto intro!: triple_return)
      qed
    qed
  qed
qed

text \<open>Recording an outcome: the object is stored (when the database works) and the result returned.\<close>

definition stored :: "(int \<Rightarrow> SyncObject) \<Rightarrow> SyncObject option \<Rightarrow> bool" where
  "stored obj new \<longleftrightarrow> (\<exists>t i. new = Some ((obj t)\<lparr>so_ID := i\<rparr>))"

lemma triple_record:
  assumes k: "\<And>t. key_of (obj t) = (sid, a, b, n)"
  shows "triple (look contents sid a b n) (only contents P (sid, a, b, n)) (\<lambda>(x, y, old, d). A x y \<and> D d)
    (record_object obj result)
    (\<lambda>r (x, y, new, d). r = result \<and> A x y \<and> D d \<and> (d = no_failures \<longrightarrow> stored obj new))"
  unfolding record_object_def
proof (rule triple_bind [OF triple_time_now], rule triple_bind [OF triple_upsert [OF k]], rule triple_return)
  fix t v
  assume "case v of (x, y, new, d) \<Rightarrow>
    A x y \<and> D d \<and> (d = no_failures \<longrightarrow> (\<exists>i. new = Some ((obj (Unix t))\<lparr>so_ID := i\<rparr>)))"
  then show "case v of (x, y, new, d) \<Rightarrow>
    result = result \<and> A x y \<and> D d \<and> (d = no_failures \<longrightarrow> stored obj new)"
    by (auto simp: stored_def)
qed

lemma triple_retry_loop:
  assumes "triple seen G I fn (\<lambda>r. case r of None \<Rightarrow> B | Some _ \<Rightarrow> I)"
    and "\<And>ms. triple seen G I (Sleep ms) (\<lambda>_. I)"
  shows "triple seen G I (retry_loop policy fn m backoff) (\<lambda>r. case r of None \<Rightarrow> B | Some _ \<Rightarrow> I)"
proof (induction m arbitrary: backoff)
  case 0
  show ?case
    unfolding retry_loop.simps
    by (rule triple_bind [OF assms(1)]) (auto intro!: triple_return split: option.splits)
next
  case (Suc m)
  show ?case
    unfolding retry_loop.simps
  proof (rule triple_bind [OF assms(1)])
    fix r :: "go_error option"
    show "triple seen G ((\<lambda>r. case r of None \<Rightarrow> B | Some _ \<Rightarrow> I) r)
      (case r of None \<Rightarrow> Return None
       | Some lastErr \<Rightarrow> bind_prog (Sleep backoff) (\<lambda>_. retry_loop policy fn m (next_backoff policy backoff)))
      (\<lambda>r. case r of None \<Rightarrow> B | Some _ \<Rightarrow> I)"
      by (cases r) (auto intro!: triple_return triple_bind [OF assms(2)] Suc.IH)
  qed
qed

lemma triple_withRetry:
  assumes "triple seen G I fn (\<lambda>r. case r of None \<Rightarrow> B | Some _ \<Rightarrow> I)"
    and "\<And>ms. triple seen G I (Sleep ms) (\<lambda>_. I)"
  shows "triple seen G I (withRetry policy fn) (\<lambda>r. case r of None \<Rightarrow> B | Some _ \<Rightarrow> I)"
  using triple_retry_loop [OF assms] by (auto simp: withRetry_def intro!: triple_return)

section \<open>The tasks\<close>

context vault_world begin

lemma triple_get:
  assumes "backends a = Some be"
  shows "triple (look contents sid a b n) (only contents P k) (\<lambda>v. v = (x, y, old, d))
    (request (GetSecret be n))
    (\<lambda>r v. v = (x, y, old, d) \<and> (case r of Inl err \<Rightarrow> True | Inr sec \<Rightarrow> x = Some (s_Value sec)))"
  unfolding request_def
proof (rule triple_act)
  fix s :: "'w sys" assume A: "look contents sid a b n s = (x, y, old, d)"
  obtain r w where call: "GetSecret be n (vaults s) = (r, w)" by (cases "GetSecret be n (vaults s)")
  with get_contents [OF assms, of n "vaults s"] have same: "contents w = contents (vaults s)" by simp
  have "r = Inr sec \<Longrightarrow> contents (vaults s) a n = Some (s_Value sec)" for sec
    using get_value [OF assms, of n "vaults s" sec] call by simp
  with A call same show "only contents P k s (snd (case GetSecret be n (vaults s) of (a, w) \<Rightarrow> (a, s\<lparr>vaults := w\<rparr>))) \<and>
    look contents sid a b n (snd (case GetSecret be n (vaults s) of (a, w) \<Rightarrow> (a, s\<lparr>vaults := w\<rparr>))) = (x, y, old, d) \<and>
    (case fst (case GetSecret be n (vaults s) of (a, w) \<Rightarrow> (a, s\<lparr>vaults := w\<rparr>)) of
       Inl err \<Rightarrow> True | Inr sec \<Rightarrow> x = Some (s_Value sec))"
    by (auto simp: only_def look_def find_object_def split: sum.splits)
qed

text \<open>The same request to the other vault of the task.\<close>

lemma triple_get_target:
  assumes "backends b = Some be"
  shows "triple (look contents sid a b n) (only contents P k) (\<lambda>v. v = (x, y, old, d))
    (request (GetSecret be n))
    (\<lambda>r v. v = (x, y, old, d) \<and> (case r of Inl err \<Rightarrow> True | Inr sec \<Rightarrow> y = Some (s_Value sec)))"
  unfolding request_def
proof (rule triple_act)
  fix s :: "'w sys" assume A: "look contents sid a b n s = (x, y, old, d)"
  obtain r w where call: "GetSecret be n (vaults s) = (r, w)" by (cases "GetSecret be n (vaults s)")
  with get_contents [OF assms, of n "vaults s"] have same: "contents w = contents (vaults s)" by simp
  have "r = Inr sec \<Longrightarrow> contents (vaults s) b n = Some (s_Value sec)" for sec
    using get_value [OF assms, of n "vaults s" sec] call by simp
  with A call same show "only contents P k s (snd (case GetSecret be n (vaults s) of (a, w) \<Rightarrow> (a, s\<lparr>vaults := w\<rparr>))) \<and>
    look contents sid a b n (snd (case GetSecret be n (vaults s) of (a, w) \<Rightarrow> (a, s\<lparr>vaults := w\<rparr>))) = (x, y, old, d) \<and>
    (case fst (case GetSecret be n (vaults s) of (a, w) \<Rightarrow> (a, s\<lparr>vaults := w\<rparr>)) of
       Inl err \<Rightarrow> True | Inr sec \<Rightarrow> y = Some (s_Value sec))"
    by (auto simp: only_def look_def find_object_def split: sum.splits)
qed

lemma write_only:
  assumes "backends b = Some be" "(b, n) \<in> P"
  shows "only contents P k s (s\<lparr>vaults := snd (SetSecret be n v (vaults s))\<rparr>)"
proof -
  have "contents (snd (SetSecret be n v (vaults s))) b' n' = contents (vaults s) b' n'" if "(b', n') \<notin> P" for b' n'
    by (rule set_others [OF assms(1)]) (use assms(2) that in auto)
  then show ?thesis by (simp add: only_def find_object_def)
qed

lemma triple_set_target:
  assumes "backends b = Some be" "(b, n) \<in> P" "a \<noteq> b"
  shows "triple (look contents sid a b n) (only contents P k) (\<lambda>v. v = (x, y, old, d) \<or> v = (x, Some val, old, d))
    (request (SetSecret be n val))
    (\<lambda>r. case r of None \<Rightarrow> (\<lambda>v. v = (x, Some val, old, d)) | Some _ \<Rightarrow> (\<lambda>v. v = (x, y, old, d) \<or> v = (x, Some val, old, d)))"
  unfolding request_def
proof (rule triple_act)
  fix s :: "'w sys" assume A: "look contents sid a b n s = (x, y, old, d) \<or> look contents sid a b n s = (x, Some val, old, d)"
  obtain r w where call: "SetSecret be n val (vaults s) = (r, w)" by (cases "SetSecret be n val (vaults s)")
  have "only contents P k s (s\<lparr>vaults := w\<rparr>)" using write_only [OF assms(1,2), of k s val] call by simp
  moreover have "contents w a n = contents (vaults s) a n"
    using set_others [OF assms(1), of a n n val "vaults s"] assms(3) call by simp
  moreover have "contents w b n = contents (vaults s) b n \<or> contents w b n = Some val"
    using set_failed [OF assms(1), of n val "vaults s"] call by simp
  moreover have "r = None \<Longrightarrow> contents w b n = Some val"
    using set_value [OF assms(1), of n val "vaults s"] call by simp
  ultimately show "only contents P k s (snd (case SetSecret be n val (vaults s) of (a, w) \<Rightarrow> (a, s\<lparr>vaults := w\<rparr>))) \<and>
    (case fst (case SetSecret be n val (vaults s) of (a, w) \<Rightarrow> (a, s\<lparr>vaults := w\<rparr>)) of
       None \<Rightarrow> (\<lambda>v. v = (x, Some val, old, d)) | Some _ \<Rightarrow> (\<lambda>v. v = (x, y, old, d) \<or> v = (x, Some val, old, d)))
      (look contents sid a b n (snd (case SetSecret be n val (vaults s) of (a, w) \<Rightarrow> (a, s\<lparr>vaults := w\<rparr>))))"
    using A call by (auto simp: look_def find_object_def split: option.splits)
qed

lemma triple_set_source:
  assumes "backends a = Some be" "(a, n) \<in> P" "a \<noteq> b"
  shows "triple (look contents sid a b n) (only contents P k) (\<lambda>v. v = (x, y, old, d) \<or> v = (Some val, y, old, d))
    (request (SetSecret be n val))
    (\<lambda>r. case r of None \<Rightarrow> (\<lambda>v. v = (Some val, y, old, d)) | Some _ \<Rightarrow> (\<lambda>v. v = (x, y, old, d) \<or> v = (Some val, y, old, d)))"
  unfolding request_def
proof (rule triple_act)
  fix s :: "'w sys" assume A: "look contents sid a b n s = (x, y, old, d) \<or> look contents sid a b n s = (Some val, y, old, d)"
  obtain r w where call: "SetSecret be n val (vaults s) = (r, w)" by (cases "SetSecret be n val (vaults s)")
  have "only contents P k s (s\<lparr>vaults := w\<rparr>)" using write_only [OF assms(1,2), of k s val] call by simp
  moreover have "contents w b n = contents (vaults s) b n"
    using set_others [OF assms(1), of b n n val "vaults s"] assms(3) call by simp
  moreover have "contents w a n = contents (vaults s) a n \<or> contents w a n = Some val"
    using set_failed [OF assms(1), of n val "vaults s"] call by simp
  moreover have "r = None \<Longrightarrow> contents w a n = Some val"
    using set_value [OF assms(1), of n val "vaults s"] call by simp
  ultimately show "only contents P k s (snd (case SetSecret be n val (vaults s) of (a, w) \<Rightarrow> (a, s\<lparr>vaults := w\<rparr>))) \<and>
    (case fst (case SetSecret be n val (vaults s) of (a, w) \<Rightarrow> (a, s\<lparr>vaults := w\<rparr>)) of
       None \<Rightarrow> (\<lambda>v. v = (Some val, y, old, d)) | Some _ \<Rightarrow> (\<lambda>v. v = (x, y, old, d) \<or> v = (Some val, y, old, d)))
      (look contents sid a b n (snd (case SetSecret be n val (vaults s) of (a, w) \<Rightarrow> (a, s\<lparr>vaults := w\<rparr>))))"
    using A call by (auto simp: look_def find_object_def split: option.splits)
qed

end

section \<open>One direction\<close>

text \<open>
  What a one-way task leaves, by its result: on success the transformed value is in the target and a
  success is recorded; on an error either nothing has changed (the backend is missing, the secret
  could not be read, a transform failed), or the write failed, which is recorded.
\<close>

definition success_object :: "'w Engine \<Rightarrow> SyncConfig \<Rightarrow> string \<Rightarrow> string \<Rightarrow> string \<Rightarrow> int \<Rightarrow> SyncObject" where
  "success_object e syncCfg b n val now =
     sync_object syncCfg b n (hashString e val) (hashString e val) now ''success'' [] ''source_to_target''"

definition failure_object :: "'w Engine \<Rightarrow> SyncConfig \<Rightarrow> string \<Rightarrow> string \<Rightarrow> string \<Rightarrow> go_error \<Rightarrow> int \<Rightarrow> SyncObject" where
  "failure_object e syncCfg b n val err now =
     sync_object syncCfg b n (hashString e val) [] now ''failed'' err ''source_to_target''"

definition uni_post :: "'w Engine \<Rightarrow> SyncConfig \<Rightarrow> string \<Rightarrow> string \<Rightarrow> view \<Rightarrow> go_error option \<Rightarrow> view \<Rightarrow> bool" where
  "uni_post e syncCfg b n before r after =
     (case before of (x, y, old, d) \<Rightarrow> case after of (x', y', new, d') \<Rightarrow> x' = x \<and> d' = d \<and>
       (case r of
          None \<Rightarrow> (\<exists>val val'. x = Some val \<and> applyTransforms val (sc_Transforms syncCfg) = Inr val' \<and>
            y' = Some val' \<and> (d = no_failures \<longrightarrow> stored (success_object e syncCfg b n val) new))
        | Some err \<Rightarrow> y' = y \<and> new = old \<or>
            (\<exists>val val'. x = Some val \<and> applyTransforms val (sc_Transforms syncCfg) = Inr val' \<and>
               (y' = y \<or> y' = Some val') \<and> (d = no_failures \<longrightarrow> stored (failure_object e syncCfg b n val err) new))))"

lemma key_of_sync_object [simp]:
  "key_of (sync_object syncCfg b n c1 c2 now st err dir) = (sc_ID syncCfg, sc_Source syncCfg, b, n)"
  by (simp add: key_of_def sync_object_def)

lemma triple_record_at:
  assumes "\<And>t. key_of (obj t) = (sid, a, b, n)"
    and "\<And>new. (d = no_failures \<longrightarrow> stored obj new) \<Longrightarrow> Q result (x, y, new, d)"
  shows "triple (look contents sid a b n) (only contents P (sid, a, b, n)) (\<lambda>v. v = (x, y, old, d))
    (record_object obj result) Q"
  by (rule triple_conseq [OF triple_record [OF assms(1),
        where A = "\<lambda>x' y'. x' = x \<and> y' = y" and D = "\<lambda>d'. d' = d" and result = result]])
    (use assms(2) in auto)

text \<open>The same where a write has failed: it is stored or not.\<close>

lemma triple_record_or:
  assumes "\<And>t. key_of (obj t) = (sid, a, b, n)"
    and "\<And>new y'. y' = y \<or> y' = z \<Longrightarrow> (d = no_failures \<longrightarrow> stored obj new) \<Longrightarrow> Q result (x, y', new, d)"
  shows "triple (look contents sid a b n) (only contents P (sid, a, b, n))
    (\<lambda>v. v = (x, y, old, d) \<or> v = (x, z, old, d)) (record_object obj result) Q"
  by (rule triple_conseq [OF triple_record [OF assms(1),
        where A = "\<lambda>x' y'. x' = x \<and> (y' = y \<or> y' = z)" and D = "\<lambda>d'. d' = d" and result = result]])
    (use assms(2) in auto)

context vault_world begin

lemma triple_unidirectional:
  assumes e: "e_backends e = backends" and src: "backends (sc_Source syncCfg) = Some src"
    and ab: "sc_Source syncCfg \<noteq> b"
  shows "triple (look contents (sc_ID syncCfg) (sc_Source syncCfg) b n)
    (only contents {(b, n)} (sc_ID syncCfg, sc_Source syncCfg, b, n)) (\<lambda>v. v = before)
    (syncSecretUnidirectional e syncCfg b n src) (uni_post e syncCfg b n before)"
    (is "triple ?look ?G _ _ ?post")
proof -
  obtain x y old d where before: "before = (x, y, old, d)" by (cases before) blast
  show ?thesis
  proof (cases "backends b")
    case None
    then show ?thesis
      by (auto simp: syncSecretUnidirectional_def e before uni_post_def intro!: triple_return)
  next
    case (Some tb)
    have wr: "triple ?look ?G (\<lambda>v. v = (x, y, old, d))
      (withRetry policy (request (SetSecret tb n val)))
      (\<lambda>r. case r of None \<Rightarrow> (\<lambda>v. v = (x, Some val, old, d))
        | Some _ \<Rightarrow> (\<lambda>v. v = (x, y, old, d) \<or> v = (x, Some val, old, d)))" for policy val
      by (rule triple_conseq [OF triple_withRetry [OF triple_set_target [OF Some _ ab] triple_Sleep]]) auto
    have tail: "triple ?look ?G (\<lambda>v. v = (x, y, old, d))
      (bind_prog (withRetry (effectiveRetryPolicy (sc_RetryPolicy syncCfg)) (request (SetSecret tb n val'))) (\<lambda>res.
        let sourceChecksum = hashString e val in
        case res of
          Some err \<Rightarrow> record_object (\<lambda>now. sync_object syncCfg b n sourceChecksum [] now ''failed'' err ''source_to_target'') (Some err)
        | None \<Rightarrow> record_object (\<lambda>now. sync_object syncCfg b n sourceChecksum sourceChecksum now ''success'' [] ''source_to_target'') None))
      ?post" if val: "x = Some val" "applyTransforms val (sc_Transforms syncCfg) = Inr val'" for val val'
    proof (rule triple_bind [OF wr])
      fix res :: "go_error option"
      show "triple ?look ?G (case res of None \<Rightarrow> (\<lambda>v. v = (x, Some val', old, d))
          | Some _ \<Rightarrow> (\<lambda>v. v = (x, y, old, d) \<or> v = (x, Some val', old, d)))
        (let sourceChecksum = hashString e val in
         case res of
           Some err \<Rightarrow> record_object (\<lambda>now. sync_object syncCfg b n sourceChecksum [] now ''failed'' err ''source_to_target'') (Some err)
         | None \<Rightarrow> record_object (\<lambda>now. sync_object syncCfg b n sourceChecksum sourceChecksum now ''success'' [] ''source_to_target'') None)
        ?post"
      proof (cases res)
        case None
        then show ?thesis
          using val by (auto intro!: triple_record_at simp: Let_def uni_post_def before success_object_def [abs_def])
      next
        case (Some err)
        then show ?thesis
          using val by (auto intro!: triple_record_or simp: Let_def uni_post_def before failure_object_def [abs_def])
      qed
    qed
    show ?thesis
      unfolding syncSecretUnidirectional_def e Some option.case before
    proof (rule triple_bind [OF triple_get [OF src]])
      fix got :: "go_error + Secret"
      show "triple ?look ?G (\<lambda>v. v = (x, y, old, d) \<and> (case got of Inl err \<Rightarrow> True | Inr sec \<Rightarrow> x = Some (s_Value sec)))
        (case got of
          Inl err \<Rightarrow> Return (Some (''failed to get secret from source: '' @ err))
        | Inr secret \<Rightarrow>
            (case applyTransforms (s_Value secret) (sc_Transforms syncCfg) of
               Inl err \<Rightarrow> Return (Some (''failed to apply transforms: '' @ err))
             | Inr value \<Rightarrow>
                 bind_prog (withRetry (effectiveRetryPolicy (sc_RetryPolicy syncCfg)) (request (SetSecret tb n value))) (\<lambda>res.
                 let sourceChecksum = hashString e (s_Value secret) in
                 case res of
                   Some err \<Rightarrow> record_object (\<lambda>now. sync_object syncCfg b n sourceChecksum [] now ''failed'' err ''source_to_target'') (Some err)
                 | None \<Rightarrow> record_object (\<lambda>now. sync_object syncCfg b n sourceChecksum sourceChecksum now ''success'' [] ''source_to_target'') None)))
        (uni_post e syncCfg b n (x, y, old, d))"
      proof (cases got)
        case (Inl err)
        then show ?thesis by (auto intro!: triple_return simp: uni_post_def)
      next
        case (Inr secret)
        show ?thesis
        proof (cases "applyTransforms (s_Value secret) (sc_Transforms syncCfg)")
          case (Inl err)
          with Inr show ?thesis by (auto intro!: triple_return simp: uni_post_def)
        next
          case (Inr val2)
          with \<open>got = Inr secret\<close> show ?thesis
            using tail [of "s_Value secret" val2] unfolding before
            by (auto simp: triple_def)
        qed
      qed
    qed
  qed
qed

end

section \<open>A pool of tasks\<close>

text \<open>The counters of the results channel.\<close>

lemma collect_counts:
  "Success (collect oks r) = Success r + int (length (filter (\<lambda>ok. ok) oks)) \<and>
   Failure (collect oks r) = Failure r + int (length (filter (\<lambda>ok. \<not> ok) oks))"
  by (induction oks arbitrary: r) auto

lemma collect_total:
  "Success (collect oks \<lparr>Success = 0, Failure = 0\<rparr>) + Failure (collect oks \<lparr>Success = 0, Failure = 0\<rparr>) =
   int (length oks)"
proof -
  have "length (filter (\<lambda>ok. ok) oks) + length (filter (\<lambda>ok. \<not> ok) oks) = length oks"
    by (rule sum_length_filter_compl)
  then show ?thesis using collect_counts [of oks "\<lparr>Success = 0, Failure = 0\<rparr>"] by simp
qed

lemma collect_no_failure:
  "Failure (collect oks \<lparr>Success = 0, Failure = 0\<rparr>) = 0 \<longleftrightarrow> list_all (\<lambda>ok. ok) oks"
  using collect_counts [of oks "\<lparr>Success = 0, Failure = 0\<rparr>"]
  by (auto simp: filter_empty_conv list_all_iff)

lemma run_pool_run:
  assumes "run_pool workers sched tasks s = Some (r, s')"
  shows "\<exists>gs. pool_run workers (spawn tasks, s) (gs, s') \<and> all_done gs \<and>
    r = collect (outcomes gs) \<lparr>Success = 0, Failure = 0\<rparr>"
  using assms schedule_run [of workers "(spawn tasks, s)" sched]
  by (auto simp: run_pool_def split: prod.splits if_splits)

text \<open>
  Tasks that see pairwise different secrets or vaults: \<open>place i\<close> is the place of the secret and the
  vault that the task with number \<open>i\<close> may write besides the source.
\<close>

definition all_places :: "(string \<times> string) set \<Rightarrow>
    ('w \<Rightarrow> string \<Rightarrow> string \<Rightarrow> string option) \<Rightarrow> 'w sys \<Rightarrow> 'w sys \<Rightarrow> bool" where
  "all_places P contents s s' \<longleftrightarrow>
     (\<forall>b n. (b, n) \<notin> P \<longrightarrow> contents (vaults s') b n = contents (vaults s) b n) \<and> db_error s' = db_error s"

lemma all_places_order: "reflp (all_places P contents)" "transp (all_places P contents)"
  by (auto simp: all_places_def reflp_def transp_def)

lemma triple_goroutine:
  assumes "triple seen G A task B"
  shows "triple seen G A (goroutine_body task) (\<lambda>ok v. \<exists>res. ok = (res = None) \<and> B res v)"
  unfolding goroutine_body_def by (rule triple_bind [OF assms]) (auto intro!: triple_return)

text \<open>The rule for a pool, over the tasks' triples.\<close>

lemma run_pool_triples:
  assumes run: "run_pool workers sched tasks s = Some (r, s')"
    and "compatible (length tasks) (\<lambda>i. unchanged (seen i)) G"
    and "\<And>i. i < length tasks \<Longrightarrow> triple (seen i) (G i) (\<lambda>v. v = seen i s) (tasks ! i) (B i)"
    and "\<And>i s s'. i < length tasks \<Longrightarrow> G i s s' \<Longrightarrow> all_places P contents s s'"
  shows "\<exists>oks. length oks = length tasks \<and> r = collect oks \<lparr>Success = 0, Failure = 0\<rparr> \<and>
    (\<forall>i < length tasks. B i (oks ! i) (seen i s')) \<and> all_places P contents s s'"
proof -
  from run_pool_run [OF run] obtain gs where gs: "pool_run workers (spawn tasks, s) (gs, s')" "all_done gs"
    "r = collect (outcomes gs) \<lparr>Success = 0, Failure = 0\<rparr>" by blast
  have "length (outcomes gs) = length tasks \<and>
      (\<forall>i < length tasks. B i (outcomes gs ! i) (seen i s')) \<and> all_places P contents s s'"
    by (rule pool_rely_guarantee [OF gs(1,2) assms(2), where Q = "\<lambda>i a s. B i a (seen i s)"])
      (use assms(3,4) all_places_order in \<open>auto simp: triple_def\<close>)
  with gs(3) show ?thesis by blast
qed

section \<open>A run in one direction\<close>

text \<open>The tasks, in the order of the two loops.\<close>

lemma unidirectional_tasks_pairs:
  "unidirectional_tasks e syncCfg src names =
     map (\<lambda>(n, b). goroutine_body (syncSecretUnidirectional e syncCfg b n src))
       (List.product names (sc_Targets syncCfg))"
  by (simp add: unidirectional_tasks_def product_concat_map map_concat comp_def)

text \<open>What a run leaves for the pair of a secret and a target.\<close>

definition pair_done ::
  "('w \<Rightarrow> string \<Rightarrow> string \<Rightarrow> string option) \<Rightarrow> 'w Engine \<Rightarrow> SyncConfig \<Rightarrow> 'w sys \<Rightarrow> 'w sys \<Rightarrow>
   string \<times> string \<Rightarrow> bool \<Rightarrow> bool" where
  "pair_done contents e syncCfg s s' p ok \<longleftrightarrow>
     (case p of (n, b) \<Rightarrow> \<exists>res. ok = (res = None) \<and>
        uni_post e syncCfg b n (look contents (sc_ID syncCfg) (sc_Source syncCfg) b n s) res
          (look contents (sc_ID syncCfg) (sc_Source syncCfg) b n s'))"

lemma all_indexed:
  assumes "length xs = length ys" "\<forall>i < length ys. P (ys ! i) (xs ! i)"
  shows "list_all2 P ys xs"
  using assms by (simp add: list_all2_conv_all_nth)

context vault_world begin

lemma unidirectional_pool:
  assumes e: "e_backends e = backends" and src: "backends (sc_Source syncCfg) = Some src"
    and targets: "sc_Source syncCfg \<notin> set (sc_Targets syncCfg)" "distinct (sc_Targets syncCfg)" "distinct names"
    and run: "run_pool workers sched (unidirectional_tasks e syncCfg src names) s = Some (r, s')"
  shows "\<exists>oks. r = collect oks \<lparr>Success = 0, Failure = 0\<rparr> \<and>
    list_all2 (pair_done contents e syncCfg s s') (List.product names (sc_Targets syncCfg)) oks \<and>
    all_places (set (List.product (sc_Targets syncCfg) names)) contents s s'"
proof -
  define pairs where "pairs = List.product names (sc_Targets syncCfg)"
  define n b where "n = (\<lambda>i. fst (pairs ! i))" and "b = (\<lambda>i. snd (pairs ! i))"
  define seen where "seen = (\<lambda>i. look contents (sc_ID syncCfg) (sc_Source syncCfg) (b i) (n i))"
  define G where "G = (\<lambda>i. only contents {(b i, n i)} (sc_ID syncCfg, sc_Source syncCfg, b i, n i))"
  let ?tasks = "unidirectional_tasks e syncCfg src names"
  have tasks: "?tasks = map (\<lambda>(n, b). goroutine_body (syncSecretUnidirectional e syncCfg b n src)) pairs"
    by (simp add: unidirectional_tasks_pairs pairs_def)
  then have len: "length ?tasks = length pairs" by simp
  have member: "n i \<in> set names \<and> b i \<in> set (sc_Targets syncCfg)" if "i < length pairs" for i
  proof -
    have "set pairs = set names \<times> set (sc_Targets syncCfg)" by (simp add: pairs_def)
    with nth_mem [OF that] have "pairs ! i \<in> set names \<times> set (sc_Targets syncCfg)" by simp
    then show ?thesis by (simp add: n_def b_def mem_Times_iff)
  qed
  have distinct: "distinct pairs" using targets by (simp add: pairs_def distinct_product)
  have compat: "compatible (length ?tasks) (\<lambda>i. unchanged (seen i)) G"
    unfolding compatible_def
  proof (intro conjI allI impI unchanged_refl unchanged_trans)
    fix i j s s' assume i: "i < length ?tasks" and j: "j < length ?tasks" and ij: "i \<noteq> j" and g: "G i s s'"
    have "pairs ! i \<noteq> pairs ! j" using distinct i j ij by (simp add: len nth_eq_iff_index_eq)
    then have diff: "(b j, n j) \<noteq> (b i, n i)" by (auto simp: b_def n_def prod_eq_iff)
    have "sc_Source syncCfg \<noteq> b i" using member [of i] i targets(1) by (auto simp: len)
    with diff show "unchanged (seen j) s s'"
      using only_unchanged [OF g [unfolded G_def], of "sc_Source syncCfg" "n j" "b j"] by (auto simp: seen_def)
  qed
  have triples: "triple (seen i) (G i) (\<lambda>v. v = seen i s) (?tasks ! i)
      (\<lambda>ok v. \<exists>res. ok = (res = None) \<and> uni_post e syncCfg (b i) (n i) (seen i s) res v)"
    if i: "i < length ?tasks" for i
  proof -
    have "?tasks ! i = goroutine_body (syncSecretUnidirectional e syncCfg (b i) (n i) src)"
      using i by (simp add: tasks n_def b_def case_prod_unfold)
    moreover have "sc_Source syncCfg \<noteq> b i" using member [of i] i targets(1) by (auto simp: len)
    ultimately show ?thesis
      unfolding seen_def G_def by (simp add: triple_goroutine triple_unidirectional [OF e src])
  qed
  have places: "all_places (set (List.product (sc_Targets syncCfg) names)) contents s s'"
    if "i < length ?tasks" "G i s s'" for i s s'
  proof -
    have "(b i, n i) \<in> set (List.product (sc_Targets syncCfg) names)"
      using member [of i] that(1) by (simp add: len)
    then have "only contents (set (List.product (sc_Targets syncCfg) names))
        (sc_ID syncCfg, sc_Source syncCfg, b i, n i) s s'"
      by (intro only_conseq [OF that(2) [unfolded G_def]]) blast
    then show ?thesis by (simp add: only_def all_places_def)
  qed
  have "\<exists>oks. length oks = length ?tasks \<and> r = collect oks \<lparr>Success = 0, Failure = 0\<rparr> \<and>
    (\<forall>i < length ?tasks. \<exists>res. oks ! i = (res = None) \<and>
      uni_post e syncCfg (b i) (n i) (seen i s) res (seen i s')) \<and>
    all_places (set (List.product (sc_Targets syncCfg) names)) contents s s'"
    by (rule run_pool_triples [OF run compat], erule triples, erule (1) places)
  then obtain oks where oks: "length oks = length ?tasks" "r = collect oks \<lparr>Success = 0, Failure = 0\<rparr>"
    "\<forall>i < length ?tasks. \<exists>res. oks ! i = (res = None) \<and> uni_post e syncCfg (b i) (n i) (seen i s) res (seen i s')"
    "all_places (set (List.product (sc_Targets syncCfg) names)) contents s s'" by blast
  have "list_all2 (pair_done contents e syncCfg s s') pairs oks"
  proof (rule all_indexed)
    show "length oks = length pairs" using oks(1) len by simp
    show "\<forall>i < length pairs. pair_done contents e syncCfg s s' (pairs ! i) (oks ! i)"
      using oks(3) by (simp add: len pair_done_def case_prod_unfold seen_def n_def b_def)
  qed
  with oks show ?thesis unfolding pairs_def by blast
qed

end

section \<open>The phases of a run\<close>

text \<open>The state as far as the vaults, the sync objects and the database oracle go.\<close>

definition same_state :: "('w \<Rightarrow> string \<Rightarrow> string \<Rightarrow> string option) \<Rightarrow> 'w sys \<Rightarrow> 'w sys \<Rightarrow> bool" where
  "same_state contents s s' \<longleftrightarrow> contents (vaults s') = contents (vaults s) \<and>
     (\<forall>k. find_object k s' = find_object k s) \<and> db_error s' = db_error s"

lemma same_state_look: "same_state contents s s' \<Longrightarrow> look contents sid a b n s' = look contents sid a b n s"
  by (simp add: same_state_def look_def)

lemma same_state_trans: "same_state contents s s' \<Longrightarrow> same_state contents s' s'' \<Longrightarrow> same_state contents s s''"
  by (simp add: same_state_def)

lemma run_time_now: "run_prog time_now s = (clock s (tick s), s\<lparr>tick := Suc (tick s)\<rparr>)"
  by (simp add: time_now_def)

lemma same_state_tick [simp]: "same_state contents s (s\<lparr>tick := t\<rparr>)"
  by (simp add: same_state_def)

lemma run_record_run:
  assumes "run_prog (RecordSyncRun a st x y z msg) s = (r, s')"
  shows "same_state contents s s' \<and>
    (db_error s = no_failures \<longrightarrow> syncs_run s' \<noteq> [] \<and> run_SyncID (last (syncs_run s')) = a \<and>
      run_Status (last (syncs_run s')) = st \<and>
      run_TotalSynced (last (syncs_run s')) = x \<and> run_TotalFailed (last (syncs_run s')) = y \<and>
      run_ErrorMessage (last (syncs_run s')) = msg)"
  using assms
  by (auto simp: RecordSyncRun_def db_exec_def Let_def same_state_def find_object_def split: option.splits)

text \<open>What is recorded of a run that was not cut short by a failing listing.\<close>

definition run_recorded :: "SyncConfig \<Rightarrow> SyncResult \<Rightarrow> 'w sys \<Rightarrow> bool" where
  "run_recorded syncCfg r s \<longleftrightarrow> db_error s = no_failures \<longrightarrow> syncs_run s \<noteq> [] \<and>
     run_SyncID (last (syncs_run s)) = sc_ID syncCfg \<and> run_Status (last (syncs_run s)) = run_status r \<and>
     run_TotalSynced (last (syncs_run s)) = Success r \<and> run_TotalFailed (last (syncs_run s)) = Failure r"

lemma run_finish:
  assumes "finish_run syncCfg t r s = (out, s')"
  shows "out = Completed \<and> same_state contents s s' \<and> run_recorded syncCfg r s'"
proof -
  obtain x s1 where r: "run_prog (RecordSyncRun (sc_ID syncCfg) (run_status r) (Success r) (Failure r)
      (Milliseconds (clock s (tick s) - t)) []) (s\<lparr>tick := Suc (tick s)\<rparr>) = (x, s1)" by (rule prod.exhaust)
  with assms have "out = Completed" "s1 = s'" by (auto simp: finish_run_def run_time_now)
  with run_record_run [OF r, of contents] show ?thesis
    by (auto simp: run_recorded_def same_state_def)
qed

context vault_world begin

lemma run_list:
  assumes "backends a = Some src" "run_prog (request (ListSecrets src)) s = (r, s')"
  shows "same_state contents s s' \<and>
    (\<forall>names. r = Inr names \<longrightarrow> set names = dom (contents (vaults s) a) \<and> distinct names)"
proof -
  obtain x w where call: "ListSecrets src (vaults s) = (x, w)" by (cases "ListSecrets src (vaults s)")
  with assms(2) have "r = x" "s' = s\<lparr>vaults := w\<rparr>" by (simp_all add: request_def)
  with call list_contents [OF assms(1), of "vaults s"] list_names [OF assms(1), of "vaults s"]
  show ?thesis by (auto simp: same_state_def find_object_def)
qed

lemma ExecuteSync_unidirectional:
  assumes e: "e_backends e = backends" and src: "backends (sc_Source syncCfg) = Some src"
    and uni: "sc_SyncType syncCfg = ''unidirectional''"
    and targets: "sc_Source syncCfg \<notin> set (sc_Targets syncCfg)" "distinct (sc_Targets syncCfg)"
    and run: "ExecuteSync e syncCfg sched s = Some (out, s')"
  shows "(same_state contents s s' \<and> (out = Completed \<longrightarrow> run_recorded syncCfg \<lparr>Success = 0, Failure = 0\<rparr> s')) \<or>
    (\<exists>names oks. set names = {n. n \<in> dom (contents (vaults s) (sc_Source syncCfg)) \<and> covered (sc_Filter syncCfg) n} \<and>
       distinct names \<and> out = Completed \<and> run_recorded syncCfg (collect oks \<lparr>Success = 0, Failure = 0\<rparr>) s' \<and>
       list_all2 (pair_done contents e syncCfg s s') (List.product names (sc_Targets syncCfg)) oks \<and>
       all_places (set (List.product (sc_Targets syncCfg) names)) contents s s')"
proof -
  define s1 where "s1 = s\<lparr>tick := Suc (tick s)\<rparr>"
  obtain l s2 where l: "run_prog (request (ListSecrets src)) s1 = (l, s2)" by (rule prod.exhaust)
  have same2: "same_state contents s s2"
    using run_list [OF src l] same_state_trans [of contents s s1 s2] by (simp add: s1_def)
  show ?thesis
  proof (cases l)
    case (Inl err)
    with run l e src have "run_prog (bind_prog time_now (\<lambda>t.
        bind_prog (RecordSyncRun (sc_ID syncCfg) ''failed'' 0 0 (Milliseconds (t - clock s (tick s)))
          (''failed to list secrets from source: '' @ err)) (\<lambda>_. Return (Failed err)))) s2 = (out, s')"
      by (simp add: ExecuteSync_def run_time_now s1_def)
    then have "out = Failed err \<and> same_state contents s2 s'"
      using run_record_run by (fastforce simp: run_time_now same_state_def split: prod.splits)
    with same2 show ?thesis using same_state_trans by blast
  next
    case (Inr secrets)
    obtain l2 s3 where l2: "run_prog (request (ListSecrets src)) s2 = (l2, s3)" by (rule prod.exhaust)
    have same3: "same_state contents s s3"
      using run_list [OF src l2] same_state_trans [OF same2] by blast
    from run l e src uni Inr obtain r s4 where r:
      "executeSyncUnidirectionalConcurrent e syncCfg src (worker_count syncCfg) sched s2 = Some (r, s4)"
      "finish_run syncCfg (clock s (tick s)) r s4 = (out, s')"
      by (auto simp: ExecuteSync_def run_time_now s1_def)
    note fin = run_finish [OF r(2), of contents]
    show ?thesis
    proof (cases l2)
      case (Inl err)
      with r(1) l2 have "r = \<lparr>Success = 0, Failure = 0\<rparr>" "s4 = s3"
        by (simp_all add: executeSyncUnidirectionalConcurrent_def)
      with fin same3 show ?thesis using same_state_trans by blast
    next
      case (Inr names)
      define cov where "cov = filterSecrets names (sc_Filter syncCfg)"
      have names: "set cov = {n. n \<in> dom (contents (vaults s) (sc_Source syncCfg)) \<and> covered (sc_Filter syncCfg) n}"
        "distinct cov"
        using run_list [OF src l2] Inr same2
        by (auto simp: cov_def filterSecrets_filter same_state_def)
      from r(1) l2 Inr have "run_pool (worker_count syncCfg) sched (unidirectional_tasks e syncCfg src cov) s3 = Some (r, s4)"
        by (simp add: executeSyncUnidirectionalConcurrent_def cov_def)
      from unidirectional_pool [OF e src targets names(2) this] obtain oks where oks:
        "r = collect oks \<lparr>Success = 0, Failure = 0\<rparr>"
        "list_all2 (pair_done contents e syncCfg s3 s4) (List.product cov (sc_Targets syncCfg)) oks"
        "all_places (set (List.product (sc_Targets syncCfg) cov)) contents s3 s4" by blast
      have "pair_done contents e syncCfg s s' = pair_done contents e syncCfg s3 s4"
        using same_state_look [OF same3] same_state_look [of contents s4 s'] fin
        by (simp add: pair_done_def fun_eq_iff)
      with oks(2) have "list_all2 (pair_done contents e syncCfg s s') (List.product cov (sc_Targets syncCfg)) oks" by simp
      moreover have "all_places (set (List.product (sc_Targets syncCfg) cov)) contents s s'"
        using oks(3) same3 fin by (simp add: all_places_def same_state_def)
      ultimately show ?thesis using names fin oks(1) by blast
    qed
  qed
qed

end

end
