(* ===== verification/Go_Runs.thy ===== *)
theory Go_Runs
  imports Go_Sync
begin

text \<open>
  The vaults of the engine's tests (\<open>mockBackend\<close> in \<open>sync/engine_test.go\<close>) as an instance of the
  interface of \<open>Go_Sync\<close>, and the properties of whole runs in one direction.
\<close>

section \<open>The vaults of the tests\<close>

text \<open>
  The secrets are a map, here a list in which the first entry of a name counts; the errors are those
  a test injects. The lock makes every method one atomic action.
\<close>

record mockBackend =
  secrets :: "(string \<times> string) list"
  listError :: "go_error option"
  getError :: "go_error option"
  setError :: "go_error option"

type_synonym mock_world = "string \<Rightarrow> mockBackend"

definition mock_ListSecrets :: "mockBackend \<Rightarrow> go_error + string list" where
  "mock_ListSecrets m = (case listError m of Some err \<Rightarrow> Inl err | None \<Rightarrow> Inr (remdups (map fst (secrets m))))"

definition mock_GetSecret :: "string \<Rightarrow> mockBackend \<Rightarrow> go_error + Secret" where
  "mock_GetSecret name m =
     (case getError m of
        Some err \<Rightarrow> Inl err
      | None \<Rightarrow> (case map_of (secrets m) name of
          Some val \<Rightarrow> Inr \<lparr>s_Name = name, s_Value = val\<rparr>
        | None \<Rightarrow> Inl (''secret not found: '' @ name)))"

definition mock_SetSecret :: "string \<Rightarrow> string \<Rightarrow> mockBackend \<Rightarrow> go_error option \<times> mockBackend" where
  "mock_SetSecret name val m =
     (case setError m of
        Some err \<Rightarrow> (Some err, m)
      | None \<Rightarrow> (None, m\<lparr>secrets := (name, val) # secrets m\<rparr>))"

definition mock_backend :: "string \<Rightarrow> mock_world Backend" where
  "mock_backend b = \<lparr>
     ListSecrets = (\<lambda>w. (mock_ListSecrets (w b), w)),
     GetSecret = (\<lambda>name w. (mock_GetSecret name (w b), w)),
     SetSecret = (\<lambda>name val w. case mock_SetSecret name val (w b) of (err, m) \<Rightarrow> (err, w(b := m))),
     TestConnection = (\<lambda>w. (None, w))\<rparr>"

definition mock_backends :: "string list \<Rightarrow> string \<Rightarrow> mock_world Backend option" where
  "mock_backends ids b = (if b \<in> set ids then Some (mock_backend b) else None)"

definition mock_contents :: "mock_world \<Rightarrow> string \<Rightarrow> string \<Rightarrow> string option" where
  "mock_contents w b = map_of (secrets (w b))"

interpretation mock: vault_world "mock_backends ids" mock_contents for ids
proof (unfold_locales, goal_cases)
  case (1 b be n w)
  then show ?case by (auto simp: mock_backends_def mock_backend_def split: if_splits)
next
  case (2 b be n w sec)
  then show ?case
    by (auto simp: mock_backends_def mock_backend_def mock_GetSecret_def mock_contents_def
        split: if_splits option.splits)
next
  case (3 b be w)
  then show ?case by (auto simp: mock_backends_def mock_backend_def split: if_splits)
next
  case (4 b be w ns)
  then have "ns = remdups (map fst (secrets (w b)))"
    by (auto simp: mock_backends_def mock_backend_def mock_ListSecrets_def split: if_splits option.splits)
  then show ?case by (simp add: mock_contents_def dom_map_of_conv_image_fst)
next
  case (5 b be n v w)
  then show ?case
    by (auto simp: mock_backends_def mock_backend_def mock_SetSecret_def mock_contents_def
        split: if_splits option.splits)
next
  case (6 b be n v w)
  then show ?case
    by (auto simp: mock_backends_def mock_backend_def mock_SetSecret_def mock_contents_def
        split: if_splits option.splits)
next
  case (7 b be b' n' n v w)
  then show ?case
    by (auto simp: mock_backends_def mock_backend_def mock_SetSecret_def mock_contents_def
        split: if_splits option.splits)
qed

section \<open>Every schedule can be completed\<close>

lemma schedule_append: "schedule workers (is @ js) c = schedule workers js (schedule workers is c)"
  by (induction "is" arbitrary: c) auto

lemma run_schedule:
  assumes "pool_run workers c c'"
  shows "\<exists>is. schedule workers is c = c'"
  using assms
proof (induction rule: converse_rtranclp_induct)
  case base
  show ?case by (rule exI [of _ "[]"]) simp
next
  case (step y z)
  then obtain i "is" where "step_at workers i y = Some z" "schedule workers is z = c'"
    using step_at_complete by blast
  then have "schedule workers (i # is) y = c'" by simp
  then show ?case by blast
qed

lemma run_pool_completes:
  assumes "0 < workers"
  shows "\<exists>more. run_pool workers (sched @ more) tasks s \<noteq> None"
proof -
  obtain gs' s' where "pool_run workers (schedule workers sched (spawn tasks, s)) (gs', s')" "all_done gs'"
    using pool_completes [OF assms, of "schedule workers sched (spawn tasks, s)"] by (elim exE conjE)
  moreover from run_schedule [OF this(1)] obtain more where
    "schedule workers more (schedule workers sched (spawn tasks, s)) = (gs', s')" ..
  ultimately show ?thesis by (intro exI [of _ more]) (simp add: run_pool_def schedule_append)
qed

lemma worker_count_pos: "0 < worker_count syncCfg"
  by (simp add: worker_count_def)

lemma unidirectional_completes:
  "\<exists>more. executeSyncUnidirectionalConcurrent e syncCfg src (worker_count syncCfg) (sched @ more) s \<noteq> None"
proof (cases "run_prog (request (ListSecrets src)) s")
  case (Pair l s1)
  then show ?thesis
    using run_pool_completes [OF worker_count_pos]
    by (cases l) (auto simp: executeSyncUnidirectionalConcurrent_def)
qed

lemma bidirectional_completes:
  "\<exists>more. executeSyncBidirectionalConcurrent e syncCfg b src tgt (worker_count syncCfg) (sched @ more) s \<noteq> None"
proof (cases "run_prog (request (ListSecrets src)) s")
  case (Pair l s1)
  then show ?thesis
    using run_pool_completes [OF worker_count_pos]
    by (cases l) (auto simp: executeSyncBidirectionalConcurrent_def)
qed

lemma ExecuteSync_can_complete: "\<exists>more. ExecuteSync e syncCfg (sched @ more) s \<noteq> None"
proof -
  obtain t0 s1 where t: "run_prog time_now s = (t0, s1)" by (rule prod.exhaust)
  show ?thesis
  proof (cases "e_backends e (sc_Source syncCfg)")
    case None
    then show ?thesis by (simp add: ExecuteSync_def t)
  next
    case (Some src)
    obtain l s2 where l: "run_prog (request (ListSecrets src)) s1 = (l, s2)" by (rule prod.exhaust)
    obtain more where uni: "executeSyncUnidirectionalConcurrent e syncCfg src (worker_count syncCfg) (sched @ more) s2 \<noteq> None"
      using unidirectional_completes by blast
    have bi: "\<exists>more. executeSyncBidirectionalConcurrent e syncCfg b src tgt (worker_count syncCfg) (sched @ more) s2 \<noteq> None"
      for b tgt by (rule bidirectional_completes)
    note simps = ExecuteSync_def t Some l
    show ?thesis
    proof (cases "sc_SyncType syncCfg = ''bidirectional''")
      case False
      with uni show ?thesis by (intro exI [of _ more]) (cases l, auto simp: simps)
    next
      case True
      show ?thesis
      proof (cases "sc_Targets syncCfg")
        case Nil
        with True show ?thesis by (cases l) (auto simp: simps)
      next
        case (Cons b bs)
        show ?thesis
        proof (cases "e_backends e b")
          case None
          with True Cons show ?thesis by (cases l) (auto simp: simps)
        next
          case (Some tgt)
          from bi [of b tgt] obtain more where
            "executeSyncBidirectionalConcurrent e syncCfg b src tgt (worker_count syncCfg) (sched @ more) s2 \<noteq> None" ..
          with True Cons Some show ?thesis
            by (cases l) (auto simp: simps intro!: exI [of _ more])
        qed
      qed
    qed
  qed
qed

section \<open>Consequences of the run lemma\<close>

lemma run_status_success: "run_status r = ''success'' \<longleftrightarrow> Success r \<noteq> 0 \<and> \<not> Failure r > 0"
  by (simp add: run_status_def)

definition in_sync ::
  "('w \<Rightarrow> string \<Rightarrow> string \<Rightarrow> string option) \<Rightarrow> SyncConfig \<Rightarrow> 'w \<Rightarrow> string \<Rightarrow> string \<Rightarrow> bool" where
  "in_sync contents syncCfg w b n \<longleftrightarrow>
     (\<forall>v. contents w (sc_Source syncCfg) n = Some v \<longrightarrow>
        (\<exists>v'. applyTransforms v (sc_Transforms syncCfg) = Inr v' \<and> contents w b n = Some v'))"

text \<open>The requirements of the run lemmas on a sync and its engine.\<close>

definition one_way :: "'w Engine \<Rightarrow> SyncConfig \<Rightarrow> bool" where
  "one_way e syncCfg \<longleftrightarrow> sc_SyncType syncCfg = ''unidirectional'' \<and> e_backends e (sc_Source syncCfg) \<noteq> None \<and>
     sc_Source syncCfg \<notin> set (sc_Targets syncCfg) \<and> distinct (sc_Targets syncCfg)"

lemma one_way_run:
  assumes "vault_world (e_backends e) contents" "one_way e syncCfg" "ExecuteSync e syncCfg sched s = Some (out, s')"
  shows "(same_state contents s s' \<and> (out = Completed \<longrightarrow> run_recorded syncCfg \<lparr>Success = 0, Failure = 0\<rparr> s')) \<or>
    (\<exists>names oks. set names = {n. n \<in> dom (contents (vaults s) (sc_Source syncCfg)) \<and> covered (sc_Filter syncCfg) n} \<and>
       distinct names \<and> out = Completed \<and> run_recorded syncCfg (collect oks \<lparr>Success = 0, Failure = 0\<rparr>) s' \<and>
       list_all2 (pair_done contents e syncCfg s s') (List.product names (sc_Targets syncCfg)) oks \<and>
       all_places (set (List.product (sc_Targets syncCfg) names)) contents s s')"
  using assms(2,3) vault_world.ExecuteSync_unidirectional [OF assms(1), of e syncCfg _ sched s out s']
  by (auto simp: one_way_def)

text \<open>What is left of a pair, without the bookkeeping.\<close>

lemma pair_done_value:
  assumes "pair_done contents e syncCfg s s' (n, b) ok" "contents (vaults s) (sc_Source syncCfg) n = Some v"
  shows "contents (vaults s') b n = contents (vaults s) b n \<and> \<not> ok \<or>
    (\<exists>v'. applyTransforms v (sc_Transforms syncCfg) = Inr v' \<and> (contents (vaults s') b n = Some v' \<or>
       \<not> ok \<and> contents (vaults s') b n = contents (vaults s) b n))"
  using assms by (auto simp: pair_done_def uni_post_def look_def split: option.splits)

lemma pair_done_success:
  assumes "pair_done contents e syncCfg s s' (n, b) True" "contents (vaults s) (sc_Source syncCfg) n = Some v"
    "db_error s = no_failures"
  shows "contents (vaults s') (sc_Source syncCfg) n = Some v \<and>
    (\<exists>v'. applyTransforms v (sc_Transforms syncCfg) = Inr v' \<and> contents (vaults s') b n = Some v') \<and>
    stored (success_object e syncCfg b n v) (find_object (sc_ID syncCfg, sc_Source syncCfg, b, n) s')"
  using assms by (auto simp: pair_done_def uni_post_def look_def split: option.splits)

lemma list_all2_member:
  "list_all2 P xs ys \<Longrightarrow> x \<in> set xs \<Longrightarrow> \<exists>y \<in> set ys. P x y"
  by (induction rule: list_all2_induct) auto

text \<open>A run that is recorded as a success has done every pair of a covered secret and a target.\<close>

lemma successful_run_pairs:
  assumes "vault_world (e_backends e) contents" "one_way e syncCfg" "ExecuteSync e syncCfg sched s = Some (Completed, s')"
    and "db_error s = no_failures" "run_Status (last (syncs_run s')) = ''success''"
    and "b \<in> set (sc_Targets syncCfg)" "covered (sc_Filter syncCfg) n"
    and "contents (vaults s) (sc_Source syncCfg) n = Some v"
  shows "pair_done contents e syncCfg s s' (n, b) True"
  using one_way_run [OF assms(1-3)]
proof (elim disjE exE conjE)
  assume "same_state contents s s'" "Completed = Completed \<longrightarrow> run_recorded syncCfg \<lparr>Success = 0, Failure = 0\<rparr> s'"
  with assms(4,5) show ?thesis by (simp add: run_recorded_def run_status_def same_state_def)
next
  fix names oks
  assume names: "set names = {n. n \<in> dom (contents (vaults s) (sc_Source syncCfg)) \<and> covered (sc_Filter syncCfg) n}"
    and rec: "run_recorded syncCfg (collect oks \<lparr>Success = 0, Failure = 0\<rparr>) s'"
    and each: "list_all2 (pair_done contents e syncCfg s s') (List.product names (sc_Targets syncCfg)) oks"
    and places: "all_places (set (List.product (sc_Targets syncCfg) names)) contents s s'"
  from rec assms(4,5) places have "run_status (collect oks \<lparr>Success = 0, Failure = 0\<rparr>) = ''success''"
    by (simp add: run_recorded_def all_places_def)
  then have "Failure (collect oks \<lparr>Success = 0, Failure = 0\<rparr>) = 0"
    using collect_counts [of oks "\<lparr>Success = 0, Failure = 0\<rparr>"] by (simp add: run_status_success)
  then have ok: "list_all (\<lambda>ok. ok) oks" by (simp add: collect_no_failure)
  have "(n, b) \<in> set (List.product names (sc_Targets syncCfg))" using assms(6,7,8) names by auto
  from list_all2_member [OF each this] ok show ?thesis by (auto simp: list_all_iff)
qed

lemma source_kept:
  assumes "vault_world (e_backends e) contents" "one_way e syncCfg" "ExecuteSync e syncCfg sched s = Some (out, s')"
  shows "contents (vaults s') (sc_Source syncCfg) = contents (vaults s) (sc_Source syncCfg)"
  using one_way_run [OF assms] assms(2)
  by (fastforce simp: same_state_def all_places_def one_way_def)

definition all_in_sync ::
  "('w \<Rightarrow> string \<Rightarrow> string \<Rightarrow> string option) \<Rightarrow> SyncConfig \<Rightarrow> 'w \<Rightarrow> bool" where
  "all_in_sync contents syncCfg w \<longleftrightarrow>
     (\<forall>b \<in> set (sc_Targets syncCfg). \<forall>n. covered (sc_Filter syncCfg) n \<longrightarrow> in_sync contents syncCfg w b n)"

lemma successful_run_in_sync:
  assumes "vault_world (e_backends e) contents" "one_way e syncCfg" "ExecuteSync e syncCfg sched s = Some (Completed, s')"
    and "db_error s = no_failures" "run_Status (last (syncs_run s')) = ''success''"
  shows "all_in_sync contents syncCfg (vaults s')"
  unfolding all_in_sync_def in_sync_def source_kept [OF assms(1-3)]
proof (intro ballI allI impI)
  fix b n v
  assume "b \<in> set (sc_Targets syncCfg)" "covered (sc_Filter syncCfg) n" and v: "contents (vaults s) (sc_Source syncCfg) n = Some v"
  then have "pair_done contents e syncCfg s s' (n, b) True" by (rule successful_run_pairs [OF assms])
  from pair_done_success [OF this v assms(4)]
  show "\<exists>v'. applyTransforms v (sc_Transforms syncCfg) = Inr v' \<and> contents (vaults s') b n = Some v'" by blast
qed

lemma in_sync_run:
  assumes "vault_world (e_backends e) contents" "one_way e syncCfg" "ExecuteSync e syncCfg sched s = Some (out, s')"
    and "all_in_sync contents syncCfg (vaults s)"
  shows "contents (vaults s') = contents (vaults s)"
proof (intro ext)
  fix b n
  show "contents (vaults s') b n = contents (vaults s) b n"
    using one_way_run [OF assms(1-3)]
  proof (elim disjE exE conjE)
    assume "same_state contents s s'"
    then show ?thesis by (simp add: same_state_def)
  next
    fix names oks
    assume names: "set names = {n. n \<in> dom (contents (vaults s) (sc_Source syncCfg)) \<and> covered (sc_Filter syncCfg) n}"
      and each: "list_all2 (pair_done contents e syncCfg s s') (List.product names (sc_Targets syncCfg)) oks"
      and places: "all_places (set (List.product (sc_Targets syncCfg) names)) contents s s'"
    show ?thesis
    proof (cases "b \<in> set (sc_Targets syncCfg) \<and> n \<in> set names")
      case False
      then show ?thesis using places by (auto simp: all_places_def)
    next
      case True
      with names obtain v where v: "contents (vaults s) (sc_Source syncCfg) n = Some v" "covered (sc_Filter syncCfg) n"
        by auto
      from True obtain ok where "pair_done contents e syncCfg s s' (n, b) ok"
        using list_all2_member [OF each, of "(n, b)"] by auto
      moreover have "in_sync contents syncCfg (vaults s) b n" using assms(4) True v(2) by (simp add: all_in_sync_def)
      ultimately show ?thesis
        using pair_done_value [of contents e syncCfg s s' n b ok v] v(1) by (fastforce simp: in_sync_def)
    qed
  qed
qed

text \<open>Later runs of a sync: between them the vaults stay as they are, while the database may change.\<close>

inductive reruns ::
  "('w \<Rightarrow> string \<Rightarrow> string \<Rightarrow> string option) \<Rightarrow> 'w Engine \<Rightarrow> SyncConfig \<Rightarrow> 'w sys \<Rightarrow> 'w sys \<Rightarrow> bool"
  for contents e syncCfg s
where
  none: "reruns contents e syncCfg s s"
| again: "reruns contents e syncCfg s s1 \<Longrightarrow> contents (vaults s2) = contents (vaults s1) \<Longrightarrow>
    ExecuteSync e syncCfg sched s2 = Some (out, s3) \<Longrightarrow> reruns contents e syncCfg s s3"

lemma all_in_sync_cong:
  "contents w' = contents w \<Longrightarrow> all_in_sync contents syncCfg w' \<longleftrightarrow> all_in_sync contents syncCfg w"
  by (simp add: all_in_sync_def in_sync_def)

lemma reruns_keep:
  assumes "reruns contents e syncCfg s s'" "vault_world (e_backends e) contents" "one_way e syncCfg"
    and "all_in_sync contents syncCfg (vaults s)"
  shows "contents (vaults s') = contents (vaults s)"
  using assms(1)
proof induction
  case (again s1 s2 sched out s3)
  then have "all_in_sync contents syncCfg (vaults s2)"
    using assms(4) all_in_sync_cong [of contents "vaults s2" "vaults s"] by simp
  from in_sync_run [OF assms(2,3) again.hyps(3) this] again show ?case by simp
qed simp

section \<open>Properties\<close>

text \<open>
  C34: A sync always ends: whatever the vaults and the database answer and however its goroutines
  have been scheduled so far, the schedule can be continued to the return of \<open>ExecuteSync\<close>.
\<close>

theorem ExecuteSync_terminates: "\<exists>more. ExecuteSync e syncCfg (sched @ more) s \<noteq> None"
  by (rule ExecuteSync_can_complete)

text \<open>
  C33: A one-way run, however its goroutines interleave and whatever fails, writes nothing but the
  covered secrets of the source, into its targets only, and there nothing but the transformed value
  of the source: the source and every other secret of every vault are as before.
\<close>

theorem one_way_run_effect:
  assumes "vault_world (e_backends e) contents" "one_way e syncCfg" "ExecuteSync e syncCfg sched s = Some (out, s')"
  shows "contents (vaults s') b n = contents (vaults s) b n \<or>
    b \<in> set (sc_Targets syncCfg) \<and> covered (sc_Filter syncCfg) n \<and>
    (\<exists>v v'. contents (vaults s) (sc_Source syncCfg) n = Some v \<and>
       applyTransforms v (sc_Transforms syncCfg) = Inr v' \<and> contents (vaults s') b n = Some v')"
  using one_way_run [OF assms]
proof (elim disjE exE conjE)
  assume "same_state contents s s'"
  then show ?thesis by (simp add: same_state_def)
next
  fix names oks
  assume names: "set names = {n. n \<in> dom (contents (vaults s) (sc_Source syncCfg)) \<and> covered (sc_Filter syncCfg) n}"
    and each: "list_all2 (pair_done contents e syncCfg s s') (List.product names (sc_Targets syncCfg)) oks"
    and places: "all_places (set (List.product (sc_Targets syncCfg) names)) contents s s'"
  show ?thesis
  proof (cases "b \<in> set (sc_Targets syncCfg) \<and> n \<in> set names")
    case False
    then show ?thesis using places by (auto simp: all_places_def)
  next
    case True
    with names obtain v where v: "contents (vaults s) (sc_Source syncCfg) n = Some v" "covered (sc_Filter syncCfg) n"
      by auto
    from True obtain ok where "pair_done contents e syncCfg s s' (n, b) ok"
      using list_all2_member [OF each, of "(n, b)"] by auto
    from pair_done_value [OF this v(1)] True v show ?thesis by auto
  qed
qed

text \<open>
  C32: A one-way run that is recorded as a success has replicated: every covered secret of the
  source is, transformed, in every target, and its sync object says so with the checksum of the
  source value.
\<close>

theorem successful_run_replicates:
  assumes "vault_world (e_backends e) contents" "one_way e syncCfg" "ExecuteSync e syncCfg sched s = Some (Completed, s')"
    and "db_error s = no_failures" "run_Status (last (syncs_run s')) = ''success''"
    and "b \<in> set (sc_Targets syncCfg)" "covered (sc_Filter syncCfg) n"
    and "contents (vaults s) (sc_Source syncCfg) n = Some v"
  shows "(\<exists>v'. applyTransforms v (sc_Transforms syncCfg) = Inr v' \<and> contents (vaults s') b n = Some v') \<and>
    (\<exists>t i. find_object (sc_ID syncCfg, sc_Source syncCfg, b, n) s' =
       Some (sync_object syncCfg b n (hashString e v) (hashString e v) t ''success'' [] ''source_to_target''\<lparr>so_ID := i\<rparr>))"
  using pair_done_success [OF successful_run_pairs [OF assms] assms(8,4)]
  by (auto simp: stored_def success_object_def)

text \<open>
  C35: One-way runs converge. After a run that is recorded as a success every covered secret of every
  target is the transformed value of the source's, and no number of further runs of the sync
  changes any vault again, whether they succeed or fail, however they are scheduled and whatever
  has become of the database in between.
\<close>

theorem runs_converge:
  assumes "vault_world (e_backends e) contents" "one_way e syncCfg" "ExecuteSync e syncCfg sched s = Some (Completed, s')"
    and "db_error s = no_failures" "run_Status (last (syncs_run s')) = ''success''"
    and "reruns contents e syncCfg s' s''"
  shows "contents (vaults s'') = contents (vaults s') \<and>
    contents (vaults s'') (sc_Source syncCfg) = contents (vaults s) (sc_Source syncCfg) \<and>
    (\<forall>b \<in> set (sc_Targets syncCfg). \<forall>n. covered (sc_Filter syncCfg) n \<longrightarrow> in_sync contents syncCfg (vaults s'') b n)"
proof -
  have sync: "all_in_sync contents syncCfg (vaults s')" by (rule successful_run_in_sync [OF assms(1-5)])
  have keep: "contents (vaults s'') = contents (vaults s')" by (rule reruns_keep [OF assms(6,1,2) sync])
  have "all_in_sync contents syncCfg (vaults s'')" using sync by (simp only: all_in_sync_cong [of contents, OF keep])
  with keep source_kept [OF assms(1-3)] show ?thesis by (simp add: all_in_sync_def)
qed

text \<open>
  The counters of a completed one-way run add up: either nothing was attempted, or every pair of
  a covered secret and a target is counted once, as synced or as failed, and the status follows from
  the counters.
\<close>

theorem run_counters:
  assumes "vault_world (e_backends e) contents" "one_way e syncCfg" "ExecuteSync e syncCfg sched s = Some (Completed, s')"
    and "db_error s = no_failures"
  shows "\<exists>r. run_TotalSynced (last (syncs_run s')) = Success r \<and> run_TotalFailed (last (syncs_run s')) = Failure r \<and>
    run_Status (last (syncs_run s')) = run_status r \<and> 0 \<le> Success r \<and> 0 \<le> Failure r \<and>
    (Success r + Failure r = 0 \<or>
     Success r + Failure r = int (card {n. n \<in> dom (contents (vaults s) (sc_Source syncCfg)) \<and>
       covered (sc_Filter syncCfg) n} * length (sc_Targets syncCfg)))"
  using one_way_run [OF assms(1-3)]
proof (elim disjE exE conjE)
  assume "same_state contents s s'" "Completed = Completed \<longrightarrow> run_recorded syncCfg \<lparr>Success = 0, Failure = 0\<rparr> s'"
  with assms(4) show ?thesis
    by (intro exI [of _ "\<lparr>Success = 0, Failure = 0\<rparr>"]) (simp add: run_recorded_def same_state_def)
next
  fix names oks
  assume names: "set names = {n. n \<in> dom (contents (vaults s) (sc_Source syncCfg)) \<and> covered (sc_Filter syncCfg) n}"
    "distinct names"
    and rec: "run_recorded syncCfg (collect oks \<lparr>Success = 0, Failure = 0\<rparr>) s'"
    and each: "list_all2 (pair_done contents e syncCfg s s') (List.product names (sc_Targets syncCfg)) oks"
    and places: "all_places (set (List.product (sc_Targets syncCfg) names)) contents s s'"
  have "length oks = length names * length (sc_Targets syncCfg)"
    using list_all2_lengthD [OF each] by simp
  moreover have "length names = card {n. n \<in> dom (contents (vaults s) (sc_Source syncCfg)) \<and> covered (sc_Filter syncCfg) n}"
    using names distinct_card by metis
  ultimately show ?thesis
    using rec places assms(4) collect_total [of oks] collect_counts [of oks "\<lparr>Success = 0, Failure = 0\<rparr>"]
    by (intro exI [of _ "collect oks \<lparr>Success = 0, Failure = 0\<rparr>"]) (simp add: run_recorded_def all_places_def)
qed

section \<open>A concrete run\<close>

lemma run_pool_seq:
  assumes "0 < workers"
  shows "\<exists>sched. run_pool workers sched tasks s =
    Some (collect (fst (run_seq tasks s)) \<lparr>Success = 0, Failure = 0\<rparr>, snd (run_seq tasks s))"
proof -
  from pool_run_seq [OF assms, of "[]" tasks s] obtain sched where
    sched: "schedule workers sched (spawn tasks, s) = (map Done (fst (run_seq tasks s)), snd (run_seq tasks s))"
    using run_schedule by fastforce
  then show ?thesis by (intro exI [of _ sched]) (simp add: run_pool_def)
qed

definition example_engine :: "mock_world Engine" where
  "example_engine = \<lparr>e_backends = mock_backends [''a'', ''b''], e_sha256 = (\<lambda>s. s)\<rparr>"

definition example_sync :: SyncConfig where
  "example_sync = \<lparr>sc_ID = ''s'', sc_Source = ''a'', sc_Targets = [''b''], sc_SyncType = ''unidirectional'',
     sc_Schedule = '''', sc_Filter = \<lparr>fc_Patterns = [], fc_Exclude = [''tmp'']\<rparr>, sc_Transforms = [],
     sc_RetryPolicy = \<lparr>MaxRetries = 1, InitialBackoff = 10, MaxBackoff = 100, Multiplier = Float64 2 0\<rparr>,
     sc_ConcurrentWorkers = 2, sc_Enabled = None\<rparr>"

definition example_world :: "mock_world" where
  "example_world = (\<lambda>b. \<lparr>secrets = (if b = ''a'' then [(''x'', ''1''), (''tmp'', ''0'')] else []),
     listError = None, getError = None, setError = None\<rparr>)"

definition example_state :: "mock_world sys" where
  "example_state = db.extend empty_db \<lparr>vaults = example_world, sleeps = []\<rparr>"

lemmas example_defs = example_engine_def example_sync_def example_state_def example_world_def db.defs
  empty_db_def mock_backends_def mock_backend_def mock_GetSecret_def mock_SetSecret_def mock_ListSecrets_def

lemmas engine_defs = goroutine_body_def syncSecretUnidirectional_def request_def withRetry_def
  effectiveRetryPolicy_def record_object_def UpsertSyncObject_def time_now_def db_exec_def Let_def
  update_object_def insert_object_def Unix_def

lemma example_tasks:
  "\<exists>s'. run_seq (unidirectional_tasks example_engine example_sync (mock_backend ''a'') [''x''])
     (example_state\<lparr>tick := Suc 0\<rparr>) = ([True], s') \<and> mock_contents (vaults s') ''b'' ''x'' = Some ''1'' \<and>
     db_error s' = no_failures"
  by (simp add: unidirectional_tasks_def engine_defs example_defs numeral_2_eq_2 mock_contents_def)

lemma example_run:
  "\<exists>sched s'. ExecuteSync example_engine example_sync sched example_state = Some (Completed, s') \<and>
     run_Status (last (syncs_run s')) = ''success''"
proof -
  let ?src = "mock_backend ''a''" and ?s1 = "example_state\<lparr>tick := Suc 0\<rparr>"
  let ?tasks = "unidirectional_tasks example_engine example_sync ?src [''x'']"
  from example_tasks obtain s' where s': "run_seq ?tasks ?s1 = ([True], s')" "db_error s' = no_failures"
    by blast
  have "\<exists>sched. run_pool (worker_count example_sync) sched ?tasks ?s1 = Some (\<lparr>Success = 1, Failure = 0\<rparr>, s')"
    using run_pool_seq [OF worker_count_pos, of example_sync ?tasks ?s1] by (simp only: s'(1)) simp
  then obtain sched where
    sched: "run_pool (worker_count example_sync) sched ?tasks ?s1 = Some (\<lparr>Success = 1, Failure = 0\<rparr>, s')" ..
  have l: "run_prog (request (ListSecrets ?src)) ?s1 = (Inr [''x'', ''tmp''], ?s1)"
    by (simp add: request_def example_defs)
  have f: "filterSecrets [''x'', ''tmp''] (sc_Filter example_sync) = [''x'']"
    by (simp add: filterSecrets_def example_sync_def matchPattern_def)
  have run: "ExecuteSync example_engine example_sync sched example_state =
      Some (finish_run example_sync (clock example_state 0) \<lparr>Success = 1, Failure = 0\<rparr> s')"
  proof -
    have "e_backends example_engine (sc_Source example_sync) = Some ?src"
      "sc_SyncType example_sync = ''unidirectional''" "tick example_state = 0"
      by (simp_all add: example_defs)
    with sched l f show ?thesis
      by (simp add: ExecuteSync_def run_time_now executeSyncUnidirectionalConcurrent_def)
  qed
  obtain out s'' where fin: "finish_run example_sync (clock example_state 0) \<lparr>Success = 1, Failure = 0\<rparr> s' = (out, s'')"
    by (rule prod.exhaust)
  from run_finish [OF fin, of mock_contents] s'(2) have "out = Completed" "run_Status (last (syncs_run s'')) = ''success''"
    by (simp_all add: run_recorded_def run_status_def same_state_def)
  with run fin show ?thesis by (intro exI [of _ sched] exI [of _ s'']) simp
qed

lemma example_one_way: "one_way example_engine example_sync" "vault_world (e_backends example_engine) mock_contents"
  using mock.vault_world_axioms [of "[''a'', ''b'']"]
  by (simp_all add: one_way_def example_engine_def example_sync_def mock_backends_def [abs_def])

lemma one_way_run_effect_witness:
  "\<exists>sched s'. ExecuteSync example_engine example_sync sched example_state = Some (Completed, s') \<and>
     mock_contents (vaults s') ''a'' ''tmp'' = Some ''0''"
proof -
  obtain sched s' where run: "ExecuteSync example_engine example_sync sched example_state = Some (Completed, s')"
    using example_run by blast
  from one_way_run_effect [OF example_one_way(2,1) run, of "''a''" "''tmp''"] run show ?thesis
    by (intro exI [of _ sched] exI [of _ s'])
      (simp add: example_sync_def, simp add: mock_contents_def example_defs)
qed

lemma successful_run_replicates_witness:
  "\<exists>sched s'. ExecuteSync example_engine example_sync sched example_state = Some (Completed, s') \<and>
     mock_contents (vaults s') ''b'' ''x'' = Some ''1''"
proof -
  obtain sched s' where run: "ExecuteSync example_engine example_sync sched example_state = Some (Completed, s')"
    "run_Status (last (syncs_run s')) = ''success''"
    using example_run by blast
  have "(\<exists>v'. applyTransforms ''1'' (sc_Transforms example_sync) = Inr v' \<and> mock_contents (vaults s') ''b'' ''x'' = Some v') \<and>
    (\<exists>t i. find_object (sc_ID example_sync, sc_Source example_sync, ''b'', ''x'') s' =
       Some (sync_object example_sync ''b'' ''x'' (hashString example_engine ''1'') (hashString example_engine ''1'') t
         ''success'' [] ''source_to_target''\<lparr>so_ID := i\<rparr>))"
    by (rule successful_run_replicates [OF example_one_way(2,1) run(1) _ run(2)])
      (simp_all add: example_defs mock_contents_def covered_def matchPattern_def)
  with run(1) show ?thesis by (intro exI [of _ sched] exI [of _ s']) (simp add: example_sync_def)
qed

lemma runs_converge_witness:
  "\<exists>sched s' more out s''. ExecuteSync example_engine example_sync sched example_state = Some (Completed, s') \<and>
     ExecuteSync example_engine example_sync more s' = Some (out, s'') \<and> mock_contents (vaults s'') = mock_contents (vaults s') \<and>
     mock_contents (vaults s'') ''a'' ''x'' = Some ''1'' \<and> mock_contents (vaults s'') ''b'' ''x'' = Some ''1''"
proof -
  obtain sched s' where run: "ExecuteSync example_engine example_sync sched example_state = Some (Completed, s')"
    "run_Status (last (syncs_run s')) = ''success''"
    using example_run by blast
  obtain more out s'' where more: "ExecuteSync example_engine example_sync more s' = Some (out, s'')"
    using ExecuteSync_can_complete [of example_engine example_sync "[]" s'] by auto
  have ok: "db_error example_state = no_failures" by (simp add: example_defs)
  have "reruns mock_contents example_engine example_sync s' s''"
    by (rule reruns.again [OF reruns.none refl more])
  note all = runs_converge [OF example_one_way(2,1) run(1) ok run(2) this]
  have keep: "mock_contents (vaults s'') = mock_contents (vaults s')" by (rule conjunct1 [OF all])
  have a: "mock_contents (vaults s'') ''a'' = mock_contents (vaults example_state) ''a''"
    using conjunct1 [OF conjunct2 [OF all]] by (simp add: example_sync_def)
  have sync: "in_sync mock_contents example_sync (vaults s'') ''b'' ''x''"
    by (rule mp [OF spec [OF bspec [OF conjunct2 [OF conjunct2 [OF all]]]]])
      (simp_all add: example_sync_def covered_def matchPattern_def)
  from a have a: "mock_contents (vaults s'') ''a'' ''x'' = Some ''1''"
    by (simp add: mock_contents_def example_defs)
  with sync have "mock_contents (vaults s'') ''b'' ''x'' = Some ''1''"
    by (simp add: in_sync_def example_sync_def)
  with run(1) more keep a show ?thesis by blast
qed

lemma run_counters_witness:
  "\<exists>sched s' (r :: SyncResult). ExecuteSync example_engine example_sync sched example_state = Some (Completed, s') \<and>
     run_TotalSynced (last (syncs_run s')) = Success r \<and> Success r + Failure r \<in> {0, 1}"
proof -
  obtain sched s' where run: "ExecuteSync example_engine example_sync sched example_state = Some (Completed, s')"
    using example_run by blast
  have covered: "{n. n \<in> dom (mock_contents (vaults example_state) (sc_Source example_sync)) \<and>
      covered (sc_Filter example_sync) n} = {''x''}"
  proof -
    have "mock_contents (vaults example_state) (sc_Source example_sync) = [''x'' \<mapsto> ''1'', ''tmp'' \<mapsto> ''0'']"
      by (simp add: example_defs mock_contents_def fun_eq_iff)
    moreover have "covered (sc_Filter example_sync) n \<longleftrightarrow> n \<noteq> ''tmp''" for n
      by (simp add: covered_def example_sync_def matchPattern_def)
    ultimately show ?thesis by auto
  qed
  have ok: "db_error example_state = no_failures" by (simp add: example_defs)
  from run_counters [OF example_one_way(2,1) run ok] obtain r where
    total: "run_TotalSynced (last (syncs_run s')) = Success r"
    and "run_TotalFailed (last (syncs_run s')) = Failure r"
      "run_Status (last (syncs_run s')) = run_status r" "0 \<le> Success r" "0 \<le> Failure r"
    and sum: "Success r + Failure r = 0 \<or> Success r + Failure r =
      int (card {n. n \<in> dom (mock_contents (vaults example_state) (sc_Source example_sync)) \<and>
        covered (sc_Filter example_sync) n} * length (sc_Targets example_sync))"
    by (elim exE conjE)
  from sum have "Success r + Failure r \<in> {0, 1}"
    unfolding covered by (simp add: example_sync_def)
  note r = total this
  show ?thesis by (rule exI [of _ sched], rule exI [of _ s'], rule exI [of _ r]) (use run r in blast)
qed

end
