(* ===== verification/Go_Bisync.thy ===== *)
theory Go_Bisync
  imports Go_Runs
begin

text \<open>
  Runs in both directions (\<open>sync/engine.go\<close>, \<open>syncSecretBidirectional\<close> and
  \<open>executeSyncBidirectionalConcurrent\<close>): what a task leaves in the two vaults, and what a whole run
  leaves under every interleaving.
\<close>

section \<open>Reads that fail\<close>

text \<open>The worlds that operations of the engine's backends can make of \<open>w0\<close>.\<close>

inductive reachable_world :: "'w Engine \<Rightarrow> 'w \<Rightarrow> 'w \<Rightarrow> bool" for e w0 where
  at_start: "reachable_world e w0 w0"
| listed: "reachable_world e w0 w \<Longrightarrow> e_backends e b = Some be \<Longrightarrow> reachable_world e w0 (snd (ListSecrets be w))"
| got: "reachable_world e w0 w \<Longrightarrow> e_backends e b = Some be \<Longrightarrow> reachable_world e w0 (snd (GetSecret be n w))"
| wrote: "reachable_world e w0 w \<Longrightarrow> e_backends e b = Some be \<Longrightarrow> reachable_world e w0 (snd (SetSecret be n v w))"

text \<open>
  In a world that a run from \<open>w0\<close> can reach, a read of the vault \<open>b\<close> fails where the secret has the
  value \<open>y\<close> (\<open>None\<close>: there is none).
\<close>

definition read_fails ::
  "'w Engine \<Rightarrow> 'w \<Rightarrow> ('w \<Rightarrow> string \<Rightarrow> string \<Rightarrow> string option) \<Rightarrow> 'w Backend \<Rightarrow> string \<Rightarrow> string \<Rightarrow> string option \<Rightarrow> bool"
where
  "read_fails e w0 contents be b n y \<longleftrightarrow>
     (\<exists>w err. reachable_world e w0 w \<and> fst (GetSecret be n w) = Inl err \<and> contents w b n = y)"

text \<open>Steps of a state that go from reachable worlds to reachable ones.\<close>

definition within :: "'w Engine \<Rightarrow> 'w \<Rightarrow> 'w sys \<Rightarrow> 'w sys \<Rightarrow> bool" where
  "within e w0 s s' \<longleftrightarrow> (reachable_world e w0 (vaults s) \<longrightarrow> reachable_world e w0 (vaults s'))"

lemma within_refl: "reflp (within e w0)" and within_trans: "transp (within e w0)"
  by (auto simp: within_def reflp_def transp_def)

lemma within_same [simp]: "vaults s' = vaults s \<Longrightarrow> within e w0 s s'"
  by (simp add: within_def)

lemma vaults_tick [simp]: "vaults (s\<lparr>tick := n\<rparr>) = vaults s"
  by simp

lemma vaults_statements [simp]:
  "vaults (snd (update_object obj now s)) = vaults s" "vaults (snd (insert_object obj now s)) = vaults s"
  by (simp_all add: update_object_def insert_object_def)

lemma within_db:
  "(\<And>s. vaults (snd (stmt s)) = vaults s) \<Longrightarrow> guarantees (within e w0) (db_exec stmt)"
  "guarantees (within e w0) time_now"
  "guarantees (within e w0) (Sleep ms)"
  unfolding db_exec_def time_now_def Sleep_def
  by (auto intro!: guarantees_act simp: Let_def split: option.split)

lemma within_request:
  assumes "e_backends e b = Some be"
  shows "guarantees (within e w0) (request (GetSecret be n))" "guarantees (within e w0) (request (SetSecret be n v))"
  unfolding request_def using assms
  by (auto intro!: guarantees_act simp: within_def case_prod_unfold intro: reachable_world.intros)

lemma within_retry: "guarantees (within e w0) fn \<Longrightarrow> guarantees (within e w0) (withRetry policy fn)"
proof -
  assume fn: "guarantees (within e w0) fn"
  have "guarantees (within e w0) (retry_loop policy fn n backoff)" for n backoff
    using fn by (induction policy fn n backoff rule: retry_loop.induct)
      (auto intro!: guarantees_bind within_db split: option.split)
  then show ?thesis by (simp add: withRetry_def)
qed

lemma within_record: "guarantees (within e w0) (record_object obj result)"
  unfolding record_object_def UpsertSyncObject_def
  by (auto intro!: guarantees_bind within_db split: sum.split)

lemma within_unidirectional:
  assumes "e_backends e (sc_Source syncCfg) = Some src"
  shows "guarantees (within e w0) (syncSecretUnidirectional e syncCfg b n src)"
  unfolding syncSecretUnidirectional_def Let_def
  by (auto intro!: guarantees_bind within_request(1) [OF assms] within_request(2) within_retry within_record split: option.split sum.split)

lemma within_bidirectional:
  assumes "e_backends e (sc_Source syncCfg) = Some src" "e_backends e b = Some tb"
  shows "guarantees (within e w0) (syncSecretBidirectional e syncCfg b n src tb)"
  unfolding syncSecretBidirectional_def compare_secrets_def resolve_conflict_def GetSyncObject_def Let_def
  by (auto intro!: guarantees_bind within_request [OF assms(1)] within_request [OF assms(2)] within_retry within_record
      within_db within_unidirectional [OF assms(1)] split: option.split sum.split)

section \<open>Rely and guarantee, combined\<close>

lemma rg_guarantees:
  assumes "rg R G Q p s" "guarantees H p"
  shows "rg R (\<lambda>s s'. G s s' \<and> H s s') Q p s"
  using assms
proof (induction p arbitrary: s rule: prog_induct)
  case (Act f)
  then show ?case by (auto simp: rg_Act guarantees_Act simp del: rg.simps(2) guarantees.simps(2))
qed auto

lemma rg_rely:
  assumes "rg R G Q p s" "\<And>s s'. R' s s' \<Longrightarrow> R s s'"
  shows "rg R' G Q p s"
  using assms(1)
proof (induction p arbitrary: s rule: prog_induct)
  case (Act f)
  then show ?case using assms(2) by (auto simp: rg_Act simp del: rg.simps(2))
qed (use assms(2) in auto)

section \<open>One secret\<close>

text \<open>
  By the result: without an error, the vaults already agreed (as far as the hash can tell), or one of
  them got the value of the other, as the recorded direction says; or a read of the target failed
  and the task went one way. An error may leave a value written or not.
\<close>

definition bi_post ::
  "(string option \<Rightarrow> bool) \<Rightarrow> 'w Engine \<Rightarrow> SyncConfig \<Rightarrow> string \<Rightarrow> string \<Rightarrow> view \<Rightarrow> go_error option \<Rightarrow> view \<Rightarrow> bool"
where
  "bi_post missed e syncCfg b n before r after =
     (case before of (x, y, old, d) \<Rightarrow> case after of (x', y', new, d') \<Rightarrow> d' = d \<and>
       (uni_post e syncCfg b n before r after \<and> (r = None \<longrightarrow> missed y) \<or>
        (\<exists>v w. x = Some v \<and> y = Some w \<and>
          (case r of
             None \<Rightarrow>
               (if hashString e v = hashString e w then x' = x \<and> y' = y
                else if conflict_direction old = ''source_to_target'' then x' = x \<and> y' = x
                else x' = y \<and> y' = y)
           | Some err \<Rightarrow> (x' = x \<or> x' = y) \<and> (y' = y \<or> y' = x)))))"

context vault_world begin

lemma triple_get_object:
  "triple (look contents sid a b n) (only contents P k) (\<lambda>v. v = (x, y, old, d))
    (GetSyncObject sid a b n)
    (\<lambda>r v. v = (x, y, old, d) \<and> (case r of Inl err \<Rightarrow> True | Inr found \<Rightarrow> found = old))"
  unfolding GetSyncObject_def db_exec_def
proof (rule triple_act)
  fix s :: "'w sys" assume A: "look contents sid a b n s = (x, y, old, d)"
  let ?r = "let s' = s\<lparr>tick := Suc (tick s)\<rparr> in case db_error s (tick s) of
      None \<Rightarrow> (Inr (find_object (sid, a, b, n) s'), s') | Some e \<Rightarrow> (Inl e, s')"
  have "find_object (sid, a, b, n) (s\<lparr>tick := Suc (tick s)\<rparr>) = old"
    using A by (simp add: look_def find_object_def)
  with A show "only contents P k s (snd (let s' = s\<lparr>tick := Suc (tick s)\<rparr> in case db_error s (tick s) of
        Some e \<Rightarrow> (Inl e, s') | None \<Rightarrow> (Inr (find_object (sid, a, b, n) s'), s'))) \<and>
    look contents sid a b n (snd (let s' = s\<lparr>tick := Suc (tick s)\<rparr> in case db_error s (tick s) of
        Some e \<Rightarrow> (Inl e, s') | None \<Rightarrow> (Inr (find_object (sid, a, b, n) s'), s'))) = (x, y, old, d) \<and>
    (case fst (let s' = s\<lparr>tick := Suc (tick s)\<rparr> in case db_error s (tick s) of
        Some e \<Rightarrow> (Inl e, s') | None \<Rightarrow> (Inr (find_object (sid, a, b, n) s'), s')) of
       Inl err \<Rightarrow> True | Inr found \<Rightarrow> found = old)"
    by (simp add: Let_def split: option.split)
qed

end

lemma rg_guarantee:
  assumes "rg R G Q p s" "\<And>s s'. G s s' \<Longrightarrow> G' s s'"
  shows "rg R G' Q p s"
  using assms(1)
proof (induction p arbitrary: s rule: prog_induct)
  case (Act f)
  then show ?case using assms(2) by (auto simp: rg_Act simp del: rg.simps(2))
qed auto

lemma triple_guarantee:
  assumes "triple seen G A p B" "\<And>s s'. G s s' \<Longrightarrow> G' s s'"
  shows "triple seen G' A p B"
  using assms unfolding triple_def by (blast intro: rg_guarantee)

text \<open>Recording an outcome when a write to either vault may have happened.\<close>

lemma triple_record_any:
  assumes "\<And>t. key_of (obj t) = (sid, a, b, n)"
    and "\<And>v. I v \<Longrightarrow> (case v of (x', y', old', d') \<Rightarrow> A x' y' \<and> d' = d)"
    and "\<And>x' y' new. A x' y' \<Longrightarrow> Q result (x', y', new, d)"
  shows "triple (look contents sid a b n) (only contents P (sid, a, b, n)) I (record_object obj result) Q"
  by (rule triple_conseq [OF triple_record [OF assms(1), where A = A and D = "\<lambda>d'. d' = d" and result = result]])
    (use assms(2,3) in auto)

context vault_world begin

lemma triple_to_target:
  assumes "backends b = Some tb" "(b, n) \<in> P" "a \<noteq> b"
  shows "triple (look contents sid a b n) (only contents P k) (\<lambda>v. v = (x, y, old, d))
    (withRetry policy (request (SetSecret tb n val)))
    (\<lambda>r v. v = (x, Some val, old, d) \<or> r \<noteq> None \<and> v = (x, y, old, d))"
  by (rule triple_conseq [OF triple_withRetry [OF triple_set_target [OF assms] triple_Sleep]])
    (auto split: option.splits)

lemma triple_to_source:
  assumes "backends a = Some be" "(a, n) \<in> P" "a \<noteq> b"
  shows "triple (look contents sid a b n) (only contents P k) (\<lambda>v. v = (x, y, old, d))
    (withRetry policy (request (SetSecret be n val)))
    (\<lambda>r v. v = (Some val, y, old, d) \<or> r \<noteq> None \<and> v = (x, y, old, d))"
  by (rule triple_conseq [OF triple_withRetry [OF triple_set_source [OF assms] triple_Sleep]])
    (auto split: option.splits)

lemma triple_resolve:
  assumes src: "backends (sc_Source syncCfg) = Some src" and tgt: "backends b = Some tb"
    and ab: "sc_Source syncCfg \<noteq> b" and differ: "hashString e v \<noteq> hashString e w"
  shows "triple (look contents (sc_ID syncCfg) (sc_Source syncCfg) b n)
    (only contents {(sc_Source syncCfg, n), (b, n)} (sc_ID syncCfg, sc_Source syncCfg, b, n))
    (\<lambda>u. u = (Some v, Some w, old, d)) (resolve_conflict e syncCfg b n src tb v w old)
    (bi_post missed e syncCfg b n (Some v, Some w, old, d))"
    (is "triple ?look ?G _ _ ?post")
proof (cases "conflict_direction old = ''source_to_target''")
  case True
  show ?thesis
    unfolding resolve_conflict_def Let_def if_P [OF True]
  proof (rule triple_bind [OF triple_to_target [OF tgt _ ab]], simp)
    fix res :: "go_error option"
    show "triple ?look ?G (\<lambda>u. u = (Some v, Some v, old, d) \<or> res \<noteq> None \<and> u = (Some v, Some w, old, d))
      (case res of
        Some err \<Rightarrow> record_object (\<lambda>now. sync_object syncCfg b n
          (hashString e v) (hashString e w) now ''failed'' err ''source_to_target'') (Some err)
      | None \<Rightarrow> record_object (\<lambda>now. sync_object syncCfg b n
          (hashString e v) (hashString e v) now ''success'' [] (conflict_direction old)) None) ?post"
      using differ True
      by (cases res) (auto intro!: triple_record_any
        [where A = "\<lambda>x' y'. x' = Some v \<and> (y' = Some v \<or> res \<noteq> None \<and> y' = Some w)" and d = d]
        simp: bi_post_def)
  qed
next
  case False
  show ?thesis
    unfolding resolve_conflict_def Let_def if_not_P [OF False]
  proof (rule triple_bind [OF triple_to_source [OF src _ ab]], simp)
    fix res :: "go_error option"
    show "triple ?look ?G (\<lambda>u. u = (Some w, Some w, old, d) \<or> res \<noteq> None \<and> u = (Some v, Some w, old, d))
      (case res of
        Some err \<Rightarrow> record_object (\<lambda>now. sync_object syncCfg b n
          (hashString e v) (hashString e w) now ''failed'' err ''target_to_source'') (Some err)
      | None \<Rightarrow> record_object (\<lambda>now. sync_object syncCfg b n
          (hashString e w) (hashString e w) now ''success'' [] (conflict_direction old)) None) ?post"
      using differ False
      by (cases res) (auto intro!: triple_record_any
        [where A = "\<lambda>x' y'. y' = Some w \<and> (x' = Some w \<or> res \<noteq> None \<and> x' = Some v)" and d = d]
        simp: bi_post_def)
  qed
qed

lemma triple_compare:
  assumes src: "backends (sc_Source syncCfg) = Some src" and tgt: "backends b = Some tb"
    and ab: "sc_Source syncCfg \<noteq> b"
  shows "triple (look contents (sc_ID syncCfg) (sc_Source syncCfg) b n)
    (only contents {(sc_Source syncCfg, n), (b, n)} (sc_ID syncCfg, sc_Source syncCfg, b, n))
    (\<lambda>u. u = (Some v, Some w, old, d)) (compare_secrets e syncCfg b n src tb v w)
    (bi_post missed e syncCfg b n (Some v, Some w, old, d))"
    (is "triple ?look ?G _ _ ?post")
proof (cases "hashString e v = hashString e w")
  case True
  then show ?thesis
    by (auto intro!: triple_record_any [where A = "\<lambda>x' y'. x' = Some v \<and> y' = Some w" and d = d]
        simp: compare_secrets_def bi_post_def Let_def)
next
  case False
  show ?thesis
    unfolding compare_secrets_def Let_def if_not_P [OF False]
  proof (rule triple_bind [OF triple_get_object])
    fix found :: "go_error + SyncObject option"
    show "triple ?look ?G (\<lambda>u. u = (Some v, Some w, old, d) \<and> (case found of Inl err \<Rightarrow> True | Inr f \<Rightarrow> f = old))
      (case found of
         Inl err \<Rightarrow> Return (Some (''failed to get sync object: '' @ err))
       | Inr existingObj \<Rightarrow> resolve_conflict e syncCfg b n src tb v w existingObj) ?post"
    proof (cases found)
      case (Inl err)
      then show ?thesis by (auto intro!: triple_return simp: bi_post_def)
    next
      case (Inr f)
      then show ?thesis using triple_resolve [OF src tgt ab False] by (auto simp: triple_def)
    qed
  qed
qed

text \<open>
  The task among others that change neither what it sees nor leave the reachable worlds; it goes one
  way only when its read of the target has failed in a reachable world.
\<close>

definition reachable_rely ::
  "'w Engine \<Rightarrow> 'w \<Rightarrow> ('w sys \<Rightarrow> 'v) \<Rightarrow> 'w sys \<Rightarrow> 'w sys \<Rightarrow> bool"
where
  "reachable_rely e w0 seen s s' \<longleftrightarrow> unchanged seen s s' \<and> within e w0 s s'"

lemma triple_reachable:
  "triple seen G A p B \<Longrightarrow> A (seen s) \<Longrightarrow> rg (reachable_rely e w0 seen) G (\<lambda>r s. B r (seen s)) p s"
  by (rule rg_rely [of "unchanged seen"]) (simp_all add: triple_def reachable_rely_def)

lemma reachable_rely_refl: "reflp (reachable_rely e w0 seen)" and reachable_rely_trans: "transp (reachable_rely e w0 seen)"
  by (auto simp: reachable_rely_def unchanged_def within_def reflp_def transp_def)

lemma rg_read:
  fixes s :: "'w sys"
  assumes e: "e_backends e = backends" and be: "backends c = Some be"
    and c: "\<And>t :: 'w sys. look contents sid a b n t = before \<Longrightarrow> contents (vaults t) c n = z"
    and s: "look contents sid a b n s = before" "reachable_world e w0 (vaults s)"
  shows "rg (reachable_rely e w0 (look contents sid a b n)) (only contents P k)
    (\<lambda>r s'. look contents sid a b n s' = before \<and> reachable_world e w0 (vaults s') \<and>
      (case r of Inl err \<Rightarrow> read_fails e w0 contents be c n z | Inr sec \<Rightarrow> z = Some (s_Value sec)))
    (request (GetSecret be n)) s"
  unfolding request_def
proof (rule rg_act)
  let ?f = "\<lambda>s :: 'w sys. case GetSecret be n (vaults s) of (r, w) \<Rightarrow> (r, s\<lparr>vaults := w\<rparr>)"
  have same: "contents (snd (GetSecret be n w)) = contents w" for w
    by (rule get_contents [OF be])
  show "only contents P k t (snd (?f t))" for t
    by (simp add: only_def find_object_def same case_prod_unfold)
  fix t t' :: "'w sys"
  assume rely: "reachable_rely e w0 (look contents sid a b n) s t" "reachable_rely e w0 (look contents sid a b n) (snd (?f t)) t'"
  then have t: "look contents sid a b n t = before" "reachable_world e w0 (vaults t)"
    using s by (simp_all add: reachable_rely_def unchanged_def within_def)
  have "look contents sid a b n (snd (?f t)) = before"
    using t(1) by (simp add: look_def find_object_def same case_prod_unfold)
  moreover have "reachable_world e w0 (vaults (snd (?f t)))"
    using reachable_world.got [OF t(2), of c be n] e be by (simp add: case_prod_unfold)
  ultimately have t': "look contents sid a b n t' = before" "reachable_world e w0 (vaults t')"
    using rely(2) by (simp_all add: reachable_rely_def unchanged_def within_def)
  have "case fst (GetSecret be n (vaults t)) of Inl err \<Rightarrow> read_fails e w0 contents be c n z | Inr sec \<Rightarrow> z = Some (s_Value sec)"
    using t(2) c [OF t(1)] get_value [OF be, of n "vaults t"] by (auto simp: read_fails_def split: sum.split)
  with t' show "look contents sid a b n t' = before \<and> reachable_world e w0 (vaults t') \<and>
      (case fst (?f t) of Inl err \<Rightarrow> read_fails e w0 contents be c n z | Inr sec \<Rightarrow> z = Some (s_Value sec))"
    by (simp add: case_prod_unfold)
qed

lemma rg_bidirectional:
  assumes e: "e_backends e = backends" and src: "backends (sc_Source syncCfg) = Some src"
    and tgt: "backends b = Some tb" and ab: "sc_Source syncCfg \<noteq> b"
    and s: "look contents (sc_ID syncCfg) (sc_Source syncCfg) b n s = before" "reachable_world e w0 (vaults s)"
  shows "rg (reachable_rely e w0 (look contents (sc_ID syncCfg) (sc_Source syncCfg) b n))
    (only contents {(sc_Source syncCfg, n), (b, n)} (sc_ID syncCfg, sc_Source syncCfg, b, n))
    (\<lambda>r s'. bi_post (read_fails e w0 contents tb b n) e syncCfg b n before r
      (look contents (sc_ID syncCfg) (sc_Source syncCfg) b n s'))
    (syncSecretBidirectional e syncCfg b n src tb) s"
    (is "rg ?R ?G ?post _ _")
proof -
  let ?look = "look contents (sc_ID syncCfg) (sc_Source syncCfg) b n"
  let ?missed = "read_fails e w0 contents tb b n"
  obtain x y old d where before: "before = (x, y, old, d)" by (cases before) blast
  have parts: "contents (vaults t) (sc_Source syncCfg) n = x" "contents (vaults t) b n = y" if "?look t = before" for t
    using that by (simp_all add: before look_def)
  have one_way: "rg ?R ?G ?post (syncSecretUnidirectional e syncCfg b n src) t" if "?look t = before" "?missed y" for t
  proof (rule triple_reachable [OF triple_conseq [where A' = "\<lambda>v. v = before", OF triple_guarantee [OF triple_unidirectional [OF e src ab, where before = before]]]])
    show "only contents {(b, n)} k s s' \<Longrightarrow> only contents {(sc_Source syncCfg, n), (b, n)} k s s'" for k s s'
      by (rule only_conseq) auto
  qed (use that in \<open>auto simp: bi_post_def before uni_post_def\<close>)
  have compare: "rg ?R ?G ?post (compare_secrets e syncCfg b n src tb v w) t"
    if "?look t = before" "x = Some v" "y = Some w" for t v w
    by (rule triple_reachable [OF triple_compare [OF src tgt ab, where v = v and w = w and old = old and d = d
          and missed = ?missed, folded that before], folded before]) (use that in \<open>simp_all add: before\<close>)
  show ?thesis
    unfolding syncSecretBidirectional_def
  proof (rule rg_bind [OF rg_conseq [OF rg_read [OF e src parts(1) s]] reachable_rely_refl], assumption)
    fix got :: "go_error + Secret" and t
    assume A: "?look t = before \<and> reachable_world e w0 (vaults t) \<and>
      (case got of Inl err \<Rightarrow> read_fails e w0 contents src (sc_Source syncCfg) n x | Inr sec \<Rightarrow> x = Some (s_Value sec))"
    show "rg ?R ?G ?post (case got of
        Inl err \<Rightarrow> Return (Some (''failed to get secret from source: '' @ err))
      | Inr sourceSecret \<Rightarrow>
          bind_prog (request (GetSecret tb n)) (\<lambda>got2. case got2 of
            Inl err \<Rightarrow> syncSecretUnidirectional e syncCfg b n src
          | Inr targetSecret \<Rightarrow> compare_secrets e syncCfg b n src tb (s_Value sourceSecret) (s_Value targetSecret))) t"
    proof (cases got)
      case (Inl err)
      with A show ?thesis by (auto simp: reachable_rely_def unchanged_def bi_post_def uni_post_def before)
    next
      case (Inr sec)
      with A have x: "x = Some (s_Value sec)" and t: "?look t = before" "reachable_world e w0 (vaults t)" by simp_all
      show ?thesis
        unfolding Inr sum.case
      proof (rule rg_bind [OF rg_conseq [OF rg_read [OF e tgt parts(2) t]] reachable_rely_refl], assumption)
        fix got2 :: "go_error + Secret" and t
        assume "?look t = before \<and> reachable_world e w0 (vaults t) \<and>
          (case got2 of Inl err \<Rightarrow> ?missed y | Inr sec \<Rightarrow> y = Some (s_Value sec))"
        then show "rg ?R ?G ?post (case got2 of
            Inl err \<Rightarrow> syncSecretUnidirectional e syncCfg b n src
          | Inr targetSecret \<Rightarrow> compare_secrets e syncCfg b n src tb (s_Value sec) (s_Value targetSecret)) t"
          using one_way [of t] compare [of t] x by (cases got2) simp_all
      qed
    qed
  qed
qed

end

section \<open>A whole run\<close>

definition bi_done ::
  "(string \<Rightarrow> string option \<Rightarrow> bool) \<Rightarrow> ('w \<Rightarrow> string \<Rightarrow> string \<Rightarrow> string option) \<Rightarrow> 'w Engine \<Rightarrow> SyncConfig \<Rightarrow> string \<Rightarrow>
   'w sys \<Rightarrow> 'w sys \<Rightarrow> string \<Rightarrow> bool \<Rightarrow> bool" where
  "bi_done missed contents e syncCfg b s s' n ok \<longleftrightarrow>
     (\<exists>res. ok = (res = None) \<and>
        bi_post (missed n) e syncCfg b n (look contents (sc_ID syncCfg) (sc_Source syncCfg) b n s) res
          (look contents (sc_ID syncCfg) (sc_Source syncCfg) b n s'))"

lemma rg_goroutine:
  assumes "rg R G Q task s"
  shows "rg R G (\<lambda>ok s'. \<exists>res. ok = (res = None) \<and> Q res s') (goroutine_body task) s"
  using assms unfolding goroutine_body_def
proof (induction task arbitrary: s rule: prog_induct)
  case (Act f)
  then show ?case unfolding bind_Act rg_Act by (auto simp del: rg.simps(2))
qed auto

context vault_world begin

lemma bidirectional_task:
  assumes e: "e_backends e = backends" and src: "backends (sc_Source syncCfg) = Some src"
    and tgt: "backends b = Some tb" and ab: "sc_Source syncCfg \<noteq> b" and s: "reachable_world e w0 (vaults s)"
  shows "rg (reachable_rely e w0 (look contents (sc_ID syncCfg) (sc_Source syncCfg) b n))
    (\<lambda>s s'. only contents {(sc_Source syncCfg, n), (b, n)} (sc_ID syncCfg, sc_Source syncCfg, b, n) s s' \<and> within e w0 s s')
    (\<lambda>ok. \<lambda>s'. \<exists>res. ok = (res = None) \<and> bi_post (read_fails e w0 contents tb b n) e syncCfg b n
       (look contents (sc_ID syncCfg) (sc_Source syncCfg) b n s) res (look contents (sc_ID syncCfg) (sc_Source syncCfg) b n s'))
    (goroutine_body (syncSecretBidirectional e syncCfg b n src tb)) s"
proof (rule rg_guarantees [OF rg_goroutine [OF rg_bidirectional [OF e src tgt ab refl s]]])
  show "guarantees (within e w0) (goroutine_body (syncSecretBidirectional e syncCfg b n src tb))"
    using within_bidirectional [of e syncCfg src b tb w0 n] src tgt e
    by (auto simp: goroutine_body_def)
qed

lemma bidirectional_pool:
  assumes e: "e_backends e = backends" and src: "backends (sc_Source syncCfg) = Some src"
    and tgt: "backends b = Some tb" and ab: "sc_Source syncCfg \<noteq> b" and names: "distinct names"
    and w0: "reachable_world e w0 (vaults s)"
    and run: "run_pool workers sched (bidirectional_tasks e syncCfg b src tb names) s = Some (r, s')"
  shows "\<exists>oks. r = collect oks \<lparr>Success = 0, Failure = 0\<rparr> \<and>
    list_all2 (bi_done (read_fails e w0 contents tb b) contents e syncCfg b s s') names oks \<and>
    all_places ({sc_Source syncCfg, b} \<times> set names) contents s s'"
proof -
  define seen where "seen = (\<lambda>i. look contents (sc_ID syncCfg) (sc_Source syncCfg) b (names ! i))"
  define R where "R = (\<lambda>i. reachable_rely e w0 (seen i))"
  define G where "G = (\<lambda>i s s'. only contents {(sc_Source syncCfg, names ! i), (b, names ! i)}
    (sc_ID syncCfg, sc_Source syncCfg, b, names ! i) s s' \<and> within e w0 s s')"
  define Q where "Q = (\<lambda>i ok s'. \<exists>res. ok = (res = None) \<and>
    bi_post (read_fails e w0 contents tb b (names ! i)) e syncCfg b (names ! i) (seen i s) res (seen i s'))"
  let ?tasks = "bidirectional_tasks e syncCfg b src tb names" and ?T = "all_places ({sc_Source syncCfg, b} \<times> set names) contents"
  have len: "length ?tasks = length names" by (simp add: bidirectional_tasks_def)
  have compat: "compatible (length ?tasks) R G"
    unfolding compatible_def
  proof (intro conjI allI impI)
    show "reflp (R i)" "transp (R i)" for i by (simp_all add: R_def reachable_rely_refl reachable_rely_trans)
    fix i j s s' assume i: "i < length ?tasks" and j: "j < length ?tasks" and ij: "i \<noteq> j" and g: "G i s s'"
    have "names ! j \<noteq> names ! i" using names i j ij by (simp add: len nth_eq_iff_index_eq)
    then have "unchanged (seen j) s s'"
      using only_unchanged [OF conjunct1 [OF g [unfolded G_def]], of "sc_Source syncCfg" "names ! j" b] by (auto simp: seen_def)
    with g show "R j s s'" by (simp add: R_def G_def reachable_rely_def)
  qed
  have tasks: "rg (R i) (G i) (Q i) (?tasks ! i) s" if i: "i < length ?tasks" for i
    using bidirectional_task [OF e src tgt ab w0, of "names ! i"] i
    by (simp add: bidirectional_tasks_def R_def G_def Q_def seen_def)
  have places: "?T s s'" if "i < length ?tasks" "G i s s'" for i s s'
  proof -
    have "{(sc_Source syncCfg, names ! i), (b, names ! i)} \<subseteq> {sc_Source syncCfg, b} \<times> set names"
      using that(1) by (auto simp: len)
    with that(2) show ?thesis unfolding G_def only_def all_places_def by (meson subsetD)
  qed
  from run_pool_run [OF run] obtain gs where gs: "pool_run workers (spawn ?tasks, s) (gs, s')" "all_done gs"
    "r = collect (outcomes gs) \<lparr>Success = 0, Failure = 0\<rparr>" by blast
  have "length (outcomes gs) = length ?tasks \<and> (\<forall>i < length ?tasks. Q i (outcomes gs ! i) s') \<and> ?T s s'"
    by (rule pool_rely_guarantee [OF gs(1,2) compat tasks all_places_order places])
  then have each: "length (outcomes gs) = length names" "\<forall>i < length names. Q i (outcomes gs ! i) s'" "?T s s'"
    by (simp_all add: len)
  have "list_all2 (bi_done (read_fails e w0 contents tb b) contents e syncCfg b s s') names (outcomes gs)"
    by (rule all_indexed) (use each(1,2) in \<open>simp_all add: bi_done_def Q_def seen_def\<close>)
  with gs(3) each(3) show ?thesis by blast
qed

lemma run_request_list:
  assumes "run_prog (request (ListSecrets be)) s = (l, s')" "e_backends e b = Some be" "reachable_world e w0 (vaults s)"
  shows "reachable_world e w0 (vaults s')"
  using assms reachable_world.listed [OF assms(3,2)] by (auto simp: request_def split: prod.splits)

lemma ExecuteSync_bidirectional:
  assumes e: "e_backends e = backends" and src: "backends (sc_Source syncCfg) = Some src"
    and bi: "sc_SyncType syncCfg = ''bidirectional''"
    and targets: "sc_Targets syncCfg = b # bs" "backends b = Some tb" "sc_Source syncCfg \<noteq> b"
    and run: "ExecuteSync e syncCfg sched s = Some (out, s')"
  shows "(same_state contents s s' \<and> (out = Completed \<longrightarrow> run_recorded syncCfg \<lparr>Success = 0, Failure = 0\<rparr> s')) \<or>
    (\<exists>names oks. set names = {n. n \<in> dom (contents (vaults s) (sc_Source syncCfg)) \<and> covered (sc_Filter syncCfg) n} \<and>
       distinct names \<and> out = Completed \<and> run_recorded syncCfg (collect oks \<lparr>Success = 0, Failure = 0\<rparr>) s' \<and>
       list_all2 (bi_done (read_fails e (vaults s) contents tb b) contents e syncCfg b s s') names oks \<and>
       all_places ({sc_Source syncCfg, b} \<times> set names) contents s s')"
proof -
  define s1 where "s1 = s\<lparr>tick := Suc (tick s)\<rparr>"
  obtain l s2 where l: "run_prog (request (ListSecrets src)) s1 = (l, s2)" by (rule prod.exhaust)
  have same2: "same_state contents s s2"
    using run_list [OF src l] same_state_trans [of contents s s1 s2] by (simp add: s1_def)
  have reach2: "reachable_world e (vaults s) (vaults s2)"
    using run_request_list [OF l src [folded e]] by (simp add: s1_def reachable_world.at_start)
  show ?thesis
  proof (cases l)
    case (Inl err)
    with run l e src have "run_prog (bind_prog time_now (\<lambda>t.
        bind_prog (RecordSyncRun (sc_ID syncCfg) ''failed'' 0 0 (Milliseconds (t - clock s (tick s)))
          (''failed to list secrets from source: '' @ err)) (\<lambda>_. Return (Failed err)))) s2 = (out, s')"
      by (simp add: ExecuteSync_def run_time_now s1_def)
    then have "out = Failed err \<and> same_state contents s2 s'"
      using run_record_run by (fastforce simp: run_time_now same_state_def split: prod.splits)
    with same2 show ?thesis using same_state_trans by blast
  next
    case (Inr secrets)
    obtain l2 s3 where l2: "run_prog (request (ListSecrets src)) s2 = (l2, s3)" by (rule prod.exhaust)
    have same3: "same_state contents s s3"
      using run_list [OF src l2] same_state_trans [OF same2] by blast
    have reach3: "reachable_world e (vaults s) (vaults s3)"
      using run_request_list [OF l2 src [folded e]] reach2 by blast
    from run l e src bi targets Inr obtain r s4 where r:
      "executeSyncBidirectionalConcurrent e syncCfg b src tb (worker_count syncCfg) sched s2 = Some (r, s4)"
      "finish_run syncCfg (clock s (tick s)) r s4 = (out, s')"
      by (auto simp: ExecuteSync_def run_time_now s1_def)
    note fin = run_finish [OF r(2), of contents]
    show ?thesis
    proof (cases l2)
      case (Inl err)
      with r(1) l2 have "r = \<lparr>Success = 0, Failure = 0\<rparr>" "s4 = s3"
        by (simp_all add: executeSyncBidirectionalConcurrent_def)
      with fin same3 show ?thesis using same_state_trans by blast
    next
      case (Inr names)
      define cov where "cov = filterSecrets names (sc_Filter syncCfg)"
      have names: "set cov = {n. n \<in> dom (contents (vaults s) (sc_Source syncCfg)) \<and> covered (sc_Filter syncCfg) n}"
        "distinct cov"
        using run_list [OF src l2] Inr same2
        by (auto simp: cov_def filterSecrets_filter same_state_def)
      from r(1) l2 Inr have "run_pool (worker_count syncCfg) sched (bidirectional_tasks e syncCfg b src tb cov) s3 = Some (r, s4)"
        by (simp add: executeSyncBidirectionalConcurrent_def cov_def)
      from bidirectional_pool [OF e src targets(2,3) names(2) reach3 this] obtain oks where oks:
        "r = collect oks \<lparr>Success = 0, Failure = 0\<rparr>"
        "list_all2 (bi_done (read_fails e (vaults s) contents tb b) contents e syncCfg b s3 s4) cov oks"
        "all_places ({sc_Source syncCfg, b} \<times> set cov) contents s3 s4" by blast
      have "bi_done (read_fails e (vaults s) contents tb b) contents e syncCfg b s s' = bi_done (read_fails e (vaults s) contents tb b) contents e syncCfg b s3 s4"
        using same_state_look [OF same3] same_state_look [of contents s4 s'] fin
        by (simp add: bi_done_def fun_eq_iff)
      with oks(2) have "list_all2 (bi_done (read_fails e (vaults s) contents tb b) contents e syncCfg b s s') cov oks" by simp
      moreover have "all_places ({sc_Source syncCfg, b} \<times> set cov) contents s s'"
        using oks(3) same3 fin by (simp add: all_places_def same_state_def)
      ultimately show ?thesis using names fin oks(1) by blast
    qed
  qed
qed

end

definition two_way :: "'w Engine \<Rightarrow> SyncConfig \<Rightarrow> string \<Rightarrow> bool" where
  "two_way e syncCfg b \<longleftrightarrow> sc_SyncType syncCfg = ''bidirectional'' \<and> e_backends e (sc_Source syncCfg) \<noteq> None \<and>
     e_backends e b \<noteq> None \<and> sc_Source syncCfg \<noteq> b \<and> sc_Targets syncCfg \<noteq> [] \<and> hd (sc_Targets syncCfg) = b"

text \<open>
  The secret in the two vaults after a run, and how a conflict between two values is settled: the
  source wins unless a sync object records another direction than \<open>target_to_source\<close>.
\<close>

definition pair_after ::
  "('w \<Rightarrow> string \<Rightarrow> string \<Rightarrow> string option) \<Rightarrow> SyncConfig \<Rightarrow> string \<Rightarrow> string \<Rightarrow> 'w sys \<Rightarrow> string option \<times> string option"
where
  "pair_after contents syncCfg b n s' = (contents (vaults s') (sc_Source syncCfg) n, contents (vaults s') b n)"

definition resolved ::
  "'w Engine \<Rightarrow> SyncConfig \<Rightarrow> string \<Rightarrow> string \<Rightarrow> 'w sys \<Rightarrow> string \<Rightarrow> string \<Rightarrow> string option \<times> string option"
where
  "resolved e syncCfg b n s v w =
     (if hashString e v = hashString e w then (Some v, Some w)
      else case find_object (sc_ID syncCfg, sc_Source syncCfg, b, n) s of
        None \<Rightarrow> (Some v, Some v)
      | Some obj \<Rightarrow> if so_DirectionLast obj = ''target_to_source'' then (Some v, Some v) else (Some w, Some w))"

lemma conflict_direction_source:
  "conflict_direction old = ''source_to_target'' \<longleftrightarrow>
     (case old of None \<Rightarrow> True | Some obj \<Rightarrow> so_DirectionLast obj = ''target_to_source'')"
  by (simp add: conflict_direction_def split: option.split)

lemma bi_done_success:
  assumes "bi_done (read_fails e (vaults s) contents tb b) contents e syncCfg b s s' n True" "contents (vaults s) (sc_Source syncCfg) n = Some v"
  shows "case contents (vaults s) b n of
      None \<Rightarrow> \<exists>v'. applyTransforms v (sc_Transforms syncCfg) = Inr v' \<and>
        pair_after contents syncCfg b n s' = (Some v, Some v')
    | Some w \<Rightarrow> pair_after contents syncCfg b n s' = resolved e syncCfg b n s v w \<or>
        read_fails e (vaults s) contents tb b n (Some w) \<and> (\<exists>v'. applyTransforms v (sc_Transforms syncCfg) = Inr v' \<and>
          pair_after contents syncCfg b n s' = (Some v, Some v'))"
proof -
  from assms(1) have "bi_post (read_fails e (vaults s) contents tb b n) e syncCfg b n (look contents (sc_ID syncCfg) (sc_Source syncCfg) b n s) None
      (look contents (sc_ID syncCfg) (sc_Source syncCfg) b n s')" by (auto simp: bi_done_def)
  with assms(2) show ?thesis
    by (auto simp: bi_post_def uni_post_def look_def pair_after_def resolved_def conflict_direction_source
        split: if_splits option.splits)
qed


section \<open>A concrete run\<close>

definition bi_sync :: SyncConfig where
  "bi_sync = example_sync\<lparr>sc_SyncType := ''bidirectional''\<rparr>"

definition bi_world :: "mock_world" where
  "bi_world = (\<lambda>b. \<lparr>secrets = (if b = ''a'' then [(''x'', ''1'')] else [(''x'', ''2'')]),
     listError = None, getError = None, setError = None\<rparr>)"

definition bi_state :: "mock_world sys" where
  "bi_state = example_state\<lparr>vaults := bi_world\<rparr>"

lemma bi_reachable: "reachable_world example_engine bi_world w \<Longrightarrow> getError (w b) = None"
  by (induction rule: reachable_world.induct)
    (auto simp: bi_world_def example_engine_def mock_backends_def mock_backend_def mock_SetSecret_def split: if_splits option.splits)

lemma bi_reads: "\<not> read_fails example_engine bi_world mock_contents (mock_backend b) b n (Some v)"
  using bi_reachable [of _ b]
  by (fastforce simp: read_fails_def mock_backend_def mock_GetSecret_def mock_contents_def split: option.splits)

lemma bi_tasks:
  "\<exists>s'. run_seq (bidirectional_tasks example_engine bi_sync ''b'' (mock_backend ''a'') (mock_backend ''b'') [''x''])
     (bi_state\<lparr>tick := Suc 0\<rparr>) = ([True], s') \<and> db_error s' = no_failures"
  by (simp add: bidirectional_tasks_def syncSecretBidirectional_def compare_secrets_def resolve_conflict_def
      conflict_direction_def GetSyncObject_def find_object_def hashString_def bi_sync_def bi_state_def bi_world_def
      engine_defs example_defs numeral_2_eq_2)

lemma bi_run:
  "\<exists>sched s'. ExecuteSync example_engine bi_sync sched bi_state = Some (Completed, s') \<and>
     run_Status (last (syncs_run s')) = ''success''"
proof -
  let ?src = "mock_backend ''a''" and ?tgt = "mock_backend ''b''" and ?s1 = "bi_state\<lparr>tick := Suc 0\<rparr>"
  let ?tasks = "bidirectional_tasks example_engine bi_sync ''b'' ?src ?tgt [''x'']"
  from bi_tasks obtain s' where s': "run_seq ?tasks ?s1 = ([True], s')" "db_error s' = no_failures"
    by blast
  have "\<exists>sched. run_pool (worker_count bi_sync) sched ?tasks ?s1 = Some (\<lparr>Success = 1, Failure = 0\<rparr>, s')"
    using run_pool_seq [OF worker_count_pos, of bi_sync ?tasks ?s1] by (simp only: s'(1)) simp
  then obtain sched where
    sched: "run_pool (worker_count bi_sync) sched ?tasks ?s1 = Some (\<lparr>Success = 1, Failure = 0\<rparr>, s')" ..
  have l: "run_prog (request (ListSecrets ?src)) ?s1 = (Inr [''x''], ?s1)"
    by (simp add: request_def bi_state_def bi_world_def example_defs)
  have f: "filterSecrets [''x''] (sc_Filter bi_sync) = [''x'']"
    by (simp add: filterSecrets_def bi_sync_def example_sync_def matchPattern_def)
  have run: "ExecuteSync example_engine bi_sync sched bi_state =
      Some (finish_run bi_sync (clock bi_state 0) \<lparr>Success = 1, Failure = 0\<rparr> s')"
  proof -
    have "e_backends example_engine (sc_Source bi_sync) = Some ?src" "e_backends example_engine ''b'' = Some ?tgt"
      "sc_SyncType bi_sync = ''bidirectional''" "sc_Targets bi_sync = [''b'']" "tick bi_state = 0"
      by (simp_all add: bi_sync_def bi_state_def example_defs)
    with sched l f show ?thesis
      by (simp add: ExecuteSync_def run_time_now executeSyncBidirectionalConcurrent_def)
  qed
  obtain out s'' where fin: "finish_run bi_sync (clock bi_state 0) \<lparr>Success = 1, Failure = 0\<rparr> s' = (out, s'')"
    by (rule prod.exhaust)
  from run_finish [OF fin, of mock_contents] s'(2) have "out = Completed" "run_Status (last (syncs_run s'')) = ''success''"
    by (simp_all add: run_recorded_def run_status_def same_state_def)
  with run fin show ?thesis by (intro exI [of _ sched] exI [of _ s'']) simp
qed


end
