(* ===== verification/Spec2Isabelle.thy ===== *)
theory Spec2Isabelle
  imports Wordcut_Init Node_Names Glob_Results Glob_Flow Js_Events Js_Async Js_Timers Tinyseg Underscore_Wrappers Util_Layout Util_Format Assertions Inflight Function_Objects Go_Bisync
begin

text \<open>
  Verification of vaults-syncer.

  The repository holds a daemon that synchronizes secrets between vaults (Go) and its documentation
  site, whose search is served by two word segmenters in JavaScript: \<open>wordcut.js\<close> (Thai, with the
  packages it is bundled with) and \<open>tinyseg.js\<close> (Japanese), both under
  \<open>site/assets/javascripts/lunr/\<close>. Both parts are modelled, the scripts first.

  \<^bold>\<open>The scripts.\<close> Strings are lists of UTF-16 code units (\<open>jstring\<close>), exceptions the left values of
  a sum, reads out of range the value \<open>undefined\<close>. \<open>Js_Prelude\<close>, \<open>Decimal\<close> and \<open>Js_Text\<close> hold the
  operations of the language and lemmas on lists and numerals.

  \<^item> \<open>Wordcut_Types\<close>, \<open>Wordcut_Dict\<close>, \<open>Wordcut_Rules\<close>, \<open>Wordcut_Acceptors\<close>, \<open>Wordcut_Path\<close>,
    \<open>Wordcut_Core\<close> and \<open>Wordcut_Init\<close> are the modules 1 to 8 of \<open>wordcut.js\<close>: the sorted
    dictionary with its binary search, the rules for Latin and Thai text, the engine that steps all
    living acceptors over a text, the table of best paths, and the entry points \<open>cut\<close>,
    \<open>cutIntoArray\<close> and \<open>cutIntoRanges\<close>. The lemmas show that the search finds exactly the words with
    a prefix, that each acceptor accepts exactly the words of its rule, that the engine holds
    exactly the acceptors that are still alive, that each entry of the table is a word on offer (of
    Latin letters, digits and spaces only whole runs are) or unknown, and no dearer than any word
    on offer taken after the entry at its start, and that the pieces of a text are non-empty and
    concatenate to it. The embedded word list is a parameter.
  \<^item> \<open>Brace_Expansion\<close> are the modules 10, 11 and 13; \<open>Glob_Match\<close>, \<open>Glob_Parse\<close> and
    \<open>Glob_Minimatch\<close> the module 20 (\<open>minimatch\<close>): expansion of braces, compilation of a pattern to
    parts, matching of the parts of a path. The lemmas give a declarative relation that matching
    decides, the quoting of paths, negation, and what sets and sequences in braces expand to. The
    engine for regular expressions and the lower-case mapping are a parameter (\<open>js_engine\<close>).
  \<^item> \<open>Glob_Common\<close> and \<open>Glob_Sync\<close> are the modules 15 and 17 (\<open>glob\<close>): options, caches, and the
    synchronous walk over a file system, which is a parameter (\<open>host\<close>). \<open>Glob_Walk\<close> relates the
    caches and the steps of the walk to the paths that occur in a file system, and
    \<open>Glob_Results\<close> concludes about \<open>glob.sync\<close> with relative patterns and the usual options: what
    it returns matches a pattern, and exists but for one exception (a path such as \<open>f/x\<close> of
    \<open>f/x/*\<close>, read as a directory because a pattern names it, passes for a file when its listing
    fails with \<open>ENOTDIR\<close>, so that \<open>{f/x/*,f/x}\<close> may return a path that does not exist); it is
    sorted and without duplicates, and comes within \<open>(length pattern + 1) * (d + 2)\<close> nested calls
    in a file system whose directories more than \<open>d\<close> names below the root have no entries. The
    counter of a numeric sequence in braces is an unbounded integer (the program rounds beyond \<open>2^53\<close>),
    and the results are sorted by one fixed stable sort.
  \<^item> \<open>Glob_Async\<close> is the module 16, the walker with callbacks: closures are values with the variables
    that they capture, operations of the file system complete in any order, requests are shared
    while in flight. \<open>Glob_Flow\<close> counts what callbacks, operations and ticks hold, and shows for every
    order of completions, pauses and resumptions that the counter of open patterns is right, that
    each request is answered once and that a walk does not stall; that a larger bound on the nested
    calls changes no result; and that the end can be announced too early.
  \<^item> \<open>Node_Path\<close> and \<open>Node_Names\<close> are the modules 22 and 23: the backward pass of \<open>normalizeArray\<close>
    is a stack walk, and \<open>normalize\<close>, \<open>resolve\<close>, \<open>relative\<close> have the laws that follow from it.
  \<^item> \<open>Js_Events\<close> is the module 14 (\<open>EventEmitter\<close>): listeners as lists, listeners that fire once.
    \<open>Js_Async\<close> are the modules 24 (the task queue of \<open>process.nextTick\<close>) and 21 (\<open>once\<close>), and
    \<open>Js_Timers\<close> the rest of 24: the timers that the shim remembers, whatever becomes of the globals.
  \<^item> \<open>Underscore_Base\<close>, \<open>Underscore_Collections\<close>, \<open>Underscore_Arrays\<close>, \<open>Underscore_Objects\<close>,
    \<open>Underscore_Functions\<close>, \<open>Underscore_Utilities\<close> and \<open>Underscore_Wrappers\<close> are the module 25, over the values of
    \<open>Js_Values\<close> and the keys and the sort of \<open>Js_Objects\<close>: a callback is a program that may change a
    state and throw. The lemmas give the reference function of each loop (\<open>sortBy\<close> is the stable
    sort on every engine, whatever its own sort does with equal elements, \<open>groupBy\<close> the grouping,
    \<open>sortedIndex\<close> the least position, \<open>pick\<close> and \<open>omit\<close> the selected properties and the others), the set operations up to
    the equality of \<open>contains\<close>, deep comparison as equality of shapes, and what the wrappers of
    functions promise over every sequence of calls and timer events (\<open>throttle\<close>, \<open>debounce\<close>,
    \<open>memoize\<close>, \<open>after\<close>, \<open>before\<close>). Values are snapshots without cycles, their finite numbers
    integers, and no property is called \<open>__proto__\<close>.
  \<^item> \<open>Util_Inspect\<close>, \<open>Util_Layout\<close> and \<open>Util_Format\<close> are the modules 27 and 28 (\<open>util\<close>), over
    \<open>JSON.stringify\<close> and the loose comparison of \<open>Js_Json\<close>: a shown string is a literal that reads
    back as the string, colours change neither text nor layout, a number as depth bounds the frames
    that \<open>inspect\<close> needs, \<open>format\<close> agrees with the alternation of pieces and arguments, a deprecated
    function warns once. \<open>Assertions\<close> is the module 9 (\<open>assert\<close>): which assertions pass, and how its
    deep comparison relates to \<open>isEqual\<close> of the collection library.
  \<^item> \<open>Inflight\<close> is the module 18: one request of a key is under way at a time, and callbacks are
    answered in order. \<open>Function_Objects\<close> are \<open>wrappy\<close> (29) and \<open>inherits\<close> (19, 26).
  \<^item> \<open>Tinyseg_Tables\<close> and \<open>Tinyseg\<close> are \<open>tinyseg.js\<close>: the weights and the segmentation loop.

  \<^bold>\<open>The daemon.\<close> \<open>Go_Config\<close> is the package \<open>config\<close> (structures, defaults, validation);
  \<open>Go_Store\<close> the store of sync objects and runs (\<open>storage/store.go\<close>); \<open>Go_Filter\<close>, \<open>Go_Pool\<close>,
  \<open>Go_Engine\<close> model \<open>sync/engine.go\<close>: filters, transforms with Base64, the goroutines under a
  semaphore as a step relation with every interleaving, and the engine itself as programs over
  vaults, database, clock and sleeps. The store is shared by the goroutines, which interleave between
  the UPDATE and the INSERT of an upsert: shown is what any number of concurrent upserts leave of
  each key, and when one of them fails. \<open>Go_Sync\<close> states the interface of the vaults as a locale,
  which \<open>Go_Runs\<close> interprets on the vault of the engine's tests; \<open>Go_Runs\<close> and \<open>Go_Bisync\<close> hold the theorems
  about whole runs, one-way and bidirectional: what a run may write, what a successful run has
  written, that further one-way runs then change nothing, how a bidirectional run settles a conflict,
  that each run ends, what is recorded of it. The interface is what the engine relies on; a client
  that alters values (JSON encoded anew, output of a tool trimmed) does not meet it for those values.

  \<^bold>\<open>Bounds.\<close> A loop that may not end is a \<open>partial_function\<close> with the result \<open>None\<close> (\<open>ranges_loop\<close>,
  \<open>seq_loop\<close>). Fuel is used where a recursion goes through a callback: \<open>expand\<close> has one more than
  the number of closing braces, \<open>parse_part\<close> one more than the length of the pattern, and it is
  proved that more changes nothing (\<open>expandTop_fuel\<close>, \<open>parse_glob_enough\<close>); the executions of the
  event emitter, the task queue and the glob walk take a bound as an argument, and \<open>inspect\<close> and
  \<open>JSON.stringify\<close> the number of frames on the stack, beyond which the engine raises a range error.

  \<^bold>\<open>Not modelled.\<close> Of \<open>underscore\<close>, calls of wrappers with \<open>new\<close>, \<open>noConflict\<close>, \<open>isFinite\<close> and the
  fall-backs for engines without the native functions; on the side of the daemon the HTTP interface,
  users and sessions, the vault clients, the runner over its cron library and the SQL schema.
  Logging is left out everywhere.
\<close>

end
